(* ===== verification/Prelude.thy ===== *)
theory Prelude
  imports Main "HOL-Library.Word" "HOL-Library.Signed_Division"
begin

text \<open>
  Shared material: the machine types of LibPaxos, the ways a C call can fail, the result type
  of every fallible operation with its sequencing operator, a checked array read and write, a
  loop over a list of indices, and the lemmas on them that the component theories use.

  A C call that would leave the defined behaviour of the language (an index outside an
  allocated block, a read of a block that was never written, a NULL dereference, a copy larger
  than its buffer) or that ends the process (a failed \<open>assert\<close>, \<open>exit\<close>) is a value
  \<open>Inl e\<close> of the result type, so that "this never happens" is a statement about the model.
\<close>

section \<open>Machine types\<close>

type_synonym iid_t = "32 word"
type_synonym ballot_t = "32 word"
type_synonym size_t = "64 word"
type_synonym byte = "8 word"

section \<open>Failures and results\<close>

datatype error =
    OutOfBounds        \<comment> \<open>an array index outside the allocated block\<close>
  | Uninitialised      \<comment> \<open>a pointer read from memory that was never written\<close>
  | NullPointer        \<comment> \<open>a NULL pointer dereferenced or stored\<close>
  | DanglingPointer    \<comment> \<open>a pointer to a freed block dereferenced or freed\<close>
  | BufferOverflow     \<comment> \<open>a copy larger than its destination\<close>
  | AssertFailed       \<comment> \<open>\<open>assert\<close> with a false argument: the process aborts\<close>
  | ExitCode int       \<comment> \<open>\<open>exit\<close>: the process ends\<close>
  | DivisionByZero     \<comment> \<open>the operator \<open>%\<close> with a zero divisor\<close>
  | IntOverflow        \<comment> \<open>a conversion or sum outside the range of \<open>int\<close>\<close>
  | RecursionDepth     \<comment> \<open>a recursion deeper than the model follows\<close>

type_synonym 'a res = "error + 'a"

abbreviation Ok :: "'a \<Rightarrow> 'a res" where "Ok \<equiv> Inr"

abbreviation Err :: "error \<Rightarrow> 'a res" where "Err \<equiv> Inl"

definition rbind :: "'a res \<Rightarrow> ('a \<Rightarrow> 'b res) \<Rightarrow> 'b res" where
  "rbind m f = (case m of Inl e \<Rightarrow> Inl e | Inr x \<Rightarrow> f x)"

definition rassert :: "bool \<Rightarrow> unit res" where
  "rassert b = (if b then Ok () else Err AssertFailed)"

definition is_ok :: "'a res \<Rightarrow> bool" where
  "is_ok m = (case m of Inl e \<Rightarrow> False | Inr x \<Rightarrow> True)"

named_theorems res_simps \<open>rewriting of sequenced results\<close>

lemma rbind_Ok [simp]: "rbind (Ok x) f = f x"
  by (simp add: rbind_def)

lemma rbind_Err [simp]: "rbind (Err e) f = Err e"
  by (simp add: rbind_def)

lemma rbind_eq_Ok [res_simps]: "rbind m f = Ok y \<longleftrightarrow> (\<exists>x. m = Ok x \<and> f x = Ok y)"
  by (cases m) auto

lemma rbind_eq_Err [res_simps]:
  "rbind m f = Err e \<longleftrightarrow> m = Err e \<or> (\<exists>x. m = Ok x \<and> f x = Err e)"
  by (cases m) auto

lemma rbind_cong [fundef_cong]:
  "m = m' \<Longrightarrow> (\<And>x. m' = Ok x \<Longrightarrow> f x = g x) \<Longrightarrow> rbind m f = rbind m' g"
  by (cases m') auto

lemma rbind_assoc: "rbind (rbind m f) g = rbind m (\<lambda>x. rbind (f x) g)"
  by (cases m) auto

lemma rassert_True [simp]: "rassert True = Ok ()"
  by (simp add: rassert_def)

lemma rassert_eq_Ok [simp, res_simps]: "rassert b = Ok u \<longleftrightarrow> b"
  by (simp add: rassert_def)

lemma is_ok_simps [simp]: "is_ok (Ok x)" "\<not> is_ok (Err e)"
  by (simp_all add: is_ok_def)

lemma is_ok_iff: "is_ok m \<longleftrightarrow> (\<exists>x. m = Ok x)"
  by (cases m) auto

section \<open>Checked array access\<close>

text \<open>
  An array of pointers. \<open>None\<close> is an element that has not been written since the block was
  allocated.
\<close>

definition arr_read :: "'a option list \<Rightarrow> nat \<Rightarrow> 'a res" where
  "arr_read xs i =
     (if i < length xs then (case xs ! i of None \<Rightarrow> Err Uninitialised | Some x \<Rightarrow> Ok x)
      else Err OutOfBounds)"

definition arr_write :: "'a list \<Rightarrow> nat \<Rightarrow> 'a \<Rightarrow> 'a list res" where
  "arr_write xs i x = (if i < length xs then Ok (xs[i := x]) else Err OutOfBounds)"

lemma arr_write_ok [simp]: "i < length xs \<Longrightarrow> arr_write xs i x = Ok (xs[i := x])"
  by (simp add: arr_write_def)

lemma arr_write_eq_Ok [res_simps]:
  "arr_write xs i x = Ok ys \<longleftrightarrow> i < length xs \<and> ys = xs[i := x]"
  by (auto simp: arr_write_def)

lemma arr_read_ok: "i < length xs \<Longrightarrow> xs ! i = Some x \<Longrightarrow> arr_read xs i = Ok x"
  by (simp add: arr_read_def)

lemma arr_read_eq_Ok [res_simps]: "arr_read xs i = Ok x \<longleftrightarrow> i < length xs \<and> xs ! i = Some x"
  by (auto simp: arr_read_def split: option.splits)

text \<open>An \<open>int\<close> used as an index: a negative one is outside every block.\<close>

definition int_index :: "int \<Rightarrow> 'a list \<Rightarrow> nat res" where
  "int_index i xs = (if 0 \<le> i \<and> i < int (length xs) then Ok (nat i) else Err OutOfBounds)"

lemma int_index_eq_Ok [res_simps]:
  "int_index i xs = Ok k \<longleftrightarrow> 0 \<le> i \<and> i < int (length xs) \<and> k = nat i"
  by (auto simp: int_index_def)

section \<open>Loops\<close>

text \<open>A \<open>for\<close> loop over the given indices that stops at the first failure.\<close>

fun for_loop :: "nat list \<Rightarrow> (nat \<Rightarrow> 's \<Rightarrow> 's res) \<Rightarrow> 's \<Rightarrow> 's res" where
  "for_loop [] body s = Ok s"
| "for_loop (i # is) body s = rbind (body i s) (for_loop is body)"

lemma for_loop_append: "for_loop (is @ js) body s = rbind (for_loop is body s) (for_loop js body)"
proof (induction "is" arbitrary: s)
  case (Cons i "is")
  then show ?case by (cases "body i s") auto
qed simp

text \<open>An invariant of the loop: if it holds before and each iteration keeps it, it holds after.\<close>

lemma for_loop_upto_inv:
  assumes start: "I 0 s"
    and step: "\<And>i t. i < n \<Longrightarrow> I i t \<Longrightarrow> \<exists>t'. body i t = Ok t' \<and> I (Suc i) t'"
  shows "\<exists>t. for_loop [0..<n] body s = Ok t \<and> I n t"
  using step
proof (induction n)
  case 0
  with start show ?case by simp
next
  case (Suc n)
  then obtain t where t: "for_loop [0..<n] body s = Ok t" and inv: "I n t"
    by (metis less_Suc_eq)
  from Suc.prems [OF _ inv] obtain t' where "body n t = Ok t'" and "I (Suc n) t'"
    by auto
  with t show ?case by (auto simp: for_loop_append)
qed

section \<open>Lists\<close>

lemma nth_map_upt [simp]: "i < n \<Longrightarrow> map f [0..<n] ! i = f i"
  by simp

lemma list_eq_map_upt: "length xs = n \<Longrightarrow> (\<And>i. i < n \<Longrightarrow> xs ! i = f i) \<Longrightarrow> xs = map f [0..<n]"
  by (simp add: list_eq_iff_nth_eq)

lemma map_upt_Cons: "map f [0..<Suc n] = f 0 # map (\<lambda>i. f (Suc i)) [0..<n]"
  by (simp add: upt_conv_Cons map_Suc_upt [symmetric] comp_def del: upt_Suc)

lemma map_upt_snoc: "map f [0..<Suc n] = map f [0..<n] @ [f n]"
  by simp

lemma find_append:
  "List.find P (xs @ ys) = (case List.find P xs of None \<Rightarrow> List.find P ys | Some x \<Rightarrow> Some x)"
  by (induction xs) auto

text \<open>Two positions of a ring that are at most \<open>n\<close> apart are different slots.\<close>

lemma ring_slot_inj:
  fixes h i j n :: nat
  assumes "i < n" "j < n" "(h + i) mod n = (h + j) mod n"
  shows "i = j"
proof -
  have *: "p = q" if "p \<le> q" "q < n" "(h + p) mod n = (h + q) mod n" for p q :: nat
  proof -
    from that have "n dvd (h + q) - (h + p)" by (metis add_le_mono mod_eq_dvd_iff_nat order_refl)
    then have "n dvd q - p" by simp
    moreover have "q - p < n" using that by simp
    ultimately have "q - p = 0" by (metis dvd_imp_le not_le zero_less_iff_neq_zero)
    with \<open>p \<le> q\<close> show ?thesis by simp
  qed
  show ?thesis
    using *[of i j] *[of j i] assms by (cases "i \<le> j") auto
qed

section \<open>Unsigned words\<close>

lemma unat_less_2p32: "unat (w :: 32 word) < 4294967296"
  using unsigned_less [of w] by simp

lemma unat_plus_no_wrap:
  fixes a b :: "32 word"
  shows "unat a + unat b < 4294967296 \<Longrightarrow> unat (a + b) = unat a + unat b"
  by (simp add: unat_word_ariths)

text \<open>The conversion of an unsigned word to \<open>int\<close> is exact below the sign bit.\<close>

lemma sint_small:
  fixes w :: "32 word"
  assumes "unat w < 2 ^ 31"
  shows "sint w = int (unat w)"
proof -
  from assms have "int (unat w) < int (2 ^ 31)" by (simp only: of_nat_less_iff)
  then have "uint w < 2 ^ 31" by simp
  then have "signed_take_bit 31 (uint w) = uint w"
    by (intro signed_take_bit_int_eq_self) (auto intro: order_trans [of _ 0])
  then show ?thesis by (simp add: sint_uint)
qed

lemma unat_add_small:
  fixes w :: "32 word"
  assumes "unat w + k < 2 ^ 32"
  shows "unat (w + of_nat k) = unat w + k"
  using assms by (simp add: unat_word_ariths unat_of_nat)

text \<open>What every iteration keeps, the loop keeps.\<close>

lemma for_loop_keeps:
  assumes "for_loop is body s = Ok t" "\<And>i s t. body i s = Ok t \<Longrightarrow> P s \<Longrightarrow> P t" "P s"
  shows "P t"
  using assms by (induction "is" arbitrary: s) (auto simp: res_simps)

section \<open>Printed numbers\<close>

text \<open>What the conversion \<open>%d\<close> of \<open>printf\<close> writes.\<close>

definition digit :: "nat \<Rightarrow> char" where
  "digit n = char_of (48 + n)"

fun decimal :: "nat \<Rightarrow> string" where
  "decimal n = (if n < 10 then [digit n] else decimal (n div 10) @ [digit (n mod 10)])"

declare decimal.simps [simp del]

definition print_int :: "int \<Rightarrow> string" where
  "print_int i = (if i < 0 then CHR ''-'' # decimal (nat (- i)) else decimal (nat i))"

end
