(* ===== verification/Carray.thy ===== *)
theory Carray
  imports Prelude
begin

text \<open>
  The growable ring buffer of \<open>paxos/carray.c\<close>: a head, a tail, a capacity, a count and an
  array of pointers used as a circle. The first part translates the operations; the second
  gives the list that a buffer represents and the representation invariant, and shows that
  every operation keeps the invariant, never leaves the array and acts on the list as the
  operation of a double-ended queue. The locale \<open>deque\<close> is the interface the proposer and the
  network layer rely on; its interpretation on the operations of this file is \<open>cq\<close>.
\<close>

section \<open>Operations\<close>

record 'a carray =
  ca_head :: nat
  ca_tail :: nat
  ca_size :: nat
  ca_count :: nat
  ca_array :: "'a option list"

definition carray_new :: "nat \<Rightarrow> 'a carray" where
  "carray_new n =
     \<lparr>ca_head = 0, ca_tail = 0, ca_size = n, ca_count = 0, ca_array = replicate n None\<rparr>"

definition carray_full :: "'a carray \<Rightarrow> bool" where
  "carray_full a = (ca_count a = ca_size a)"

definition carray_empty :: "'a carray \<Rightarrow> bool" where
  "carray_empty a = (ca_count a = 0)"

definition carray_size :: "'a carray \<Rightarrow> nat" where
  "carray_size a = ca_size a"

definition carray_count :: "'a carray \<Rightarrow> nat" where
  "carray_count a = ca_count a"

text \<open>
  \<open>carray_at\<close> takes an \<open>int\<close>: the remainder of C truncates towards zero, so a negative sum
  gives a negative index. \<open>Ok None\<close> is the NULL it returns for an empty buffer.
\<close>

definition carray_slot :: "'a carray \<Rightarrow> int \<Rightarrow> nat res" where
  "carray_slot a i =
     (if ca_size a = 0 then Err DivisionByZero
      else int_index ((int (ca_head a) + i) smod int (ca_size a)) (ca_array a))"

definition carray_at :: "'a carray \<Rightarrow> int \<Rightarrow> 'a option res" where
  "carray_at a i =
     (if carray_empty a then Ok None
      else rbind (carray_slot a i) (\<lambda>k.
           rbind (arr_read (ca_array a) k) (\<lambda>p. Ok (Some p))))"

text \<open>The element a caller dereferences after \<open>carray_at\<close>; NULL is a failure there.\<close>

definition carray_item :: "'a carray \<Rightarrow> int \<Rightarrow> 'a res" where
  "carray_item a i =
     rbind (carray_at a i) (\<lambda>r. case r of None \<Rightarrow> Err NullPointer | Some p \<Rightarrow> Ok p)"

text \<open>
  A write through the pointer that \<open>carray_at\<close> returned. The elements of the model are the
  objects the C array points to, each in one buffer at a time, so updating the object is
  replacing the element.
\<close>

definition carray_set :: "'a carray \<Rightarrow> int \<Rightarrow> 'a \<Rightarrow> 'a carray res" where
  "carray_set a i p =
     rbind (carray_slot a i) (\<lambda>k.
     rbind (arr_write (ca_array a) k (Some p)) (\<lambda>arr. Ok (a\<lparr>ca_array := arr\<rparr>)))"

text \<open>
  \<open>carray_push_back\<close> calls \<open>carray_grow\<close> when the buffer is full, and \<open>carray_grow\<close> calls
  \<open>carray_push_back\<close> on a fresh buffer of twice the size. The nesting is counted: the second
  level is never full, which \<open>push_n_no_depth\<close> proves, so a depth of two is all there is.
\<close>

definition carray_put :: "'a carray \<Rightarrow> 'a \<Rightarrow> 'a carray res" where
  "carray_put a p =
     rbind (arr_write (ca_array a) (ca_tail a) (Some p)) (\<lambda>arr.
       if ca_size a = 0 then Err DivisionByZero
       else Ok (a\<lparr>ca_array := arr,
                  ca_tail := (ca_tail a + 1) mod ca_size a,
                  ca_count := ca_count a + 1\<rparr>))"

definition carray_grow_with ::
  "('a carray \<Rightarrow> 'a \<Rightarrow> 'a carray res) \<Rightarrow> 'a carray \<Rightarrow> 'a carray res" where
  "carray_grow_with push a =
     rbind (for_loop [0..<carray_count a]
              (\<lambda>i tmp. rbind (carray_item a (int i)) (push tmp))
              (carray_new (ca_size a * 2)))
       (\<lambda>tmp. Ok (a\<lparr>ca_head := 0, ca_tail := ca_tail tmp, ca_size := ca_size tmp,
                    ca_array := ca_array tmp\<rparr>))"

primrec carray_push_n :: "nat \<Rightarrow> 'a carray \<Rightarrow> 'a \<Rightarrow> 'a carray res" where
  "carray_push_n 0 = (\<lambda>a p. Err RecursionDepth)"
| "carray_push_n (Suc n) = (\<lambda>a p.
     rbind (if carray_full a then carray_grow_with (carray_push_n n) a else Ok a)
       (\<lambda>b. carray_put b p))"

definition carray_grow :: "'a carray \<Rightarrow> 'a carray res" where
  "carray_grow a = carray_grow_with (carray_push_n 1) a"

definition carray_push_back :: "'a carray \<Rightarrow> 'a \<Rightarrow> 'a carray res" where
  "carray_push_back a p = carray_push_n 2 a p"

definition carray_push_front :: "'a carray \<Rightarrow> 'a \<Rightarrow> 'a carray res" where
  "carray_push_front a p =
     rbind (if carray_full a then carray_grow a else Ok a) (\<lambda>b.
       if carray_empty b then carray_push_back b p
       else
         let h = (if int (ca_head b) - 1 \<ge> 0 then ca_head b - 1 else ca_size b - 1) in
         rbind (arr_write (ca_array b) h (Some p)) (\<lambda>arr.
           Ok (b\<lparr>ca_head := h, ca_array := arr, ca_count := ca_count b + 1\<rparr>)))"

definition carray_front :: "'a carray \<Rightarrow> 'a option res" where
  "carray_front a =
     (if carray_empty a then Ok None
      else rbind (arr_read (ca_array a) (ca_head a)) (\<lambda>p. Ok (Some p)))"

definition carray_pop_front :: "'a carray \<Rightarrow> ('a option \<times> 'a carray) res" where
  "carray_pop_front a =
     (if carray_empty a then Ok (None, a)
      else rbind (arr_read (ca_array a) (ca_head a)) (\<lambda>p.
        if ca_size a = 0 then Err DivisionByZero
        else Ok (Some p, a\<lparr>ca_head := (ca_head a + 1) mod ca_size a,
                           ca_count := ca_count a - 1\<rparr>)))"

text \<open>
  The searches call a C predicate \<open>match_fn\<close> that returns an \<open>int\<close>. \<open>carray_first_match\<close>
  leaves its loop at the first hit; the model keeps the hit and skips the rest.
\<close>

definition carray_first_match :: "'a carray \<Rightarrow> ('b \<Rightarrow> 'a \<Rightarrow> int) \<Rightarrow> 'b \<Rightarrow> 'a option res" where
  "carray_first_match a match_fn arg =
     for_loop [0..<carray_count a]
       (\<lambda>i found. case found of
           Some p \<Rightarrow> Ok (Some p)
         | None \<Rightarrow> rbind (carray_item a (int i)) (\<lambda>p.
                     Ok (if match_fn arg p \<noteq> 0 then Some p else None)))
       None"

definition carray_count_match :: "'a carray \<Rightarrow> ('b \<Rightarrow> 'a \<Rightarrow> int) \<Rightarrow> 'b \<Rightarrow> nat res" where
  "carray_count_match a match_fn arg =
     for_loop [0..<carray_count a]
       (\<lambda>i c. rbind (carray_item a (int i)) (\<lambda>p. Ok (if match_fn arg p \<noteq> 0 then c + 1 else c)))
       0"

definition carray_map :: "'a carray \<Rightarrow> ('b \<Rightarrow> 'a \<Rightarrow> int) \<Rightarrow> 'b \<Rightarrow> int \<Rightarrow> 'a carray res" where
  "carray_map a match_fn arg match =
     for_loop [0..<carray_count a]
       (\<lambda>i new. rbind (carray_item a (int i)) (\<lambda>p.
          if match_fn arg p = match then carray_push_back new p else Ok new))
       (carray_new (ca_size a))"

definition carray_collect :: "'a carray \<Rightarrow> ('b \<Rightarrow> 'a \<Rightarrow> int) \<Rightarrow> 'b \<Rightarrow> 'a carray res" where
  "carray_collect a match_fn arg = carray_map a match_fn arg 1"

definition carray_reject :: "'a carray \<Rightarrow> ('b \<Rightarrow> 'a \<Rightarrow> int) \<Rightarrow> 'b \<Rightarrow> 'a carray res" where
  "carray_reject a match_fn arg = carray_map a match_fn arg 0"

section \<open>The represented list and the invariant\<close>

definition clist :: "'a carray \<Rightarrow> 'a list" where
  "clist a =
     map (\<lambda>i. the (ca_array a ! ((ca_head a + i) mod ca_size a))) [0..<ca_count a]"

definition carray_inv :: "'a carray \<Rightarrow> bool" where
  "carray_inv a \<longleftrightarrow>
     0 < ca_size a \<and> length (ca_array a) = ca_size a \<and>
     ca_head a < ca_size a \<and> ca_count a \<le> ca_size a \<and>
     ca_tail a = (ca_head a + ca_count a) mod ca_size a \<and>
     (\<forall>i < ca_count a. ca_array a ! ((ca_head a + i) mod ca_size a) \<noteq> None)"

lemma length_clist [simp]: "length (clist a) = ca_count a"
  by (simp add: clist_def)

lemma carray_invD:
  assumes "carray_inv a"
  shows "0 < ca_size a" "length (ca_array a) = ca_size a" "ca_head a < ca_size a"
    "ca_count a \<le> ca_size a" "ca_tail a = (ca_head a + ca_count a) mod ca_size a"
    "ca_tail a < ca_size a"
  using assms by (auto simp: carray_inv_def)

lemma carray_inv_item:
  assumes "carray_inv a" "i < ca_count a"
  shows "ca_array a ! ((ca_head a + i) mod ca_size a) = Some (clist a ! i)"
  using assms by (auto simp: carray_inv_def clist_def)

lemma carray_new_inv [simp]: "0 < n \<Longrightarrow> carray_inv (carray_new n)"
  by (simp add: carray_inv_def carray_new_def)

lemma carray_new_clist [simp]: "clist (carray_new n) = []"
  by (simp add: carray_new_def clist_def)

lemma carray_new_sel [simp]:
  "ca_size (carray_new n) = n" "ca_count (carray_new n) = 0"
  by (simp_all add: carray_new_def)

lemma carray_empty_iff: "carray_empty a \<longleftrightarrow> clist a = []"
  by (simp add: carray_empty_def clist_def)

lemma carray_count_clist: "carray_count a = length (clist a)"
  by (simp add: carray_count_def)

text \<open>Non-negative indices: the truncating remainder is the ordinary one.\<close>

lemma carray_slot_nat:
  assumes "carray_inv a"
  shows "carray_slot a (int i) = Ok ((ca_head a + i) mod ca_size a)"
proof -
  have "(int (ca_head a) + int i) smod int (ca_size a) = int ((ca_head a + i) mod ca_size a)"
    using carray_invD(1) [OF assms]
    by (simp add: smod_int_alt_def sgn_if zmod_int)
  with carray_invD(1,2) [OF assms] show ?thesis
    by (simp add: carray_slot_def int_index_def)
qed

lemma carray_at_ok:
  assumes "carray_inv a" "i < ca_count a"
  shows "carray_at a (int i) = Ok (Some (clist a ! i))"
proof -
  have "arr_read (ca_array a) ((ca_head a + i) mod ca_size a) = Ok (clist a ! i)"
    using assms carray_invD(1,2) [OF assms(1)]
    by (intro arr_read_ok) (auto simp: carray_inv_item)
  with assms show ?thesis
    by (simp add: carray_at_def carray_empty_def carray_slot_nat)
qed

lemma carray_item_ok [simp]:
  assumes "carray_inv a" "i < ca_count a"
  shows "carray_item a (int i) = Ok (clist a ! i)"
  by (simp add: carray_item_def carray_at_ok assms)

lemma carray_set_ok:
  assumes inv: "carray_inv a" and i: "i < ca_count a"
  shows "\<exists>b. carray_set a (int i) p = Ok b \<and> carray_inv b \<and> clist b = (clist a)[i := p] \<and>
     ca_size b = ca_size a"
proof -
  let ?k = "\<lambda>i. (ca_head a + i) mod ca_size a"
  let ?b = "a\<lparr>ca_array := (ca_array a)[?k i := Some p]\<rparr>"
  note D = carray_invD [OF inv]
  have k: "?k i < length (ca_array a)" using D by simp
  have slots: "ca_array ?b ! ?k j = (if j = i then Some p else Some (clist a ! j))"
    if "j < ca_count a" for j
  proof -
    have "?k j = ?k i \<longleftrightarrow> j = i"
      using ring_slot_inj [of j "ca_size a" i "ca_head a"] that i D(4) by auto
    with k that show ?thesis
      using carray_inv_item [OF inv that] by (auto simp: nth_list_update)
  qed
  have "carray_set a (int i) p = Ok ?b"
    using k by (simp add: carray_set_def carray_slot_nat [OF inv])
  moreover have "carray_inv ?b"
    using inv slots by (auto simp: carray_inv_def)
  moreover have "clist ?b = (clist a)[i := p]"
    using slots by (intro nth_equalityI) (auto simp: clist_def nth_list_update)
  ultimately show ?thesis by auto
qed

text \<open>A full ring read or written at any non-negative index: the index counts round the ring.\<close>

lemma carray_slot_wrap:
  "carray_inv a \<Longrightarrow> carray_slot a (int i) = carray_slot a (int (i mod ca_size a))"
  by (simp add: carray_slot_nat mod_simps)

lemma carray_item_wrap:
  assumes "carray_inv a" "ca_count a = ca_size a"
  shows "carray_item a (int i) = Ok (clist a ! (i mod ca_size a))"
proof -
  have "carray_item a (int i) = carray_item a (int (i mod ca_size a))"
    unfolding carray_item_def carray_at_def by (simp only: carray_slot_wrap [OF assms(1), of i])
  also have "\<dots> = Ok (clist a ! (i mod ca_size a))"
    using assms carray_invD(1) [OF assms(1)] by (intro carray_item_ok) simp_all
  finally show ?thesis .
qed

lemma carray_set_wrap:
  assumes "carray_inv a" "ca_count a = ca_size a"
  shows "\<exists>b. carray_set a (int i) p = Ok b \<and> carray_inv b \<and>
     clist b = (clist a)[i mod ca_size a := p] \<and> ca_size b = ca_size a \<and> ca_count b = ca_size a"
proof -
  have "carray_set a (int i) p = carray_set a (int (i mod ca_size a)) p"
    unfolding carray_set_def by (simp only: carray_slot_wrap [OF assms(1), of i])
  moreover have "i mod ca_size a < ca_count a"
    using assms carray_invD(1) [OF assms(1)] by simp
  ultimately obtain b where b: "carray_set a (int i) p = Ok b" "carray_inv b"
    "clist b = (clist a)[i mod ca_size a := p]" "ca_size b = ca_size a"
    using carray_set_ok [OF assms(1), of "i mod ca_size a" p] by auto
  from b(3) have "ca_count b = ca_count a" by (metis length_clist length_list_update)
  with b assms(2) show ?thesis by simp
qed

section \<open>Pushing\<close>

lemma carray_put_ok:
  assumes inv: "carray_inv a" and room: "ca_count a < ca_size a"
  shows "\<exists>b. carray_put a p = Ok b \<and> carray_inv b \<and> clist b = clist a @ [p] \<and>
     ca_size b = ca_size a \<and> ca_head b = ca_head a \<and> ca_count b = Suc (ca_count a)"
proof -
  let ?k = "\<lambda>i. (ca_head a + i) mod ca_size a"
  note D = carray_invD [OF inv]
  let ?b = "a\<lparr>ca_array := (ca_array a)[ca_tail a := Some p],
      ca_tail := (ca_tail a + 1) mod ca_size a, ca_count := ca_count a + 1\<rparr>"
  have put: "carray_put a p = Ok ?b"
    using D by (simp add: carray_put_def)
  have slots: "ca_array ?b ! ?k j = Some ((clist a @ [p]) ! j)" if "j < Suc (ca_count a)" for j
  proof (cases "j = ca_count a")
    case True
    then show ?thesis using D by (simp add: nth_append)
  next
    case False
    with that have j: "j < ca_count a" by simp
    then have "?k j \<noteq> ca_tail a"
      using ring_slot_inj [of j "ca_size a" "ca_count a" "ca_head a"] D room by auto
    then show ?thesis
      using carray_inv_item [OF inv j] j by (simp add: nth_append)
  qed
  have tail: "((ca_head a + ca_count a) mod ca_size a + 1) mod ca_size a
      = (ca_head a + Suc (ca_count a)) mod ca_size a"
    by (simp add: mod_simps)
  have "carray_inv ?b"
    unfolding carray_inv_def using D room slots tail by auto
  moreover have "clist ?b = clist a @ [p]"
    using slots by (intro nth_equalityI) (simp_all add: clist_def del: upt_Suc)
  ultimately show ?thesis using put by simp
qed

text \<open>The copy loop of \<open>carray_grow\<close>, for any push that behaves well while there is room.\<close>

lemma carray_grow_with_ok:
  assumes inv: "carray_inv a" and full: "ca_count a = ca_size a"
    and push: "\<And>b p. carray_inv b \<Longrightarrow> ca_count b < ca_size b \<Longrightarrow> push b p = carray_put b p"
  shows "\<exists>b. carray_grow_with push a = Ok b \<and> carray_inv b \<and> clist b = clist a \<and>
     ca_size b = 2 * ca_size a \<and> ca_count b = ca_count a"
proof -
  let ?body = "\<lambda>i tmp. rbind (carray_item a (int i)) (push tmp)"
  let ?I = "\<lambda>i tmp. carray_inv tmp \<and> ca_head tmp = 0 \<and> ca_size tmp = ca_size a * 2 \<and>
      clist tmp = take i (clist a)"
  note D = carray_invD [OF inv]
  have step: "\<exists>t'. ?body i t = Ok t' \<and> ?I (Suc i) t'" if "i < ca_count a" "?I i t" for i t
  proof -
    have c: "ca_count t = i"
      using that by (metis length_clist length_take less_imp_le min.absorb2)
    with that D have "ca_count t < ca_size t" by simp
    with that have *: "push t (clist a ! i) = carray_put t (clist a ! i)" "ca_count t < ca_size t"
      by (simp_all add: push)
    show ?thesis
      using carray_put_ok [of t "clist a ! i"] that * inv
      by (auto simp: take_Suc_conv_app_nth)
  qed
  have start: "?I 0 (carray_new (ca_size a * 2))"
    using D by (simp add: carray_new_def carray_inv_def clist_def)
  obtain tmp where loop: "for_loop [0..<ca_count a] ?body (carray_new (ca_size a * 2)) = Ok tmp"
    and I: "?I (ca_count a) tmp"
    using for_loop_upto_inv [where I = ?I and body = ?body and n = "ca_count a", OF start] step
    by metis
  let ?b = "a\<lparr>ca_head := 0, ca_tail := ca_tail tmp, ca_size := ca_size tmp,
      ca_array := ca_array tmp\<rparr>"
  have c: "ca_count tmp = ca_count a"
    using I by (metis length_clist order_refl take_all)
  have same: "?b = tmp"
    using I c by simp
  have "carray_grow_with push a = Ok tmp"
    using loop by (simp only: carray_grow_with_def carray_count_def rbind_Ok same)
  with I c show ?thesis by simp
qed

lemma carray_push_1: "ca_count b < ca_size b \<Longrightarrow> carray_push_n (Suc n) b p = carray_put b p"
  by (simp add: carray_full_def)

lemma carray_grow_ok:
  assumes "carray_inv a" "ca_count a = ca_size a"
  shows "\<exists>b. carray_grow a = Ok b \<and> carray_inv b \<and> clist b = clist a \<and>
     ca_size b = 2 * ca_size a \<and> ca_count b = ca_count a"
  unfolding carray_grow_def using assms
  by (rule carray_grow_with_ok) (simp add: carray_push_1 [of _ 0, simplified])

lemma carray_push_back_ok:
  assumes inv: "carray_inv a"
  shows "\<exists>b. carray_push_back a p = Ok b \<and> carray_inv b \<and> clist b = clist a @ [p] \<and>
     ca_size b = (if carray_full a then 2 * ca_size a else ca_size a)"
proof -
  have unfold: "carray_push_back a p =
      rbind (if carray_full a then carray_grow a else Ok a) (\<lambda>b. carray_put b p)"
    by (simp add: carray_push_back_def carray_grow_def numeral_2_eq_2)
  show ?thesis
  proof (cases "carray_full a")
    case True
    then have "ca_count a = ca_size a" by (simp add: carray_full_def)
    from carray_grow_ok [OF inv this] obtain b where
      "carray_grow a = Ok b" "carray_inv b" "clist b = clist a" "ca_size b = 2 * ca_size a"
      "ca_count b < ca_size b"
      using carray_invD(1) [OF inv] \<open>ca_count a = ca_size a\<close> by fastforce
    with True carray_put_ok [of b p] show ?thesis by (auto simp: unfold)
  next
    case False
    then have "ca_count a < ca_size a"
      using carray_invD(4) [OF inv] by (simp add: carray_full_def)
    with False carray_put_ok [OF inv this, of p] show ?thesis by (auto simp: unfold)
  qed
qed

lemma carray_push_front_ok:
  assumes inv: "carray_inv a"
  shows "\<exists>b. carray_push_front a p = Ok b \<and> carray_inv b \<and> clist b = p # clist a"
proof -
  obtain b where grow: "(if carray_full a then carray_grow a else Ok a) = Ok b"
    and b: "carray_inv b" "clist b = clist a" "ca_count b < ca_size b"
  proof (cases "carray_full a")
    case True
    with carray_grow_ok [OF inv] carray_invD(1) [OF inv] that show ?thesis
      by (fastforce simp: carray_full_def)
  next
    case False
    with inv carray_invD(4) [OF inv] that [of a] show ?thesis
      by (simp add: carray_full_def)
  qed
  note D = carray_invD [OF b(1)]
  show ?thesis
  proof (cases "carray_empty b")
    case True
    with carray_push_back_ok [OF b(1), of p] b grow show ?thesis
      by (auto simp: carray_push_front_def carray_empty_iff)
  next
    case False
    define h where "h = (if int (ca_head b) - 1 \<ge> 0 then ca_head b - 1 else ca_size b - 1)"
    let ?c = "b\<lparr>ca_head := h, ca_array := (ca_array b)[h := Some p], ca_count := ca_count b + 1\<rparr>"
    have h: "h < ca_size b" and h_next: "Suc (h + i) mod ca_size b = (ca_head b + i) mod ca_size b" for i
      using D by (auto simp: h_def)
    have push: "carray_push_front a p = Ok ?c"
      using grow False h D by (simp add: carray_push_front_def h_def Let_def)
    have slots: "ca_array ?c ! ((h + j) mod ca_size b) = Some ((p # clist b) ! j)"
      if "j < Suc (ca_count b)" for j
    proof (cases j)
      case 0
      with h D show ?thesis by simp
    next
      case (Suc i)
      with that have "(h + Suc i) mod ca_size b \<noteq> h"
        using ring_slot_inj [of "Suc i" "ca_size b" 0 h] h b(3) by auto
      with Suc that show ?thesis
        using carray_inv_item [OF b(1), of i] by (simp add: h_next)
    qed
    have "ca_tail b = (h + Suc (ca_count b)) mod ca_size b"
      using D by (simp add: h_next)
    then have "carray_inv ?c"
      unfolding carray_inv_def using D h b(3) slots by auto
    moreover have "clist ?c = p # clist b"
      using slots by (intro nth_equalityI) (simp_all add: clist_def del: upt_Suc)
    ultimately show ?thesis using push b(2) by simp
  qed
qed

section \<open>Reading and popping\<close>

lemma carray_front_ok:
  assumes "carray_inv a"
  shows "carray_front a = Ok (case clist a of [] \<Rightarrow> None | x # _ \<Rightarrow> Some x)"
proof (cases "clist a")
  case Nil
  then show ?thesis by (simp add: carray_front_def carray_empty_iff)
next
  case (Cons x xs)
  then have c: "0 < ca_count a" using length_clist [of a] by simp
  note D = carray_invD [OF assms]
  have "arr_read (ca_array a) (ca_head a) = Ok x"
    using carray_inv_item [OF assms c] D Cons by (intro arr_read_ok) simp_all
  with Cons show ?thesis by (simp add: carray_front_def carray_empty_iff)
qed

lemma carray_pop_front_ok:
  assumes inv: "carray_inv a"
  shows "\<exists>b. carray_pop_front a = Ok (case clist a of [] \<Rightarrow> None | x # _ \<Rightarrow> Some x, b) \<and>
     carray_inv b \<and> clist b = tl (clist a) \<and> ca_size b = ca_size a"
proof (cases "clist a")
  case Nil
  with inv show ?thesis by (simp add: carray_pop_front_def carray_empty_iff)
next
  case (Cons x xs)
  then have c: "0 < ca_count a" using length_clist [of a] by simp
  note D = carray_invD [OF inv]
  have front: "arr_read (ca_array a) (ca_head a) = Ok x"
    using carray_inv_item [OF inv c] D Cons by (intro arr_read_ok) simp_all
  let ?b = "a\<lparr>ca_head := (ca_head a + 1) mod ca_size a, ca_count := ca_count a - 1\<rparr>"
  have next_slot: "(Suc (ca_head a) mod ca_size a + i) mod ca_size a = Suc (ca_head a + i) mod ca_size a" for i
    by (simp add: mod_simps)
  have slots: "ca_array ?b ! (((ca_head a + 1) mod ca_size a + i) mod ca_size a) = Some (clist a ! Suc i)"
    if "i < ca_count a - 1" for i
    using carray_inv_item [OF inv, of "Suc i"] that by (simp add: next_slot)
  have tail: "ca_tail a = ((ca_head a + 1) mod ca_size a + (ca_count a - 1)) mod ca_size a"
    using D c next_slot [of "ca_count a - 1"] by simp
  have "carray_inv ?b"
    unfolding carray_inv_def using D c slots tail by auto
  moreover have "clist ?b = tl (clist a)"
    using slots by (intro nth_equalityI) (simp_all add: clist_def nth_tl less_diff_conv)
  moreover have "carray_pop_front a = Ok (Some x, ?b)"
    using front Cons D(1) by (simp add: carray_pop_front_def carray_empty_iff)
  ultimately show ?thesis using Cons by simp
qed

section \<open>Searching and filtering\<close>

lemma carray_first_match_ok:
  assumes "carray_inv a"
  shows "carray_first_match a f arg = Ok (List.find (\<lambda>p. f arg p \<noteq> 0) (clist a))"
proof -
  let ?body = "\<lambda>i found. case found of
           Some p \<Rightarrow> Ok (Some p)
         | None \<Rightarrow> rbind (carray_item a (int i)) (\<lambda>p.
                     Ok (if f arg p \<noteq> 0 then Some p else None))"
  have "\<exists>t. for_loop [0..<ca_count a] ?body None = Ok t \<and>
      t = List.find (\<lambda>p. f arg p \<noteq> 0) (take (ca_count a) (clist a))"
    by (rule for_loop_upto_inv)
      (auto simp: assms take_Suc_conv_app_nth find_append split: option.splits)
  then show ?thesis by (simp add: carray_first_match_def carray_count_def)
qed

lemma carray_count_match_ok:
  assumes "carray_inv a"
  shows "carray_count_match a f arg = Ok (length (filter (\<lambda>p. f arg p \<noteq> 0) (clist a)))"
proof -
  let ?body = "\<lambda>i c. rbind (carray_item a (int i)) (\<lambda>p. Ok (if f arg p \<noteq> 0 then c + 1 else c))"
  have "\<exists>t. for_loop [0..<ca_count a] ?body 0 = Ok t \<and>
      t = length (filter (\<lambda>p. f arg p \<noteq> 0) (take (ca_count a) (clist a)))"
    by (rule for_loop_upto_inv) (auto simp: assms take_Suc_conv_app_nth)
  then show ?thesis by (simp add: carray_count_match_def carray_count_def)
qed

lemma carray_map_ok:
  assumes "carray_inv a"
  shows "\<exists>b. carray_map a f arg m = Ok b \<and> carray_inv b \<and>
     clist b = filter (\<lambda>p. f arg p = m) (clist a)"
proof -
  let ?body = "\<lambda>i new. rbind (carray_item a (int i)) (\<lambda>p.
          if f arg p = m then carray_push_back new p else Ok new)"
  let ?I = "\<lambda>i b. carray_inv b \<and> clist b = filter (\<lambda>p. f arg p = m) (take i (clist a))"
  have step: "\<exists>t'. ?body i t = Ok t' \<and> ?I (Suc i) t'" if "i < ca_count a" "?I i t" for i t
    using that carray_push_back_ok [of t "clist a ! i"]
    by (auto simp: assms take_Suc_conv_app_nth)
  have "\<exists>b. for_loop [0..<ca_count a] ?body (carray_new (ca_size a)) = Ok b \<and> ?I (ca_count a) b"
    by (rule for_loop_upto_inv) (use step carray_invD(1) [OF assms] in simp_all)
  then show ?thesis by (simp add: carray_map_def carray_count_def)
qed

section \<open>The interface\<close>

text \<open>
  What a client of the buffer relies on: a representation function to lists, an invariant that
  every operation keeps, and the effect of each operation on the list. \<open>filt\<close> is the filter
  with a C predicate that \<open>carray_collect\<close> and \<open>carray_reject\<close> provide.
\<close>

locale deque =
  fixes new :: "nat \<Rightarrow> 'q"
    and push_back :: "'q \<Rightarrow> 'a \<Rightarrow> 'q res"
    and push_front :: "'q \<Rightarrow> 'a \<Rightarrow> 'q res"
    and pop_front :: "'q \<Rightarrow> ('a option \<times> 'q) res"
    and front :: "'q \<Rightarrow> 'a option res"
    and len :: "'q \<Rightarrow> nat"
    and item :: "'q \<Rightarrow> int \<Rightarrow> 'a res"
    and set_item :: "'q \<Rightarrow> int \<Rightarrow> 'a \<Rightarrow> 'q res"
    and lst :: "'q \<Rightarrow> 'a list"
    and invar :: "'q \<Rightarrow> bool"
  assumes new: "0 < n \<Longrightarrow> invar (new n)" "lst (new n) = []"
    and push_back: "invar q \<Longrightarrow> \<exists>r. push_back q x = Ok r \<and> invar r \<and> lst r = lst q @ [x]"
    and push_front: "invar q \<Longrightarrow> \<exists>r. push_front q x = Ok r \<and> invar r \<and> lst r = x # lst q"
    and pop_front: "invar q \<Longrightarrow> \<exists>r. pop_front q =
      Ok (case lst q of [] \<Rightarrow> None | x # _ \<Rightarrow> Some x, r) \<and> invar r \<and> lst r = tl (lst q)"
    and front: "invar q \<Longrightarrow> front q = Ok (case lst q of [] \<Rightarrow> None | x # _ \<Rightarrow> Some x)"
    and len: "len q = length (lst q)"
    and item: "invar q \<Longrightarrow> i < length (lst q) \<Longrightarrow> item q (int i) = Ok (lst q ! i)"
    and set_item: "invar q \<Longrightarrow> i < length (lst q) \<Longrightarrow>
      \<exists>r. set_item q (int i) x = Ok r \<and> invar r \<and> lst r = (lst q)[i := x]"
begin

lemma push_back_Ok: "invar q \<Longrightarrow> push_back q x = Ok r \<Longrightarrow> invar r \<and> lst r = lst q @ [x]"
  by (metis Inr_inject push_back)

lemma push_front_Ok: "invar q \<Longrightarrow> push_front q x = Ok r \<Longrightarrow> invar r \<and> lst r = x # lst q"
  by (metis Inr_inject push_front)

lemma pop_front_Ok:
  "invar q \<Longrightarrow> pop_front q = Ok (p, r) \<Longrightarrow>
    invar r \<and> lst r = tl (lst q) \<and> p = (case lst q of [] \<Rightarrow> None | x # _ \<Rightarrow> Some x)"
  by (metis Inr_inject prod.inject pop_front)

lemma set_item_Ok:
  "invar q \<Longrightarrow> i < length (lst q) \<Longrightarrow> set_item q (int i) x = Ok r \<Longrightarrow>
    invar r \<and> lst r = (lst q)[i := x]"
  by (metis Inr_inject set_item)

text \<open>The search loop of the clients: the first index whose element satisfies a predicate.\<close>

lemma find_loop:
  assumes "invar q"
  shows "for_loop [0..<len q]
      (\<lambda>i found. case found of
           Some j \<Rightarrow> Ok (Some j)
         | None \<Rightarrow> rbind (item q (int i)) (\<lambda>x. Ok (if P x then Some i else None)))
      None
    = Ok (List.find (\<lambda>i. P (lst q ! i)) [0..<len q])"
proof -
  let ?body = "\<lambda>i found. case found of
           Some j \<Rightarrow> Ok (Some j)
         | None \<Rightarrow> rbind (item q (int i)) (\<lambda>x. Ok (if P x then Some i else None))"
  have "\<exists>t. for_loop [0..<len q] ?body None = Ok t \<and>
      t = List.find (\<lambda>i. P (lst q ! i)) [0..<len q]"
    by (rule for_loop_upto_inv) (auto simp: assms item len find_append split: option.splits)
  then show ?thesis by simp
qed

text \<open>First in, first out: what is pushed at the back comes out in order behind the front.\<close>

fun push_all :: "'q \<Rightarrow> 'a list \<Rightarrow> 'q res" where
  "push_all q [] = Ok q"
| "push_all q (x # xs) = rbind (push_back q x) (\<lambda>r. push_all r xs)"

fun pop_n :: "nat \<Rightarrow> 'q \<Rightarrow> ('a option list \<times> 'q) res" where
  "pop_n 0 q = Ok ([], q)"
| "pop_n (Suc k) q = rbind (pop_front q) (\<lambda>(p, r). rbind (pop_n k r) (\<lambda>(ps, t). Ok (p # ps, t)))"

lemma push_all_Ok:
  "invar q \<Longrightarrow> \<exists>r. push_all q xs = Ok r \<and> invar r \<and> lst r = lst q @ xs"
proof (induction xs arbitrary: q)
  case (Cons x xs)
  from push_back [OF Cons.prems, of x] obtain r where r: "push_back q x = Ok r" "invar r"
    "lst r = lst q @ [x]"
    by blast
  with Cons.IH [OF r(2)] show ?case by auto
qed simp

lemma pop_n_Ok:
  "invar q \<Longrightarrow> k \<le> length (lst q) \<Longrightarrow>
    \<exists>r. pop_n k q = Ok (map Some (take k (lst q)), r) \<and> invar r \<and> lst r = drop k (lst q)"
proof (induction k arbitrary: q)
  case (Suc k)
  then obtain x xs where q: "lst q = x # xs" by (cases "lst q") auto
  from pop_front [OF Suc.prems(1)] q obtain r where r: "pop_front q = Ok (Some x, r)" "invar r"
    "lst r = xs"
    by auto
  with Suc q show ?case using Suc.IH [OF r(2)] by auto
qed simp

lemma fifo:
  assumes "invar q" "lst q = []"
  shows "\<exists>r t. push_all q xs = Ok r \<and> pop_n (length xs) r = Ok (map Some xs, t) \<and> lst t = []"
proof -
  from push_all_Ok [OF assms(1), of xs] assms(2) obtain r
    where r: "push_all q xs = Ok r" "invar r" "lst r = xs"
    by auto
  with pop_n_Ok [OF r(2), of "length xs"] show ?thesis by auto
qed

end

interpretation cq: deque carray_new carray_push_back carray_push_front carray_pop_front
  carray_front carray_count carray_item carray_set clist carray_inv
proof (unfold_locales, goal_cases)
  case (3 q x) then show ?case using carray_push_back_ok [of q x] by auto
next
  case (4 q x) then show ?case by (rule carray_push_front_ok)
next
  case (5 q) then show ?case using carray_pop_front_ok [of q] by auto
next
  case (9 q i x) then show ?case using carray_set_ok [of q i x] by auto
qed (simp_all add: carray_front_ok carray_count_clist)

lemmas carray_client = cq.push_back_Ok cq.push_front_Ok cq.pop_front_Ok cq.set_item_Ok

text \<open>Pushing a list of elements and popping a number of them.\<close>

fun carray_push_all :: "'a carray \<Rightarrow> 'a list \<Rightarrow> 'a carray res" where
  "carray_push_all c [] = Ok c"
| "carray_push_all c (x # xs) = rbind (carray_push_back c x) (\<lambda>d. carray_push_all d xs)"

fun carray_pop_n :: "nat \<Rightarrow> 'a carray \<Rightarrow> ('a option list \<times> 'a carray) res" where
  "carray_pop_n 0 c = Ok ([], c)"
| "carray_pop_n (Suc k) c =
     rbind (carray_pop_front c) (\<lambda>(p, d). rbind (carray_pop_n k d) (\<lambda>(ps, e). Ok (p # ps, e)))"

lemma carray_push_all_eq: "cq.push_all c xs = carray_push_all c xs"
  by (induction xs arbitrary: c) simp_all

lemma carray_pop_n_eq: "cq.pop_n k c = carray_pop_n k c"
  by (induction k arbitrary: c) simp_all

lemmas carray_push_all_ok = cq.push_all_Ok [unfolded carray_push_all_eq]

lemmas carray_pop_n_ok = cq.pop_n_Ok [unfolded carray_pop_n_eq]

end
