(* ===== verification/Paxos.thy ===== *)
theory Paxos
  imports Prelude
begin

text \<open>
  \<open>paxos/paxos.c\<close> and \<open>paxos/include/paxos.h\<close>: the global configuration with its defaults,
  the size of a majority, the bound on the number of proposers, and the log filter. The locale
  \<open>quorum_system\<close> is what consensus needs of majorities: any two have a member in common.
\<close>

section \<open>Configuration\<close>

definition PAXOS_LOG_QUIET :: int where "PAXOS_LOG_QUIET = 0"
definition PAXOS_LOG_ERROR :: int where "PAXOS_LOG_ERROR = 1"
definition PAXOS_LOG_INFO :: int where "PAXOS_LOG_INFO = 2"
definition PAXOS_LOG_DEBUG :: int where "PAXOS_LOG_DEBUG = 3"

lemmas log_levels = PAXOS_LOG_QUIET_def PAXOS_LOG_ERROR_def PAXOS_LOG_INFO_def PAXOS_LOG_DEBUG_def

definition PAXOS_MAX_VALUE_SIZE :: nat where "PAXOS_MAX_VALUE_SIZE = 256 * 1000"

definition MAX_N_OF_PROPOSERS :: nat where "MAX_N_OF_PROPOSERS = 10"

text \<open>\<open>learner_instances\<close> is the size of an array of the learner; a negative \<open>int\<close> there is not modelled.\<close>

record paxos_config =
  verbosity :: int
  learner_instances :: nat
  learner_catch_up :: int
  proposer_timeout :: int
  proposer_preexec_window :: int
  bdb_sync :: int
  bdb_cachesize :: int
  bdb_env_path :: string
  bdb_db_filename :: string
  bdb_trash_files :: int

definition default_config :: paxos_config where
  "default_config =
     \<lparr>verbosity = PAXOS_LOG_INFO,
      learner_instances = 2048,
      learner_catch_up = 1,
      proposer_timeout = 1,
      proposer_preexec_window = 128,
      bdb_sync = 0,
      bdb_cachesize = 32 * 1024 * 1024,
      bdb_env_path = ''/tmp/acceptor'',
      bdb_db_filename = ''acc.bdb'',
      bdb_trash_files = 0\<rparr>"

section \<open>Logging\<close>

text \<open>
  The lines a call of \<open>paxos_log\<close> prints. \<open>stamp\<close> is what \<open>strftime\<close> wrote into the buffer
  of 1024 characters (it writes nothing when the text would not fit); \<open>text\<close> is the formatted
  message, which \<open>vsnprintf\<close> cuts so that the terminating NUL fits.
\<close>

definition paxos_log :: "paxos_config \<Rightarrow> string \<Rightarrow> int \<Rightarrow> string \<Rightarrow> string list" where
  "paxos_log cfg stamp level text =
     (if level > verbosity cfg then []
      else [stamp @ take (1024 - length stamp - 1) text])"

definition paxos_log_error :: "paxos_config \<Rightarrow> string \<Rightarrow> string \<Rightarrow> string list" where
  "paxos_log_error cfg stamp text = paxos_log cfg stamp PAXOS_LOG_ERROR text"

definition paxos_log_info :: "paxos_config \<Rightarrow> string \<Rightarrow> string \<Rightarrow> string list" where
  "paxos_log_info cfg stamp text = paxos_log cfg stamp PAXOS_LOG_INFO text"

definition paxos_log_debug :: "paxos_config \<Rightarrow> string \<Rightarrow> string \<Rightarrow> string list" where
  "paxos_log_debug cfg stamp text = paxos_log cfg stamp PAXOS_LOG_DEBUG text"

lemmas paxos_log_defs =
  paxos_log_def paxos_log_error_def paxos_log_info_def paxos_log_debug_def log_levels

section \<open>Majorities\<close>

definition paxos_quorum :: "nat \<Rightarrow> nat" where
  "paxos_quorum acceptors = acceptors div 2 + 1"

lemma paxos_quorum_pos [simp]: "0 < paxos_quorum n" "paxos_quorum n \<noteq> 0"
  by (simp_all add: paxos_quorum_def)

lemma paxos_quorum_le: "0 < n \<Longrightarrow> paxos_quorum n \<le> n"
  by (simp add: paxos_quorum_def)

locale quorum_system =
  fixes quorums :: "'a set set"
  assumes finite_quorum: "Q \<in> quorums \<Longrightarrow> finite Q"
    and intersect: "Q \<in> quorums \<Longrightarrow> R \<in> quorums \<Longrightarrow> Q \<inter> R \<noteq> {}"
begin

lemma quorum_nonempty: "Q \<in> quorums \<Longrightarrow> Q \<noteq> {}"
  using intersect [of Q Q] by auto

lemma common_member: "Q \<in> quorums \<Longrightarrow> R \<in> quorums \<Longrightarrow> \<exists>a. a \<in> Q \<and> a \<in> R"
  using intersect by blast

text \<open>If every member of a quorum has one value and every member of another has one value, and
  a common member has at most one, the two values are the same.\<close>

lemma quorum_value_unique:
  assumes "Q \<in> quorums" "R \<in> quorums"
    and "\<And>a. a \<in> Q \<Longrightarrow> vote a v" "\<And>a. a \<in> R \<Longrightarrow> vote a w"
    and "\<And>a v w. vote a v \<Longrightarrow> vote a w \<Longrightarrow> v = w"
  shows "v = w"
  using common_member [OF assms(1,2)] assms(3-5) by blast

end

text \<open>The quorums of the program: sets of acceptor ids with at least \<open>paxos_quorum n\<close> members.\<close>

definition majorities :: "nat \<Rightarrow> nat set set" where
  "majorities n = {S. S \<subseteq> {0..<n} \<and> paxos_quorum n \<le> card S}"

lemma majorities_intersect:
  assumes "Q \<in> majorities n" "R \<in> majorities n"
  shows "Q \<inter> R \<noteq> {}"
proof
  assume "Q \<inter> R = {}"
  have sub: "Q \<subseteq> {0..<n}" "R \<subseteq> {0..<n}" and fin: "finite Q" "finite R"
    using assms by (auto simp: majorities_def intro: finite_subset)
  have "card Q + card R = card (Q \<union> R)"
    using fin \<open>Q \<inter> R = {}\<close> by (simp add: card_Un_disjoint)
  also have "\<dots> \<le> card {0..<n}"
    using sub by (intro card_mono) auto
  finally have "card Q + card R \<le> n" by simp
  moreover have "n div 2 + 1 \<le> card Q" "n div 2 + 1 \<le> card R"
    using assms by (simp_all add: majorities_def paxos_quorum_def)
  ultimately show False by linarith
qed

interpretation maj: quorum_system "majorities n" for n
proof
  show "finite Q" if "Q \<in> majorities n" for Q
    using that by (auto simp: majorities_def intro: finite_subset)
qed (rule majorities_intersect)

lemma majoritiesI: "S \<subseteq> {0..<n} \<Longrightarrow> paxos_quorum n \<le> card S \<Longrightarrow> S \<in> majorities n"
  by (simp add: majorities_def)

end
