(* ===== verification/Quorum.thy ===== *)
theory Quorum
  imports Paxos
begin

text \<open>
  \<open>paxos/quorum.c\<close>: the counter of acknowledgements an instance of the proposer keeps. The
  block of flags is allocated uninitialised, so \<open>quorum_init\<close> takes its contents as a
  parameter. The locale \<open>ack_counter\<close> is what the proposer relies on: the count never exceeds
  the number of different acceptors added since the last clear. The exact count is
  \<open>quorum_adds_count\<close>: an acceptor whose flag was not zero is never counted, and
  \<open>quorum_clear\<close> resets only the first \<open>quorum\<close> flags.
\<close>

record quorum =
  q_count :: nat
  q_quorum :: nat
  q_acceptors :: nat
  q_acceptor_ids :: "int list"

definition quorum_clear :: "quorum \<Rightarrow> quorum res" where
  "quorum_clear q =
     rbind (for_loop [0..<q_quorum q] (\<lambda>i ids. arr_write ids i 0) (q_acceptor_ids q))
       (\<lambda>ids. Ok (q\<lparr>q_count := 0, q_acceptor_ids := ids\<rparr>))"

text \<open>\<open>junk i\<close> is the value the allocated block holds at index \<open>i\<close>.\<close>

definition quorum_init :: "(nat \<Rightarrow> int) \<Rightarrow> nat \<Rightarrow> quorum res" where
  "quorum_init junk acceptors =
     quorum_clear \<lparr>q_count = 0, q_quorum = paxos_quorum acceptors, q_acceptors = acceptors,
       q_acceptor_ids = map junk [0..<acceptors]\<rparr>"

definition quorum_add :: "quorum \<Rightarrow> int \<Rightarrow> (bool \<times> quorum) res" where
  "quorum_add q i =
     rbind (int_index i (q_acceptor_ids q)) (\<lambda>k.
       if q_acceptor_ids q ! k = 0
       then Ok (True, q\<lparr>q_count := q_count q + 1,
                        q_acceptor_ids := (q_acceptor_ids q)[k := 1]\<rparr>)
       else Ok (False, q))"

definition quorum_reached :: "quorum \<Rightarrow> bool" where
  "quorum_reached q = (q_count q \<ge> q_quorum q)"

section \<open>Well-formed counters\<close>

definition quorum_inv :: "nat \<Rightarrow> quorum \<Rightarrow> bool" where
  "quorum_inv n q \<longleftrightarrow> 0 < n \<and> q_acceptors q = n \<and> q_quorum q = paxos_quorum n \<and>
     length (q_acceptor_ids q) = n"

text \<open>The counted acceptors: a set of flagged ids as large as the count.\<close>

definition counted :: "quorum \<Rightarrow> nat set \<Rightarrow> bool" where
  "counted q S \<longleftrightarrow> S \<subseteq> {i. i < length (q_acceptor_ids q) \<and> q_acceptor_ids q ! i \<noteq> 0} \<and>
     card S = q_count q"

lemma clear_loop:
  assumes "k \<le> length ids"
  shows "for_loop [0..<k] (\<lambda>i ids. arr_write ids i (0::int)) ids = Ok (replicate k 0 @ drop k ids)"
  using assms
proof (induction k)
  case (Suc k)
  then have "(replicate k (0::int) @ drop k ids)[k := 0] = replicate (Suc k) 0 @ drop (Suc k) ids"
    by (simp add: list_update_append Cons_nth_drop_Suc [symmetric] replicate_append_same [symmetric])
  with Suc show ?case by (simp add: for_loop_append)
qed simp

lemma quorum_clear_ok:
  assumes "quorum_inv n q"
  shows "quorum_clear q = Ok (q\<lparr>q_count := 0,
     q_acceptor_ids := replicate (paxos_quorum n) 0 @ drop (paxos_quorum n) (q_acceptor_ids q)\<rparr>)"
  using assms paxos_quorum_le [of n] by (simp add: quorum_clear_def clear_loop quorum_inv_def)

lemma quorum_clear_inv:
  assumes "quorum_inv n q"
  shows "\<exists>r. quorum_clear q = Ok r \<and> quorum_inv n r \<and> counted r {}"
  using assms paxos_quorum_le [of n]
  by (auto simp: quorum_clear_ok quorum_inv_def counted_def)

lemma quorum_init_inv:
  assumes "0 < n"
  shows "\<exists>q. quorum_init junk n = Ok q \<and> quorum_inv n q \<and> counted q {}"
  unfolding quorum_init_def
  by (rule quorum_clear_inv) (use assms in \<open>simp add: quorum_inv_def\<close>)

lemma quorum_add_inv:
  assumes "quorum_inv n q" "0 \<le> i" "i < int n"
  shows "\<exists>b r. quorum_add q i = Ok (b, r) \<and> quorum_inv n r"
  using assms by (auto simp: quorum_add_def int_index_def quorum_inv_def)

lemma quorum_add_cases:
  assumes "quorum_add q i = Ok (b, r)"
  shows "0 \<le> i" "i < int (length (q_acceptor_ids q))"
    "b \<longleftrightarrow> q_acceptor_ids q ! nat i = 0"
    "r = (if b then q\<lparr>q_count := q_count q + 1, q_acceptor_ids := (q_acceptor_ids q)[nat i := 1]\<rparr>
          else q)"
  using assms by (auto simp: quorum_add_def res_simps split: if_splits)

lemma quorum_add_counted:
  assumes add: "quorum_add q i = Ok (True, r)" and c: "counted q S"
  shows "nat i \<notin> S" "counted r (insert (nat i) S)"
proof -
  note C = quorum_add_cases [OF add]
  show "nat i \<notin> S" using c C by (auto simp: counted_def)
  moreover have "finite S" using c by (auto simp: counted_def intro: finite_subset)
  ultimately show "counted r (insert (nat i) S)"
    using c C by (auto simp: counted_def nth_list_update)
qed

text \<open>Clearing resets the flags below the quorum size and keeps the others.\<close>

lemma quorum_add_clear_add:
  assumes inv: "quorum_inv n q" and a: "0 \<le> a" "a < int n"
  shows "\<exists>b q1 q2. quorum_add q a = Ok (b, q1) \<and> quorum_clear q1 = Ok q2 \<and> q_count q2 = 0 \<and>
    (if int (paxos_quorum n) \<le> a then quorum_add q2 a = Ok (False, q2)
     else \<exists>q3. quorum_add q2 a = Ok (True, q3) \<and> q_count q3 = 1)"
proof -
  from quorum_add_inv [OF inv a] obtain b q1 where q1: "quorum_add q a = Ok (b, q1)" "quorum_inv n q1" by blast
  have len: "length (q_acceptor_ids q1) = n" using q1(2) by (simp add: quorum_inv_def)
  have flag: "q_acceptor_ids q1 ! nat a \<noteq> 0"
    using quorum_add_cases [OF q1(1)] inv a by (cases b) (auto simp: quorum_inv_def)
  have "nat a < n" using a by linarith
  with q1 len flag a paxos_quorum_le [of n] quorum_clear_ok [OF q1(2)] show ?thesis
    by (auto simp: quorum_add_def int_index_def nth_append)
qed

lemma quorum_add_False: "quorum_add q i = Ok (False, r) \<Longrightarrow> r = q"
  using quorum_add_cases by fastforce

lemma counted_reached:
  assumes "quorum_inv n q" "counted q S" "quorum_reached q"
  shows "S \<in> majorities n"
  using assms by (intro majoritiesI) (auto simp: quorum_inv_def counted_def quorum_reached_def)

section \<open>The interface\<close>

locale ack_counter =
  fixes clear :: "'q \<Rightarrow> 'q res"
    and add :: "'q \<Rightarrow> int \<Rightarrow> (bool \<times> 'q) res"
    and reached :: "'q \<Rightarrow> bool"
    and inv :: "nat \<Rightarrow> 'q \<Rightarrow> bool"
    and members :: "'q \<Rightarrow> nat set \<Rightarrow> bool"
    and big :: "nat \<Rightarrow> nat set \<Rightarrow> bool"
  assumes clear: "inv n q \<Longrightarrow> \<exists>r. clear q = Ok r \<and> inv n r \<and> members r {}"
    and add_total: "inv n q \<Longrightarrow> 0 \<le> i \<Longrightarrow> i < int n \<Longrightarrow> \<exists>b r. add q i = Ok (b, r) \<and> inv n r"
    and add_new: "add q i = Ok (True, r) \<Longrightarrow> members q S \<Longrightarrow> members r (insert (nat i) S)"
    and add_old: "add q i = Ok (False, r) \<Longrightarrow> r = q"
    and reached: "inv n q \<Longrightarrow> members q S \<Longrightarrow> reached q \<Longrightarrow> big n S"
begin

fun adds :: "'q \<Rightarrow> int list \<Rightarrow> 'q res" where
  "adds q [] = Ok q"
| "adds q (i # is) = rbind (add q i) (\<lambda>(b, r). adds r is)"

lemma adds_members:
  assumes "adds q is = Ok r" "members q S"
  shows "\<exists>T. members r T \<and> T \<subseteq> S \<union> nat ` set is"
  using assms
proof (induction "is" arbitrary: q S)
  case (Cons i "is")
  from Cons.prems(1) obtain b p where p: "add q i = Ok (b, p)" "adds p is = Ok r"
    by (auto simp: res_simps)
  show ?case
  proof (cases b)
    case True
    with p have "add q i = Ok (True, p)" by simp
    from add_new [OF this Cons.prems(2)] have "members p (insert (nat i) S)" .
    from Cons.IH [OF p(2) this] show ?thesis by fastforce
  next
    case False
    with add_old p Cons.prems(2) have "members p S" by metis
    from Cons.IH [OF p(2) this] show ?thesis by fastforce
  qed
qed auto

lemma adds_total:
  "inv n q \<Longrightarrow> set is \<subseteq> {0..<int n} \<Longrightarrow> \<exists>r. adds q is = Ok r \<and> inv n r"
proof (induction "is" arbitrary: q)
  case (Cons i "is")
  then obtain b p where "add q i = Ok (b, p)" "inv n p"
    using add_total [of n q i] by auto
  with Cons show ?case by auto
qed simp

lemma reached_needs_quorum:
  assumes "inv n q" "clear q = Ok q0" "adds q0 is = Ok r" "inv n r" "reached r"
  shows "\<exists>T. big n T \<and> T \<subseteq> nat ` set is"
proof -
  from clear [OF assms(1)] assms(2) have "members q0 {}" by auto
  from adds_members [OF assms(3) this] reached [OF assms(4) _ assms(5)] show ?thesis by auto
qed

end

interpretation qc: ack_counter quorum_clear quorum_add quorum_reached quorum_inv counted
  "\<lambda>n S. S \<in> majorities n"
  by unfold_locales
    (simp_all add: quorum_clear_inv quorum_add_inv quorum_add_counted quorum_add_False counted_reached)

section \<open>The exact count\<close>

text \<open>Acknowledgements from a list of acceptors, in order.\<close>

fun quorum_adds :: "quorum \<Rightarrow> int list \<Rightarrow> quorum res" where
  "quorum_adds q [] = Ok q"
| "quorum_adds q (i # is) = rbind (quorum_add q i) (\<lambda>(b, r). quorum_adds r is)"

lemma quorum_adds_eq [simp]: "qc.adds = quorum_adds"
proof (intro ext)
  show "qc.adds q is = quorum_adds q is" for q "is"
    by (induction "is" arbitrary: q) (simp_all add: qc.adds.simps)
qed

lemma quorum_adds_count:
  assumes "quorum_inv n q" "set is \<subseteq> {0..<int n}"
  shows "\<exists>r. quorum_adds q is = Ok r \<and> quorum_inv n r \<and>
     q_count r = q_count q + card {i \<in> set is. q_acceptor_ids q ! nat i = 0}"
  using assms
proof (induction "is" arbitrary: q)
  case (Cons i "is")
  then have i: "0 \<le> i" "i < int n" by auto
  from quorum_add_inv [OF Cons.prems(1) i] obtain b p
    where p: "quorum_add q i = Ok (b, p)" "quorum_inv n p" by blast
  note C = quorum_add_cases [OF p(1)]
  from Cons.IH [OF p(2)] Cons.prems(2) obtain r where r: "quorum_adds p is = Ok r" "quorum_inv n r"
    "q_count r = q_count p + card {j \<in> set is. q_acceptor_ids p ! nat j = 0}"
    by auto
  have "q_count r = q_count q + card {j \<in> set (i # is). q_acceptor_ids q ! nat j = 0}"
  proof (cases b)
    case False
    with C have "{j \<in> set (i # is). q_acceptor_ids q ! nat j = 0} =
      {j \<in> set is. q_acceptor_ids q ! nat j = 0}" by auto
    with False C r show ?thesis by simp
  next
    case True
    have "(q_acceptor_ids p ! nat j = 0) = (j \<noteq> i \<and> q_acceptor_ids q ! nat j = 0)"
      if "j \<in> set is" for j
    proof -
      have "0 \<le> j" using that Cons.prems(2) by auto
      then have "nat j = nat i \<longleftrightarrow> j = i" using i by (simp add: eq_nat_nat_iff)
      with True C(1,2,4) show ?thesis by (auto simp: nth_list_update nat_less_iff)
    qed
    then have "{j \<in> set is. q_acceptor_ids p ! nat j = 0} =
      {j \<in> set is. q_acceptor_ids q ! nat j = 0} - {i}"
      by auto
    moreover have "{j \<in> set (i # is). q_acceptor_ids q ! nat j = 0} =
      insert i ({j \<in> set is. q_acceptor_ids q ! nat j = 0} - {i})"
      using True C by auto
    ultimately show ?thesis using r(3) True C by (simp add: card.insert_remove)
  qed
  with p r show ?case by auto
qed simp

end
