(* ===== verification/Messages.thy ===== *)
theory Messages
  imports Prelude
begin

text \<open>
  \<open>paxos/include/libpaxos_messages.h\<close>: the message codes, the structures that travel between
  the processes, and their sizes on an LP64 machine (\<open>paxos_msg\<close> is packed, the others have
  the padding that aligns \<open>size_t\<close>). A structure that ends in a flexible array \<open>value[0]\<close> keeps
  the bytes stored there in a list; its payload is the first \<open>value_size\<close> of them.
\<close>

datatype paxos_msg_code =
    prepare_reqs | prepare_acks | accept_reqs | accept_acks
  | repeat_reqs | submit | leader_announce | alive_ping

fun msg_code_val :: "paxos_msg_code \<Rightarrow> nat" where
  "msg_code_val prepare_reqs = 1"
| "msg_code_val prepare_acks = 2"
| "msg_code_val accept_reqs = 4"
| "msg_code_val accept_acks = 8"
| "msg_code_val repeat_reqs = 16"
| "msg_code_val submit = 32"
| "msg_code_val leader_announce = 64"
| "msg_code_val alive_ping = 65"

lemma msg_code_val_inj: "msg_code_val c = msg_code_val d \<Longrightarrow> c = d"
  by (cases c; cases d) simp_all

text \<open>The codes are ordered as the enumeration numbers them.\<close>

instantiation paxos_msg_code :: linorder
begin

definition less_eq_paxos_msg_code :: "paxos_msg_code \<Rightarrow> paxos_msg_code \<Rightarrow> bool" where
  "less_eq_paxos_msg_code c d \<longleftrightarrow> msg_code_val c \<le> msg_code_val d"

definition less_paxos_msg_code :: "paxos_msg_code \<Rightarrow> paxos_msg_code \<Rightarrow> bool" where
  "less_paxos_msg_code c d \<longleftrightarrow> msg_code_val c < msg_code_val d"

instance
  by standard (auto simp: less_eq_paxos_msg_code_def less_paxos_msg_code_def dest: msg_code_val_inj)

end

record paxos_msg =
  msg_data_size :: size_t
  msg_type :: paxos_msg_code
  msg_data :: "byte list"

record prepare_req =
  pr_iid :: iid_t
  pr_ballot :: ballot_t

record prepare_ack =
  pa_acceptor_id :: int
  pa_iid :: iid_t
  pa_ballot :: ballot_t
  pa_value_ballot :: ballot_t
  pa_value_size :: size_t
  pa_value :: "byte list"

record accept_req =
  ar_iid :: iid_t
  ar_ballot :: ballot_t
  ar_value_size :: size_t
  ar_value :: "byte list"

record accept_ack =
  aa_acceptor_id :: int
  aa_iid :: iid_t
  aa_ballot :: ballot_t
  aa_value_ballot :: ballot_t
  aa_is_final :: int
  aa_value_size :: size_t
  aa_value :: "byte list"

type_synonym acceptor_record = accept_ack

section \<open>Sizes and payloads\<close>

definition sizeof_paxos_msg :: nat where "sizeof_paxos_msg = 12"
definition sizeof_prepare_req :: nat where "sizeof_prepare_req = 8"
definition sizeof_prepare_ack :: nat where "sizeof_prepare_ack = 24"
definition sizeof_accept_req :: nat where "sizeof_accept_req = 16"
definition sizeof_accept_ack :: nat where "sizeof_accept_ack = 32"

lemmas sizeof_defs = sizeof_paxos_msg_def sizeof_prepare_req_def sizeof_prepare_ack_def
  sizeof_accept_req_def sizeof_accept_ack_def

text \<open>The size macros compute in \<open>size_t\<close> and wrap around there.\<close>

definition PAXOS_MSG_SIZE :: "paxos_msg \<Rightarrow> size_t" where
  "PAXOS_MSG_SIZE m = msg_data_size m + of_nat sizeof_paxos_msg"

definition PREPARE_REQ_SIZE :: "prepare_req \<Rightarrow> size_t" where
  "PREPARE_REQ_SIZE m = of_nat sizeof_prepare_req"

definition PREPARE_ACK_SIZE :: "prepare_ack \<Rightarrow> size_t" where
  "PREPARE_ACK_SIZE m = pa_value_size m + of_nat sizeof_prepare_ack"

definition ACCEPT_REQ_SIZE :: "accept_req \<Rightarrow> size_t" where
  "ACCEPT_REQ_SIZE m = ar_value_size m + of_nat sizeof_accept_req"

definition ACCEPT_ACK_SIZE :: "accept_ack \<Rightarrow> size_t" where
  "ACCEPT_ACK_SIZE m = aa_value_size m + of_nat sizeof_accept_ack"

definition pa_payload :: "prepare_ack \<Rightarrow> byte list" where
  "pa_payload m = take (unat (pa_value_size m)) (pa_value m)"

definition ar_payload :: "accept_req \<Rightarrow> byte list" where
  "ar_payload m = take (unat (ar_value_size m)) (ar_value m)"

definition aa_payload :: "accept_ack \<Rightarrow> byte list" where
  "aa_payload m = take (unat (aa_value_size m)) (aa_value m)"

definition msg_payload :: "paxos_msg \<Rightarrow> byte list" where
  "msg_payload m = take (unat (msg_data_size m)) (msg_data m)"

lemmas payload_defs = pa_payload_def ar_payload_def aa_payload_def msg_payload_def

text \<open>
  \<open>memcpy\<close> of \<open>n\<close> bytes into a buffer with room for \<open>cap\<close> bytes that holds \<open>dst\<close>: it must not
  read past its source nor write past its destination, and leaves the rest of the buffer.
\<close>

definition memcpy :: "nat \<Rightarrow> byte list \<Rightarrow> byte list \<Rightarrow> nat \<Rightarrow> byte list res" where
  "memcpy cap dst src n =
     (if length src < n then Err OutOfBounds
      else if cap < n then Err BufferOverflow
      else Ok (take n src @ drop n dst))"

lemma memcpy_eq_Ok [res_simps]:
  "memcpy cap dst src n = Ok b \<longleftrightarrow>
     n \<le> length src \<and> n \<le> cap \<and> b = take n src @ drop n dst"
  by (auto simp: memcpy_def)

lemma take_memcpy: "n \<le> length src \<Longrightarrow> take n (take n src @ drop n dst) = take n src"
  by simp

end
