(* ===== verification/Proposer.thy ===== *)
theory Proposer
  imports Carray Quorum Messages
begin

text \<open>
  \<open>paxos/proposer.c\<close>: the proposer runs phase 1 for a window of instances, adopts the values
  its promises report, runs phase 2 for the first instance with a majority of promises, starts
  over with a higher ballot when it is preempted, and repeats requests that timed out.

  The C code keeps pointers to instances in its queues and updates them in place; every
  instance is in exactly one queue, so here the queues hold the instances themselves.
  \<open>junk\<close> is the contents of the block that \<open>quorum_init\<close> allocates, \<open>now\<close> the result of
  \<open>gettimeofday\<close>.
\<close>

section \<open>State\<close>

record timeval =
  tv_sec :: int
  tv_usec :: int

record p_instance =
  pi_iid :: iid_t
  pi_ballot :: ballot_t
  pi_value_ballot :: ballot_t
  pi_value :: "paxos_msg option"
  pi_closed :: bool
  pi_quorum :: quorum
  pi_created_at :: timeval

record proposer =
  p_id :: int
  p_acceptors :: nat
  p_values :: "paxos_msg carray"
  p_next_prepare_iid :: iid_t
  p_prepare_instances :: "p_instance carray"
  p_accept_instances :: "p_instance carray"

record timeout_iterator =
  ti_pi :: nat
  ti_ai :: nat
  ti_timeout :: timeval

section \<open>Helpers\<close>

definition proposer_new :: "int \<Rightarrow> nat \<Rightarrow> proposer" where
  "proposer_new pid acceptors =
     \<lparr>p_id = pid, p_acceptors = acceptors, p_values = carray_new 128, p_next_prepare_iid = 0,
      p_prepare_instances = carray_new 128, p_accept_instances = carray_new 128\<rparr>"

definition p_instance_new ::
  "(nat \<Rightarrow> int) \<Rightarrow> timeval \<Rightarrow> iid_t \<Rightarrow> ballot_t \<Rightarrow> nat \<Rightarrow> p_instance res" where
  "p_instance_new junk now iid ballot acceptors =
     rbind (quorum_init junk acceptors) (\<lambda>q.
       Ok \<lparr>pi_iid = iid, pi_ballot = ballot, pi_value_ballot = 0, pi_value = None,
           pi_closed = False, pi_quorum = q, pi_created_at = now\<rparr>)"

text \<open>The index of the first instance with the given id.\<close>

definition instance_find :: "p_instance carray \<Rightarrow> iid_t \<Rightarrow> nat option res" where
  "instance_find c iid =
     for_loop [0..<carray_count c]
       (\<lambda>i found. case found of
           Some j \<Rightarrow> Ok (Some j)
         | None \<Rightarrow> rbind (carray_item c (int i)) (\<lambda>inst.
                     Ok (if pi_iid inst = iid then Some i else None)))
       None"

definition instance_match :: "p_instance \<Rightarrow> p_instance \<Rightarrow> int" where
  "instance_match a b = (if pi_iid a = pi_iid b then 1 else 0)"

definition instance_remove :: "p_instance carray \<Rightarrow> p_instance \<Rightarrow> p_instance carray res" where
  "instance_remove c inst = carray_reject c instance_match inst"

definition wrap_value :: "byte list \<Rightarrow> size_t \<Rightarrow> paxos_msg res" where
  "wrap_value v n =
     (if length v < unat n then Err OutOfBounds
      else Ok \<lparr>msg_data_size = n, msg_type = submit, msg_data = take (unat n) v\<rparr>)"

definition proposer_next_ballot :: "proposer \<Rightarrow> ballot_t \<Rightarrow> ballot_t" where
  "proposer_next_ballot p b =
     (if b > 0 then of_nat MAX_N_OF_PROPOSERS + b
      else word_of_int (int MAX_N_OF_PROPOSERS + p_id p))"

definition prepare_preempt ::
  "proposer \<Rightarrow> timeval \<Rightarrow> p_instance \<Rightarrow> (prepare_req \<times> p_instance) res" where
  "prepare_preempt p now inst =
     (let b = proposer_next_ballot p (pi_ballot inst) in
      rbind (quorum_clear (pi_quorum inst)) (\<lambda>q.
        Ok (\<lparr>pr_iid = pi_iid inst, pr_ballot = b\<rparr>,
            inst\<lparr>pi_ballot := b, pi_quorum := q, pi_created_at := now\<rparr>)))"

text \<open>
  The difference in microseconds. The product is computed in \<open>double\<close> and converted to \<open>int\<close>,
  which is undefined outside the range of \<open>int\<close>. The sum with the difference of the microseconds is a
  \<open>long\<close> that is converted to \<open>int\<close>, which is implementation-defined outside the range; it is an error
  here, too.
\<close>

definition timeval_diff :: "timeval \<Rightarrow> timeval \<Rightarrow> int res" where
  "timeval_diff t1 t2 =
     (let us = (tv_sec t2 - tv_sec t1) * 1000000 in
      if us < - (2 ^ 31) \<or> us > 2 ^ 31 - 1 then Err IntOverflow
      else if us < 0 then Ok 0
      else
        let r = us + (tv_usec t2 - tv_usec t1) in
        if r > 2 ^ 31 - 1 then Err IntOverflow else Ok r)"

definition instance_has_timedout :: "paxos_config \<Rightarrow> p_instance \<Rightarrow> timeval \<Rightarrow> bool res" where
  "instance_has_timedout cfg inst now =
     rbind (timeval_diff (pi_created_at inst) now) (\<lambda>diff. Ok (diff \<ge> proposer_timeout cfg))"

section \<open>Operations\<close>

definition proposer_propose :: "proposer \<Rightarrow> byte list \<Rightarrow> size_t \<Rightarrow> proposer res" where
  "proposer_propose p v n =
     rbind (wrap_value v n) (\<lambda>msg.
     rbind (carray_push_back (p_values p) msg) (\<lambda>c. Ok (p\<lparr>p_values := c\<rparr>)))"

definition proposer_prepared_count :: "proposer \<Rightarrow> nat" where
  "proposer_prepared_count p = carray_count (p_prepare_instances p)"

definition proposer_prepare ::
  "(nat \<Rightarrow> int) \<Rightarrow> timeval \<Rightarrow> proposer \<Rightarrow> (prepare_req \<times> proposer) res" where
  "proposer_prepare junk now p =
     (let iid = p_next_prepare_iid p + 1 in
      rbind (p_instance_new junk now iid (proposer_next_ballot p 0) (p_acceptors p)) (\<lambda>inst.
      rbind (carray_push_back (p_prepare_instances p) inst) (\<lambda>c.
        Ok (\<lparr>pr_iid = pi_iid inst, pr_ballot = pi_ballot inst\<rparr>,
            p\<lparr>p_next_prepare_iid := iid, p_prepare_instances := c\<rparr>))))"

text \<open>
  The result of the two receive functions is the request to send again when the instance was
  preempted (the C functions return 1), and \<open>None\<close> otherwise (they return 0).
\<close>

definition proposer_receive_prepare_ack ::
  "timeval \<Rightarrow> proposer \<Rightarrow> prepare_ack \<Rightarrow> (prepare_req option \<times> proposer) res" where
  "proposer_receive_prepare_ack now p ack =
     rbind (instance_find (p_prepare_instances p) (pa_iid ack)) (\<lambda>found.
       case found of
         None \<Rightarrow> Ok (None, p)
       | Some i \<Rightarrow>
           rbind (carray_item (p_prepare_instances p) (int i)) (\<lambda>inst.
             if pa_ballot ack < pi_ballot inst then Ok (None, p)
             else if pa_ballot ack = pi_ballot inst then
               rbind (quorum_add (pi_quorum inst) (pa_acceptor_id ack)) (\<lambda>(added, q).
                 if \<not> added then Ok (None, p)
                 else
                   let inst1 = inst\<lparr>pi_quorum := q\<rparr> in
                   rbind
                     (if pa_value_size ack > 0 then
                        (case pi_value inst1 of
                           None \<Rightarrow>
                             rbind (wrap_value (pa_value ack) (pa_value_size ack)) (\<lambda>msg.
                               Ok (p_values p, inst1\<lparr>pi_value_ballot := pa_value_ballot ack,
                                                     pi_value := Some msg\<rparr>))
                         | Some old \<Rightarrow>
                             if pa_value_ballot ack > pi_value_ballot inst1 then
                               rbind (carray_push_back (p_values p) old) (\<lambda>vs.
                               rbind (wrap_value (pa_value ack) (pa_value_size ack)) (\<lambda>msg.
                                 Ok (vs, inst1\<lparr>pi_value_ballot := pa_value_ballot ack,
                                               pi_value := Some msg\<rparr>)))
                             else Ok (p_values p, inst1))
                      else Ok (p_values p, inst1))
                     (\<lambda>(vs, inst2).
                       rbind (carray_set (p_prepare_instances p) (int i) inst2) (\<lambda>c.
                         Ok (None, p\<lparr>p_values := vs, p_prepare_instances := c\<rparr>))))
             else
               rbind (prepare_preempt p now inst) (\<lambda>(out, inst1).
               rbind (carray_set (p_prepare_instances p) (int i) inst1) (\<lambda>c.
                 Ok (Some out, p\<lparr>p_prepare_instances := c\<rparr>)))))"

text \<open>
  The loop of \<open>proposer_accept\<close>: closed instances are popped; the result is the first instance
  if it has a majority of promises.
\<close>

lemma carray_pop_front_count:
  "carray_pop_front c = Ok (Some x, d) \<Longrightarrow> ca_count d < ca_count c"
  by (auto simp: carray_pop_front_def carray_empty_def res_simps split: if_splits)

function accept_scan :: "p_instance carray \<Rightarrow> (p_instance option \<times> p_instance carray) res" where
  "accept_scan c =
     rbind (carray_front c) (\<lambda>front.
       case front of
         None \<Rightarrow> Ok (None, c)
       | Some inst \<Rightarrow>
           if pi_closed inst then
             rbind (carray_pop_front c) (\<lambda>(popped, d).
               case popped of None \<Rightarrow> Err NullPointer | Some _ \<Rightarrow> accept_scan d)
           else if \<not> quorum_reached (pi_quorum inst) then Ok (None, c)
           else Ok (Some inst, c))"
  by pat_completeness auto
termination
  by (relation "measure ca_count") (auto dest: carray_pop_front_count)

declare accept_scan.simps [simp del]

definition accept_req_of :: "p_instance \<Rightarrow> accept_req res" where
  "accept_req_of inst =
     (case pi_value inst of
        None \<Rightarrow> Err NullPointer
      | Some v \<Rightarrow>
          if length (msg_data v) < unat (msg_data_size v) then Err OutOfBounds
          else Ok \<lparr>ar_iid = pi_iid inst, ar_ballot = pi_ballot inst,
                   ar_value_size = msg_data_size v, ar_value = msg_payload v\<rparr>)"

definition proposer_accept :: "proposer \<Rightarrow> (accept_req option \<times> proposer) res" where
  "proposer_accept p =
     rbind (accept_scan (p_prepare_instances p)) (\<lambda>(found, prep).
       case found of
         None \<Rightarrow> Ok (None, p\<lparr>p_prepare_instances := prep\<rparr>)
       | Some inst \<Rightarrow>
           rbind (case pi_value inst of
                    None \<Rightarrow> carray_pop_front (p_values p)
                  | Some v \<Rightarrow> Ok (Some v, p_values p)) (\<lambda>(v, vs).
             case v of
               None \<Rightarrow> Ok (None, p\<lparr>p_prepare_instances := prep, p_values := vs\<rparr>)
             | Some msg \<Rightarrow>
                 rbind (carray_pop_front prep) (\<lambda>(_, prep1).
                 rbind (quorum_clear (pi_quorum inst)) (\<lambda>q.
                   let inst1 = inst\<lparr>pi_value := Some msg, pi_quorum := q\<rparr> in
                   rbind (carray_push_back (p_accept_instances p) inst1) (\<lambda>acc.
                   rbind (accept_req_of inst1) (\<lambda>req.
                     Ok (Some req, p\<lparr>p_prepare_instances := prep1, p_values := vs,
                                     p_accept_instances := acc\<rparr>)))))))"

definition proposer_receive_accept_ack ::
  "timeval \<Rightarrow> proposer \<Rightarrow> accept_ack \<Rightarrow> (prepare_req option \<times> proposer) res" where
  "proposer_receive_accept_ack now p ack =
     rbind (instance_find (p_accept_instances p) (aa_iid ack)) (\<lambda>found.
       case found of
         None \<Rightarrow> Ok (None, p)
       | Some i \<Rightarrow>
           rbind (carray_item (p_accept_instances p) (int i)) (\<lambda>inst.
             if aa_ballot ack = pi_ballot inst then
               rbind (rassert (aa_value_ballot ack = pi_ballot inst)) (\<lambda>_.
               rbind (quorum_add (pi_quorum inst) (aa_acceptor_id ack)) (\<lambda>(added, q).
                 if \<not> added then Ok (None, p)
                 else
                   let inst1 = inst\<lparr>pi_quorum := q\<rparr> in
                   if quorum_reached q then
                     rbind (instance_remove (p_accept_instances p) inst1) (\<lambda>acc.
                       Ok (None, p\<lparr>p_accept_instances := acc\<rparr>))
                   else
                     rbind (carray_set (p_accept_instances p) (int i) inst1) (\<lambda>acc.
                       Ok (None, p\<lparr>p_accept_instances := acc\<rparr>))))
             else
               rbind (instance_remove (p_accept_instances p) inst) (\<lambda>acc.
               rbind (prepare_preempt p now inst) (\<lambda>(out, inst1).
               rbind (carray_push_front (p_prepare_instances p) inst1) (\<lambda>prep.
                 Ok (Some out, p\<lparr>p_accept_instances := acc, p_prepare_instances := prep\<rparr>))))))"

section \<open>Timeouts\<close>

definition proposer_timeout_iterator :: "timeval \<Rightarrow> timeout_iterator" where
  "proposer_timeout_iterator now = \<lparr>ti_pi = 0, ti_ai = 0, ti_timeout = now\<rparr>"

text \<open>The index of the next instance that timed out, and the position to continue from.\<close>

function next_timedout ::
  "paxos_config \<Rightarrow> p_instance carray \<Rightarrow> nat \<Rightarrow> timeval \<Rightarrow> (nat option \<times> nat) res" where
  "next_timedout cfg c i t =
     (if i < carray_count c then
        rbind (carray_item c (int i)) (\<lambda>inst.
          if quorum_reached (pi_quorum inst) then next_timedout cfg c (Suc i) t
          else rbind (instance_has_timedout cfg inst t) (\<lambda>late.
                 if late then Ok (Some i, Suc i) else next_timedout cfg c (Suc i) t))
      else Ok (None, i))"
  by pat_completeness auto
termination
  by (relation "measure (\<lambda>(cfg, c, i, t). carray_count c - i)") auto

declare next_timedout.simps [simp del]

definition timeout_iterator_prepare ::
  "paxos_config \<Rightarrow> timeout_iterator \<Rightarrow> proposer \<Rightarrow>
   (prepare_req option \<times> timeout_iterator \<times> proposer) res" where
  "timeout_iterator_prepare cfg it p =
     rbind (next_timedout cfg (p_prepare_instances p) (ti_pi it) (ti_timeout it)) (\<lambda>(found, i).
       case found of
         None \<Rightarrow> Ok (None, it\<lparr>ti_pi := i\<rparr>, p)
       | Some k \<Rightarrow>
           rbind (carray_item (p_prepare_instances p) (int k)) (\<lambda>inst.
           rbind (carray_set (p_prepare_instances p) (int k)
                    (inst\<lparr>pi_created_at := ti_timeout it\<rparr>)) (\<lambda>c.
             Ok (Some \<lparr>pr_iid = pi_iid inst, pr_ballot = pi_ballot inst\<rparr>,
                 it\<lparr>ti_pi := i\<rparr>, p\<lparr>p_prepare_instances := c\<rparr>))))"

definition timeout_iterator_accept ::
  "paxos_config \<Rightarrow> timeout_iterator \<Rightarrow> proposer \<Rightarrow>
   (accept_req option \<times> timeout_iterator \<times> proposer) res" where
  "timeout_iterator_accept cfg it p =
     rbind (next_timedout cfg (p_accept_instances p) (ti_ai it) (ti_timeout it)) (\<lambda>(found, i).
       case found of
         None \<Rightarrow> Ok (None, it\<lparr>ti_ai := i\<rparr>, p)
       | Some k \<Rightarrow>
           rbind (carray_item (p_accept_instances p) (int k)) (\<lambda>inst.
           rbind (accept_req_of inst) (\<lambda>req.
           rbind (carray_set (p_accept_instances p) (int k)
                    (inst\<lparr>pi_created_at := ti_timeout it\<rparr>)) (\<lambda>c.
             Ok (Some req, it\<lparr>ti_ai := i\<rparr>, p\<lparr>p_accept_instances := c\<rparr>)))))"

end
