(* ===== verification/Storage.thy ===== *)
theory Storage
  imports Messages
begin

text \<open>
  \<open>paxos/include/storage.h\<close>: the interface between the acceptor and its storage. Which
  implementation is used is decided when the library is linked; here the functions are a record
  that the acceptor's definitions take as an argument. The locale \<open>record_store\<close> states what
  the acceptor relies on, for any implementation: \<open>lookup\<close> gives the record stored for an
  instance, \<open>live\<close> the instances the storage can still answer for.
\<close>

record 's storage_ops =
  so_tx_begin :: "'s \<Rightarrow> 's res"
  so_tx_commit :: "'s \<Rightarrow> 's res"
  so_get_record :: "'s \<Rightarrow> iid_t \<Rightarrow> (acceptor_record option \<times> 's) res"
  so_save_accept :: "'s \<Rightarrow> accept_req \<Rightarrow> (acceptor_record \<times> 's) res"
  so_save_prepare :: "'s \<Rightarrow> prepare_req \<Rightarrow> acceptor_record option \<Rightarrow> (acceptor_record \<times> 's) res"
  so_close :: "'s \<Rightarrow> int"

text \<open>What the record of an instance says after a first promise and after an accept.\<close>

definition is_promise_record :: "int \<Rightarrow> prepare_req \<Rightarrow> acceptor_record \<Rightarrow> bool" where
  "is_promise_record aid pr r \<longleftrightarrow>
     aa_acceptor_id r = aid \<and> aa_iid r = pr_iid pr \<and> aa_ballot r = pr_ballot pr \<and>
     aa_value_ballot r = 0 \<and> aa_is_final r = 0 \<and> aa_value_size r = 0"

definition is_accept_record :: "int \<Rightarrow> accept_req \<Rightarrow> acceptor_record \<Rightarrow> bool" where
  "is_accept_record aid ar r \<longleftrightarrow>
     aa_acceptor_id r = aid \<and> aa_iid r = ar_iid ar \<and> aa_ballot r = ar_ballot ar \<and>
     aa_value_ballot r = ar_ballot ar \<and> aa_is_final r = 0 \<and>
     aa_value_size r = ar_value_size ar \<and> aa_payload r = ar_payload ar"

definition is_prepared_record ::
  "int \<Rightarrow> prepare_req \<Rightarrow> acceptor_record option \<Rightarrow> acceptor_record \<Rightarrow> bool" where
  "is_prepared_record aid pr old r \<longleftrightarrow>
     (case old of None \<Rightarrow> is_promise_record aid pr r
      | Some r0 \<Rightarrow> r = r0\<lparr>aa_ballot := pr_ballot pr\<rparr>)"

text \<open>
  A write to one instance: it is now stored as given, and every other instance that is still
  live was live before and has the record it had.
\<close>

definition store_write ::
  "('s \<Rightarrow> iid_t \<Rightarrow> acceptor_record option) \<Rightarrow> ('s \<Rightarrow> iid_t \<Rightarrow> bool) \<Rightarrow> iid_t \<Rightarrow>
   acceptor_record \<Rightarrow> 's \<Rightarrow> 's \<Rightarrow> bool" where
  "store_write lookup live i r s t \<longleftrightarrow>
     live t i \<and> lookup t i = Some r \<and>
     (\<forall>j. j \<noteq> i \<longrightarrow> live t j \<longrightarrow> live s j \<and> lookup t j = lookup s j)"

locale record_store =
  fixes ops :: "'s storage_ops"
    and lookup :: "'s \<Rightarrow> iid_t \<Rightarrow> acceptor_record option"
    and live :: "'s \<Rightarrow> iid_t \<Rightarrow> bool"
    and owner :: "'s \<Rightarrow> int"
    and inv :: "'s \<Rightarrow> bool"
  assumes tx_begin: "inv s \<Longrightarrow> so_tx_begin ops s = Ok t \<Longrightarrow>
      inv t \<and> owner t = owner s \<and> lookup t = lookup s \<and> live t = live s"
    and tx_commit: "inv s \<Longrightarrow> so_tx_commit ops s = Ok t \<Longrightarrow>
      inv t \<and> owner t = owner s \<and> lookup t = lookup s \<and> live t = live s"
    and get: "inv s \<Longrightarrow> so_get_record ops s i = Ok (old, t) \<Longrightarrow>
      inv t \<and> owner t = owner s \<and> lookup t = lookup s \<and> live t = live s \<and>
      live s i \<and> old = lookup s i"
    and save_accept: "inv s \<Longrightarrow> so_get_record ops s (ar_iid ar) = Ok (old, t) \<Longrightarrow>
      so_save_accept ops t ar = Ok (rec, u) \<Longrightarrow>
      inv u \<and> owner u = owner s \<and> is_accept_record (owner s) ar rec \<and>
      store_write lookup live (ar_iid ar) rec s u"
    and save_prepare: "inv s \<Longrightarrow> so_get_record ops s (pr_iid pr) = Ok (old, t) \<Longrightarrow>
      so_save_prepare ops t pr old = Ok (rec, u) \<Longrightarrow>
      inv u \<and> owner u = owner s \<and> is_prepared_record (owner s) pr old rec \<and>
      store_write lookup live (pr_iid pr) rec s u"
    and lookup_iid: "inv s \<Longrightarrow> lookup s i = Some r \<Longrightarrow> aa_iid r = i"

end
