(* ===== verification/Acceptor.thy ===== *)
theory Acceptor
  imports Storage
begin

text \<open>
  \<open>paxos/acceptor.c\<close>: the acceptor answers prepare, accept and repeat requests from its
  storage, inside one transaction each. The first part translates the operations over any
  storage; the lemmas about them are proved once, in the locale \<open>record_store\<close>: what each
  request returns and stores, and that ballots and value ballots of an instance never go down,
  however the requests are interleaved.
\<close>

section \<open>Operations\<close>

record 's acceptor =
  acc_store :: 's

text \<open>\<open>storage_open\<close> returns NULL when it fails; so does \<open>acceptor_new\<close>. Which storage is linked is not
  known here, so \<open>acceptor_new\<close> is given what its call of \<open>storage_open\<close> with the acceptor id returned.\<close>

definition acceptor_new :: "'s option \<Rightarrow> 's acceptor option" where
  "acceptor_new opened =
     (case opened of None \<Rightarrow> None | Some s \<Rightarrow> Some \<lparr>acc_store = s\<rparr>)"

definition acceptor_free :: "'s storage_ops \<Rightarrow> 's acceptor \<Rightarrow> int" where
  "acceptor_free ops a = so_close ops (acc_store a)"

definition apply_prepare ::
  "'s storage_ops \<Rightarrow> 's \<Rightarrow> prepare_req \<Rightarrow> acceptor_record option \<Rightarrow> (acceptor_record \<times> 's) res" where
  "apply_prepare ops s pr rec =
     (case rec of
        Some r \<Rightarrow>
          if aa_ballot r \<ge> pr_ballot pr then Ok (r, s)
          else if aa_is_final r \<noteq> 0 then Ok (r, s)
          else so_save_prepare ops s pr rec
      | None \<Rightarrow> so_save_prepare ops s pr rec)"

definition apply_accept ::
  "'s storage_ops \<Rightarrow> 's \<Rightarrow> accept_req \<Rightarrow> acceptor_record option \<Rightarrow> (acceptor_record \<times> 's) res" where
  "apply_accept ops s ar rec =
     (case rec of
        Some r \<Rightarrow> if aa_ballot r > ar_ballot ar then Ok (r, s) else so_save_accept ops s ar
      | None \<Rightarrow> so_save_accept ops s ar)"

definition acceptor_receive_prepare ::
  "'s storage_ops \<Rightarrow> 's acceptor \<Rightarrow> prepare_req \<Rightarrow> (acceptor_record \<times> 's acceptor) res" where
  "acceptor_receive_prepare ops a req =
     rbind (so_tx_begin ops (acc_store a)) (\<lambda>s1.
     rbind (so_get_record ops s1 (pr_iid req)) (\<lambda>(rec, s2).
     rbind (apply_prepare ops s2 req rec) (\<lambda>(rec', s3).
     rbind (so_tx_commit ops s3) (\<lambda>s4. Ok (rec', a\<lparr>acc_store := s4\<rparr>)))))"

definition acceptor_receive_accept ::
  "'s storage_ops \<Rightarrow> 's acceptor \<Rightarrow> accept_req \<Rightarrow> (acceptor_record \<times> 's acceptor) res" where
  "acceptor_receive_accept ops a req =
     rbind (so_tx_begin ops (acc_store a)) (\<lambda>s1.
     rbind (so_get_record ops s1 (ar_iid req)) (\<lambda>(rec, s2).
     rbind (apply_accept ops s2 req rec) (\<lambda>(rec', s3).
     rbind (so_tx_commit ops s3) (\<lambda>s4. Ok (rec', a\<lparr>acc_store := s4\<rparr>)))))"

definition acceptor_receive_repeat ::
  "'s storage_ops \<Rightarrow> 's acceptor \<Rightarrow> iid_t \<Rightarrow> (acceptor_record option \<times> 's acceptor) res" where
  "acceptor_receive_repeat ops a iid =
     rbind (so_tx_begin ops (acc_store a)) (\<lambda>s1.
     rbind (so_get_record ops s1 iid) (\<lambda>(rec, s2).
     rbind (so_tx_commit ops s2) (\<lambda>s3. Ok (rec, a\<lparr>acc_store := s3\<rparr>))))"

section \<open>Sequences of requests\<close>

datatype acceptor_request = RPrepare prepare_req | RAccept accept_req | RRepeat iid_t

fun request_iid :: "acceptor_request \<Rightarrow> iid_t" where
  "request_iid (RPrepare pr) = pr_iid pr"
| "request_iid (RAccept ar) = ar_iid ar"
| "request_iid (RRepeat i) = i"

fun acceptor_handle ::
  "'s storage_ops \<Rightarrow> 's acceptor \<Rightarrow> acceptor_request \<Rightarrow> (acceptor_record option \<times> 's acceptor) res" where
  "acceptor_handle ops a (RPrepare pr) =
     rbind (acceptor_receive_prepare ops a pr) (\<lambda>(r, b). Ok (Some r, b))"
| "acceptor_handle ops a (RAccept ar) =
     rbind (acceptor_receive_accept ops a ar) (\<lambda>(r, b). Ok (Some r, b))"
| "acceptor_handle ops a (RRepeat i) = acceptor_receive_repeat ops a i"

text \<open>The records returned for a list of requests, in order.\<close>

fun acceptor_run ::
  "'s storage_ops \<Rightarrow> 's acceptor \<Rightarrow> acceptor_request list \<Rightarrow>
   (acceptor_record option list \<times> 's acceptor) res" where
  "acceptor_run ops a [] = Ok ([], a)"
| "acceptor_run ops a (q # qs) =
     rbind (acceptor_handle ops a q) (\<lambda>(r, b).
     rbind (acceptor_run ops b qs) (\<lambda>(rs, c). Ok (r # rs, c)))"

section \<open>What a request does\<close>

text \<open>The record an acceptor answers to a prepare request, from the one it had.\<close>

definition prepare_answer ::
  "int \<Rightarrow> prepare_req \<Rightarrow> acceptor_record option \<Rightarrow> acceptor_record \<Rightarrow> bool" where
  "prepare_answer aid pr old rec \<longleftrightarrow>
     (case old of
        None \<Rightarrow> is_promise_record aid pr rec
      | Some r0 \<Rightarrow> rec = (if aa_ballot r0 \<ge> pr_ballot pr \<or> aa_is_final r0 \<noteq> 0 then r0
                         else r0\<lparr>aa_ballot := pr_ballot pr\<rparr>))"

definition accept_answer ::
  "int \<Rightarrow> accept_req \<Rightarrow> acceptor_record option \<Rightarrow> acceptor_record \<Rightarrow> bool" where
  "accept_answer aid ar old rec \<longleftrightarrow>
     (case old of
        Some r0 \<Rightarrow> if aa_ballot r0 > ar_ballot ar then rec = r0 else is_accept_record aid ar rec
      | None \<Rightarrow> is_accept_record aid ar rec)"

text \<open>A stored record that came from requests: its value ballot is not above its ballot.\<close>

definition record_ok :: "int \<Rightarrow> acceptor_record \<Rightarrow> bool" where
  "record_ok aid r \<longleftrightarrow>
     aa_acceptor_id r = aid \<and> aa_value_ballot r \<le> aa_ballot r \<and> aa_is_final r = 0"

context record_store
begin

lemmas get_law = get

lemma write_same: "live s i \<Longrightarrow> lookup s i = Some r \<Longrightarrow> store_write lookup live i r s s"
  by (simp add: store_write_def)

lemma store_write_cong:
  "lookup t = lookup t' \<Longrightarrow> live t = live t' \<Longrightarrow> lookup s = lookup s' \<Longrightarrow> live s = live s' \<Longrightarrow>
    store_write lookup live i r s t \<longleftrightarrow> store_write lookup live i r s' t'"
  by (simp add: store_write_def)

lemma apply_prepare_spec:
  assumes inv: "inv s" and get: "so_get_record ops s (pr_iid pr) = Ok (old, t)"
    and app: "apply_prepare ops t pr old = Ok (rec, u)"
  shows "inv u \<and> owner u = owner s \<and> prepare_answer (owner s) pr (lookup s (pr_iid pr)) rec \<and>
     store_write lookup live (pr_iid pr) rec s u"
proof -
  note G = get_law [OF inv get]
  show ?thesis
  proof (cases "old \<noteq> None \<and> (aa_ballot (the old) \<ge> pr_ballot pr \<or> aa_is_final (the old) \<noteq> 0)")
    case True
    with app have "rec = the old" "u = t"
      by (auto simp: apply_prepare_def split: option.splits if_splits)
    with True G show ?thesis
      by (auto simp: prepare_answer_def store_write_def)
  next
    case False
    with app have "so_save_prepare ops t pr old = Ok (rec, u)"
      by (auto simp: apply_prepare_def split: option.splits if_splits)
    from save_prepare [OF inv get this] False G show ?thesis
      by (auto simp: prepare_answer_def is_prepared_record_def split: option.splits)
  qed
qed

lemma apply_accept_spec:
  assumes inv: "inv s" and get: "so_get_record ops s (ar_iid ar) = Ok (old, t)"
    and app: "apply_accept ops t ar old = Ok (rec, u)"
  shows "inv u \<and> owner u = owner s \<and> accept_answer (owner s) ar (lookup s (ar_iid ar)) rec \<and>
     store_write lookup live (ar_iid ar) rec s u"
proof -
  note G = get_law [OF inv get]
  show ?thesis
  proof (cases "old \<noteq> None \<and> aa_ballot (the old) > ar_ballot ar")
    case True
    with app have "rec = the old" "u = t"
      by (auto simp: apply_accept_def split: option.splits if_splits)
    with True G show ?thesis
      by (auto simp: accept_answer_def store_write_def)
  next
    case False
    with app have "so_save_accept ops t ar = Ok (rec, u)"
      by (auto simp: apply_accept_def split: option.splits if_splits)
    from save_accept [OF inv get this] False G show ?thesis
      by (auto simp: accept_answer_def split: option.splits)
  qed
qed

lemma receive_prepare_spec:
  assumes "inv (acc_store a)" "acceptor_receive_prepare ops a pr = Ok (rec, b)"
  shows "inv (acc_store b) \<and> owner (acc_store b) = owner (acc_store a) \<and>
     live (acc_store a) (pr_iid pr) \<and>
     prepare_answer (owner (acc_store a)) pr (lookup (acc_store a) (pr_iid pr)) rec \<and>
     store_write lookup live (pr_iid pr) rec (acc_store a) (acc_store b)"
proof -
  from assms(2) obtain s1 old s2 s3 s4 where
    s1: "so_tx_begin ops (acc_store a) = Ok s1" and
    s2: "so_get_record ops s1 (pr_iid pr) = Ok (old, s2)" and
    s3: "apply_prepare ops s2 pr old = Ok (rec, s3)" and
    s4: "so_tx_commit ops s3 = Ok s4" and b: "acc_store b = s4"
    by (auto simp: acceptor_receive_prepare_def res_simps)
  note T = tx_begin [OF assms(1) s1]
  note A = apply_prepare_spec [OF conjunct1 [OF T] s2 s3]
  note C = tx_commit [OF conjunct1 [OF A] s4]
  from T A C get_law [OF conjunct1 [OF T] s2] show ?thesis
    by (simp add: b store_write_def)
qed

lemma receive_accept_spec:
  assumes "inv (acc_store a)" "acceptor_receive_accept ops a ar = Ok (rec, b)"
  shows "inv (acc_store b) \<and> owner (acc_store b) = owner (acc_store a) \<and>
     live (acc_store a) (ar_iid ar) \<and>
     accept_answer (owner (acc_store a)) ar (lookup (acc_store a) (ar_iid ar)) rec \<and>
     store_write lookup live (ar_iid ar) rec (acc_store a) (acc_store b)"
proof -
  from assms(2) obtain s1 old s2 s3 s4 where
    s1: "so_tx_begin ops (acc_store a) = Ok s1" and
    s2: "so_get_record ops s1 (ar_iid ar) = Ok (old, s2)" and
    s3: "apply_accept ops s2 ar old = Ok (rec, s3)" and
    s4: "so_tx_commit ops s3 = Ok s4" and b: "acc_store b = s4"
    by (auto simp: acceptor_receive_accept_def res_simps)
  note T = tx_begin [OF assms(1) s1]
  note A = apply_accept_spec [OF conjunct1 [OF T] s2 s3]
  note C = tx_commit [OF conjunct1 [OF A] s4]
  from T A C get_law [OF conjunct1 [OF T] s2] show ?thesis
    by (simp add: b store_write_def)
qed

lemma receive_repeat_spec:
  assumes "inv (acc_store a)" "acceptor_receive_repeat ops a i = Ok (r, b)"
  shows "inv (acc_store b) \<and> owner (acc_store b) = owner (acc_store a) \<and>
     live (acc_store a) i \<and> r = lookup (acc_store a) i \<and>
     lookup (acc_store b) = lookup (acc_store a) \<and> live (acc_store b) = live (acc_store a)"
proof -
  from assms(2) obtain s1 s2 s3 where
    s1: "so_tx_begin ops (acc_store a) = Ok s1" and
    s2: "so_get_record ops s1 i = Ok (r, s2)" and
    s3: "so_tx_commit ops s2 = Ok s3" and b: "acc_store b = s3"
    by (auto simp: acceptor_receive_repeat_def res_simps)
  note T = tx_begin [OF assms(1) s1]
  note G = get_law [OF conjunct1 [OF T] s2]
  from T G tx_commit [OF conjunct1 [OF G] s3] show ?thesis by (simp add: b)
qed

section \<open>Ballots never go down\<close>

text \<open>
  Instance 0 is not an instance of the protocol (proposers start at 1): what a storage holds
  under it before the first write is not constrained.
\<close>

definition store_ok :: "'s \<Rightarrow> bool" where
  "store_ok s \<longleftrightarrow> inv s \<and>
     (\<forall>i r. i \<noteq> 0 \<longrightarrow> live s i \<longrightarrow> lookup s i = Some r \<longrightarrow> record_ok (owner s) r)"

definition grows :: "'s \<Rightarrow> 's \<Rightarrow> bool" where
  "grows s t \<longleftrightarrow> (\<forall>i. live t i \<longrightarrow> live s i) \<and>
     (\<forall>i r. i \<noteq> 0 \<longrightarrow> live t i \<longrightarrow> lookup s i = Some r \<longrightarrow>
       (\<exists>r'. lookup t i = Some r' \<and> aa_ballot r \<le> aa_ballot r' \<and>
             aa_value_ballot r \<le> aa_value_ballot r'))"

lemma grows_refl: "grows s s"
  by (auto simp: grows_def)

lemma grows_trans:
  assumes "grows s t" "grows t u"
  shows "grows s u"
  unfolding grows_def
proof (intro conjI allI impI)
  show "live s i" if "live u i" for i
    using that assms by (auto simp: grows_def)
next
  fix i r assume i: "i \<noteq> 0" "live u i" "lookup s i = Some r"
  then have "live t i" using assms(2) by (auto simp: grows_def)
  with i assms(1) obtain r1 where r1: "lookup t i = Some r1" "aa_ballot r \<le> aa_ballot r1"
    "aa_value_ballot r \<le> aa_value_ballot r1"
    unfolding grows_def by blast
  with i assms(2) obtain r2 where "lookup u i = Some r2" "aa_ballot r1 \<le> aa_ballot r2"
    "aa_value_ballot r1 \<le> aa_value_ballot r2"
    unfolding grows_def by blast
  with r1 show "\<exists>r'. lookup u i = Some r' \<and> aa_ballot r \<le> aa_ballot r' \<and>
      aa_value_ballot r \<le> aa_value_ballot r'"
    using order_trans by blast
qed

text \<open>One write of an answer that is well formed and not older keeps the storage growing.\<close>

lemma write_grows:
  assumes ok: "store_ok s" and inv: "inv t" and own: "owner t = owner s" and li: "live s i"
    and w: "store_write lookup live i rec s t"
    and up: "\<And>r0. i \<noteq> 0 \<Longrightarrow> lookup s i = Some r0 \<Longrightarrow> record_ok (owner s) r0 \<Longrightarrow>
        aa_ballot r0 \<le> aa_ballot rec \<and> aa_value_ballot r0 \<le> aa_value_ballot rec \<and>
        record_ok (owner s) rec"
    and new: "i \<noteq> 0 \<Longrightarrow> lookup s i = None \<Longrightarrow> record_ok (owner s) rec"
  shows "store_ok t \<and> grows s t"
proof -
  have rec: "record_ok (owner s) rec" if "i \<noteq> 0"
    using that up new li ok by (cases "lookup s i") (auto simp: store_ok_def)
  have "record_ok (owner t) r" if "j \<noteq> 0" "live t j" "lookup t j = Some r" for j r
  proof (cases "j = i")
    case True
    with that w rec own show ?thesis by (auto simp: store_write_def)
  next
    case False
    with w that have "live s j" "lookup s j = Some r" by (auto simp: store_write_def)
    with ok that(1) own show ?thesis by (auto simp: store_ok_def)
  qed
  then have "store_ok t" using inv by (simp add: store_ok_def)
  moreover have "grows s t"
    unfolding grows_def
  proof (intro conjI allI impI)
    show "live s j" if "live t j" for j
      using that w li by (cases "j = i") (auto simp: store_write_def)
  next
    fix j r assume j: "j \<noteq> 0" "live t j" "lookup s j = Some r"
    show "\<exists>r'. lookup t j = Some r' \<and> aa_ballot r \<le> aa_ballot r' \<and>
        aa_value_ballot r \<le> aa_value_ballot r'"
    proof (cases "j = i")
      case True
      with j li ok have "record_ok (owner s) r" by (auto simp: store_ok_def)
      with j True w up [of r] show ?thesis by (auto simp: store_write_def)
    next
      case False
      with j w show ?thesis by (auto simp: store_write_def)
    qed
  qed
  ultimately show ?thesis by simp
qed

lemma handle_grows:
  assumes ok: "store_ok (acc_store a)" and h: "acceptor_handle ops a q = Ok (r, b)"
  shows "store_ok (acc_store b) \<and> grows (acc_store a) (acc_store b) \<and>
     owner (acc_store b) = owner (acc_store a) \<and>
     live (acc_store b) (request_iid q) \<and> lookup (acc_store b) (request_iid q) = r"
proof (cases q)
  case (RPrepare pr)
  with h obtain rec where rec: "acceptor_receive_prepare ops a pr = Ok (rec, b)" "r = Some rec"
    by (auto simp: res_simps)
  from ok have "inv (acc_store a)" by (simp add: store_ok_def)
  note P = receive_prepare_spec [OF this rec(1)]
  have "store_ok (acc_store b) \<and> grows (acc_store a) (acc_store b)"
    by (rule write_grows [OF ok, where i = "pr_iid pr" and rec = rec])
      (use P in \<open>auto simp: prepare_answer_def is_promise_record_def record_ok_def
        intro: order_trans less_imp_le\<close>)
  with P rec RPrepare show ?thesis by (simp add: store_write_def)
next
  case (RAccept ar)
  with h obtain rec where rec: "acceptor_receive_accept ops a ar = Ok (rec, b)" "r = Some rec"
    by (auto simp: res_simps)
  from ok have "inv (acc_store a)" by (simp add: store_ok_def)
  note P = receive_accept_spec [OF this rec(1)]
  have "store_ok (acc_store b) \<and> grows (acc_store a) (acc_store b)"
    by (rule write_grows [OF ok, where i = "ar_iid ar" and rec = rec])
      (use P in \<open>auto simp: accept_answer_def is_accept_record_def record_ok_def
        split: if_splits intro: order_trans\<close>)
  with P rec RAccept show ?thesis by (simp add: store_write_def)
next
  case (RRepeat i)
  with h have rep: "acceptor_receive_repeat ops a i = Ok (r, b)" by simp
  from ok have "inv (acc_store a)" by (simp add: store_ok_def)
  from receive_repeat_spec [OF this rep] ok RRepeat show ?thesis
    by (auto simp: store_ok_def grows_def)
qed

text \<open>
  Over a run: the answers to later requests for an instance are never older than the record the
  acceptor had before.
\<close>

lemma run_grows:
  assumes "store_ok (acc_store a)" "acceptor_run ops a qs = Ok (rs, c)"
  shows "store_ok (acc_store c) \<and> grows (acc_store a) (acc_store c) \<and> length rs = length qs"
  using assms
proof (induction qs arbitrary: a rs)
  case Nil
  then show ?case by (auto simp: grows_refl)
next
  case (Cons q qs)
  from Cons.prems(2) obtain r b rs' where h: "acceptor_handle ops a q = Ok (r, b)"
    and rest: "acceptor_run ops b qs = Ok (rs', c)" and rs: "rs = r # rs'"
    by (auto simp: res_simps)
  note H = handle_grows [OF Cons.prems(1) h]
  from Cons.IH [OF _ rest] H rs show ?case by (auto intro: grows_trans)
qed

lemma run_served:
  assumes "store_ok (acc_store a)" "acceptor_run ops a qs = Ok (rs, c)" "k < length qs"
  shows "live (acc_store a) (request_iid (qs ! k))"
  using assms
proof (induction qs arbitrary: a rs k)
  case (Cons q qs)
  from Cons.prems(2) obtain r b rs' where h: "acceptor_handle ops a q = Ok (r, b)"
    and rest: "acceptor_run ops b qs = Ok (rs', c)"
    by (auto simp: res_simps)
  note H = handle_grows [OF Cons.prems(1) h]
  show ?case
  proof (cases k)
    case 0
    with H show ?thesis by (auto simp: grows_def)
  next
    case (Suc m)
    with Cons.prems(3) H have "live (acc_store b) (request_iid (qs ! m))"
      using Cons.IH [OF _ rest, of m] by simp
    with H Suc show ?thesis by (auto simp: grows_def)
  qed
qed simp

lemma answer_after:
  assumes "store_ok (acc_store a)" "acceptor_run ops a qs = Ok (rs, c)"
    and "k < length qs" "request_iid (qs ! k) = i" "i \<noteq> 0" "lookup (acc_store a) i = Some r0"
  shows "\<exists>r. rs ! k = Some r \<and> aa_ballot r0 \<le> aa_ballot r \<and>
     aa_value_ballot r0 \<le> aa_value_ballot r"
  using assms
proof (induction qs arbitrary: a rs k r0)
  case (Cons q qs)
  from Cons.prems(2) obtain r b rs' where h: "acceptor_handle ops a q = Ok (r, b)"
    and rest: "acceptor_run ops b qs = Ok (rs', c)" and rs: "rs = r # rs'"
    by (auto simp: res_simps)
  note H = handle_grows [OF Cons.prems(1) h]
  show ?case
  proof (cases k)
    case 0
    with Cons.prems H rs show ?thesis by (auto simp: grows_def)
  next
    case (Suc m)
    with Cons.prems have m: "m < length qs" "request_iid (qs ! m) = i" by simp_all
    have "live (acc_store b) i"
      using run_served [OF _ rest m(1)] H m by simp
    with Cons.prems H obtain r1 where r1: "lookup (acc_store b) i = Some r1"
      "aa_ballot r0 \<le> aa_ballot r1" "aa_value_ballot r0 \<le> aa_value_ballot r1"
      unfolding grows_def by blast
    from Cons.IH [OF _ rest m \<open>i \<noteq> 0\<close> r1(1)] H r1 Suc rs show ?thesis
      using order_trans by fastforce
  qed
qed simp

lemma run_monotone:
  assumes ok: "store_ok (acc_store a)" and run: "acceptor_run ops a qs = Ok (rs, c)"
    and jk: "j < k" "k < length qs" and i: "request_iid (qs ! j) = i" "request_iid (qs ! k) = i" "i \<noteq> 0"
    and rj: "rs ! j = Some r"
  shows "\<exists>r'. rs ! k = Some r' \<and> aa_ballot r \<le> aa_ballot r' \<and>
     aa_value_ballot r \<le> aa_value_ballot r'"
  using assms
proof (induction qs arbitrary: a rs j k)
  case (Cons q qs)
  from Cons.prems(2) obtain r1 b rs' where h: "acceptor_handle ops a q = Ok (r1, b)"
    and rest: "acceptor_run ops b qs = Ok (rs', c)" and rs: "rs = r1 # rs'"
    by (auto simp: res_simps)
  note H = handle_grows [OF Cons.prems(1) h]
  from Cons.prems(3) obtain m where k: "k = Suc m" by (cases k) auto
  show ?case
  proof (cases j)
    case 0
    with Cons.prems k H rs answer_after [OF _ rest, of m i r] show ?thesis by simp
  next
    case (Suc l)
    with Cons.prems k H rs Cons.IH [OF _ rest, of l m] show ?thesis by simp
  qed
qed simp

end

end
