(* ===== verification/Learner.thy ===== *)
theory Learner
  imports Carray Paxos Messages
begin

text \<open>
  \<open>paxos/learner.c\<close>: the learner keeps a window of instances in a ring buffer, collects accept
  acknowledgements per acceptor, closes an instance when a majority of the stored
  acknowledgements carry the ballot seen last, and delivers closed instances in order.
\<close>

section \<open>State\<close>

record l_instance =
  li_iid :: iid_t
  li_last_update_ballot :: ballot_t
  li_acks :: "accept_ack option list"
  li_final_value :: "accept_ack option"

record learner =
  l_quorum :: nat
  l_acceptors :: nat
  l_late_start :: bool
  l_current_iid :: iid_t
  l_highest_iid_seen :: iid_t
  l_highest_iid_closed :: iid_t
  l_instances :: "l_instance carray"

section \<open>Instances\<close>

definition instance_clear :: "l_instance \<Rightarrow> nat \<Rightarrow> l_instance res" where
  "instance_clear inst acceptors =
     rbind (for_loop [0..<acceptors] (\<lambda>i acks. arr_write acks i None) (li_acks inst))
       (\<lambda>acks. Ok \<lparr>li_iid = 0, li_last_update_ballot = 0, li_acks = acks, li_final_value = None\<rparr>)"

definition instance_new :: "nat \<Rightarrow> l_instance" where
  "instance_new acceptors =
     \<lparr>li_iid = 0, li_last_update_ballot = 0, li_acks = replicate acceptors None,
      li_final_value = None\<rparr>"

text \<open>
  The counting loop of \<open>instance_has_quorum\<close>. Its state is the index of the last agreeing
  acknowledgement, the count and whether the loop was left by \<open>break\<close>.
\<close>

definition has_quorum_body ::
  "nat \<Rightarrow> l_instance \<Rightarrow> nat \<Rightarrow> int \<times> nat \<times> bool \<Rightarrow> (int \<times> nat \<times> bool) res" where
  "has_quorum_body acceptors inst i st =
     (case st of (a_valid_index, count, broken) \<Rightarrow>
       if broken then Ok st
       else if i < length (li_acks inst) then
         (case li_acks inst ! i of
            None \<Rightarrow> Ok st
          | Some curr_ack \<Rightarrow>
              if aa_ballot curr_ack = li_last_update_ballot inst then
                if aa_is_final curr_ack \<noteq> 0 then Ok (int i, count + 1 + acceptors, True)
                else Ok (int i, count + 1, False)
              else Ok st)
       else Err OutOfBounds)"

definition instance_has_quorum :: "learner \<Rightarrow> l_instance \<Rightarrow> (bool \<times> l_instance) res" where
  "instance_has_quorum l inst =
     (if li_final_value inst \<noteq> None then Ok (True, inst)
      else
        rbind (for_loop [0..<l_acceptors l] (has_quorum_body (l_acceptors l) inst) (-1, 0, False))
          (\<lambda>(a_valid_index, count, _).
            if count \<ge> l_quorum l then
              rbind (int_index a_valid_index (li_acks inst)) (\<lambda>k.
                Ok (True, inst\<lparr>li_final_value := li_acks inst ! k\<rparr>))
            else Ok (False, inst)))"

text \<open>A copy of the first \<open>ACCEPT_ACK_SIZE\<close> bytes of an acknowledgement.\<close>

definition copy_ack :: "accept_ack \<Rightarrow> accept_ack res" where
  "copy_ack ack =
     (if length (aa_value ack) < unat (aa_value_size ack) then Err OutOfBounds
      else Ok (ack\<lparr>aa_value := aa_payload ack\<rparr>))"

definition instance_add_accept :: "l_instance \<Rightarrow> accept_ack \<Rightarrow> l_instance res" where
  "instance_add_accept inst ack =
     rbind (copy_ack ack) (\<lambda>new_ack.
     rbind (int_index (aa_acceptor_id ack) (li_acks inst)) (\<lambda>k.
       Ok (inst\<lparr>li_acks := (li_acks inst)[k := Some new_ack],
                li_last_update_ballot := aa_ballot ack\<rparr>)))"

section \<open>Operations\<close>

text \<open>The instance id is converted to the \<open>int\<close> index of \<open>carray_at\<close>.\<close>

definition learner_get_instance :: "learner \<Rightarrow> iid_t \<Rightarrow> l_instance res" where
  "learner_get_instance l iid =
     rbind (carray_item (l_instances l) (sint iid)) (\<lambda>inst.
     rbind (rassert (li_iid inst = iid \<or> li_iid inst = 0)) (\<lambda>_. Ok inst))"

definition learner_get_current_instance :: "learner \<Rightarrow> l_instance res" where
  "learner_get_current_instance l = learner_get_instance l (l_current_iid l)"

text \<open>Writes through the pointer of the instance \<open>iid\<close>.\<close>

definition learner_put_instance :: "learner \<Rightarrow> iid_t \<Rightarrow> l_instance \<Rightarrow> learner res" where
  "learner_put_instance l iid inst =
     rbind (carray_set (l_instances l) (sint iid) inst) (\<lambda>c. Ok (l\<lparr>l_instances := c\<rparr>))"

definition learner_update_instance :: "learner \<Rightarrow> accept_ack \<Rightarrow> learner res" where
  "learner_update_instance l ack =
     rbind (learner_get_instance l (aa_iid ack)) (\<lambda>inst0.
     let inst1 = (if li_iid inst0 = 0
                  then inst0\<lparr>li_iid := aa_iid ack, li_last_update_ballot := aa_ballot ack\<rparr>
                  else inst0) in
     rbind (rassert (li_iid inst1 = aa_iid ack)) (\<lambda>_.
     rbind (instance_has_quorum l inst1) (\<lambda>(closed, inst2).
       if closed then learner_put_instance l (aa_iid ack) inst2
       else
         rbind (int_index (aa_acceptor_id ack) (li_acks inst2)) (\<lambda>k.
           case li_acks inst2 ! k of
             None \<Rightarrow>
               rbind (instance_add_accept inst2 ack) (learner_put_instance l (aa_iid ack))
           | Some prev_ack \<Rightarrow>
               if aa_ballot prev_ack \<ge> aa_ballot ack
               then learner_put_instance l (aa_iid ack) inst2
               else rbind (instance_add_accept inst2 ack)
                      (learner_put_instance l (aa_iid ack))))))"

definition learner_deliver_next :: "learner \<Rightarrow> (accept_ack option \<times> learner) res" where
  "learner_deliver_next l =
     rbind (learner_get_current_instance l) (\<lambda>inst.
     rbind (instance_has_quorum l inst) (\<lambda>(closed, inst1).
       if closed then
         (case li_final_value inst1 of
            None \<Rightarrow> Err NullPointer
          | Some fin \<Rightarrow>
              rbind (copy_ack fin) (\<lambda>ack.
              rbind (instance_clear inst1 (l_acceptors l)) (\<lambda>inst2.
              rbind (learner_put_instance l (l_current_iid l) inst2) (\<lambda>l2.
                Ok (Some ack, l2\<lparr>l_current_iid := l_current_iid l + 1\<rparr>)))))
       else rbind (learner_put_instance l (l_current_iid l) inst1) (\<lambda>l2. Ok (None, l2))))"

definition learner_receive_accept :: "learner \<Rightarrow> accept_ack \<Rightarrow> learner res" where
  "learner_receive_accept l0 ack =
     (let l1 = (if l_late_start l0
                then l0\<lparr>l_late_start := False, l_current_iid := aa_iid ack\<rparr> else l0);
          l = (if aa_iid ack > l_highest_iid_seen l1
               then l1\<lparr>l_highest_iid_seen := aa_iid ack\<rparr> else l1)
      in
      if aa_iid ack < l_current_iid l then Ok l
      else if aa_iid ack \<ge> l_current_iid l + of_nat (carray_size (l_instances l)) then Ok l
      else
        rbind (learner_update_instance l ack) (\<lambda>l2.
        rbind (learner_get_instance l2 (aa_iid ack)) (\<lambda>inst.
        rbind (instance_has_quorum l2 inst) (\<lambda>(closed, inst1).
        rbind (learner_put_instance l2 (aa_iid ack) inst1) (\<lambda>l3.
          Ok (if closed \<and> li_iid inst1 > l_highest_iid_closed l3
              then l3\<lparr>l_highest_iid_closed := li_iid inst1\<rparr> else l3))))))"

definition initialize_instances :: "nat \<Rightarrow> nat \<Rightarrow> l_instance carray res" where
  "initialize_instances acceptors count =
     for_loop [0..<carray_size (carray_new count :: l_instance carray)]
       (\<lambda>i c. carray_push_back c (instance_new acceptors)) (carray_new count)"

text \<open>The bounds of a hole, when there is one.\<close>

definition learner_has_holes :: "learner \<Rightarrow> (iid_t \<times> iid_t) option" where
  "learner_has_holes l =
     (if l_highest_iid_seen l > l_current_iid l + of_nat (carray_count (l_instances l))
      then Some (l_current_iid l, l_highest_iid_seen l)
      else if l_highest_iid_closed l > l_current_iid l
      then Some (l_current_iid l, l_highest_iid_closed l)
      else None)"

definition learner_new :: "paxos_config \<Rightarrow> nat \<Rightarrow> learner res" where
  "learner_new cfg acceptors =
     rbind (initialize_instances acceptors (learner_instances cfg)) (\<lambda>c.
       Ok \<lparr>l_quorum = paxos_quorum acceptors,
           l_acceptors = acceptors,
           l_late_start = (learner_catch_up cfg = 0),
           l_current_iid = 1,
           l_highest_iid_seen = 1,
           l_highest_iid_closed = 1,
           l_instances = c\<rparr>)"

section \<open>Received acknowledgements and closed instances\<close>

text \<open>The copy the learner stores.\<close>

definition trunc_ack :: "accept_ack \<Rightarrow> accept_ack" where
  "trunc_ack a = a\<lparr>aa_value := aa_payload a\<rparr>"

lemma trunc_ack_sel [simp]:
  "aa_acceptor_id (trunc_ack a) = aa_acceptor_id a" "aa_iid (trunc_ack a) = aa_iid a"
  "aa_ballot (trunc_ack a) = aa_ballot a" "aa_value_ballot (trunc_ack a) = aa_value_ballot a"
  "aa_is_final (trunc_ack a) = aa_is_final a" "aa_value_size (trunc_ack a) = aa_value_size a"
  "aa_payload (trunc_ack a) = aa_payload a"
  by (simp_all add: trunc_ack_def aa_payload_def)

text \<open>
  The acknowledgements a learner may see in the protocol: from a known acceptor, with the bytes
  they announce, not flagged final (no code sets the flag), for an instance from 1 up to a
  bound that keeps the window below \<open>2^31\<close>, where the conversion to \<open>int\<close> is exact.
\<close>

definition acks_wf :: "nat \<Rightarrow> nat \<Rightarrow> accept_ack set \<Rightarrow> bool" where
  "acks_wf n w R \<longleftrightarrow> (\<forall>a \<in> R.
     0 \<le> aa_acceptor_id a \<and> aa_acceptor_id a < int n \<and> aa_is_final a = 0 \<and>
     unat (aa_value_size a) \<le> length (aa_value a) \<and>
     aa_iid a \<noteq> 0 \<and> unat (aa_iid a) + w + 1 < 2 ^ 31)"

text \<open>A majority of acceptors sent an acknowledgement for this instance and ballot.\<close>

definition closed_by :: "nat \<Rightarrow> accept_ack set \<Rightarrow> accept_ack \<Rightarrow> bool" where
  "closed_by n R d \<longleftrightarrow>
     (\<exists>S \<in> majorities n. \<forall>j \<in> S. \<exists>a \<in> R. aa_acceptor_id a = int j \<and>
        aa_iid a = aa_iid d \<and> aa_ballot a = aa_ballot d) \<and>
     (\<exists>a \<in> R. d = trunc_ack a)"

lemma acks_wf_mono: "acks_wf n w R \<Longrightarrow> Q \<subseteq> R \<Longrightarrow> acks_wf n w Q"
  by (auto simp: acks_wf_def)

lemma closed_by_mono:
  assumes "closed_by n R d" "R \<subseteq> Q"
  shows "closed_by n Q d"
proof -
  from assms(1) obtain S a where S: "S \<in> majorities n"
    "\<forall>j \<in> S. \<exists>a \<in> R. aa_acceptor_id a = int j \<and> aa_iid a = aa_iid d \<and> aa_ballot a = aa_ballot d"
    and a: "a \<in> R" "d = trunc_ack a"
    unfolding closed_by_def by blast
  have "\<exists>a \<in> Q. aa_acceptor_id a = int j \<and> aa_iid a = aa_iid d \<and> aa_ballot a = aa_ballot d"
    if "j \<in> S" for j
    using S(2) that assms(2) by blast
  with S(1) a assms(2) show ?thesis unfolding closed_by_def by blast
qed

lemma copy_ack_ok: "unat (aa_value_size a) \<le> length (aa_value a) \<Longrightarrow> copy_ack a = Ok (trunc_ack a)"
  by (simp add: copy_ack_def trunc_ack_def)

section \<open>One instance\<close>

definition l_instance_inv :: "nat \<Rightarrow> accept_ack set \<Rightarrow> l_instance \<Rightarrow> bool" where
  "l_instance_inv n R inst \<longleftrightarrow>
     length (li_acks inst) = n \<and>
     (\<forall>j < n. \<forall>a. li_acks inst ! j = Some a \<longrightarrow>
        aa_acceptor_id a = int j \<and> aa_iid a = li_iid inst \<and> a \<in> trunc_ack ` R) \<and>
     (\<forall>f. li_final_value inst = Some f \<longrightarrow> closed_by n R f \<and> aa_iid f = li_iid inst) \<and>
     (li_iid inst = 0 \<longrightarrow> li_last_update_ballot inst = 0 \<and> li_final_value inst = None \<and>
        (\<forall>j < n. li_acks inst ! j = None))"

lemma l_instance_inv_fresh: "l_instance_inv n R inst \<Longrightarrow> li_iid inst = 0 \<Longrightarrow> inst = instance_new n"
  by (cases inst) (simp add: l_instance_inv_def instance_new_def list_eq_iff_nth_eq)

lemma l_instance_invI:
  assumes "length (li_acks inst) = n"
    and "\<And>j a. j < n \<Longrightarrow> li_acks inst ! j = Some a \<Longrightarrow>
        aa_acceptor_id a = int j \<and> aa_iid a = li_iid inst \<and> a \<in> trunc_ack ` R"
    and "\<And>f. li_final_value inst = Some f \<Longrightarrow> closed_by n R f \<and> aa_iid f = li_iid inst"
    and "li_iid inst \<noteq> 0"
  shows "l_instance_inv n R inst"
  using assms unfolding l_instance_inv_def by blast

lemma l_instance_invD:
  assumes "l_instance_inv n R inst"
  shows "length (li_acks inst) = n"
    "j < n \<Longrightarrow> li_acks inst ! j = Some a \<Longrightarrow>
        aa_acceptor_id a = int j \<and> aa_iid a = li_iid inst \<and> a \<in> trunc_ack ` R"
    "li_final_value inst = Some f \<Longrightarrow> closed_by n R f \<and> aa_iid f = li_iid inst"
  using assms unfolding l_instance_inv_def by blast+

lemma l_instance_inv_new: "l_instance_inv n R (instance_new n)"
  by (simp add: l_instance_inv_def instance_new_def)

lemma l_instance_inv_mono:
  "l_instance_inv n R inst \<Longrightarrow> R \<subseteq> Q \<Longrightarrow> l_instance_inv n Q inst"
  unfolding l_instance_inv_def by (blast intro: closed_by_mono)

text \<open>The acceptors whose stored acknowledgement carries the ballot seen last.\<close>

definition agreeing :: "l_instance \<Rightarrow> nat set" where
  "agreeing inst = {j. j < length (li_acks inst) \<and>
     (\<exists>a. li_acks inst ! j = Some a \<and> aa_ballot a = li_last_update_ballot inst)}"

lemma finite_agreeing [simp]: "finite (agreeing inst)"
  by (simp add: agreeing_def)

lemma has_quorum_loop:
  assumes "length (li_acks inst) = n"
    and final: "\<And>j a. j < n \<Longrightarrow> li_acks inst ! j = Some a \<Longrightarrow> aa_is_final a = 0"
  shows "\<exists>idx. for_loop [0..<n] (has_quorum_body n inst) (-1, 0, False) =
      Ok (idx, card (agreeing inst), False) \<and>
      (agreeing inst \<noteq> {} \<longrightarrow> 0 \<le> idx \<and> nat idx \<in> agreeing inst)"
proof -
  let ?A = "\<lambda>k. {j \<in> agreeing inst. j < k}"
  let ?I = "\<lambda>k st. case st of (idx, count, broken) \<Rightarrow> \<not> broken \<and> count = card (?A k) \<and>
      (?A k \<noteq> {} \<longrightarrow> 0 \<le> idx \<and> nat idx \<in> agreeing inst)"
  have step: "\<exists>t'. has_quorum_body n inst k t = Ok t' \<and> ?I (Suc k) t'" if "k < n" "?I k t" for k t
  proof -
    obtain idx count broken where t: "t = (idx, count, broken)" by (cases t)
    have A: "?A (Suc k) = (if k \<in> agreeing inst then insert k (?A k) else ?A k)"
      by (auto simp: less_Suc_eq)
    have in_iff: "k \<in> agreeing inst \<longleftrightarrow>
        (\<exists>a. li_acks inst ! k = Some a \<and> aa_ballot a = li_last_update_ballot inst)"
      using that(1) assms(1) by (simp add: agreeing_def)
    show ?thesis
    proof (cases "k \<in> agreeing inst")
      case True
      then obtain a where "li_acks inst ! k = Some a" "aa_ballot a = li_last_update_ballot inst"
        using in_iff by blast
      with True that t assms(1) final [of k a] show ?thesis
        unfolding A by (simp add: has_quorum_body_def)
    next
      case False
      with that t assms(1) in_iff show ?thesis
        unfolding A by (auto simp: has_quorum_body_def split: option.splits)
    qed
  qed
  obtain st where "for_loop [0..<n] (has_quorum_body n inst) (-1, 0, False) = Ok st" "?I n st"
    using for_loop_upto_inv [where I = ?I and body = "has_quorum_body n inst" and n = n
        and s = "(-1, 0, False)"] step by auto
  moreover have "?A n = agreeing inst" using assms(1) by (auto simp: agreeing_def)
  ultimately show ?thesis by auto
qed

lemma agreeing_closed:
  assumes inv: "l_instance_inv n R inst" and idx: "j \<in> agreeing inst"
    and q: "paxos_quorum n \<le> card (agreeing inst)"
  shows "\<exists>f. li_acks inst ! j = Some f \<and> closed_by n R f \<and> aa_iid f = li_iid inst"
proof -
  have len: "length (li_acks inst) = n" using inv by (simp add: l_instance_inv_def)
  from idx len obtain f where f: "li_acks inst ! j = Some f" "j < n"
    "aa_ballot f = li_last_update_ballot inst"
    by (auto simp: agreeing_def)
  with inv have R: "f \<in> trunc_ack ` R" "aa_iid f = li_iid inst"
    by (auto simp: l_instance_inv_def)
  have maj: "agreeing inst \<in> majorities n"
    using q len by (intro majoritiesI) (auto simp: agreeing_def)
  have "\<exists>a \<in> R. aa_acceptor_id a = int i \<and> aa_iid a = aa_iid f \<and> aa_ballot a = aa_ballot f"
    if "i \<in> agreeing inst" for i
  proof -
    from that len obtain a where "i < n" "li_acks inst ! i = Some a"
      "aa_ballot a = li_last_update_ballot inst"
      by (auto simp: agreeing_def)
    moreover from this inv have "aa_acceptor_id a = int i" "aa_iid a = li_iid inst"
      "a \<in> trunc_ack ` R"
      by (auto simp: l_instance_inv_def)
    ultimately show ?thesis using R f by auto
  qed
  with maj R f show ?thesis by (auto simp: closed_by_def)
qed

lemma instance_has_quorum_spec:
  assumes inv: "l_instance_inv n R inst" and wf: "acks_wf n w R"
    and l: "l_acceptors l = n" "l_quorum l = paxos_quorum n"
  shows "\<exists>f. instance_has_quorum l inst = Ok (f \<noteq> None, inst\<lparr>li_final_value := f\<rparr>) \<and>
     l_instance_inv n R (inst\<lparr>li_final_value := f\<rparr>) \<and>
     (f \<noteq> None \<longleftrightarrow> li_final_value inst \<noteq> None \<or> paxos_quorum n \<le> card (agreeing inst))"
proof (cases "li_final_value inst")
  case (Some f)
  then have same: "inst\<lparr>li_final_value := Some f\<rparr> = inst" by simp
  show ?thesis
    by (intro exI [of _ "Some f"], unfold same) (use Some inv in \<open>simp add: instance_has_quorum_def\<close>)
next
  case None
  have len: "length (li_acks inst) = n" using inv by (simp add: l_instance_inv_def)
  have final: "aa_is_final a = 0" if "j < n" "li_acks inst ! j = Some a" for j a
  proof -
    have "a \<in> trunc_ack ` R" using inv that by (auto simp: l_instance_inv_def)
    with wf show ?thesis by (auto simp: acks_wf_def)
  qed
  have "\<exists>idx. for_loop [0..<n] (has_quorum_body n inst) (-1, 0, False) =
      Ok (idx, card (agreeing inst), False) \<and>
      (agreeing inst \<noteq> {} \<longrightarrow> 0 \<le> idx \<and> nat idx \<in> agreeing inst)"
    using len final by (rule has_quorum_loop)
  then obtain idx where
    loop: "for_loop [0..<n] (has_quorum_body n inst) (-1, 0, False) =
      Ok (idx, card (agreeing inst), False)"
    and idx: "agreeing inst \<noteq> {} \<longrightarrow> 0 \<le> idx \<and> nat idx \<in> agreeing inst"
    by blast
  show ?thesis
  proof (cases "paxos_quorum n \<le> card (agreeing inst)")
    case True
    then have "agreeing inst \<noteq> {}" using paxos_quorum_pos [of n] by auto
    with idx have i: "0 \<le> idx" "nat idx \<in> agreeing inst" by auto
    from agreeing_closed [OF inv i(2) True] obtain f where
      f: "li_acks inst ! nat idx = Some f" "closed_by n R f" "aa_iid f = li_iid inst" by blast
    from i have "idx < int (length (li_acks inst))" by (auto simp: agreeing_def)
    with None loop True l i f have "instance_has_quorum l inst =
        Ok (True, inst\<lparr>li_final_value := Some f\<rparr>)"
      by (simp add: instance_has_quorum_def int_index_def)
    moreover have "li_iid inst \<noteq> 0"
      using i inv by (auto simp: l_instance_inv_def agreeing_def)
    then have "l_instance_inv n R (inst\<lparr>li_final_value := Some f\<rparr>)"
      using l_instance_invD [OF inv] f by (intro l_instance_invI) auto
    ultimately show ?thesis
      using True by (intro exI [of _ "Some f"]) simp
  next
    case False
    with None loop l have "instance_has_quorum l inst = Ok (False, inst)"
      by (simp add: instance_has_quorum_def)
    moreover have same: "inst\<lparr>li_final_value := None\<rparr> = inst" using None by simp
    ultimately show ?thesis
      by (intro exI [of _ None], unfold same) (use None False inv in simp)
  qed
qed

lemma instance_add_accept_spec:
  assumes inv: "l_instance_inv n R inst" and wf: "acks_wf n w R" and ack: "ack \<in> R"
    and iid: "li_iid inst = aa_iid ack"
  shows "\<exists>inst'. instance_add_accept inst ack = Ok inst' \<and> l_instance_inv n R inst' \<and>
     inst' = inst\<lparr>li_acks := (li_acks inst)[nat (aa_acceptor_id ack) := Some (trunc_ack ack)],
                  li_last_update_ballot := aa_ballot ack\<rparr>"
proof -
  from wf ack have w: "0 \<le> aa_acceptor_id ack" "aa_acceptor_id ack < int n"
    "unat (aa_value_size ack) \<le> length (aa_value ack)" "aa_iid ack \<noteq> 0"
    by (auto simp: acks_wf_def)
  let ?new = "inst\<lparr>li_acks := (li_acks inst)[nat (aa_acceptor_id ack) := Some (trunc_ack ack)],
      li_last_update_ballot := aa_ballot ack\<rparr>"
  have len: "length (li_acks inst) = n" using inv by (simp add: l_instance_inv_def)
  have "instance_add_accept inst ack = Ok ?new"
    using w len by (simp add: instance_add_accept_def copy_ack_ok int_index_def)
  moreover have "l_instance_inv n R ?new"
  proof (rule l_instance_invI)
    show "length (li_acks ?new) = n" "li_iid ?new \<noteq> 0" using len w(4) iid by simp_all
    show "closed_by n R f \<and> aa_iid f = li_iid ?new" if "li_final_value ?new = Some f" for f
      using l_instance_invD(3) [OF inv] that by simp
    show "aa_acceptor_id a = int j \<and> aa_iid a = li_iid ?new \<and> a \<in> trunc_ack ` R"
      if "j < n" "li_acks ?new ! j = Some a" for j a
    proof (cases "j = nat (aa_acceptor_id ack)")
      case True
      with that len have "a = trunc_ack ack" by simp
      with True w(1) iid ack show ?thesis by simp
    next
      case False
      with that have "li_acks inst ! j = Some a" by simp
      with l_instance_invD(2) [OF inv that(1)] show ?thesis by simp
    qed
  qed
  ultimately show ?thesis by blast
qed

lemma instance_clear_spec:
  assumes "length (li_acks inst) = n"
  shows "instance_clear inst n = Ok (instance_new n)"
proof -
  have "\<exists>t. for_loop [0..<n] (\<lambda>i acks. arr_write acks i None) (li_acks inst) = Ok t \<and>
      length t = n \<and> (\<forall>j < n. t ! j = None)"
    using assms
      for_loop_upto_inv [where I = "\<lambda>k t. length t = n \<and> (\<forall>j < k. t ! j = None)" and n = n
        and body = "\<lambda>i acks. arr_write acks i None" and s = "li_acks inst"]
    by (auto simp: nth_list_update less_Suc_eq)
  then obtain t where "for_loop [0..<n] (\<lambda>i acks. arr_write acks i None) (li_acks inst) = Ok t"
    "length t = n" "\<forall>j < n. t ! j = None"
    by blast
  moreover from this have "t = replicate n None" by (simp add: list_eq_iff_nth_eq)
  ultimately show ?thesis by (simp add: instance_clear_def instance_new_def)
qed

section \<open>The learner\<close>

text \<open>
  The window: slot \<open>k\<close> holds an instance that maps to it and lies between the next instance to
  deliver and the end of the window, or a fresh one. A learner that starts late holds only fresh
  ones until its first acknowledgement.
\<close>

definition learner_inv :: "nat \<Rightarrow> nat \<Rightarrow> accept_ack set \<Rightarrow> learner \<Rightarrow> bool" where
  "learner_inv n w R l \<longleftrightarrow>
     l_acceptors l = n \<and> l_quorum l = paxos_quorum n \<and>
     carray_inv (l_instances l) \<and> ca_size (l_instances l) = w \<and> ca_count (l_instances l) = w \<and>
     unat (l_current_iid l) + w < 2 ^ 31 \<and>
     (\<forall>k < w. l_instance_inv n R (clist (l_instances l) ! k) \<and>
        (let i = li_iid (clist (l_instances l) ! k) in
         i \<noteq> 0 \<longrightarrow> \<not> l_late_start l \<and> unat i mod w = k \<and>
           unat (l_current_iid l) \<le> unat i \<and> unat i < unat (l_current_iid l) + w))"

definition in_window :: "learner \<Rightarrow> iid_t \<Rightarrow> bool" where
  "in_window l i \<longleftrightarrow> unat (l_current_iid l) \<le> unat i \<and>
     unat i < unat (l_current_iid l) + ca_size (l_instances l)"

lemma learner_invD:
  assumes "learner_inv n w R l"
  shows "l_acceptors l = n" "l_quorum l = paxos_quorum n" "carray_inv (l_instances l)"
    "ca_size (l_instances l) = w" "ca_count (l_instances l) = w" "0 < w"
    "unat (l_current_iid l) + w < 2 ^ 31"
    "k < w \<Longrightarrow> l_instance_inv n R (clist (l_instances l) ! k)"
    "k < w \<Longrightarrow> li_iid (clist (l_instances l) ! k) = i \<Longrightarrow> i \<noteq> 0 \<Longrightarrow>
       \<not> l_late_start l \<and> unat i mod w = k \<and> in_window l i"
  using assms carray_invD(1) [of "l_instances l"]
  unfolding learner_inv_def in_window_def Let_def by auto

lemma learner_invI:
  assumes "l_acceptors l = n" "l_quorum l = paxos_quorum n" "carray_inv (l_instances l)"
    "ca_size (l_instances l) = w" "ca_count (l_instances l) = w"
    "unat (l_current_iid l) + w < 2 ^ 31"
    "\<And>k. k < w \<Longrightarrow> l_instance_inv n R (clist (l_instances l) ! k)"
    "\<And>k i. k < w \<Longrightarrow> li_iid (clist (l_instances l) ! k) = i \<Longrightarrow> i \<noteq> 0 \<Longrightarrow>
       \<not> l_late_start l \<and> unat i mod w = k \<and> in_window l i"
  shows "learner_inv n w R l"
  using assms unfolding learner_inv_def in_window_def Let_def by blast

lemma learner_inv_mono: "learner_inv n w R l \<Longrightarrow> R \<subseteq> Q \<Longrightarrow> learner_inv n w Q l"
  unfolding learner_inv_def Let_def by (blast intro: l_instance_inv_mono)

abbreviation window_slot :: "learner \<Rightarrow> iid_t \<Rightarrow> l_instance" where
  "window_slot l i \<equiv> clist (l_instances l) ! (unat i mod ca_size (l_instances l))"

lemma learner_get_instance_ok:
  assumes inv: "learner_inv n w R l" and i: "in_window l i"
  shows "learner_get_instance l i = Ok (window_slot l i)"
    "li_iid (window_slot l i) = i \<or> li_iid (window_slot l i) = 0"
proof -
  note D = learner_invD [OF inv]
  have "sint i = int (unat i)"
    using i D by (intro sint_small) (simp add: in_window_def)
  then have item: "carray_item (l_instances l) (sint i) = Ok (window_slot l i)"
    using carray_item_wrap [OF D(3), of "unat i"] D(4,5) by simp
  let ?j = "li_iid (window_slot l i)"
  show own: "?j = i \<or> ?j = 0"
  proof (cases "?j = 0")
    case False
    have "unat i mod w < w" using D by simp
    with D(9) [OF this _ False] have j: "unat ?j mod w = unat i mod w" "in_window l ?j"
      by (simp_all add: D(4))
    then obtain x y where "unat ?j = unat (l_current_iid l) + x" "x < w"
      "unat i = unat (l_current_iid l) + y" "y < w"
      using i D(4) unfolding in_window_def by (metis add_less_cancel_left le_Suc_ex)
    with j(1) ring_slot_inj [of x w y "unat (l_current_iid l)"] have "unat ?j = unat i" by simp
    then show ?thesis by (simp add: word_unat_eq_iff)
  qed simp
  with item show "learner_get_instance l i = Ok (window_slot l i)"
    by (auto simp: learner_get_instance_def)
qed

lemma learner_put_instance_ok:
  assumes inv: "learner_inv n w R l" and i: "in_window l i"
    and inst: "l_instance_inv n R inst" "li_iid inst = i \<or> li_iid inst = 0" "\<not> l_late_start l \<or> li_iid inst = 0"
  shows "\<exists>c. learner_put_instance l i inst = Ok (l\<lparr>l_instances := c\<rparr>) \<and>
     learner_inv n w R (l\<lparr>l_instances := c\<rparr>) \<and>
     clist c = (clist (l_instances l))[unat i mod w := inst]"
proof -
  note D = learner_invD [OF inv]
  have s: "sint i = int (unat i)"
    using i D by (intro sint_small) (simp add: in_window_def)
  obtain c where c: "carray_set (l_instances l) (int (unat i)) inst = Ok c" "carray_inv c"
    "clist c = (clist (l_instances l))[unat i mod w := inst]" "ca_size c = w" "ca_count c = w"
    using carray_set_wrap [OF D(3), of "unat i" inst] D(4,5) by auto
  have len: "length (clist (l_instances l)) = w" using D by simp
  have slots: "clist c ! k = (if k = unat i mod w then inst else clist (l_instances l) ! k)"
    if "k < w" for k
    using that len by (simp add: c(3) nth_list_update)
  have "learner_inv n w R (l\<lparr>l_instances := c\<rparr>)"
  proof (rule learner_invI)
    fix k assume k: "k < w"
    show "l_instance_inv n R (clist (l_instances (l\<lparr>l_instances := c\<rparr>)) ! k)"
      using k slots inst D(8) by simp
    fix j assume j: "li_iid (clist (l_instances (l\<lparr>l_instances := c\<rparr>)) ! k) = j" "j \<noteq> 0"
    show "\<not> l_late_start (l\<lparr>l_instances := c\<rparr>) \<and> unat j mod w = k \<and>
        in_window (l\<lparr>l_instances := c\<rparr>) j"
    proof (cases "k = unat i mod w")
      case True
      with j slots [OF k] inst have "j = i" "\<not> l_late_start l" by auto
      with True i c(4) D(4) show ?thesis by (simp add: in_window_def)
    next
      case False
      with j slots [OF k] have "li_iid (clist (l_instances l) ! k) = j" by simp
      from D(9) [OF k this j(2)] c(4) D(4) show ?thesis by (simp add: in_window_def)
    qed
  qed (use D c in simp_all)
  moreover have "learner_put_instance l i inst = Ok (l\<lparr>l_instances := c\<rparr>)"
    using c(1) s by (simp add: learner_put_instance_def)
  ultimately show ?thesis using c(3) by blast
qed

text \<open>What an acknowledgement does to the instance it is for.\<close>

definition update_effect :: "l_instance \<Rightarrow> accept_ack \<Rightarrow> l_instance \<Rightarrow> bool" where
  "update_effect inst ack inst' \<longleftrightarrow>
     li_iid inst' = aa_iid ack \<and>
     (li_final_value inst \<noteq> None \<longrightarrow> li_final_value inst' \<noteq> None) \<and>
     (li_final_value inst' = None \<longrightarrow>
        (let k = nat (aa_acceptor_id ack) in
         if \<exists>p. li_acks inst ! k = Some p \<and> aa_ballot p \<ge> aa_ballot ack
         then li_acks inst' = li_acks inst \<and>
              li_last_update_ballot inst' = li_last_update_ballot inst
         else li_acks inst' = (li_acks inst)[k := Some (trunc_ack ack)] \<and>
              li_last_update_ballot inst' = aa_ballot ack))"

text \<open>The instance after the first two statements of \<open>learner_update_instance\<close>.\<close>

definition opened :: "l_instance \<Rightarrow> accept_ack \<Rightarrow> l_instance" where
  "opened inst ack =
     (if li_iid inst = 0
      then inst\<lparr>li_iid := aa_iid ack, li_last_update_ballot := aa_ballot ack\<rparr> else inst)"

lemma opened_inv:
  assumes "l_instance_inv n R inst" "li_iid inst = aa_iid ack \<or> li_iid inst = 0" "aa_iid ack \<noteq> 0"
  shows "l_instance_inv n R (opened inst ack)" "li_iid (opened inst ack) = aa_iid ack"
    "li_acks (opened inst ack) = li_acks inst" "li_final_value (opened inst ack) = li_final_value inst"
  using assms by (auto simp: opened_def l_instance_inv_def)

lemma learner_update_instance_ok:
  assumes inv: "learner_inv n w R l" and wf: "acks_wf n w R" and ack: "ack \<in> R"
    and win: "in_window l (aa_iid ack)" and late: "\<not> l_late_start l"
  shows "\<exists>c inst'. learner_update_instance l ack = Ok (l\<lparr>l_instances := c\<rparr>) \<and>
     learner_inv n w R (l\<lparr>l_instances := c\<rparr>) \<and>
     clist c = (clist (l_instances l))[unat (aa_iid ack) mod w := inst'] \<and>
     update_effect (window_slot l (aa_iid ack)) ack inst'"
proof -
  note D = learner_invD [OF inv]
  define i where "i = aa_iid ack"
  define i0 where "i0 = window_slot l i"
  define i1 where "i1 = opened i0 ack"
  from wf ack have w: "0 \<le> aa_acceptor_id ack" "aa_acceptor_id ack < int n" "i \<noteq> 0"
    by (auto simp: acks_wf_def i_def)
  have i0: "learner_get_instance l i = Ok i0" "li_iid i0 = i \<or> li_iid i0 = 0"
    using learner_get_instance_ok [OF inv win] by (simp_all add: i_def i0_def)
  have inv0: "l_instance_inv n R i0" using D(6,8) by (simp add: i0_def D(4))
  from opened_inv [OF inv0, of ack] i0(2) w(3)
  have i1: "l_instance_inv n R i1" "li_iid i1 = i" "li_acks i1 = li_acks i0"
    "li_final_value i1 = li_final_value i0"
    by (simp_all add: i1_def i_def)
  obtain f where hq: "instance_has_quorum l i1 = Ok (f \<noteq> None, i1\<lparr>li_final_value := f\<rparr>)"
    and inv2: "l_instance_inv n R (i1\<lparr>li_final_value := f\<rparr>)"
    and f: "f \<noteq> None \<longleftrightarrow> li_final_value i1 \<noteq> None \<or> paxos_quorum n \<le> card (agreeing i1)"
    using instance_has_quorum_spec [OF i1(1) wf D(1,2)] by blast
  define i2 where "i2 = i1\<lparr>li_final_value := f\<rparr>"
  have i2: "li_iid i2 = i" "li_acks i2 = li_acks i0" "l_instance_inv n R i2"
    "li_last_update_ballot i2 = li_last_update_ballot i1" "li_final_value i2 = f"
    using i1 inv2 by (simp_all add: i2_def)
  have len: "length (li_acks i0) = n" using l_instance_invD(1) [OF inv0] .
  then have idx: "int_index (aa_acceptor_id ack) (li_acks i0) = Ok (nat (aa_acceptor_id ack))"
    using w by (simp add: int_index_def)
  have upd: "learner_update_instance l ack =
      (if f \<noteq> None then learner_put_instance l i i2
       else case li_acks i0 ! nat (aa_acceptor_id ack) of
          None \<Rightarrow> rbind (instance_add_accept i2 ack) (learner_put_instance l i)
        | Some prev_ack \<Rightarrow>
            if aa_ballot prev_ack \<ge> aa_ballot ack then learner_put_instance l i i2
            else rbind (instance_add_accept i2 ack) (learner_put_instance l i))"
    using i0(1) i1(2) hq idx i2(2)
    by (simp add: learner_update_instance_def i1_def [unfolded opened_def, symmetric]
        i2_def [symmetric] Let_def flip: i_def split: option.splits)
  obtain i3 where add: "instance_add_accept i2 ack = Ok i3" and inv3: "l_instance_inv n R i3"
    and i3: "i3 = i2\<lparr>li_acks := (li_acks i2)[nat (aa_acceptor_id ack) := Some (trunc_ack ack)],
                    li_last_update_ballot := aa_ballot ack\<rparr>"
    using instance_add_accept_spec [OF i2(3) wf ack] i2(1) by (auto simp: i_def)
  define stored where "stored = (\<exists>p. li_acks i0 ! nat (aa_acceptor_id ack) = Some p \<and> aa_ballot p \<ge> aa_ballot ack)"
  define inst' where "inst' = (if f \<noteq> None \<or> stored then i2 else i3)"
  have put: "learner_update_instance l ack = learner_put_instance l i inst'"
    by (simp add: upd add inst'_def stored_def split: option.splits)
  have "l_instance_inv n R inst'" "li_iid inst' = i"
    using i2 inv3 by (simp_all add: inst'_def i3)
  then obtain c where "learner_put_instance l i inst' = Ok (l\<lparr>l_instances := c\<rparr>)"
    "learner_inv n w R (l\<lparr>l_instances := c\<rparr>)"
    "clist c = (clist (l_instances l))[unat i mod w := inst']"
    using learner_put_instance_ok [OF inv, of i inst'] win late by (auto simp: i_def)
  moreover have "update_effect i0 ack inst'"
  proof -
    have "li_last_update_ballot i1 = li_last_update_ballot i0" if "stored"
      using that inv0 w by (auto simp: stored_def i1_def opened_def l_instance_inv_def nat_less_iff)
    then show ?thesis
      using i2 i3 f i1(4)
      by (auto simp: update_effect_def inst'_def Let_def i_def stored_def [symmetric])
  qed
  ultimately show ?thesis using put by (auto simp: i_def i0_def)
qed

section \<open>Receiving and delivering\<close>

text \<open>The state after the first statements of \<open>learner_receive_accept\<close>.\<close>

definition noted :: "learner \<Rightarrow> accept_ack \<Rightarrow> learner" where
  "noted l0 ack =
     (let l1 = (if l_late_start l0
                then l0\<lparr>l_late_start := False, l_current_iid := aa_iid ack\<rparr> else l0)
      in if aa_iid ack > l_highest_iid_seen l1
         then l1\<lparr>l_highest_iid_seen := aa_iid ack\<rparr> else l1)"

lemma noted_sel:
  "l_late_start (noted l ack) = False" "l_instances (noted l ack) = l_instances l"
  "l_current_iid (noted l ack) = (if l_late_start l then aa_iid ack else l_current_iid l)"
  by (simp_all add: noted_def Let_def)

lemma learner_inv_highest:
  "learner_inv n w R (l\<lparr>l_highest_iid_seen := x\<rparr>) = learner_inv n w R l"
  "learner_inv n w R (l\<lparr>l_highest_iid_closed := x\<rparr>) = learner_inv n w R l"
  by (simp_all add: learner_inv_def)

lemma noted_inv:
  assumes inv: "learner_inv n w R l" and wf: "acks_wf n w R" and ack: "ack \<in> R"
  shows "learner_inv n w R (noted l ack)"
proof -
  have "learner_inv n w R (l\<lparr>l_late_start := False, l_current_iid := aa_iid ack\<rparr>)" if "l_late_start l"
  proof (rule learner_invI)
    note D = learner_invD [OF inv]
    fix k assume "k < w"
    with D(9) that have "li_iid (clist (l_instances l) ! k) = 0" by blast
    then show "\<not> l_late_start (l\<lparr>l_late_start := False, l_current_iid := aa_iid ack\<rparr>) \<and>
        unat i mod w = k \<and> in_window (l\<lparr>l_late_start := False, l_current_iid := aa_iid ack\<rparr>) i"
      if "li_iid (clist (l_instances (l\<lparr>l_late_start := False, l_current_iid := aa_iid ack\<rparr>)) ! k) = i"
        "i \<noteq> 0" for i
      using that by simp
  qed (use learner_invD [OF inv] wf ack in \<open>auto simp: acks_wf_def\<close>)
  with inv show ?thesis by (simp add: noted_def Let_def learner_inv_highest)
qed

lemma window_test:
  assumes inv: "learner_inv n w R l"
  shows "(\<not> i < l_current_iid l \<and> \<not> i \<ge> l_current_iid l + of_nat (carray_size (l_instances l)))
     \<longleftrightarrow> in_window l i"
proof -
  have "unat (l_current_iid l + of_nat w) = unat (l_current_iid l) + w"
    using learner_invD(7) [OF inv] by (intro unat_add_small) simp
  with learner_invD(4) [OF inv] show ?thesis
    by (auto simp: in_window_def carray_size_def word_less_nat_alt word_le_nat_alt)
qed

lemma learner_receive_accept_cases:
  assumes inv: "learner_inv n w R l" and wf: "acks_wf n w R" and ack: "ack \<in> R"
  shows "\<exists>l'. learner_receive_accept l ack = Ok l' \<and> learner_inv n w R l' \<and>
     l_current_iid l' = l_current_iid (noted l ack) \<and> \<not> l_late_start l' \<and>
     (if in_window (noted l ack) (aa_iid ack)
      then \<exists>inst f. update_effect (window_slot l (aa_iid ack)) ack inst \<and>
         (li_final_value inst \<noteq> None \<longrightarrow> f \<noteq> None) \<and>
         clist (l_instances l') =
           (clist (l_instances l))[unat (aa_iid ack) mod w := inst\<lparr>li_final_value := f\<rparr>]
      else clist (l_instances l') = clist (l_instances l))"
proof -
  let ?l = "noted l ack"
  have inv1: "learner_inv n w R ?l" by (rule noted_inv [OF inv wf ack])
  have unfold: "learner_receive_accept l ack =
     (if in_window ?l (aa_iid ack) then
        rbind (learner_update_instance ?l ack) (\<lambda>l2.
        rbind (learner_get_instance l2 (aa_iid ack)) (\<lambda>inst.
        rbind (instance_has_quorum l2 inst) (\<lambda>(closed, inst1).
        rbind (learner_put_instance l2 (aa_iid ack) inst1) (\<lambda>l3.
          Ok (if closed \<and> li_iid inst1 > l_highest_iid_closed l3
              then l3\<lparr>l_highest_iid_closed := li_iid inst1\<rparr> else l3)))))
      else Ok ?l)"
    unfolding window_test [OF inv1, symmetric]
    by (simp add: learner_receive_accept_def noted_def Let_def)
  show ?thesis
  proof (cases "in_window ?l (aa_iid ack)")
    case False
    with inv1 show ?thesis by (simp add: unfold noted_sel)
  next
    case True
    from learner_update_instance_ok [OF inv1 wf ack True]
    obtain c inst where upd: "learner_update_instance ?l ack = Ok (?l\<lparr>l_instances := c\<rparr>)"
      and inv2: "learner_inv n w R (?l\<lparr>l_instances := c\<rparr>)"
      and c: "clist c = (clist (l_instances l))[unat (aa_iid ack) mod w := inst]"
      and eff: "update_effect (window_slot l (aa_iid ack)) ack inst"
      by (auto simp: noted_sel)
    let ?l2 = "?l\<lparr>l_instances := c\<rparr>"
    note D = learner_invD [OF inv2]
    have size: "ca_size c = w" and len: "length (clist (l_instances l)) = w"
      using D(4) learner_invD(5) [OF inv] by simp_all
    have win2: "in_window ?l2 (aa_iid ack)"
      using True learner_invD(4) [OF inv1] size by (simp add: in_window_def)
    have slot: "window_slot ?l2 (aa_iid ack) = inst"
      using size len D(6) by (simp add: c)
    have iid: "li_iid inst = aa_iid ack" using eff by (simp add: update_effect_def)
    have get: "learner_get_instance ?l2 (aa_iid ack) = Ok inst"
      using learner_get_instance_ok(1) [OF inv2 win2] slot by simp
    have "l_instance_inv n R inst" using D(6,8) slot size by (metis mod_less_divisor learner.select_convs(7) learner.surjective learner.update_convs(7))
    from instance_has_quorum_spec [OF this wf D(1,2)] obtain f where
      hq: "instance_has_quorum ?l2 inst = Ok (f \<noteq> None, inst\<lparr>li_final_value := f\<rparr>)"
      and inv3: "l_instance_inv n R (inst\<lparr>li_final_value := f\<rparr>)"
      and f: "li_final_value inst \<noteq> None \<longrightarrow> f \<noteq> None"
      by blast
    from learner_put_instance_ok [OF inv2 win2 inv3] iid obtain d where
      put: "learner_put_instance ?l2 (aa_iid ack) (inst\<lparr>li_final_value := f\<rparr>) =
        Ok (?l2\<lparr>l_instances := d\<rparr>)"
      and inv4: "learner_inv n w R (?l2\<lparr>l_instances := d\<rparr>)"
      and d: "clist d = (clist c)[unat (aa_iid ack) mod w := inst\<lparr>li_final_value := f\<rparr>]"
      by (auto simp: noted_sel)
    let ?l3 = "?l2\<lparr>l_instances := d\<rparr>"
    define l4 where "l4 = (if f \<noteq> None \<and> li_iid inst > l_highest_iid_closed ?l3
        then ?l3\<lparr>l_highest_iid_closed := li_iid inst\<rparr> else ?l3)"
    have "learner_receive_accept l ack = Ok l4"
      using True upd get hq put by (simp add: unfold l4_def)
    moreover have "learner_inv n w R l4" using inv4 by (simp add: learner_inv_highest l4_def)
    moreover have "l_current_iid l4 = l_current_iid ?l" "\<not> l_late_start l4"
      "clist (l_instances l4) =
        (clist (l_instances l))[unat (aa_iid ack) mod w := inst\<lparr>li_final_value := f\<rparr>]"
      by (simp_all add: noted_sel d c l4_def)
    ultimately show ?thesis using True eff f by (intro exI [of _ l4]) auto
  qed
qed

lemma learner_deliver_next_ok:
  assumes inv: "learner_inv n w R l" and wf: "acks_wf n w R"
  shows "\<exists>r l'. learner_deliver_next l = Ok (r, l') \<and> learner_inv n w R l' \<and>
     l_late_start l' = l_late_start l \<and>
     (case r of
        None \<Rightarrow> l_current_iid l' = l_current_iid l \<and>
          li_final_value (window_slot l (l_current_iid l)) = None \<and>
          card (agreeing (window_slot l (l_current_iid l))) < paxos_quorum n
      | Some d \<Rightarrow> aa_iid d = l_current_iid l \<and> closed_by n R d \<and>
          l_current_iid l' = l_current_iid l + 1)"
proof -
  note D = learner_invD [OF inv]
  let ?cur = "l_current_iid l"
  have win: "in_window l ?cur" using D(4,6) by (simp add: in_window_def)
  define inst where "inst = window_slot l ?cur"
  have get: "learner_get_current_instance l = Ok inst" "li_iid inst = ?cur \<or> li_iid inst = 0"
    using learner_get_instance_ok [OF inv win]
    by (simp_all add: learner_get_current_instance_def inst_def)
  have ii: "l_instance_inv n R inst" using D(6,8) by (simp add: inst_def D(4))
  from instance_has_quorum_spec [OF ii wf D(1,2)] obtain f where
    hq: "instance_has_quorum l inst = Ok (f \<noteq> None, inst\<lparr>li_final_value := f\<rparr>)"
    and inv1: "l_instance_inv n R (inst\<lparr>li_final_value := f\<rparr>)"
    and f: "f \<noteq> None \<longleftrightarrow> li_final_value inst \<noteq> None \<or> paxos_quorum n \<le> card (agreeing inst)"
    by blast
  have late: "\<not> l_late_start l \<or> li_iid inst = 0"
    using D(9) [of "unat ?cur mod w" "li_iid inst"] D(6) by (auto simp: inst_def D(4))
  show ?thesis
  proof (cases f)
    case None
    from learner_put_instance_ok [OF inv win inv1] get late obtain c where
      "learner_put_instance l ?cur (inst\<lparr>li_final_value := f\<rparr>) = Ok (l\<lparr>l_instances := c\<rparr>)"
      "learner_inv n w R (l\<lparr>l_instances := c\<rparr>)"
      by auto
    with None get hq f show ?thesis
      by (auto simp: learner_deliver_next_def inst_def [symmetric])
  next
    case (Some g)
    have g: "closed_by n R g" "aa_iid g = li_iid inst"
      using l_instance_invD(3) [OF inv1, of g] Some by simp_all
    then have "g \<in> trunc_ack ` R" by (auto simp: closed_by_def)
    then obtain a where a: "a \<in> R" "g = trunc_ack a" by auto
    with wf have wa: "unat (aa_value_size g) \<le> length (aa_value g)" "aa_iid g \<noteq> 0"
      "unat (aa_iid g) + w + 1 < 2 ^ 31"
      by (auto simp: acks_wf_def trunc_ack_def aa_payload_def)
    have iid: "li_iid inst = ?cur" using get(2) g wa by auto
    have copy: "copy_ack g = Ok g"
      using copy_ack_ok [OF wa(1)] a(2) by (simp add: trunc_ack_def aa_payload_def)
    have clear: "instance_clear (inst\<lparr>li_final_value := f\<rparr>) n = Ok (instance_new n)"
      using l_instance_invD(1) [OF ii] by (intro instance_clear_spec) simp
    from learner_put_instance_ok [OF inv win l_instance_inv_new] obtain c where
      put: "learner_put_instance l ?cur (instance_new n) = Ok (l\<lparr>l_instances := c\<rparr>)"
      and inv2: "learner_inv n w R (l\<lparr>l_instances := c\<rparr>)"
      and c: "clist c = (clist (l_instances l))[unat ?cur mod w := instance_new n]"
      by (auto simp: instance_new_def)
    let ?l' = "l\<lparr>l_instances := c, l_current_iid := ?cur + 1\<rparr>"
    have next_cur: "unat (?cur + 1) = unat ?cur + 1"
      using D(7) unat_add_small [of ?cur 1] by simp
    have "learner_inv n w R ?l'"
    proof (rule learner_invI)
      fix k i assume k: "k < w" and i: "li_iid (clist (l_instances ?l') ! k) = i" "i \<noteq> 0"
      have i2: "\<not> l_late_start l \<and> unat i mod w = k \<and> in_window (l\<lparr>l_instances := c\<rparr>) i"
        using learner_invD(9) [OF inv2 k] i by simp
      have "k \<noteq> unat ?cur mod w"
      proof
        assume "k = unat ?cur mod w"
        with i k learner_invD(5) [OF inv] have "i = 0" by (simp add: c instance_new_def)
        with i show False by simp
      qed
      with i2 have "unat i \<noteq> unat ?cur" by auto
      with i2 show "\<not> l_late_start ?l' \<and> unat i mod w = k \<and> in_window ?l' i"
        by (simp add: in_window_def next_cur)
    next
      show "unat (l_current_iid ?l') + w < 2 ^ 31"
        using wa(3) g(2) iid by (simp add: next_cur)
    qed (use learner_invD [OF inv2] in simp_all)
    moreover have "learner_deliver_next l = Ok (Some g, ?l')"
      using get hq Some copy clear put D(1) by (simp add: learner_deliver_next_def)
    ultimately show ?thesis using g iid by auto
  qed
qed

lemma initialize_instances_ok:
  assumes "0 < w"
  shows "\<exists>c. initialize_instances n w = Ok c \<and> carray_inv c \<and>
     clist c = replicate w (instance_new n) \<and> ca_size c = w \<and> ca_count c = w"
proof -
  let ?I = "\<lambda>k c. carray_inv c \<and> clist c = replicate k (instance_new n) \<and> ca_size c = w"
  have step: "\<exists>c'. carray_push_back c (instance_new n) = Ok c' \<and> ?I (Suc k) c'"
    if "k < w" "?I k c" for k c
  proof -
    have "ca_count c = k" using that by (metis length_clist length_replicate)
    with that have "\<not> carray_full c" by (simp add: carray_full_def)
    with carray_push_back_ok [of c "instance_new n"] that show ?thesis
      by (auto simp: replicate_append_same)
  qed
  have "\<exists>c. for_loop [0..<w] (\<lambda>i c. carray_push_back c (instance_new n)) (carray_new w) = Ok c \<and> ?I w c"
    by (rule for_loop_upto_inv) (use assms step in simp_all)
  then obtain c where "for_loop [0..<w] (\<lambda>i c. carray_push_back c (instance_new n)) (carray_new w) = Ok c"
    "?I w c"
    by blast
  moreover from this have "ca_count c = w" by (metis length_clist length_replicate)
  ultimately show ?thesis
    by (auto simp: initialize_instances_def carray_size_def)
qed

lemma learner_new_ok:
  assumes "0 < learner_instances cfg" "learner_instances cfg + 1 < 2 ^ 31"
  shows "\<exists>l. learner_new cfg n = Ok l \<and> learner_inv n (learner_instances cfg) R l \<and>
     l_current_iid l = 1"
proof -
  from initialize_instances_ok [OF assms(1), of n] obtain c where c:
    "initialize_instances n (learner_instances cfg) = Ok c" "carray_inv c"
    "clist c = replicate (learner_instances cfg) (instance_new n)"
    "ca_size c = learner_instances cfg" "ca_count c = learner_instances cfg"
    by blast
  have "learner_inv n (learner_instances cfg) R
     \<lparr>l_quorum = paxos_quorum n, l_acceptors = n, l_late_start = (learner_catch_up cfg = 0),
      l_current_iid = 1, l_highest_iid_seen = 1, l_highest_iid_closed = 1, l_instances = c\<rparr>"
    by (rule learner_invI) (use assms c l_instance_inv_new in \<open>auto simp: instance_new_def\<close>)
  with c(1) show ?thesis by (simp add: learner_new_def)
qed

section \<open>Runs of a learner\<close>

datatype learner_event = LReceive accept_ack | LDeliver

text \<open>The acknowledgements delivered by a sequence of calls, in order.\<close>

fun learner_run :: "learner \<Rightarrow> learner_event list \<Rightarrow> (accept_ack list \<times> learner) res" where
  "learner_run l [] = Ok ([], l)"
| "learner_run l (LReceive ack # es) =
     rbind (learner_receive_accept l ack) (\<lambda>l'. learner_run l' es)"
| "learner_run l (LDeliver # es) =
     rbind (learner_deliver_next l) (\<lambda>(r, l').
     rbind (learner_run l' es) (\<lambda>(ds, l'').
       Ok (case r of None \<Rightarrow> ds | Some d \<Rightarrow> d # ds, l'')))"

fun received :: "learner_event list \<Rightarrow> accept_ack set" where
  "received [] = {}"
| "received (LReceive ack # es) = insert ack (received es)"
| "received (LDeliver # es) = received es"

lemma learner_run_ok:
  assumes "learner_inv n w R l" "acks_wf n w R" "received es \<subseteq> R" "\<not> l_late_start l"
  shows "\<exists>ds l'. learner_run l es = Ok (ds, l') \<and> learner_inv n w R l' \<and>
     (\<forall>d \<in> set ds. closed_by n R d) \<and>
     map (\<lambda>d. unat (aa_iid d)) ds = [unat (l_current_iid l)..<unat (l_current_iid l')] \<and>
     unat (l_current_iid l) \<le> unat (l_current_iid l')"
  using assms(1,3,4)
proof (induction es arbitrary: l)
  case (Cons e es)
  show ?case
  proof (cases e)
    case (LReceive ack)
    with Cons.prems have "ack \<in> R" by simp
    from learner_receive_accept_cases [OF Cons.prems(1) assms(2) this] Cons.prems(3)
    obtain l1 where l1: "learner_receive_accept l ack = Ok l1" "learner_inv n w R l1"
      "l_current_iid l1 = l_current_iid l" "\<not> l_late_start l1"
      by (auto simp: noted_sel)
    from Cons.IH [OF l1(2)] l1 LReceive Cons.prems(2) show ?thesis by auto
  next
    case LDeliver
    from learner_deliver_next_ok [OF Cons.prems(1) assms(2)] Cons.prems(3)
    obtain r l1 where l1: "learner_deliver_next l = Ok (r, l1)" "learner_inv n w R l1" "\<not> l_late_start l1"
      and r: "case r of None \<Rightarrow> l_current_iid l1 = l_current_iid l
        | Some d \<Rightarrow> aa_iid d = l_current_iid l \<and> closed_by n R d \<and> l_current_iid l1 = l_current_iid l + 1"
      by (fastforce split: option.splits)
    from Cons.IH [OF l1(2) _ l1(3)] LDeliver Cons.prems(2) obtain ds l' where
      IH: "learner_run l1 es = Ok (ds, l')" "learner_inv n w R l'" "\<forall>d \<in> set ds. closed_by n R d"
      "map (\<lambda>d. unat (aa_iid d)) ds = [unat (l_current_iid l1)..<unat (l_current_iid l')]"
      "unat (l_current_iid l1) \<le> unat (l_current_iid l')"
      by auto
    show ?thesis
    proof (cases r)
      case None
      with IH LDeliver l1 r show ?thesis by auto
    next
      case (Some d)
      have "unat (l_current_iid l1) = unat (l_current_iid l) + 1"
        using r Some learner_invD(7) [OF Cons.prems(1)] unat_add_small [of "l_current_iid l" 1]
        by simp
      with IH LDeliver l1 r Some show ?thesis by (auto simp: upt_conv_Cons)
    qed
  qed
qed auto

text \<open>
  Enough acknowledgements close an instance: if acknowledgements with one ballot arrive from
  every member of a majority for the instance that is next to deliver, and nothing else arrives
  for it, the next call of \<open>learner_deliver_next\<close> delivers it.
\<close>

lemma mod_window_unique: "(a :: nat) \<le> b \<Longrightarrow> b < a + w \<Longrightarrow> b mod w = a mod w \<Longrightarrow> b = a"
  by (metis add_diff_inverse_nat le_add_diff_inverse less_diff_conv2 mod_eq_dvd_iff_nat nat_dvd_not_less
      add.commute diff_is_0_eq' le_antisym linorder_not_less nat_neq_iff zero_less_diff)

definition filled :: "learner \<Rightarrow> ballot_t \<Rightarrow> nat set \<Rightarrow> bool" where
  "filled l b S \<longleftrightarrow>
     (let inst = window_slot l (l_current_iid l) in
      li_final_value inst \<noteq> None \<or>
      ((\<forall>j \<in> S. j < length (li_acks inst) \<and> li_acks inst ! j \<noteq> None) \<and>
       (\<forall>j a. j < length (li_acks inst) \<longrightarrow> li_acks inst ! j = Some a \<longrightarrow> aa_ballot a = b) \<and>
       ((\<exists>j < length (li_acks inst). li_acks inst ! j \<noteq> None) \<longrightarrow> li_last_update_ballot inst = b)))"

lemma filled_update:
  assumes eff: "update_effect old ack inst" and len: "length (li_acks old) = n"
    and k: "nat (aa_acceptor_id ack) < n" and none: "li_final_value inst = None"
    and ack: "aa_ballot ack = b"
    and S: "\<forall>j \<in> S. j < n \<and> li_acks old ! j \<noteq> None"
    and bal: "\<forall>j a. j < n \<longrightarrow> li_acks old ! j = Some a \<longrightarrow> aa_ballot a = b"
    and last: "\<exists>j < n. li_acks old ! j \<noteq> None \<Longrightarrow> li_last_update_ballot old = b"
  shows "length (li_acks inst) = n \<and> li_last_update_ballot inst = b \<and>
     (\<forall>j \<in> insert (nat (aa_acceptor_id ack)) S. j < n \<and> li_acks inst ! j \<noteq> None) \<and>
     (\<forall>j a. j < n \<longrightarrow> li_acks inst ! j = Some a \<longrightarrow> aa_ballot a = b)"
proof (cases "li_acks old ! nat (aa_acceptor_id ack)")
  case None
  with eff none ack have "li_acks inst = (li_acks old)[nat (aa_acceptor_id ack) := Some (trunc_ack ack)]"
    "li_last_update_ballot inst = b"
    by (auto simp: update_effect_def Let_def)
  with len k S bal ack show ?thesis by (auto simp: nth_list_update)
next
  case (Some p)
  with bal k have "aa_ballot p = b" by simp
  with Some eff none ack have "li_acks inst = li_acks old"
    "li_last_update_ballot inst = li_last_update_ballot old"
    by (auto simp: update_effect_def Let_def)
  moreover have "li_last_update_ballot old = b" using last Some k by auto
  ultimately show ?thesis using Some len k S bal by auto
qed

lemma learner_receive_filled:
  assumes inv: "learner_inv n w R l" and wf: "acks_wf n w R" and ack: "ack \<in> R"
    and late: "\<not> l_late_start l"
    and cur: "aa_iid ack = l_current_iid l" and b: "aa_ballot ack = b" and fill: "filled l b S"
  shows "\<exists>l'. learner_receive_accept l ack = Ok l' \<and> learner_inv n w R l' \<and>
     l_current_iid l' = l_current_iid l \<and> \<not> l_late_start l' \<and>
     filled l' b (insert (nat (aa_acceptor_id ack)) S)"
proof -
  note D = learner_invD [OF inv]
  let ?cur = "l_current_iid l" and ?k = "nat (aa_acceptor_id ack)"
  let ?old = "window_slot l ?cur"
  have win: "in_window (noted l ack) (aa_iid ack)"
    using late cur D(4,6) by (simp add: in_window_def noted_sel)
  from learner_receive_accept_cases [OF inv wf ack] win late cur
  obtain l' inst f where l': "learner_receive_accept l ack = Ok l'" "learner_inv n w R l'"
    "l_current_iid l' = ?cur" "\<not> l_late_start l'"
    and eff: "update_effect ?old ack inst" and f: "li_final_value inst \<noteq> None \<longrightarrow> f \<noteq> None"
    and cl: "clist (l_instances l') = (clist (l_instances l))[unat ?cur mod w := inst\<lparr>li_final_value := f\<rparr>]"
    by (auto simp: noted_sel)
  have slot: "window_slot l' (l_current_iid l') = inst\<lparr>li_final_value := f\<rparr>"
    using cl l'(3) D(5,6) learner_invD(4) [OF l'(2)] by simp
  have ii: "l_instance_inv n R ?old" using D(4,6,8) by simp
  then have len: "length (li_acks ?old) = n" by (simp add: l_instance_inv_def)
  have k: "?k < n" using wf ack by (auto simp: acks_wf_def)
  have "filled l' b (insert ?k S)"
  proof (cases "li_final_value inst = None")
    case False
    with f slot show ?thesis by (simp add: filled_def)
  next
    case True
    with eff have "li_final_value ?old = None" by (auto simp: update_effect_def)
    with fill len have "\<forall>j \<in> S. j < n \<and> li_acks ?old ! j \<noteq> None"
      "\<forall>j a. j < n \<longrightarrow> li_acks ?old ! j = Some a \<longrightarrow> aa_ballot a = b"
      "\<exists>j < n. li_acks ?old ! j \<noteq> None \<Longrightarrow> li_last_update_ballot ?old = b"
      by (simp_all add: filled_def Let_def)
    from filled_update [OF eff len k True b this] slot show ?thesis
      by (simp add: filled_def)
  qed
  with l' show ?thesis by blast
qed

lemma learner_receive_all_filled:
  assumes "learner_inv n w R l" "acks_wf n w R" "set acks \<subseteq> R" "\<not> l_late_start l"
    and "\<forall>a \<in> set acks. aa_iid a = l_current_iid l \<and> aa_ballot a = b" "filled l b S"
  shows "\<exists>l'. learner_run l (map LReceive acks) = Ok ([], l') \<and> learner_inv n w R l' \<and>
     l_current_iid l' = l_current_iid l \<and>
     filled l' b (nat ` aa_acceptor_id ` set acks \<union> S)"
  using assms
proof (induction acks arbitrary: l S)
  case (Cons a acks)
  from Cons.prems learner_receive_filled [of n w R l a b S] obtain l1 where
    l1: "learner_receive_accept l a = Ok l1" "learner_inv n w R l1" "l_current_iid l1 = l_current_iid l"
    "\<not> l_late_start l1" "filled l1 b (insert (nat (aa_acceptor_id a)) S)"
    by auto
  from Cons.IH [OF l1(2) _ _ l1(4) _ l1(5)] Cons.prems l1 show ?case by auto
qed auto

lemma learner_deliver_filled:
  assumes inv: "learner_inv n w R l" and wf: "acks_wf n w R" and fill: "filled l b S"
    and maj: "S \<in> majorities n"
  shows "\<exists>d l'. learner_deliver_next l = Ok (Some d, l')"
proof -
  let ?inst = "window_slot l (l_current_iid l)"
  note D = learner_invD [OF inv]
  from learner_deliver_next_ok [OF inv wf] obtain r l' where
    r: "learner_deliver_next l = Ok (r, l')"
      "r = None \<Longrightarrow> li_final_value ?inst = None \<and> card (agreeing ?inst) < paxos_quorum n"
    by (fastforce split: option.splits)
  have False if "r = None"
  proof -
    from r(2) [OF that] fill have open_inst: "\<forall>j \<in> S. j < length (li_acks ?inst) \<and> li_acks ?inst ! j \<noteq> None"
      "\<forall>j a. j < length (li_acks ?inst) \<longrightarrow> li_acks ?inst ! j = Some a \<longrightarrow> aa_ballot a = b"
      "\<exists>j < length (li_acks ?inst). li_acks ?inst ! j \<noteq> None \<Longrightarrow> li_last_update_ballot ?inst = b"
      by (simp_all add: filled_def Let_def)
    obtain j where "j \<in> S" using maj.quorum_nonempty [OF maj] by blast
    with open_inst(1) have "\<exists>j < length (li_acks ?inst). li_acks ?inst ! j \<noteq> None" by blast
    with open_inst have "S \<subseteq> agreeing ?inst" by (auto simp: agreeing_def)
    then have "card S \<le> card (agreeing ?inst)" by (simp add: card_mono)
    with r(2) [OF that] maj show False by (simp add: majorities_def)
  qed
  with r(1) show ?thesis by (cases r) auto
qed

text \<open>Nothing was received yet for the instance.\<close>

lemma learner_none_filled:
  assumes inv: "learner_inv n w R l" and none: "\<forall>a \<in> R. aa_iid a \<noteq> l_current_iid l"
  shows "filled l b {}"
proof -
  note D = learner_invD [OF inv]
  let ?cur = "l_current_iid l"
  let ?k = "unat ?cur mod w"
  let ?inst = "clist (l_instances l) ! ?k"
  have k: "?k < w" using D(6) by simp
  note I = D(8) [OF k]
  have "li_acks ?inst ! j = None" if j: "j < n" for j
  proof (rule ccontr)
    assume "li_acks ?inst ! j \<noteq> None"
    then obtain a where a: "li_acks ?inst ! j = Some a" by blast
    with I j have "li_iid ?inst \<noteq> 0" by (auto simp: l_instance_inv_def)
    from D(9) [OF k refl this] have "unat (li_iid ?inst) mod w = ?k" "in_window l (li_iid ?inst)" by simp_all
    then have "unat (li_iid ?inst) = unat ?cur"
      using D(4) mod_window_unique [of "unat ?cur" "unat (li_iid ?inst)" w] by (simp add: in_window_def)
    moreover from l_instance_invD(2) [OF I j a] obtain r where "r \<in> R" "aa_iid r = li_iid ?inst" by auto
    ultimately show False using none by (metis word_unat_eq_iff)
  qed
  then show ?thesis using D(4) l_instance_invD(1) [OF I] by (auto simp: filled_def Let_def)
qed

lemma learner_new_filled:
  assumes "0 < learner_instances cfg" "learner_new cfg n = Ok l"
  shows "filled l b {}"
proof -
  from initialize_instances_ok [OF assms(1), of n] assms(2) have
    "clist (l_instances l) = replicate (learner_instances cfg) (instance_new n)"
    "ca_size (l_instances l) = learner_instances cfg"
    by (auto simp: learner_new_def)
  with assms(1) show ?thesis by (auto simp: filled_def instance_new_def)
qed

end
