(* ===== verification/Tcp_Sendbuf.thy ===== *)
theory Tcp_Sendbuf
  imports Messages
begin

text \<open>
  \<open>evpaxos/tcp_sendbuf.c\<close>: how the messages are laid out on a connection. Every message is a
  packed header (the payload size and the message code) followed by the bytes of the structure,
  in the layout of a little-endian LP64 machine. The receiving side casts its buffer back to
  the structure; the lemmas show that a message survives the trip.
\<close>

section \<open>Little-endian integers\<close>

fun le_enc :: "nat \<Rightarrow> nat \<Rightarrow> byte list" where
  "le_enc 0 x = []"
| "le_enc (Suc n) x = of_nat (x mod 256) # le_enc n (x div 256)"

fun le_dec :: "byte list \<Rightarrow> nat" where
  "le_dec [] = 0"
| "le_dec (b # bs) = unat b + 256 * le_dec bs"

lemma length_le_enc [simp]: "length (le_enc n x) = n"
  by (induction n arbitrary: x) auto

lemma le_dec_enc: "le_dec (le_enc n x) = x mod 256 ^ n"
proof (induction n arbitrary: x)
  case (Suc n)
  have "unat (of_nat (x mod 256) :: byte) = x mod 256"
    by (simp add: unat_of_nat)
  with Suc show ?case by (simp add: mod_mult2_eq)
qed simp

definition enc32 :: "32 word \<Rightarrow> byte list" where "enc32 w = le_enc 4 (unat w)"
definition enc64 :: "64 word \<Rightarrow> byte list" where "enc64 w = le_enc 8 (unat w)"
definition enc_int :: "int \<Rightarrow> byte list" where "enc_int i = enc32 (word_of_int i)"
definition enc_short :: "int \<Rightarrow> byte list" where "enc_short i = le_enc 2 (unat (word_of_int i :: 16 word))"

text \<open>The field at an offset of a buffer.\<close>

definition dec32 :: "nat \<Rightarrow> byte list \<Rightarrow> 32 word" where
  "dec32 off buf = of_nat (le_dec (take 4 (drop off buf)))"
definition dec64 :: "nat \<Rightarrow> byte list \<Rightarrow> 64 word" where
  "dec64 off buf = of_nat (le_dec (take 8 (drop off buf)))"
definition dec_int :: "nat \<Rightarrow> byte list \<Rightarrow> int" where
  "dec_int off buf = sint (dec32 off buf)"
definition dec_short :: "nat \<Rightarrow> byte list \<Rightarrow> int" where
  "dec_short off buf = sint (of_nat (le_dec (take 2 (drop off buf))) :: 16 word)"

lemma length_enc [simp]:
  "length (enc32 w) = 4" "length (enc64 v) = 8" "length (enc_int i) = 4" "length (enc_short i) = 2"
  by (simp_all add: enc32_def enc64_def enc_int_def enc_short_def)

text \<open>For evaluation: bytes by shifting words instead of dividing natural numbers.\<close>

lemma byte_of_nat: "(of_nat (unat (w :: 'a::len word) mod 256) :: byte) = ucast w"
proof -
  have "(of_nat (take_bit 8 (unat w)) :: byte) = of_nat (unat w)"
    by (rule bit_word_eqI) (simp add: bit_simps)
  moreover have "unat w mod 256 = take_bit 8 (unat w)" by (simp add: take_bit_eq_mod)
  ultimately show ?thesis by simp
qed

lemma unat_div_256: "unat (w :: 'a::len word) div 256 = unat (drop_bit 8 w)"
proof -
  have "unat w div 256 = drop_bit 8 (unat w)" by (simp add: drop_bit_eq_div)
  also have "\<dots> = unat (drop_bit 8 w)" by (rule bit_eqI) (simp add: bit_simps)
  finally show ?thesis .
qed

lemma le_enc_Suc: "le_enc (Suc n) (unat (w :: 'a::len word)) = ucast w # le_enc n (unat (drop_bit 8 w))"
  by (simp add: byte_of_nat unat_div_256)

lemma enc_code [code]:
  "enc32 w = [ucast w, ucast (drop_bit 8 w), ucast (drop_bit 16 w), ucast (drop_bit 24 w)]"
  "enc64 v = [ucast v, ucast (drop_bit 8 v), ucast (drop_bit 16 v), ucast (drop_bit 24 v), ucast (drop_bit 32 v),
     ucast (drop_bit 40 v), ucast (drop_bit 48 v), ucast (drop_bit 56 v)]"
  "enc_short i = (let u = word_of_int i :: 16 word in [ucast u, ucast (drop_bit 8 u)])"
  unfolding enc32_def enc64_def enc_short_def
  by (simp_all add: numeral_eq_Suc le_enc_Suc Let_def del: le_enc.simps) (simp_all add: drop_bit_drop_bit)

fun le_word :: "byte list \<Rightarrow> 'a::len word" where
  "le_word [] = 0"
| "le_word (b # bs) = ucast b + 256 * le_word bs"

lemma le_word: "of_nat (le_dec bs) = le_word bs"
  by (induction bs) simp_all

lemma dec_code [code]:
  "dec32 off buf = le_word (take 4 (drop off buf))"
  "dec64 off buf = le_word (take 8 (drop off buf))"
  "dec_short off buf = sint (le_word (take 2 (drop off buf)) :: 16 word)"
  by (simp_all add: dec32_def dec64_def dec_short_def le_word)

lemma le_dec_word:
  "of_nat (le_dec (le_enc 4 (unat w))) = (w :: 32 word)"
  "of_nat (le_dec (le_enc 8 (unat v))) = (v :: 64 word)"
  "of_nat (le_dec (le_enc 2 (unat u))) = (u :: 16 word)"
proof -
  have "unat w < 4294967296" "unat v < 18446744073709551616" "unat u < 65536"
    using unsigned_less [of w] unsigned_less [of v] unsigned_less [of u] by simp_all
  then show "of_nat (le_dec (le_enc 4 (unat w))) = w" "of_nat (le_dec (le_enc 8 (unat v))) = v"
    "of_nat (le_dec (le_enc 2 (unat u))) = u"
    by (simp_all add: le_dec_enc)
qed

lemma dec_enc [simp]:
  assumes "length pre = off"
  shows "dec32 off (pre @ enc32 w @ post) = w" "dec64 off (pre @ enc64 v @ post) = v"
  using assms by (simp_all add: dec32_def dec64_def enc32_def enc64_def le_dec_word)

lemma dec_enc_int:
  assumes "length pre = off" "- (2 ^ 31) \<le> i" "i < 2 ^ 31"
  shows "dec_int off (pre @ enc_int i @ post) = i"
  using assms by (simp add: dec_int_def enc_int_def sint_word_ariths signed_of_int signed_take_bit_int_eq_self)

lemma dec_enc_short:
  assumes "length pre = off" "- (2 ^ 15) \<le> i" "i < 2 ^ 15"
  shows "dec_short off (pre @ enc_short i @ post) = i"
  using assms by (simp add: dec_short_def enc_short_def le_dec_word signed_of_int signed_take_bit_int_eq_self)

section \<open>Writing messages\<close>

text \<open>The bytes \<open>add_paxos_header\<close> writes.\<close>

definition add_paxos_header :: "paxos_msg_code \<Rightarrow> size_t \<Rightarrow> byte list" where
  "add_paxos_header c s = enc64 s @ enc32 (of_nat (msg_code_val c))"

definition sendbuf_add_prepare_req :: "prepare_req \<Rightarrow> byte list" where
  "sendbuf_add_prepare_req pr =
     add_paxos_header prepare_reqs (PREPARE_REQ_SIZE pr) @ enc32 (pr_iid pr) @ enc32 (pr_ballot pr)"

text \<open>The acknowledgement of a prepare request is made from the record of the acceptor.\<close>

definition prepare_ack_of :: "acceptor_record \<Rightarrow> prepare_ack" where
  "prepare_ack_of rec =
     \<lparr>pa_acceptor_id = aa_acceptor_id rec, pa_iid = aa_iid rec, pa_ballot = aa_ballot rec,
      pa_value_ballot = aa_value_ballot rec, pa_value_size = aa_value_size rec,
      pa_value = aa_payload rec\<rparr>"

text \<open>A write of \<open>n\<close> bytes that start with a value reads \<open>n\<close> bytes of it.\<close>

definition value_bytes :: "byte list \<Rightarrow> size_t \<Rightarrow> byte list res" where
  "value_bytes v n = (if length v < unat n then Err OutOfBounds else Ok (take (unat n) v))"

definition sendbuf_add_prepare_ack :: "acceptor_record \<Rightarrow> byte list res" where
  "sendbuf_add_prepare_ack rec =
     (let pa = prepare_ack_of rec;
          fixed = add_paxos_header prepare_acks (PREPARE_ACK_SIZE pa) @
            enc_int (pa_acceptor_id pa) @ enc32 (pa_iid pa) @ enc32 (pa_ballot pa) @
            enc32 (pa_value_ballot pa) @ enc64 (pa_value_size pa)
      in if pa_value_size pa > 0
         then rbind (value_bytes (aa_value rec) (aa_value_size rec)) (\<lambda>v. Ok (fixed @ v))
         else Ok fixed)"

definition sendbuf_add_accept_req :: "accept_req \<Rightarrow> byte list res" where
  "sendbuf_add_accept_req ar =
     rbind (value_bytes (ar_value ar) (ar_value_size ar)) (\<lambda>v.
       Ok (add_paxos_header accept_reqs (ACCEPT_REQ_SIZE ar) @ enc32 (ar_iid ar) @
           enc32 (ar_ballot ar) @ enc64 (ar_value_size ar) @ v))"

text \<open>\<open>pad\<close> is the contents of the six padding bytes behind \<open>is_final\<close>.\<close>

definition sendbuf_add_accept_ack :: "byte list \<Rightarrow> accept_ack \<Rightarrow> byte list res" where
  "sendbuf_add_accept_ack pad aa =
     rbind (value_bytes (aa_value aa) (aa_value_size aa)) (\<lambda>v.
       Ok (add_paxos_header accept_acks (ACCEPT_ACK_SIZE aa) @ enc_int (aa_acceptor_id aa) @
           enc32 (aa_iid aa) @ enc32 (aa_ballot aa) @ enc32 (aa_value_ballot aa) @
           enc_short (aa_is_final aa) @ pad @ enc64 (aa_value_size aa) @ v))"

definition sendbuf_add_repeat_req :: "iid_t \<Rightarrow> byte list" where
  "sendbuf_add_repeat_req iid = add_paxos_header repeat_reqs 4 @ enc32 iid"

text \<open>The size is an \<open>int\<close> here and converted to \<open>size_t\<close>.\<close>

definition paxos_submit :: "byte list \<Rightarrow> int \<Rightarrow> byte list res" where
  "paxos_submit v n =
     rbind (value_bytes v (word_of_int n)) (\<lambda>b. Ok (add_paxos_header submit (word_of_int n) @ b))"

section \<open>Reading messages\<close>

text \<open>
  The casts of the receiving handlers: the fixed fields at their offsets, and as value whatever
  the buffer holds behind them.
\<close>

definition cast_prepare_req :: "byte list \<Rightarrow> prepare_req" where
  "cast_prepare_req buf = \<lparr>pr_iid = dec32 0 buf, pr_ballot = dec32 4 buf\<rparr>"

definition cast_prepare_ack :: "byte list \<Rightarrow> prepare_ack" where
  "cast_prepare_ack buf =
     \<lparr>pa_acceptor_id = dec_int 0 buf, pa_iid = dec32 4 buf, pa_ballot = dec32 8 buf,
      pa_value_ballot = dec32 12 buf, pa_value_size = dec64 16 buf, pa_value = drop 24 buf\<rparr>"

definition cast_accept_req :: "byte list \<Rightarrow> accept_req" where
  "cast_accept_req buf =
     \<lparr>ar_iid = dec32 0 buf, ar_ballot = dec32 4 buf, ar_value_size = dec64 8 buf,
      ar_value = drop 16 buf\<rparr>"

definition cast_accept_ack :: "byte list \<Rightarrow> accept_ack" where
  "cast_accept_ack buf =
     \<lparr>aa_acceptor_id = dec_int 0 buf, aa_iid = dec32 4 buf, aa_ballot = dec32 8 buf,
      aa_value_ballot = dec32 12 buf, aa_is_final = dec_short 16 buf,
      aa_value_size = dec64 24 buf, aa_value = drop 32 buf\<rparr>"

definition cast_iid :: "byte list \<Rightarrow> iid_t" where
  "cast_iid buf = dec32 0 buf"

text \<open>The header: the payload size and the code, \<open>None\<close> for a number that is no code.\<close>

definition msg_code_of :: "32 word \<Rightarrow> paxos_msg_code option" where
  "msg_code_of w = List.find (\<lambda>c. of_nat (msg_code_val c) = w)
     [prepare_reqs, prepare_acks, accept_reqs, accept_acks, repeat_reqs, submit, leader_announce,
      alive_ping]"

definition read_header :: "byte list \<Rightarrow> size_t \<times> paxos_msg_code option" where
  "read_header buf = (dec64 0 buf, msg_code_of (dec32 8 buf))"

lemma msg_code_of_val [simp]: "msg_code_of (of_nat (msg_code_val c)) = Some c"
  by (cases c) (simp_all add: msg_code_of_def)

lemma read_header_add [simp]: "read_header (add_paxos_header c s @ rest) = (s, Some c)"
  using dec_enc(2) [of "[]" 0 s "enc32 (of_nat (msg_code_val c)) @ rest"]
    dec_enc(1) [of "enc64 s" 8 "of_nat (msg_code_val c)" rest]
  by (simp add: read_header_def add_paxos_header_def)

lemma length_header [simp]: "length (add_paxos_header c s) = sizeof_paxos_msg"
  by (simp add: add_paxos_header_def sizeof_defs)

section \<open>Round trips\<close>

text \<open>A field is read behind what precedes it; \<open>post\<close> is the rest of the receive buffer.\<close>

lemma dec_skip [simp]:
  "length a \<le> off \<Longrightarrow> dec32 off (a @ b) = dec32 (off - length a) b"
  "length a \<le> off \<Longrightarrow> dec64 off (a @ b) = dec64 (off - length a) b"
  "length a \<le> off \<Longrightarrow> dec_int off (a @ b) = dec_int (off - length a) b"
  "length a \<le> off \<Longrightarrow> dec_short off (a @ b) = dec_short (off - length a) b"
  by (simp_all add: dec32_def dec64_def dec_int_def dec_short_def)

lemma dec_first [simp]:
  "dec32 0 (enc32 w @ post) = w" "dec64 0 (enc64 v @ post) = v"
  "- (2 ^ 31) \<le> i \<Longrightarrow> i < 2 ^ 31 \<Longrightarrow> dec_int 0 (enc_int i @ post) = i"
  "- (2 ^ 15) \<le> j \<Longrightarrow> j < 2 ^ 15 \<Longrightarrow> dec_short 0 (enc_short j @ post) = j"
  using dec_enc [of "[]" 0] dec_enc_int [of "[]" 0] dec_enc_short [of "[]" 0] by simp_all

lemma prepare_req_trip:
  "\<exists>body. sendbuf_add_prepare_req pr = add_paxos_header prepare_reqs (of_nat (length body)) @ body \<and>
     cast_prepare_req (body @ post) = pr"
  by (rule exI [of _ "enc32 (pr_iid pr) @ enc32 (pr_ballot pr)"])
    (simp add: sendbuf_add_prepare_req_def PREPARE_REQ_SIZE_def sizeof_defs cast_prepare_req_def)

lemma repeat_req_trip:
  "\<exists>body. sendbuf_add_repeat_req i = add_paxos_header repeat_reqs (of_nat (length body)) @ body \<and>
     cast_iid (body @ post) = i"
  by (rule exI [of _ "enc32 i"]) (simp add: sendbuf_add_repeat_req_def cast_iid_def)

text \<open>
  A structure with a value: the receiver sees the value followed by the rest of its buffer, so
  the payload is the one that was sent.
\<close>

lemma accept_req_trip:
  assumes len: "unat (ar_value_size ar) \<le> length (ar_value ar)"
  shows "\<exists>body. sendbuf_add_accept_req ar =
      Ok (add_paxos_header accept_reqs (of_nat (length body)) @ body) \<and>
    cast_accept_req (body @ post) = ar\<lparr>ar_value := ar_payload ar @ post\<rparr>"
proof -
  let ?body = "enc32 (ar_iid ar) @ enc32 (ar_ballot ar) @ enc64 (ar_value_size ar) @ ar_payload ar"
  have v: "value_bytes (ar_value ar) (ar_value_size ar) = Ok (ar_payload ar)"
    using len by (simp add: value_bytes_def ar_payload_def)
  have l: "length ?body = 16 + unat (ar_value_size ar)"
    using len by (simp add: ar_payload_def)
  show ?thesis
    by (rule exI [of _ ?body], simp only: l)
      (simp add: sendbuf_add_accept_req_def v ACCEPT_REQ_SIZE_def sizeof_defs cast_accept_req_def
        add.commute)
qed

lemma prepare_ack_trip:
  assumes len: "unat (aa_value_size rec) \<le> length (aa_value rec)"
    and aid: "- (2 ^ 31) \<le> aa_acceptor_id rec" "aa_acceptor_id rec < 2 ^ 31"
  shows "\<exists>body. sendbuf_add_prepare_ack rec =
      Ok (add_paxos_header prepare_acks (of_nat (length body)) @ body) \<and>
    cast_prepare_ack (body @ post) = (prepare_ack_of rec)\<lparr>pa_value := aa_payload rec @ post\<rparr>"
proof -
  let ?body = "enc_int (aa_acceptor_id rec) @ enc32 (aa_iid rec) @ enc32 (aa_ballot rec) @
    enc32 (aa_value_ballot rec) @ enc64 (aa_value_size rec) @ aa_payload rec"
  have v: "value_bytes (aa_value rec) (aa_value_size rec) = Ok (aa_payload rec)"
    using len by (simp add: value_bytes_def aa_payload_def)
  have z: "\<not> 0 < aa_value_size rec \<Longrightarrow> aa_payload rec = []"
    by (simp add: aa_payload_def word_gt_0)
  have l: "length ?body = 24 + unat (aa_value_size rec)"
    using len by (simp add: aa_payload_def)
  show ?thesis
    by (rule exI [of _ ?body], simp only: l)
      (use aid z in \<open>auto simp: sendbuf_add_prepare_ack_def v PREPARE_ACK_SIZE_def sizeof_defs
        cast_prepare_ack_def prepare_ack_of_def add.commute Let_def\<close>)
qed

lemma accept_ack_trip:
  assumes len: "unat (aa_value_size aa) \<le> length (aa_value aa)" and pad: "length pad = 6"
    and aid: "- (2 ^ 31) \<le> aa_acceptor_id aa" "aa_acceptor_id aa < 2 ^ 31"
    and fin: "- (2 ^ 15) \<le> aa_is_final aa" "aa_is_final aa < 2 ^ 15"
  shows "\<exists>body. sendbuf_add_accept_ack pad aa =
      Ok (add_paxos_header accept_acks (of_nat (length body)) @ body) \<and>
    cast_accept_ack (body @ post) = aa\<lparr>aa_value := aa_payload aa @ post\<rparr>"
proof -
  let ?body = "enc_int (aa_acceptor_id aa) @ enc32 (aa_iid aa) @ enc32 (aa_ballot aa) @
    enc32 (aa_value_ballot aa) @ enc_short (aa_is_final aa) @ pad @ enc64 (aa_value_size aa) @
    aa_payload aa"
  have v: "value_bytes (aa_value aa) (aa_value_size aa) = Ok (aa_payload aa)"
    using len by (simp add: value_bytes_def aa_payload_def)
  have l: "length ?body = 32 + unat (aa_value_size aa)"
    using len pad by (simp add: aa_payload_def)
  show ?thesis
    by (rule exI [of _ ?body], simp only: l)
      (use aid fin pad in \<open>simp add: sendbuf_add_accept_ack_def v ACCEPT_ACK_SIZE_def sizeof_defs
        cast_accept_ack_def add.commute\<close>)
qed

lemma submit_trip:
  assumes "0 \<le> n" "nat n \<le> length v" "n < 2 ^ 31"
  shows "paxos_submit v n = Ok (add_paxos_header submit (of_nat (nat n)) @ take (nat n) v)"
proof -
  have "unat (word_of_int n :: 64 word) = nat n"
    using assms by (simp add: unsigned_of_int take_bit_int_eq_self)
  with assms show ?thesis
    by (simp add: paxos_submit_def value_bytes_def)
qed

end
