(* ===== verification/System.thy ===== *)
theory System
  imports Proposer Acceptor Learner Tcp_Sendbuf
begin

text \<open>
  The processes of a deployment together: proposers, acceptors and learners, each in the state
  of its component, and the messages sent so far. One step is one call of the library by the
  event loop of one process (\<open>evproposer.c\<close>, \<open>evacceptor.c\<close>, \<open>evlearner.c\<close>), with what it
  sends. Nothing is ever removed from the network and a process may receive any message of a
  kind it handles, at any time and any number of times, or never: this covers loss,
  duplication and reordering, and every routing of the acknowledgements. A call that fails
  (a failed assertion, \<open>exit\<close>, a memory error) ends its process; processes may also stop at any
  moment, and do not come back.
\<close>

datatype message =
    MPrepare prepare_req
  | MPromise prepare_ack
  | MAccept accept_req
  | MAccepted accept_ack   \<comment> \<open>to every proposer and learner, or the answer to a repeat request\<close>
  | MNack accept_ack       \<comment> \<open>to the proposer of a rejected accept request\<close>

record 's system =
  sys_proposers :: "nat \<Rightarrow> proposer option"
  sys_acceptors :: "nat \<Rightarrow> 's acceptor option"
  sys_learners :: "nat \<Rightarrow> learner option"
  sys_net :: "message list"
  sys_delivered :: "(nat \<times> accept_ack) list"

datatype event =
    EPropose nat "byte list" size_t
  | EPrepare nat "nat \<Rightarrow> int" timeval
  | EPromise nat timeval prepare_ack
  | EAccept nat
  | EAccepted nat timeval accept_ack
  | ETimeoutPrepare nat paxos_config timeout_iterator
  | ETimeoutAccept nat paxos_config timeout_iterator
  | EAcceptorPrepare nat prepare_req
  | EAcceptorAccept nat accept_req
  | EAcceptorRepeat nat iid_t
  | ELearn nat accept_ack
  | EDeliver nat
  | ECrashProposer nat
  | ECrashAcceptor nat
  | ECrashLearner nat

section \<open>One call of a process\<close>

definition with_proposer ::
  "nat \<Rightarrow> (proposer \<Rightarrow> (message list \<times> proposer) res) \<Rightarrow> 's system \<Rightarrow> 's system" where
  "with_proposer k f s =
     (case sys_proposers s k of
        None \<Rightarrow> s
      | Some p \<Rightarrow>
          (case f p of
             Inl _ \<Rightarrow> s\<lparr>sys_proposers := (sys_proposers s)(k := None)\<rparr>
           | Inr (ms, p1) \<Rightarrow>
               s\<lparr>sys_proposers := (sys_proposers s)(k := Some p1), sys_net := sys_net s @ ms\<rparr>))"

definition with_acceptor ::
  "nat \<Rightarrow> ('s acceptor \<Rightarrow> (message list \<times> 's acceptor) res) \<Rightarrow> 's system \<Rightarrow> 's system" where
  "with_acceptor k f s =
     (case sys_acceptors s k of
        None \<Rightarrow> s
      | Some a \<Rightarrow>
          (case f a of
             Inl _ \<Rightarrow> s\<lparr>sys_acceptors := (sys_acceptors s)(k := None)\<rparr>
           | Inr (ms, a1) \<Rightarrow>
               s\<lparr>sys_acceptors := (sys_acceptors s)(k := Some a1), sys_net := sys_net s @ ms\<rparr>))"

definition with_learner ::
  "nat \<Rightarrow> (learner \<Rightarrow> (accept_ack list \<times> learner) res) \<Rightarrow> 's system \<Rightarrow> 's system" where
  "with_learner k f s =
     (case sys_learners s k of
        None \<Rightarrow> s
      | Some l \<Rightarrow>
          (case f l of
             Inl _ \<Rightarrow> s\<lparr>sys_learners := (sys_learners s)(k := None)\<rparr>
           | Inr (ds, l1) \<Rightarrow>
               s\<lparr>sys_learners := (sys_learners s)(k := Some l1),
                 sys_delivered := sys_delivered s @ map (Pair k) ds\<rparr>))"

section \<open>What the event loops do with a call\<close>

definition prepares :: "prepare_req option \<Rightarrow> message list" where
  "prepares r = (case r of None \<Rightarrow> [] | Some q \<Rightarrow> [MPrepare q])"

definition accepts :: "accept_req option \<Rightarrow> message list" where
  "accepts r = (case r of None \<Rightarrow> [] | Some q \<Rightarrow> [MAccept q])"

definition call_propose :: "byte list \<Rightarrow> size_t \<Rightarrow> proposer \<Rightarrow> (message list \<times> proposer) res" where
  "call_propose v n p = rbind (proposer_propose p v n) (\<lambda>p1. Ok ([], p1))"

definition call_prepare :: "(nat \<Rightarrow> int) \<Rightarrow> timeval \<Rightarrow> proposer \<Rightarrow> (message list \<times> proposer) res" where
  "call_prepare junk now p = rbind (proposer_prepare junk now p) (\<lambda>(q, p1). Ok ([MPrepare q], p1))"

definition call_promise :: "timeval \<Rightarrow> prepare_ack \<Rightarrow> proposer \<Rightarrow> (message list \<times> proposer) res" where
  "call_promise now ack p =
     rbind (proposer_receive_prepare_ack now p ack) (\<lambda>(r, p1). Ok (prepares r, p1))"

definition call_accept :: "proposer \<Rightarrow> (message list \<times> proposer) res" where
  "call_accept p = rbind (proposer_accept p) (\<lambda>(r, p1). Ok (accepts r, p1))"

definition call_accepted :: "timeval \<Rightarrow> accept_ack \<Rightarrow> proposer \<Rightarrow> (message list \<times> proposer) res" where
  "call_accepted now ack p =
     rbind (proposer_receive_accept_ack now p ack) (\<lambda>(r, p1). Ok (prepares r, p1))"

definition call_timeout_prepare ::
  "paxos_config \<Rightarrow> timeout_iterator \<Rightarrow> proposer \<Rightarrow> (message list \<times> proposer) res" where
  "call_timeout_prepare cfg it p =
     rbind (timeout_iterator_prepare cfg it p) (\<lambda>(r, _, p1). Ok (prepares r, p1))"

definition call_timeout_accept ::
  "paxos_config \<Rightarrow> timeout_iterator \<Rightarrow> proposer \<Rightarrow> (message list \<times> proposer) res" where
  "call_timeout_accept cfg it p =
     rbind (timeout_iterator_accept cfg it p) (\<lambda>(r, _, p1). Ok (accepts r, p1))"

definition call_acceptor_prepare ::
  "'s storage_ops \<Rightarrow> prepare_req \<Rightarrow> 's acceptor \<Rightarrow> (message list \<times> 's acceptor) res" where
  "call_acceptor_prepare ops pr a =
     rbind (acceptor_receive_prepare ops a pr) (\<lambda>(rec, a1). Ok ([MPromise (prepare_ack_of rec)], a1))"

definition call_acceptor_accept ::
  "'s storage_ops \<Rightarrow> accept_req \<Rightarrow> 's acceptor \<Rightarrow> (message list \<times> 's acceptor) res" where
  "call_acceptor_accept ops ar a =
     rbind (acceptor_receive_accept ops a ar) (\<lambda>(rec, a1).
       Ok ([if ar_ballot ar = aa_ballot rec then MAccepted (trunc_ack rec) else MNack (trunc_ack rec)],
           a1))"

definition call_acceptor_repeat ::
  "'s storage_ops \<Rightarrow> iid_t \<Rightarrow> 's acceptor \<Rightarrow> (message list \<times> 's acceptor) res" where
  "call_acceptor_repeat ops i a =
     rbind (acceptor_receive_repeat ops a i) (\<lambda>(r, a1).
       Ok (case r of None \<Rightarrow> [] | Some rec \<Rightarrow> [MAccepted (trunc_ack rec)], a1))"

definition call_learn :: "accept_ack \<Rightarrow> learner \<Rightarrow> (accept_ack list \<times> learner) res" where
  "call_learn ack l = rbind (learner_receive_accept l ack) (\<lambda>l1. Ok ([], l1))"

definition call_deliver :: "learner \<Rightarrow> (accept_ack list \<times> learner) res" where
  "call_deliver l =
     rbind (learner_deliver_next l) (\<lambda>(d, l1). Ok (case d of None \<Rightarrow> [] | Some a \<Rightarrow> [a], l1))"

section \<open>Steps and runs\<close>

text \<open>An event whose message was never sent does nothing.\<close>

definition if_sent :: "bool \<Rightarrow> ('s system \<Rightarrow> 's system) \<Rightarrow> 's system \<Rightarrow> 's system" where
  "if_sent b f s = (if b then f s else s)"

fun sys_step :: "'s storage_ops \<Rightarrow> event \<Rightarrow> 's system \<Rightarrow> 's system" where
  "sys_step ops (EPropose k v n) s = with_proposer k (call_propose v n) s"
| "sys_step ops (EPrepare k junk now) s = with_proposer k (call_prepare junk now) s"
| "sys_step ops (EPromise k now ack) s =
     if_sent (MPromise ack \<in> set (sys_net s)) (with_proposer k (call_promise now ack)) s"
| "sys_step ops (EAccept k) s = with_proposer k call_accept s"
| "sys_step ops (EAccepted k now ack) s =
     if_sent (MAccepted ack \<in> set (sys_net s) \<or> MNack ack \<in> set (sys_net s))
       (with_proposer k (call_accepted now ack)) s"
| "sys_step ops (ETimeoutPrepare k cfg it) s = with_proposer k (call_timeout_prepare cfg it) s"
| "sys_step ops (ETimeoutAccept k cfg it) s = with_proposer k (call_timeout_accept cfg it) s"
| "sys_step ops (EAcceptorPrepare k pr) s =
     if_sent (MPrepare pr \<in> set (sys_net s)) (with_acceptor k (call_acceptor_prepare ops pr)) s"
| "sys_step ops (EAcceptorAccept k ar) s =
     if_sent (MAccept ar \<in> set (sys_net s)) (with_acceptor k (call_acceptor_accept ops ar)) s"
| "sys_step ops (EAcceptorRepeat k i) s = with_acceptor k (call_acceptor_repeat ops i) s"
| "sys_step ops (ELearn k ack) s =
     if_sent (MAccepted ack \<in> set (sys_net s)) (with_learner k (call_learn ack)) s"
| "sys_step ops (EDeliver k) s = with_learner k call_deliver s"
| "sys_step ops (ECrashProposer k) s = s\<lparr>sys_proposers := (sys_proposers s)(k := None)\<rparr>"
| "sys_step ops (ECrashAcceptor k) s = s\<lparr>sys_acceptors := (sys_acceptors s)(k := None)\<rparr>"
| "sys_step ops (ECrashLearner k) s = s\<lparr>sys_learners := (sys_learners s)(k := None)\<rparr>"

fun sys_run :: "'s storage_ops \<Rightarrow> event list \<Rightarrow> 's system \<Rightarrow> 's system" where
  "sys_run ops [] s = s"
| "sys_run ops (e # es) s = sys_run ops es (sys_step ops e s)"

lemma sys_run_append: "sys_run ops (es @ fs) s = sys_run ops fs (sys_run ops es s)"
  by (induction es arbitrary: s) simp_all

text \<open>
  The start: \<open>MAX_N_OF_PROPOSERS\<close> proposers, \<open>n\<close> acceptors with the given storages, and any
  number of copies of a new learner.
\<close>

definition sys_init :: "nat \<Rightarrow> (nat \<Rightarrow> 's) \<Rightarrow> learner \<Rightarrow> 's system" where
  "sys_init n stores l =
     \<lparr>sys_proposers = (\<lambda>k. if k < MAX_N_OF_PROPOSERS then Some (proposer_new (int k) n) else None),
      sys_acceptors = (\<lambda>k. if k < n then Some \<lparr>acc_store = stores k\<rparr> else None),
      sys_learners = (\<lambda>k. Some l), sys_net = [], sys_delivered = []\<rparr>"

text \<open>
  The runs the protocol is meant for: no empty value is submitted, and a repeat request is for an
  instance from 1 on and, if it is answered, answered from a record whose value ballot equals its ballot:
  the acceptor accepted a value with its last ballot and has not promised a higher one since. A record
  that is only a promise is excluded, and so is one that was accepted and then promised higher.
\<close>

fun event_ok :: "'s storage_ops \<Rightarrow> event \<Rightarrow> 's system \<Rightarrow> bool" where
  "event_ok ops (EPropose k v n) s = (n > 0)"
| "event_ok ops (EAcceptorRepeat k i) s =
     (i \<noteq> 0 \<and>
      (case sys_acceptors s k of
         None \<Rightarrow> True
       | Some a \<Rightarrow>
           (case acceptor_receive_repeat ops a i of
              Inr (Some rec, _) \<Rightarrow> aa_value_ballot rec = aa_ballot rec
            | _ \<Rightarrow> True)))"
| "event_ok ops _ s = True"

fun run_ok :: "'s storage_ops \<Rightarrow> event list \<Rightarrow> 's system \<Rightarrow> bool" where
  "run_ok ops [] s = True"
| "run_ok ops (e # es) s = (event_ok ops e s \<and> run_ok ops es (sys_step ops e s))"

text \<open>Without repeat requests this can be read off the events.\<close>

fun plain_event :: "event \<Rightarrow> bool" where
  "plain_event (EPropose k v n) = (n > 0)"
| "plain_event (EAcceptorRepeat k i) = False"
| "plain_event _ = True"

lemma run_ok_plain: "list_all plain_event es \<Longrightarrow> run_ok ops es s"
proof (induction es arbitrary: s)
  case (Cons e es)
  then show ?case by (cases e) simp_all
qed simp

text \<open>No two deliveries of an instance with different values.\<close>

definition deliveries_agree :: "(nat \<times> accept_ack) list \<Rightarrow> bool" where
  "deliveries_agree ds =
     list_all (\<lambda>(_, d1). list_all (\<lambda>(_, d2).
       aa_iid d1 = aa_iid d2 \<longrightarrow> aa_payload d1 = aa_payload d2) ds) ds"

lemma deliveries_agreeI:
  "(\<And>j1 d1 j2 d2. (j1, d1) \<in> set ds \<Longrightarrow> (j2, d2) \<in> set ds \<Longrightarrow> aa_iid d1 = aa_iid d2 \<Longrightarrow>
     aa_payload d1 = aa_payload d2) \<Longrightarrow> deliveries_agree ds"
  by (auto simp: deliveries_agree_def list_all_iff)

end
