(* ===== verification/Storage_Mem.thy ===== *)
theory Storage_Mem
  imports Acceptor
begin

text \<open>
  \<open>paxos/storage_mem.c\<close>: the in-memory storage, a ring of \<open>MAX_RECORDS\<close> buffers indexed by
  the instance modulo the ring size. A newer instance overwrites the buffer of an older one and
  a request for an overwritten instance ends the process. The interpretation \<open>mem\<close> shows that
  this storage keeps the contract of \<open>record_store\<close>: whatever the acceptor still answers for,
  it answers from what it stored last.
\<close>

section \<open>Operations\<close>

definition MAX_SIZE_RECORD :: nat where "MAX_SIZE_RECORD = 8 * 1024"
definition MAX_RECORDS :: nat where "MAX_RECORDS = 4 * 1024"

text \<open>The bytes of a buffer that are left for the value.\<close>

definition mem_value_room :: nat where
  "mem_value_room = MAX_SIZE_RECORD - sizeof_accept_ack"

record mem_storage =
  ms_acceptor_id :: int
  ms_records :: "nat \<Rightarrow> acceptor_record"

definition mem_slot :: "iid_t \<Rightarrow> nat" where
  "mem_slot iid = unat iid mod MAX_RECORDS"

text \<open>\<open>junk\<close> gives the contents of the allocated buffers; only the instance id is set.\<close>

definition storage_open :: "(nat \<Rightarrow> acceptor_record) \<Rightarrow> int \<Rightarrow> mem_storage" where
  "storage_open junk acceptor_id =
     \<lparr>ms_acceptor_id = acceptor_id, ms_records = (\<lambda>i. (junk i)\<lparr>aa_iid := 0\<rparr>)\<rparr>"

definition storage_close :: "mem_storage \<Rightarrow> int" where
  "storage_close s = 0"

definition storage_tx_begin :: "mem_storage \<Rightarrow> mem_storage res" where
  "storage_tx_begin s = Ok s"

definition storage_tx_commit :: "mem_storage \<Rightarrow> mem_storage res" where
  "storage_tx_commit s = Ok s"

definition storage_get_record ::
  "mem_storage \<Rightarrow> iid_t \<Rightarrow> (acceptor_record option \<times> mem_storage) res" where
  "storage_get_record s iid =
     (let record_buffer = ms_records s (mem_slot iid) in
      if iid < aa_iid record_buffer then Err (ExitCode 1)
      else if iid = aa_iid record_buffer then Ok (Some record_buffer, s)
      else Ok (None, s))"

definition storage_save_accept ::
  "mem_storage \<Rightarrow> accept_req \<Rightarrow> (acceptor_record \<times> mem_storage) res" where
  "storage_save_accept s ar =
     (let k = mem_slot (ar_iid ar); record_buffer = ms_records s k in
      rbind (memcpy mem_value_room (aa_value record_buffer) (ar_value ar) (unat (ar_value_size ar)))
        (\<lambda>bytes.
          let r = record_buffer\<lparr>
            aa_acceptor_id := ms_acceptor_id s,
            aa_iid := ar_iid ar,
            aa_ballot := ar_ballot ar,
            aa_value_ballot := ar_ballot ar,
            aa_is_final := 0,
            aa_value_size := ar_value_size ar,
            aa_value := bytes\<rparr>
          in Ok (r, s\<lparr>ms_records := (ms_records s)(k := r)\<rparr>)))"

text \<open>
  A record that is not NULL is the pointer \<open>storage_get_record\<close> returned for this instance,
  that is the buffer itself.
\<close>

definition storage_save_prepare ::
  "mem_storage \<Rightarrow> prepare_req \<Rightarrow> acceptor_record option \<Rightarrow> (acceptor_record \<times> mem_storage) res" where
  "storage_save_prepare s pr rec =
     (let k = mem_slot (pr_iid pr); record_buffer = ms_records s k;
          r = (case rec of
                 None \<Rightarrow> record_buffer\<lparr>
                   aa_acceptor_id := ms_acceptor_id s,
                   aa_iid := pr_iid pr,
                   aa_ballot := pr_ballot pr,
                   aa_value_ballot := 0,
                   aa_is_final := 0,
                   aa_value_size := 0\<rparr>
               | Some _ \<Rightarrow> record_buffer\<lparr>aa_ballot := pr_ballot pr\<rparr>)
      in Ok (r, s\<lparr>ms_records := (ms_records s)(k := r)\<rparr>))"

definition storage_save_final_value ::
  "mem_storage \<Rightarrow> byte list \<Rightarrow> size_t \<Rightarrow> iid_t \<Rightarrow> ballot_t \<Rightarrow> (acceptor_record \<times> mem_storage) res" where
  "storage_save_final_value s value_bytes vsize iid b =
     (let k = mem_slot iid; record_buffer = ms_records s k in
      rbind (memcpy mem_value_room (aa_value record_buffer) value_bytes (unat vsize)) (\<lambda>bytes.
        let r = record_buffer\<lparr>
          aa_iid := iid,
          aa_ballot := b,
          aa_value_ballot := b,
          aa_is_final := 1,
          aa_value_size := vsize,
          aa_value := bytes\<rparr>
        in Ok (r, s\<lparr>ms_records := (ms_records s)(k := r)\<rparr>)))"

definition mem_ops :: "mem_storage storage_ops" where
  "mem_ops =
     \<lparr>so_tx_begin = storage_tx_begin,
      so_tx_commit = storage_tx_commit,
      so_get_record = storage_get_record,
      so_save_accept = storage_save_accept,
      so_save_prepare = storage_save_prepare,
      so_close = storage_close\<rparr>"

lemma mem_ops_sel [simp]:
  "so_tx_begin mem_ops = storage_tx_begin" "so_tx_commit mem_ops = storage_tx_commit"
  "so_get_record mem_ops = storage_get_record" "so_save_accept mem_ops = storage_save_accept"
  "so_save_prepare mem_ops = storage_save_prepare" "so_close mem_ops = storage_close"
  by (simp_all add: mem_ops_def)

section \<open>The contract\<close>

definition mem_lookup :: "mem_storage \<Rightarrow> iid_t \<Rightarrow> acceptor_record option" where
  "mem_lookup s i =
     (if aa_iid (ms_records s (mem_slot i)) = i then Some (ms_records s (mem_slot i)) else None)"

definition mem_live :: "mem_storage \<Rightarrow> iid_t \<Rightarrow> bool" where
  "mem_live s i \<longleftrightarrow> aa_iid (ms_records s (mem_slot i)) \<le> i"

text \<open>Writing a buffer whose instance id is the requested one, over one that is not newer.\<close>

lemma mem_store_write:
  assumes "mem_live s i" "aa_iid r = i"
  shows "store_write mem_lookup mem_live i r s (s\<lparr>ms_records := (ms_records s)(mem_slot i := r)\<rparr>)"
proof -
  let ?t = "s\<lparr>ms_records := (ms_records s)(mem_slot i := r)\<rparr>"
  have other: "mem_live s j \<and> mem_lookup ?t j = mem_lookup s j" if "j \<noteq> i" "mem_live ?t j" for j
  proof (cases "mem_slot j = mem_slot i")
    case True
    with that assms have "i < j" by (simp add: mem_live_def)
    moreover have "aa_iid (ms_records s (mem_slot j)) \<le> i"
      using assms(1) True by (simp add: mem_live_def)
    ultimately have "aa_iid (ms_records s (mem_slot j)) < j" by (rule le_less_trans [rotated])
    then have "aa_iid (ms_records s (mem_slot j)) \<le> j" "aa_iid (ms_records s (mem_slot j)) \<noteq> j"
      by (simp_all add: less_imp_le less_imp_neq)
    moreover have "mem_lookup ?t j = None" using True assms(2) that(1) by (simp add: mem_lookup_def)
    ultimately show ?thesis by (simp only: mem_live_def mem_lookup_def if_False simp_thms)
  next
    case False
    with that show ?thesis by (simp add: mem_live_def mem_lookup_def)
  qed
  with assms show ?thesis
    by (simp add: store_write_def mem_lookup_def mem_live_def)
qed

lemma storage_get_record_Ok:
  "storage_get_record s i = Ok (r, t) \<longleftrightarrow> t = s \<and> mem_live s i \<and> r = mem_lookup s i"
  by (auto simp: storage_get_record_def Let_def mem_live_def mem_lookup_def)

lemma storage_save_accept_Ok:
  assumes "storage_save_accept s ar = Ok (rec, u)"
  shows "is_accept_record (ms_acceptor_id s) ar rec \<and> aa_iid rec = ar_iid ar \<and>
     u = s\<lparr>ms_records := (ms_records s)(mem_slot (ar_iid ar) := rec)\<rparr>"
  using assms
  by (auto simp: storage_save_accept_def Let_def res_simps is_accept_record_def payload_defs)

lemma storage_save_prepare_Ok:
  assumes "storage_save_prepare s pr rec = Ok (r, u)" "rec = mem_lookup s (pr_iid pr)"
  shows "is_prepared_record (ms_acceptor_id s) pr rec r \<and> aa_iid r = pr_iid pr \<and>
     u = s\<lparr>ms_records := (ms_records s)(mem_slot (pr_iid pr) := r)\<rparr>"
  using assms
  by (auto simp: storage_save_prepare_def Let_def is_prepared_record_def is_promise_record_def
      mem_lookup_def split: if_splits)

interpretation mem: record_store mem_ops mem_lookup mem_live ms_acceptor_id "\<lambda>s. True"
proof (unfold_locales, goal_cases)
  case (1 s t)
  then show ?case by (simp add: storage_tx_begin_def)
next
  case (2 s t)
  then show ?case by (simp add: storage_tx_commit_def)
next
  case (3 s i old t)
  then show ?case by (simp add: storage_get_record_Ok)
next
  case (4 s ar old t rec u)
  then have "t = s" "mem_live s (ar_iid ar)" by (simp_all add: storage_get_record_Ok)
  with 4 storage_save_accept_Ok [of s ar rec u] mem_store_write [of s "ar_iid ar" rec]
  show ?case by simp
next
  case (5 s pr old t rec u)
  then have "t = s" "mem_live s (pr_iid pr)" "old = mem_lookup s (pr_iid pr)"
    by (simp_all add: storage_get_record_Ok)
  with 5 storage_save_prepare_Ok [of s pr old rec u] mem_store_write [of s "pr_iid pr" rec]
  show ?case by simp
next
  case (6 s i r)
  then show ?case by (auto simp: mem_lookup_def split: if_splits)
qed

lemma mem_store_ok_open: "mem.store_ok (storage_open junk aid)"
  by (auto simp: mem.store_ok_def mem_lookup_def storage_open_def)

end
