(* ===== verification/Proposer_Spec.thy ===== *)
theory Proposer_Spec
  imports Proposer
begin

text \<open>
  What the proposer does, without its buffers: the same operations on plain lists, total
  functions with no failures, and the proof that the operations of \<open>Proposer\<close> compute them.
  \<open>lists_of\<close> is the abstraction function; on a proposer that satisfies \<open>proposer_inv\<close> every
  operation succeeds (but for the assertion of \<open>proposer_receive_accept_ack\<close> and the overflow
  of the time difference, which stay visible), keeps the invariant and commutes with
  \<open>lists_of\<close>.
\<close>

section \<open>The specification\<close>

record lproposer =
  lp_id :: int
  lp_acceptors :: nat
  lp_values :: "paxos_msg list"
  lp_next :: iid_t
  lp_preps :: "p_instance list"
  lp_accs :: "p_instance list"

definition lists_of :: "proposer \<Rightarrow> lproposer" where
  "lists_of p =
     \<lparr>lp_id = p_id p, lp_acceptors = p_acceptors p, lp_values = clist (p_values p),
      lp_next = p_next_prepare_iid p, lp_preps = clist (p_prepare_instances p),
      lp_accs = clist (p_accept_instances p)\<rparr>"

definition q_clear :: "quorum \<Rightarrow> quorum" where
  "q_clear q = q\<lparr>q_count := 0,
     q_acceptor_ids := replicate (q_quorum q) 0 @ drop (q_quorum q) (q_acceptor_ids q)\<rparr>"

definition q_flagged :: "quorum \<Rightarrow> nat \<Rightarrow> bool" where
  "q_flagged q k \<longleftrightarrow> q_acceptor_ids q ! k \<noteq> 0"

definition q_flag :: "quorum \<Rightarrow> nat \<Rightarrow> quorum" where
  "q_flag q k = q\<lparr>q_count := q_count q + 1, q_acceptor_ids := (q_acceptor_ids q)[k := 1]\<rparr>"

definition q_new :: "(nat \<Rightarrow> int) \<Rightarrow> nat \<Rightarrow> quorum" where
  "q_new junk n = q_clear \<lparr>q_count = 0, q_quorum = paxos_quorum n, q_acceptors = n,
     q_acceptor_ids = map junk [0..<n]\<rparr>"

definition submit_msg :: "byte list \<Rightarrow> paxos_msg" where
  "submit_msg v = \<lparr>msg_data_size = of_nat (length v), msg_type = submit, msg_data = v\<rparr>"

definition next_ballot :: "int \<Rightarrow> ballot_t \<Rightarrow> ballot_t" where
  "next_ballot pid b = (if b > 0 then 10 + b else word_of_int (10 + pid))"

definition iid_index :: "iid_t \<Rightarrow> p_instance list \<Rightarrow> nat option" where
  "iid_index i xs = List.find (\<lambda>k. pi_iid (xs ! k) = i) [0..<length xs]"

definition preempted :: "int \<Rightarrow> timeval \<Rightarrow> p_instance \<Rightarrow> p_instance" where
  "preempted pid now inst = inst\<lparr>pi_ballot := next_ballot pid (pi_ballot inst),
     pi_quorum := q_clear (pi_quorum inst), pi_created_at := now\<rparr>"

definition prepare_of :: "p_instance \<Rightarrow> prepare_req" where
  "prepare_of inst = \<lparr>pr_iid = pi_iid inst, pr_ballot = pi_ballot inst\<rparr>"

text \<open>A promise carries a value that replaces the one of the instance.\<close>

definition adopts :: "p_instance \<Rightarrow> prepare_ack \<Rightarrow> bool" where
  "adopts inst ack \<longleftrightarrow> pa_value_size ack > 0 \<and>
     (pi_value inst = None \<or> pa_value_ballot ack > pi_value_ballot inst)"

definition promised :: "p_instance \<Rightarrow> prepare_ack \<Rightarrow> p_instance" where
  "promised inst ack =
     (let inst1 = inst\<lparr>pi_quorum := q_flag (pi_quorum inst) (nat (pa_acceptor_id ack))\<rparr> in
      if adopts inst ack
      then inst1\<lparr>pi_value_ballot := pa_value_ballot ack,
                 pi_value := Some \<lparr>msg_data_size = pa_value_size ack, msg_type = submit,
                                   msg_data = pa_payload ack\<rparr>\<rparr>
      else inst1)"

definition lp_propose :: "lproposer \<Rightarrow> byte list \<Rightarrow> size_t \<Rightarrow> lproposer" where
  "lp_propose p v n = p\<lparr>lp_values := lp_values p @
     [\<lparr>msg_data_size = n, msg_type = submit, msg_data = take (unat n) v\<rparr>]\<rparr>"

definition lp_prepare :: "(nat \<Rightarrow> int) \<Rightarrow> timeval \<Rightarrow> lproposer \<Rightarrow> prepare_req \<times> lproposer" where
  "lp_prepare junk now p =
     (let inst = \<lparr>pi_iid = lp_next p + 1, pi_ballot = next_ballot (lp_id p) 0, pi_value_ballot = 0,
                  pi_value = None, pi_closed = False, pi_quorum = q_new junk (lp_acceptors p),
                  pi_created_at = now\<rparr>
      in (prepare_of inst, p\<lparr>lp_next := lp_next p + 1, lp_preps := lp_preps p @ [inst]\<rparr>))"

definition lp_receive_prepare_ack ::
  "timeval \<Rightarrow> lproposer \<Rightarrow> prepare_ack \<Rightarrow> prepare_req option \<times> lproposer" where
  "lp_receive_prepare_ack now p ack =
     (case iid_index (pa_iid ack) (lp_preps p) of
        None \<Rightarrow> (None, p)
      | Some i \<Rightarrow>
          let inst = lp_preps p ! i in
          if pa_ballot ack < pi_ballot inst then (None, p)
          else if pa_ballot ack = pi_ballot inst then
            if q_flagged (pi_quorum inst) (nat (pa_acceptor_id ack)) then (None, p)
            else (None, p\<lparr>lp_preps := (lp_preps p)[i := promised inst ack],
                          lp_values := lp_values p @
                            (case pi_value inst of
                               Some old \<Rightarrow> if adopts inst ack then [old] else []
                             | None \<Rightarrow> [])\<rparr>)
          else let inst1 = preempted (lp_id p) now inst in
            (Some (prepare_of inst1), p\<lparr>lp_preps := (lp_preps p)[i := inst1]\<rparr>))"

definition accept_of :: "p_instance \<Rightarrow> paxos_msg \<Rightarrow> accept_req" where
  "accept_of inst v = \<lparr>ar_iid = pi_iid inst, ar_ballot = pi_ballot inst,
     ar_value_size = msg_data_size v, ar_value = msg_payload v\<rparr>"

definition lp_accept :: "lproposer \<Rightarrow> accept_req option \<times> lproposer" where
  "lp_accept p =
     (case lp_preps p of
        [] \<Rightarrow> (None, p)
      | inst # rest \<Rightarrow>
          if \<not> quorum_reached (pi_quorum inst) then (None, p)
          else
            (case (pi_value inst, lp_values p) of
               (None, []) \<Rightarrow> (None, p)
             | (None, v # vs) \<Rightarrow>
                 (Some (accept_of inst v),
                  p\<lparr>lp_preps := rest, lp_values := vs,
                    lp_accs := lp_accs p @
                      [inst\<lparr>pi_value := Some v, pi_quorum := q_clear (pi_quorum inst)\<rparr>]\<rparr>)
             | (Some v, vs) \<Rightarrow>
                 (Some (accept_of inst v),
                  p\<lparr>lp_preps := rest,
                    lp_accs := lp_accs p @
                      [inst\<lparr>pi_value := Some v, pi_quorum := q_clear (pi_quorum inst)\<rparr>]\<rparr>)))"

definition without_iid :: "iid_t \<Rightarrow> p_instance list \<Rightarrow> p_instance list" where
  "without_iid i = filter (\<lambda>x. pi_iid x \<noteq> i)"

definition lp_receive_accept_ack ::
  "timeval \<Rightarrow> lproposer \<Rightarrow> accept_ack \<Rightarrow> prepare_req option \<times> lproposer" where
  "lp_receive_accept_ack now p ack =
     (case iid_index (aa_iid ack) (lp_accs p) of
        None \<Rightarrow> (None, p)
      | Some i \<Rightarrow>
          let inst = lp_accs p ! i in
          if aa_ballot ack = pi_ballot inst then
            if q_flagged (pi_quorum inst) (nat (aa_acceptor_id ack)) then (None, p)
            else
              let q = q_flag (pi_quorum inst) (nat (aa_acceptor_id ack)) in
              if quorum_reached q then (None, p\<lparr>lp_accs := without_iid (aa_iid ack) (lp_accs p)\<rparr>)
              else (None, p\<lparr>lp_accs := (lp_accs p)[i := inst\<lparr>pi_quorum := q\<rparr>]\<rparr>)
          else
            let inst1 = preempted (lp_id p) now inst in
            (Some (prepare_of inst1),
             p\<lparr>lp_accs := without_iid (aa_iid ack) (lp_accs p), lp_preps := inst1 # lp_preps p\<rparr>))"

text \<open>
  The assertion of \<open>proposer_receive_accept_ack\<close>: a record with the ballot of the pending instance
  has this ballot as value ballot too. Records with another ballot (the answers to rejected requests)
  and records of instances that are not pending are not restricted.
\<close>

definition ack_consistent :: "p_instance list \<Rightarrow> accept_ack \<Rightarrow> bool" where
  "ack_consistent accs ack =
     list_all (\<lambda>x. pi_iid x = aa_iid ack \<and> pi_ballot x = aa_ballot ack \<longrightarrow>
       aa_value_ballot ack = aa_ballot ack) accs"

section \<open>The invariant\<close>

definition msg_ok :: "paxos_msg \<Rightarrow> bool" where
  "msg_ok v \<longleftrightarrow> length (msg_data v) = unat (msg_data_size v)"

definition p_instance_inv :: "nat \<Rightarrow> p_instance \<Rightarrow> bool" where
  "p_instance_inv n inst \<longleftrightarrow> quorum_inv n (pi_quorum inst) \<and> \<not> pi_closed inst \<and>
     (\<forall>v. pi_value inst = Some v \<longrightarrow> msg_ok v)"

definition lp_inv :: "nat \<Rightarrow> lproposer \<Rightarrow> bool" where
  "lp_inv n p \<longleftrightarrow> 0 < n \<and> lp_acceptors p = n \<and>
     (\<forall>inst \<in> set (lp_preps p) \<union> set (lp_accs p). p_instance_inv n inst) \<and>
     (\<forall>inst \<in> set (lp_accs p). pi_value inst \<noteq> None) \<and>
     (\<forall>inst \<in> set (lp_preps p) \<union> set (lp_accs p). 0 < pi_iid inst \<and> pi_iid inst \<le> lp_next p) \<and>
     (\<forall>v \<in> set (lp_values p). msg_ok v) \<and>
     distinct (map pi_iid (lp_preps p @ lp_accs p))"

definition proposer_inv :: "nat \<Rightarrow> proposer \<Rightarrow> bool" where
  "proposer_inv n p \<longleftrightarrow> carray_inv (p_values p) \<and> carray_inv (p_prepare_instances p) \<and>
     carray_inv (p_accept_instances p) \<and> lp_inv n (lists_of p)"

lemma lists_of_sel [simp]:
  "lp_id (lists_of p) = p_id p" "lp_acceptors (lists_of p) = p_acceptors p"
  "lp_values (lists_of p) = clist (p_values p)" "lp_next (lists_of p) = p_next_prepare_iid p"
  "lp_preps (lists_of p) = clist (p_prepare_instances p)"
  "lp_accs (lists_of p) = clist (p_accept_instances p)"
  by (simp_all add: lists_of_def)

lemma lists_of_upd [simp]:
  "lists_of (p\<lparr>p_values := c\<rparr>) = (lists_of p)\<lparr>lp_values := clist c\<rparr>"
  "lists_of (p\<lparr>p_prepare_instances := d\<rparr>) = (lists_of p)\<lparr>lp_preps := clist d\<rparr>"
  "lists_of (p\<lparr>p_accept_instances := d\<rparr>) = (lists_of p)\<lparr>lp_accs := clist d\<rparr>"
  "lists_of (p\<lparr>p_next_prepare_iid := i\<rparr>) = (lists_of p)\<lparr>lp_next := i\<rparr>"
  by (simp_all add: lists_of_def)

lemma proposer_invD:
  assumes "proposer_inv n p"
  shows "carray_inv (p_values p)" "carray_inv (p_prepare_instances p)"
    "carray_inv (p_accept_instances p)" "lp_inv n (lists_of p)" "0 < n" "p_acceptors p = n"
  using assms by (auto simp: proposer_inv_def lp_inv_def)

section \<open>Refinement of the helpers\<close>

lemma quorum_clear_q: "quorum_inv n q \<Longrightarrow> quorum_clear q = Ok (q_clear q)"
  by (simp add: quorum_clear_ok q_clear_def) (simp add: quorum_inv_def)

lemma quorum_init_q: "0 < n \<Longrightarrow> quorum_init junk n = Ok (q_new junk n)"
  by (simp add: quorum_init_def q_new_def quorum_clear_q [of n] quorum_inv_def)

lemma quorum_add_q:
  assumes "quorum_inv n q" "0 \<le> i" "i < int n"
  shows "quorum_add q i =
     Ok (if q_flagged q (nat i) then (False, q) else (True, q_flag q (nat i)))"
  using assms
  by (simp add: quorum_add_def int_index_def quorum_inv_def q_flagged_def q_flag_def)

lemma q_clear_inv [simp]: "quorum_inv n q \<Longrightarrow> quorum_inv n (q_clear q)"
  using paxos_quorum_le [of n] by (auto simp: q_clear_def quorum_inv_def)

lemma q_flag_inv [simp]: "quorum_inv n q \<Longrightarrow> quorum_inv n (q_flag q k)"
  by (simp add: q_flag_def quorum_inv_def)

lemma q_new_inv [simp]: "0 < n \<Longrightarrow> quorum_inv n (q_new junk n)"
  unfolding q_new_def by (rule q_clear_inv) (simp add: quorum_inv_def)

lemma counted_clear: "counted (q_clear q) {}"
  by (simp add: counted_def q_clear_def)

lemma counted_new: "counted (q_new junk n) {}"
  by (simp add: q_new_def counted_clear)

lemma counted_flag:
  assumes "quorum_inv n q" "counted q S" "k < n" "\<not> q_flagged q k"
  shows "counted (q_flag q k) (insert k S)"
proof -
  have "quorum_add q (int k) = Ok (True, q_flag q k)"
    using quorum_add_q [OF assms(1), of "int k"] assms(3,4) by simp
  from quorum_add_counted(2) [OF this assms(2)] show ?thesis by simp
qed

lemma next_ballot_q: "proposer_next_ballot p b = next_ballot (p_id p) b"
  by (simp add: proposer_next_ballot_def next_ballot_def MAX_N_OF_PROPOSERS_def)

lemma prepare_preempt_q:
  "quorum_inv n (pi_quorum inst) \<Longrightarrow>
    prepare_preempt p now inst =
      Ok (prepare_of (preempted (p_id p) now inst), preempted (p_id p) now inst)"
  by (simp add: prepare_preempt_def quorum_clear_q next_ballot_q preempted_def prepare_of_def Let_def)

lemma instance_find_q:
  assumes "carray_inv c"
  shows "instance_find c i = Ok (iid_index i (clist c))"
  using cq.find_loop [OF assms, of "\<lambda>x. pi_iid x = i"]
  by (simp add: instance_find_def iid_index_def carray_count_def)

lemma instance_remove_q:
  assumes "carray_inv c"
  shows "\<exists>d. instance_remove c inst = Ok d \<and> carray_inv d \<and>
     clist d = without_iid (pi_iid inst) (clist c)"
proof -
  have "(\<lambda>p. instance_match inst p = 0) = (\<lambda>x. pi_iid x \<noteq> pi_iid inst)"
    by (auto simp: instance_match_def)
  with carray_map_ok [OF assms, of instance_match inst 0] show ?thesis
    by (auto simp: instance_remove_def carray_reject_def without_iid_def)
qed

lemma iid_index_Some:
  assumes "iid_index i xs = Some k"
  shows "k < length xs" "pi_iid (xs ! k) = i" "xs ! k \<in> set xs"
  using assms by (auto simp: iid_index_def find_Some_iff)

lemma iid_index_None: "iid_index i xs = None \<longleftrightarrow> i \<notin> pi_iid ` set xs"
proof -
  have "iid_index i xs = None \<longleftrightarrow> (\<forall>k < length xs. pi_iid (xs ! k) \<noteq> i)"
    by (auto simp: iid_index_def find_None_iff)
  also have "\<dots> \<longleftrightarrow> i \<notin> pi_iid ` set xs"
    by (metis imageE image_eqI in_set_conv_nth)
  finally show ?thesis .
qed

lemma wrap_value_q:
  "unat n \<le> length v \<Longrightarrow>
    wrap_value v n = Ok \<lparr>msg_data_size = n, msg_type = submit, msg_data = take (unat n) v\<rparr>"
  by (simp add: wrap_value_def)

lemma accept_req_of_q:
  "pi_value inst = Some v \<Longrightarrow> msg_ok v \<Longrightarrow> accept_req_of inst = Ok (accept_of inst v)"
  by (simp add: accept_req_of_def accept_of_def msg_ok_def)

lemma accept_scan_q:
  assumes inv: "carray_inv c" and closed: "\<forall>inst \<in> set (clist c). \<not> pi_closed inst"
  shows "accept_scan c = Ok (case clist c of [] \<Rightarrow> None
     | inst # _ \<Rightarrow> if quorum_reached (pi_quorum inst) then Some inst else None, c)"
  using closed
  by (subst accept_scan.simps) (simp add: carray_front_ok [OF inv] split: list.splits)

section \<open>The invariant is kept\<close>

lemma lp_invD:
  assumes "lp_inv n p"
  shows "0 < n" "lp_acceptors p = n"
    "\<And>x. x \<in> set (lp_preps p) \<Longrightarrow> p_instance_inv n x"
    "\<And>x. x \<in> set (lp_accs p) \<Longrightarrow> p_instance_inv n x"
    "\<And>x. x \<in> set (lp_accs p) \<Longrightarrow> pi_value x \<noteq> None"
    "\<And>x. x \<in> set (lp_preps p) \<union> set (lp_accs p) \<Longrightarrow> 0 < pi_iid x \<and> pi_iid x \<le> lp_next p"
    "\<And>v. v \<in> set (lp_values p) \<Longrightarrow> msg_ok v"
    "distinct (map pi_iid (lp_preps p @ lp_accs p))"
  using assms unfolding lp_inv_def by auto

lemma p_instance_inv_preempted [simp]:
  "p_instance_inv n inst \<Longrightarrow> p_instance_inv n (preempted pid now inst)"
  by (simp add: p_instance_inv_def preempted_def)

lemma p_instance_inv_promised [simp]:
  "p_instance_inv n inst \<Longrightarrow> length (pa_value ack) \<ge> unat (pa_value_size ack) \<Longrightarrow>
    p_instance_inv n (promised inst ack)"
  by (auto simp: p_instance_inv_def promised_def msg_ok_def pa_payload_def Let_def)

lemma pi_iid_steps [simp]:
  "pi_iid (preempted pid now inst) = pi_iid inst" "pi_iid (promised inst ack) = pi_iid inst"
  by (simp_all add: preempted_def promised_def Let_def)

text \<open>Replacing an instance by one with the same id, in either queue.\<close>

lemma map_update_same: "i < length xs \<Longrightarrow> f x = f (xs ! i) \<Longrightarrow> map f (xs[i := x]) = map f xs"
  by (simp add: map_update list_update_same_conv)

lemma lp_inv_set_prep:
  assumes "lp_inv n p" "i < length (lp_preps p)" "pi_iid x = pi_iid (lp_preps p ! i)"
    "p_instance_inv n x"
  shows "lp_inv n (p\<lparr>lp_preps := (lp_preps p)[i := x]\<rparr>)"
proof -
  note D = lp_invD [OF assms(1)]
  have sub: "set ((lp_preps p)[i := x]) \<subseteq> insert x (set (lp_preps p))"
    by (rule set_update_subset_insert)
  have "0 < pi_iid x \<and> pi_iid x \<le> lp_next p"
    using D(6) [of "lp_preps p ! i"] assms(2,3) by simp
  with sub assms(4) D show ?thesis
    unfolding lp_inv_def using map_update_same [OF assms(2), of pi_iid x] assms(3)
    by (auto simp: subset_iff)
qed

lemma lp_inv_set_acc:
  assumes "lp_inv n p" "i < length (lp_accs p)" "pi_iid x = pi_iid (lp_accs p ! i)"
    "p_instance_inv n x" "pi_value x \<noteq> None"
  shows "lp_inv n (p\<lparr>lp_accs := (lp_accs p)[i := x]\<rparr>)"
proof -
  note D = lp_invD [OF assms(1)]
  have sub: "set ((lp_accs p)[i := x]) \<subseteq> insert x (set (lp_accs p))"
    by (rule set_update_subset_insert)
  have "0 < pi_iid x \<and> pi_iid x \<le> lp_next p"
    using D(6) [of "lp_accs p ! i"] assms(2,3) by simp
  with sub assms(4,5) D show ?thesis
    unfolding lp_inv_def using map_update_same [OF assms(2), of pi_iid x] assms(3)
    by (auto simp: subset_iff)
qed

lemma lp_inv_add_values:
  "lp_inv n p \<Longrightarrow> \<forall>v \<in> set vs. msg_ok v \<Longrightarrow> lp_inv n (p\<lparr>lp_values := lp_values p @ vs\<rparr>)"
  by (auto simp: lp_inv_def)

lemma lp_inv_without:
  "lp_inv n p \<Longrightarrow> lp_inv n (p\<lparr>lp_accs := without_iid i (lp_accs p)\<rparr>)"
  by (auto simp: lp_inv_def without_iid_def distinct_map_filter)

lemma lp_propose_inv:
  "lp_inv n p \<Longrightarrow> unat k \<le> length v \<Longrightarrow> lp_inv n (lp_propose p v k)"
  unfolding lp_propose_def by (rule lp_inv_add_values) (auto simp: msg_ok_def)

lemma lp_prepare_inv:
  assumes "lp_inv n p" "unat (lp_next p) + 1 < 2 ^ 32"
  shows "lp_inv n (snd (lp_prepare junk now p))"
proof -
  note D = lp_invD [OF assms(1)]
  have up: "lp_next p < lp_next p + 1"
    using assms(2) by (simp add: word_less_nat_alt unat_plus_no_wrap)
  have lt: "\<And>x. x \<in> set (lp_preps p) \<union> set (lp_accs p) \<Longrightarrow> pi_iid x < lp_next p + 1"
    using D(6) up by (meson order_le_less_trans)
  have fresh: "lp_next p + 1 \<notin> pi_iid ` (set (lp_preps p) \<union> set (lp_accs p))"
    using lt by force
  have pos: "0 < lp_next p + 1"
    by (rule order_le_less_trans [OF word_zero_le up])
  have le: "\<And>x. x \<in> set (lp_preps p) \<union> set (lp_accs p) \<Longrightarrow> pi_iid x \<le> lp_next p + 1"
    using lt by (meson less_imp_le)
  show ?thesis
    using D pos le fresh unfolding lp_inv_def lp_prepare_def
    by (auto simp: p_instance_inv_def Let_def)
qed

lemma lp_receive_prepare_ack_inv:
  assumes inv: "lp_inv n p" and len: "unat (pa_value_size ack) \<le> length (pa_value ack)"
  shows "lp_inv n (snd (lp_receive_prepare_ack now p ack))"
proof (cases "iid_index (pa_iid ack) (lp_preps p)")
  case None
  then show ?thesis using inv by (simp add: lp_receive_prepare_ack_def)
next
  case (Some i)
  note I = iid_index_Some [OF Some]
  let ?inst = "lp_preps p ! i"
  let ?vs = "case pi_value ?inst of Some old \<Rightarrow> if adopts ?inst ack then [old] else [] | None \<Rightarrow> []"
  have pinv: "p_instance_inv n ?inst" using lp_invD(3) [OF inv I(3)] .
  then have vs: "\<forall>v \<in> set ?vs. msg_ok v"
    by (auto simp: p_instance_inv_def split: option.splits if_splits)
  have "lp_inv n (p\<lparr>lp_preps := (lp_preps p)[i := promised ?inst ack]\<rparr>)"
    by (rule lp_inv_set_prep [OF inv I(1)]) (simp_all add: pinv len)
  from lp_inv_add_values [OF this vs]
  have 1: "lp_inv n (p\<lparr>lp_preps := (lp_preps p)[i := promised ?inst ack],
      lp_values := lp_values p @ ?vs\<rparr>)"
    by simp
  have 2: "lp_inv n (p\<lparr>lp_preps := (lp_preps p)[i := preempted (lp_id p) now ?inst]\<rparr>)"
    by (rule lp_inv_set_prep [OF inv I(1)]) (simp_all add: pinv)
  show ?thesis
    using inv 1 2 by (simp add: lp_receive_prepare_ack_def Some Let_def)
qed

lemma lp_accept_inv:
  assumes inv: "lp_inv n p"
  shows "lp_inv n (snd (lp_accept p))"
proof (cases "lp_preps p")
  case (Cons inst rest)
  have move: "lp_inv n (p\<lparr>lp_preps := rest, lp_values := vs, lp_accs := lp_accs p @
      [inst\<lparr>pi_value := Some v, pi_quorum := q_clear (pi_quorum inst)\<rparr>]\<rparr>)"
    if "msg_ok v" "set vs \<subseteq> set (lp_values p)" for v vs
    using lp_invD [OF inv] Cons that by (auto simp: lp_inv_def p_instance_inv_def)
  have val: "msg_ok v" if "pi_value inst = Some v" for v
    using lp_invD(3) [OF inv, of inst] Cons that by (simp add: p_instance_inv_def)
  have vals: "msg_ok v" if "v \<in> set (lp_values p)" for v
    using lp_invD(7) [OF inv that] .
  show ?thesis
    using inv val vals move [of _ "lp_values p"] move [of "hd (lp_values p)" "tl (lp_values p)"]
    by (auto simp: lp_accept_def Cons subset_insertI split: option.splits list.splits)
qed (simp add: lp_accept_def inv)

lemma lp_receive_accept_ack_inv:
  assumes inv: "lp_inv n p"
  shows "lp_inv n (snd (lp_receive_accept_ack now p ack))"
proof (cases "iid_index (aa_iid ack) (lp_accs p)")
  case None
  then show ?thesis using inv by (simp add: lp_receive_accept_ack_def)
next
  case (Some i)
  note I = iid_index_Some [OF Some]
  let ?inst = "lp_accs p ! i"
  have pinv: "p_instance_inv n ?inst" "pi_value ?inst \<noteq> None"
    using lp_invD(4,5) [OF inv I(3)] .
  have 1: "lp_inv n (p\<lparr>lp_accs := (lp_accs p)[i := ?inst\<lparr>pi_quorum := q_flag (pi_quorum ?inst) k\<rparr>]\<rparr>)"
    for k
    by (rule lp_inv_set_acc [OF inv I(1)]) (use pinv in \<open>simp_all add: p_instance_inv_def\<close>)
  have iid: "0 < aa_iid ack" "aa_iid ack \<le> lp_next p" "aa_iid ack \<notin> pi_iid ` set (lp_preps p)"
    using lp_invD(6,8) [OF inv] I(2,3) by (force, force, force)
  have 2: "lp_inv n (p\<lparr>lp_accs := without_iid (aa_iid ack) (lp_accs p),
      lp_preps := preempted (lp_id p) now ?inst # lp_preps p\<rparr>)"
    using lp_inv_without [OF inv, of "aa_iid ack"] pinv(1) iid I(2)
    by (auto simp: lp_inv_def without_iid_def)
  show ?thesis
    using inv 1 2 lp_inv_without [OF inv]
    by (simp add: lp_receive_accept_ack_def Some Let_def)
qed

section \<open>Refinement of the operations\<close>

text \<open>
  \<open>implements n r s p\<close>: the call \<open>r\<close> succeeds with the answer of the specification \<open>s\<close>, in a
  state whose lists are those of \<open>s\<close>, with the buffers well formed.
\<close>

definition buffers_inv :: "proposer \<Rightarrow> bool" where
  "buffers_inv p \<longleftrightarrow> carray_inv (p_values p) \<and> carray_inv (p_prepare_instances p) \<and>
     carray_inv (p_accept_instances p)"

definition implements :: "('a \<times> proposer) res \<Rightarrow> 'a \<times> lproposer \<Rightarrow> bool" where
  "implements r s \<longleftrightarrow> (\<exists>p. r = Ok (fst s, p) \<and> buffers_inv p \<and> lists_of p = snd s)"

lemma proposer_inv_iff: "proposer_inv n p \<longleftrightarrow> buffers_inv p \<and> lp_inv n (lists_of p)"
  by (auto simp: proposer_inv_def buffers_inv_def)

lemma implements_Ok [simp]:
  "implements (Ok (a, p)) (b, l) \<longleftrightarrow> a = b \<and> buffers_inv p \<and> lists_of p = l"
  by (auto simp: implements_def)

lemma implements_inv:
  assumes "implements r s" "lp_inv n (snd s)"
  shows "\<exists>p. r = Ok (fst s, p) \<and> proposer_inv n p \<and> lists_of p = snd s"
  using assms by (auto simp: implements_def proposer_inv_iff)

lemma proposer_propose_refines:
  assumes "buffers_inv p" "unat k \<le> length v"
  shows "\<exists>p1. proposer_propose p v k = Ok p1 \<and> buffers_inv p1 \<and>
     lists_of p1 = lp_propose (lists_of p) v k"
  using assms cq.push_back [of "p_values p" "\<lparr>msg_data_size = k, msg_type = submit, msg_data = take (unat k) v\<rparr>"]
  by (auto simp: proposer_propose_def wrap_value_q lp_propose_def buffers_inv_def)

lemma proposer_prepare_refines:
  assumes "proposer_inv n p"
  shows "implements (proposer_prepare junk now p) (lp_prepare junk now (lists_of p))"
proof -
  note D = proposer_invD [OF assms]
  let ?inst = "\<lparr>pi_iid = p_next_prepare_iid p + 1, pi_ballot = next_ballot (p_id p) 0,
    pi_value_ballot = 0, pi_value = None, pi_closed = False,
    pi_quorum = q_new junk (p_acceptors p), pi_created_at = now\<rparr>"
  obtain c where c: "carray_push_back (p_prepare_instances p) ?inst = Ok c" "carray_inv c"
    "clist c = clist (p_prepare_instances p) @ [?inst]"
    using cq.push_back [OF D(2)] by blast
  show ?thesis
    using D c
    by (simp add: lp_prepare_def proposer_prepare_def p_instance_new_def quorum_init_q next_ballot_q
        prepare_of_def buffers_inv_def Let_def)
qed

lemma proposer_receive_prepare_ack_refines:
  assumes inv: "proposer_inv n p" and aid: "0 \<le> pa_acceptor_id ack" "pa_acceptor_id ack < int n"
    and len: "unat (pa_value_size ack) \<le> length (pa_value ack)"
  shows "implements (proposer_receive_prepare_ack now p ack)
     (lp_receive_prepare_ack now (lists_of p) ack)"
proof (cases "iid_index (pa_iid ack) (clist (p_prepare_instances p))")
  case None
  then show ?thesis
    using proposer_invD [OF inv] inv
    by (simp add: proposer_receive_prepare_ack_def lp_receive_prepare_ack_def instance_find_q
        proposer_inv_iff)
next
  case (Some i)
  note D = proposer_invD [OF inv] and I = iid_index_Some [OF Some]
  let ?c = "p_prepare_instances p"
  let ?inst = "clist ?c ! i"
  have bufs: "buffers_inv p" using inv by (simp add: proposer_inv_iff)
  have qinv: "quorum_inv n (pi_quorum ?inst)"
    using lp_invD(3) [OF D(4)] I(3) by (simp add: p_instance_inv_def)
  have set: "\<exists>d. carray_set ?c (int i) x = Ok d \<and> carray_inv d \<and> clist d = (clist ?c)[i := x]" for x
    using cq.set_item [OF D(2) I(1)] .
  obtain d1 where d1: "carray_set ?c (int i) (promised ?inst ack) = Ok d1" "carray_inv d1"
    "clist d1 = (clist ?c)[i := promised ?inst ack]" using set by blast
  obtain d2 where d2: "carray_set ?c (int i) (preempted (p_id p) now ?inst) = Ok d2" "carray_inv d2"
    "clist d2 = (clist ?c)[i := preempted (p_id p) now ?inst]" using set by blast
  have wrap: "wrap_value (pa_value ack) (pa_value_size ack) =
      Ok \<lparr>msg_data_size = pa_value_size ack, msg_type = submit, msg_data = pa_payload ack\<rparr>"
    using len by (simp add: wrap_value_q pa_payload_def)
  have push: "\<exists>vs. carray_push_back (p_values p) old = Ok vs \<and> carray_inv vs \<and>
      clist vs = clist (p_values p) @ [old]" for old
    using cq.push_back [OF D(1)] .
  note red = proposer_receive_prepare_ack_def lp_receive_prepare_ack_def instance_find_q [OF D(2)]
    Some carray_item_ok [OF D(2)] I(1) [unfolded length_clist]
  consider "pa_ballot ack < pi_ballot ?inst" | "pa_ballot ack = pi_ballot ?inst"
    | "pa_ballot ack > pi_ballot ?inst"
    by (rule linorder_cases)
  then show ?thesis
  proof cases
    case 1
    then show ?thesis using bufs by (simp add: red)
  next
    case 3
    then have "\<not> pa_ballot ack < pi_ballot ?inst" "pa_ballot ack \<noteq> pi_ballot ?inst" by auto
    then show ?thesis
      using d2 bufs
      by (simp add: red prepare_preempt_q [OF qinv] Let_def buffers_inv_def)
  next
    case 2
    obtain vs where vs: "pi_value ?inst = Some old \<Longrightarrow> carray_push_back (p_values p) old = Ok vs \<and>
        carray_inv vs \<and> clist vs = clist (p_values p) @ [old]" for old
      using push by (cases "pi_value ?inst") auto
    show ?thesis
      using 2 d1 bufs vs
      by (cases "pi_value ?inst"; cases "adopts ?inst ack")
        (auto simp: red quorum_add_q [OF qinv aid] wrap Let_def promised_def adopts_def
          buffers_inv_def)
  qed
qed

lemma proposer_accept_refines:
  assumes inv: "proposer_inv n p"
  shows "implements (proposer_accept p) (lp_accept (lists_of p))"
proof -
  note D = proposer_invD [OF inv]
  let ?c = "p_prepare_instances p"
  have bufs: "buffers_inv p" using inv by (simp add: proposer_inv_iff)
  have closed: "\<forall>inst \<in> set (clist ?c). \<not> pi_closed inst"
    using lp_invD(3) [OF D(4)] by (simp add: p_instance_inv_def)
  note scan = accept_scan_q [OF D(2) closed]
  show ?thesis
  proof (cases "clist ?c")
    case Nil
    then show ?thesis using bufs by (simp add: proposer_accept_def scan lp_accept_def)
  next
    case (Cons inst rest)
    have pinv: "p_instance_inv n inst" using lp_invD(3) [OF D(4)] Cons by simp
    then have qinv: "quorum_inv n (pi_quorum inst)" by (simp add: p_instance_inv_def)
    obtain d where d: "carray_pop_front ?c = Ok (Some inst, d)" "carray_inv d" "clist d = rest"
      using cq.pop_front [OF D(2)] Cons by auto
    obtain vs where vs: "carray_pop_front (p_values p) =
        Ok (case clist (p_values p) of [] \<Rightarrow> None | x # _ \<Rightarrow> Some x, vs)"
      "carray_inv vs" "clist vs = tl (clist (p_values p))"
      using cq.pop_front [OF D(1)] by blast
    define started where
      "started v = inst\<lparr>pi_value := Some v, pi_quorum := q_clear (pi_quorum inst)\<rparr>" for v
    have push: "\<exists>a. carray_push_back (p_accept_instances p) (started v) = Ok a \<and> carray_inv a \<and>
        clist a = clist (p_accept_instances p) @ [started v]" for v
      using cq.push_back [OF D(3)] .
    have req: "msg_ok v \<Longrightarrow> accept_req_of (started v) = Ok (accept_of inst v)" for v
      by (simp add: accept_req_of_q started_def) (simp add: accept_of_def)
    have ok: "pi_value inst = Some v \<Longrightarrow> msg_ok v" "v \<in> set (clist (p_values p)) \<Longrightarrow> msg_ok v" for v
      using pinv lp_invD(7) [OF D(4)] by (simp_all add: p_instance_inv_def)
    note red = proposer_accept_def lp_accept_def scan Cons d vs quorum_clear_q [OF qinv]
      started_def [symmetric] buffers_inv_def Let_def
    show ?thesis
    proof (cases "pi_value inst")
      case None
      show ?thesis
      proof (cases "clist (p_values p)")
        case Nil
        then show ?thesis using bufs vs None by (simp add: red lists_of_def)
      next
        case (Cons v ws)
        then show ?thesis using bufs None req [OF ok(2), of v] push [of v] by (auto simp: red)
      qed
    next
      case (Some v)
      then show ?thesis using bufs req [OF ok(1), of v] push [of v] by (auto simp: red)
    qed
  qed
qed

lemma ack_consistent_find:
  assumes "lp_inv n l" "iid_index (aa_iid ack) (lp_accs l) = Some i"
  shows "ack_consistent (lp_accs l) ack \<longleftrightarrow>
    (aa_ballot ack = pi_ballot (lp_accs l ! i) \<longrightarrow> aa_value_ballot ack = aa_ballot ack)"
proof -
  note I = iid_index_Some [OF assms(2)]
  have "inj_on pi_iid (set (lp_accs l))" using assms(1) by (simp add: lp_inv_def distinct_map)
  with I(2,3) have "x = lp_accs l ! i" if "x \<in> set (lp_accs l)" "pi_iid x = aa_iid ack" for x
    using that by (metis inj_onD)
  with I show ?thesis by (auto simp: ack_consistent_def list_all_iff)
qed

lemma proposer_receive_accept_ack_cases:
  assumes inv: "proposer_inv n p" and aid: "0 \<le> aa_acceptor_id ack" "aa_acceptor_id ack < int n"
  shows "if ack_consistent (lp_accs (lists_of p)) ack
    then implements (proposer_receive_accept_ack now p ack) (lp_receive_accept_ack now (lists_of p) ack)
    else proposer_receive_accept_ack now p ack = Err AssertFailed"
proof (cases "iid_index (aa_iid ack) (clist (p_accept_instances p))")
  case None
  then have "ack_consistent (lp_accs (lists_of p)) ack"
    by (auto simp: ack_consistent_def list_all_iff iid_index_None image_iff)
  with None show ?thesis
    using proposer_invD [OF inv] inv
    by (simp add: proposer_receive_accept_ack_def lp_receive_accept_ack_def instance_find_q
        proposer_inv_iff)
next
  case (Some i)
  note D = proposer_invD [OF inv] and I = iid_index_Some [OF Some]
  note con = ack_consistent_find [OF D(4), of ack i, unfolded lists_of_sel, OF Some]
  let ?c = "p_accept_instances p"
  let ?inst = "clist ?c ! i"
  have bufs: "buffers_inv p" using inv by (simp add: proposer_inv_iff)
  have qinv: "quorum_inv n (pi_quorum ?inst)"
    using lp_invD(4) [OF D(4)] I(3) by (simp add: p_instance_inv_def)
  let ?q = "q_flag (pi_quorum ?inst) (nat (aa_acceptor_id ack))"
  obtain d where d: "carray_set ?c (int i) (?inst\<lparr>pi_quorum := ?q\<rparr>) = Ok d" "carray_inv d"
    "clist d = (clist ?c)[i := ?inst\<lparr>pi_quorum := ?q\<rparr>]"
    using cq.set_item [OF D(3) I(1)] by blast
  obtain e where e: "instance_remove ?c ?inst = Ok e" "carray_inv e"
    "clist e = without_iid (aa_iid ack) (clist ?c)"
    using instance_remove_q [OF D(3)] I(2) by metis
  have e': "instance_remove ?c (?inst\<lparr>pi_quorum := ?q\<rparr>) = Ok e"
    using e(1) by (simp add: instance_remove_def carray_reject_def carray_map_def instance_match_def)
  obtain f where f: "carray_push_front (p_prepare_instances p) (preempted (p_id p) now ?inst) = Ok f"
    "carray_inv f" "clist f = preempted (p_id p) now ?inst # clist (p_prepare_instances p)"
    using cq.push_front [OF D(2)] by blast
  show ?thesis
    using bufs d e e' f
    by (cases "aa_value_ballot ack = aa_ballot ack"; cases "aa_ballot ack = pi_ballot ?inst")
      (auto simp: con rassert_def proposer_receive_accept_ack_def lp_receive_accept_ack_def
        instance_find_q [OF D(3)] Some carray_item_ok [OF D(3)] I(1) [unfolded length_clist]
        quorum_add_q [OF qinv aid] prepare_preempt_q [OF qinv] Let_def buffers_inv_def
        proposer_inv_iff)
qed

lemma proposer_receive_accept_ack_refines:
  assumes "proposer_inv n p" "0 \<le> aa_acceptor_id ack" "aa_acceptor_id ack < int n"
    and "proposer_receive_accept_ack now p ack = Ok r"
  shows "implements (proposer_receive_accept_ack now p ack) (lp_receive_accept_ack now (lists_of p) ack)"
  using proposer_receive_accept_ack_cases [OF assms(1-3), of now] assms(4) by (simp split: if_splits)

section \<open>Timeouts\<close>

text \<open>
  \<open>expired cfg t inst\<close>: the instance has no majority yet and its last request is older than the
  timeout. Both iterators answer with the request of the next such instance and restart its
  clock; they change nothing else.
\<close>

definition expired :: "paxos_config \<Rightarrow> timeval \<Rightarrow> p_instance \<Rightarrow> bool" where
  "expired cfg t inst \<longleftrightarrow> \<not> quorum_reached (pi_quorum inst) \<and> instance_has_timedout cfg inst t = Ok True"

text \<open>The clocks of the list differ from \<open>t\<close> by less than what fits an \<open>int\<close>.\<close>

definition clocks_ok :: "timeval \<Rightarrow> p_instance list \<Rightarrow> bool" where
  "clocks_ok t xs \<longleftrightarrow> (\<forall>x \<in> set xs. is_ok (timeval_diff (pi_created_at x) t))"

definition next_expired :: "paxos_config \<Rightarrow> timeval \<Rightarrow> p_instance list \<Rightarrow> nat \<Rightarrow> nat option" where
  "next_expired cfg t xs i = List.find (\<lambda>k. expired cfg t (xs ! k)) [i..<length xs]"

lemma instance_has_timedout_ok:
  "is_ok (timeval_diff (pi_created_at x) t) \<Longrightarrow> \<exists>b. instance_has_timedout cfg x t = Ok b"
  by (auto simp: instance_has_timedout_def is_ok_def split: sum.splits)

lemma next_expired_step:
  "i < length xs \<Longrightarrow> next_expired cfg t xs i =
     (if expired cfg t (xs ! i) then Some i else next_expired cfg t xs (Suc i))"
  by (simp add: next_expired_def upt_conv_Cons)

lemma next_timedout_q:
  assumes inv: "carray_inv c" and clocks: "clocks_ok t (clist c)" and i: "i \<le> ca_count c"
  shows "next_timedout cfg c i t = Ok (next_expired cfg t (clist c) i,
     case next_expired cfg t (clist c) i of None \<Rightarrow> ca_count c | Some k \<Rightarrow> Suc k)"
  using i
proof (induction "ca_count c - i" arbitrary: i)
  case 0
  then show ?case
    by (subst next_timedout.simps) (simp add: carray_count_def next_expired_def)
next
  case (Suc m)
  then have i: "i < ca_count c" by simp
  then have step: "next_expired cfg t (clist c) i =
      (if expired cfg t (clist c ! i) then Some i else next_expired cfg t (clist c) (Suc i))"
    by (simp add: next_expired_step)
  have IH: "next_timedout cfg c (Suc i) t = Ok (next_expired cfg t (clist c) (Suc i),
     case next_expired cfg t (clist c) (Suc i) of None \<Rightarrow> ca_count c | Some k \<Rightarrow> Suc k)"
    using Suc by simp
  obtain b where b: "instance_has_timedout cfg (clist c ! i) t = Ok b"
    using instance_has_timedout_ok clocks i unfolding clocks_ok_def by (metis length_clist nth_mem)
  show ?case
    by (subst next_timedout.simps)
      (simp add: i carray_count_def carray_item_ok [OF inv i] b step expired_def IH)
qed

definition touched :: "timeval \<Rightarrow> nat \<Rightarrow> p_instance list \<Rightarrow> p_instance list" where
  "touched t k xs = xs[k := (xs ! k)\<lparr>pi_created_at := t\<rparr>]"

lemma next_expired_bound:
  "next_expired cfg t xs i = Some k \<Longrightarrow> k < length xs \<and> i \<le> k \<and> expired cfg t (xs ! k)"
  by (auto simp: next_expired_def find_Some_iff)

text \<open>The answer, the position to continue from, and the lists.\<close>

definition lp_timeout_prepare ::
  "paxos_config \<Rightarrow> timeval \<Rightarrow> nat \<Rightarrow> lproposer \<Rightarrow> prepare_req option \<times> nat \<times> lproposer" where
  "lp_timeout_prepare cfg t i p =
     (case next_expired cfg t (lp_preps p) i of
        None \<Rightarrow> (None, length (lp_preps p), p)
      | Some k \<Rightarrow> (Some (prepare_of (lp_preps p ! k)), Suc k,
                   p\<lparr>lp_preps := touched t k (lp_preps p)\<rparr>))"

definition lp_timeout_accept ::
  "paxos_config \<Rightarrow> timeval \<Rightarrow> nat \<Rightarrow> lproposer \<Rightarrow> accept_req option \<times> nat \<times> lproposer" where
  "lp_timeout_accept cfg t i p =
     (case next_expired cfg t (lp_accs p) i of
        None \<Rightarrow> (None, length (lp_accs p), p)
      | Some k \<Rightarrow> (Some (accept_of (lp_accs p ! k) (the (pi_value (lp_accs p ! k)))), Suc k,
                   p\<lparr>lp_accs := touched t k (lp_accs p)\<rparr>))"

lemma timeout_iterator_prepare_refines:
  assumes inv: "proposer_inv n p" and clocks: "clocks_ok (ti_timeout it) (lp_preps (lists_of p))"
    and i: "ti_pi it \<le> length (lp_preps (lists_of p))"
    and spec: "lp_timeout_prepare cfg (ti_timeout it) (ti_pi it) (lists_of p) = (r, j, l)"
  shows "\<exists>p1. timeout_iterator_prepare cfg it p = Ok (r, it\<lparr>ti_pi := j\<rparr>, p1) \<and>
     buffers_inv p1 \<and> lists_of p1 = l"
proof -
  note D = proposer_invD [OF inv]
  let ?c = "p_prepare_instances p"
  have bufs: "buffers_inv p" using inv by (simp add: proposer_inv_iff)
  note q = next_timedout_q [OF D(2), of "ti_timeout it" "ti_pi it" cfg]
  show ?thesis
  proof (cases "next_expired cfg (ti_timeout it) (clist ?c) (ti_pi it)")
    case None
    then show ?thesis
      using bufs q clocks i spec by (auto simp: timeout_iterator_prepare_def lp_timeout_prepare_def)
  next
    case (Some k)
    then have k: "k < ca_count ?c" using next_expired_bound [OF Some] by simp
    obtain d where "carray_set ?c (int k) ((clist ?c ! k)\<lparr>pi_created_at := ti_timeout it\<rparr>) = Ok d"
      "carray_inv d" "clist d = touched (ti_timeout it) k (clist ?c)"
      using cq.set_item [OF D(2), of k] k unfolding touched_def by auto
    with Some k q clocks i bufs spec show ?thesis
      by (auto simp: timeout_iterator_prepare_def carray_item_ok [OF D(2)] prepare_of_def
          buffers_inv_def lp_timeout_prepare_def)
  qed
qed

lemma timeout_iterator_accept_refines:
  assumes inv: "proposer_inv n p" and clocks: "clocks_ok (ti_timeout it) (lp_accs (lists_of p))"
    and i: "ti_ai it \<le> length (lp_accs (lists_of p))"
    and spec: "lp_timeout_accept cfg (ti_timeout it) (ti_ai it) (lists_of p) = (r, j, l)"
  shows "\<exists>p1. timeout_iterator_accept cfg it p = Ok (r, it\<lparr>ti_ai := j\<rparr>, p1) \<and>
     buffers_inv p1 \<and> lists_of p1 = l"
proof -
  note D = proposer_invD [OF inv]
  let ?c = "p_accept_instances p"
  have bufs: "buffers_inv p" using inv by (simp add: proposer_inv_iff)
  note q = next_timedout_q [OF D(3), of "ti_timeout it" "ti_ai it" cfg]
  show ?thesis
  proof (cases "next_expired cfg (ti_timeout it) (clist ?c) (ti_ai it)")
    case None
    then show ?thesis
      using bufs q clocks i spec by (auto simp: timeout_iterator_accept_def lp_timeout_accept_def)
  next
    case (Some k)
    then have k: "k < ca_count ?c" using next_expired_bound [OF Some] by simp
    then have mem: "clist ?c ! k \<in> set (lp_accs (lists_of p))" by simp
    obtain v where v: "pi_value (clist ?c ! k) = Some v" "msg_ok v"
      using lp_invD(4,5) [OF D(4) mem] by (auto simp: p_instance_inv_def)
    obtain d where "carray_set ?c (int k) ((clist ?c ! k)\<lparr>pi_created_at := ti_timeout it\<rparr>) = Ok d"
      "carray_inv d" "clist d = touched (ti_timeout it) k (clist ?c)"
      using cq.set_item [OF D(3), of k] k unfolding touched_def by auto
    with Some k q clocks i bufs spec v show ?thesis
      by (auto simp: timeout_iterator_accept_def carray_item_ok [OF D(3)] accept_req_of_q
          buffers_inv_def lp_timeout_accept_def)
  qed
qed

lemma proposer_new_inv: "0 < n \<Longrightarrow> proposer_inv n (proposer_new i n)"
  by (simp add: proposer_inv_def proposer_new_def lp_inv_def)

text \<open>Whatever the clocks say, a call that returns restarts at most one clock.\<close>

lemma next_timedout_bound: "next_timedout cfg c i t = Ok (Some k, j) \<Longrightarrow> k < ca_count c"
proof (induction cfg c i t rule: next_timedout.induct)
  case (1 cfg c i t)
  note IH = 1(1,2) [unfolded carray_count_def]
  show ?case
    using 1(3) by (subst (asm) next_timedout.simps)
      (auto simp: res_simps carray_count_def split: if_splits intro: IH)
qed

lemma timeout_iterator_prepare_Ok:
  assumes inv: "proposer_inv n p" and r: "timeout_iterator_prepare cfg it p = Ok (r, it1, p1)"
  shows "buffers_inv p1 \<and> (r = None \<and> lists_of p1 = lists_of p \<or>
     (\<exists>k < length (lp_preps (lists_of p)). r = Some (prepare_of (lp_preps (lists_of p) ! k)) \<and>
        lists_of p1 = (lists_of p)\<lparr>lp_preps := touched (ti_timeout it) k (lp_preps (lists_of p))\<rparr>))"
proof -
  note D = proposer_invD [OF inv]
  let ?c = "p_prepare_instances p"
  from r obtain found i where f: "next_timedout cfg ?c (ti_pi it) (ti_timeout it) = Ok (found, i)"
    by (auto simp: timeout_iterator_prepare_def res_simps)
  show ?thesis
  proof (cases found)
    case None
    with f r inv show ?thesis by (simp add: timeout_iterator_prepare_def proposer_inv_iff)
  next
    case (Some k)
    with f have k: "k < ca_count ?c" using next_timedout_bound by blast
    obtain d where "carray_set ?c (int k) ((clist ?c ! k)\<lparr>pi_created_at := ti_timeout it\<rparr>) = Ok d"
      "carray_inv d" "clist d = touched (ti_timeout it) k (clist ?c)"
      using cq.set_item [OF D(2), of k] k unfolding touched_def by auto
    with f r Some k D(1,3) show ?thesis
      by (intro conjI disjI2 exI [of _ k])
        (auto simp: timeout_iterator_prepare_def carray_item_ok [OF D(2)] prepare_of_def buffers_inv_def)
  qed
qed

lemma timeout_iterator_accept_Ok:
  assumes inv: "proposer_inv n p" and r: "timeout_iterator_accept cfg it p = Ok (r, it1, p1)"
  shows "buffers_inv p1 \<and> (r = None \<and> lists_of p1 = lists_of p \<or>
     (\<exists>k < length (lp_accs (lists_of p)). \<exists>v. pi_value (lp_accs (lists_of p) ! k) = Some v \<and>
        r = Some (accept_of (lp_accs (lists_of p) ! k) v) \<and>
        lists_of p1 = (lists_of p)\<lparr>lp_accs := touched (ti_timeout it) k (lp_accs (lists_of p))\<rparr>))"
proof -
  note D = proposer_invD [OF inv]
  let ?c = "p_accept_instances p"
  from r obtain found i where f: "next_timedout cfg ?c (ti_ai it) (ti_timeout it) = Ok (found, i)"
    by (auto simp: timeout_iterator_accept_def res_simps)
  show ?thesis
  proof (cases found)
    case None
    with f r inv show ?thesis by (simp add: timeout_iterator_accept_def proposer_inv_iff)
  next
    case (Some k)
    with f have k: "k < ca_count ?c" using next_timedout_bound by blast
    then have mem: "clist ?c ! k \<in> set (lp_accs (lists_of p))" by simp
    obtain v where v: "pi_value (clist ?c ! k) = Some v" "msg_ok v"
      using lp_invD(4,5) [OF D(4) mem] by (auto simp: p_instance_inv_def)
    obtain d where "carray_set ?c (int k) ((clist ?c ! k)\<lparr>pi_created_at := ti_timeout it\<rparr>) = Ok d"
      "carray_inv d" "clist d = touched (ti_timeout it) k (clist ?c)"
      using cq.set_item [OF D(3), of k] k unfolding touched_def by auto
    with f r Some k D(1,2) v show ?thesis
      by (intro conjI disjI2 exI [of _ k])
        (auto simp: timeout_iterator_accept_def carray_item_ok [OF D(3)] accept_req_of_q buffers_inv_def)
  qed
qed

lemma touched_inv:
  assumes inv: "lp_inv n p"
  shows "k < length (lp_preps p) \<Longrightarrow> lp_inv n (p\<lparr>lp_preps := touched t k (lp_preps p)\<rparr>)"
    "k < length (lp_accs p) \<Longrightarrow> lp_inv n (p\<lparr>lp_accs := touched t k (lp_accs p)\<rparr>)"
proof -
  assume k: "k < length (lp_preps p)"
  then have "p_instance_inv n (lp_preps p ! k)" using lp_invD(3) [OF inv] by simp
  then show "lp_inv n (p\<lparr>lp_preps := touched t k (lp_preps p)\<rparr>)"
    by (simp add: touched_def lp_inv_set_prep [OF inv k] p_instance_inv_def)
next
  assume k: "k < length (lp_accs p)"
  then have "p_instance_inv n (lp_accs p ! k)" "pi_value (lp_accs p ! k) \<noteq> None"
    using lp_invD(4,5) [OF inv] by simp_all
  then show "lp_inv n (p\<lparr>lp_accs := touched t k (lp_accs p)\<rparr>)"
    by (simp add: touched_def lp_inv_set_acc [OF inv k] p_instance_inv_def)
qed

lemma lp_timeout_inv:
  assumes inv: "lp_inv n p"
  shows "lp_inv n (snd (snd (lp_timeout_prepare cfg t i p)))"
    and "lp_inv n (snd (snd (lp_timeout_accept cfg t i p)))"
  using inv touched_inv [OF inv] next_expired_bound
  by (auto simp: lp_timeout_prepare_def lp_timeout_accept_def split: option.splits)

section \<open>Summary\<close>

text \<open>Every operation succeeds, computes what the specification says and keeps the invariant.\<close>

lemma proposer_propose_ok:
  assumes "proposer_inv n p" "unat k \<le> length v"
  shows "\<exists>p1. proposer_propose p v k = Ok p1 \<and> proposer_inv n p1 \<and>
     lists_of p1 = lp_propose (lists_of p) v k"
  using proposer_propose_refines [OF _ assms(2), of p] lp_propose_inv [OF _ assms(2), of n "lists_of p"]
    assms(1)
  by (auto simp: proposer_inv_iff)

lemma proposer_prepare_ok:
  assumes "proposer_inv n p" "unat (p_next_prepare_iid p) + 1 < 2 ^ 32"
  shows "\<exists>p1. proposer_prepare junk now p = Ok (fst (lp_prepare junk now (lists_of p)), p1) \<and>
     proposer_inv n p1 \<and> lists_of p1 = snd (lp_prepare junk now (lists_of p))"
  using implements_inv [OF proposer_prepare_refines [OF assms(1)]
      lp_prepare_inv [OF proposer_invD(4) [OF assms(1)]]] assms(2)
  by simp

lemma proposer_receive_prepare_ack_ok:
  assumes "proposer_inv n p" "0 \<le> pa_acceptor_id ack" "pa_acceptor_id ack < int n"
    "unat (pa_value_size ack) \<le> length (pa_value ack)"
  shows "\<exists>p1. proposer_receive_prepare_ack now p ack =
       Ok (fst (lp_receive_prepare_ack now (lists_of p) ack), p1) \<and>
     proposer_inv n p1 \<and> lists_of p1 = snd (lp_receive_prepare_ack now (lists_of p) ack)"
  using implements_inv [OF proposer_receive_prepare_ack_refines [OF assms]
      lp_receive_prepare_ack_inv [OF proposer_invD(4) [OF assms(1)] assms(4)]] .

lemma proposer_accept_ok:
  assumes "proposer_inv n p"
  shows "\<exists>p1. proposer_accept p = Ok (fst (lp_accept (lists_of p)), p1) \<and>
     proposer_inv n p1 \<and> lists_of p1 = snd (lp_accept (lists_of p))"
  using implements_inv [OF proposer_accept_refines [OF assms]
      lp_accept_inv [OF proposer_invD(4) [OF assms]]] .

lemma proposer_receive_accept_ack_ok:
  assumes "proposer_inv n p" "0 \<le> aa_acceptor_id ack" "aa_acceptor_id ack < int n"
    "ack_consistent (lp_accs (lists_of p)) ack"
  shows "\<exists>p1. proposer_receive_accept_ack now p ack =
       Ok (fst (lp_receive_accept_ack now (lists_of p) ack), p1) \<and>
     proposer_inv n p1 \<and> lists_of p1 = snd (lp_receive_accept_ack now (lists_of p) ack)"
proof -
  have "implements (proposer_receive_accept_ack now p ack) (lp_receive_accept_ack now (lists_of p) ack)"
    using proposer_receive_accept_ack_cases [OF assms(1-3), of now] assms(4) by (simp only: if_True)
  from implements_inv [OF this lp_receive_accept_ack_inv [OF proposer_invD(4) [OF assms(1)]]] show ?thesis .
qed

end
