(* ===== verification/Scenarios.thy ===== *)
theory Scenarios
  imports System Storage_Mem Proposer_Spec
begin

text \<open>
  Concrete runs of the system, evaluated: a run in which two proposers compete and the learners
  agree, and runs outside the assumptions of the agreement theorem, in which they do not.
\<close>

section \<open>Messages and a start\<close>

definition prep :: "iid_t \<Rightarrow> ballot_t \<Rightarrow> prepare_req" where
  "prep i b = \<lparr>pr_iid = i, pr_ballot = b\<rparr>"

definition promise :: "int \<Rightarrow> iid_t \<Rightarrow> ballot_t \<Rightarrow> ballot_t \<Rightarrow> byte list \<Rightarrow> prepare_ack" where
  "promise a i b vb v = \<lparr>pa_acceptor_id = a, pa_iid = i, pa_ballot = b, pa_value_ballot = vb,
     pa_value_size = of_nat (length v), pa_value = v\<rparr>"

definition areq :: "iid_t \<Rightarrow> ballot_t \<Rightarrow> byte list \<Rightarrow> accept_req" where
  "areq i b v = \<lparr>ar_iid = i, ar_ballot = b, ar_value_size = of_nat (length v), ar_value = v\<rparr>"

definition aack :: "int \<Rightarrow> iid_t \<Rightarrow> ballot_t \<Rightarrow> ballot_t \<Rightarrow> byte list \<Rightarrow> accept_ack" where
  "aack a i b vb v = \<lparr>aa_acceptor_id = a, aa_iid = i, aa_ballot = b, aa_value_ballot = vb,
     aa_is_final = 0, aa_value_size = of_nat (length v), aa_value = v\<rparr>"

definition clock0 :: timeval where "clock0 = \<lparr>tv_sec = 0, tv_usec = 0\<rparr>"

definition zeros :: "nat \<Rightarrow> int" where "zeros i = 0"

definition small_config :: paxos_config where
  "small_config = default_config\<lparr>learner_instances := 4\<rparr>"

definition small_learner :: "nat \<Rightarrow> learner" where
  "small_learner n = (case learner_new small_config n of Inr l \<Rightarrow> l)"

definition small_store :: "nat \<Rightarrow> mem_storage" where
  "small_store a = storage_open (\<lambda>i. aack 0 0 0 0 []) (int a)"

definition small_init :: "nat \<Rightarrow> mem_storage system" where
  "small_init n = sys_init n small_store (small_learner n)"

lemma small_init_stores: "small_init n = sys_init n (\<lambda>a. storage_open (\<lambda>i. aack 0 0 0 0 []) (int a)) (small_learner n)"
  by (simp add: small_init_def small_store_def [abs_def])

lemma small_learner_new: "learner_new small_config n = Ok (small_learner n)"
  using learner_new_ok [of small_config n "{}"] by (auto simp: small_learner_def small_config_def)

section \<open>Competing proposers\<close>

text \<open>
  Proposer 0 gets the value 7 accepted by acceptors 0 and 1; proposer 1, with a higher ballot and
  the promises of acceptors 1 and 2, has to propose it again.
\<close>

definition compete_run :: "event list" where
  "compete_run =
    [EPrepare 0 zeros clock0, EAcceptorPrepare 0 (prep 1 10), EAcceptorPrepare 1 (prep 1 10),
     EPromise 0 clock0 (promise 0 1 10 0 []), EPromise 0 clock0 (promise 1 1 10 0 []),
     EPropose 0 [7] 1, EAccept 0,
     EAcceptorAccept 0 (areq 1 10 [7]), EAcceptorAccept 1 (areq 1 10 [7]),
     EPrepare 1 zeros clock0, EAcceptorPrepare 1 (prep 1 11), EAcceptorPrepare 2 (prep 1 11),
     EPromise 1 clock0 (promise 1 1 11 10 [7]), EPromise 1 clock0 (promise 2 1 11 0 []),
     EPropose 1 [9] 1, EAccept 1,
     EAcceptorAccept 1 (areq 1 11 [7]), EAcceptorAccept 2 (areq 1 11 [7]),
     ELearn 0 (aack 0 1 10 10 [7]), ELearn 0 (aack 1 1 10 10 [7]), EDeliver 0,
     ELearn 1 (aack 1 1 11 11 [7]), ELearn 1 (aack 2 1 11 11 [7]), EDeliver 1]"

text \<open>
  Acceptors 1 and 2 have only promised ballot 11; their answers to a repeat request are taken
  for votes by learner 0, which delivers an empty value. Learner 1 delivers the value 9.
\<close>

definition repeat_run :: "event list" where
  "repeat_run =
    [EPrepare 1 zeros clock0, EAcceptorPrepare 1 (prep 1 11), EAcceptorPrepare 2 (prep 1 11),
     EAcceptorRepeat 1 1, EAcceptorRepeat 2 1,
     ELearn 0 (aack 1 1 11 0 []), ELearn 0 (aack 2 1 11 0 []), EDeliver 0,
     EPromise 1 clock0 (promise 1 1 11 0 []), EPromise 1 clock0 (promise 2 1 11 0 []),
     EPropose 1 [9] 1, EAccept 1,
     EAcceptorAccept 1 (areq 1 11 [9]), EAcceptorAccept 2 (areq 1 11 [9]),
     ELearn 1 (aack 1 1 11 11 [9]), ELearn 1 (aack 2 1 11 11 [9]), EDeliver 1]"

text \<open>
  Acceptor 2 has accepted 7 with ballot 10, acceptors 0 and 1 have accepted 9 with ballot 11, and learner
  0 delivers 9. Then acceptors 1 and 2 promise ballot 12, and learner 1 takes their answers to a repeat
  request, accepted values with the ballot of the promise, for votes for one ballot.
\<close>

definition promised_repeat_run :: "event list" where
  "promised_repeat_run =
    [EPrepare 0 zeros clock0, EAcceptorPrepare 0 (prep 1 10), EAcceptorPrepare 2 (prep 1 10),
     EPromise 0 clock0 (promise 0 1 10 0 []), EPromise 0 clock0 (promise 2 1 10 0 []),
     EPropose 0 [7] 1, EAccept 0, EAcceptorAccept 2 (areq 1 10 [7]),
     EPrepare 1 zeros clock0, EAcceptorPrepare 0 (prep 1 11), EAcceptorPrepare 1 (prep 1 11),
     EPromise 1 clock0 (promise 0 1 11 0 []), EPromise 1 clock0 (promise 1 1 11 0 []),
     EPropose 1 [9] 1, EAccept 1,
     EAcceptorAccept 0 (areq 1 11 [9]), EAcceptorAccept 1 (areq 1 11 [9]),
     ELearn 0 (aack 0 1 11 11 [9]), ELearn 0 (aack 1 1 11 11 [9]), EDeliver 0,
     EPrepare 2 zeros clock0, EAcceptorPrepare 1 (prep 1 12), EAcceptorPrepare 2 (prep 1 12),
     EAcceptorRepeat 1 1, EAcceptorRepeat 2 1,
     ELearn 1 (aack 1 1 12 11 [9]), ELearn 1 (aack 2 1 12 10 [7]), EDeliver 1]"
text \<open>
  Proposer 0 gets an empty value accepted by acceptors 0 and 1; the promise of acceptor 1 to
  proposer 1 does not look like one with a value, and proposer 1 proposes its own.
\<close>

definition empty_run :: "event list" where
  "empty_run =
    [EPrepare 0 zeros clock0, EAcceptorPrepare 0 (prep 1 10), EAcceptorPrepare 1 (prep 1 10),
     EPromise 0 clock0 (promise 0 1 10 0 []), EPromise 0 clock0 (promise 1 1 10 0 []),
     EPropose 0 [] 0, EAccept 0,
     EAcceptorAccept 0 (areq 1 10 []), EAcceptorAccept 1 (areq 1 10 []),
     EPrepare 1 zeros clock0, EAcceptorPrepare 1 (prep 1 11), EAcceptorPrepare 2 (prep 1 11),
     EPromise 1 clock0 (promise 1 1 11 10 []), EPromise 1 clock0 (promise 2 1 11 0 []),
     EPropose 1 [9] 1, EAccept 1,
     EAcceptorAccept 1 (areq 1 11 [9]), EAcceptorAccept 2 (areq 1 11 [9]),
     ELearn 0 (aack 0 1 10 10 []), ELearn 0 (aack 1 1 10 10 []), EDeliver 0,
     ELearn 1 (aack 1 1 11 11 [9]), ELearn 1 (aack 2 1 11 11 [9]), EDeliver 1]"

text \<open>
  The value 7 of proposer 0 is accepted, its instance is preempted by proposer 1 and prepared
  again; the promise reports the value 7, the proposer's own copy goes back to its queue, and
  the value is chosen a second time in instance 2.
\<close>

definition twice_run :: "event list" where
  "twice_run =
    [EPropose 0 [7] 1, EPrepare 0 zeros clock0, EAcceptorPrepare 0 (prep 1 10),
     EPromise 0 clock0 (promise 0 1 10 0 []), EAccept 0, EAcceptorAccept 0 (areq 1 10 [7]),
     EPrepare 1 zeros clock0, EAcceptorPrepare 0 (prep 1 11),
     EAcceptorAccept 0 (areq 1 10 [7]), EAccepted 0 clock0 (aack 0 1 11 10 [7]),
     EAcceptorPrepare 0 (prep 1 20), EPromise 0 clock0 (promise 0 1 20 10 [7]), EAccept 0,
     EAcceptorAccept 0 (areq 1 20 [7]),
     EPrepare 0 zeros clock0, EAcceptorPrepare 0 (prep 2 10),
     EPromise 0 clock0 (promise 0 2 10 0 []), EAccept 0, EAcceptorAccept 0 (areq 2 10 [7]),
     ELearn 0 (aack 0 1 20 20 [7]), EDeliver 0, ELearn 0 (aack 0 2 10 10 [7]), EDeliver 0]"

lemma compete_run_delivers:
  "sys_delivered (sys_run mem_ops compete_run (small_init 3)) =
     [(0, aack 1 1 10 10 [7]), (1, aack 2 1 11 11 [7])]"
  by code_simp

lemma compete_run_ok: "run_ok mem_ops compete_run (small_init 3)"
  by code_simp

lemma repeat_run_delivers:
  "sys_delivered (sys_run mem_ops repeat_run (small_init 3)) =
     [(0, aack 2 1 11 0 []), (1, aack 2 1 11 11 [9])]"
  by code_simp

lemma promised_repeat_run_delivers:
  "sys_delivered (sys_run mem_ops promised_repeat_run (small_init 3)) =
     [(0, aack 1 1 11 11 [9]), (1, aack 2 1 12 10 [7])]"
  by code_simp

lemma empty_run_delivers:
  "sys_delivered (sys_run mem_ops empty_run (small_init 3)) =
     [(0, aack 1 1 10 10 []), (1, aack 2 1 11 11 [9])]"
  by code_simp

lemma twice_run_delivers:
  "sys_delivered (sys_run mem_ops twice_run (small_init 1)) =
     [(0, aack 0 1 20 20 [7]), (0, aack 0 2 10 10 [7])]"
  by code_simp

section \<open>Proposers in the middle of their work\<close>

text \<open>Three acceptors: one instance prepared, two promises received, the value 7 proposed.\<close>

definition prepared_proposer :: proposer where
  "prepared_proposer = (case proposer_prepare zeros clock0 (proposer_new 0 3) of Inr (q, p) \<Rightarrow> p)"

definition ready_proposer :: proposer where
  "ready_proposer =
     (case rbind (proposer_propose prepared_proposer [7] 1) (\<lambda>p1.
           rbind (proposer_receive_prepare_ack clock0 p1 (promise 0 1 10 0 [])) (\<lambda>(r, p2).
           rbind (proposer_receive_prepare_ack clock0 p2 (promise 1 1 10 0 [])) (\<lambda>(r, p3). Ok p3)))
      of Inr p \<Rightarrow> p)"

definition accepting_proposer :: proposer where
  "accepting_proposer = (case proposer_accept ready_proposer of Inr (q, p) \<Rightarrow> p)"

lemma prepared_proposer_inv: "proposer_inv 3 prepared_proposer"
proof -
  have "unat (p_next_prepare_iid (proposer_new 0 3)) + 1 < 2 ^ 32" by (simp add: proposer_new_def)
  from proposer_prepare_ok [OF proposer_new_inv this, where junk = zeros and now = clock0] show ?thesis
    by (auto simp: prepared_proposer_def)
qed

lemma ready_proposer_inv: "proposer_inv 3 ready_proposer"
proof -
  obtain p1 where p1: "proposer_propose prepared_proposer [7] 1 = Ok p1" "proposer_inv 3 p1"
    using proposer_propose_ok [OF prepared_proposer_inv, of 1 "[7]"] by auto
  have step: "\<exists>r q. proposer_receive_prepare_ack clock0 p (promise a 1 10 0 []) = Ok (r, q) \<and>
      proposer_inv 3 q" if "proposer_inv 3 p" "0 \<le> a" "a < 3" for p a
    using proposer_receive_prepare_ack_ok [OF that(1), of "promise a 1 10 0 []" clock0] that(2,3)
    by (auto simp: promise_def)
  from step [OF p1(2), of 0] obtain r2 p2 where
    p2: "proposer_receive_prepare_ack clock0 p1 (promise 0 1 10 0 []) = Ok (r2, p2)" "proposer_inv 3 p2"
    by auto
  from step [OF p2(2), of 1] obtain r3 p3 where
    "proposer_receive_prepare_ack clock0 p2 (promise 1 1 10 0 []) = Ok (r3, p3)" "proposer_inv 3 p3"
    by auto
  with p1 p2 show ?thesis by (simp add: ready_proposer_def)
qed

lemma accepting_proposer_inv: "proposer_inv 3 accepting_proposer"
  using proposer_accept_ok [OF ready_proposer_inv] by (auto simp: accepting_proposer_def)

end
