(* ===== verification/Agreement.thy ===== *)
theory Agreement
  imports System Proposer_Spec
begin

text \<open>
  Two learners never deliver different values for an instance. The proof follows the protocol:
  for every accept request there is a majority that promised its ballot and whose earlier votes
  are all at or below the ballot of the value it carries, and a ballot belongs to one proposer,
  which uses it for one value per instance. The invariant of the proposers is stated on the
  lists of \<open>Proposer_Spec\<close>, that of the acceptors on the interface \<open>record_store\<close>, so that the
  theorem holds for every storage.

  Ballots and instance ids are 32-bit numbers; after \<open>k\<close> steps ballots are at most
  \<open>10 * k + 19\<close> and instance ids at most \<open>k\<close>, and nothing wraps around below
  \<open>step_limit\<close> steps.
\<close>

definition step_limit :: nat where "step_limit = 400000000"

section \<open>Ballots of a proposer\<close>

definition ballot_ok :: "nat \<Rightarrow> nat \<Rightarrow> ballot_t \<Rightarrow> bool" where
  "ballot_ok k pid b \<longleftrightarrow> 10 \<le> unat b \<and> unat b \<le> 10 * k + 19 \<and> unat b mod 10 = pid"

lemma ballot_ok_mono: "ballot_ok k pid b \<Longrightarrow> k \<le> k' \<Longrightarrow> ballot_ok k' pid b"
  by (simp add: ballot_ok_def)

lemma ballot_ok_first:
  assumes "pid < 10"
  shows "ballot_ok k pid (next_ballot (int pid) 0)"
proof -
  have "unat (word_of_int (10 + int pid) :: 32 word) = 10 + pid"
    using assms by (simp add: unat_word_ariths unat_of_nat)
  with assms show ?thesis by (simp add: ballot_ok_def next_ballot_def)
qed

lemma ballot_next:
  assumes "ballot_ok k pid b" "k < step_limit"
  shows "unat (next_ballot i b) = unat b + 10" "ballot_ok (Suc k) pid (next_ballot i b)"
    "b < next_ballot i b"
proof -
  have "b > 0" using assms(1) by (metis ballot_ok_def not_numeral_le_zero unat_0 word_gt_0)
  then have "next_ballot i b = 10 + b" by (simp add: next_ballot_def)
  moreover have "unat (10 + b :: 32 word) = 10 + unat b"
    using assms by (subst unat_plus_no_wrap) (simp_all add: ballot_ok_def step_limit_def)
  ultimately show u: "unat (next_ballot i b) = unat b + 10" by simp
  show "ballot_ok (Suc k) pid (next_ballot i b)" using assms(1) u by (simp add: ballot_ok_def)
  show "b < next_ballot i b" by (simp add: word_less_nat_alt u)
qed

lemma ballot_ok_pos: "ballot_ok k pid b \<Longrightarrow> 0 < b"
  by (metis ballot_ok_def not_numeral_le_zero unat_0 word_gt_0)

section \<open>The invariant of a proposer\<close>

text \<open>
  \<open>safe a i lo b\<close> says that acceptor \<open>a\<close> has promised ballot \<open>b\<close> for instance \<open>i\<close> and voted
  below \<open>b\<close> only at \<open>lo\<close> or lower; \<open>proposed i b v\<close> that an accept request with these was sent.
\<close>

type_synonym safe_pred = "nat \<Rightarrow> iid_t \<Rightarrow> ballot_t \<Rightarrow> ballot_t \<Rightarrow> bool"
type_synonym proposed_pred = "iid_t \<Rightarrow> ballot_t \<Rightarrow> byte list \<Rightarrow> bool"

definition inst_ok :: "nat \<Rightarrow> nat \<Rightarrow> proposed_pred \<Rightarrow> p_instance \<Rightarrow> bool" where
  "inst_ok k pid proposed x \<longleftrightarrow>
     ballot_ok k pid (pi_ballot x) \<and> pi_value_ballot x < pi_ballot x \<and>
     (case pi_value x of
        None \<Rightarrow> pi_value_ballot x = 0
      | Some v \<Rightarrow> 0 < msg_data_size v \<and>
          (pi_value_ballot x = 0 \<or> proposed (pi_iid x) (pi_value_ballot x) (msg_payload v)))"

definition prep_ok :: "safe_pred \<Rightarrow> p_instance \<Rightarrow> bool" where
  "prep_ok safe x \<longleftrightarrow> (\<exists>S. counted (pi_quorum x) S \<and>
     (\<forall>a \<in> S. safe a (pi_iid x) (pi_value_ballot x) (pi_ballot x)))"

definition acc_ok :: "proposed_pred \<Rightarrow> p_instance \<Rightarrow> bool" where
  "acc_ok proposed x \<longleftrightarrow> (\<forall>v. pi_value x = Some v \<longrightarrow>
     proposed (pi_iid x) (pi_ballot x) (msg_payload v))"

definition own_ok :: "nat \<Rightarrow> proposed_pred \<Rightarrow> lproposer \<Rightarrow> bool" where
  "own_ok pid proposed l \<longleftrightarrow> (\<forall>i b v. proposed i b v \<longrightarrow> unat b mod 10 = pid \<longrightarrow>
     i \<le> lp_next l \<and>
     (\<forall>x \<in> set (lp_preps l). pi_iid x = i \<longrightarrow> b < pi_ballot x) \<and>
     (\<forall>x \<in> set (lp_accs l). pi_iid x = i \<longrightarrow>
        b < pi_ballot x \<or> b = pi_ballot x \<and> (\<forall>w. pi_value x = Some w \<longrightarrow> msg_payload w = v)))"

definition lp_good :: "nat \<Rightarrow> nat \<Rightarrow> nat \<Rightarrow> safe_pred \<Rightarrow> proposed_pred \<Rightarrow> lproposer \<Rightarrow> bool" where
  "lp_good n k pid safe proposed l \<longleftrightarrow>
     lp_inv n l \<and> lp_id l = int pid \<and> pid < 10 \<and> unat (lp_next l) \<le> k \<and>
     (\<forall>x \<in> set (lp_preps l). inst_ok k pid proposed x \<and> prep_ok safe x) \<and>
     (\<forall>x \<in> set (lp_accs l). inst_ok k pid proposed x \<and> acc_ok proposed x) \<and>
     (\<forall>v \<in> set (lp_values l). 0 < msg_data_size v) \<and>
     own_ok pid proposed l"

lemma lp_goodD:
  assumes "lp_good n k pid safe proposed l"
  shows "lp_inv n l" "lp_id l = int pid" "pid < 10" "unat (lp_next l) \<le> k"
    "\<And>x. x \<in> set (lp_preps l) \<Longrightarrow> inst_ok k pid proposed x \<and> prep_ok safe x"
    "\<And>x. x \<in> set (lp_accs l) \<Longrightarrow> inst_ok k pid proposed x \<and> acc_ok proposed x"
    "\<And>v. v \<in> set (lp_values l) \<Longrightarrow> 0 < msg_data_size v"
    "own_ok pid proposed l"
  using assms unfolding lp_good_def by auto

lemma inst_ok_mono:
  assumes "inst_ok k pid proposed x" "k \<le> k'" "\<And>i b v. proposed i b v \<Longrightarrow> proposed' i b v"
  shows "inst_ok k' pid proposed' x"
  using assms ballot_ok_mono unfolding inst_ok_def by (auto split: option.splits)

lemma prep_ok_mono:
  assumes "prep_ok safe x" "\<And>a i lo b. safe a i lo b \<Longrightarrow> safe' a i lo b"
  shows "prep_ok safe' x"
  using assms unfolding prep_ok_def by blast

text \<open>Time passes and acceptors promise more; nothing new is proposed under this id.\<close>

lemma lp_good_mono:
  assumes "lp_good n k pid safe proposed l" "k \<le> k'"
    "\<And>a i lo b. safe a i lo b \<Longrightarrow> safe' a i lo b"
    "\<And>i b v. proposed i b v \<Longrightarrow> proposed' i b v"
    "\<And>i b v. proposed' i b v \<Longrightarrow> unat b mod 10 = pid \<Longrightarrow> proposed i b v"
  shows "lp_good n k' pid safe' proposed' l"
proof -
  note D = lp_goodD [OF assms(1)]
  have "inst_ok k' pid proposed' x \<and> prep_ok safe' x" if "x \<in> set (lp_preps l)" for x
    using D(5) [OF that] inst_ok_mono [OF _ assms(2), of pid proposed x proposed']
      prep_ok_mono [of safe x safe'] assms(3,4) by blast
  moreover have "inst_ok k' pid proposed' x \<and> acc_ok proposed' x" if "x \<in> set (lp_accs l)" for x
    using D(6) [OF that] inst_ok_mono [OF _ assms(2), of pid proposed x proposed'] assms(4)
    unfolding acc_ok_def by blast
  moreover have "own_ok pid proposed' l"
    using D(8) assms(5) unfolding own_ok_def by blast
  ultimately show ?thesis
    using D(1-4,7) assms(2) unfolding lp_good_def by auto
qed

section \<open>The proposer keeps its invariant\<close>

lemma own_okD:
  assumes "own_ok pid proposed l" "proposed i b v" "unat b mod 10 = pid"
  shows "i \<le> lp_next l" "x \<in> set (lp_preps l) \<Longrightarrow> pi_iid x = i \<Longrightarrow> b < pi_ballot x"
    "x \<in> set (lp_accs l) \<Longrightarrow> pi_iid x = i \<Longrightarrow> pi_value x = Some w \<Longrightarrow>
       b < pi_ballot x \<or> b = pi_ballot x \<and> msg_payload w = v"
    "x \<in> set (lp_accs l) \<Longrightarrow> pi_iid x = i \<Longrightarrow> b \<le> pi_ballot x"
  using assms unfolding own_ok_def by (blast, blast, blast, fastforce)

lemma lp_good_Suc: "lp_good n k pid safe proposed l \<Longrightarrow> lp_good n (Suc k) pid safe proposed l"
  by (erule lp_good_mono) simp_all

lemma lp_propose_good:
  assumes "lp_good n k pid safe proposed l" "0 < m" "unat m \<le> length v"
  shows "lp_good n (Suc k) pid safe proposed (lp_propose l v m)"
proof -
  note D = lp_goodD [OF lp_good_Suc [OF assms(1)]]
  from lp_propose_inv [OF D(1) assms(3)] D(2-8) assms(2) show ?thesis
    unfolding lp_good_def own_ok_def by (auto simp: lp_propose_def)
qed

lemma lp_prepare_good:
  assumes good: "lp_good n k pid safe proposed l" and k: "k < step_limit"
    and r: "lp_prepare junk now l = (q, l1)"
  shows "lp_good n (Suc k) pid safe proposed l1" "pr_iid q \<noteq> 0" "10 \<le> unat (pr_ballot q)"
proof -
  note G = lp_goodD [OF good] and D = lp_goodD [OF lp_good_Suc [OF good]]
  define x where "x = \<lparr>pi_iid = lp_next l + 1, pi_ballot = next_ballot (lp_id l) 0,
      pi_value_ballot = 0, pi_value = None, pi_closed = False,
      pi_quorum = q_new junk (lp_acceptors l), pi_created_at = now\<rparr>"
  have l1: "l1 = l\<lparr>lp_next := lp_next l + 1, lp_preps := lp_preps l @ [x]\<rparr>" and q: "q = prepare_of x"
    using r by (simp_all add: lp_prepare_def x_def Let_def)
  have next1: "unat (lp_next l + 1) = Suc (unat (lp_next l))"
    using G(4) k by (subst unat_plus_no_wrap) (simp_all add: step_limit_def)
  have inv: "lp_inv n l1"
    using lp_prepare_inv [OF D(1), of junk now] r G(4) k by (simp add: step_limit_def)
  have bal: "ballot_ok k pid (next_ballot (lp_id l) 0)" for k
    using ballot_ok_first [OF D(3)] D(2) by simp
  have x: "inst_ok (Suc k) pid proposed x" "prep_ok safe x"
    using bal ballot_ok_pos [OF bal] counted_new [of junk "lp_acceptors l"]
    by (auto simp: inst_ok_def x_def prep_ok_def)
  have fresh: "i < lp_next l + 1" if "i \<le> lp_next l" for i
    using that next1 by (simp add: word_less_nat_alt word_le_nat_alt)
  have "own_ok pid proposed l1"
    unfolding own_ok_def
  proof (intro allI impI)
    fix i b v assume P: "proposed i b v" "unat b mod 10 = pid"
    note O = own_okD [OF D(8) P]
    have "i < lp_next l + 1" using fresh [OF O(1)] .
    then have "i \<noteq> pi_iid x" "i \<le> lp_next l1" by (auto simp: x_def l1)
    then show "i \<le> lp_next l1 \<and> (\<forall>x \<in> set (lp_preps l1). pi_iid x = i \<longrightarrow> b < pi_ballot x) \<and>
      (\<forall>x \<in> set (lp_accs l1). pi_iid x = i \<longrightarrow>
        b < pi_ballot x \<or> b = pi_ballot x \<and> (\<forall>w. pi_value x = Some w \<longrightarrow> msg_payload w = v))"
      using O(2) D(8) P unfolding own_ok_def by (auto simp: l1)
  qed
  with inv x D(2,3,5,6,7) next1 G(4) show "lp_good n (Suc k) pid safe proposed l1"
    unfolding lp_good_def by (auto simp: l1)
  show "pr_iid q \<noteq> 0" using next1 by (auto simp: q prepare_of_def x_def)
  show "10 \<le> unat (pr_ballot q)" using bal [of k] by (simp add: q prepare_of_def x_def ballot_ok_def)
qed

text \<open>One instance waiting for promises is replaced by a later state of it.\<close>

lemma lp_good_set_prep:
  assumes good: "lp_good n k pid safe proposed l" and i: "i < length (lp_preps l)"
    and x: "inst_ok (Suc k) pid proposed x" "prep_ok safe x"
    and same: "pi_iid x = pi_iid (lp_preps l ! i)" "pi_ballot (lp_preps l ! i) \<le> pi_ballot x"
    and inv: "lp_inv n (l\<lparr>lp_preps := (lp_preps l)[i := x], lp_values := vs\<rparr>)"
    and vs: "\<forall>v \<in> set vs. 0 < msg_data_size v"
  shows "lp_good n (Suc k) pid safe proposed (l\<lparr>lp_preps := (lp_preps l)[i := x], lp_values := vs\<rparr>)"
proof -
  note D = lp_goodD [OF lp_good_Suc [OF good]]
  have mem: "y = x \<or> y \<in> set (lp_preps l)" if "y \<in> set ((lp_preps l)[i := x])" for y
    using that set_update_subset_insert [of "lp_preps l" i x] by auto
  have "own_ok pid proposed (l\<lparr>lp_preps := (lp_preps l)[i := x], lp_values := vs\<rparr>)"
    unfolding own_ok_def
  proof (intro allI impI)
    fix j b v assume P: "proposed j b v" "unat b mod 10 = pid"
    note O = own_okD [OF D(8) P]
    have "b < pi_ballot y" if "y \<in> set ((lp_preps l)[i := x])" "pi_iid y = j" for y
      using mem [OF that(1)] that(2) O(2) [of y] O(2) [of "lp_preps l ! i"] i same
      by (metis nth_mem order_less_le_trans)
    then show "j \<le> lp_next (l\<lparr>lp_preps := (lp_preps l)[i := x], lp_values := vs\<rparr>) \<and>
      (\<forall>x \<in> set (lp_preps (l\<lparr>lp_preps := (lp_preps l)[i := x], lp_values := vs\<rparr>)).
        pi_iid x = j \<longrightarrow> b < pi_ballot x) \<and>
      (\<forall>x \<in> set (lp_accs (l\<lparr>lp_preps := (lp_preps l)[i := x], lp_values := vs\<rparr>)). pi_iid x = j \<longrightarrow>
        b < pi_ballot x \<or> b = pi_ballot x \<and> (\<forall>w. pi_value x = Some w \<longrightarrow> msg_payload w = v))"
      using D(8) P unfolding own_ok_def by simp
  qed
  with inv x vs D(2-4) D(5,6) mem show ?thesis
    unfolding lp_good_def by fastforce
qed

lemma preempted_good:
  assumes "inst_ok k pid proposed x" "k < step_limit"
  shows "inst_ok (Suc k) pid proposed (preempted i now x)" "prep_ok safe (preempted i now x)"
    "pi_ballot x < pi_ballot (preempted i now x)"
proof -
  from assms(1) have b: "ballot_ok k pid (pi_ballot x)" by (simp add: inst_ok_def)
  note B = ballot_next [OF b assms(2), of i]
  show "pi_ballot x < pi_ballot (preempted i now x)" using B(3) by (simp add: preempted_def)
  from assms(1) B show "inst_ok (Suc k) pid proposed (preempted i now x)"
    unfolding inst_ok_def by (auto simp: preempted_def split: option.splits)
  show "prep_ok safe (preempted i now x)"
    unfolding prep_ok_def by (rule exI [of _ "{}"]) (simp add: preempted_def counted_clear)
qed

text \<open>What a promise on the network says.\<close>

definition promise_ok :: "nat \<Rightarrow> safe_pred \<Rightarrow> proposed_pred \<Rightarrow> prepare_ack \<Rightarrow> bool" where
  "promise_ok n safe proposed a \<longleftrightarrow>
     0 \<le> pa_acceptor_id a \<and> pa_acceptor_id a < int n \<and>
     unat (pa_value_size a) \<le> length (pa_value a) \<and> pa_value_ballot a \<le> pa_ballot a \<and>
     safe (nat (pa_acceptor_id a)) (pa_iid a) (pa_value_ballot a) (pa_ballot a) \<and>
     (if pa_value_size a = 0 then pa_value_ballot a = 0
      else proposed (pa_iid a) (pa_value_ballot a) (pa_payload a))"

text \<open>The votes an acceptor may have cast: a larger bound is weaker.\<close>

definition safe_bound_mono :: "safe_pred \<Rightarrow> bool" where
  "safe_bound_mono safe \<longleftrightarrow> (\<forall>a i lo lo' b. lo \<le> lo' \<longrightarrow> safe a i lo b \<longrightarrow> safe a i lo' b)"

lemma promised_value_ballot:
  "pi_value_ballot (promised x a) = (if adopts x a then pa_value_ballot a else pi_value_ballot x)"
  "pi_ballot (promised x a) = pi_ballot x"
  by (simp_all add: promised_def Let_def)

lemma promised_good:
  assumes x: "inst_ok k pid proposed x" "prep_ok safe x" "p_instance_inv n x"
    and a: "promise_ok n safe proposed a" "pa_iid a = pi_iid x" "pa_ballot a = pi_ballot x"
    and below: "\<forall>b v. proposed (pi_iid x) b v \<longrightarrow> unat b mod 10 = pid \<longrightarrow> b < pi_ballot x"
    and flag: "\<not> q_flagged (pi_quorum x) (nat (pa_acceptor_id a))"
    and mono: "safe_bound_mono safe"
  shows "inst_ok (Suc k) pid proposed (promised x a)" "prep_ok safe (promised x a)"
proof -
  let ?y = "promised x a"
  have bx: "ballot_ok k pid (pi_ballot x)" using x(1) by (simp add: inst_ok_def)
  have vb: "pi_value_ballot ?y < pi_ballot x"
  proof (cases "adopts x a")
    case True
    then have "proposed (pi_iid x) (pa_value_ballot a) (pa_payload a)"
      using a(1,2) by (auto simp: promise_ok_def adopts_def word_gt_0)
    then have "pa_value_ballot a \<noteq> pi_ballot x"
      using below bx by (auto simp: ballot_ok_def)
    moreover have "pa_value_ballot a \<le> pi_ballot x" using a(1,3) by (simp add: promise_ok_def)
    ultimately show ?thesis using True order_neq_le_trans by (simp add: promised_value_ballot)
  next
    case False
    with x(1) show ?thesis by (simp add: promised_value_ballot inst_ok_def)
  qed
  show "inst_ok (Suc k) pid proposed ?y"
  proof (cases "adopts x a")
    case True
    then have "pa_value_size a > 0" "pi_value ?y = Some \<lparr>msg_data_size = pa_value_size a,
        msg_type = submit, msg_data = pa_payload a\<rparr>"
      by (simp_all add: adopts_def promised_def Let_def)
    with True a vb ballot_ok_mono [OF bx, of "Suc k"] show ?thesis
      by (auto simp: inst_ok_def promise_ok_def promised_value_ballot msg_payload_def pa_payload_def
          word_gt_0 split: if_splits)
  next
    case False
    with x(1) inst_ok_mono [OF x(1), of "Suc k" proposed] show ?thesis
      by (auto simp: inst_ok_def promised_def Let_def split: option.splits)
  qed
  from x(2) obtain S where S: "counted (pi_quorum x) S"
    "\<And>c. c \<in> S \<Longrightarrow> safe c (pi_iid x) (pi_value_ballot x) (pi_ballot x)"
    unfolding prep_ok_def by blast
  have le: "pi_value_ballot x \<le> pi_value_ballot ?y" "pa_value_ballot a \<le> pi_value_ballot ?y"
    using x(1) a(1) by (auto simp: promised_value_ballot adopts_def inst_ok_def promise_ok_def
        word_gt_0 not_less split: option.splits if_splits)
  have "counted (pi_quorum ?y) (insert (nat (pa_acceptor_id a)) S)"
    using counted_flag [OF _ S(1) _ flag] x(3) a(1)
    by (auto simp: promised_def Let_def p_instance_inv_def promise_ok_def)
  moreover have "safe c (pi_iid ?y) (pi_value_ballot ?y) (pi_ballot ?y)"
    if "c \<in> insert (nat (pa_acceptor_id a)) S" for c
    using that S(2) [of c] a mono le
    by (auto simp: promise_ok_def safe_bound_mono_def promised_value_ballot(2))
  ultimately show "prep_ok safe ?y" unfolding prep_ok_def by blast
qed

lemma lp_receive_prepare_ack_good:
  assumes good: "lp_good n k pid safe proposed l" and k: "k < step_limit"
    and a: "promise_ok n safe proposed ack" and mono: "safe_bound_mono safe"
    and r: "lp_receive_prepare_ack now l ack = (q, l1)"
  shows "lp_good n (Suc k) pid safe proposed l1"
    "\<And>pr. q = Some pr \<Longrightarrow> pr_iid pr \<noteq> 0 \<and> 10 \<le> unat (pr_ballot pr)"
proof -
  note D = lp_goodD [OF good]
  have inv: "lp_inv n l1"
    using lp_receive_prepare_ack_inv [OF D(1), of ack now] a r by (simp add: promise_ok_def)
  have "lp_good n (Suc k) pid safe proposed l1 \<and>
    (\<forall>pr. q = Some pr \<longrightarrow> pr_iid pr \<noteq> 0 \<and> 10 \<le> unat (pr_ballot pr))"
  proof (cases "iid_index (pa_iid ack) (lp_preps l)")
    case None
    then show ?thesis using r lp_good_Suc [OF good] by (simp add: lp_receive_prepare_ack_def)
  next
    case (Some i)
    note I = iid_index_Some [OF Some]
    let ?x = "lp_preps l ! i"
    note X = D(5) [OF I(3)] lp_invD(3) [OF D(1) I(3)]
    consider "pa_ballot ack < pi_ballot ?x \<or>
          pa_ballot ack = pi_ballot ?x \<and> q_flagged (pi_quorum ?x) (nat (pa_acceptor_id ack))"
      | "pa_ballot ack = pi_ballot ?x" "\<not> q_flagged (pi_quorum ?x) (nat (pa_acceptor_id ack))"
      | "\<not> pa_ballot ack < pi_ballot ?x" "pa_ballot ack \<noteq> pi_ballot ?x"
      by blast
    then show ?thesis
    proof cases
      case 1
      then show ?thesis using r lp_good_Suc [OF good]
        by (auto simp: lp_receive_prepare_ack_def Some Let_def)
    next
      case 2
      define vs where "vs = lp_values l @ (case pi_value ?x of
          Some old \<Rightarrow> if adopts ?x ack then [old] else [] | None \<Rightarrow> [])"
      have l1: "l1 = l\<lparr>lp_preps := (lp_preps l)[i := promised ?x ack], lp_values := vs\<rparr>" "q = None"
        using 2 r by (simp_all add: lp_receive_prepare_ack_def Some Let_def vs_def)
      have "\<forall>v \<in> set vs. 0 < msg_data_size v"
        using D(7) X(1) by (auto simp: vs_def inst_ok_def split: option.splits if_splits)
      moreover have below: "\<forall>b v. proposed (pi_iid ?x) b v \<longrightarrow> unat b mod 10 = pid \<longrightarrow> b < pi_ballot ?x"
        using own_okD(2) [OF D(8) _ _ I(3) refl] by blast
      moreover have "inst_ok (Suc k) pid proposed (promised ?x ack)" "prep_ok safe (promised ?x ack)"
        using promised_good [OF conjunct1 [OF X(1)] conjunct2 [OF X(1)] X(2) a I(2) [symmetric] 2(1)
            below 2(2) mono] .
      ultimately show ?thesis
        using lp_good_set_prep [OF good I(1), of "promised ?x ack" vs] inv l1
        by (simp add: promised_value_ballot)
    next
      case 3
      let ?y = "preempted (lp_id l) now ?x"
      have l1: "l1 = l\<lparr>lp_preps := (lp_preps l)[i := ?y], lp_values := lp_values l\<rparr>"
        "q = Some (prepare_of ?y)"
        using 3 r by (auto simp: lp_receive_prepare_ack_def Some Let_def)
      note P = preempted_good [OF conjunct1 [OF X(1)] k, where i = "lp_id l" and now = now]
      have "pi_iid ?x \<noteq> 0" using lp_invD(6) [OF D(1), of ?x] I(3) by auto
      moreover have "10 \<le> unat (pi_ballot ?y)" using P(1) by (simp add: inst_ok_def ballot_ok_def)
      ultimately show ?thesis
        using lp_good_set_prep [OF good I(1) P(1,2), of "lp_values l"] inv l1 D(7)
          less_imp_le [OF P(3)]
        by (simp add: prepare_of_def)
    qed
  qed
  then show "lp_good n (Suc k) pid safe proposed l1"
    "\<And>pr. q = Some pr \<Longrightarrow> pr_iid pr \<noteq> 0 \<and> 10 \<le> unat (pr_ballot pr)"
    by blast+
qed

text \<open>Sending an accept request adds to what was proposed.\<close>

definition also_proposed :: "proposed_pred \<Rightarrow> accept_req option \<Rightarrow> proposed_pred" where
  "also_proposed proposed r i b v \<longleftrightarrow> proposed i b v \<or>
     (\<exists>q. r = Some q \<and> ar_iid q = i \<and> ar_ballot q = b \<and> ar_payload q = v)"

text \<open>
  What an accept request needs to be safe: a majority promised its ballot and voted below it only
  at a ballot for which the same value was proposed.
\<close>

definition accept_req_ok :: "nat \<Rightarrow> nat \<Rightarrow> safe_pred \<Rightarrow> proposed_pred \<Rightarrow> accept_req \<Rightarrow> bool" where
  "accept_req_ok n k safe proposed q \<longleftrightarrow>
     ar_iid q \<noteq> 0 \<and> unat (ar_iid q) \<le> k \<and> 10 \<le> unat (ar_ballot q) \<and> 0 < ar_value_size q \<and>
     unat (ar_value_size q) \<le> length (ar_value q) \<and>
     (\<exists>Q \<in> majorities n. \<exists>lo < ar_ballot q.
        (\<forall>a \<in> Q. safe a (ar_iid q) lo (ar_ballot q)) \<and>
        (lo = 0 \<or> proposed (ar_iid q) lo (ar_payload q)))"

lemma lp_accept_cases:
  assumes "lp_accept l = (Some q, l1)" "lp_inv n l"
  obtains x rest v vs where "lp_preps l = x # rest" "quorum_reached (pi_quorum x)" "q = accept_of x v"
    "l1 = l\<lparr>lp_preps := rest, lp_values := vs, lp_accs := lp_accs l @
        [x\<lparr>pi_value := Some v, pi_quorum := q_clear (pi_quorum x)\<rparr>]\<rparr>"
    "set vs \<subseteq> set (lp_values l)" "msg_ok v" "pi_value x = Some v \<or> pi_value x = None \<and> v \<in> set (lp_values l)"
proof -
  from assms(1) obtain x rest where P: "lp_preps l = x # rest" "quorum_reached (pi_quorum x)"
    by (auto simp: lp_accept_def split: list.splits if_splits)
  show ?thesis
  proof (cases "pi_value x")
    case (Some v)
    moreover have "msg_ok v"
      using lp_invD(3) [OF assms(2), of x] P Some by (simp add: p_instance_inv_def)
    moreover have "l\<lparr>lp_values := lp_values l\<rparr> = l" by simp
    ultimately show ?thesis
      using assms(1) P that [of x rest v "lp_values l"] by (simp add: lp_accept_def)
  next
    case None
    with assms(1) P obtain v vs where "lp_values l = v # vs"
      by (auto simp: lp_accept_def split: list.splits)
    with None assms(1) P lp_invD(7) [OF assms(2), of v] show ?thesis
      by (intro that [of x rest v vs]) (auto simp: lp_accept_def)
  qed
qed

lemma lp_accept_None: "lp_accept l = (None, l1) \<Longrightarrow> l1 = l"
  by (auto simp: lp_accept_def split: list.splits if_splits option.splits)

lemma msg_payload_nonempty: "msg_ok v \<Longrightarrow> msg_payload v = msg_data v"
  by (simp add: msg_ok_def msg_payload_def)

lemma lp_accept_good:
  assumes good: "lp_good n k pid safe proposed l" and r: "lp_accept l = (Some q, l1)"
  shows "lp_good n (Suc k) pid safe (also_proposed proposed (Some q)) l1"
    "accept_req_ok n (Suc k) safe proposed q" "unat (ar_ballot q) mod 10 = pid"
    "\<And>v. \<not> proposed (ar_iid q) (ar_ballot q) v"
proof -
  note G = lp_goodD [OF good]
  let ?P = "also_proposed proposed (Some q)"
  obtain x rest v vs where x: "lp_preps l = x # rest" "quorum_reached (pi_quorum x)" "q = accept_of x v"
    and l1: "l1 = l\<lparr>lp_preps := rest, lp_values := vs, lp_accs := lp_accs l @
        [x\<lparr>pi_value := Some v, pi_quorum := q_clear (pi_quorum x)\<rparr>]\<rparr>"
    and v: "set vs \<subseteq> set (lp_values l)" "msg_ok v"
      "pi_value x = Some v \<or> pi_value x = None \<and> v \<in> set (lp_values l)"
    using lp_accept_cases [OF r G(1)] by metis
  have mem: "x \<in> set (lp_preps l)" using x(1) by simp
  note X = G(5) [OF mem] and bal = ballot_ok_pos
  have xb: "ballot_ok k pid (pi_ballot x)" using X by (simp add: inst_ok_def)
  have pay: "ar_payload q = msg_payload v" "ar_iid q = pi_iid x" "ar_ballot q = pi_ballot x"
    "ar_value_size q = msg_data_size v" "ar_value q = msg_data v"
    using v(2) by (simp_all add: x(3) accept_of_def ar_payload_def msg_payload_def msg_ok_def)
  have pos: "0 < msg_data_size v" and vb: "pi_value_ballot x = 0 \<or>
      proposed (pi_iid x) (pi_value_ballot x) (msg_payload v)"
    using X v(3) G(7) by (auto simp: inst_ok_def)
  have iid: "0 < pi_iid x" "pi_iid x \<le> lp_next l" using lp_invD(6) [OF G(1), of x] mem by auto
  then have iid_k: "unat (pi_iid x) \<le> Suc k" using G(4) by (simp add: word_le_nat_alt)
  show "unat (ar_ballot q) mod 10 = pid" using xb by (simp add: pay ballot_ok_def)
  show new: "\<not> proposed (ar_iid q) (ar_ballot q) w" for w
    using own_okD(2) [OF G(8) _ _ mem refl, of "pi_ballot x" w] xb by (auto simp: pay ballot_ok_def)
  from X obtain S where S: "counted (pi_quorum x) S"
    "\<forall>a \<in> S. safe a (pi_iid x) (pi_value_ballot x) (pi_ballot x)"
    by (auto simp: prep_ok_def)
  have "S \<in> majorities n"
    using counted_reached [OF _ S(1) x(2)] lp_invD(3) [OF G(1) mem] by (simp add: p_instance_inv_def)
  with S(2) vb pos iid iid_k xb v(2) X show "accept_req_ok n (Suc k) safe proposed q"
    unfolding accept_req_ok_def pay
    by (auto simp: ballot_ok_def msg_ok_def inst_ok_def)
  have inv: "lp_inv n l1" using lp_accept_inv [OF G(1)] r by simp
  have mono: "proposed i b w \<Longrightarrow> ?P i b w" for i b w by (simp add: also_proposed_def)
  have "inst_ok (Suc k) pid ?P y \<and> prep_ok safe y" if "y \<in> set rest" for y
    using G(5) [of y] that x(1) inst_ok_mono [of k pid proposed y "Suc k" ?P] mono by simp
  moreover have "inst_ok (Suc k) pid ?P y \<and> acc_ok ?P y" if "y \<in> set (lp_accs l)" for y
    using G(6) [OF that] inst_ok_mono [of k pid proposed y "Suc k" ?P] mono
    by (auto simp: acc_ok_def)
  moreover have "inst_ok (Suc k) pid ?P (x\<lparr>pi_value := Some v, pi_quorum := qq\<rparr>)" for qq
    using X pos vb ballot_ok_mono [OF xb, of "Suc k"] mono by (auto simp: inst_ok_def)
  moreover have "acc_ok ?P (x\<lparr>pi_value := Some v, pi_quorum := qq\<rparr>)" for qq
    by (auto simp: acc_ok_def also_proposed_def pay)
  moreover have "own_ok pid ?P l1"
  proof -
    have dist: "pi_iid y \<noteq> pi_iid x" if "y \<in> set rest \<union> set (lp_accs l)" for y
      using lp_invD(8) [OF G(1)] x(1) that by (auto simp: image_iff)
    show ?thesis
      unfolding own_ok_def
    proof (intro allI impI)
      fix i b w assume P: "?P i b w" "unat b mod 10 = pid"
      show "i \<le> lp_next l1 \<and> (\<forall>x \<in> set (lp_preps l1). pi_iid x = i \<longrightarrow> b < pi_ballot x) \<and>
        (\<forall>x \<in> set (lp_accs l1). pi_iid x = i \<longrightarrow>
          b < pi_ballot x \<or> b = pi_ballot x \<and> (\<forall>u. pi_value x = Some u \<longrightarrow> msg_payload u = w))"
      proof (cases "proposed i b w")
        case True
        with own_okD(1,2) [OF G(8) True P(2)] G(8) P(2) x(1) show ?thesis
          unfolding own_ok_def by (auto simp: l1)
      next
        case False
        with P(1) have "i = pi_iid x" "b = pi_ballot x" "w = msg_payload v"
          by (auto simp: also_proposed_def pay)
        with dist iid(2) show ?thesis by (auto simp: l1)
      qed
    qed
  qed
  ultimately show "lp_good n (Suc k) pid safe ?P l1"
    using inv G(2-4,7) v(1) unfolding lp_good_def by (auto simp: l1)
qed

lemma own_ok_sub:
  assumes "own_ok pid proposed l" "lp_next l1 = lp_next l"
    "set (lp_preps l1) \<subseteq> set (lp_preps l)" "set (lp_accs l1) \<subseteq> set (lp_accs l)"
  shows "own_ok pid proposed l1"
  using assms unfolding own_ok_def by (simp add: subset_iff)

lemma own_ok_iid_eq:
  assumes own: "own_ok pid proposed l" and next1: "lp_next l1 = lp_next l"
    and preps: "\<And>y. y \<in> set (lp_preps l1) \<Longrightarrow> \<exists>x. (x \<in> set (lp_preps l) \<and> pi_ballot x \<le> pi_ballot y \<or>
        x \<in> set (lp_accs l) \<and> pi_ballot x < pi_ballot y) \<and> pi_iid x = pi_iid y"
    and accs: "\<And>y. y \<in> set (lp_accs l1) \<Longrightarrow> \<exists>x \<in> set (lp_accs l). pi_iid x = pi_iid y \<and>
        pi_ballot x = pi_ballot y \<and> pi_value x = pi_value y"
  shows "own_ok pid proposed l1"
  unfolding own_ok_def
proof (intro allI impI conjI ballI)
  fix i b v assume P: "proposed i b v" "unat b mod 10 = pid"
  note O = own_okD [OF own P]
  show "i \<le> lp_next l1" using O(1) next1 by simp
  show "b < pi_ballot y" if "y \<in> set (lp_preps l1)" "pi_iid y = i" for y
  proof -
    obtain x where x: "x \<in> set (lp_preps l) \<and> pi_ballot x \<le> pi_ballot y \<or>
        x \<in> set (lp_accs l) \<and> pi_ballot x < pi_ballot y" "pi_iid x = pi_iid y"
      using preps [OF \<open>y \<in> set (lp_preps l1)\<close>] by blast
    then show "b < pi_ballot y"
      using O(2) [of x] O(4) [of x] that(2) order_less_le_trans order_le_less_trans by blast
  qed
  show "b < pi_ballot y \<or> b = pi_ballot y \<and> (\<forall>w. pi_value y = Some w \<longrightarrow> msg_payload w = v)"
    if y: "y \<in> set (lp_accs l1)" "pi_iid y = i" for y
  proof -
    obtain x where x: "x \<in> set (lp_accs l)" "pi_iid x = i" "pi_ballot x = pi_ballot y"
      "pi_value x = pi_value y"
      using accs [OF y(1)] y(2) by blast
    have "b < pi_ballot x \<or> b = pi_ballot x \<and> (\<forall>w. pi_value x = Some w \<longrightarrow> msg_payload w = v)"
      using own P x(1,2) unfolding own_ok_def by blast
    then show ?thesis unfolding x(3,4) .
  qed
qed

lemma lp_receive_accept_ack_good:
  assumes good: "lp_good n k pid safe proposed l" and k: "k < step_limit"
    and r: "lp_receive_accept_ack now l ack = (q, l1)"
  shows "lp_good n (Suc k) pid safe proposed l1"
    "\<And>pr. q = Some pr \<Longrightarrow> pr_iid pr \<noteq> 0 \<and> 10 \<le> unat (pr_ballot pr)"
proof -
  note D = lp_goodD [OF good] and G = lp_goodD [OF lp_good_Suc [OF good]]
  have inv: "lp_inv n l1" using lp_receive_accept_ack_inv [OF D(1), of now ack] r by simp
  have "lp_good n (Suc k) pid safe proposed l1 \<and>
    (\<forall>pr. q = Some pr \<longrightarrow> pr_iid pr \<noteq> 0 \<and> 10 \<le> unat (pr_ballot pr))"
  proof (cases "iid_index (aa_iid ack) (lp_accs l)")
    case None
    then show ?thesis using r lp_good_Suc [OF good] by (simp add: lp_receive_accept_ack_def)
  next
    case (Some i)
    note I = iid_index_Some [OF Some]
    let ?x = "lp_accs l ! i"
    let ?q = "q_flag (pi_quorum ?x) (nat (aa_acceptor_id ack))"
    let ?y = "preempted (lp_id l) now ?x"
    let ?rest = "without_iid (aa_iid ack) (lp_accs l)"
    have rest: "set ?rest \<subseteq> set (lp_accs l)" by (auto simp: without_iid_def)
    have X: "inst_ok k pid proposed ?x" "acc_ok proposed ?x" using D(6) [OF I(3)] by simp_all
    consider "l1 = l" "q = None" | "l1 = l\<lparr>lp_accs := ?rest\<rparr>" "q = None"
      | "l1 = l\<lparr>lp_accs := (lp_accs l)[i := ?x\<lparr>pi_quorum := ?q\<rparr>]\<rparr>" "q = None"
      | "l1 = l\<lparr>lp_accs := ?rest, lp_preps := ?y # lp_preps l\<rparr>" "q = Some (prepare_of ?y)"
      using r by (auto simp: lp_receive_accept_ack_def Some Let_def split: if_splits)
    then show ?thesis
    proof cases
      case 1
      then show ?thesis using lp_good_Suc [OF good] by simp
    next
      case 2
      with inv rest G own_ok_sub [OF G(8), of l1] show ?thesis
        unfolding lp_good_def by (auto simp: subset_iff)
    next
      case 3
      have mem: "y = ?x\<lparr>pi_quorum := ?q\<rparr> \<or> y \<in> set (lp_accs l)" if "y \<in> set (lp_accs l1)" for y
        using that set_update_subset_insert [of "lp_accs l" i "?x\<lparr>pi_quorum := ?q\<rparr>"] 3 by auto
      have "inst_ok (Suc k) pid proposed (?x\<lparr>pi_quorum := ?q\<rparr>)" "acc_ok proposed (?x\<lparr>pi_quorum := ?q\<rparr>)"
        using G(6) [OF I(3)] by (auto simp: inst_ok_def acc_ok_def split: option.splits)
      moreover have "own_ok pid proposed l1"
      proof (rule own_ok_iid_eq [OF G(8)])
        show "\<exists>x \<in> set (lp_accs l). pi_iid x = pi_iid y \<and> pi_ballot x = pi_ballot y \<and>
            pi_value x = pi_value y" if "y \<in> set (lp_accs l1)" for y
          using mem [OF that] I(3) by auto
      qed (use 3 in auto)
      ultimately show ?thesis
        using inv G 3 mem unfolding lp_good_def by auto
    next
      case 4
      note P = preempted_good [OF X(1) k, where i = "lp_id l" and now = now]
      have "own_ok pid proposed l1"
      proof (rule own_ok_iid_eq [OF G(8)])
        show "\<exists>x. (x \<in> set (lp_preps l) \<and> pi_ballot x \<le> pi_ballot y \<or>
            x \<in> set (lp_accs l) \<and> pi_ballot x < pi_ballot y) \<and> pi_iid x = pi_iid y"
          if "y \<in> set (lp_preps l1)" for y
          using that 4 P(3) I(3) by (cases "y = ?y") auto
      qed (use 4 rest in auto)
      moreover have "pi_iid ?x \<noteq> 0" using lp_invD(6) [OF D(1), of ?x] I(3) by auto
      moreover have "10 \<le> unat (pi_ballot ?y)" using P(1) by (simp add: inst_ok_def ballot_ok_def)
      ultimately show ?thesis
        using inv G 4 P(1,2) rest unfolding lp_good_def by (auto simp: prepare_of_def subset_iff)
    qed
  qed
  then show "lp_good n (Suc k) pid safe proposed l1"
    "\<And>pr. q = Some pr \<Longrightarrow> pr_iid pr \<noteq> 0 \<and> 10 \<le> unat (pr_ballot pr)"
    by blast+
qed

lemma touched_mem:
  assumes "y \<in> set (touched t k xs)" "k < length xs"
  obtains x u where "x \<in> set xs" "y = x \<or> y = x\<lparr>pi_created_at := u\<rparr>"
  using assms set_update_subset_insert [of xs k "(xs ! k)\<lparr>pi_created_at := t\<rparr>"] nth_mem [of k xs]
  unfolding touched_def by blast

lemma clock_good:
  "inst_ok k pid proposed (x\<lparr>pi_created_at := u\<rparr>) = inst_ok k pid proposed x"
  "prep_ok safe (x\<lparr>pi_created_at := u\<rparr>) = prep_ok safe x"
  "acc_ok proposed (x\<lparr>pi_created_at := u\<rparr>) = acc_ok proposed x"
  by (simp_all add: inst_ok_def prep_ok_def acc_ok_def split: option.split)

lemma touched_good:
  assumes good: "lp_good n k pid safe proposed l"
  shows "m < length (lp_preps l) \<Longrightarrow>
      lp_good n (Suc k) pid safe proposed (l\<lparr>lp_preps := touched t m (lp_preps l)\<rparr>)" (is "_ \<Longrightarrow> ?A")
    "m < length (lp_accs l) \<Longrightarrow>
      lp_good n (Suc k) pid safe proposed (l\<lparr>lp_accs := touched t m (lp_accs l)\<rparr>)" (is "_ \<Longrightarrow> ?B")
proof -
  note G = lp_goodD [OF lp_good_Suc [OF good]]
  {
    assume m: "m < length (lp_preps l)"
    let ?l = "l\<lparr>lp_preps := touched t m (lp_preps l)\<rparr>"
    have "own_ok pid proposed ?l"
      by (rule own_ok_iid_eq [OF G(8)]) (auto elim!: touched_mem [OF _ m])
    moreover have "inst_ok (Suc k) pid proposed y \<and> prep_ok safe y"
      if "y \<in> set (touched t m (lp_preps l))" for y
      using touched_mem [OF that m] G(5) clock_good by metis
    ultimately show ?A using touched_inv(1) [OF G(1) m] G(2-4,6,7) unfolding lp_good_def by simp
  }
  {
    assume m: "m < length (lp_accs l)"
    let ?l = "l\<lparr>lp_accs := touched t m (lp_accs l)\<rparr>"
    have "own_ok pid proposed ?l"
      by (rule own_ok_iid_eq [OF G(8)]) (auto elim!: touched_mem [OF _ m])
    moreover have "inst_ok (Suc k) pid proposed y \<and> acc_ok proposed y"
      if "y \<in> set (touched t m (lp_accs l))" for y
      using touched_mem [OF that m] G(6) clock_good by metis
    ultimately show ?B using touched_inv(2) [OF G(1) m] G(2-5,7) unfolding lp_good_def by simp
  }
qed

section \<open>The invariant of the messages\<close>

definition proposed_in :: "message list \<Rightarrow> proposed_pred" where
  "proposed_in net i b v \<longleftrightarrow>
     (\<exists>q. MAccept q \<in> set net \<and> ar_iid q = i \<and> ar_ballot q = b \<and> ar_payload q = v)"

definition accepted_in :: "message list \<Rightarrow> accept_ack set" where
  "accepted_in net = {a. MAccepted a \<in> set net}"

definition voted_in :: "message list \<Rightarrow> nat \<Rightarrow> iid_t \<Rightarrow> ballot_t \<Rightarrow> bool" where
  "voted_in net a i b \<longleftrightarrow> (\<exists>r \<in> accepted_in net.
     aa_acceptor_id r = int a \<and> aa_iid r = i \<and> aa_ballot r = b)"

definition accepted_ok :: "nat \<Rightarrow> nat \<Rightarrow> proposed_pred \<Rightarrow> accept_ack \<Rightarrow> bool" where
  "accepted_ok n k proposed r \<longleftrightarrow>
     0 \<le> aa_acceptor_id r \<and> aa_acceptor_id r < int n \<and> aa_is_final r = 0 \<and> aa_iid r \<noteq> 0 \<and>
     unat (aa_iid r) \<le> k \<and> unat (aa_value_size r) \<le> length (aa_value r) \<and>
     proposed (aa_iid r) (aa_ballot r) (aa_payload r)"

fun message_ok :: "nat \<Rightarrow> nat \<Rightarrow> safe_pred \<Rightarrow> proposed_pred \<Rightarrow> message \<Rightarrow> bool" where
  "message_ok n k safe proposed (MPrepare q) = (pr_iid q \<noteq> 0 \<and> 10 \<le> unat (pr_ballot q))"
| "message_ok n k safe proposed (MPromise a) = promise_ok n safe proposed a"
| "message_ok n k safe proposed (MAccept q) = accept_req_ok n k safe proposed q"
| "message_ok n k safe proposed (MAccepted r) = accepted_ok n k proposed r"
| "message_ok n k safe proposed (MNack r) =
     (0 \<le> aa_acceptor_id r \<and> aa_acceptor_id r < int n \<and> aa_is_final r = 0)"

lemma message_ok_mono:
  assumes m: "message_ok n k safe proposed m" and k: "k \<le> k'"
    and safe: "\<And>a i lo b. safe a i lo b \<Longrightarrow> safe' a i lo b"
    and pro: "\<And>i b v. proposed i b v \<Longrightarrow> proposed' i b v"
  shows "message_ok n k' safe' proposed' m"
proof (cases m)
  case (MPromise a)
  with m have P: "promise_ok n safe proposed a" by simp
  have "safe' (nat (pa_acceptor_id a)) (pa_iid a) (pa_value_ballot a) (pa_ballot a)"
    by (rule safe) (use P in \<open>simp add: promise_ok_def\<close>)
  moreover have "pa_value_size a \<noteq> 0 \<Longrightarrow> proposed' (pa_iid a) (pa_value_ballot a) (pa_payload a)"
    by (rule pro) (use P in \<open>simp add: promise_ok_def\<close>)
  ultimately show ?thesis using P by (simp add: MPromise promise_ok_def)
next
  case (MAccept q)
  with m have A: "accept_req_ok n k safe proposed q" by simp
  then obtain Q lo where Q: "Q \<in> majorities n" "lo < ar_ballot q"
    "\<forall>a \<in> Q. safe a (ar_iid q) lo (ar_ballot q)" "lo = 0 \<or> proposed (ar_iid q) lo (ar_payload q)"
    unfolding accept_req_ok_def by blast
  have 1: "\<forall>a \<in> Q. safe' a (ar_iid q) lo (ar_ballot q)"
    using Q(3) safe by blast
  have 2: "lo = 0 \<or> proposed' (ar_iid q) lo (ar_payload q)" using Q(4) pro by blast
  have 3: "\<exists>Q \<in> majorities n. \<exists>lo < ar_ballot q. (\<forall>a \<in> Q. safe' a (ar_iid q) lo (ar_ballot q)) \<and>
      (lo = 0 \<or> proposed' (ar_iid q) lo (ar_payload q))"
    using Q(1,2) 1 2 by blast
  have "accept_req_ok n k' safe' proposed' q"
    using A k 3 unfolding accept_req_ok_def by linarith
  then show ?thesis by (simp add: MAccept)
next
  case (MAccepted r)
  with m have "accepted_ok n k proposed r" by simp
  then show ?thesis using k pro [of "aa_iid r" "aa_ballot r" "aa_payload r"]
    by (simp add: MAccepted accepted_ok_def)
qed (use m in simp_all)

definition unique_values :: "proposed_pred \<Rightarrow> bool" where
  "unique_values proposed \<longleftrightarrow> (\<forall>i b v w. proposed i b v \<longrightarrow> proposed i b w \<longrightarrow> v = w)"

text \<open>
  The heart of the protocol: once a majority voted for a ballot, every accept request with that
  ballot or a higher one carries the same value.
\<close>

lemma chosen_is_kept:
  assumes msgs: "\<forall>q. MAccept q \<in> set net \<longrightarrow> accept_req_ok n k safe (proposed_in net) q"
    and uniq: "unique_values (proposed_in net)"
    and votes: "\<forall>a i lo b c. safe a i lo b \<longrightarrow> voted_in net a i c \<longrightarrow> c \<le> lo \<or> b \<le> c"
    and S: "S \<in> majorities n" "\<forall>a \<in> S. voted_in net a i b" "0 < b"
    and v: "proposed_in net i b v"
  shows "proposed_in net i c w \<Longrightarrow> b \<le> c \<Longrightarrow> w = v"
proof (induction "unat c" arbitrary: c rule: less_induct)
  case less
  show ?case
  proof (cases "c = b")
    case True
    with less.prems(1) v uniq show ?thesis unfolding unique_values_def by blast
  next
    case False
    then have "b < c" using less.prems(2) order_neq_le_trans by metis
    from less.prems(1) obtain q where q: "MAccept q \<in> set net" "ar_iid q = i" "ar_ballot q = c"
      "ar_payload q = w"
      by (auto simp: proposed_in_def)
    have "accept_req_ok n k safe (proposed_in net) q" using msgs q(1) by blast
    with q obtain Q lo where Q: "Q \<in> majorities n" "lo < c"
      "\<forall>a \<in> Q. safe a i lo c" "lo = 0 \<or> proposed_in net i lo w"
      by (auto simp: accept_req_ok_def)
    obtain a where a: "a \<in> S" "a \<in> Q" using maj.common_member [OF S(1) Q(1)] by blast
    with votes S(2) Q(3) have "b \<le> lo \<or> c \<le> b" by blast
    then have lo: "b \<le> lo" using \<open>b < c\<close> leD by blast
    then have "lo \<noteq> 0" using S(3) leD by blast
    with Q(4) have "proposed_in net i lo w" by blast
    moreover have "unat lo < unat c" using Q(2) by (simp add: word_less_nat_alt)
    ultimately show ?thesis using less.hyps lo by blast
  qed
qed

end
