(* ===== verification/Consensus.thy ===== *)
theory Consensus
  imports Agreement Storage_Mem
begin

text \<open>
  The invariant of the whole system, over any storage that keeps the contract \<open>record_store\<close>,
  its preservation by every step, and agreement of the learners.
\<close>

lemma proposed_in_append:
  "proposed_in (net @ ms) i b v \<longleftrightarrow> proposed_in net i b v \<or> proposed_in ms i b v"
  by (auto simp: proposed_in_def)

lemma accepted_in_append: "accepted_in (net @ ms) = accepted_in net \<union> accepted_in ms"
  by (auto simp: accepted_in_def)

lemma voted_in_append: "voted_in (net @ ms) a i b \<longleftrightarrow> voted_in net a i b \<or> voted_in ms a i b"
  by (auto simp: voted_in_def accepted_in_append)

lemma unat_ge_10_pos: "10 \<le> unat (b :: 32 word) \<Longrightarrow> 0 < b"
  by (metis not_numeral_le_zero unat_0 word_gt_0)

text \<open>The record of an instance in a storage: no value, or one that was proposed.\<close>

definition record_good :: "proposed_pred \<Rightarrow> acceptor_record \<Rightarrow> bool" where
  "record_good proposed r \<longleftrightarrow> 0 < aa_ballot r \<and> unat (aa_value_size r) \<le> length (aa_value r) \<and>
     (if aa_value_size r = 0 then aa_value_ballot r = 0
      else proposed (aa_iid r) (aa_value_ballot r) (aa_payload r))"

context record_store
begin

definition prom :: "'s system \<Rightarrow> nat \<Rightarrow> iid_t \<Rightarrow> ballot_t \<Rightarrow> bool" where
  "prom s a i b \<longleftrightarrow> (\<forall>acc. sys_acceptors s a = Some acc \<longrightarrow> live (acc_store acc) i \<longrightarrow>
     (\<exists>r. lookup (acc_store acc) i = Some r \<and> b \<le> aa_ballot r))"

definition safe :: "'s system \<Rightarrow> safe_pred" where
  "safe s a i lo b \<longleftrightarrow> i \<noteq> 0 \<and> prom s a i b \<and>
     (\<forall>c. voted_in (sys_net s) a i c \<longrightarrow> c \<le> lo \<or> b \<le> c)"

definition acceptor_good :: "nat \<Rightarrow> 's system \<Rightarrow> nat \<Rightarrow> 's acceptor \<Rightarrow> bool" where
  "acceptor_good n s a acc \<longleftrightarrow> a < n \<and> store_ok (acc_store acc) \<and> owner (acc_store acc) = int a \<and>
     (\<forall>i. i \<noteq> 0 \<longrightarrow> live (acc_store acc) i \<longrightarrow>
        (\<forall>c. voted_in (sys_net s) a i c \<longrightarrow>
           (\<exists>r. lookup (acc_store acc) i = Some r \<and> c \<le> aa_value_ballot r)) \<and>
        (\<forall>r. lookup (acc_store acc) i = Some r \<longrightarrow> record_good (proposed_in (sys_net s)) r))"

definition sys_good :: "nat \<Rightarrow> nat \<Rightarrow> nat \<Rightarrow> 's system \<Rightarrow> bool" where
  "sys_good n w k s \<longleftrightarrow>
     (\<forall>m \<in> set (sys_net s). message_ok n k (safe s) (proposed_in (sys_net s)) m) \<and>
     unique_values (proposed_in (sys_net s)) \<and>
     (\<forall>pid p. sys_proposers s pid = Some p \<longrightarrow>
        buffers_inv p \<and> lp_good n k pid (safe s) (proposed_in (sys_net s)) (lists_of p)) \<and>
     (\<forall>a acc. sys_acceptors s a = Some acc \<longrightarrow> acceptor_good n s a acc) \<and>
     (\<forall>j l. sys_learners s j = Some l \<longrightarrow> learner_inv n w (accepted_in (sys_net s)) l) \<and>
     (\<forall>(j, d) \<in> set (sys_delivered s). closed_by n (accepted_in (sys_net s)) d)"

lemma sys_goodD:
  assumes "sys_good n w k s"
  shows "\<And>m. m \<in> set (sys_net s) \<Longrightarrow> message_ok n k (safe s) (proposed_in (sys_net s)) m"
    "unique_values (proposed_in (sys_net s))"
    "\<And>pid p. sys_proposers s pid = Some p \<Longrightarrow>
       buffers_inv p \<and> lp_good n k pid (safe s) (proposed_in (sys_net s)) (lists_of p)"
    "\<And>a acc. sys_acceptors s a = Some acc \<Longrightarrow> acceptor_good n s a acc"
    "\<And>j l. sys_learners s j = Some l \<Longrightarrow> learner_inv n w (accepted_in (sys_net s)) l"
    "\<And>j d. (j, d) \<in> set (sys_delivered s) \<Longrightarrow> closed_by n (accepted_in (sys_net s)) d"
  using assms unfolding sys_good_def by auto

lemma proposed_iid:
  assumes "sys_good n w k s" "proposed_in (sys_net s) i b v"
  shows "unat i \<le> k" "0 < b"
proof -
  from assms(2) obtain q where q: "MAccept q \<in> set (sys_net s)" "ar_iid q = i" "ar_ballot q = b"
    by (auto simp: proposed_in_def)
  from sys_goodD(1) [OF assms(1) q(1)] q show "unat i \<le> k" "0 < b"
    by (auto simp: accept_req_ok_def intro: unat_ge_10_pos)
qed

lemma safe_bound: "safe_bound_mono (safe s)"
  unfolding safe_bound_mono_def safe_def by (meson order_trans)

lemma store_okD:
  "store_ok s0 \<Longrightarrow> i \<noteq> 0 \<Longrightarrow> live s0 i \<Longrightarrow> lookup s0 i = Some r \<Longrightarrow> record_ok (owner s0) r"
  by (simp add: store_ok_def)

text \<open>The messages and the proposers see the acceptors only through \<open>safe\<close>.\<close>

lemma sys_good_mono:
  assumes good: "sys_good n w k s" and k: "k \<le> k'"
    and net: "sys_net t = sys_net s @ ms"
    and safe: "\<And>a i lo b. safe s a i lo b \<Longrightarrow> safe t a i lo b"
    and new: "\<And>m. m \<in> set ms \<Longrightarrow> message_ok n k' (safe t) (proposed_in (sys_net t)) m"
    and uniq: "unique_values (proposed_in (sys_net t))"
    and pros: "\<And>pid p. sys_proposers t pid = Some p \<Longrightarrow>
        buffers_inv p \<and> lp_good n k' pid (safe t) (proposed_in (sys_net t)) (lists_of p)"
    and accs: "\<And>a acc. sys_acceptors t a = Some acc \<Longrightarrow> acceptor_good n t a acc"
    and lrns: "\<And>j l. sys_learners t j = Some l \<Longrightarrow> learner_inv n w (accepted_in (sys_net t)) l"
    and dels: "\<And>j d. (j, d) \<in> set (sys_delivered t) \<Longrightarrow> (j, d) \<in> set (sys_delivered s) \<or>
        closed_by n (accepted_in (sys_net t)) d"
  shows "sys_good n w k' t"
proof -
  note G = sys_goodD [OF good]
  have "message_ok n k' (safe t) (proposed_in (sys_net t)) m" if "m \<in> set (sys_net t)" for m
  proof (cases "m \<in> set ms")
    case False
    with that net have m: "m \<in> set (sys_net s)" by simp
    show ?thesis
      by (rule message_ok_mono [OF G(1) [OF m] k]) (simp_all add: safe net proposed_in_append)
  qed (rule new)
  moreover have "closed_by n (accepted_in (sys_net t)) d" if "(j, d) \<in> set (sys_delivered t)" for j d
    using dels [OF that] closed_by_mono [OF G(6) [of j d], of "accepted_in (sys_net t)"]
    by (auto simp: net accepted_in_append)
  ultimately show ?thesis
    using uniq pros accs lrns unfolding sys_good_def by blast
qed

section \<open>Steps of the processes\<close>

lemma safe_same:
  assumes "sys_acceptors t = sys_acceptors s" "sys_net t = sys_net s @ ms" "accepted_in ms = {}"
  shows "safe t = safe s"
  using assms by (intro ext) (simp add: safe_def prom_def voted_in_def accepted_in_append)

lemma acceptor_good_net:
  assumes "acceptor_good n s a acc" "accepted_in (sys_net t) = accepted_in (sys_net s)"
    "\<And>i b v. proposed_in (sys_net s) i b v \<Longrightarrow> proposed_in (sys_net t) i b v"
  shows "acceptor_good n t a acc"
  using assms unfolding acceptor_good_def voted_in_def record_good_def by auto

text \<open>A proposer sends prepare and accept requests.\<close>

lemma proposer_step_good:
  assumes good: "sys_good n w k s" and p: "sys_proposers s pid = Some p"
    and p1: "buffers_inv p1"
      "lp_good n (Suc k) pid (safe s) (proposed_in (sys_net s @ ms)) (lists_of p1)"
    and ms: "accepted_in ms = {}"
      "\<And>m. m \<in> set ms \<Longrightarrow> message_ok n (Suc k) (safe s) (proposed_in (sys_net s @ ms)) m"
      "\<And>q. MAccept q \<in> set ms \<Longrightarrow> unat (ar_ballot q) mod 10 = pid"
      "\<And>q v. MAccept q \<in> set ms \<Longrightarrow> proposed_in (sys_net s @ ms) (ar_iid q) (ar_ballot q) v \<Longrightarrow>
         v = ar_payload q"
  shows "sys_good n w (Suc k)
     (s\<lparr>sys_proposers := (sys_proposers s)(pid := Some p1), sys_net := sys_net s @ ms\<rparr>)"
    (is "sys_good n w (Suc k) ?t")
proof (rule sys_good_mono [OF good, of "Suc k" _ ms])
  note G = sys_goodD [OF good]
  have safe: "safe ?t = safe s" by (rule safe_same [OF _ _ ms(1)]) simp_all
  show "safe ?t a i lo b" if "safe s a i lo b" for a i lo b using that safe by simp
  show "message_ok n (Suc k) (safe ?t) (proposed_in (sys_net ?t)) m" if "m \<in> set ms" for m
    using ms(2) [OF that] safe by simp
  have "v = v'" if "proposed_in (sys_net ?t) i b v" "proposed_in (sys_net ?t) i b v'" for i b v v'
  proof (cases "\<exists>u. proposed_in ms i b u")
    case True
    then obtain q where "MAccept q \<in> set ms" "ar_iid q = i" "ar_ballot q = b"
      by (auto simp: proposed_in_def)
    with ms(4) [of q v] ms(4) [of q v'] that show ?thesis by simp
  next
    case False
    with that G(2) show ?thesis by (auto simp: proposed_in_append unique_values_def)
  qed
  then show "unique_values (proposed_in (sys_net ?t))" unfolding unique_values_def by blast
  show "buffers_inv p' \<and> lp_good n (Suc k) pid' (safe ?t) (proposed_in (sys_net ?t)) (lists_of p')"
    if p': "sys_proposers ?t pid' = Some p'" for pid' p'
  proof (cases "pid' = pid")
    case True
    with p' p1 safe show ?thesis by simp
  next
    case False
    with p' have old: "buffers_inv p'"
      "lp_good n k pid' (safe s) (proposed_in (sys_net s)) (lists_of p')"
      using G(3) [of pid' p'] by simp_all
    have "lp_good n (Suc k) pid' (safe s) (proposed_in (sys_net s @ ms)) (lists_of p')"
    proof (rule lp_good_mono [OF old(2)])
      show "proposed_in (sys_net s) i b v"
        if "proposed_in (sys_net s @ ms) i b v" "unat b mod 10 = pid'" for i b v
        using that False ms(3) by (auto simp: proposed_in_def)
    qed (simp_all add: proposed_in_append)
    with old(1) safe show ?thesis by simp
  qed
  show "acceptor_good n ?t a acc" if "sys_acceptors ?t a = Some acc" for a acc
    by (rule acceptor_good_net [of n s])
      (use G(4) [of a acc] that ms(1) in \<open>simp_all add: accepted_in_append proposed_in_append\<close>)
  show "learner_inv n w (accepted_in (sys_net ?t)) l" if "sys_learners ?t j = Some l" for j l
    using G(5) [of j l] that ms(1) by (simp add: accepted_in_append)
qed simp_all

lemma crash_proposer_good:
  assumes good: "sys_good n w k s"
  shows "sys_good n w (Suc k) (s\<lparr>sys_proposers := (sys_proposers s)(pid := None)\<rparr>)"
    (is "sys_good n w (Suc k) ?t")
proof (rule sys_good_mono [OF good, of "Suc k" _ "[]"])
  note G = sys_goodD [OF good]
  have safe: "safe ?t = safe s" by (rule safe_same [of _ _ "[]"]) (simp_all add: accepted_in_def)
  show "safe ?t a i lo b" if "safe s a i lo b" for a i lo b using that safe by simp
  show "buffers_inv p \<and> lp_good n (Suc k) j (safe ?t) (proposed_in (sys_net ?t)) (lists_of p)"
    if "sys_proposers ?t j = Some p" for j p
    using that G(3) [of j p] lp_good_Suc safe by (auto split: if_splits)
  show "acceptor_good n ?t a acc" if "sys_acceptors ?t a = Some acc" for a acc
    by (rule acceptor_good_net [of n s]) (use G(4) [of a acc] that in simp_all)
qed (use sys_goodD [OF good] in simp_all)

text \<open>An acceptor changes its records and sends acknowledgements.\<close>

lemma growsD:
  assumes "grows s t"
  shows "live t i \<Longrightarrow> live s i"
    "i \<noteq> 0 \<Longrightarrow> live t i \<Longrightarrow> lookup s i = Some r \<Longrightarrow>
      \<exists>r'. lookup t i = Some r' \<and> aa_ballot r \<le> aa_ballot r' \<and> aa_value_ballot r \<le> aa_value_ballot r'"
  using assms unfolding grows_def by blast+

lemma acceptor_goodD:
  assumes "acceptor_good n s a acc"
  shows "a < n" "store_ok (acc_store acc)" "owner (acc_store acc) = int a"
    "i \<noteq> 0 \<Longrightarrow> live (acc_store acc) i \<Longrightarrow> voted_in (sys_net s) a i c \<Longrightarrow>
       \<exists>r. lookup (acc_store acc) i = Some r \<and> c \<le> aa_value_ballot r"
    "i \<noteq> 0 \<Longrightarrow> live (acc_store acc) i \<Longrightarrow> lookup (acc_store acc) i = Some r \<Longrightarrow>
       record_good (proposed_in (sys_net s)) r"
  using assms unfolding acceptor_good_def by blast+

lemma safe_grows:
  assumes acc: "sys_acceptors s a = Some acc"
    and t: "sys_acceptors t = (sys_acceptors s)(a := Some acc1)" "sys_net t = sys_net s @ ms"
    and grows: "grows (acc_store acc) (acc_store acc1)"
    and other: "\<And>b i c. b \<noteq> a \<Longrightarrow> \<not> voted_in ms b i c"
    and votes: "\<And>i c r0. voted_in ms a i c \<Longrightarrow> live (acc_store acc) i \<and>
        (lookup (acc_store acc) i = Some r0 \<longrightarrow> aa_ballot r0 \<le> c)"
    and safe: "safe s b i lo c"
  shows "safe t b i lo c"
proof (cases "b = a")
  case False
  with safe t other show ?thesis by (auto simp: safe_def prom_def voted_in_append)
next
  case True
  from safe have i: "i \<noteq> 0" by (simp add: safe_def)
  have old: "\<exists>r. lookup (acc_store acc) i = Some r \<and> c \<le> aa_ballot r" if "live (acc_store acc) i"
    using safe that acc True by (simp add: safe_def prom_def)
  have "\<exists>r. lookup (acc_store acc1) i = Some r \<and> c \<le> aa_ballot r" if l: "live (acc_store acc1) i"
  proof -
    obtain r where r: "lookup (acc_store acc) i = Some r" "c \<le> aa_ballot r"
      using old growsD(1) [OF grows l] by blast
    from growsD(2) [OF grows i l r(1)] r(2) show ?thesis using order_trans by blast
  qed
  moreover have "c \<le> d" if "voted_in ms a i d" for d
    using votes [OF that] old order_trans by blast
  ultimately show ?thesis
    using safe True t by (auto simp: safe_def prom_def voted_in_append)
qed

lemma acceptor_step_good:
  assumes good: "sys_good n w k s" and acc: "sys_acceptors s a = Some acc"
    and store: "store_ok (acc_store acc1)" "owner (acc_store acc1) = owner (acc_store acc)"
      "grows (acc_store acc) (acc_store acc1)"
    and recs: "\<And>i r. i \<noteq> 0 \<Longrightarrow> live (acc_store acc1) i \<Longrightarrow> lookup (acc_store acc1) i = Some r \<Longrightarrow>
        record_good (proposed_in (sys_net s)) r"
    and reqs: "\<And>q. MAccept q \<notin> set ms"
    and other: "\<And>b i c. b \<noteq> a \<Longrightarrow> \<not> voted_in ms b i c"
    and votes: "\<And>i c r0. voted_in ms a i c \<Longrightarrow> live (acc_store acc) i \<and>
        (lookup (acc_store acc) i = Some r0 \<longrightarrow> aa_ballot r0 \<le> c)"
      "\<And>i c. voted_in ms a i c \<Longrightarrow> \<exists>r. lookup (acc_store acc1) i = Some r \<and> c \<le> aa_value_ballot r"
    and t: "t = s\<lparr>sys_acceptors := (sys_acceptors s)(a := Some acc1), sys_net := sys_net s @ ms\<rparr>"
    and msgs: "\<And>m. acceptor_good n t a acc1 \<Longrightarrow> m \<in> set ms \<Longrightarrow>
        message_ok n (Suc k) (safe t) (proposed_in (sys_net s)) m"
  shows "sys_good n w (Suc k) t"
proof -
  note G = sys_goodD [OF good]
  have pro: "proposed_in (sys_net t) = proposed_in (sys_net s)"
    using reqs by (intro ext) (auto simp: t proposed_in_def)
  have safe: "safe t b i lo c" if "safe s b i lo c" for b i lo c
    by (rule safe_grows [OF acc _ _ store(3) other votes(1) that]) (simp_all add: t)
  have goodt: "acceptor_good n t a acc1"
    unfolding acceptor_good_def
  proof (intro conjI allI impI)
    note A = acceptor_goodD [OF G(4) [OF acc]]
    show "a < n" "store_ok (acc_store acc1)" "owner (acc_store acc1) = int a"
      using A(1,3) store by simp_all
    fix i assume i: "i \<noteq> 0" "live (acc_store acc1) i"
    show "\<exists>r. lookup (acc_store acc1) i = Some r \<and> c \<le> aa_value_ballot r"
      if "voted_in (sys_net t) a i c" for c
    proof (cases "voted_in ms a i c")
      case False
      with that have old: "voted_in (sys_net s) a i c" by (simp add: t voted_in_append)
      from A(4) [OF i(1) growsD(1) [OF store(3) i(2)] old]
      obtain r where "lookup (acc_store acc) i = Some r" "c \<le> aa_value_ballot r" by blast
      with growsD(2) [OF store(3) i] show ?thesis using order_trans by blast
    qed (rule votes(2))
    show "record_good (proposed_in (sys_net t)) r" if "lookup (acc_store acc1) i = Some r" for r
      using recs [OF i that] pro by simp
  qed
  show ?thesis
  proof (rule sys_good_mono [OF good, of "Suc k" _ ms])
    show "message_ok n (Suc k) (safe t) (proposed_in (sys_net t)) m" if "m \<in> set ms" for m
      using msgs [OF goodt that] pro by simp
    show "buffers_inv p \<and> lp_good n (Suc k) pid (safe t) (proposed_in (sys_net t)) (lists_of p)"
      if "sys_proposers t pid = Some p" for pid p
      using that G(3) [of pid p]
        lp_good_mono [of n k pid "safe s" "proposed_in (sys_net s)" "lists_of p" "Suc k" "safe t"
          "proposed_in (sys_net s)"] safe pro
      by (simp add: t)
    show "acceptor_good n t b acc'" if "sys_acceptors t b = Some acc'" for b acc'
    proof (cases "b = a")
      case True
      with that goodt show ?thesis by (simp add: t)
    next
      case False
      with that have "acceptor_good n s b acc'" using G(4) by (simp add: t)
      with False other pro show ?thesis
        unfolding acceptor_good_def by (simp add: t voted_in_append)
    qed
    show "learner_inv n w (accepted_in (sys_net t)) l" if "sys_learners t j = Some l" for j l
      using learner_inv_mono [OF G(5) [of j l]] that by (auto simp: t accepted_in_append)
  qed (use G safe pro in \<open>simp_all add: t\<close>)
qed

lemma crash_acceptor_good:
  assumes good: "sys_good n w k s"
  shows "sys_good n w (Suc k) (s\<lparr>sys_acceptors := (sys_acceptors s)(a := None)\<rparr>)"
    (is "sys_good n w (Suc k) ?t")
proof (rule sys_good_mono [OF good, of "Suc k" _ "[]"])
  note G = sys_goodD [OF good]
  have safe: "safe ?t b i lo c" if "safe s b i lo c" for b i lo c
    using that by (simp add: safe_def prom_def)
  show "safe ?t b i lo c" if "safe s b i lo c" for b i lo c using safe [OF that] .
  show "buffers_inv p \<and> lp_good n (Suc k) pid (safe ?t) (proposed_in (sys_net ?t)) (lists_of p)"
    if "sys_proposers ?t pid = Some p" for pid p
    using that G(3) [of pid p]
      lp_good_mono [of n k pid "safe s" "proposed_in (sys_net s)" "lists_of p" "Suc k" "safe ?t"
        "proposed_in (sys_net s)"] safe
    by simp
  show "acceptor_good n ?t b acc" if "sys_acceptors ?t b = Some acc" for b acc
    by (rule acceptor_good_net [of n s]) (use G(4) [of b acc] that in \<open>simp_all split: if_splits\<close>)
qed (use sys_goodD [OF good] in simp_all)

section \<open>Calls of a proposer\<close>

text \<open>A call that only sends prepare requests.\<close>

lemma prepare_step_good:
  assumes good: "sys_good n w k s" and p: "sys_proposers s pid = Some p" and p1: "buffers_inv p1"
    "lp_good n (Suc k) pid (safe s) (proposed_in (sys_net s)) (lists_of p1)"
    and q: "\<And>pr. r = Some pr \<Longrightarrow> pr_iid pr \<noteq> 0 \<and> 10 \<le> unat (pr_ballot pr)"
  shows "sys_good n w (Suc k)
     (s\<lparr>sys_proposers := (sys_proposers s)(pid := Some p1), sys_net := sys_net s @ prepares r\<rparr>)"
proof -
  have net: "proposed_in (sys_net s @ prepares r) = proposed_in (sys_net s)"
    by (intro ext) (auto simp: proposed_in_def prepares_def split: option.splits)
  have mem: "m \<in> set (prepares r) \<longleftrightarrow> (\<exists>pr. r = Some pr \<and> m = MPrepare pr)" for m
    by (auto simp: prepares_def split: option.splits)
  show ?thesis
    by (rule proposer_step_good [OF good p p1(1)])
      (use p1(2) q in \<open>auto simp: net accepted_in_def mem\<close>)
qed

text \<open>A call that sends an accept request, a new one or again one that was sent before.\<close>

lemma accept_step_good:
  assumes good: "sys_good n w k s" and p: "sys_proposers s pid = Some p" and p1: "buffers_inv p1"
    "lp_good n (Suc k) pid (safe s) (also_proposed (proposed_in (sys_net s)) (Some q)) (lists_of p1)"
    and q: "accept_req_ok n (Suc k) (safe s) (proposed_in (sys_net s)) q"
      "unat (ar_ballot q) mod 10 = pid"
      "\<And>v. proposed_in (sys_net s) (ar_iid q) (ar_ballot q) v \<Longrightarrow> v = ar_payload q"
  shows "sys_good n w (Suc k)
     (s\<lparr>sys_proposers := (sys_proposers s)(pid := Some p1), sys_net := sys_net s @ [MAccept q]\<rparr>)"
proof -
  have net: "proposed_in (sys_net s @ [MAccept q]) = also_proposed (proposed_in (sys_net s)) (Some q)"
    by (intro ext) (auto simp: proposed_in_def also_proposed_def)
  have "message_ok n (Suc k) (safe s) (also_proposed (proposed_in (sys_net s)) (Some q)) (MAccept q)"
    by (rule message_ok_mono [of n "Suc k" "safe s" "proposed_in (sys_net s)"])
      (use q(1) in \<open>simp_all add: also_proposed_def\<close>)
  then show ?thesis
    by (intro proposer_step_good [OF good p p1(1)])
      (use p1(2) q(2,3) in \<open>auto simp: net accepted_in_def also_proposed_def\<close>)
qed

lemma with_proposer_good:
  assumes good: "sys_good n w k s"
    and step: "\<And>p ms p1. sys_proposers s pid = Some p \<Longrightarrow> f p = Ok (ms, p1) \<Longrightarrow>
      sys_good n w (Suc k)
        (s\<lparr>sys_proposers := (sys_proposers s)(pid := Some p1), sys_net := sys_net s @ ms\<rparr>)"
  shows "sys_good n w (Suc k) (with_proposer pid f s)"
proof -
  have same: "s\<lparr>sys_proposers := (sys_proposers s)(pid := None)\<rparr> = s" if "sys_proposers s pid = None"
    using that fun_upd_triv [of "sys_proposers s" pid] by simp
  show ?thesis
    using step crash_proposer_good [OF good, of pid] same
    by (auto simp: with_proposer_def split: option.splits sum.splits)
qed

lemma proposer_of_good:
  assumes "sys_good n w k s" "sys_proposers s pid = Some p"
  shows "lp_good n k pid (safe s) (proposed_in (sys_net s)) (lists_of p)" "proposer_inv n p"
    "buffers_inv p"
  using sys_goodD(3) [OF assms] lp_goodD(1) by (auto simp: proposer_inv_iff)

lemma step_propose:
  assumes good: "sys_good n w k s" and m: "0 < m"
  shows "sys_good n w (Suc k) (with_proposer pid (call_propose v m) s)"
proof (rule with_proposer_good [OF good])
  fix p ms p1 assume p: "sys_proposers s pid = Some p" and r: "call_propose v m p = Ok (ms, p1)"
  note P = proposer_of_good [OF good p]
  from r have ms: "ms = prepares None" and c: "proposer_propose p v m = Ok p1"
    by (auto simp: call_propose_def prepares_def res_simps)
  then have len: "unat m \<le> length v"
    by (auto simp: proposer_propose_def wrap_value_def res_simps split: if_splits)
  from proposer_propose_refines [OF P(3) len] c
  have "buffers_inv p1" "lists_of p1 = lp_propose (lists_of p) v m" by auto
  with prepare_step_good [OF good p, of p1 None] lp_propose_good [OF P(1) m len] ms
  show "sys_good n w (Suc k) (s\<lparr>sys_proposers := (sys_proposers s)(pid \<mapsto> p1),
      sys_net := sys_net s @ ms\<rparr>)"
    by simp
qed

lemma step_prepare:
  assumes good: "sys_good n w k s" and k: "k < step_limit"
  shows "sys_good n w (Suc k) (with_proposer pid (call_prepare junk now) s)"
proof (rule with_proposer_good [OF good])
  fix p ms p1 assume p: "sys_proposers s pid = Some p" and r: "call_prepare junk now p = Ok (ms, p1)"
  note P = proposer_of_good [OF good p]
  from r obtain q where ms: "ms = prepares (Some q)" and c: "proposer_prepare junk now p = Ok (q, p1)"
    by (auto simp: call_prepare_def prepares_def res_simps)
  from proposer_prepare_refines [OF P(2), of junk now] c
  have "buffers_inv p1" "lp_prepare junk now (lists_of p) = (q, lists_of p1)"
    by (auto simp: implements_def)
  with prepare_step_good [OF good p, of p1 "Some q"] lp_prepare_good [OF P(1) k] ms
  show "sys_good n w (Suc k) (s\<lparr>sys_proposers := (sys_proposers s)(pid \<mapsto> p1),
      sys_net := sys_net s @ ms\<rparr>)"
    by simp
qed

lemma step_promise:
  assumes good: "sys_good n w k s" and k: "k < step_limit" and net: "MPromise ack \<in> set (sys_net s)"
  shows "sys_good n w (Suc k) (with_proposer pid (call_promise now ack) s)"
proof (rule with_proposer_good [OF good])
  fix p ms p1 assume p: "sys_proposers s pid = Some p" and r: "call_promise now ack p = Ok (ms, p1)"
  note P = proposer_of_good [OF good p]
  have a: "promise_ok n (safe s) (proposed_in (sys_net s)) ack"
    using sys_goodD(1) [OF good net] by simp
  from r obtain q where ms: "ms = prepares q"
    and c: "proposer_receive_prepare_ack now p ack = Ok (q, p1)"
    by (auto simp: call_promise_def res_simps)
  from proposer_receive_prepare_ack_refines [OF P(2), of ack now] a c
  have R: "buffers_inv p1" "lp_receive_prepare_ack now (lists_of p) ack = (q, lists_of p1)"
    by (auto simp: implements_def promise_ok_def)
  from prepare_step_good [OF good p R(1), of q]
    lp_receive_prepare_ack_good [OF P(1) k a safe_bound R(2)] ms
  show "sys_good n w (Suc k) (s\<lparr>sys_proposers := (sys_proposers s)(pid \<mapsto> p1),
      sys_net := sys_net s @ ms\<rparr>)"
    by simp
qed

lemma step_accepted:
  assumes good: "sys_good n w k s" and k: "k < step_limit"
    and net: "MAccepted ack \<in> set (sys_net s) \<or> MNack ack \<in> set (sys_net s)"
  shows "sys_good n w (Suc k) (with_proposer pid (call_accepted now ack) s)"
proof (rule with_proposer_good [OF good])
  fix p ms p1 assume p: "sys_proposers s pid = Some p" and r: "call_accepted now ack p = Ok (ms, p1)"
  note P = proposer_of_good [OF good p]
  have aid: "0 \<le> aa_acceptor_id ack" "aa_acceptor_id ack < int n"
    using net sys_goodD(1) [OF good, of "MAccepted ack"] sys_goodD(1) [OF good, of "MNack ack"]
    by (auto simp: accepted_ok_def)
  from r obtain q where ms: "ms = prepares q"
    and c: "proposer_receive_accept_ack now p ack = Ok (q, p1)"
    by (auto simp: call_accepted_def res_simps)
  from proposer_receive_accept_ack_refines [OF P(2) aid c] c
  have R: "buffers_inv p1" "lp_receive_accept_ack now (lists_of p) ack = (q, lists_of p1)"
    by (auto simp: implements_def)
  from prepare_step_good [OF good p R(1), of q] lp_receive_accept_ack_good [OF P(1) k R(2)] ms
  show "sys_good n w (Suc k) (s\<lparr>sys_proposers := (sys_proposers s)(pid \<mapsto> p1),
      sys_net := sys_net s @ ms\<rparr>)"
    by simp
qed

lemma step_accept:
  assumes good: "sys_good n w k s"
  shows "sys_good n w (Suc k) (with_proposer pid call_accept s)"
proof (rule with_proposer_good [OF good])
  fix p ms p1 assume p: "sys_proposers s pid = Some p" and r: "call_accept p = Ok (ms, p1)"
  note P = proposer_of_good [OF good p]
  from r obtain r1 where ms: "ms = accepts r1" and c: "proposer_accept p = Ok (r1, p1)"
    by (auto simp: call_accept_def res_simps)
  from proposer_accept_refines [OF P(2)] c
  have R: "buffers_inv p1" "lp_accept (lists_of p) = (r1, lists_of p1)"
    by (auto simp: implements_def)
  show "sys_good n w (Suc k) (s\<lparr>sys_proposers := (sys_proposers s)(pid \<mapsto> p1),
      sys_net := sys_net s @ ms\<rparr>)"
  proof (cases r1)
    case None
    with R(2) have "lists_of p1 = lists_of p" using lp_accept_None by blast
    with prepare_step_good [OF good p R(1), of None] lp_good_Suc [OF P(1)] ms None show ?thesis
      by (simp add: accepts_def prepares_def)
  next
    case (Some q)
    note A = lp_accept_good [OF P(1) R(2) [unfolded Some]]
    have "sys_good n w (Suc k) (s\<lparr>sys_proposers := (sys_proposers s)(pid \<mapsto> p1),
        sys_net := sys_net s @ [MAccept q]\<rparr>)"
      by (rule accept_step_good [OF good p R(1) A(1,2,3)]) (use A(4) in blast)
    with ms Some show ?thesis by (simp add: accepts_def)
  qed
qed

text \<open>A request that is sent again was sent before.\<close>

lemma accept_again_ok:
  assumes good: "sys_good n w k s" and x: "x \<in> set (lp_accs l)" "pi_value x = Some v"
    and l: "lp_good n k pid (safe s) (proposed_in (sys_net s)) l"
  shows "accept_req_ok n (Suc k) (safe s) (proposed_in (sys_net s)) (accept_of x v)"
    "proposed_in (sys_net s) (pi_iid x) (pi_ballot x) (msg_payload v)"
    "ar_payload (accept_of x v) = msg_payload v" "unat (pi_ballot x) mod 10 = pid"
proof -
  note D = lp_goodD [OF l]
  have ok: "msg_ok v" using lp_invD(4) [OF D(1) x(1)] x(2) by (simp add: p_instance_inv_def)
  have X: "inst_ok k pid (proposed_in (sys_net s)) x" "acc_ok (proposed_in (sys_net s)) x"
    using D(6) [OF x(1)] by simp_all
  show pay: "ar_payload (accept_of x v) = msg_payload v"
    using ok by (simp add: accept_of_def ar_payload_def msg_payload_def msg_ok_def)
  show "unat (pi_ballot x) mod 10 = pid" using X(1) by (simp add: inst_ok_def ballot_ok_def)
  show "proposed_in (sys_net s) (pi_iid x) (pi_ballot x) (msg_payload v)"
    using X(2) x(2) by (simp add: acc_ok_def)
  then obtain q where q: "MAccept q \<in> set (sys_net s)" "ar_iid q = pi_iid x"
    "ar_ballot q = pi_ballot x" "ar_payload q = msg_payload v"
    by (auto simp: proposed_in_def)
  have "message_ok n (Suc k) (safe s) (proposed_in (sys_net s)) (MAccept q)"
    by (rule message_ok_mono [OF sys_goodD(1) [OF good q(1)]]) simp_all
  moreover have "0 < msg_data_size v" using X(1) x(2) by (simp add: inst_ok_def)
  ultimately show "accept_req_ok n (Suc k) (safe s) (proposed_in (sys_net s)) (accept_of x v)"
    using q ok pay by (simp add: accept_req_ok_def) (simp add: accept_of_def msg_payload_def msg_ok_def)
qed

lemma step_timeout_prepare:
  assumes good: "sys_good n w k s"
  shows "sys_good n w (Suc k) (with_proposer pid (call_timeout_prepare cfg it) s)"
proof (rule with_proposer_good [OF good])
  fix p ms p1 assume p: "sys_proposers s pid = Some p"
    and r: "call_timeout_prepare cfg it p = Ok (ms, p1)"
  note P = proposer_of_good [OF good p]
  let ?l = "lists_of p"
  from r obtain q it1 where ms: "ms = prepares q"
    and c: "timeout_iterator_prepare cfg it p = Ok (q, it1, p1)"
    by (auto simp: call_timeout_prepare_def res_simps)
  note T = timeout_iterator_prepare_Ok [OF P(2) c]
  have "lp_good n (Suc k) pid (safe s) (proposed_in (sys_net s)) (lists_of p1)"
    using T lp_good_Suc [OF P(1)] touched_good(1) [OF P(1)] by auto
  moreover have "pr_iid pr \<noteq> 0 \<and> 10 \<le> unat (pr_ballot pr)" if "q = Some pr" for pr
  proof -
    from T that obtain m where m: "m < length (lp_preps ?l)" "pr = prepare_of (lp_preps ?l ! m)"
      by auto
    then have mem: "lp_preps ?l ! m \<in> set (lp_preps ?l)" by simp
    from lp_goodD(5) [OF P(1) mem] lp_invD(6) [OF lp_goodD(1) [OF P(1)], of "lp_preps ?l ! m"] mem m
    show ?thesis by (simp add: prepare_of_def inst_ok_def ballot_ok_def word_gt_0)
  qed
  ultimately show "sys_good n w (Suc k) (s\<lparr>sys_proposers := (sys_proposers s)(pid \<mapsto> p1),
      sys_net := sys_net s @ ms\<rparr>)"
    using prepare_step_good [OF good p conjunct1 [OF T]] ms by simp
qed

lemma step_timeout_accept:
  assumes good: "sys_good n w k s"
  shows "sys_good n w (Suc k) (with_proposer pid (call_timeout_accept cfg it) s)"
proof (rule with_proposer_good [OF good])
  fix p ms p1 assume p: "sys_proposers s pid = Some p"
    and r: "call_timeout_accept cfg it p = Ok (ms, p1)"
  note P = proposer_of_good [OF good p]
  let ?l = "lists_of p"
  from r obtain q it1 where ms: "ms = accepts q"
    and c: "timeout_iterator_accept cfg it p = Ok (q, it1, p1)"
    by (auto simp: call_timeout_accept_def res_simps)
  note T = timeout_iterator_accept_Ok [OF P(2) c]
  show "sys_good n w (Suc k) (s\<lparr>sys_proposers := (sys_proposers s)(pid \<mapsto> p1),
      sys_net := sys_net s @ ms\<rparr>)"
  proof (cases q)
    case None
    with T prepare_step_good [OF good p, of p1 None] lp_good_Suc [OF P(1)] ms show ?thesis
      by (simp add: accepts_def prepares_def)
  next
    case (Some ar)
    with T obtain m v where m: "m < length (lp_accs ?l)" "pi_value (lp_accs ?l ! m) = Some v"
      "ar = accept_of (lp_accs ?l ! m) v"
      "lists_of p1 = ?l\<lparr>lp_accs := touched (ti_timeout it) m (lp_accs ?l)\<rparr>"
      by auto
    let ?x = "lp_accs ?l ! m"
    have mem: "?x \<in> set (lp_accs ?l)" using m(1) by simp
    note A = accept_again_ok [OF good mem m(2) P(1)]
    have ar: "ar_iid ar = pi_iid ?x" "ar_ballot ar = pi_ballot ?x" by (simp_all add: m(3) accept_of_def)
    have "also_proposed (proposed_in (sys_net s)) (Some ar) = proposed_in (sys_net s)"
      using A(2,3) ar by (intro ext) (auto simp: also_proposed_def m(3))
    then have l1: "lp_good n (Suc k) pid (safe s)
        (also_proposed (proposed_in (sys_net s)) (Some ar)) (lists_of p1)"
      using touched_good(2) [OF P(1) m(1)] m(4) by simp
    have "v' = ar_payload ar" if "proposed_in (sys_net s) (ar_iid ar) (ar_ballot ar) v'" for v'
      using that A(2,3) ar sys_goodD(2) [OF good] by (auto simp: unique_values_def m(3))
    then have "sys_good n w (Suc k) (s\<lparr>sys_proposers := (sys_proposers s)(pid \<mapsto> p1),
        sys_net := sys_net s @ [MAccept ar]\<rparr>)"
      using accept_step_good [OF good p conjunct1 [OF T] l1] A(1,4) ar(2) m(3) by simp
    with ms Some show ?thesis by (simp add: accepts_def)
  qed
qed

section \<open>Calls of an acceptor\<close>

lemma with_acceptor_good:
  assumes good: "sys_good n w k s"
    and step: "\<And>acc ms acc1. sys_acceptors s a = Some acc \<Longrightarrow> f acc = Ok (ms, acc1) \<Longrightarrow>
      sys_good n w (Suc k)
        (s\<lparr>sys_acceptors := (sys_acceptors s)(a := Some acc1), sys_net := sys_net s @ ms\<rparr>)"
  shows "sys_good n w (Suc k) (with_acceptor a f s)"
proof -
  have same: "s\<lparr>sys_acceptors := (sys_acceptors s)(a := None)\<rparr> = s" if "sys_acceptors s a = None"
    using that fun_upd_triv [of "sys_acceptors s" a] by simp
  show ?thesis
    using step crash_acceptor_good [OF good, of a] same
    by (auto simp: with_acceptor_def split: option.splits sum.splits)
qed

text \<open>Writing one record: the others of the live instances were there before.\<close>

lemma store_write_records:
  assumes "store_write lookup live i rec s0 s1" "live s1 j" "lookup s1 j = Some r"
    "j \<noteq> 0" "record_good proposed rec"
    "\<And>j r. j \<noteq> 0 \<Longrightarrow> live s0 j \<Longrightarrow> lookup s0 j = Some r \<Longrightarrow> record_good proposed r"
  shows "record_good proposed r"
  using assms by (cases "j = i") (auto simp: store_write_def)

lemma voted_single:
  "voted_in [MAccepted r] a i c \<longleftrightarrow> aa_acceptor_id r = int a \<and> aa_iid r = i \<and> aa_ballot r = c"
  "\<not> voted_in [MNack r] a i c" "\<not> voted_in [MPromise q] a i c" "\<not> voted_in [] a i c"
  by (auto simp: voted_in_def accepted_in_def)

lemma step_acceptor_prepare:
  assumes good: "sys_good n w k s" and net: "MPrepare pr \<in> set (sys_net s)"
  shows "sys_good n w (Suc k) (with_acceptor a (call_acceptor_prepare ops pr) s)"
proof (rule with_acceptor_good [OF good])
  fix acc ms acc1 assume acc: "sys_acceptors s a = Some acc"
    and r: "call_acceptor_prepare ops pr acc = Ok (ms, acc1)"
  note A = acceptor_goodD [OF sys_goodD(4) [OF good acc]]
  have i: "pr_iid pr \<noteq> 0" and "10 \<le> unat (pr_ballot pr)" using sys_goodD(1) [OF good net] by simp_all
  then have b: "0 < pr_ballot pr" by (intro unat_ge_10_pos)
  from r obtain rec where c: "acceptor_receive_prepare ops acc pr = Ok (rec, acc1)"
    and ms: "ms = [MPromise (prepare_ack_of rec)]"
    by (auto simp: call_acceptor_prepare_def res_simps)
  from c have "acceptor_handle ops acc (RPrepare pr) = Ok (Some rec, acc1)" by simp
  note H = handle_grows [OF A(2) this]
  have inv: "inv (acc_store acc)" using A(2) by (simp add: store_ok_def)
  note S = receive_prepare_spec [OF inv c]
  have rec: "record_good (proposed_in (sys_net s)) rec"
  proof (cases "lookup (acc_store acc) (pr_iid pr)")
    case None
    with S b show ?thesis by (simp add: prepare_answer_def is_promise_record_def record_good_def)
  next
    case (Some r0)
    with A(5) [OF i] S b show ?thesis
      by (auto simp: prepare_answer_def record_good_def aa_payload_def)
  qed
  have iid: "aa_iid rec = pr_iid pr" using H lookup_iid [of "acc_store acc1"] by (simp add: store_ok_def)
  have rok: "record_ok (int a) rec" using H i A(3) store_okD [of "acc_store acc1"] by simp
  let ?t = "s\<lparr>sys_acceptors := (sys_acceptors s)(a \<mapsto> acc1), sys_net := sys_net s @ ms\<rparr>"
  show "sys_good n w (Suc k) ?t"
  proof (rule acceptor_step_good [OF good acc _ _ _ _ _ _ _ _ refl])
    show "store_ok (acc_store acc1)" "owner (acc_store acc1) = owner (acc_store acc)"
      "grows (acc_store acc) (acc_store acc1)" using H by simp_all
    show "record_good (proposed_in (sys_net s)) r"
      if "j \<noteq> 0" "live (acc_store acc1) j" "lookup (acc_store acc1) j = Some r" for j r
      using store_write_records [of "pr_iid pr" rec _ _ j r] S that rec A(5) by blast
    fix m assume t: "acceptor_good n ?t a acc1" and m: "m \<in> set ms"
    have "safe ?t a (pr_iid pr) (aa_value_ballot rec) (aa_ballot rec)"
      using acceptor_goodD(4) [OF t i] H i by (auto simp: safe_def prom_def)
    with rec rok iid A(1) m ms
    show "message_ok n (Suc k) (safe ?t) (proposed_in (sys_net s)) m"
      by (auto simp: promise_ok_def prepare_ack_of_def record_good_def record_ok_def pa_payload_def
          aa_payload_def split: if_splits)
  qed (simp_all add: ms voted_single)
qed

lemma step_acceptor_accept:
  assumes good: "sys_good n w k s" and net: "MAccept ar \<in> set (sys_net s)"
  shows "sys_good n w (Suc k) (with_acceptor a (call_acceptor_accept ops ar) s)"
proof (rule with_acceptor_good [OF good])
  fix acc ms acc1 assume acc: "sys_acceptors s a = Some acc"
    and r: "call_acceptor_accept ops ar acc = Ok (ms, acc1)"
  note A = acceptor_goodD [OF sys_goodD(4) [OF good acc]]
  have ar: "accept_req_ok n k (safe s) (proposed_in (sys_net s)) ar"
    using sys_goodD(1) [OF good net] by simp
  then have i: "ar_iid ar \<noteq> 0" and "10 \<le> unat (ar_ballot ar)" by (simp_all add: accept_req_ok_def)
  then have b: "0 < ar_ballot ar" by (intro unat_ge_10_pos)
  from r obtain rec where c: "acceptor_receive_accept ops acc ar = Ok (rec, acc1)"
    and ms: "ms = [if ar_ballot ar = aa_ballot rec then MAccepted (trunc_ack rec)
                  else MNack (trunc_ack rec)]"
    by (auto simp: call_acceptor_accept_def res_simps)
  from c have "acceptor_handle ops acc (RAccept ar) = Ok (Some rec, acc1)" by simp
  note H = handle_grows [OF A(2) this]
  have inv: "inv (acc_store acc)" using A(2) by (simp add: store_ok_def)
  note S = receive_accept_spec [OF inv c]
  have new: "proposed_in (sys_net s) (ar_iid ar) (ar_ballot ar) (ar_payload ar)"
    using net by (auto simp: proposed_in_def)
  have vote: "is_accept_record (int a) ar rec \<and> record_good (proposed_in (sys_net s)) rec"
    if "is_accept_record (int a) ar rec"
  proof -
    from that have sz: "aa_value_size rec = ar_value_size ar" by (simp add: is_accept_record_def)
    moreover from that have "take (unat (ar_value_size ar)) (aa_value rec) = ar_payload ar"
      unfolding is_accept_record_def aa_payload_def sz [symmetric] by blast
    ultimately have "unat (aa_value_size rec) \<le> length (aa_value rec)"
      using ar by (metis accept_req_ok_def ar_payload_def length_take min.absorb2 min.cobounded1)
    with that new ar b show ?thesis
      by (auto simp: is_accept_record_def record_good_def accept_req_ok_def)
  qed
  have rec: "record_good (proposed_in (sys_net s)) rec"
    using S A(3) A(5) [OF i] vote by (auto simp: accept_answer_def split: option.splits if_splits)
  have accepted: "is_accept_record (int a) ar rec" if "ar_ballot ar = aa_ballot rec"
    using S A(3) that by (auto simp: accept_answer_def split: option.splits if_splits)
  have iid: "aa_iid rec = ar_iid ar" using H lookup_iid [of "acc_store acc1"] by (simp add: store_ok_def)
  have rok: "record_ok (int a) rec" using H i A(3) store_okD [of "acc_store acc1"] by simp
  let ?t = "s\<lparr>sys_acceptors := (sys_acceptors s)(a \<mapsto> acc1), sys_net := sys_net s @ ms\<rparr>"
  have voted: "c = ar_ballot ar \<and> j = ar_iid ar \<and> is_accept_record (int a) ar rec \<and> b = a"
    if "voted_in ms b j c" for b j c
    using that accepted iid rok unfolding ms record_ok_def
    by (auto simp: voted_single split: if_splits)
  show "sys_good n w (Suc k) ?t"
  proof (rule acceptor_step_good [OF good acc _ _ _ _ _ _ _ _ refl])
    show "store_ok (acc_store acc1)" "owner (acc_store acc1) = owner (acc_store acc)"
      "grows (acc_store acc) (acc_store acc1)" using H by simp_all
    show "record_good (proposed_in (sys_net s)) r"
      if "j \<noteq> 0" "live (acc_store acc1) j" "lookup (acc_store acc1) j = Some r" for j r
      using store_write_records [of "ar_iid ar" rec _ _ j r] S that rec A(5) by blast
    show "MAccept q \<notin> set ms" for q by (simp add: ms)
    show "\<not> voted_in ms b j c" if "b \<noteq> a" for b j c using voted that by blast
    show "live (acc_store acc) j \<and> (lookup (acc_store acc) j = Some r0 \<longrightarrow> aa_ballot r0 \<le> c)"
      if "voted_in ms a j c" for j c r0
      using voted [OF that] S A(3)
      by (auto simp: accept_answer_def is_accept_record_def not_less split: if_splits)
    show "\<exists>r. lookup (acc_store acc1) j = Some r \<and> c \<le> aa_value_ballot r"
      if "voted_in ms a j c" for j c
      using voted [OF that] H by (auto simp: is_accept_record_def)
    fix m assume m: "m \<in> set ms"
    show "message_ok n (Suc k) (safe ?t) (proposed_in (sys_net s)) m"
      using m accepted rec rok iid A(1) ar new unfolding ms
      by (auto simp: accepted_ok_def record_good_def record_ok_def accept_req_ok_def
          is_accept_record_def trunc_ack_def aa_payload_def split: if_splits)
  qed
qed

lemma step_acceptor_repeat:
  assumes good: "sys_good n w k s"
    and ok: "event_ok ops (EAcceptorRepeat a i) s"
  shows "sys_good n w (Suc k) (with_acceptor a (call_acceptor_repeat ops i) s)"
proof (rule with_acceptor_good [OF good])
  fix acc ms acc1 assume acc: "sys_acceptors s a = Some acc"
    and r: "call_acceptor_repeat ops i acc = Ok (ms, acc1)"
  note A = acceptor_goodD [OF sys_goodD(4) [OF good acc]]
  have i: "i \<noteq> 0" using ok by simp
  from r obtain rr where c: "acceptor_receive_repeat ops acc i = Ok (rr, acc1)"
    and ms: "ms = (case rr of None \<Rightarrow> [] | Some rec \<Rightarrow> [MAccepted (trunc_ack rec)])"
    by (auto simp: call_acceptor_repeat_def res_simps)
  have inv: "inv (acc_store acc)" using A(2) by (simp add: store_ok_def)
  note S = receive_repeat_spec [OF inv c]
  from c have "acceptor_handle ops acc (RRepeat i) = Ok (rr, acc1)" by simp
  note H = handle_grows [OF A(2) this]
  have rec: "record_good (proposed_in (sys_net s)) rec \<and> record_ok (int a) rec \<and> aa_iid rec = i \<and>
      aa_value_ballot rec = aa_ballot rec" if "rr = Some rec" for rec
    using that S A(3,5) i ok c acc lookup_iid [OF inv, of i rec] store_okD [OF A(2), of i rec] by auto
  let ?t = "s\<lparr>sys_acceptors := (sys_acceptors s)(a \<mapsto> acc1), sys_net := sys_net s @ ms\<rparr>"
  have voted: "\<exists>rec. rr = Some rec \<and> j = i \<and> c = aa_ballot rec \<and> b = a" if "voted_in ms b j c" for b j c
    using that rec unfolding ms record_ok_def
    by (auto simp: voted_single split: option.splits)
  show "sys_good n w (Suc k) ?t"
  proof (rule acceptor_step_good [OF good acc _ _ _ _ _ _ _ _ refl])
    show "store_ok (acc_store acc1)" "owner (acc_store acc1) = owner (acc_store acc)"
      "grows (acc_store acc) (acc_store acc1)" using H by simp_all
    show "record_good (proposed_in (sys_net s)) r"
      if "j \<noteq> 0" "live (acc_store acc1) j" "lookup (acc_store acc1) j = Some r" for j r
      using A(5) [OF that(1)] S that by simp
    show "MAccept q \<notin> set ms" for q by (simp add: ms split: option.splits)
    show "\<not> voted_in ms b j c" if "b \<noteq> a" for b j c using voted that by blast
    show "live (acc_store acc) j \<and> (lookup (acc_store acc) j = Some r0 \<longrightarrow> aa_ballot r0 \<le> c)"
      if "voted_in ms a j c" for j c r0
      using voted [OF that] S by auto
    show "\<exists>r. lookup (acc_store acc1) j = Some r \<and> c \<le> aa_value_ballot r"
      if "voted_in ms a j c" for j c
      using voted [OF that] S rec by auto
    fix m assume "m \<in> set ms"
    then obtain rec1 where m: "rr = Some rec1" "m = MAccepted (trunc_ack rec1)"
      by (auto simp: ms split: option.splits)
    note R = rec [OF m(1)]
    then have "proposed_in (sys_net s) i (aa_ballot rec1) (aa_payload rec1)"
      by (auto simp: record_good_def split: if_splits)
    moreover from proposed_iid [OF good this] have "unat i \<le> Suc k" by simp
    ultimately show "message_ok n (Suc k) (safe ?t) (proposed_in (sys_net s)) m"
      using R m i A(1) by (auto simp: accepted_ok_def record_good_def record_ok_def trunc_ack_def
          aa_payload_def)
  qed
qed

section \<open>Calls of a learner\<close>

lemma learner_step_good:
  assumes good: "sys_good n w k s"
    and l1: "\<And>l. l1 = Some l \<Longrightarrow> learner_inv n w (accepted_in (sys_net s)) l"
    and ds: "\<And>d. d \<in> set ds \<Longrightarrow> closed_by n (accepted_in (sys_net s)) d"
  shows "sys_good n w (Suc k) (s\<lparr>sys_learners := (sys_learners s)(j := l1),
     sys_delivered := sys_delivered s @ map (Pair j) ds\<rparr>)"
    (is "sys_good n w (Suc k) ?t")
proof (rule sys_good_mono [OF good, of "Suc k" _ "[]"])
  note G = sys_goodD [OF good]
  have safe: "safe ?t = safe s" by (rule safe_same [of _ _ "[]"]) (simp_all add: accepted_in_def)
  show "safe ?t a i lo b" if "safe s a i lo b" for a i lo b using that safe by simp
  show "buffers_inv p \<and> lp_good n (Suc k) pid (safe ?t) (proposed_in (sys_net ?t)) (lists_of p)"
    if "sys_proposers ?t pid = Some p" for pid p
    using that G(3) [of pid p] lp_good_Suc safe by auto
  show "acceptor_good n ?t a acc" if "sys_acceptors ?t a = Some acc" for a acc
    by (rule acceptor_good_net [of n s]) (use G(4) [of a acc] that in simp_all)
  show "learner_inv n w (accepted_in (sys_net ?t)) l" if "sys_learners ?t i = Some l" for i l
    using that G(5) [of i l] l1 by (auto split: if_splits)
  show "(i, d) \<in> set (sys_delivered s) \<or> closed_by n (accepted_in (sys_net ?t)) d"
    if "(i, d) \<in> set (sys_delivered ?t)" for i d
    using that ds by auto
qed (use sys_goodD [OF good] in simp_all)

lemma with_learner_good:
  assumes good: "sys_good n w k s"
    and step: "\<And>l ds l1. sys_learners s j = Some l \<Longrightarrow> learner_inv n w (accepted_in (sys_net s)) l \<Longrightarrow>
      f l = Ok (ds, l1) \<Longrightarrow> learner_inv n w (accepted_in (sys_net s)) l1 \<and>
        (\<forall>d \<in> set ds. closed_by n (accepted_in (sys_net s)) d)"
  shows "sys_good n w (Suc k) (with_learner j f s)"
proof (cases "sys_learners s j")
  case None
  moreover have "s\<lparr>sys_learners := (sys_learners s)(j := None),
      sys_delivered := sys_delivered s @ map (Pair j) []\<rparr> = s"
    using None fun_upd_triv [of "sys_learners s" j] by simp
  ultimately show ?thesis
    using learner_step_good [OF good, of None "[]" j] by (simp add: with_learner_def)
next
  case (Some l)
  note inv = sys_goodD(5) [OF good Some]
  show ?thesis
  proof (cases "f l")
    case (Inl e)
    then show ?thesis
      using learner_step_good [OF good, of None "[]" j] Some by (simp add: with_learner_def)
  next
    case (Inr r)
    obtain ds l1 where r: "r = (ds, l1)" by (cases r)
    with Inr step [OF Some inv] have "learner_inv n w (accepted_in (sys_net s)) l1"
      "\<forall>d \<in> set ds. closed_by n (accepted_in (sys_net s)) d" by blast+
    then show ?thesis
      using learner_step_good [OF good, of "Some l1" ds j] Some Inr r by (simp add: with_learner_def)
  qed
qed

lemma accepted_wf:
  assumes good: "sys_good n w k s" and kw: "k + w + 1 < 2 ^ 31"
  shows "acks_wf n w (accepted_in (sys_net s))"
  unfolding acks_wf_def
proof
  fix r assume "r \<in> accepted_in (sys_net s)"
  then have "accepted_ok n k (proposed_in (sys_net s)) r"
    using sys_goodD(1) [OF good, of "MAccepted r"] by (simp add: accepted_in_def)
  with kw show "0 \<le> aa_acceptor_id r \<and> aa_acceptor_id r < int n \<and> aa_is_final r = 0 \<and>
     unat (aa_value_size r) \<le> length (aa_value r) \<and> aa_iid r \<noteq> 0 \<and> unat (aa_iid r) + w + 1 < 2 ^ 31"
    by (auto simp: accepted_ok_def)
qed

lemma step_learn:
  assumes good: "sys_good n w k s" and kw: "k + w + 1 < 2 ^ 31"
    and net: "MAccepted ack \<in> set (sys_net s)"
  shows "sys_good n w (Suc k) (with_learner j (call_learn ack) s)"
proof (rule with_learner_good [OF good])
  fix l ds l1 assume l: "learner_inv n w (accepted_in (sys_net s)) l"
    and r: "call_learn ack l = Ok (ds, l1)"
  have "ack \<in> accepted_in (sys_net s)" using net by (simp add: accepted_in_def)
  from learner_receive_accept_cases [OF l accepted_wf [OF good kw] this] r
  show "learner_inv n w (accepted_in (sys_net s)) l1 \<and>
      (\<forall>d \<in> set ds. closed_by n (accepted_in (sys_net s)) d)"
    by (auto simp: call_learn_def)
qed

lemma step_deliver:
  assumes good: "sys_good n w k s" and kw: "k + w + 1 < 2 ^ 31"
  shows "sys_good n w (Suc k) (with_learner j call_deliver s)"
proof (rule with_learner_good [OF good])
  fix l ds l1 assume l: "learner_inv n w (accepted_in (sys_net s)) l"
    and r: "call_deliver l = Ok (ds, l1)"
  from learner_deliver_next_ok [OF l accepted_wf [OF good kw]] r
  show "learner_inv n w (accepted_in (sys_net s)) l1 \<and>
      (\<forall>d \<in> set ds. closed_by n (accepted_in (sys_net s)) d)"
    by (auto simp: call_deliver_def split: option.splits)
qed

section \<open>Runs\<close>

lemma sys_good_Suc:
  assumes good: "sys_good n w k s"
  shows "sys_good n w (Suc k) s"
  by (rule sys_good_mono [OF good, of "Suc k" _ "[]"])
    (use sys_goodD [OF good] lp_good_Suc in auto)

lemma sys_step_good:
  assumes good: "sys_good n w k s" and ok: "event_ok ops e s"
    and k: "k < step_limit" and kw: "k + w + 1 < 2 ^ 31"
  shows "sys_good n w (Suc k) (sys_step ops e s)"
proof (cases e)
  case (EPropose pid v m)
  with ok step_propose [OF good] show ?thesis by simp
next
  case (ECrashLearner j)
  then show ?thesis using learner_step_good [OF good, of None "[]" j] by simp
next
  case (EAcceptorRepeat a i)
  with step_acceptor_repeat [OF good] ok show ?thesis by simp
qed (simp_all add: if_sent_def step_prepare [OF good k] step_promise [OF good k] step_accept [OF good]
    step_accepted [OF good k] step_timeout_prepare [OF good] step_timeout_accept [OF good]
    step_acceptor_prepare [OF good] step_acceptor_accept [OF good] step_learn [OF good kw]
    step_deliver [OF good kw] crash_proposer_good [OF good] crash_acceptor_good [OF good]
    sys_good_Suc [OF good])

lemma sys_run_good:
  assumes "sys_good n w k s" "run_ok ops es s" "k + length es \<le> step_limit"
    "k + length es + w + 1 < 2 ^ 31"
  shows "sys_good n w (k + length es) (sys_run ops es s)"
  using assms
proof (induction es arbitrary: k s)
  case (Cons e es)
  have "sys_good n w (Suc k) (sys_step ops e s)"
    using Cons.prems by (intro sys_step_good) simp_all
  from Cons.IH [OF this] Cons.prems show ?case by simp
qed simp

lemma agreement:
  assumes good: "sys_good n w k s"
    and d1: "(j1, d1) \<in> set (sys_delivered s)" and d2: "(j2, d2) \<in> set (sys_delivered s)"
    and same: "aa_iid d1 = aa_iid d2"
  shows "aa_payload d1 = aa_payload d2"
proof -
  note G = sys_goodD [OF good]
  let ?net = "sys_net s"
  have msgs: "\<forall>q. MAccept q \<in> set ?net \<longrightarrow> accept_req_ok n k (safe s) (proposed_in ?net) q"
    using G(1) message_ok.simps(3) by blast
  have votes: "\<forall>a i lo b c. safe s a i lo b \<longrightarrow> voted_in ?net a i c \<longrightarrow> c \<le> lo \<or> b \<le> c"
    by (simp add: safe_def)
  have chosen: "(\<exists>S \<in> majorities n. \<forall>a \<in> S. voted_in ?net a (aa_iid d) (aa_ballot d)) \<and>
      proposed_in ?net (aa_iid d) (aa_ballot d) (aa_payload d)" if "(j, d) \<in> set (sys_delivered s)" for j d
  proof -
    from G(6) [OF that] obtain S r where S: "S \<in> majorities n"
      "\<forall>j \<in> S. \<exists>r \<in> accepted_in ?net. aa_acceptor_id r = int j \<and> aa_iid r = aa_iid d \<and>
        aa_ballot r = aa_ballot d" and r: "r \<in> accepted_in ?net" "d = trunc_ack r"
      by (auto simp: closed_by_def)
    from r(1) have "message_ok n k (safe s) (proposed_in ?net) (MAccepted r)"
      using G(1) [of "MAccepted r"] by (simp add: accepted_in_def)
    with r(2) have "proposed_in ?net (aa_iid d) (aa_ballot d) (aa_payload d)"
      by (simp add: accepted_ok_def)
    with S show ?thesis unfolding voted_in_def by blast
  qed
  obtain S1 S2 where S: "S1 \<in> majorities n" "\<forall>a \<in> S1. voted_in ?net a (aa_iid d1) (aa_ballot d1)"
    "S2 \<in> majorities n" "\<forall>a \<in> S2. voted_in ?net a (aa_iid d1) (aa_ballot d2)"
    and P: "proposed_in ?net (aa_iid d1) (aa_ballot d1) (aa_payload d1)"
    "proposed_in ?net (aa_iid d1) (aa_ballot d2) (aa_payload d2)"
    using chosen [OF d1] chosen [OF d2] unfolding same by blast
  note kept = chosen_is_kept [OF msgs G(2) votes]
  from linear [of "aa_ballot d1" "aa_ballot d2"] show ?thesis
  proof
    assume "aa_ballot d1 \<le> aa_ballot d2"
    from kept [OF S(1,2) proposed_iid(2) [OF good P(1)] P(1) P(2) this] show ?thesis by simp
  next
    assume "aa_ballot d2 \<le> aa_ballot d1"
    from kept [OF S(3,4) proposed_iid(2) [OF good P(2)] P(2) P(1) this] show ?thesis by simp
  qed
qed

text \<open>The start: empty storages and new learners.\<close>

lemma sys_init_good:
  assumes n: "0 < n" and l: "learner_inv n w {} l"
    and stores: "\<And>a. a < n \<Longrightarrow> store_ok (stores a) \<and> owner (stores a) = int a"
    and fresh: "\<And>a i. a < n \<Longrightarrow> i \<noteq> 0 \<Longrightarrow> live (stores a) i \<Longrightarrow> lookup (stores a) i = None"
  shows "sys_good n w 0 (sys_init n stores l)"
proof -
  let ?s = "sys_init n stores l"
  have net: "sys_net ?s = []" "sys_delivered ?s = []" by (simp_all add: sys_init_def)
  have "buffers_inv p \<and> lp_good n 0 pid (safe ?s) (proposed_in []) (lists_of p)"
    if "sys_proposers ?s pid = Some p" for pid p
  proof -
    from that have p: "pid < 10" "p = proposer_new (int pid) n"
      by (auto simp: sys_init_def MAX_N_OF_PROPOSERS_def split: if_splits)
    have "own_ok pid (proposed_in []) (lists_of p)"
      by (simp add: own_ok_def proposed_in_def)
    with p proposer_new_inv [OF n, of "int pid"] show ?thesis
      by (auto simp: proposer_inv_iff lp_good_def) (simp_all add: proposer_new_def)
  qed
  moreover have "acceptor_good n ?s a acc" if "sys_acceptors ?s a = Some acc" for a acc
    using that stores fresh
    by (auto simp: sys_init_def acceptor_good_def voted_in_def accepted_in_def split: if_splits)
  moreover have "learner_inv n w {} l'" if "sys_learners ?s j = Some l'" for j l'
    using that l by (simp add: sys_init_def)
  ultimately show ?thesis
    unfolding sys_good_def net by (simp add: unique_values_def proposed_in_def accepted_in_def)
qed

theorem run_agreement:
  assumes n: "0 < n" and l: "learner_inv n w {} l"
    and stores: "\<And>a. a < n \<Longrightarrow> store_ok (stores a) \<and> owner (stores a) = int a"
    and fresh: "\<And>a i. a < n \<Longrightarrow> i \<noteq> 0 \<Longrightarrow> live (stores a) i \<Longrightarrow> lookup (stores a) i = None"
    and run: "run_ok ops es (sys_init n stores l)" "length es \<le> step_limit"
      "length es + w + 1 < 2 ^ 31"
    and d1: "(j1, d1) \<in> set (sys_delivered (sys_run ops es (sys_init n stores l)))"
    and d2: "(j2, d2) \<in> set (sys_delivered (sys_run ops es (sys_init n stores l)))"
    and same: "aa_iid d1 = aa_iid d2"
  shows "aa_payload d1 = aa_payload d2"
proof -
  have "sys_good n w 0 (sys_init n stores l)"
    by (rule sys_init_good [OF n l stores fresh]) simp_all
  from sys_run_good [OF this run(1)] run(2,3)
  have "sys_good n w (length es) (sys_run ops es (sys_init n stores l))" by simp
  from agreement [OF this d1 d2 same] show ?thesis .
qed

end

end
