(* ===== verification/Progress.thy ===== *)
theory Progress
  imports System Proposer_Spec Storage_Mem
begin

text \<open>
  The system makes progress: when one proposer, a majority of the acceptors and a learner are
  served in turn, every submitted value is chosen and delivered, one instance after the other. The
  schedule is explicit, so no fairness assumption is needed; what every call returns follows from
  the lemmas about the components.

  The proposer counts the promises of the majority only if the flags of the counter start at zero.
  \<open>quorum_clear\<close> resets the flags of the first \<open>paxos_quorum n\<close> acceptors only, so for the others the
  allocated block has to be zero.
\<close>

section \<open>The schedule\<close>

definition first_ballot :: "nat \<Rightarrow> ballot_t" where
  "first_ballot k = next_ballot (int k) 0"

definition request_for :: "iid_t \<Rightarrow> ballot_t \<Rightarrow> prepare_req" where
  "request_for i b = \<lparr>pr_iid = i, pr_ballot = b\<rparr>"

definition promise_of :: "iid_t \<Rightarrow> ballot_t \<Rightarrow> nat \<Rightarrow> prepare_ack" where
  "promise_of i b a = \<lparr>pa_acceptor_id = int a, pa_iid = i, pa_ballot = b, pa_value_ballot = 0,
     pa_value_size = 0, pa_value = []\<rparr>"

definition accept_for :: "iid_t \<Rightarrow> ballot_t \<Rightarrow> byte list \<Rightarrow> accept_req" where
  "accept_for i b v = \<lparr>ar_iid = i, ar_ballot = b, ar_value_size = of_nat (length v), ar_value = v\<rparr>"

definition vote_of :: "iid_t \<Rightarrow> ballot_t \<Rightarrow> byte list \<Rightarrow> nat \<Rightarrow> accept_ack" where
  "vote_of i b v a = \<lparr>aa_acceptor_id = int a, aa_iid = i, aa_ballot = b, aa_value_ballot = b,
     aa_is_final = 0, aa_value_size = of_nat (length v), aa_value = v\<rparr>"

lemmas message_defs = request_for_def promise_of_def accept_for_def vote_of_def

text \<open>Proposer \<open>k\<close>, the acceptors \<open>Q\<close> and learner \<open>j\<close> agree on \<open>v\<close> for instance \<open>i\<close>.\<close>

definition instance_round ::
  "nat \<Rightarrow> nat \<Rightarrow> (nat \<Rightarrow> int) \<Rightarrow> timeval \<Rightarrow> nat list \<Rightarrow> iid_t \<Rightarrow> byte list \<Rightarrow> event list" where
  "instance_round k j junk now Q i v =
     (let b = first_ballot k in
      [EPropose k v (of_nat (length v)), EPrepare k junk now] @
      map (\<lambda>a. EAcceptorPrepare a (request_for i b)) Q @
      map (\<lambda>a. EPromise k now (promise_of i b a)) Q @ [EAccept k] @
      map (\<lambda>a. EAcceptorAccept a (accept_for i b v)) Q @
      map (\<lambda>a. ELearn j (vote_of i b v a)) Q @ [EDeliver j])"

fun log_run ::
  "nat \<Rightarrow> nat \<Rightarrow> (nat \<Rightarrow> int) \<Rightarrow> timeval \<Rightarrow> nat list \<Rightarrow> nat \<Rightarrow> byte list list \<Rightarrow> event list" where
  "log_run k j junk now Q m [] = []"
| "log_run k j junk now Q m (v # vs) =
     instance_round k j junk now Q (of_nat (Suc m)) v @ log_run k j junk now Q (Suc m) vs"

section \<open>The acceptors\<close>

text \<open>Acceptor \<open>a\<close> has seen instances up to \<open>m\<close> only.\<close>

definition quiet :: "nat \<Rightarrow> nat \<Rightarrow> mem_storage acceptor \<Rightarrow> bool" where
  "quiet m a x \<longleftrightarrow> ms_acceptor_id (acc_store x) = int a \<and>
     (\<forall>c. unat (aa_iid (ms_records (acc_store x) c)) \<le> m)"

definition promised_to :: "iid_t \<Rightarrow> ballot_t \<Rightarrow> nat \<Rightarrow> mem_storage acceptor \<Rightarrow> bool" where
  "promised_to i b a x \<longleftrightarrow> quiet (unat i) a x \<and>
     is_promise_record (int a) (request_for i b) (ms_records (acc_store x) (mem_slot i))"

lemma quiet_prepare:
  assumes "quiet m a x" "unat i = Suc m"
  shows "\<exists>y. call_acceptor_prepare mem_ops (request_for i b) x = Ok ([MPromise (promise_of i b a)], y) \<and>
    promised_to i b a y"
proof -
  let ?r = "ms_records (acc_store x) (mem_slot i)"
  have "unat (aa_iid ?r) < unat i" using assms by (auto simp: quiet_def le_imp_less_Suc)
  then have "aa_iid ?r < i" by (simp add: word_less_nat_alt)
  then have "storage_get_record (acc_store x) i = Ok (None, acc_store x)"
    by (auto simp: storage_get_record_def Let_def)
  with assms show ?thesis
    by (auto simp: call_acceptor_prepare_def acceptor_receive_prepare_def storage_tx_begin_def storage_tx_commit_def
        apply_prepare_def storage_save_prepare_def Let_def promised_to_def quiet_def is_promise_record_def
        prepare_ack_of_def message_defs aa_payload_def le_SucI)
qed

lemma promised_accept:
  assumes "promised_to i b a x" "length v \<le> mem_value_room"
  shows "\<exists>y. call_acceptor_accept mem_ops (accept_for i b v) x = Ok ([MAccepted (vote_of i b v a)], y) \<and>
    quiet (unat i) a y"
proof -
  let ?r = "ms_records (acc_store x) (mem_slot i)"
  have u: "unat (of_nat (length v) :: size_t) = length v"
    using assms(2) by (simp add: unat_of_nat mem_value_room_def MAX_SIZE_RECORD_def)
  have r: "aa_iid ?r = i" "aa_ballot ?r = b" using assms(1) by (simp_all add: promised_to_def is_promise_record_def request_for_def)
  then have "storage_get_record (acc_store x) i = Ok (Some ?r, acc_store x)"
    by (simp add: storage_get_record_def Let_def)
  with assms r u show ?thesis
    by (auto simp: call_acceptor_accept_def acceptor_receive_accept_def storage_tx_begin_def storage_tx_commit_def
        apply_accept_def storage_save_accept_def memcpy_def Let_def promised_to_def quiet_def trunc_ack_def
        message_defs aa_payload_def)
qed

text \<open>A request that was sent is handled by one acceptor after the other.\<close>

lemma acceptors_round:
  assumes step: "\<And>a s. sys_step ops (e a) s = if_sent (m \<in> set (sys_net s)) (with_acceptor a f) s"
    and call: "\<And>a x. P a x \<Longrightarrow> \<exists>y. f x = Ok ([msg a], y) \<and> R a y"
  shows "distinct Q \<Longrightarrow> m \<in> set (sys_net s) \<Longrightarrow> \<forall>a \<in> set Q. \<exists>x. sys_acceptors s a = Some x \<and> P a x \<Longrightarrow>
    \<exists>F. sys_run ops (map e Q) s = s\<lparr>sys_acceptors := F, sys_net := sys_net s @ map msg Q\<rparr> \<and>
      (\<forall>a \<in> set Q. \<exists>y. F a = Some y \<and> R a y) \<and> (\<forall>a. a \<notin> set Q \<longrightarrow> F a = sys_acceptors s a)"
proof (induction Q arbitrary: s)
  case Nil
  show ?case by (intro exI [of _ "sys_acceptors s"]) simp
next
  case (Cons a Q)
  from Cons.prems obtain x where x: "sys_acceptors s a = Some x" "P a x" by auto
  from call [OF x(2)] obtain y where y: "f x = Ok ([msg a], y)" "R a y" by blast
  let ?s = "s\<lparr>sys_acceptors := (sys_acceptors s)(a := Some y), sys_net := sys_net s @ [msg a]\<rparr>"
  have s1: "sys_step ops (e a) s = ?s" using Cons.prems(2) x(1) y(1) by (simp add: step if_sent_def with_acceptor_def)
  have "\<forall>c \<in> set Q. \<exists>x. sys_acceptors ?s c = Some x \<and> P c x" using Cons.prems by auto
  with Cons.IH [of ?s] Cons.prems obtain F where
    F: "sys_run ops (map e Q) ?s = ?s\<lparr>sys_acceptors := F, sys_net := sys_net ?s @ map msg Q\<rparr>"
      "\<forall>c \<in> set Q. \<exists>y. F c = Some y \<and> R c y" "\<forall>c. c \<notin> set Q \<longrightarrow> F c = sys_acceptors ?s c"
    by auto
  from F(3) Cons.prems(1) have "F a = Some y" by simp
  with F y(2) s1 show ?case by (intro exI [of _ F]) auto
qed

section \<open>The proposer\<close>

lemma proposer_step:
  "sys_proposers s k = Some p \<Longrightarrow> f p = Ok (ms, p1) \<Longrightarrow>
   with_proposer k f s = s\<lparr>sys_proposers := (sys_proposers s)(k := Some p1), sys_net := sys_net s @ ms\<rparr>"
  by (simp add: with_proposer_def)

text \<open>A proposer without work, which has used the instances up to \<open>m\<close>.\<close>

definition proposer_idle :: "nat \<Rightarrow> nat \<Rightarrow> nat \<Rightarrow> proposer \<Rightarrow> bool" where
  "proposer_idle n k m p \<longleftrightarrow> proposer_inv n p \<and> lp_id (lists_of p) = int k \<and> lp_values (lists_of p) = [] \<and>
     lp_preps (lists_of p) = [] \<and> lp_next (lists_of p) = of_nat m"

definition new_instance :: "nat \<Rightarrow> nat \<Rightarrow> (nat \<Rightarrow> int) \<Rightarrow> timeval \<Rightarrow> iid_t \<Rightarrow> p_instance" where
  "new_instance n k junk now i = \<lparr>pi_iid = i, pi_ballot = first_ballot k, pi_value_ballot = 0, pi_value = None,
     pi_closed = False, pi_quorum = q_new junk n, pi_created_at = now\<rparr>"

text \<open>A value is submitted and an instance is opened.\<close>

lemma idle_opens:
  assumes p: "sys_proposers s k = Some p" "proposer_idle n k m p" and m: "Suc m < 2 ^ 32"
    and v: "length v \<le> mem_value_room"
  shows "\<exists>p1. sys_run ops [EPropose k v (of_nat (length v)), EPrepare k junk now] s =
      s\<lparr>sys_proposers := (sys_proposers s)(k := Some p1),
        sys_net := sys_net s @ [MPrepare (request_for (of_nat (Suc m)) (first_ballot k))]\<rparr> \<and>
    proposer_inv n p1 \<and> lists_of p1 = (lists_of p)\<lparr>lp_values := [submit_msg v], lp_next := of_nat (Suc m),
      lp_preps := [new_instance n k junk now (of_nat (Suc m))]\<rparr>"
proof -
  have u: "unat (of_nat (length v) :: size_t) = length v"
    using v by (simp add: unat_of_nat mem_value_room_def MAX_SIZE_RECORD_def)
  have inv: "proposer_inv n p" using p(2) by (simp add: proposer_idle_def)
  from proposer_propose_ok [OF inv, of "of_nat (length v)" v] u obtain p1 where
    p1: "proposer_propose p v (of_nat (length v)) = Ok p1" "proposer_inv n p1"
      "lists_of p1 = lp_propose (lists_of p) v (of_nat (length v))" by auto
  have next1: "p_next_prepare_iid p1 = of_nat m"
    using p1(3) p(2) by (simp add: proposer_idle_def lp_propose_def lists_of_def)
  have "unat (p_next_prepare_iid p1) + 1 < 2 ^ 32" using m by (simp add: next1 unat_of_nat)
  from proposer_prepare_ok [OF p1(2) this, of junk now] obtain p2 where
    p2: "proposer_prepare junk now p1 = Ok (fst (lp_prepare junk now (lists_of p1)), p2)" "proposer_inv n p2"
      "lists_of p2 = snd (lp_prepare junk now (lists_of p1))" by blast
  have n: "lp_acceptors (lists_of p) = n" using inv by (simp add: proposer_inv_iff lp_inv_def)
  have L: "lp_prepare junk now (lists_of p1) = (request_for (of_nat (Suc m)) (first_ballot k),
      (lists_of p)\<lparr>lp_values := [submit_msg v], lp_next := of_nat (Suc m),
        lp_preps := [new_instance n k junk now (of_nat (Suc m))]\<rparr>)"
    using p(2) n u by (simp add: p1(3) lp_propose_def lp_prepare_def Let_def proposer_idle_def prepare_of_def
        request_for_def first_ballot_def new_instance_def submit_msg_def add.commute)
  let ?s = "s\<lparr>sys_proposers := (sys_proposers s)(k := Some p1)\<rparr>"
  have 1: "sys_step ops (EPropose k v (of_nat (length v))) s = ?s"
    using proposer_step [of s k p "call_propose v (of_nat (length v))" "[]" p1] p(1) p1(1)
    by (simp add: call_propose_def)
  have 2: "sys_step ops (EPrepare k junk now) ?s = ?s\<lparr>sys_proposers := (sys_proposers ?s)(k := Some p2),
      sys_net := sys_net ?s @ [MPrepare (request_for (of_nat (Suc m)) (first_ballot k))]\<rparr>"
    unfolding sys_step.simps by (rule proposer_step [of _ _ p1]) (simp_all add: call_prepare_def p2(1) L)
  show ?thesis using 1 2 p2(2,3) L by (intro exI [of _ p2]) simp
qed

text \<open>The promises of acceptors that are not flagged yet are counted.\<close>

lemma promise_step:
  assumes inv: "proposer_inv n p" and one: "lp_preps (lists_of p) = [inst]"
    and inst: "pi_iid inst = i" "pi_ballot inst = b" and a: "a < n" "\<not> q_flagged (pi_quorum inst) a"
  shows "\<exists>p1. call_promise now (promise_of i b a) p = Ok ([], p1) \<and> proposer_inv n p1 \<and>
    lists_of p1 = (lists_of p)\<lparr>lp_preps := [inst\<lparr>pi_quorum := q_flag (pi_quorum inst) a\<rparr>]\<rparr>"
proof -
  have idx: "iid_index i [inst] = Some 0" using inst(1) by (simp add: iid_index_def)
  have L: "lp_receive_prepare_ack now (lists_of p) (promise_of i b a) =
      (None, (lists_of p)\<lparr>lp_preps := [inst\<lparr>pi_quorum := q_flag (pi_quorum inst) a\<rparr>]\<rparr>)"
    using idx a inst by (auto simp: lp_receive_prepare_ack_def promise_of_def one [simplified] Let_def promised_def adopts_def
        split: option.split)
  from proposer_receive_prepare_ack_ok [OF inv, of "promise_of i b a" now] a(1) L show ?thesis
    by (auto simp: call_promise_def prepares_def promise_of_def)
qed

lemma promises_round:
  assumes "sys_proposers s k = Some p" "proposer_inv n p" "lp_preps (lists_of p) = [inst]"
    and "pi_iid inst = i" "pi_ballot inst = b" "distinct Q"
    and "\<forall>a \<in> set Q. a < n \<and> \<not> q_flagged (pi_quorum inst) a \<and> MPromise (promise_of i b a) \<in> set (sys_net s)"
  shows "\<exists>p1 q. sys_run ops (map (\<lambda>a. EPromise k now (promise_of i b a)) Q) s =
      s\<lparr>sys_proposers := (sys_proposers s)(k := Some p1)\<rparr> \<and> proposer_inv n p1 \<and>
    lists_of p1 = (lists_of p)\<lparr>lp_preps := [inst\<lparr>pi_quorum := q\<rparr>]\<rparr> \<and>
    q_count q = q_count (pi_quorum inst) + length Q \<and> q_quorum q = q_quorum (pi_quorum inst)"
  using assms
proof (induction Q arbitrary: s p inst)
  case Nil
  then show ?case by (intro exI [of _ p] exI [of _ "pi_quorum inst"]) (simp add: fun_upd_idem)
next
  case (Cons a Q)
  from promise_step [OF Cons.prems(2-5), of a now] Cons.prems(7) obtain p1 where
    p1: "call_promise now (promise_of i b a) p = Ok ([], p1)" "proposer_inv n p1"
      "lists_of p1 = (lists_of p)\<lparr>lp_preps := [inst\<lparr>pi_quorum := q_flag (pi_quorum inst) a\<rparr>]\<rparr>" by auto
  let ?inst = "inst\<lparr>pi_quorum := q_flag (pi_quorum inst) a\<rparr>"
  let ?s = "s\<lparr>sys_proposers := (sys_proposers s)(k := Some p1)\<rparr>"
  have s1: "sys_step ops (EPromise k now (promise_of i b a)) s = ?s"
    using proposer_step [OF Cons.prems(1), of "call_promise now (promise_of i b a)" "[]" p1] p1(1) Cons.prems(7)
    by (simp add: if_sent_def)
  have "\<not> q_flagged (q_flag (pi_quorum inst) a) c" if "c \<in> set Q" for c
    using Cons.prems(6,7) that by (cases "c = a") (simp_all add: q_flagged_def q_flag_def)
  then have "\<forall>c \<in> set Q. c < n \<and> \<not> q_flagged (pi_quorum ?inst) c \<and> MPromise (promise_of i b c) \<in> set (sys_net ?s)"
    using Cons.prems(7) by simp
  moreover have "sys_proposers ?s k = Some p1" "lp_preps (lists_of p1) = [?inst]" "pi_iid ?inst = i" "pi_ballot ?inst = b"
    "distinct Q"
    using p1(3) Cons.prems(4-6) by (simp_all del: lists_of_sel)
  ultimately obtain p2 q where
    "sys_run ops (map (\<lambda>a. EPromise k now (promise_of i b a)) Q) ?s = ?s\<lparr>sys_proposers := (sys_proposers ?s)(k := Some p2)\<rparr>"
    "proposer_inv n p2" "lists_of p2 = (lists_of p1)\<lparr>lp_preps := [?inst\<lparr>pi_quorum := q\<rparr>]\<rparr>"
    "q_count q = q_count (q_flag (pi_quorum inst) a) + length Q" "q_quorum q = q_quorum (q_flag (pi_quorum inst) a)"
    using Cons.IH [of ?s p1 ?inst, OF _ p1(2)] by (auto simp del: fun_upd_apply)
  with s1 p1(3) show ?case by (intro exI [of _ p2] exI [of _ q]) (simp add: q_flag_def del: fun_upd_apply)
qed

text \<open>With a majority of promises the value is proposed.\<close>

lemma majority_proposes:
  assumes p: "sys_proposers s k = Some p" "proposer_inv n p" "lp_preps (lists_of p) = [inst]"
    and inst: "pi_iid inst = i" "pi_ballot inst = b" "pi_value inst = None" "quorum_reached (pi_quorum inst)"
    and v: "lp_values (lists_of p) = [submit_msg v]" "length v \<le> mem_value_room"
    and me: "lp_id (lists_of p) = int k" "lp_next (lists_of p) = of_nat m"
  shows "\<exists>p1. sys_step ops (EAccept k) s = s\<lparr>sys_proposers := (sys_proposers s)(k := Some p1),
      sys_net := sys_net s @ [MAccept (accept_for i b v)]\<rparr> \<and> proposer_idle n k m p1"
proof -
  have u: "unat (of_nat (length v) :: size_t) = length v"
    using v(2) by (simp add: unat_of_nat mem_value_room_def MAX_SIZE_RECORD_def)
  from proposer_accept_ok [OF p(2)] obtain p1 where
    p1: "proposer_accept p = Ok (fst (lp_accept (lists_of p)), p1)" "proposer_inv n p1"
      "lists_of p1 = snd (lp_accept (lists_of p))" by blast
  have L: "fst (lp_accept (lists_of p)) = Some (accept_for i b v)"
    using p(3) inst v(1) u by (simp add: lp_accept_def accept_of_def accept_for_def submit_msg_def msg_payload_def)
  have "sys_step ops (EAccept k) s = s\<lparr>sys_proposers := (sys_proposers s)(k := Some p1),
      sys_net := sys_net s @ [MAccept (accept_for i b v)]\<rparr>"
    unfolding sys_step.simps by (rule proposer_step [OF p(1)]) (use p1(1) L in \<open>simp add: call_accept_def accepts_def\<close>)
  moreover have "proposer_idle n k m p1"
    using p(3) inst v(1) me p1(2,3) by (simp add: proposer_idle_def lp_accept_def)
  ultimately show ?thesis by blast
qed

section \<open>The learner\<close>

lemma learner_step:
  "sys_learners s j = Some l \<Longrightarrow> f l = Ok (ds, l1) \<Longrightarrow>
   with_learner j f s = s\<lparr>sys_learners := (sys_learners s)(j := Some l1), sys_delivered := sys_delivered s @ map (Pair j) ds\<rparr>"
  by (simp add: with_learner_def)

text \<open>A learner that waits for instance \<open>m + 1\<close> and has seen acknowledgements of earlier instances only.\<close>

definition learner_waits :: "nat \<Rightarrow> nat \<Rightarrow> nat \<Rightarrow> learner \<Rightarrow> bool" where
  "learner_waits n w m l \<longleftrightarrow> \<not> l_late_start l \<and> l_current_iid l = of_nat (Suc m) \<and>
     (\<exists>R. learner_inv n w R l \<and> acks_wf n w R \<and> (\<forall>a \<in> R. unat (aa_iid a) \<le> m))"

lemma votes_round:
  assumes "sys_learners s j = Some l" "learner_inv n w R l" "acks_wf n w R" "\<not> l_late_start l"
    and "l_current_iid l = i" "filled l b S"
    and "\<forall>a \<in> set Q. vote_of i b v a \<in> R \<and> MAccepted (vote_of i b v a) \<in> set (sys_net s)"
  shows "\<exists>l1. sys_run ops (map (\<lambda>a. ELearn j (vote_of i b v a)) Q) s =
      s\<lparr>sys_learners := (sys_learners s)(j := Some l1)\<rparr> \<and> learner_inv n w R l1 \<and> \<not> l_late_start l1 \<and>
      l_current_iid l1 = i \<and> filled l1 b (set Q \<union> S)"
  using assms
proof (induction Q arbitrary: s l S)
  case Nil
  then show ?case by (intro exI [of _ l]) (simp add: fun_upd_idem)
next
  case (Cons a Q)
  from learner_receive_filled [OF Cons.prems(2,3) _ Cons.prems(4) _ _ Cons.prems(6), of "vote_of i b v a"] Cons.prems(5,7)
  obtain l1 where l1: "learner_receive_accept l (vote_of i b v a) = Ok l1" "learner_inv n w R l1"
    "l_current_iid l1 = i" "\<not> l_late_start l1" "filled l1 b (insert a S)"
    by (auto simp: vote_of_def)
  let ?s = "s\<lparr>sys_learners := (sys_learners s)(j := Some l1)\<rparr>"
  have s1: "sys_step ops (ELearn j (vote_of i b v a)) s = ?s"
    using learner_step [OF Cons.prems(1), of "call_learn (vote_of i b v a)" "[]" l1] l1(1) Cons.prems(7)
    by (simp add: if_sent_def call_learn_def)
  have "\<forall>c \<in> set Q. vote_of i b v c \<in> R \<and> MAccepted (vote_of i b v c) \<in> set (sys_net ?s)" using Cons.prems(7) by simp
  moreover have "sys_learners ?s j = Some l1" by simp
  ultimately obtain l2 where
    "sys_run ops (map (\<lambda>a. ELearn j (vote_of i b v a)) Q) ?s = ?s\<lparr>sys_learners := (sys_learners ?s)(j := Some l2)\<rparr>"
    "learner_inv n w R l2" "\<not> l_late_start l2" "l_current_iid l2 = i" "filled l2 b (set Q \<union> insert a S)"
    using Cons.IH [OF _ l1(2) Cons.prems(3) l1(4,3,5)] by blast
  with s1 show ?case by (intro exI [of _ l2]) (simp del: fun_upd_apply)
qed

lemma votes_deliver:
  assumes l: "sys_learners s j = Some l" "learner_inv n w R l" "acks_wf n w R" "\<not> l_late_start l"
    and cur: "l_current_iid l = of_nat (Suc m)" "Suc m < 2 ^ 31" and fill: "filled l b S" "S \<in> majorities n"
    and R: "\<forall>a \<in> R. unat (aa_iid a) \<le> Suc m" "\<forall>a \<in> R. unat (aa_iid a) = Suc m \<longrightarrow> aa_payload a = v"
  shows "\<exists>l1 d. sys_step ops (EDeliver j) s = s\<lparr>sys_learners := (sys_learners s)(j := Some l1),
      sys_delivered := sys_delivered s @ [(j, d)]\<rparr> \<and>
    learner_waits n w (Suc m) l1 \<and> unat (aa_iid d) = Suc m \<and> aa_payload d = v"
proof -
  have u: "unat (of_nat (Suc m) :: iid_t) = Suc m" using cur(2) by (simp add: unat_of_nat del: of_nat_Suc)
  from learner_deliver_filled [OF l(2,3) fill] obtain d l1 where d: "learner_deliver_next l = Ok (Some d, l1)" by blast
  with learner_deliver_next_ok [OF l(2,3)] l(4) have
    l1: "learner_inv n w R l1" "\<not> l_late_start l1" "aa_iid d = l_current_iid l" "closed_by n R d"
      "l_current_iid l1 = l_current_iid l + 1" by auto
  from l1(4) obtain a where a: "a \<in> R" "d = trunc_ack a" by (auto simp: closed_by_def)
  have "aa_payload d = v" using R(2) a l1(3) cur(1) u by auto
  moreover have "learner_waits n w (Suc m) l1"
    using l1 l(3) cur(1) R(1) by (auto simp: learner_waits_def)
  moreover have "sys_step ops (EDeliver j) s = s\<lparr>sys_learners := (sys_learners s)(j := Some l1),
      sys_delivered := sys_delivered s @ [(j, d)]\<rparr>"
    using learner_step [OF l(1), of call_deliver "[d]" l1] d by (simp add: call_deliver_def)
  moreover have "unat (aa_iid d) = Suc m" using l1(3) cur(1) u by simp
  ultimately show ?thesis by (intro exI [of _ l1] exI [of _ d] conjI)
qed

lemma waits_learn:
  assumes l: "sys_learners s j = Some l" "learner_waits n w m l" and m: "Suc m + w + 1 < 2 ^ 31"
    and v: "length v \<le> mem_value_room" and Q: "set Q \<in> majorities n"
    and sent: "\<forall>a \<in> set Q. MAccepted (vote_of (of_nat (Suc m)) b v a) \<in> set (sys_net s)"
  shows "\<exists>l1 d. sys_run ops (map (\<lambda>a. ELearn j (vote_of (of_nat (Suc m)) b v a)) Q @ [EDeliver j]) s =
      s\<lparr>sys_learners := (sys_learners s)(j := Some l1), sys_delivered := sys_delivered s @ [(j, d)]\<rparr> \<and>
    learner_waits n w (Suc m) l1 \<and> unat (aa_iid d) = Suc m \<and> aa_payload d = v"
proof -
  let ?i = "of_nat (Suc m) :: iid_t"
  have i: "unat ?i = Suc m" using m by (simp add: unat_of_nat del: of_nat_Suc)
  have lv: "unat (of_nat (length v) :: size_t) = length v"
    using v by (simp add: unat_of_nat mem_value_room_def MAX_SIZE_RECORD_def)
  from l(2) obtain R where R: "learner_inv n w R l" "acks_wf n w R" "\<forall>a \<in> R. unat (aa_iid a) \<le> m"
    and late: "\<not> l_late_start l" and cur: "l_current_iid l = ?i" by (auto simp: learner_waits_def)
  let ?R = "R \<union> vote_of ?i b v ` set Q"
  have "filled l b {}" by (rule learner_none_filled [OF R(1)]) (use R(3) cur i in force)
  moreover have "learner_inv n w ?R l" by (rule learner_inv_mono [OF R(1)]) simp
  moreover have votes: "aa_iid (vote_of ?i b v a) = ?i" "aa_payload (vote_of ?i b v a) = v" for a
    by (simp_all add: vote_of_def aa_payload_def lv)
  moreover have wf: "acks_wf n w ?R"
  proof -
    have "?i \<noteq> 0" using i by (metis nat.distinct(1) unat_0)
    with R(2) Q m i show ?thesis
      by (auto simp: acks_wf_def vote_of_def lv majorities_def simp del: of_nat_Suc)
  qed
  ultimately obtain l1 where
    l1: "sys_run ops (map (\<lambda>a. ELearn j (vote_of ?i b v a)) Q) s = s\<lparr>sys_learners := (sys_learners s)(j := Some l1)\<rparr>"
      "learner_inv n w ?R l1" "\<not> l_late_start l1" "l_current_iid l1 = ?i" "filled l1 b (set Q \<union> {})"
    using votes_round [OF l(1) _ wf late cur, of b "{}" Q v ops] sent by blast
  let ?s = "s\<lparr>sys_learners := (sys_learners s)(j := Some l1)\<rparr>"
  have RR: "\<forall>a \<in> ?R. unat (aa_iid a) \<le> Suc m" "\<forall>a \<in> ?R. unat (aa_iid a) = Suc m \<longrightarrow> aa_payload a = v"
    using R(3) votes i by (auto simp del: of_nat_Suc)
  have "sys_learners ?s j = Some l1" "Suc m < 2 ^ 31" "filled l1 b (set Q)" using m l1(5) by simp_all
  from votes_deliver [OF this(1) l1(2) wf l1(3,4) this(2,3) Q RR, of ops] obtain l2 d where
    "sys_step ops (EDeliver j) ?s = ?s\<lparr>sys_learners := (sys_learners ?s)(j := Some l2), sys_delivered := sys_delivered ?s @ [(j, d)]\<rparr>"
    "learner_waits n w (Suc m) l2" "unat (aa_iid d) = Suc m" "aa_payload d = v"
    by blast
  with l1(1) show ?thesis by (intro exI [of _ l2] exI [of _ d]) (simp add: sys_run_append del: fun_upd_apply of_nat_Suc)
qed

section \<open>The system\<close>

definition idle :: "nat \<Rightarrow> nat \<Rightarrow> nat \<Rightarrow> nat \<Rightarrow> nat list \<Rightarrow> nat \<Rightarrow> mem_storage system \<Rightarrow> bool" where
  "idle n k j w Q m s \<longleftrightarrow>
     (\<exists>p. sys_proposers s k = Some p \<and> proposer_idle n k m p) \<and>
     (\<forall>a \<in> set Q. \<exists>x. sys_acceptors s a = Some x \<and> quiet m a x) \<and>
     (\<exists>l. sys_learners s j = Some l \<and> learner_waits n w m l)"

text \<open>The promises of these acceptors are counted in a new instance.\<close>

definition countable_by :: "nat \<Rightarrow> (nat \<Rightarrow> int) \<Rightarrow> nat list \<Rightarrow> bool" where
  "countable_by n junk Q \<longleftrightarrow> distinct Q \<and> paxos_quorum n \<le> length Q \<and>
     (\<forall>a \<in> set Q. a < n \<and> (a < paxos_quorum n \<or> junk a = 0))"

lemma new_unflagged:
  assumes "countable_by n junk Q" "a \<in> set Q"
  shows "\<not> q_flagged (q_new junk n) a"
  using assms by (auto simp: countable_by_def q_flagged_def q_new_def q_clear_def nth_append)

lemma countable_majority: "countable_by n junk Q \<Longrightarrow> set Q \<in> majorities n"
  by (auto simp: countable_by_def distinct_card intro!: majoritiesI)

text \<open>From the submission to the accept request.\<close>

lemma round_proposes:
  assumes id: "idle n k j w Q m s" and Q: "countable_by n junk Q" and m: "Suc m < 2 ^ 32"
    and v: "length v \<le> mem_value_room" and i: "i = of_nat (Suc m)" and b: "b = first_ballot k"
  shows "\<exists>p F net. sys_run mem_ops ([EPropose k v (of_nat (length v)), EPrepare k junk now] @
      map (\<lambda>a. EAcceptorPrepare a (request_for i b)) Q @ map (\<lambda>a. EPromise k now (promise_of i b a)) Q @ [EAccept k]) s =
      s\<lparr>sys_acceptors := F, sys_proposers := (sys_proposers s)(k := Some p), sys_net := net\<rparr> \<and>
    proposer_idle n k (Suc m) p \<and> (\<forall>a \<in> set Q. \<exists>x. F a = Some x \<and> promised_to i b a x) \<and> MAccept (accept_for i b v) \<in> set net"
proof -
  from id obtain p where p: "sys_proposers s k = Some p" "proposer_idle n k m p" by (auto simp: idle_def)
  from idle_opens [OF p m v, of mem_ops junk now] obtain p1 where
    s1: "sys_run mem_ops [EPropose k v (of_nat (length v)), EPrepare k junk now] s =
      s\<lparr>sys_proposers := (sys_proposers s)(k := Some p1), sys_net := sys_net s @ [MPrepare (request_for i b)]\<rparr>" (is "_ = ?s1")
    and p1: "proposer_inv n p1" "lists_of p1 = (lists_of p)\<lparr>lp_values := [submit_msg v], lp_next := of_nat (Suc m),
      lp_preps := [new_instance n k junk now i]\<rparr>" unfolding i b by blast
  have ui: "unat i = Suc m" using m by (simp add: i unat_of_nat del: of_nat_Suc)
  have "\<exists>F. sys_run mem_ops (map (\<lambda>a. EAcceptorPrepare a (request_for i b)) Q) ?s1 =
      ?s1\<lparr>sys_acceptors := F, sys_net := sys_net ?s1 @ map (\<lambda>a. MPromise (promise_of i b a)) Q\<rparr> \<and>
      (\<forall>a \<in> set Q. \<exists>y. F a = Some y \<and> promised_to i b a y) \<and> (\<forall>a. a \<notin> set Q \<longrightarrow> F a = sys_acceptors ?s1 a)"
    by (rule acceptors_round [where P = "quiet m", OF sys_step.simps(8) quiet_prepare [OF _ ui]])
      (use Q id in \<open>auto simp: countable_by_def idle_def\<close>)
  then obtain F where s2: "sys_run mem_ops (map (\<lambda>a. EAcceptorPrepare a (request_for i b)) Q) ?s1 =
      ?s1\<lparr>sys_acceptors := F, sys_net := sys_net ?s1 @ map (\<lambda>a. MPromise (promise_of i b a)) Q\<rparr>" (is "_ = ?s2")
    and F: "\<forall>a \<in> set Q. \<exists>y. F a = Some y \<and> promised_to i b a y" by blast
  have "sys_proposers ?s2 k = Some p1" "lp_preps (lists_of p1) = [new_instance n k junk now i]"
    "pi_iid (new_instance n k junk now i) = i" "pi_ballot (new_instance n k junk now i) = b" "distinct Q"
    using p1(2) Q by (simp_all add: new_instance_def b countable_by_def del: lists_of_sel)
  from promises_round [OF this(1) p1(1) this(2-5), of mem_ops now] Q new_unflagged [OF Q]
  obtain p2 q where s3: "sys_run mem_ops (map (\<lambda>a. EPromise k now (promise_of i b a)) Q) ?s2 =
      ?s2\<lparr>sys_proposers := (sys_proposers ?s2)(k := Some p2)\<rparr>" (is "_ = ?s3") and p2: "proposer_inv n p2"
    "lists_of p2 = (lists_of p1)\<lparr>lp_preps := [(new_instance n k junk now i)\<lparr>pi_quorum := q\<rparr>]\<rparr>"
    and q: "q_count q = length Q" "q_quorum q = paxos_quorum n"
    by (auto simp: new_instance_def countable_by_def q_new_def q_clear_def simp del: fun_upd_apply lists_of_sel)
  have "sys_proposers ?s3 k = Some p2" "lp_preps (lists_of p2) = [(new_instance n k junk now i)\<lparr>pi_quorum := q\<rparr>]"
    "lp_values (lists_of p2) = [submit_msg v]" "lp_id (lists_of p2) = int k" "lp_next (lists_of p2) = of_nat (Suc m)"
    "quorum_reached q"
    using p2(2) p1(2) p(2) q Q by (simp_all add: proposer_idle_def quorum_reached_def countable_by_def del: lists_of_sel)
  from majority_proposes [OF this(1) p2(1) this(2), of i b v "Suc m" mem_ops] this(3-6) v obtain p3 where
    s4: "sys_step mem_ops (EAccept k) ?s3 = ?s3\<lparr>sys_proposers := (sys_proposers ?s3)(k := Some p3),
      sys_net := sys_net ?s3 @ [MAccept (accept_for i b v)]\<rparr>" and p3: "proposer_idle n k (Suc m) p3"
    by (auto simp: new_instance_def b simp del: fun_upd_apply lists_of_sel)
  have one: "sys_run mem_ops [EAccept k] t = sys_step mem_ops (EAccept k) t" for t by simp
  show ?thesis using F p3 unfolding sys_run_append s1 s2 s3 one s4
    by (intro exI [of _ p3] exI [of _ F] exI [of _ "sys_net ?s3 @ [MAccept (accept_for i b v)]"])
      (simp del: fun_upd_apply)
qed

lemma round_delivers:
  assumes id: "idle n k j w Q m s" and Q: "countable_by n junk Q" and m: "Suc m + w + 1 < 2 ^ 31"
    and v: "length v \<le> mem_value_room"
  shows "\<exists>d. idle n k j w Q (Suc m) (sys_run mem_ops (instance_round k j junk now Q (of_nat (Suc m)) v) s) \<and>
    sys_delivered (sys_run mem_ops (instance_round k j junk now Q (of_nat (Suc m)) v) s) = sys_delivered s @ [(j, d)] \<and>
    unat (aa_iid d) = Suc m \<and> aa_payload d = v"
proof -
  define i :: iid_t where "i = of_nat (Suc m)"
  define b where "b = first_ballot k"
  have ui: "unat i = Suc m" using m by (simp add: i_def unat_of_nat del: of_nat_Suc)
  from round_proposes [OF id Q _ v i_def b_def, of now] m obtain p F net where
    s1: "sys_run mem_ops ([EPropose k v (of_nat (length v)), EPrepare k junk now] @
      map (\<lambda>a. EAcceptorPrepare a (request_for i b)) Q @ map (\<lambda>a. EPromise k now (promise_of i b a)) Q @ [EAccept k]) s =
      s\<lparr>sys_acceptors := F, sys_proposers := (sys_proposers s)(k := Some p), sys_net := net\<rparr>" (is "_ = ?s1")
    and p: "proposer_idle n k (Suc m) p" and F: "\<forall>a \<in> set Q. \<exists>x. F a = Some x \<and> promised_to i b a x"
    and sent: "MAccept (accept_for i b v) \<in> set net" by auto
  have "\<exists>G. sys_run mem_ops (map (\<lambda>a. EAcceptorAccept a (accept_for i b v)) Q) ?s1 =
      ?s1\<lparr>sys_acceptors := G, sys_net := sys_net ?s1 @ map (\<lambda>a. MAccepted (vote_of i b v a)) Q\<rparr> \<and>
      (\<forall>a \<in> set Q. \<exists>y. G a = Some y \<and> quiet (unat i) a y) \<and> (\<forall>a. a \<notin> set Q \<longrightarrow> G a = sys_acceptors ?s1 a)"
    by (rule acceptors_round [where P = "promised_to i b", OF sys_step.simps(9) promised_accept [OF _ v]])
      (use Q F sent in \<open>auto simp: countable_by_def\<close>)
  then obtain G where s2: "sys_run mem_ops (map (\<lambda>a. EAcceptorAccept a (accept_for i b v)) Q) ?s1 =
      ?s1\<lparr>sys_acceptors := G, sys_net := sys_net ?s1 @ map (\<lambda>a. MAccepted (vote_of i b v a)) Q\<rparr>" (is "_ = ?s2")
    and G: "\<forall>a \<in> set Q. \<exists>y. G a = Some y \<and> quiet (Suc m) a y" unfolding ui by blast
  from id obtain l where l: "sys_learners ?s2 j = Some l" "learner_waits n w m l" by (auto simp: idle_def)
  from waits_learn [OF l m v countable_majority [OF Q], of b mem_ops, folded i_def] obtain l1 d where
    s3: "sys_run mem_ops (map (\<lambda>a. ELearn j (vote_of i b v a)) Q @ [EDeliver j]) ?s2 =
      ?s2\<lparr>sys_learners := (sys_learners ?s2)(j := Some l1), sys_delivered := sys_delivered ?s2 @ [(j, d)]\<rparr>" (is "_ = ?s3")
    and d: "learner_waits n w (Suc m) l1" "unat (aa_iid d) = Suc m" "aa_payload d = v" by auto
  have "sys_run mem_ops (instance_round k j junk now Q i v) s = ?s3"
    unfolding instance_round_def Let_def b_def [symmetric] using s1 s2 s3 by (simp only: sys_run_append append_assoc [symmetric])
  with p G d show ?thesis unfolding i_def [symmetric] by (intro exI [of _ d]) (auto simp: idle_def)
qed

lemma log_delivers:
  assumes "idle n k j w Q m s" "countable_by n junk Q" "m + length vs + w + 1 < 2 ^ 31"
    and "\<forall>v \<in> set vs. length v \<le> mem_value_room"
  shows "idle n k j w Q (m + length vs) (sys_run mem_ops (log_run k j junk now Q m vs) s) \<and>
    map (\<lambda>(j, d). (j, unat (aa_iid d), aa_payload d))
      (sys_delivered (sys_run mem_ops (log_run k j junk now Q m vs) s)) =
    map (\<lambda>(j, d). (j, unat (aa_iid d), aa_payload d)) (sys_delivered s) @ map (\<lambda>(i, v). (j, i, v)) (enumerate (Suc m) vs)"
  using assms
proof (induction vs arbitrary: m s)
  case (Cons v vs)
  let ?s = "sys_run mem_ops (instance_round k j junk now Q (of_nat (Suc m)) v) s"
  from round_delivers [OF Cons.prems(1,2), of v now] Cons.prems(3,4) obtain d where
    d: "idle n k j w Q (Suc m) ?s" "sys_delivered ?s = sys_delivered s @ [(j, d)]" "unat (aa_iid d) = Suc m" "aa_payload d = v"
    by auto
  from Cons.IH [OF d(1) Cons.prems(2)] Cons.prems(3,4) d(2-4) show ?case
    by (simp add: sys_run_append del: of_nat_Suc)
qed simp

text \<open>A call that fails takes its process out of the system, so the processes that are left never failed.\<close>

lemma idle_alive:
  "idle n k j w Q m s \<Longrightarrow> sys_proposers s k \<noteq> None \<and> (\<forall>a \<in> set Q. sys_acceptors s a \<noteq> None) \<and> sys_learners s j \<noteq> None"
  by (auto simp: idle_def)

text \<open>The start.\<close>

lemma init_idle:
  assumes n: "0 < n" and k: "k < MAX_N_OF_PROPOSERS" and Q: "countable_by n junk Q"
    and l: "learner_new cfg n = Ok l" "learner_catch_up cfg \<noteq> 0" "0 < learner_instances cfg" "learner_instances cfg + 1 < 2 ^ 31"
  shows "idle n k j (learner_instances cfg) Q 0 (sys_init n (\<lambda>a. storage_open (mem a) (int a)) l)"
proof -
  have "proposer_idle n k 0 (proposer_new (int k) n)"
    using proposer_new_inv [OF n, of "int k"]
    by (simp add: proposer_idle_def) (simp add: proposer_new_def)
  moreover have "quiet 0 a \<lparr>acc_store = storage_open (mem a) (int a)\<rparr>" for a by (simp add: quiet_def storage_open_def)
  moreover have "learner_waits n (learner_instances cfg) 0 l"
    using learner_new_ok [OF l(3,4), of n "{}"] l(1,2)
    by (auto simp: learner_waits_def acks_wf_def learner_new_def res_simps intro!: exI [of _ "{}"])
  ultimately show ?thesis using k Q by (auto simp: idle_def sys_init_def countable_by_def)
qed

end
