(* ===== verification/Ownership.thy ===== *)
theory Ownership
  imports Main "HOL-Library.Multiset"
begin

text \<open>
  Allocated blocks and who owns them, for the models with pointers. A heap is two maps from
  addresses: parents, which point to children, and children. A list names all blocks of a map once
  (\<open>owns\<close>); \<open>owns2\<close> is the invariant of a data structure that reaches every parent and every child
  in exactly one way, with some children that no parent holds. The lemmas follow the steps of a C
  program: allocate, free, and write a parent.
\<close>

type_synonym addr = nat

section \<open>One kind of block\<close>

definition owns :: "addr list \<Rightarrow> (addr \<rightharpoonup> 'b) \<Rightarrow> bool" where
  "owns xs f \<longleftrightarrow> distinct xs \<and> set xs = dom f"

lemma owns_perm: "mset xs = mset ys \<Longrightarrow> owns xs f \<longleftrightarrow> owns ys f"
  unfolding owns_def by (metis mset_eq_imp_distinct_iff mset_eq_setD)

lemma owns_alloc: "owns xs f \<Longrightarrow> a \<notin> dom f \<Longrightarrow> owns (a # xs) (f(a \<mapsto> v))"
  by (auto simp: owns_def)

lemma owns_free: "owns (a # xs) f \<Longrightarrow> owns xs (f(a := None))"
  by (auto simp: owns_def)

lemma owns_write: "owns xs f \<Longrightarrow> a \<in> set xs \<Longrightarrow> owns xs (f(a \<mapsto> v))"
  by (auto simp: owns_def)

lemma owns_Nil: "owns [] f \<longleftrightarrow> f = Map.empty"
  by (auto simp: owns_def eq_commute [of "{}"])

section \<open>Parents and children\<close>

definition opt_list :: "'a option \<Rightarrow> 'a list" where
  "opt_list r = (case r of None \<Rightarrow> [] | Some x \<Rightarrow> [x])"

lemma opt_list_simps [simp]: "opt_list None = []" "opt_list (Some x) = [x]"
  by (simp_all add: opt_list_def)

definition held_by :: "('p \<Rightarrow> addr list) \<Rightarrow> (addr \<rightharpoonup> 'p) \<Rightarrow> addr \<Rightarrow> addr list" where
  "held_by kids g a = (case g a of None \<Rightarrow> [] | Some x \<Rightarrow> kids x)"

lemma held_by_Some [simp]: "g a = Some x \<Longrightarrow> held_by kids g a = kids x"
  by (simp add: held_by_def)

lemma held_by_upd: "held_by kids (g(a := r)) = (held_by kids g)(a := (case r of None \<Rightarrow> [] | Some x \<Rightarrow> kids x))"
  by (simp add: fun_eq_iff held_by_def)

definition owns2 :: "('p \<Rightarrow> addr list) \<Rightarrow> (addr \<rightharpoonup> 'c) \<Rightarrow> (addr \<rightharpoonup> 'p) \<Rightarrow> addr list \<Rightarrow> addr list \<Rightarrow> bool" where
  "owns2 kids f g vs is \<longleftrightarrow> owns is g \<and> owns (vs @ concat (map (held_by kids g) is)) f"

lemma concat_extract:
  "a \<in> set xs \<Longrightarrow> mset (concat (map f xs)) = mset (f a) + mset (concat (map f (remove1 a xs)))"
  by (induction xs) auto

lemma owns2_perm:
  assumes "mset vs = mset vs1" "mset is = mset is1"
  shows "owns2 kids f g vs is \<longleftrightarrow> owns2 kids f g vs1 is1"
proof -
  have "mset (concat (map (held_by kids g) is)) = mset (concat (map (held_by kids g) is1))"
    using assms(2) by (metis mset_concat mset_map sum_mset_sum_list map_map)
  then have "mset (vs @ concat (map (held_by kids g) is)) = mset (vs1 @ concat (map (held_by kids g) is1))"
    using assms(1) by simp
  with owns_perm [OF assms(2)] owns_perm show ?thesis unfolding owns2_def by metis
qed

lemma owns2D:
  assumes "owns2 kids f g vs is"
  shows "distinct is" "set is = dom g" "distinct vs" "v \<in> set vs \<Longrightarrow> v \<in> dom f"
    "a \<in> set is \<Longrightarrow> \<exists>x. g a = Some x \<and> set (kids x) \<subseteq> dom f"
proof -
  show "a \<in> set is \<Longrightarrow> \<exists>x. g a = Some x \<and> set (kids x) \<subseteq> dom f"
  proof -
    assume a: "a \<in> set is"
    with assms obtain x where x: "g a = Some x" by (auto simp: owns2_def owns_def)
    have "set (held_by kids g a) \<subseteq> set (vs @ concat (map (held_by kids g) is))" using a by auto
    also have "\<dots> = dom f" using assms by (simp only: owns2_def owns_def)
    finally show ?thesis using x by simp
  qed
qed (use assms in \<open>auto simp: owns2_def owns_def\<close>)

text \<open>Different parents hold different children, and none of the loose ones.\<close>

lemma owns2_separate:
  assumes "owns2 kids f g vs (a # is)" "b \<in> set is" "v \<in> set (held_by kids g b)"
  shows "v \<notin> set (held_by kids g a)" "v \<notin> set vs"
  using assms by (auto simp: owns2_def owns_def)

lemma owns2_extract: "owns2 kids f g vs is \<Longrightarrow> a \<in> set is \<Longrightarrow> owns2 kids f g vs (a # remove1 a is)"
  by (subst owns2_perm [of vs vs _ "is"]) simp_all

lemma owns2_other:
  assumes "owns2 kids f g vs is" "a \<in> set is" "b \<in> set is" "b \<noteq> a" "v \<in> set (held_by kids g b)"
  shows "v \<notin> set (held_by kids g a)"
  by (rule owns2_separate(1) [OF owns2_extract [OF assms(1,2)] _ assms(5)]) (use assms(3,4) in simp)

lemma owns2_distinct: "owns2 kids f g vs is \<Longrightarrow> a \<in> set is \<Longrightarrow> g a = Some x \<Longrightarrow> distinct (kids x)"
  by (drule (1) owns2_extract) (simp add: owns2_def owns_def)

text \<open>A write to a parent that moves children between the parent and \<open>vs\<close>.\<close>

lemma owns2_store:
  assumes own: "owns2 kids f g vs is" and a: "a \<in> set is"
    and moved: "mset vs + mset (held_by kids g a) = mset vs1 + mset (kids x)"
  shows "owns2 kids f (g(a \<mapsto> x)) vs1 is"
proof -
  let ?g = "g(a \<mapsto> x)"
  have rest: "map (held_by kids ?g) (remove1 a is) = map (held_by kids g) (remove1 a is)"
    using owns2D(1) [OF own] by (auto simp: held_by_def)
  have "mset (vs1 @ concat (map (held_by kids ?g) is)) = mset (vs @ concat (map (held_by kids g) is))"
    using moved concat_extract [OF a, of "held_by kids ?g"] concat_extract [OF a, of "held_by kids g"] rest
    by (simp add: held_by_def [of _ ?g])
  then have "owns (vs1 @ concat (map (held_by kids ?g) is)) f" using own owns_perm unfolding owns2_def by metis
  then show ?thesis using own owns_write [of "is" g a x, OF _ a] by (simp add: owns2_def)
qed

lemma owns2_new_child: "owns2 kids f g vs is \<Longrightarrow> b \<notin> dom f \<Longrightarrow> owns2 kids (f(b \<mapsto> m)) g (b # vs) is"
  using owns_alloc [of "vs @ concat (map (held_by kids g) is)" f b m] by (simp add: owns2_def)

lemma owns2_new_parent:
  assumes "owns2 kids f g vs is" "a \<notin> dom g" "kids x = []"
  shows "owns2 kids f (g(a \<mapsto> x)) vs (a # is)"
proof -
  have "a \<notin> set is" using assms(1,2) by (auto simp: owns2_def owns_def)
  then have "concat (map (held_by kids (g(a \<mapsto> x))) (a # is)) = concat (map (held_by kids g) is)"
    by (simp add: held_by_upd assms(3))
  then show ?thesis using assms owns_alloc [of "is" g a x] unfolding owns2_def by simp
qed

lemma owns2_free_child:
  assumes "owns2 kids f g (v # vs) is"
  shows "f v \<noteq> None" "owns2 kids (f(v := None)) g vs is"
  using owns2D(4) [OF assms, of v] assms owns_free [of v "vs @ concat (map (held_by kids g) is)" f]
  by (auto simp: owns2_def)

lemma owns2_free_parent:
  assumes own: "owns2 kids f g vs (a # is)"
  shows "owns2 kids (f |` (- set (held_by kids g a))) (g(a := None)) vs is"
proof -
  have "a \<notin> set is" using owns2D(1) [OF own] by simp
  then have same: "map (held_by kids (g(a := None))) is = map (held_by kids g) is" by (simp add: held_by_upd)
  have "owns is (g(a := None))" using own owns_free by (auto simp: owns2_def)
  moreover have "owns (vs @ concat (map (held_by kids g) is)) (f |` (- set (held_by kids g a)))"
    using own by (auto simp: owns2_def owns_def)
  ultimately show ?thesis unfolding owns2_def same by simp
qed

lemma owns2_empty: "owns2 kids f g [] [] \<longleftrightarrow> f = Map.empty \<and> g = Map.empty"
  by (auto simp: owns2_def owns_Nil)

text \<open>A map over the parents, with one of them changed.\<close>

lemma map_upd_nth: "distinct xs \<Longrightarrow> i < length xs \<Longrightarrow> map (f(xs ! i := y)) xs = (map f xs)[i := y]"
  by (rule nth_equalityI) (auto simp: nth_list_update nth_eq_iff_index_eq)

end
