(* ===== verification/Proposer_Heap.thy ===== *)
theory Proposer_Heap
  imports Proposer_Spec Ownership
begin

text \<open>
  \<open>paxos/proposer.c\<close> once more, with its pointers. \<open>Proposer\<close> keeps instances and values inside the
  queues, which is right as long as every block is reached in one way only. Here the queues hold
  addresses, instances point to their values, and a heap says which blocks are allocated; blocks
  move between queues, are shared by nobody and are freed when an instance is finished. A read or a
  write through a pointer to a freed block, and a second \<open>free\<close>, are the error \<open>DanglingPointer\<close>.

  The invariant \<open>mem_ok\<close> says that every allocated block is owned exactly once. Every operation keeps
  it, never fails for a dangling pointer and computes the same specification \<open>Proposer_Spec\<close> as the
  operations of \<open>Proposer\<close>; \<open>proposer_free\<close> leaves an empty heap. So the proposer leaks nothing.

  The array of a quorum counter belongs to its instance and the array of a queue to the queue; they
  are part of these objects. The requests that are returned belong to the caller; they are values.
\<close>

section \<open>The heap\<close>

record m_instance =
  mi_iid :: iid_t
  mi_ballot :: ballot_t
  mi_value_ballot :: ballot_t
  mi_value :: "addr option"
  mi_closed :: bool
  mi_quorum :: quorum
  mi_created_at :: timeval

record m_proposer =
  mp_id :: int
  mp_acceptors :: nat
  mp_values :: "addr carray"
  mp_next_prepare_iid :: iid_t
  mp_prepare_instances :: "addr carray"
  mp_accept_instances :: "addr carray"

record heap =
  hp_values :: "addr \<rightharpoonup> paxos_msg"
  hp_instances :: "addr \<rightharpoonup> m_instance"
  hp_brk :: addr   \<comment> \<open>no block at or above this address was ever allocated\<close>

definition heap_new :: heap where
  "heap_new = \<lparr>hp_values = Map.empty, hp_instances = Map.empty, hp_brk = 0\<rparr>"

definition malloc_value :: "paxos_msg \<Rightarrow> heap \<Rightarrow> addr \<times> heap" where
  "malloc_value m h = (hp_brk h, h\<lparr>hp_values := (hp_values h)(hp_brk h \<mapsto> m), hp_brk := Suc (hp_brk h)\<rparr>)"

definition malloc_instance :: "m_instance \<Rightarrow> heap \<Rightarrow> addr \<times> heap" where
  "malloc_instance x h =
     (hp_brk h, h\<lparr>hp_instances := (hp_instances h)(hp_brk h \<mapsto> x), hp_brk := Suc (hp_brk h)\<rparr>)"

definition load_value :: "heap \<Rightarrow> addr \<Rightarrow> paxos_msg res" where
  "load_value h a = (case hp_values h a of None \<Rightarrow> Err DanglingPointer | Some m \<Rightarrow> Ok m)"

definition free_value :: "addr \<Rightarrow> heap \<Rightarrow> heap res" where
  "free_value a h =
     (if hp_values h a = None then Err DanglingPointer else Ok (h\<lparr>hp_values := (hp_values h)(a := None)\<rparr>))"

definition load_instance :: "heap \<Rightarrow> addr \<Rightarrow> m_instance res" where
  "load_instance h a = (case hp_instances h a of None \<Rightarrow> Err DanglingPointer | Some x \<Rightarrow> Ok x)"

definition store_instance :: "addr \<Rightarrow> m_instance \<Rightarrow> heap \<Rightarrow> heap res" where
  "store_instance a x h =
     (if hp_instances h a = None then Err DanglingPointer
      else Ok (h\<lparr>hp_instances := (hp_instances h)(a \<mapsto> x)\<rparr>))"

definition free_block :: "addr \<Rightarrow> heap \<Rightarrow> heap res" where
  "free_block a h =
     (if hp_instances h a = None then Err DanglingPointer
      else Ok (h\<lparr>hp_instances := (hp_instances h)(a := None)\<rparr>))"

section \<open>Helpers\<close>

definition wrap_value_m :: "byte list \<Rightarrow> size_t \<Rightarrow> heap \<Rightarrow> (addr \<times> heap) res" where
  "wrap_value_m v n h = rbind (wrap_value v n) (\<lambda>msg. Ok (malloc_value msg h))"

definition instance_new_m ::
  "(nat \<Rightarrow> int) \<Rightarrow> timeval \<Rightarrow> iid_t \<Rightarrow> ballot_t \<Rightarrow> nat \<Rightarrow> heap \<Rightarrow> (addr \<times> heap) res" where
  "instance_new_m junk now iid ballot acceptors h =
     rbind (quorum_init junk acceptors) (\<lambda>q.
       Ok (malloc_instance \<lparr>mi_iid = iid, mi_ballot = ballot, mi_value_ballot = 0, mi_value = None,
             mi_closed = False, mi_quorum = q, mi_created_at = now\<rparr> h))"

text \<open>The array of flags is gone: every later access to it is out of bounds.\<close>

definition quorum_destroy :: "quorum \<Rightarrow> quorum" where
  "quorum_destroy q = q\<lparr>q_acceptor_ids := []\<rparr>"

definition instance_free :: "addr \<Rightarrow> heap \<Rightarrow> heap res" where
  "instance_free a h =
     rbind (load_instance h a) (\<lambda>inst.
     rbind (store_instance a (inst\<lparr>mi_quorum := quorum_destroy (mi_quorum inst)\<rparr>) h) (\<lambda>h1.
     rbind (case mi_value inst of None \<Rightarrow> Ok h1 | Some v \<Rightarrow> free_value v h1) (free_block a)))"

definition instance_find_m :: "heap \<Rightarrow> addr carray \<Rightarrow> iid_t \<Rightarrow> addr option res" where
  "instance_find_m h c iid =
     for_loop [0..<carray_count c]
       (\<lambda>i found. case found of
           Some a \<Rightarrow> Ok (Some a)
         | None \<Rightarrow> rbind (carray_item c (int i)) (\<lambda>a.
                   rbind (load_instance h a) (\<lambda>inst.
                     Ok (if mi_iid inst = iid then Some a else None))))
       None"

text \<open>\<open>carray_reject\<close> with \<open>instance_match\<close>, which reads both instances.\<close>

definition instance_match_m :: "heap \<Rightarrow> addr \<Rightarrow> addr \<Rightarrow> bool res" where
  "instance_match_m h a b =
     rbind (load_instance h a) (\<lambda>x. rbind (load_instance h b) (\<lambda>y. Ok (mi_iid x = mi_iid y)))"

definition instance_remove_m :: "heap \<Rightarrow> addr carray \<Rightarrow> addr \<Rightarrow> addr carray res" where
  "instance_remove_m h c a =
     for_loop [0..<carray_count c]
       (\<lambda>i new. rbind (carray_item c (int i)) (\<lambda>b.
                rbind (instance_match_m h a b) (\<lambda>m. if \<not> m then carray_push_back new b else Ok new)))
       (carray_new (ca_size c))"

definition proposer_next_ballot_m :: "m_proposer \<Rightarrow> ballot_t \<Rightarrow> ballot_t" where
  "proposer_next_ballot_m p b =
     (if b > 0 then of_nat MAX_N_OF_PROPOSERS + b else word_of_int (int MAX_N_OF_PROPOSERS + mp_id p))"

definition prepare_preempt_m ::
  "m_proposer \<Rightarrow> timeval \<Rightarrow> addr \<Rightarrow> heap \<Rightarrow> (prepare_req \<times> heap) res" where
  "prepare_preempt_m p now a h =
     rbind (load_instance h a) (\<lambda>inst.
       let b = proposer_next_ballot_m p (mi_ballot inst) in
       rbind (quorum_clear (mi_quorum inst)) (\<lambda>q.
       rbind (store_instance a (inst\<lparr>mi_ballot := b, mi_quorum := q, mi_created_at := now\<rparr>) h) (\<lambda>h1.
         Ok (\<lparr>pr_iid = mi_iid inst, pr_ballot = b\<rparr>, h1))))"

section \<open>Operations\<close>

definition proposer_new_m :: "int \<Rightarrow> nat \<Rightarrow> m_proposer" where
  "proposer_new_m pid acceptors =
     \<lparr>mp_id = pid, mp_acceptors = acceptors, mp_values = carray_new 128, mp_next_prepare_iid = 0,
      mp_prepare_instances = carray_new 128, mp_accept_instances = carray_new 128\<rparr>"

definition free_items :: "(addr \<Rightarrow> heap \<Rightarrow> heap res) \<Rightarrow> addr carray \<Rightarrow> heap \<Rightarrow> heap res" where
  "free_items f c h =
     for_loop [0..<carray_count c] (\<lambda>i h. rbind (carray_item c (int i)) (\<lambda>a. f a h)) h"

definition proposer_free :: "m_proposer \<Rightarrow> heap \<Rightarrow> heap res" where
  "proposer_free p h =
     rbind (free_items free_value (mp_values p) h) (\<lambda>h1.
     rbind (free_items instance_free (mp_prepare_instances p) h1) (\<lambda>h2.
       free_items instance_free (mp_accept_instances p) h2))"

definition proposer_propose_m :: "byte list \<Rightarrow> size_t \<Rightarrow> heap \<times> m_proposer \<Rightarrow> (heap \<times> m_proposer) res" where
  "proposer_propose_m v n x =
     (case x of (h, p) \<Rightarrow>
      rbind (wrap_value_m v n h) (\<lambda>(msg, h1).
      rbind (carray_push_back (mp_values p) msg) (\<lambda>c. Ok (h1, p\<lparr>mp_values := c\<rparr>))))"

definition proposer_prepare_m ::
  "(nat \<Rightarrow> int) \<Rightarrow> timeval \<Rightarrow> heap \<times> m_proposer \<Rightarrow> (prepare_req \<times> heap \<times> m_proposer) res" where
  "proposer_prepare_m junk now x =
     (case x of (h, p) \<Rightarrow>
      let iid = mp_next_prepare_iid p + 1 in
      rbind (instance_new_m junk now iid (proposer_next_ballot_m p 0) (mp_acceptors p) h) (\<lambda>(a, h1).
      rbind (carray_push_back (mp_prepare_instances p) a) (\<lambda>c.
      rbind (load_instance h1 a) (\<lambda>inst.
        Ok (\<lparr>pr_iid = mi_iid inst, pr_ballot = mi_ballot inst\<rparr>,
            h1, p\<lparr>mp_next_prepare_iid := iid, mp_prepare_instances := c\<rparr>)))))"

definition take_value ::
  "prepare_ack \<Rightarrow> addr \<Rightarrow> heap \<times> m_proposer \<Rightarrow> (heap \<times> m_proposer) res" where
  "take_value ack a x =
     (case x of (h, p) \<Rightarrow>
      rbind (wrap_value_m (pa_value ack) (pa_value_size ack) h) (\<lambda>(msg, h1).
      rbind (load_instance h1 a) (\<lambda>inst.
      rbind (store_instance a (inst\<lparr>mi_value_ballot := pa_value_ballot ack, mi_value := Some msg\<rparr>) h1) (\<lambda>h2.
        Ok (h2, p)))))"

definition proposer_receive_prepare_ack_m ::
  "timeval \<Rightarrow> prepare_ack \<Rightarrow> heap \<times> m_proposer \<Rightarrow> (prepare_req option \<times> heap \<times> m_proposer) res" where
  "proposer_receive_prepare_ack_m now ack x =
     (case x of (h, p) \<Rightarrow>
      rbind (instance_find_m h (mp_prepare_instances p) (pa_iid ack)) (\<lambda>found.
        case found of
          None \<Rightarrow> Ok (None, h, p)
        | Some a \<Rightarrow>
            rbind (load_instance h a) (\<lambda>inst.
              if pa_ballot ack < mi_ballot inst then Ok (None, h, p)
              else if pa_ballot ack = mi_ballot inst then
                rbind (quorum_add (mi_quorum inst) (pa_acceptor_id ack)) (\<lambda>(added, q).
                  if \<not> added then Ok (None, h, p)
                  else
                    rbind (store_instance a (inst\<lparr>mi_quorum := q\<rparr>) h) (\<lambda>h1.
                      if pa_value_size ack > 0 then
                        (case mi_value inst of
                           None \<Rightarrow> rbind (take_value ack a (h1, p)) (\<lambda>y. Ok (None, y))
                         | Some old \<Rightarrow>
                             if pa_value_ballot ack > mi_value_ballot inst then
                               rbind (carray_push_back (mp_values p) old) (\<lambda>vs.
                               rbind (take_value ack a (h1, p\<lparr>mp_values := vs\<rparr>)) (\<lambda>y. Ok (None, y)))
                             else Ok (None, h1, p))
                      else Ok (None, h1, p)))
              else
                rbind (prepare_preempt_m p now a h) (\<lambda>(out, h1). Ok (Some out, h1, p)))))"

text \<open>The loop of \<open>proposer_accept\<close> frees the closed instances it pops.\<close>

function accept_scan_m :: "heap \<Rightarrow> addr carray \<Rightarrow> (addr option \<times> heap \<times> addr carray) res" where
  "accept_scan_m h c =
     rbind (carray_front c) (\<lambda>front.
       case front of
         None \<Rightarrow> Ok (None, h, c)
       | Some a \<Rightarrow>
           rbind (load_instance h a) (\<lambda>inst.
             if mi_closed inst then
               rbind (carray_pop_front c) (\<lambda>(popped, d).
                 case popped of
                   None \<Rightarrow> Err NullPointer
                 | Some b \<Rightarrow> rbind (instance_free b h) (\<lambda>h1. accept_scan_m h1 d))
             else if \<not> quorum_reached (mi_quorum inst) then Ok (None, h, c)
             else Ok (Some a, h, c)))"
  by pat_completeness auto
termination
  by (relation "measure (\<lambda>(h, c). ca_count c)") (auto dest: carray_pop_front_count)

declare accept_scan_m.simps [simp del]

definition accept_req_of_m :: "heap \<Rightarrow> addr \<Rightarrow> accept_req res" where
  "accept_req_of_m h a =
     rbind (load_instance h a) (\<lambda>inst.
       case mi_value inst of
         None \<Rightarrow> Err NullPointer
       | Some v \<Rightarrow>
           rbind (load_value h v) (\<lambda>msg.
             if length (msg_data msg) < unat (msg_data_size msg) then Err OutOfBounds
             else Ok \<lparr>ar_iid = mi_iid inst, ar_ballot = mi_ballot inst,
                      ar_value_size = msg_data_size msg, ar_value = msg_payload msg\<rparr>))"

definition give_value :: "addr \<Rightarrow> heap \<times> m_proposer \<Rightarrow> (addr option \<times> heap \<times> m_proposer) res" where
  "give_value a x =
     (case x of (h, p) \<Rightarrow>
      rbind (load_instance h a) (\<lambda>inst.
        case mi_value inst of
          Some v \<Rightarrow> Ok (Some v, h, p)
        | None \<Rightarrow>
            rbind (carray_pop_front (mp_values p)) (\<lambda>(v, vs).
            rbind (store_instance a (inst\<lparr>mi_value := v\<rparr>) h) (\<lambda>h1. Ok (v, h1, p\<lparr>mp_values := vs\<rparr>)))))"

text \<open>The first prepared instance has a value and becomes the last of the instances in phase 2.\<close>

definition start_accept :: "heap \<times> m_proposer \<Rightarrow> (accept_req option \<times> heap \<times> m_proposer) res" where
  "start_accept x =
     (case x of (h, p) \<Rightarrow>
      rbind (carray_pop_front (mp_prepare_instances p)) (\<lambda>(popped, prep).
        case popped of
          None \<Rightarrow> Err NullPointer
        | Some a \<Rightarrow>
            rbind (load_instance h a) (\<lambda>inst.
            rbind (quorum_clear (mi_quorum inst)) (\<lambda>q.
            rbind (store_instance a (inst\<lparr>mi_quorum := q\<rparr>) h) (\<lambda>h1.
            rbind (carray_push_back (mp_accept_instances p) a) (\<lambda>acc.
            rbind (accept_req_of_m h1 a) (\<lambda>req.
              Ok (Some req, h1, p\<lparr>mp_prepare_instances := prep, mp_accept_instances := acc\<rparr>))))))))"

definition proposer_accept_m :: "heap \<times> m_proposer \<Rightarrow> (accept_req option \<times> heap \<times> m_proposer) res" where
  "proposer_accept_m x =
     (case x of (h, p) \<Rightarrow>
      rbind (accept_scan_m h (mp_prepare_instances p)) (\<lambda>(found, h1, prep).
        let p1 = p\<lparr>mp_prepare_instances := prep\<rparr> in
        case found of
          None \<Rightarrow> Ok (None, h1, p1)
        | Some a \<Rightarrow>
            rbind (give_value a (h1, p1)) (\<lambda>(v, h2, p2).
              if v = None then Ok (None, h2, p2) else start_accept (h2, p2))))"

definition proposer_receive_accept_ack_m ::
  "timeval \<Rightarrow> accept_ack \<Rightarrow> heap \<times> m_proposer \<Rightarrow> (prepare_req option \<times> heap \<times> m_proposer) res" where
  "proposer_receive_accept_ack_m now ack x =
     (case x of (h, p) \<Rightarrow>
      rbind (instance_find_m h (mp_accept_instances p) (aa_iid ack)) (\<lambda>found.
        case found of
          None \<Rightarrow> Ok (None, h, p)
        | Some a \<Rightarrow>
            rbind (load_instance h a) (\<lambda>inst.
              if aa_ballot ack = mi_ballot inst then
                rbind (rassert (aa_value_ballot ack = mi_ballot inst)) (\<lambda>_.
                rbind (quorum_add (mi_quorum inst) (aa_acceptor_id ack)) (\<lambda>(added, q).
                  if \<not> added then Ok (None, h, p)
                  else
                    rbind (store_instance a (inst\<lparr>mi_quorum := q\<rparr>) h) (\<lambda>h1.
                      if quorum_reached q then
                        rbind (instance_remove_m h1 (mp_accept_instances p) a) (\<lambda>acc.
                        rbind (instance_free a h1) (\<lambda>h2. Ok (None, h2, p\<lparr>mp_accept_instances := acc\<rparr>)))
                      else Ok (None, h1, p))))
              else
                rbind (instance_remove_m h (mp_accept_instances p) a) (\<lambda>acc.
                rbind (carray_push_front (mp_prepare_instances p) a) (\<lambda>prep.
                  let p1 = p\<lparr>mp_accept_instances := acc, mp_prepare_instances := prep\<rparr> in
                  rbind (prepare_preempt_m p1 now a h) (\<lambda>(out, h1). Ok (Some out, h1, p1)))))))"

function next_timedout_m ::
  "paxos_config \<Rightarrow> heap \<Rightarrow> addr carray \<Rightarrow> nat \<Rightarrow> timeval \<Rightarrow> (addr option \<times> nat) res" where
  "next_timedout_m cfg h c i t =
     (if i < carray_count c then
        rbind (carray_item c (int i)) (\<lambda>a.
        rbind (load_instance h a) (\<lambda>inst.
          if quorum_reached (mi_quorum inst) then next_timedout_m cfg h c (Suc i) t
          else rbind (timeval_diff (mi_created_at inst) t) (\<lambda>diff.
                 if diff \<ge> proposer_timeout cfg then Ok (Some a, Suc i)
                 else next_timedout_m cfg h c (Suc i) t)))
      else Ok (None, i))"
  by pat_completeness auto
termination
  by (relation "measure (\<lambda>(cfg, h, c, i, t). carray_count c - i)") auto

declare next_timedout_m.simps [simp del]

definition timeout_iterator_prepare_m ::
  "paxos_config \<Rightarrow> timeout_iterator \<Rightarrow> heap \<times> m_proposer \<Rightarrow>
   (prepare_req option \<times> timeout_iterator \<times> heap \<times> m_proposer) res" where
  "timeout_iterator_prepare_m cfg it x =
     (case x of (h, p) \<Rightarrow>
      rbind (next_timedout_m cfg h (mp_prepare_instances p) (ti_pi it) (ti_timeout it)) (\<lambda>(found, i).
        case found of
          None \<Rightarrow> Ok (None, it\<lparr>ti_pi := i\<rparr>, h, p)
        | Some a \<Rightarrow>
            rbind (load_instance h a) (\<lambda>inst.
            rbind (store_instance a (inst\<lparr>mi_created_at := ti_timeout it\<rparr>) h) (\<lambda>h1.
              Ok (Some \<lparr>pr_iid = mi_iid inst, pr_ballot = mi_ballot inst\<rparr>, it\<lparr>ti_pi := i\<rparr>, h1, p)))))"

definition timeout_iterator_accept_m ::
  "paxos_config \<Rightarrow> timeout_iterator \<Rightarrow> heap \<times> m_proposer \<Rightarrow>
   (accept_req option \<times> timeout_iterator \<times> heap \<times> m_proposer) res" where
  "timeout_iterator_accept_m cfg it x =
     (case x of (h, p) \<Rightarrow>
      rbind (next_timedout_m cfg h (mp_accept_instances p) (ti_ai it) (ti_timeout it)) (\<lambda>(found, i).
        case found of
          None \<Rightarrow> Ok (None, it\<lparr>ti_ai := i\<rparr>, h, p)
        | Some a \<Rightarrow>
            rbind (accept_req_of_m h a) (\<lambda>req.
            rbind (load_instance h a) (\<lambda>inst.
            rbind (store_instance a (inst\<lparr>mi_created_at := ti_timeout it\<rparr>) h) (\<lambda>h1.
              Ok (Some req, it\<lparr>ti_ai := i\<rparr>, h1, p))))))"

section \<open>Ownership\<close>

text \<open>The parents are the instances, the child of an instance is the value it points to.\<close>

definition value_of :: "m_instance \<Rightarrow> addr list" where
  "value_of x = opt_list (mi_value x)"

definition held :: "heap \<Rightarrow> addr \<Rightarrow> addr list" where
  "held h = held_by value_of (hp_instances h)"

lemma held_Some: "hp_instances h a = Some x \<Longrightarrow> held h a = opt_list (mi_value x)"
  by (simp add: held_def value_of_def)

lemma held_store: "held (h\<lparr>hp_values := f, hp_brk := n\<rparr>) = held h"
  by (simp add: held_def)

text \<open>
  The values \<open>vs\<close>, the instances \<open>is\<close> and the values of these instances are all the allocated blocks,
  and none of them is named twice.
\<close>

definition heap_owns :: "heap \<Rightarrow> addr list \<Rightarrow> addr list \<Rightarrow> bool" where
  "heap_owns h = owns2 value_of (hp_values h) (hp_instances h)"

lemma heap_owns_perm: "mset vs = mset vs1 \<Longrightarrow> mset is = mset is1 \<Longrightarrow> heap_owns h vs is \<longleftrightarrow> heap_owns h vs1 is1"
  unfolding heap_owns_def by (rule owns2_perm)

lemma heap_ownsD:
  assumes "heap_owns h vs is"
  shows "distinct is" "set is = dom (hp_instances h)" "distinct vs" "v \<in> set vs \<Longrightarrow> v \<in> dom (hp_values h)"
    "a \<in> set is \<Longrightarrow> \<exists>x. hp_instances h a = Some x \<and> set (opt_list (mi_value x)) \<subseteq> dom (hp_values h)"
  using owns2D [OF assms [unfolded heap_owns_def]] unfolding value_of_def by blast+

lemma heap_owns_store:
  assumes "heap_owns h vs is" "a \<in> set is" and h1: "h1 = h\<lparr>hp_instances := (hp_instances h)(a \<mapsto> x)\<rparr>"
    and "mset vs + mset (held h a) = mset vs1 + mset (opt_list (mi_value x))"
  shows "heap_owns h1 vs1 is"
  using owns2_store [of value_of "hp_values h" "hp_instances h" vs "is" a vs1 x] assms
  by (simp add: heap_owns_def held_def value_of_def)

lemma heap_owns_new_value:
  "heap_owns h vs is \<Longrightarrow> a \<notin> dom (hp_values h) \<Longrightarrow>
    heap_owns (h\<lparr>hp_values := (hp_values h)(a \<mapsto> m), hp_brk := n\<rparr>) (a # vs) is"
  by (simp add: heap_owns_def owns2_new_child)

lemma heap_owns_new_instance:
  "heap_owns h vs is \<Longrightarrow> a \<notin> dom (hp_instances h) \<Longrightarrow> mi_value x = None \<Longrightarrow>
    heap_owns (h\<lparr>hp_instances := (hp_instances h)(a \<mapsto> x), hp_brk := n\<rparr>) vs (a # is)"
  by (simp add: heap_owns_def owns2_new_parent value_of_def)

lemma heap_owns_free_value:
  "heap_owns h (v # vs) is \<Longrightarrow> \<exists>h1. free_value v h = Ok h1 \<and> heap_owns h1 vs is"
  using owns2_free_child [of value_of "hp_values h" "hp_instances h" v vs "is"] by (simp add: heap_owns_def free_value_def)

lemma heap_owns_free_instance:
  assumes h: "heap_owns h vs (a # is)"
  shows "\<exists>h1. instance_free a h = Ok h1 \<and> heap_owns h1 vs is \<and> hp_brk h1 = hp_brk h \<and>
    hp_instances h1 = (hp_instances h)(a := None) \<and> hp_values h1 = hp_values h |` (- set (held h a))"
proof -
  from heap_ownsD(5) [OF h, of a] obtain x where
    x: "hp_instances h a = Some x" "set (opt_list (mi_value x)) \<subseteq> dom (hp_values h)" by auto
  let ?h1 = "h\<lparr>hp_instances := (hp_instances h)(a := None), hp_values := hp_values h |` (- set (held h a))\<rparr>"
  have "instance_free a h = Ok ?h1"
    using x by (cases "mi_value x")
      (auto simp: instance_free_def load_instance_def store_instance_def free_value_def free_block_def held_Some
        restrict_map_def fun_eq_iff intro!: arg_cong [of _ _ "\<lambda>f. hp_values_update (\<lambda>_. f) _"])
  moreover have "heap_owns ?h1 vs is"
    using owns2_free_parent [OF h [unfolded heap_owns_def]] by (simp add: heap_owns_def held_def)
  ultimately show ?thesis by simp
qed

section \<open>The invariant and the lists that a proposer represents\<close>

definition value_at :: "heap \<Rightarrow> addr \<Rightarrow> paxos_msg" where
  "value_at h v = the (hp_values h v)"

definition inst_of :: "heap \<Rightarrow> m_instance \<Rightarrow> p_instance" where
  "inst_of h x = \<lparr>pi_iid = mi_iid x, pi_ballot = mi_ballot x, pi_value_ballot = mi_value_ballot x,
     pi_value = map_option (value_at h) (mi_value x), pi_closed = mi_closed x,
     pi_quorum = mi_quorum x, pi_created_at = mi_created_at x\<rparr>"

definition inst_at :: "heap \<Rightarrow> addr \<Rightarrow> p_instance" where
  "inst_at h a = inst_of h (the (hp_instances h a))"

definition owned :: "m_proposer \<Rightarrow> addr list" where
  "owned p = clist (mp_prepare_instances p) @ clist (mp_accept_instances p)"

definition queues_ok :: "m_proposer \<Rightarrow> bool" where
  "queues_ok p \<longleftrightarrow> carray_inv (mp_values p) \<and> carray_inv (mp_prepare_instances p) \<and> carray_inv (mp_accept_instances p)"

definition below_brk :: "heap \<Rightarrow> bool" where
  "below_brk h \<longleftrightarrow> (\<forall>a \<in> dom (hp_instances h) \<union> dom (hp_values h). a < hp_brk h)"

definition mem_ok :: "heap \<Rightarrow> m_proposer \<Rightarrow> bool" where
  "mem_ok h p \<longleftrightarrow> queues_ok p \<and> heap_owns h (clist (mp_values p)) (owned p) \<and> below_brk h"

definition lists_at :: "heap \<Rightarrow> m_proposer \<Rightarrow> lproposer" where
  "lists_at h p =
     \<lparr>lp_id = mp_id p, lp_acceptors = mp_acceptors p, lp_values = map (value_at h) (clist (mp_values p)),
      lp_next = mp_next_prepare_iid p, lp_preps = map (inst_at h) (clist (mp_prepare_instances p)),
      lp_accs = map (inst_at h) (clist (mp_accept_instances p))\<rparr>"

lemma mem_okD:
  assumes "mem_ok h p"
  shows "carray_inv (mp_values p)" "carray_inv (mp_prepare_instances p)" "carray_inv (mp_accept_instances p)"
    "heap_owns h (clist (mp_values p)) (owned p)" "below_brk h"
    "distinct (clist (mp_prepare_instances p) @ clist (mp_accept_instances p))"
    "set (clist (mp_prepare_instances p)) \<subseteq> dom (hp_instances h)"
    "set (clist (mp_accept_instances p)) \<subseteq> dom (hp_instances h)"
  using assms heap_ownsD(1,2) [of h "clist (mp_values p)" "owned p"] by (auto simp: mem_ok_def queues_ok_def owned_def)

lemma brk_fresh: "below_brk h \<Longrightarrow> hp_brk h \<notin> dom (hp_values h) \<and> hp_brk h \<notin> dom (hp_instances h)"
  by (auto simp: below_brk_def)

lemma below_brk_grow:
  "below_brk h \<Longrightarrow> below_brk (h\<lparr>hp_values := (hp_values h)(hp_brk h \<mapsto> m), hp_brk := Suc (hp_brk h)\<rparr>)"
  "below_brk h \<Longrightarrow> below_brk (h\<lparr>hp_instances := (hp_instances h)(hp_brk h \<mapsto> x), hp_brk := Suc (hp_brk h)\<rparr>)"
  by (fastforce simp: below_brk_def intro: less_SucI)+

lemma inst_of_sel [simp]:
  "pi_iid (inst_of h x) = mi_iid x" "pi_ballot (inst_of h x) = mi_ballot x"
  "pi_value_ballot (inst_of h x) = mi_value_ballot x" "pi_quorum (inst_of h x) = mi_quorum x"
  "pi_closed (inst_of h x) = mi_closed x" "pi_created_at (inst_of h x) = mi_created_at x"
  "pi_value (inst_of h x) = map_option (value_at h) (mi_value x)"
  by (simp_all add: inst_of_def)

text \<open>What a write to an instance and a new value change.\<close>

lemma value_at_store [simp]: "value_at (h\<lparr>hp_instances := f\<rparr>) = value_at h" "value_at (h\<lparr>hp_brk := n\<rparr>) = value_at h"
  by (simp_all add: fun_eq_iff value_at_def)

lemma inst_at_store:
  "h1 = h\<lparr>hp_instances := (hp_instances h)(a \<mapsto> x)\<rparr> \<Longrightarrow> inst_at h1 = (inst_at h)(a := inst_of h x)"
  by (auto simp: fun_eq_iff inst_at_def inst_of_def)

lemma inst_at_same:
  assumes "heap_owns h vs is" "a \<in> set is" "hp_instances h1 a = hp_instances h a"
    and "\<And>v. v \<in> set (held h a) \<Longrightarrow> hp_values h1 v = hp_values h v"
  shows "inst_at h1 a = inst_at h a"
proof -
  from heap_ownsD(5) [OF assms(1,2)] obtain x where "hp_instances h a = Some x" by blast
  with assms(3,4) show ?thesis by (cases "mi_value x") (auto simp: inst_at_def inst_of_def value_at_def held_def value_of_def)
qed

lemma inst_at_new_value:
  assumes "heap_owns h vs is" "a \<in> set is" "b \<notin> dom (hp_values h)"
  shows "inst_at (h\<lparr>hp_values := (hp_values h)(b \<mapsto> m), hp_brk := n\<rparr>) a = inst_at h a"
proof (rule inst_at_same [OF assms(1,2)])
  fix v assume "v \<in> set (held h a)"
  with heap_ownsD(5) [OF assms(1,2)] have "v \<in> dom (hp_values h)" by (auto simp: held_def value_of_def)
  with assms(3) show "hp_values (h\<lparr>hp_values := (hp_values h)(b \<mapsto> m), hp_brk := n\<rparr>) v = hp_values h v" by auto
qed simp

lemma lists_at_store:
  assumes ok: "mem_ok h p" and h1: "h1 = h\<lparr>hp_instances := (hp_instances h)(a \<mapsto> x)\<rparr>"
  shows "i < ca_count (mp_prepare_instances p) \<Longrightarrow> a = clist (mp_prepare_instances p) ! i \<Longrightarrow>
      lists_at h1 p = (lists_at h p)\<lparr>lp_preps := (lp_preps (lists_at h p))[i := inst_of h x]\<rparr>"
    and "i < ca_count (mp_accept_instances p) \<Longrightarrow> a = clist (mp_accept_instances p) ! i \<Longrightarrow>
      lists_at h1 p = (lists_at h p)\<lparr>lp_accs := (lp_accs (lists_at h p))[i := inst_of h x]\<rparr>"
proof -
  let ?P = "clist (mp_prepare_instances p)" and ?A = "clist (mp_accept_instances p)"
  have d: "distinct ?P" "distinct ?A" "set ?P \<inter> set ?A = {}" using mem_okD(6) [OF ok] by simp_all
  have v: "value_at h1 = value_at h" by (simp add: h1)
  {
    assume i: "i < ca_count (mp_prepare_instances p)" "a = ?P ! i"
    then have "a \<in> set ?P" by simp
    then have "a \<notin> set ?A" using d(3) by blast
    then show "lists_at h1 p = (lists_at h p)\<lparr>lp_preps := (lp_preps (lists_at h p))[i := inst_of h x]\<rparr>"
      using map_upd_nth [OF d(1), of i "inst_at h"] i v by (simp add: lists_at_def inst_at_store [OF h1] del: fun_upd_apply)
  next
    assume i: "i < ca_count (mp_accept_instances p)" "a = ?A ! i"
    then have "a \<in> set ?A" by simp
    then have "a \<notin> set ?P" using d(3) by blast
    then show "lists_at h1 p = (lists_at h p)\<lparr>lp_accs := (lp_accs (lists_at h p))[i := inst_of h x]\<rparr>"
      using map_upd_nth [OF d(2), of i "inst_at h"] i v by (simp add: lists_at_def inst_at_store [OF h1] del: fun_upd_apply)
  }
qed

lemma mem_ok_store:
  assumes ok: "mem_ok h p" and a: "a \<in> set (owned p)" and h1: "h1 = h\<lparr>hp_instances := (hp_instances h)(a \<mapsto> x)\<rparr>"
    and same: "opt_list (mi_value x) = held h a"
  shows "mem_ok h1 p"
proof -
  have "hp_instances h a \<noteq> None" using heap_ownsD(2) [OF mem_okD(4) [OF ok]] a by auto
  then have "below_brk h1" using mem_okD(5) [OF ok] by (auto simp: below_brk_def h1)
  moreover have "heap_owns h1 (clist (mp_values p)) (owned p)"
    by (rule heap_owns_store [OF mem_okD(4) [OF ok] a h1]) (simp add: same)
  ultimately show ?thesis using ok by (simp add: mem_ok_def)
qed

lemma owned_instance:
  assumes "mem_ok h p" "a \<in> set (owned p)"
  obtains x where "hp_instances h a = Some x" "load_instance h a = Ok x" "inst_at h a = inst_of h x"
    "held h a = opt_list (mi_value x)" "\<And>y. store_instance a y h = Ok (h\<lparr>hp_instances := (hp_instances h)(a \<mapsto> y)\<rparr>)"
proof -
  from heap_ownsD(5) [OF mem_okD(4) [OF assms(1)] assms(2)] obtain x where "hp_instances h a = Some x" by blast
  then show thesis by (intro that [of x]) (simp_all add: load_instance_def store_instance_def inst_at_def held_def value_of_def)
qed

section \<open>Searching\<close>

lemma instance_find_m_ok:
  assumes inv: "carray_inv c" and dom: "set (clist c) \<subseteq> dom (hp_instances h)"
  shows "instance_find_m h c i = Ok (map_option (nth (clist c)) (iid_index i (map (inst_at h) (clist c))))"
proof -
  let ?find = "\<lambda>n. map_option (nth (clist c)) (List.find (\<lambda>k. pi_iid (map (inst_at h) (clist c) ! k) = i) [0..<n])"
  let ?body = "\<lambda>k found. case found of
           Some a \<Rightarrow> Ok (Some a)
         | None \<Rightarrow> rbind (carray_item c (int k)) (\<lambda>a.
                   rbind (load_instance h a) (\<lambda>inst. Ok (if mi_iid inst = i then Some a else None)))"
  have step: "\<exists>t'. ?body k t = Ok t' \<and> t' = ?find (Suc k)" if "k < ca_count c" "t = ?find k" for k t
  proof -
    have "clist c ! k \<in> set (clist c)" using that(1) by simp
    with dom obtain x where x: "hp_instances h (clist c ! k) = Some x" by blast
    with that show ?thesis
      by (auto simp: inv load_instance_def inst_at_def find_append split: option.splits)
  qed
  have "\<exists>t. for_loop [0..<ca_count c] ?body None = Ok t \<and> t = ?find (ca_count c)"
    by (rule for_loop_upto_inv) (use step in simp_all)
  then show ?thesis by (simp add: instance_find_m_def iid_index_def carray_count_def)
qed

lemma instance_remove_m_ok:
  assumes inv: "carray_inv c" and dom: "set (clist c) \<subseteq> dom (hp_instances h)" "hp_instances h a = Some x"
  shows "\<exists>d. instance_remove_m h c a = Ok d \<and> carray_inv d \<and>
    clist d = filter (\<lambda>b. pi_iid (inst_at h b) \<noteq> mi_iid x) (clist c)"
proof -
  let ?body = "\<lambda>i new. rbind (carray_item c (int i)) (\<lambda>b.
      rbind (instance_match_m h a b) (\<lambda>m. if \<not> m then carray_push_back new b else Ok new))"
  let ?I = "\<lambda>i d. carray_inv d \<and> clist d = filter (\<lambda>b. pi_iid (inst_at h b) \<noteq> mi_iid x) (take i (clist c))"
  have step: "\<exists>t'. ?body i t = Ok t' \<and> ?I (Suc i) t'" if "i < ca_count c" "?I i t" for i t
  proof -
    have "clist c ! i \<in> set (clist c)" using that(1) by simp
    with dom(1) obtain y where y: "hp_instances h (clist c ! i) = Some y" by blast
    with that dom(2) carray_push_back_ok [of t "clist c ! i"] show ?thesis
      by (auto simp: inv instance_match_m_def load_instance_def inst_at_def take_Suc_conv_app_nth)
  qed
  have "\<exists>d. for_loop [0..<ca_count c] ?body (carray_new (ca_size c)) = Ok d \<and> ?I (ca_count c) d"
    by (rule for_loop_upto_inv) (use step carray_invD(1) [OF inv] in simp_all)
  then show ?thesis by (simp add: instance_remove_m_def carray_count_def)
qed

section \<open>The operations keep the invariant and compute the specification\<close>

definition heap_implements :: "('a \<times> heap \<times> m_proposer) res \<Rightarrow> 'a \<times> lproposer \<Rightarrow> bool" where
  "heap_implements r s \<longleftrightarrow> (\<exists>h p. r = Ok (fst s, h, p) \<and> mem_ok h p \<and> lists_at h p = snd s)"

lemma heap_implements_Ok [simp]:
  "heap_implements (Ok (a, h, p)) (b, l) \<longleftrightarrow> a = b \<and> mem_ok h p \<and> lists_at h p = l"
  by (auto simp: heap_implements_def)

lemma lists_at_sel [simp]:
  "lp_id (lists_at h p) = mp_id p" "lp_acceptors (lists_at h p) = mp_acceptors p"
  "lp_values (lists_at h p) = map (value_at h) (clist (mp_values p))"
  "lp_next (lists_at h p) = mp_next_prepare_iid p"
  "lp_preps (lists_at h p) = map (inst_at h) (clist (mp_prepare_instances p))"
  "lp_accs (lists_at h p) = map (inst_at h) (clist (mp_accept_instances p))"
  by (simp_all add: lists_at_def)

text \<open>A new value becomes the last of the queue.\<close>

lemma mem_ok_new_value:
  assumes ok: "mem_ok h p" and h1: "h1 = snd (malloc_value m h)" and vs: "carray_inv vs" "clist vs = clist (mp_values p) @ [hp_brk h]"
  shows "mem_ok h1 (p\<lparr>mp_values := vs\<rparr>)" "lists_at h1 (p\<lparr>mp_values := vs\<rparr>) = (lists_at h p)\<lparr>lp_values := lp_values (lists_at h p) @ [m]\<rparr>"
proof -
  note D = mem_okD [OF ok] and B = brk_fresh [OF mem_okD(5) [OF ok]]
  have eq: "h1 = h\<lparr>hp_values := (hp_values h)(hp_brk h \<mapsto> m), hp_brk := Suc (hp_brk h)\<rparr>" by (simp add: h1 malloc_value_def)
  have "heap_owns h1 (hp_brk h # clist (mp_values p)) (owned p)"
    unfolding eq by (rule heap_owns_new_value [OF D(4)]) (use B in simp)
  then have "heap_owns h1 (clist vs) (owned p)" by (subst heap_owns_perm [of _ "hp_brk h # clist (mp_values p)" _ "owned p"]) (simp_all add: vs)
  moreover have "below_brk h1" unfolding eq by (rule below_brk_grow(1) [OF D(5)])
  ultimately show "mem_ok h1 (p\<lparr>mp_values := vs\<rparr>)" using D vs by (simp add: mem_ok_def queues_ok_def owned_def)
  have "inst_at h1 a = inst_at h a" if "a \<in> set (owned p)" for a
    unfolding eq by (rule inst_at_new_value [OF D(4) that]) (use B in simp)
  moreover have "value_at h1 v = value_at h v" if "v \<in> set (clist (mp_values p))" for v
    using heap_ownsD(4) [OF D(4) that] B by (auto simp: value_at_def eq)
  ultimately show "lists_at h1 (p\<lparr>mp_values := vs\<rparr>) = (lists_at h p)\<lparr>lp_values := lp_values (lists_at h p) @ [m]\<rparr>"
    by (simp add: lists_at_def vs owned_def) (simp add: value_at_def eq)
qed

lemma proposer_propose_m_ok:
  assumes ok: "mem_ok h p" and k: "unat k \<le> length v"
  shows "\<exists>h1 p1. proposer_propose_m v k (h, p) = Ok (h1, p1) \<and> mem_ok h1 p1 \<and>
    lists_at h1 p1 = lp_propose (lists_at h p) v k"
proof -
  let ?m = "\<lparr>msg_data_size = k, msg_type = submit, msg_data = take (unat k) v\<rparr>"
  let ?h = "snd (malloc_value ?m h)"
  from cq.push_back [OF mem_okD(1) [OF ok], of "hp_brk h"] obtain vs where
    vs: "carray_push_back (mp_values p) (hp_brk h) = Ok vs" "carray_inv vs" "clist vs = clist (mp_values p) @ [hp_brk h]" by blast
  have "proposer_propose_m v k (h, p) = Ok (?h, p\<lparr>mp_values := vs\<rparr>)"
    using k vs(1) by (simp add: proposer_propose_m_def wrap_value_m_def wrap_value_q malloc_value_def)
  with mem_ok_new_value [OF ok refl vs(2,3), of ?m] show ?thesis by (simp add: lp_propose_def)
qed

lemma proposer_prepare_m_ok:
  assumes ok: "mem_ok h p" and n: "0 < mp_acceptors p"
  shows "heap_implements (proposer_prepare_m junk now (h, p)) (lp_prepare junk now (lists_at h p))"
proof -
  note D = mem_okD [OF ok] and B = brk_fresh [OF mem_okD(5) [OF ok]]
  let ?a = "hp_brk h"
  let ?x = "\<lparr>mi_iid = mp_next_prepare_iid p + 1, mi_ballot = next_ballot (mp_id p) 0, mi_value_ballot = 0, mi_value = None,
    mi_closed = False, mi_quorum = q_new junk (mp_acceptors p), mi_created_at = now\<rparr>"
  let ?h = "h\<lparr>hp_instances := (hp_instances h)(?a \<mapsto> ?x), hp_brk := Suc ?a\<rparr>"
  from cq.push_back [OF D(2), of ?a] obtain c where
    c: "carray_push_back (mp_prepare_instances p) ?a = Ok c" "carray_inv c" "clist c = clist (mp_prepare_instances p) @ [?a]" by blast
  let ?p = "p\<lparr>mp_next_prepare_iid := mp_next_prepare_iid p + 1, mp_prepare_instances := c\<rparr>"
  have "proposer_next_ballot_m p 0 = next_ballot (mp_id p) 0"
    by (simp add: proposer_next_ballot_m_def next_ballot_def MAX_N_OF_PROPOSERS_def)
  then have call: "proposer_prepare_m junk now (h, p) = Ok (\<lparr>pr_iid = mi_iid ?x, pr_ballot = mi_ballot ?x\<rparr>, ?h, ?p)"
    using c(1) n by (simp add: proposer_prepare_m_def instance_new_m_def quorum_init_q malloc_instance_def load_instance_def Let_def)
  have "heap_owns ?h (clist (mp_values p)) (?a # owned p)"
    by (rule heap_owns_new_instance [OF D(4)]) (use B in simp_all)
  then have "heap_owns ?h (clist (mp_values p)) (owned ?p)"
    by (subst heap_owns_perm [of _ "clist (mp_values p)" _ "?a # owned p"]) (simp_all add: owned_def c(3))
  moreover have "below_brk ?h" by (rule below_brk_grow(2) [OF D(5)])
  ultimately have "mem_ok ?h ?p" using D c(2) by (simp add: mem_ok_def queues_ok_def)
  moreover have "lists_at ?h ?p = snd (lp_prepare junk now (lists_at h p))"
  proof -
    have i: "inst_at ?h = (inst_at h)(?a := inst_of h ?x)"
      by (auto simp: fun_eq_iff inst_at_def inst_of_def)
    have "?a \<notin> set (clist (mp_prepare_instances p))" "?a \<notin> set (clist (mp_accept_instances p))"
      using B D(7,8) by blast+
    then show ?thesis unfolding lists_at_def i by (simp add: c(3) lp_prepare_def Let_def inst_of_def)
  qed
  ultimately show ?thesis using call by (simp add: heap_implements_def lp_prepare_def Let_def prepare_of_def)
qed

text \<open>An instance gets a new value, and the one it had goes to the queue.\<close>

lemma take_value_ok:
  assumes ok: "mem_ok h p" and a: "a \<in> set (owned p)" "hp_instances h a = Some x"
    and vs: "carray_inv vs" "clist vs = clist (mp_values p) @ held h a"
    and len: "unat (pa_value_size ack) \<le> length (pa_value ack)"
    and m: "m = \<lparr>msg_data_size = pa_value_size ack, msg_type = submit, msg_data = pa_payload ack\<rparr>"
    and i: "i < ca_count (mp_prepare_instances p)" "a = clist (mp_prepare_instances p) ! i"
  shows "\<exists>h1. take_value ack a (h, p\<lparr>mp_values := vs\<rparr>) = Ok (h1, p\<lparr>mp_values := vs\<rparr>) \<and>
    mem_ok h1 (p\<lparr>mp_values := vs\<rparr>) \<and>
    lists_at h1 (p\<lparr>mp_values := vs\<rparr>) = (lists_at h p)\<lparr>lp_values := lp_values (lists_at h p) @ map (value_at h) (held h a),
      lp_preps := (lp_preps (lists_at h p))[i := (inst_at h a)\<lparr>pi_value_ballot := pa_value_ballot ack, pi_value := Some m\<rparr>]\<rparr>"
proof -
  note D = mem_okD [OF ok] and B = brk_fresh [OF mem_okD(5) [OF ok]]
  let ?b = "hp_brk h" and ?p = "p\<lparr>mp_values := vs\<rparr>"
  let ?x = "x\<lparr>mi_value_ballot := pa_value_ballot ack, mi_value := Some ?b\<rparr>"
  let ?h = "h\<lparr>hp_values := (hp_values h)(?b \<mapsto> m), hp_brk := Suc ?b\<rparr>"
  let ?h1 = "?h\<lparr>hp_instances := (hp_instances ?h)(a \<mapsto> ?x)\<rparr>"
  have call: "take_value ack a (h, ?p) = Ok (?h1, ?p)"
    using len a(2) m by (simp add: take_value_def wrap_value_m_def wrap_value_q malloc_value_def load_instance_def
        store_instance_def pa_payload_def)
  have own: "heap_owns ?h (?b # clist (mp_values p)) (owned p)" by (rule heap_owns_new_value [OF D(4)]) (use B in simp)
  have held: "held ?h a = held h a" by (simp add: held_def value_of_def)
  have "heap_owns ?h1 (clist vs) (owned p)"
    by (rule heap_owns_store [OF own a(1) refl]) (simp add: held vs(2))
  moreover have "below_brk ?h1"
    using below_brk_grow(1) [OF D(5), of m] a(2) by (auto simp: below_brk_def)
  ultimately have "mem_ok ?h1 ?p" using D vs(1) by (simp add: mem_ok_def queues_ok_def owned_def)
  moreover have "lists_at ?h1 ?p = (lists_at h p)\<lparr>lp_values := lp_values (lists_at h p) @ map (value_at h) (held h a),
      lp_preps := (lp_preps (lists_at h p))[i := (inst_at h a)\<lparr>pi_value_ballot := pa_value_ballot ack, pi_value := Some m\<rparr>]\<rparr>"
  proof -
    let ?P = "clist (mp_prepare_instances p)" and ?A = "clist (mp_accept_instances p)"
    have "a \<in> set ?P" using i by simp
    then have "a \<notin> set ?A" using D(6) by auto
    have old: "inst_at ?h c = inst_at h c" if "c \<in> set (owned p)" for c
      by (rule inst_at_new_value [OF D(4) that]) (use B in simp)
    have new: "inst_of ?h ?x = (inst_at h a)\<lparr>pi_value_ballot := pa_value_ballot ack, pi_value := Some m\<rparr>"
      using a(2) by (simp add: inst_at_def inst_of_def) (simp add: value_at_def)
    have at: "inst_at ?h1 = (inst_at ?h)(a := inst_of ?h ?x)" by (rule inst_at_store) simp
    have "map (inst_at ?h1) ?P = (map (inst_at h) ?P)[i := inst_of ?h ?x]"
      using map_upd_nth [of ?P i "inst_at ?h" "inst_of ?h ?x"] D(6) i old unfolding at
      by (simp add: owned_def del: fun_upd_apply cong: map_cong)
    moreover have "map (inst_at ?h1) ?A = map (inst_at h) ?A"
      using \<open>a \<notin> set ?A\<close> old unfolding at by (simp add: owned_def del: fun_upd_apply)
    moreover have "map (value_at ?h1) (clist vs) = map (value_at h) (clist (mp_values p)) @ map (value_at h) (held h a)"
    proof -
      have "set (held h a) \<subseteq> dom (hp_values h)" using heap_ownsD(5) [OF D(4) a(1)] a(2) by (auto simp: held_def value_of_def)
      moreover have "set (clist (mp_values p)) \<subseteq> dom (hp_values h)" using heap_ownsD(4) [OF D(4)] by blast
      ultimately have "v \<noteq> ?b" if "v \<in> set (clist (mp_values p)) \<union> set (held h a)" for v using that B by blast
      then show ?thesis by (auto simp: vs(2) value_at_def)
    qed
    ultimately show ?thesis by (simp add: lists_at_def new)
  qed
  ultimately show ?thesis using call by blast
qed

text \<open>The preempted instance is written in place.\<close>

lemma prepare_preempt_m_ok:
  assumes ok: "mem_ok h p" and a: "a \<in> set (owned p)" "hp_instances h a = Some x" and q: "quorum_inv n (mi_quorum x)"
    and id: "mp_id p1 = mp_id p"
  shows "\<exists>y. prepare_preempt_m p1 now a h = Ok (prepare_of (preempted (mp_id p) now (inst_at h a)),
      h\<lparr>hp_instances := (hp_instances h)(a \<mapsto> y)\<rparr>) \<and>
    opt_list (mi_value y) = held h a \<and> inst_of h y = preempted (mp_id p) now (inst_at h a)"
proof -
  have nb: "proposer_next_ballot_m p1 b = next_ballot (mp_id p) b" for b
    by (simp add: proposer_next_ballot_m_def next_ballot_def MAX_N_OF_PROPOSERS_def id)
  let ?y = "x\<lparr>mi_ballot := next_ballot (mp_id p) (mi_ballot x), mi_quorum := q_clear (mi_quorum x), mi_created_at := now\<rparr>"
  have inst: "inst_of h ?y = preempted (mp_id p) now (inst_at h a)"
    using a(2) by (simp add: inst_at_def inst_of_def preempted_def)
  have "prepare_preempt_m p1 now a h = Ok (prepare_of (preempted (mp_id p) now (inst_at h a)),
      h\<lparr>hp_instances := (hp_instances h)(a \<mapsto> ?y)\<rparr>)"
    using a(2) q by (simp add: prepare_preempt_m_def load_instance_def store_instance_def nb quorum_clear_q
        prepare_of_def preempted_def inst_at_def Let_def)
  with inst a(2) show ?thesis by (intro exI [of _ ?y]) (simp add: held_def value_of_def)
qed

lemma lp_quorum:
  assumes "lp_inv n (lists_at h p)" "a \<in> set (owned p)"
  shows "quorum_inv n (pi_quorum (inst_at h a))" "\<not> pi_closed (inst_at h a)"
proof -
  have "inst_at h a \<in> set (lp_preps (lists_at h p)) \<or> inst_at h a \<in> set (lp_accs (lists_at h p))"
    using assms(2) by (auto simp: owned_def)
  with lp_invD(3,4) [OF assms(1)] have "p_instance_inv n (inst_at h a)" by blast
  then show "quorum_inv n (pi_quorum (inst_at h a))" "\<not> pi_closed (inst_at h a)" by (simp_all add: p_instance_inv_def)
qed

lemma adopt_m_ok:
  assumes ok: "mem_ok h p" and a: "a \<in> set (owned p)" "hp_instances h a = Some x"
    and len: "unat (pa_value_size ack) \<le> length (pa_value ack)"
    and i: "i < ca_count (mp_prepare_instances p)" "a = clist (mp_prepare_instances p) ! i"
  obtains vs h1 where "mi_value x = None \<Longrightarrow> vs = mp_values p"
    "\<And>old. mi_value x = Some old \<Longrightarrow> carray_push_back (mp_values p) old = Ok vs"
    "take_value ack a (h, p\<lparr>mp_values := vs\<rparr>) = Ok (h1, p\<lparr>mp_values := vs\<rparr>)"
    "mem_ok h1 (p\<lparr>mp_values := vs\<rparr>)"
    "lists_at h1 (p\<lparr>mp_values := vs\<rparr>) = (lists_at h p)\<lparr>lp_values := lp_values (lists_at h p) @ map (value_at h) (held h a),
      lp_preps := (lp_preps (lists_at h p))[i := (inst_at h a)\<lparr>pi_value_ballot := pa_value_ballot ack, pi_value :=
        Some \<lparr>msg_data_size = pa_value_size ack, msg_type = submit, msg_data = pa_payload ack\<rparr>\<rparr>]\<rparr>"
proof -
  have held: "held h a = opt_list (mi_value x)" using a(2) by (simp add: held_def value_of_def)
  have "\<exists>vs. carray_inv vs \<and> clist vs = clist (mp_values p) @ held h a \<and>
    (mi_value x = None \<longrightarrow> vs = mp_values p) \<and> (\<forall>old. mi_value x = Some old \<longrightarrow> carray_push_back (mp_values p) old = Ok vs)"
    using cq.push_back [OF mem_okD(1) [OF ok]] mem_okD(1) [OF ok] unfolding held by (cases "mi_value x") auto
  then obtain vs where vs: "carray_inv vs" "clist vs = clist (mp_values p) @ held h a"
    "mi_value x = None \<longrightarrow> vs = mp_values p" "\<forall>old. mi_value x = Some old \<longrightarrow> carray_push_back (mp_values p) old = Ok vs"
    by (elim exE conjE)
  show thesis
    by (rule exE [OF take_value_ok [OF ok a vs(1,2) len refl i]], elim conjE, rule that [of vs]) (use vs(3,4) in simp_all)
qed

lemma proposer_receive_prepare_ack_m_ok:
  assumes ok: "mem_ok h p" and inv: "lp_inv n (lists_at h p)" and aid: "0 \<le> pa_acceptor_id ack" "pa_acceptor_id ack < int n"
    and len: "unat (pa_value_size ack) \<le> length (pa_value ack)"
  shows "heap_implements (proposer_receive_prepare_ack_m now ack (h, p)) (lp_receive_prepare_ack now (lists_at h p) ack)"
proof -
  note D = mem_okD [OF ok]
  let ?P = "mp_prepare_instances p"
  note find = instance_find_m_ok [OF D(2,7), of "pa_iid ack"]
  note red = proposer_receive_prepare_ack_m_def lp_receive_prepare_ack_def find
  show ?thesis
  proof (cases "iid_index (pa_iid ack) (map (inst_at h) (clist ?P))")
    case None
    then show ?thesis using ok by (simp add: red)
  next
    case (Some i)
    define a where "a = clist ?P ! i"
    have i: "i < ca_count ?P" using iid_index_Some(1) [OF Some] by simp
    have at: "map (inst_at h) (clist ?P) ! i = inst_at h a" using i by (simp add: a_def)
    have "a \<in> set (clist ?P)" using i by (simp add: a_def)
    then have a: "a \<in> set (owned p)" by (simp add: owned_def)
    from owned_instance [OF ok a] obtain x where
      x: "hp_instances h a = Some x" "load_instance h a = Ok x" "inst_at h a = inst_of h x" "held h a = opt_list (mi_value x)"
      and store: "\<And>y. store_instance a y h = Ok (h\<lparr>hp_instances := (hp_instances h)(a \<mapsto> y)\<rparr>)" by blast
    have q: "quorum_inv n (mi_quorum x)" using lp_quorum(1) [OF inv a] x(3) by simp
    note red = red Some a_def [symmetric] at x(2,3)
    consider "pa_ballot ack < mi_ballot x" | "pa_ballot ack = mi_ballot x" | "pa_ballot ack > mi_ballot x"
      by (rule linorder_cases)
    then show ?thesis
    proof cases
      case 1
      then show ?thesis using ok by (simp add: red Let_def)
    next
      case 3
      then have "\<not> pa_ballot ack < mi_ballot x" "pa_ballot ack \<noteq> mi_ballot x" by auto
      moreover from prepare_preempt_m_ok [OF ok a x(1) q refl, of now] obtain y where
        "prepare_preempt_m p now a h = Ok (prepare_of (preempted (mp_id p) now (inst_at h a)),
          h\<lparr>hp_instances := (hp_instances h)(a \<mapsto> y)\<rparr>)" "opt_list (mi_value y) = held h a"
        "inst_of h y = preempted (mp_id p) now (inst_at h a)" by blast
      ultimately show ?thesis
        using mem_ok_store [OF ok a refl, of y] lists_at_store(1) [OF ok refl i a_def, of y]
        by (simp add: red Let_def)
    next
      case 2
      let ?q = "q_flag (mi_quorum x) (nat (pa_acceptor_id ack))"
      let ?x = "x\<lparr>mi_quorum := ?q\<rparr>"
      let ?h = "h\<lparr>hp_instances := (hp_instances h)(a \<mapsto> ?x)\<rparr>"
      have ok1: "mem_ok ?h p" by (rule mem_ok_store [OF ok a refl]) (simp add: x(4))
      have l1: "lists_at ?h p = (lists_at h p)\<lparr>lp_preps := (lp_preps (lists_at h p))[i := inst_of h ?x]\<rparr>"
        by (rule lists_at_store(1) [OF ok refl i a_def])
      have at1: "inst_at ?h a = inst_of h ?x" "held ?h a = held h a" using x(4) by (simp_all add: inst_at_def inst_of_def held_def value_of_def)
      show ?thesis
      proof (cases "q_flagged (mi_quorum x) (nat (pa_acceptor_id ack)) \<or> \<not> adopts (inst_of h x) ack")
        case True
        have "promised (inst_of h x) ack = inst_of h ?x" if "\<not> adopts (inst_of h x) ack"
          using that by (simp add: promised_def inst_of_def Let_def)
        then show ?thesis using True 2 ok ok1 l1
          by (auto simp: red Let_def quorum_add_q [OF q aid] store adopts_def split: option.splits)
      next
        case False
        let ?m = "\<lparr>msg_data_size = pa_value_size ack, msg_type = submit, msg_data = pa_payload ack\<rparr>"
        have "hp_instances ?h a = Some ?x" by simp
        from adopt_m_ok [OF ok1 a this len i a_def] obtain vs h1 where
          vs: "mi_value x = None \<Longrightarrow> vs = mp_values p"
            "\<And>old. mi_value x = Some old \<Longrightarrow> carray_push_back (mp_values p) old = Ok vs" and
          h1: "take_value ack a (?h, p\<lparr>mp_values := vs\<rparr>) = Ok (h1, p\<lparr>mp_values := vs\<rparr>)" "mem_ok h1 (p\<lparr>mp_values := vs\<rparr>)"
          "lists_at h1 (p\<lparr>mp_values := vs\<rparr>) = (lists_at ?h p)\<lparr>lp_values := lp_values (lists_at ?h p) @ map (value_at ?h) (held ?h a),
            lp_preps := (lp_preps (lists_at ?h p))[i := (inst_at ?h a)\<lparr>pi_value_ballot := pa_value_ballot ack, pi_value := Some ?m\<rparr>]\<rparr>"
          by auto
        have same: "p\<lparr>mp_values := vs\<rparr> = p" if "mi_value x = None" using vs(1) that by simp
        have prom: "promised (inst_of h x) ack = (inst_at ?h a)\<lparr>pi_value_ballot := pa_value_ballot ack, pi_value := Some ?m\<rparr>"
          using False by (simp add: promised_def at1 inst_of_def Let_def)
        have call: "proposer_receive_prepare_ack_m now ack (h, p) = Ok (None, h1, p\<lparr>mp_values := vs\<rparr>)"
        proof (cases "mi_value x")
          case None
          with False have "0 < pa_value_size ack" by (simp add: adopts_def)
          with None 2 False h1(1) same show ?thesis by (simp add: red Let_def quorum_add_q [OF q aid] store)
        next
          case (Some old)
          with False have "0 < pa_value_size ack" "mi_value_ballot x < pa_value_ballot ack" by (simp_all add: adopts_def)
          with Some 2 False h1(1) vs(2) show ?thesis by (simp add: red Let_def quorum_add_q [OF q aid] store)
        qed
        have "lists_at h1 (p\<lparr>mp_values := vs\<rparr>) = snd (lp_receive_prepare_ack now (lists_at h p) ack)"
          using False 2 unfolding h1(3) l1 prom [symmetric] at1(2) x(4)
          by (cases "mi_value x") (simp_all add: red Let_def)
        moreover have "fst (lp_receive_prepare_ack now (lists_at h p) ack) = None" using False 2 by (simp add: red Let_def)
        ultimately show ?thesis using call h1(2) by (simp add: heap_implements_def)
      qed
    qed
  qed
qed

text \<open>Phase 2.\<close>

lemma accept_scan_m_ok:
  assumes ok: "mem_ok h p" and inv: "lp_inv n (lists_at h p)"
  shows "accept_scan_m h (mp_prepare_instances p) =
    Ok (case clist (mp_prepare_instances p) of [] \<Rightarrow> None
        | a # _ \<Rightarrow> if quorum_reached (pi_quorum (inst_at h a)) then Some a else None, h, mp_prepare_instances p)"
proof (cases "clist (mp_prepare_instances p)")
  case Nil
  then show ?thesis by (subst accept_scan_m.simps) (simp add: carray_front_ok [OF mem_okD(2) [OF ok]])
next
  case (Cons a rest)
  then have a: "a \<in> set (owned p)" by (simp add: owned_def)
  from owned_instance [OF ok a] obtain x where x: "load_instance h a = Ok x" "inst_at h a = inst_of h x" by blast
  with lp_quorum(2) [OF inv a] Cons show ?thesis
    by (subst accept_scan_m.simps) (simp add: carray_front_ok [OF mem_okD(2) [OF ok]])
qed

lemma mem_ok_take_front:
  assumes ok: "mem_ok h p" and a: "a \<in> set (owned p)" "hp_instances h a = Some x" "mi_value x = None"
    and vs: "carray_inv vs" "clist (mp_values p) = v # clist vs"
    and h1: "h1 = h\<lparr>hp_instances := (hp_instances h)(a \<mapsto> x\<lparr>mi_value := Some v\<rparr>)\<rparr>"
  shows "mem_ok h1 (p\<lparr>mp_values := vs\<rparr>)"
proof -
  note D = mem_okD [OF ok]
  have "heap_owns h1 (clist vs) (owned p)"
    by (rule heap_owns_store [OF D(4) a(1) h1]) (simp add: vs(2) held_def value_of_def a(2,3))
  moreover have "below_brk h1" using D(5) a(2) by (auto simp: below_brk_def h1)
  ultimately show ?thesis using D vs(1) by (simp add: mem_ok_def queues_ok_def owned_def)
qed

lemma lists_at_values:
  "lists_at h (p\<lparr>mp_values := vs\<rparr>) = (lists_at h p)\<lparr>lp_values := map (value_at h) (clist vs)\<rparr>"
  by (simp add: lists_at_def)

lemma give_value_ok:
  assumes ok: "mem_ok h p" and P: "clist (mp_prepare_instances p) = a # rest"
  shows "\<exists>v h1 p1. give_value a (h, p) = Ok (v, h1, p1) \<and> mem_ok h1 p1 \<and>
    clist (mp_prepare_instances p1) = a # rest \<and>
    (case (pi_value (inst_at h a), lp_values (lists_at h p)) of
       (None, []) \<Rightarrow> v = None \<and> lists_at h1 p1 = lists_at h p
     | (None, m # ms) \<Rightarrow> v \<noteq> None \<and> lists_at h1 p1 = (lists_at h p)\<lparr>lp_preps :=
         (inst_at h a)\<lparr>pi_value := Some m\<rparr> # tl (lp_preps (lists_at h p)), lp_values := ms\<rparr>
     | (Some m, ms) \<Rightarrow> v \<noteq> None \<and> lists_at h1 p1 = lists_at h p)"
proof -
  note D = mem_okD [OF ok]
  have a: "a \<in> set (owned p)" using P by (simp add: owned_def)
  from owned_instance [OF ok a] obtain x where
    x: "hp_instances h a = Some x" "load_instance h a = Ok x" "inst_at h a = inst_of h x"
    and store: "\<And>y. store_instance a y h = Ok (h\<lparr>hp_instances := (hp_instances h)(a \<mapsto> y)\<rparr>)" by blast
  note red = give_value_def x(2,3) store
  from cq.pop_front [OF D(1)] obtain vs where
    pop: "carray_pop_front (mp_values p) = Ok (case clist (mp_values p) of [] \<Rightarrow> None | v # _ \<Rightarrow> Some v, vs)"
      "carray_inv vs" "clist vs = tl (clist (mp_values p))" by blast
  show ?thesis
  proof (cases "mi_value x")
    case (Some v)
    then show ?thesis using ok P by (simp add: red)
  next
    case None
    then have idem: "x\<lparr>mi_value := None\<rparr> = x" by simp
    show ?thesis
    proof (cases "clist (mp_values p)")
      case Nil
      with pop(3) have "clist vs = []" by simp
      then have "mem_ok h (p\<lparr>mp_values := vs\<rparr>)" using ok Nil pop(2) by (simp add: mem_ok_def queues_ok_def owned_def)
      moreover have "lists_at h (p\<lparr>mp_values := vs\<rparr>) = lists_at h p" using Nil \<open>clist vs = []\<close> by (simp add: lists_at_def)
      ultimately show ?thesis using None Nil pop(1) P x(1) by (simp add: red idem fun_upd_idem)
    next
      case (Cons v us)
      let ?h = "h\<lparr>hp_instances := (hp_instances h)(a \<mapsto> x\<lparr>mi_value := Some v\<rparr>)\<rparr>"
      have i: "0 < ca_count (mp_prepare_instances p)" "a = clist (mp_prepare_instances p) ! 0"
        using P length_clist [of "mp_prepare_instances p"] by simp_all
      have "lists_at ?h (p\<lparr>mp_values := vs\<rparr>) = (lists_at h p)\<lparr>lp_preps := (inst_at h a)\<lparr>pi_value := Some (value_at h v)\<rparr> #
          tl (lp_preps (lists_at h p)), lp_values := map (value_at h) us\<rparr>"
        using lists_at_store(1) [OF ok refl i, of "x\<lparr>mi_value := Some v\<rparr>"] pop(3) Cons P x(3)
        unfolding lists_at_values by (simp add: inst_of_def)
      moreover have "mem_ok ?h (p\<lparr>mp_values := vs\<rparr>)"
        by (rule mem_ok_take_front [OF ok a x(1) None pop(2) _ refl]) (simp add: Cons pop(3))
      ultimately show ?thesis using None Cons pop(1) P by (simp add: red)
    qed
  qed
qed

lemma start_accept_ok:
  assumes ok: "mem_ok h p" and inv: "quorum_inv n (pi_quorum (inst_at h a))"
    and P: "clist (mp_prepare_instances p) = a # rest" and v: "pi_value (inst_at h a) = Some m" "msg_ok m"
  shows "heap_implements (start_accept (h, p)) (Some (accept_of (inst_at h a) m),
    (lists_at h p)\<lparr>lp_preps := map (inst_at h) rest,
      lp_accs := lp_accs (lists_at h p) @ [(inst_at h a)\<lparr>pi_quorum := q_clear (pi_quorum (inst_at h a))\<rparr>]\<rparr>)"
proof -
  note D = mem_okD [OF ok]
  have a: "a \<in> set (owned p)" using P by (simp add: owned_def)
  from owned_instance [OF ok a] obtain x where
    x: "hp_instances h a = Some x" "load_instance h a = Ok x" "inst_at h a = inst_of h x" "held h a = opt_list (mi_value x)"
    and store: "\<And>y. store_instance a y h = Ok (h\<lparr>hp_instances := (hp_instances h)(a \<mapsto> y)\<rparr>)" by blast
  let ?x = "x\<lparr>mi_quorum := q_clear (mi_quorum x)\<rparr>"
  let ?h = "h\<lparr>hp_instances := (hp_instances h)(a \<mapsto> ?x)\<rparr>"
  have ok1: "mem_ok ?h p" by (rule mem_ok_store [OF ok a refl]) (simp add: x(4))
  from cq.pop_front [OF D(2)] P obtain prep where
    prep: "carray_pop_front (mp_prepare_instances p) = Ok (Some a, prep)" "carray_inv prep" "clist prep = rest" by auto
  from cq.push_back [OF D(3), of a] obtain acc where
    acc: "carray_push_back (mp_accept_instances p) a = Ok acc" "carray_inv acc" "clist acc = clist (mp_accept_instances p) @ [a]" by blast
  let ?p = "p\<lparr>mp_prepare_instances := prep, mp_accept_instances := acc\<rparr>"
  from v(1) x(3) obtain w where w: "mi_value x = Some w" "m = value_at h w" by auto
  have "w \<in> dom (hp_values h)" using heap_ownsD(5) [OF D(4) a] x(1) w(1) by auto
  then have lv: "load_value ?h w = Ok m" using w(2) by (auto simp: load_value_def value_at_def)
  have "start_accept (h, p) = Ok (Some (accept_of (inst_at h a) m), ?h, ?p)"
    using prep(1) acc(1) inv x(2,3) w lv v(2)
    by (simp add: start_accept_def store quorum_clear_q accept_req_of_m_def load_instance_def accept_of_def msg_ok_def)
  moreover have "mem_ok ?h ?p"
  proof -
    have "heap_owns ?h (clist (mp_values p)) (owned ?p)"
      using mem_okD(4) [OF ok1]
      by (subst heap_owns_perm [of _ "clist (mp_values p)" _ "owned p"]) (simp_all add: owned_def P prep(3) acc(3))
    then show ?thesis using mem_okD(5) [OF ok1] D(1) prep(2) acc(2) by (simp add: mem_ok_def queues_ok_def)
  qed
  moreover have "lists_at ?h ?p = (lists_at h p)\<lparr>lp_preps := map (inst_at h) rest,
      lp_accs := lp_accs (lists_at h p) @ [(inst_at h a)\<lparr>pi_quorum := q_clear (pi_quorum (inst_at h a))\<rparr>]\<rparr>"
  proof -
    have "a \<notin> set rest" "a \<notin> set (clist (mp_accept_instances p))" using D(6) P by auto
    moreover have "inst_of h ?x = (inst_at h a)\<lparr>pi_quorum := q_clear (pi_quorum (inst_at h a))\<rparr>" by (simp add: x(3) inst_of_def)
    ultimately show ?thesis
      by (simp add: lists_at_def prep(3) acc(3) inst_at_store [OF refl] del: fun_upd_apply) simp
  qed
  ultimately show ?thesis by (simp add: heap_implements_def)
qed

lemma lp_value_ok:
  assumes "lp_inv n (lists_at h p)" "a \<in> set (owned p)" "pi_value (inst_at h a) = Some m"
  shows "msg_ok m"
proof -
  have "inst_at h a \<in> set (lp_preps (lists_at h p)) \<or> inst_at h a \<in> set (lp_accs (lists_at h p))"
    using assms(2) by (auto simp: owned_def)
  with lp_invD(3,4) [OF assms(1)] have "p_instance_inv n (inst_at h a)" by blast
  then show ?thesis using assms(3) by (simp add: p_instance_inv_def)
qed

lemma lp_upd_comm: "l\<lparr>lp_values := ms, lp_preps := ps\<rparr> = l\<lparr>lp_preps := ps, lp_values := ms\<rparr>"
  by simp

lemma proposer_accept_m_ok:
  assumes ok: "mem_ok h p" and inv: "lp_inv n (lists_at h p)"
  shows "heap_implements (proposer_accept_m (h, p)) (lp_accept (lists_at h p))"
proof (cases "clist (mp_prepare_instances p)")
  case Nil
  then show ?thesis using ok by (simp add: proposer_accept_m_def accept_scan_m_ok [OF ok inv] lp_accept_def Let_def)
next
  case (Cons a rest)
  let ?inst = "inst_at h a"
  have a: "a \<in> set (owned p)" using Cons by (simp add: owned_def)
  note scan = accept_scan_m_ok [OF ok inv]
  show ?thesis
  proof (cases "quorum_reached (pi_quorum ?inst)")
    case False
    then show ?thesis using ok Cons by (simp add: proposer_accept_m_def scan lp_accept_def Let_def)
  next
    case True
    from give_value_ok [OF ok Cons] obtain v h1 p1 where
      g: "give_value a (h, p) = Ok (v, h1, p1)" "mem_ok h1 p1" "clist (mp_prepare_instances p1) = a # rest" and
      l: "case (pi_value ?inst, lp_values (lists_at h p)) of
         (None, []) \<Rightarrow> v = None \<and> lists_at h1 p1 = lists_at h p
       | (None, m # ms) \<Rightarrow> v \<noteq> None \<and> lists_at h1 p1 = (lists_at h p)\<lparr>lp_preps :=
           ?inst\<lparr>pi_value := Some m\<rparr> # tl (lp_preps (lists_at h p)), lp_values := ms\<rparr>
       | (Some m, ms) \<Rightarrow> v \<noteq> None \<and> lists_at h1 p1 = lists_at h p" by blast
    have call: "proposer_accept_m (h, p) = (if v = None then Ok (None, h1, p1) else start_accept (h1, p1))"
      using Cons True g(1) by (simp add: proposer_accept_m_def scan Let_def)
    have start: "heap_implements (start_accept (h1, p1)) (Some (accept_of (?inst\<lparr>pi_value := Some m\<rparr>) m),
        L\<lparr>lp_preps := map (inst_at h) rest, lp_accs := lp_accs (lists_at h p) @
          [?inst\<lparr>pi_value := Some m, pi_quorum := q_clear (pi_quorum ?inst)\<rparr>]\<rparr>)"
      if L: "lists_at h1 p1 = L" "lp_preps L = ?inst\<lparr>pi_value := Some m\<rparr> # map (inst_at h) rest"
        "lp_accs L = lp_accs (lists_at h p)" and m: "msg_ok m" for L m
    proof -
      have "map (inst_at h1) (a # rest) = ?inst\<lparr>pi_value := Some m\<rparr> # map (inst_at h) rest"
        using L(2) g(3) unfolding L(1) [symmetric] by simp
      then have i: "inst_at h1 a = ?inst\<lparr>pi_value := Some m\<rparr>" "map (inst_at h1) rest = map (inst_at h) rest" by simp_all
      have "quorum_inv n (pi_quorum (inst_at h1 a))" using lp_quorum(1) [OF inv a] by (simp add: i)
      from start_accept_ok [OF g(2) this g(3) _ m] show ?thesis
        unfolding L(1) L(3) i by simp
    qed
    show ?thesis
    proof (cases "pi_value ?inst")
      case (Some m)
      have same: "?inst\<lparr>pi_value := Some m\<rparr> = ?inst" using Some by simp
      with l Some start [of "lists_at h p" m] lp_value_ok [OF inv a Some] Cons True show ?thesis
        unfolding call by (simp add: lp_accept_def same)
    next
      case None
      show ?thesis
      proof (cases "lp_values (lists_at h p)")
        case Nil
        with l None g(2) Cons True show ?thesis unfolding call by (simp add: lp_accept_def)
      next
        case vs: (Cons m ms)
        have "msg_ok m" using lp_invD(7) [OF inv, of m] vs by (simp del: lists_at_sel)
        with l None vs start [of "(lists_at h p)\<lparr>lp_preps := ?inst\<lparr>pi_value := Some m\<rparr> #
            tl (lp_preps (lists_at h p)), lp_values := ms\<rparr>" m] Cons True show ?thesis
          unfolding call by (simp add: lp_accept_def accept_of_def lp_upd_comm)
      qed
    qed
  qed
qed

text \<open>Acknowledgements: an instance that is finished is freed.\<close>

lemma filter_iid:
  assumes inv: "lp_inv n (lists_at h p)" and a: "a \<in> set (clist (mp_accept_instances p))"
  shows "filter (\<lambda>b. pi_iid (inst_at h b) \<noteq> pi_iid (inst_at h a)) (clist (mp_accept_instances p)) =
    remove1 a (clist (mp_accept_instances p))"
proof -
  let ?A = "clist (mp_accept_instances p)"
  have d: "distinct (map (\<lambda>b. pi_iid (inst_at h b)) ?A)" using lp_invD(8) [OF inv] by (simp add: comp_def)
  then have "inj_on (\<lambda>b. pi_iid (inst_at h b)) (set ?A)" "distinct ?A" by (simp_all add: distinct_map)
  then have "filter (\<lambda>b. pi_iid (inst_at h b) \<noteq> pi_iid (inst_at h a)) ?A = filter (\<lambda>b. a \<noteq> b) ?A"
    using a by (intro filter_cong) (auto dest: inj_onD)
  then show ?thesis using distinct_remove1_removeAll [OF \<open>distinct ?A\<close>, of a] by (simp add: removeAll_filter_not_eq)
qed

lemma instance_remove_m_accs:
  assumes ok: "mem_ok h p" and inv: "lp_inv n (lists_at h p)" and a: "a \<in> set (clist (mp_accept_instances p))"
  shows "\<exists>acc. instance_remove_m h (mp_accept_instances p) a = Ok acc \<and> carray_inv acc \<and>
    clist acc = remove1 a (clist (mp_accept_instances p)) \<and>
    map (inst_at h) (clist acc) = without_iid (pi_iid (inst_at h a)) (lp_accs (lists_at h p))"
proof -
  note D = mem_okD [OF ok]
  from a have o: "a \<in> set (owned p)" by (simp add: owned_def)
  from owned_instance [OF ok o] obtain x where x: "hp_instances h a = Some x" "inst_at h a = inst_of h x" by blast
  from instance_remove_m_ok [OF D(3,8) x(1)] filter_iid [OF inv a] x(2) obtain acc where
    acc: "instance_remove_m h (mp_accept_instances p) a = Ok acc" "carray_inv acc"
      "clist acc = filter (\<lambda>b. pi_iid (inst_at h b) \<noteq> pi_iid (inst_at h a)) (clist (mp_accept_instances p))"
      "clist acc = remove1 a (clist (mp_accept_instances p))" by auto
  moreover have "map (inst_at h) (clist acc) = without_iid (pi_iid (inst_at h a)) (lp_accs (lists_at h p))"
    unfolding acc(3) by (simp add: without_iid_def filter_map comp_def)
  ultimately show ?thesis by blast
qed

lemma free_finished:
  assumes ok: "mem_ok h p" and inv: "lp_inv n (lists_at h p)" and a: "a \<in> set (clist (mp_accept_instances p))"
    and acc: "carray_inv acc" "clist acc = remove1 a (clist (mp_accept_instances p))"
      "map (inst_at h) (clist acc) = without_iid (pi_iid (inst_at h a)) (lp_accs (lists_at h p))"
  shows "\<exists>h1. instance_free a h = Ok h1 \<and> mem_ok h1 (p\<lparr>mp_accept_instances := acc\<rparr>) \<and>
    lists_at h1 (p\<lparr>mp_accept_instances := acc\<rparr>) =
      (lists_at h p)\<lparr>lp_accs := without_iid (pi_iid (inst_at h a)) (lp_accs (lists_at h p))\<rparr>"
proof -
  note D = mem_okD [OF ok]
  let ?p = "p\<lparr>mp_accept_instances := acc\<rparr>"
  have "mset (a # owned ?p) = mset (owned p)" using a by (simp add: owned_def acc(2))
  then have own: "heap_owns h (clist (mp_values p)) (a # owned ?p)"
    using D(4) heap_owns_perm [of "clist (mp_values p)" "clist (mp_values p)"] by blast
  from heap_owns_free_instance [OF own] obtain h1 where h1: "instance_free a h = Ok h1"
    "heap_owns h1 (clist (mp_values p)) (owned ?p)" "hp_brk h1 = hp_brk h" "hp_instances h1 = (hp_instances h)(a := None)"
    "hp_values h1 = hp_values h |` (- set (held h a))" by blast
  have "below_brk h1" using D(5) h1(3-5) by (auto simp: below_brk_def restrict_map_def split: if_splits)
  then have ok1: "mem_ok h1 ?p" using D(1,2) h1(2) acc(1) by (simp add: mem_ok_def queues_ok_def owned_def)
  have sep: "distinct (clist (mp_values p) @ held h a @ concat (map (held h) (owned ?p)))" "a \<notin> set (owned ?p)"
    using own by (auto simp: heap_owns_def owns2_def owns_def held_def value_of_def)
  have "inst_at h1 b = inst_at h b" if "b \<in> set (owned ?p)" for b
  proof (rule inst_at_same [OF own])
    show "hp_values h1 v = hp_values h v" if "v \<in> set (held h b)" for v
      using sep(1) that \<open>b \<in> set (owned ?p)\<close> by (auto simp: h1(5) restrict_map_def)
  qed (use that sep(2) h1(4) in auto)
  moreover have "value_at h1 v = value_at h v" if "v \<in> set (clist (mp_values p))" for v
    using sep(1) that by (auto simp: value_at_def h1(5) restrict_map_def)
  ultimately have "lists_at h1 ?p = lists_at h ?p" by (simp add: lists_at_def owned_def)
  also have "\<dots> = (lists_at h p)\<lparr>lp_accs := without_iid (pi_iid (inst_at h a)) (lp_accs (lists_at h p))\<rparr>"
    using acc(3) by (simp add: lists_at_def)
  finally show ?thesis using h1(1) ok1 by blast
qed

text \<open>An instance in phase 2 that is overtaken goes back to the front of phase 1.\<close>

lemma mem_ok_move_front:
  assumes ok: "mem_ok h p" and a: "a \<in> set (clist (mp_accept_instances p))"
    and acc: "carray_inv acc" "clist acc = remove1 a (clist (mp_accept_instances p))"
    and prep: "carray_inv prep" "clist prep = a # clist (mp_prepare_instances p)"
  shows "mem_ok h (p\<lparr>mp_accept_instances := acc, mp_prepare_instances := prep\<rparr>)"
proof -
  let ?p = "p\<lparr>mp_accept_instances := acc, mp_prepare_instances := prep\<rparr>"
  have "heap_owns h (clist (mp_values p)) (owned ?p)"
    using mem_okD(4) [OF ok] a
    by (subst heap_owns_perm [of _ "clist (mp_values p)" _ "owned p"]) (simp_all add: owned_def acc(2) prep(2))
  then show ?thesis using mem_okD(1,5) [OF ok] acc(1) prep(1) by (simp add: mem_ok_def queues_ok_def)
qed

lemma preempt_front:
  assumes ok: "mem_ok h p" and inv: "lp_inv n (lists_at h p)" and a: "a \<in> set (clist (mp_accept_instances p))"
    and acc: "carray_inv acc" "clist acc = remove1 a (clist (mp_accept_instances p))"
    and prep: "carray_inv prep" "clist prep = a # clist (mp_prepare_instances p)"
    and p1: "p1 = p\<lparr>mp_accept_instances := acc, mp_prepare_instances := prep\<rparr>"
    and inst: "inst = preempted (mp_id p) now (inst_at h a)"
  shows "\<exists>h1. prepare_preempt_m p1 now a h = Ok (prepare_of inst, h1) \<and> mem_ok h1 p1 \<and>
    lists_at h1 p1 = (lists_at h p)\<lparr>lp_accs := map (inst_at h) (clist acc),
      lp_preps := inst # lp_preps (lists_at h p)\<rparr>"
proof -
  have o: "a \<in> set (owned p)" using a by (simp add: owned_def)
  from owned_instance [OF ok o] obtain x where x: "hp_instances h a = Some x" "inst_at h a = inst_of h x" by blast
  have q: "quorum_inv n (mi_quorum x)" using lp_quorum(1) [OF inv o] x(2) by simp
  have ok1: "mem_ok h p1" unfolding p1 by (rule mem_ok_move_front [OF ok a acc prep])
  have o1: "a \<in> set (owned p1)" by (simp add: owned_def p1 prep(2))
  have id: "mp_id p1 = mp_id p" by (simp add: p1)
  from prepare_preempt_m_ok [OF ok o x(1) q id, of now] obtain y where
    y: "prepare_preempt_m p1 now a h = Ok (prepare_of inst, h\<lparr>hp_instances := (hp_instances h)(a \<mapsto> y)\<rparr>)"
      "opt_list (mi_value y) = held h a" "inst_of h y = inst" unfolding inst by blast
  have i: "0 < ca_count (mp_prepare_instances p1)" "a = clist (mp_prepare_instances p1) ! 0"
    using prep(2) length_clist [of prep] by (simp_all add: p1)
  have "lists_at (h\<lparr>hp_instances := (hp_instances h)(a \<mapsto> y)\<rparr>) p1 =
      (lists_at h p1)\<lparr>lp_preps := (lp_preps (lists_at h p1))[0 := inst]\<rparr>"
    using lists_at_store(1) [OF ok1 refl i] y(3) by simp
  also have "\<dots> = (lists_at h p)\<lparr>lp_accs := map (inst_at h) (clist acc), lp_preps := inst # lp_preps (lists_at h p)\<rparr>"
    by (simp add: p1 prep(2) lists_at_def)
  finally show ?thesis using y(1) mem_ok_store [OF ok1 o1 refl y(2)] by blast
qed

lemma without_iid_update:
  "i < length xs \<Longrightarrow> pi_iid (xs ! i) = j \<Longrightarrow> pi_iid x = j \<Longrightarrow> without_iid j (xs[i := x]) = without_iid j xs"
  by (induction xs arbitrary: i) (auto simp: without_iid_def split: nat.split)

lemma finish_m_ok:
  assumes ok: "mem_ok h p" and inv: "lp_inv n (lists_at h p)"
    and i: "i < ca_count (mp_accept_instances p)" and a_def: "a = clist (mp_accept_instances p) ! i"
    and x: "hp_instances h a = Some x" and q: "quorum_inv n q"
    and h1: "h1 = h\<lparr>hp_instances := (hp_instances h)(a \<mapsto> x\<lparr>mi_quorum := q\<rparr>)\<rparr>"
  shows "\<exists>acc h2. instance_remove_m h1 (mp_accept_instances p) a = Ok acc \<and> instance_free a h1 = Ok h2 \<and>
    mem_ok h2 (p\<lparr>mp_accept_instances := acc\<rparr>) \<and> lists_at h2 (p\<lparr>mp_accept_instances := acc\<rparr>) =
      (lists_at h p)\<lparr>lp_accs := without_iid (pi_iid (inst_at h a)) (lp_accs (lists_at h p))\<rparr>"
proof -
  let ?A = "mp_accept_instances p" and ?x = "x\<lparr>mi_quorum := q\<rparr>"
  have a: "a \<in> set (clist ?A)" "a \<in> set (owned p)" using i by (simp_all add: a_def owned_def)
  have at: "inst_at h a = inst_of h x" "inst_at h1 a = inst_of h ?x" using x by (simp_all add: h1 inst_at_def inst_of_def)
  have ok1: "mem_ok h1 p" by (rule mem_ok_store [OF ok a(2) h1]) (simp add: held_def value_of_def x)
  have l1: "lists_at h1 p = (lists_at h p)\<lparr>lp_accs := (lp_accs (lists_at h p))[i := inst_of h ?x]\<rparr>"
    by (rule lists_at_store(2) [OF ok h1 i a_def])
  have nth: "lp_accs (lists_at h p) ! i = inst_of h x" using i at(1) by (simp add: a_def)
  have "inst_at h a \<in> set (lp_accs (lists_at h p))" using a by simp
  note I = lp_invD(4,5) [OF inv this]
  have inv1: "lp_inv n (lists_at h1 p)"
    unfolding l1 by (rule lp_inv_set_acc [OF inv]) (use i nth I at(1) q in \<open>simp_all add: p_instance_inv_def\<close>)
  from instance_remove_m_accs [OF ok1 inv1 a(1)] obtain acc where
    acc: "instance_remove_m h1 ?A a = Ok acc" "carray_inv acc" "clist acc = remove1 a (clist ?A)"
      "map (inst_at h1) (clist acc) = without_iid (pi_iid (inst_at h1 a)) (lp_accs (lists_at h1 p))" by blast
  have "without_iid (mi_iid x) ((lp_accs (lists_at h p))[i := inst_of h ?x]) = without_iid (mi_iid x) (lp_accs (lists_at h p))"
    by (rule without_iid_update) (use i nth in simp_all)
  with free_finished [OF ok1 inv1 a(1) acc(2-4)] acc(1) show ?thesis
    unfolding l1 at by auto
qed

lemma proposer_receive_accept_ack_m_ok:
  assumes ok: "mem_ok h p" and inv: "lp_inv n (lists_at h p)" and aid: "0 \<le> aa_acceptor_id ack" "aa_acceptor_id ack < int n"
    and con: "ack_consistent (lp_accs (lists_at h p)) ack"
  shows "heap_implements (proposer_receive_accept_ack_m now ack (h, p)) (lp_receive_accept_ack now (lists_at h p) ack)"
proof -
  note D = mem_okD [OF ok]
  let ?A = "mp_accept_instances p"
  note find = instance_find_m_ok [OF D(3,8), of "aa_iid ack"]
  note red = proposer_receive_accept_ack_m_def lp_receive_accept_ack_def find
  show ?thesis
  proof (cases "iid_index (aa_iid ack) (map (inst_at h) (clist ?A))")
    case None
    then show ?thesis using ok by (simp add: red)
  next
    case (Some i)
    define a where "a = clist ?A ! i"
    have i: "i < ca_count ?A" using iid_index_Some(1) [OF Some] by simp
    have at: "map (inst_at h) (clist ?A) ! i = inst_at h a" using i by (simp add: a_def)
    have a: "a \<in> set (clist ?A)" using i by (simp add: a_def)
    then have o: "a \<in> set (owned p)" by (simp add: owned_def)
    have iid: "pi_iid (inst_at h a) = aa_iid ack" using iid_index_Some(2) [OF Some] at by simp
    from owned_instance [OF ok o] obtain x where
      x: "hp_instances h a = Some x" "load_instance h a = Ok x" "inst_at h a = inst_of h x" "held h a = opt_list (mi_value x)"
      and store: "\<And>y. store_instance a y h = Ok (h\<lparr>hp_instances := (hp_instances h)(a \<mapsto> y)\<rparr>)" by blast
    have q: "quorum_inv n (mi_quorum x)" using lp_quorum(1) [OF inv o] x(3) by simp
    note red = red Some a_def [symmetric] at x(2,3)
    show ?thesis
    proof (cases "aa_ballot ack = mi_ballot x")
      case False
      from instance_remove_m_accs [OF ok inv a] obtain acc where
        acc: "instance_remove_m h ?A a = Ok acc" "carray_inv acc" "clist acc = remove1 a (clist ?A)"
          "map (inst_at h) (clist acc) = without_iid (aa_iid ack) (lp_accs (lists_at h p))" unfolding iid by blast
      from cq.push_front [OF D(2), of a] obtain prep where
        prep: "carray_push_front (mp_prepare_instances p) a = Ok prep" "carray_inv prep"
          "clist prep = a # clist (mp_prepare_instances p)" by blast
      from preempt_front [OF ok inv a acc(2,3) prep(2,3) refl refl, of now] False acc(1,4) prep(1) show ?thesis
        by (auto simp: red Let_def heap_implements_def)
    next
      case True
      have vb: "aa_value_ballot ack = aa_ballot ack"
        using ack_consistent_find [OF inv, of ack i] Some con True at x(3) by simp
      let ?q = "q_flag (mi_quorum x) (nat (aa_acceptor_id ack))"
      let ?x = "x\<lparr>mi_quorum := ?q\<rparr>"
      let ?h = "h\<lparr>hp_instances := (hp_instances h)(a \<mapsto> ?x)\<rparr>"
      have ok1: "mem_ok ?h p" by (rule mem_ok_store [OF ok o refl]) (simp add: x(4))
      have l1: "lists_at ?h p = (lists_at h p)\<lparr>lp_accs := (lp_accs (lists_at h p))[i := inst_of h ?x]\<rparr>"
        by (rule lists_at_store(2) [OF ok refl i a_def])
      note add = quorum_add_q [OF q aid]
      consider "q_flagged (mi_quorum x) (nat (aa_acceptor_id ack))"
        | "\<not> q_flagged (mi_quorum x) (nat (aa_acceptor_id ack))" "\<not> quorum_reached ?q"
        | "\<not> q_flagged (mi_quorum x) (nat (aa_acceptor_id ack))" "quorum_reached ?q" by blast
      then show ?thesis
      proof cases
        case 1
        then show ?thesis using True vb ok by (simp add: red add Let_def rassert_def)
      next
        case 2
        then show ?thesis using True vb ok1 l1 by (simp add: red add Let_def rassert_def store inst_of_def)
      next
        case 3
        from finish_m_ok [OF ok inv i a_def x(1), of ?q] q obtain acc h1 where
          acc: "instance_remove_m ?h ?A a = Ok acc" and
          h1: "instance_free a ?h = Ok h1" "mem_ok h1 (p\<lparr>mp_accept_instances := acc\<rparr>)"
            "lists_at h1 (p\<lparr>mp_accept_instances := acc\<rparr>) =
               (lists_at h p)\<lparr>lp_accs := without_iid (aa_iid ack) (lp_accs (lists_at h p))\<rparr>" unfolding iid by auto
        then show ?thesis using True vb 3 acc h1 by (simp add: red add Let_def rassert_def store)
      qed
    qed
  qed
qed

text \<open>Timeouts: the clock of the instance is written through the pointer.\<close>

lemma next_timedout_m_ok:
  assumes inv: "carray_inv c" and dom: "set (clist c) \<subseteq> dom (hp_instances h)"
    and clocks: "clocks_ok t (map (inst_at h) (clist c))" and i: "i \<le> ca_count c"
  shows "next_timedout_m cfg h c i t =
    Ok (map_option (nth (clist c)) (next_expired cfg t (map (inst_at h) (clist c)) i),
     case next_expired cfg t (map (inst_at h) (clist c)) i of None \<Rightarrow> ca_count c | Some k \<Rightarrow> Suc k)"
  using i
proof (induction "ca_count c - i" arbitrary: i)
  case 0
  then show ?case by (subst next_timedout_m.simps) (simp add: carray_count_def next_expired_def)
next
  case (Suc m)
  let ?xs = "map (inst_at h) (clist c)"
  from Suc have i: "i < ca_count c" by simp
  then have mem: "clist c ! i \<in> set (clist c)" by simp
  with dom obtain x where x: "hp_instances h (clist c ! i) = Some x" by blast
  then have at: "?xs ! i = inst_of h x" using i by (simp add: inst_at_def)
  have "is_ok (timeval_diff (pi_created_at (inst_at h (clist c ! i))) t)" using clocks mem by (simp add: clocks_ok_def)
  then obtain d where d: "timeval_diff (mi_created_at x) t = Ok d"
    using x by (auto simp: inst_at_def is_ok_def split: sum.splits)
  have step: "next_expired cfg t ?xs i = (if expired cfg t (inst_of h x) then Some i else next_expired cfg t ?xs (Suc i))"
    using next_expired_step [of i ?xs] i at by simp
  have "next_timedout_m cfg h c (Suc i) t = Ok (map_option (nth (clist c)) (next_expired cfg t ?xs (Suc i)),
      case next_expired cfg t ?xs (Suc i) of None \<Rightarrow> ca_count c | Some k \<Rightarrow> Suc k)" using Suc by simp
  then show ?case using x d
    by (subst next_timedout_m.simps)
      (simp add: i carray_count_def carray_item_ok [OF inv i] load_instance_def step expired_def instance_has_timedout_def)
qed

lemma timeout_iterator_prepare_m_ok:
  assumes ok: "mem_ok h p" and clocks: "clocks_ok (ti_timeout it) (lp_preps (lists_at h p))"
    and i: "ti_pi it \<le> length (lp_preps (lists_at h p))"
    and spec: "lp_timeout_prepare cfg (ti_timeout it) (ti_pi it) (lists_at h p) = (r, j, l)"
  shows "\<exists>h1 p1. timeout_iterator_prepare_m cfg it (h, p) = Ok (r, it\<lparr>ti_pi := j\<rparr>, h1, p1) \<and> mem_ok h1 p1 \<and> lists_at h1 p1 = l"
proof -
  note D = mem_okD [OF ok]
  let ?P = "mp_prepare_instances p"
  note q = next_timedout_m_ok [OF D(2,7) clocks [simplified], of "ti_pi it" cfg]
  show ?thesis
  proof (cases "next_expired cfg (ti_timeout it) (map (inst_at h) (clist ?P)) (ti_pi it)")
    case None
    then show ?thesis using ok q i spec by (simp add: timeout_iterator_prepare_m_def lp_timeout_prepare_def)
  next
    case (Some k)
    then have k: "k < ca_count ?P" using next_expired_bound [OF Some] by simp
    define a where "a = clist ?P ! k"
    have a: "a \<in> set (owned p)" using k by (simp add: a_def owned_def)
    from owned_instance [OF ok a] obtain x where
      x: "load_instance h a = Ok x" "inst_at h a = inst_of h x" "held h a = opt_list (mi_value x)"
      and store: "\<And>y. store_instance a y h = Ok (h\<lparr>hp_instances := (hp_instances h)(a \<mapsto> y)\<rparr>)" by blast
    have at: "map (inst_at h) (clist ?P) ! k = inst_of h x" using k x(2) by (simp add: a_def)
    from mem_ok_store [OF ok a refl, of "x\<lparr>mi_created_at := ti_timeout it\<rparr>"] x(3)
      lists_at_store(1) [OF ok refl k a_def, of "x\<lparr>mi_created_at := ti_timeout it\<rparr>"] Some q i spec x at show ?thesis
      by (auto simp: timeout_iterator_prepare_m_def lp_timeout_prepare_def a_def [symmetric] store prepare_of_def
          touched_def inst_of_def)
  qed
qed

lemma timeout_iterator_accept_m_ok:
  assumes ok: "mem_ok h p" and inv: "lp_inv n (lists_at h p)" and clocks: "clocks_ok (ti_timeout it) (lp_accs (lists_at h p))"
    and i: "ti_ai it \<le> length (lp_accs (lists_at h p))"
    and spec: "lp_timeout_accept cfg (ti_timeout it) (ti_ai it) (lists_at h p) = (r, j, l)"
  shows "\<exists>h1 p1. timeout_iterator_accept_m cfg it (h, p) = Ok (r, it\<lparr>ti_ai := j\<rparr>, h1, p1) \<and> mem_ok h1 p1 \<and> lists_at h1 p1 = l"
proof -
  note D = mem_okD [OF ok]
  let ?A = "mp_accept_instances p"
  note q = next_timedout_m_ok [OF D(3,8) clocks [simplified], of "ti_ai it" cfg]
  show ?thesis
  proof (cases "next_expired cfg (ti_timeout it) (map (inst_at h) (clist ?A)) (ti_ai it)")
    case None
    then show ?thesis using ok q i spec by (simp add: timeout_iterator_accept_m_def lp_timeout_accept_def)
  next
    case (Some k)
    then have k: "k < ca_count ?A" using next_expired_bound [OF Some] by simp
    define a where "a = clist ?A ! k"
    have a: "a \<in> set (owned p)" using k by (simp add: a_def owned_def)
    from owned_instance [OF ok a] obtain x where
      x: "hp_instances h a = Some x" "load_instance h a = Ok x" "inst_at h a = inst_of h x" "held h a = opt_list (mi_value x)"
      and store: "\<And>y. store_instance a y h = Ok (h\<lparr>hp_instances := (hp_instances h)(a \<mapsto> y)\<rparr>)" by blast
    have at: "map (inst_at h) (clist ?A) ! k = inst_of h x" using k x(3) by (simp add: a_def)
    have "inst_at h a \<in> set (lp_accs (lists_at h p))" using k by (simp add: a_def)
    from lp_invD(5) [OF inv this] x(3) obtain v where v: "mi_value x = Some v" by auto
    have "msg_ok (value_at h v)" using lp_value_ok [OF inv a] v x(3) by simp
    moreover have "v \<in> dom (hp_values h)" using heap_ownsD(5) [OF D(4) a] x(1) v by auto
    ultimately have req: "accept_req_of_m h a = Ok (accept_of (inst_of h x) (value_at h v))"
      using v x(2) by (auto simp: accept_req_of_m_def load_value_def value_at_def msg_ok_def accept_of_def)
    from mem_ok_store [OF ok a refl, of "x\<lparr>mi_created_at := ti_timeout it\<rparr>"] x(4)
      lists_at_store(2) [OF ok refl k a_def, of "x\<lparr>mi_created_at := ti_timeout it\<rparr>"] Some q i spec x(2,3) at req v show ?thesis
      by (auto simp: timeout_iterator_accept_m_def lp_timeout_accept_def a_def [symmetric] store touched_def inst_of_def)
  qed
qed

section \<open>The end of a proposer\<close>

lemma free_items_ok:
  assumes inv: "carray_inv c" and start: "P (clist c) h"
    and free: "\<And>a xs g. P (a # xs) g \<Longrightarrow> \<exists>g1. f a g = Ok g1 \<and> P xs g1"
  shows "\<exists>h1. free_items f c h = Ok h1 \<and> P [] h1"
proof -
  let ?body = "\<lambda>i h. rbind (carray_item c (int i)) (\<lambda>a. f a h)"
  have step: "\<exists>t'. ?body i t = Ok t' \<and> P (drop (Suc i) (clist c)) t'" if "i < ca_count c" "P (drop i (clist c)) t" for i t
    using free [of "clist c ! i" "drop (Suc i) (clist c)" t] that by (simp add: carray_item_ok [OF inv] Cons_nth_drop_Suc)
  have "\<exists>t. for_loop [0..<ca_count c] ?body h = Ok t \<and> P (drop (ca_count c) (clist c)) t"
    by (rule for_loop_upto_inv) (use step start in simp_all)
  then show ?thesis by (simp add: free_items_def carray_count_def)
qed

lemma proposer_free_ok:
  assumes "mem_ok h p"
  shows "\<exists>h1. proposer_free p h = Ok h1 \<and> hp_values h1 = Map.empty \<and> hp_instances h1 = Map.empty"
proof -
  note D = mem_okD [OF assms]
  let ?A = "clist (mp_accept_instances p)"
  from free_items_ok [OF D(1), of "\<lambda>xs g. heap_owns g xs (owned p)" h free_value] D(4) heap_owns_free_value obtain h1 where
    1: "free_items free_value (mp_values p) h = Ok h1" "heap_owns h1 [] (owned p)" by blast
  have fi: "\<exists>g1. instance_free a g = Ok g1 \<and> heap_owns g1 [] (xs @ ys)" if "heap_owns g [] ((a # xs) @ ys)" for a xs ys g
    using heap_owns_free_instance [of g "[]" a "xs @ ys"] that by auto
  from free_items_ok [OF D(2), of "\<lambda>xs g. heap_owns g [] (xs @ ?A)" h1 instance_free] 1(2) fi obtain h2 where
    2: "free_items instance_free (mp_prepare_instances p) h1 = Ok h2" "heap_owns h2 [] ([] @ ?A)" unfolding owned_def by blast
  from free_items_ok [OF D(3), of "\<lambda>xs g. heap_owns g [] (xs @ [])" h2 instance_free] 2(2) fi [where ys = "[]"] obtain h3 where
    3: "free_items instance_free (mp_accept_instances p) h2 = Ok h3" "heap_owns h3 [] ([] @ [])" by auto
  from 3(2) have "hp_values h3 = Map.empty" "hp_instances h3 = Map.empty" by (simp_all add: heap_owns_def owns2_empty)
  with 1(1) 2(1) 3(1) show ?thesis by (simp add: proposer_free_def)
qed

section \<open>Sequences of calls\<close>

text \<open>
  The calls that \<open>evproposer.c\<close> makes, one by one, with the times and the acknowledgements they get.
  \<open>m_call\<close> runs a call on the heap, \<open>p_call\<close> on the proposer of \<open>Proposer\<close>, \<open>lp_call\<close> on the specification.
\<close>

datatype proposer_call =
    CPropose "byte list" size_t
  | CPrepare "nat \<Rightarrow> int" timeval
  | CPrepareAck timeval prepare_ack
  | CAccept
  | CAcceptAck timeval accept_ack
  | CTimeoutPrepare paxos_config timeout_iterator
  | CTimeoutAccept paxos_config timeout_iterator

datatype proposer_reply =
    ReplyNothing
  | ReplyPrepare "prepare_req option"
  | ReplyAccept "accept_req option"

definition m_call :: "proposer_call \<Rightarrow> heap \<times> m_proposer \<Rightarrow> (proposer_reply \<times> heap \<times> m_proposer) res" where
  "m_call c x =
     (case c of
        CPropose v n \<Rightarrow> rbind (proposer_propose_m v n x) (\<lambda>y. Ok (ReplyNothing, y))
      | CPrepare junk now \<Rightarrow> rbind (proposer_prepare_m junk now x) (\<lambda>(r, y). Ok (ReplyPrepare (Some r), y))
      | CPrepareAck now ack \<Rightarrow> rbind (proposer_receive_prepare_ack_m now ack x) (\<lambda>(r, y). Ok (ReplyPrepare r, y))
      | CAccept \<Rightarrow> rbind (proposer_accept_m x) (\<lambda>(r, y). Ok (ReplyAccept r, y))
      | CAcceptAck now ack \<Rightarrow> rbind (proposer_receive_accept_ack_m now ack x) (\<lambda>(r, y). Ok (ReplyPrepare r, y))
      | CTimeoutPrepare cfg it \<Rightarrow> rbind (timeout_iterator_prepare_m cfg it x) (\<lambda>(r, _, y). Ok (ReplyPrepare r, y))
      | CTimeoutAccept cfg it \<Rightarrow> rbind (timeout_iterator_accept_m cfg it x) (\<lambda>(r, _, y). Ok (ReplyAccept r, y)))"

definition p_call :: "proposer_call \<Rightarrow> proposer \<Rightarrow> (proposer_reply \<times> proposer) res" where
  "p_call c p =
     (case c of
        CPropose v n \<Rightarrow> rbind (proposer_propose p v n) (\<lambda>y. Ok (ReplyNothing, y))
      | CPrepare junk now \<Rightarrow> rbind (proposer_prepare junk now p) (\<lambda>(r, y). Ok (ReplyPrepare (Some r), y))
      | CPrepareAck now ack \<Rightarrow> rbind (proposer_receive_prepare_ack now p ack) (\<lambda>(r, y). Ok (ReplyPrepare r, y))
      | CAccept \<Rightarrow> rbind (proposer_accept p) (\<lambda>(r, y). Ok (ReplyAccept r, y))
      | CAcceptAck now ack \<Rightarrow> rbind (proposer_receive_accept_ack now p ack) (\<lambda>(r, y). Ok (ReplyPrepare r, y))
      | CTimeoutPrepare cfg it \<Rightarrow> rbind (timeout_iterator_prepare cfg it p) (\<lambda>(r, _, y). Ok (ReplyPrepare r, y))
      | CTimeoutAccept cfg it \<Rightarrow> rbind (timeout_iterator_accept cfg it p) (\<lambda>(r, _, y). Ok (ReplyAccept r, y)))"

definition lp_call :: "proposer_call \<Rightarrow> lproposer \<Rightarrow> proposer_reply \<times> lproposer" where
  "lp_call c l =
     (case c of
        CPropose v n \<Rightarrow> (ReplyNothing, lp_propose l v n)
      | CPrepare junk now \<Rightarrow> map_prod (\<lambda>r. ReplyPrepare (Some r)) (\<lambda>l. l) (lp_prepare junk now l)
      | CPrepareAck now ack \<Rightarrow> map_prod ReplyPrepare (\<lambda>l. l) (lp_receive_prepare_ack now l ack)
      | CAccept \<Rightarrow> map_prod ReplyAccept (\<lambda>l. l) (lp_accept l)
      | CAcceptAck now ack \<Rightarrow> map_prod ReplyPrepare (\<lambda>l. l) (lp_receive_accept_ack now l ack)
      | CTimeoutPrepare cfg it \<Rightarrow> map_prod ReplyPrepare snd (lp_timeout_prepare cfg (ti_timeout it) (ti_pi it) l)
      | CTimeoutAccept cfg it \<Rightarrow> map_prod ReplyAccept snd (lp_timeout_accept cfg (ti_timeout it) (ti_ai it) l))"

text \<open>
  What a call needs: buffers as long as they say, known acceptors, a record that does not fail the
  assertion of \<open>proposer_receive_accept_ack\<close> (the answers to rejected requests never do, their ballot
  is not the ballot of the instance), an instance number that does not wrap, clocks whose difference
  fits an \<open>int\<close>.
\<close>

definition call_ok :: "nat \<Rightarrow> proposer_call \<Rightarrow> lproposer \<Rightarrow> bool" where
  "call_ok n c l =
     (case c of
        CPropose v k \<Rightarrow> unat k \<le> length v
      | CPrepare junk now \<Rightarrow> lp_next l + 1 \<noteq> 0
      | CPrepareAck now ack \<Rightarrow> 0 \<le> pa_acceptor_id ack \<and> pa_acceptor_id ack < int n \<and>
          unat (pa_value_size ack) \<le> length (pa_value ack)
      | CAccept \<Rightarrow> True
      | CAcceptAck now ack \<Rightarrow> 0 \<le> aa_acceptor_id ack \<and> aa_acceptor_id ack < int n \<and>
          ack_consistent (lp_accs l) ack
      | CTimeoutPrepare cfg it \<Rightarrow> clocks_ok (ti_timeout it) (lp_preps l) \<and> ti_pi it \<le> length (lp_preps l)
      | CTimeoutAccept cfg it \<Rightarrow> clocks_ok (ti_timeout it) (lp_accs l) \<and> ti_ai it \<le> length (lp_accs l))"

fun calls_ok :: "nat \<Rightarrow> proposer_call list \<Rightarrow> lproposer \<Rightarrow> bool" where
  "calls_ok n [] l = True"
| "calls_ok n (c # cs) l = (call_ok n c l \<and> calls_ok n cs (snd (lp_call c l)))"

fun m_calls :: "proposer_call list \<Rightarrow> heap \<times> m_proposer \<Rightarrow> (proposer_reply list \<times> heap \<times> m_proposer) res" where
  "m_calls [] x = Ok ([], x)"
| "m_calls (c # cs) x = rbind (m_call c x) (\<lambda>(r, y). rbind (m_calls cs y) (\<lambda>(rs, z). Ok (r # rs, z)))"

fun p_calls :: "proposer_call list \<Rightarrow> proposer \<Rightarrow> (proposer_reply list \<times> proposer) res" where
  "p_calls [] p = Ok ([], p)"
| "p_calls (c # cs) p = rbind (p_call c p) (\<lambda>(r, y). rbind (p_calls cs y) (\<lambda>(rs, z). Ok (r # rs, z)))"

lemma no_wrap: "(i :: iid_t) + 1 \<noteq> 0 \<Longrightarrow> unat i + 1 < 2 ^ 32"
proof (rule ccontr)
  assume "\<not> unat i + 1 < 2 ^ 32"
  moreover have "unat i < 2 ^ 32" using unat_less_2p32 [of i] by simp
  ultimately have "unat i + 1 = 2 ^ 32" by simp
  then have "of_nat (unat i + 1) = (of_nat (2 ^ 32) :: iid_t)" by (rule arg_cong)
  moreover assume "i + 1 \<noteq> 0"
  ultimately show False by simp
qed

lemma lp_call_inv:
  assumes "lp_inv n l" "call_ok n c l"
  shows "lp_inv n (snd (lp_call c l))"
  using assms no_wrap [of "lp_next l"] lp_propose_inv lp_prepare_inv lp_receive_prepare_ack_inv lp_accept_inv
    lp_receive_accept_ack_inv lp_timeout_inv
  by (cases c) (simp_all add: lp_call_def call_ok_def)

lemma heap_implements_map:
  "heap_implements r s \<Longrightarrow> heap_implements (rbind r (\<lambda>(a, y). Ok (g a, y))) (map_prod g (\<lambda>l. l) s)"
  by (cases s) (auto simp: heap_implements_def)

lemma m_call_ok:
  assumes ok: "mem_ok h p" and inv: "lp_inv n (lists_at h p)" and c: "call_ok n c (lists_at h p)"
  shows "heap_implements (m_call c (h, p)) (lp_call c (lists_at h p))"
proof (cases c)
  case (CPropose v k)
  then show ?thesis using proposer_propose_m_ok [OF ok, of k v] c by (auto simp: m_call_def lp_call_def call_ok_def)
next
  case (CPrepare junk now)
  have "0 < mp_acceptors p" using lp_invD(1,2) [OF inv] by simp
  from heap_implements_map [OF proposer_prepare_m_ok [OF ok this]] CPrepare show ?thesis by (simp add: m_call_def lp_call_def)
next
  case (CPrepareAck now ack)
  with c heap_implements_map [OF proposer_receive_prepare_ack_m_ok [OF ok inv, of ack]] show ?thesis
    by (simp add: m_call_def lp_call_def call_ok_def)
next
  case CAccept
  with heap_implements_map [OF proposer_accept_m_ok [OF ok inv]] show ?thesis by (simp add: m_call_def lp_call_def)
next
  case (CAcceptAck now ack)
  with c heap_implements_map [OF proposer_receive_accept_ack_m_ok [OF ok inv, of ack]] show ?thesis
    by (simp add: m_call_def lp_call_def call_ok_def)
next
  case (CTimeoutPrepare cfg it)
  obtain r j l where spec: "lp_timeout_prepare cfg (ti_timeout it) (ti_pi it) (lists_at h p) = (r, j, l)" by (rule prod_cases3)
  from timeout_iterator_prepare_m_ok [OF ok _ _ spec] c CTimeoutPrepare spec show ?thesis
    by (auto simp: m_call_def lp_call_def call_ok_def)
next
  case (CTimeoutAccept cfg it)
  obtain r j l where spec: "lp_timeout_accept cfg (ti_timeout it) (ti_ai it) (lists_at h p) = (r, j, l)" by (rule prod_cases3)
  from timeout_iterator_accept_m_ok [OF ok inv _ _ spec] c CTimeoutAccept spec show ?thesis
    by (auto simp: m_call_def lp_call_def call_ok_def)
qed

lemma p_call_ok:
  assumes inv: "proposer_inv n p" and c: "call_ok n c (lists_of p)"
  shows "\<exists>p1. p_call c p = Ok (fst (lp_call c (lists_of p)), p1) \<and> proposer_inv n p1 \<and> lists_of p1 = snd (lp_call c (lists_of p))"
proof (cases c)
  case (CPropose v k)
  then show ?thesis using proposer_propose_ok [OF inv, of k v] c by (auto simp: p_call_def lp_call_def call_ok_def)
next
  case (CPrepare junk now)
  then show ?thesis using proposer_prepare_ok [OF inv, of junk now] c no_wrap by (auto simp: p_call_def lp_call_def call_ok_def)
next
  case (CPrepareAck now ack)
  then show ?thesis using proposer_receive_prepare_ack_ok [OF inv, of ack now] c by (auto simp: p_call_def lp_call_def call_ok_def)
next
  case CAccept
  then show ?thesis using proposer_accept_ok [OF inv] by (auto simp: p_call_def lp_call_def)
next
  case (CAcceptAck now ack)
  then show ?thesis using proposer_receive_accept_ack_ok [OF inv, of ack now] c by (auto simp: p_call_def lp_call_def call_ok_def)
next
  case (CTimeoutPrepare cfg it)
  obtain r j l where spec: "lp_timeout_prepare cfg (ti_timeout it) (ti_pi it) (lists_of p) = (r, j, l)" by (rule prod_cases3)
  from timeout_iterator_prepare_refines [OF inv _ _ spec] lp_timeout_inv(1) [OF proposer_invD(4) [OF inv], of cfg "ti_timeout it" "ti_pi it"]
    c CTimeoutPrepare spec show ?thesis
    by (auto simp: p_call_def lp_call_def call_ok_def proposer_inv_iff)
next
  case (CTimeoutAccept cfg it)
  obtain r j l where spec: "lp_timeout_accept cfg (ti_timeout it) (ti_ai it) (lists_of p) = (r, j, l)" by (rule prod_cases3)
  from timeout_iterator_accept_refines [OF inv _ _ spec] lp_timeout_inv(2) [OF proposer_invD(4) [OF inv], of cfg "ti_timeout it" "ti_ai it"]
    c CTimeoutAccept spec show ?thesis
    by (auto simp: p_call_def lp_call_def call_ok_def proposer_inv_iff)
qed

lemma calls_agree:
  assumes "mem_ok h p" "proposer_inv n q" "lists_at h p = lists_of q" "calls_ok n cs (lists_of q)"
  shows "\<exists>rs h1 p1 q1. m_calls cs (h, p) = Ok (rs, h1, p1) \<and> p_calls cs q = Ok (rs, q1) \<and>
    mem_ok h1 p1 \<and> proposer_inv n q1 \<and> lists_at h1 p1 = lists_of q1"
  using assms
proof (induction cs arbitrary: h p q)
  case (Cons c cs)
  let ?s = "lp_call c (lists_of q)"
  have c: "call_ok n c (lists_of q)" using Cons.prems(4) by simp
  have inv: "lp_inv n (lists_at h p)" using Cons.prems(2,3) by (simp add: proposer_inv_iff)
  from m_call_ok [OF Cons.prems(1) inv, of c] c Cons.prems(3) obtain h1 p1 where
    m: "m_call c (h, p) = Ok (fst ?s, h1, p1)" "mem_ok h1 p1" "lists_at h1 p1 = snd ?s" by (auto simp: heap_implements_def)
  from p_call_ok [OF Cons.prems(2) c] obtain q1 where
    q: "p_call c q = Ok (fst ?s, q1)" "proposer_inv n q1" "lists_of q1 = snd ?s" by blast
  have "calls_ok n cs (lists_of q1)" using Cons.prems(4) q(3) by simp
  from Cons.IH [OF m(2) q(2) _ this] m q show ?case by fastforce
qed auto

lemma new_mem_ok: "mem_ok heap_new (proposer_new_m i n)" "lists_at heap_new (proposer_new_m i n) = lists_of (proposer_new i n)"
  by (simp_all add: mem_ok_def queues_ok_def heap_owns_def owns2_empty owned_def below_brk_def heap_new_def proposer_new_m_def
      lists_at_def lists_of_def proposer_new_def)

end
