(* ===== verification/Learner_Heap.thy ===== *)
theory Learner_Heap
  imports Learner Ownership
begin

text \<open>
  \<open>paxos/learner.c\<close> once more, with its pointers. An instance points to the copies of the
  acknowledgements it received, and \<open>final_value\<close> points to one of these copies, which
  \<open>instance_clear\<close> frees. So \<open>final_value\<close> is an alias: in \<open>Learner\<close> it is a copy, which is right only
  if the acknowledgement it points to is never freed or overwritten while it is in use.

  The parents of \<open>Ownership\<close> are the instances, the children the acknowledgements. The ring of the
  window holds addresses and never changes after \<open>learner_new_m\<close>.
\<close>

section \<open>The heap\<close>

record ml_instance =
  mli_iid :: iid_t
  mli_last_update_ballot :: ballot_t
  mli_acks :: "addr option list"
  mli_final_value :: "addr option"

record m_learner =
  ml_quorum :: nat
  ml_acceptors :: nat
  ml_late_start :: bool
  ml_current_iid :: iid_t
  ml_highest_iid_seen :: iid_t
  ml_highest_iid_closed :: iid_t
  ml_instances :: "addr carray"

record lheap =
  lh_acks :: "addr \<rightharpoonup> accept_ack"
  lh_instances :: "addr \<rightharpoonup> ml_instance"
  lh_brk :: addr   \<comment> \<open>no block at or above this address was ever allocated\<close>

definition lheap_new :: lheap where
  "lheap_new = \<lparr>lh_acks = Map.empty, lh_instances = Map.empty, lh_brk = 0\<rparr>"

definition malloc_ack :: "accept_ack \<Rightarrow> lheap \<Rightarrow> addr \<times> lheap" where
  "malloc_ack x h = (lh_brk h, h\<lparr>lh_acks := (lh_acks h)(lh_brk h \<mapsto> x), lh_brk := Suc (lh_brk h)\<rparr>)"

definition load_ack :: "lheap \<Rightarrow> addr \<Rightarrow> accept_ack res" where
  "load_ack h v = (case lh_acks h v of None \<Rightarrow> Err DanglingPointer | Some x \<Rightarrow> Ok x)"

definition free_ack :: "addr \<Rightarrow> lheap \<Rightarrow> lheap res" where
  "free_ack v h =
     (if lh_acks h v = None then Err DanglingPointer else Ok (h\<lparr>lh_acks := (lh_acks h)(v := None)\<rparr>))"

definition malloc_inst :: "ml_instance \<Rightarrow> lheap \<Rightarrow> addr \<times> lheap" where
  "malloc_inst x h =
     (lh_brk h, h\<lparr>lh_instances := (lh_instances h)(lh_brk h \<mapsto> x), lh_brk := Suc (lh_brk h)\<rparr>)"

definition load_inst :: "lheap \<Rightarrow> addr \<Rightarrow> ml_instance res" where
  "load_inst h a = (case lh_instances h a of None \<Rightarrow> Err DanglingPointer | Some x \<Rightarrow> Ok x)"

definition store_inst :: "addr \<Rightarrow> ml_instance \<Rightarrow> lheap \<Rightarrow> lheap res" where
  "store_inst a x h =
     (if lh_instances h a = None then Err DanglingPointer
      else Ok (h\<lparr>lh_instances := (lh_instances h)(a \<mapsto> x)\<rparr>))"

definition free_inst :: "addr \<Rightarrow> lheap \<Rightarrow> lheap res" where
  "free_inst a h =
     (if lh_instances h a = None then Err DanglingPointer
      else Ok (h\<lparr>lh_instances := (lh_instances h)(a := None)\<rparr>))"

section \<open>Instances\<close>

definition clear_ack_m :: "addr \<Rightarrow> nat \<Rightarrow> lheap \<Rightarrow> lheap res" where
  "clear_ack_m a i h =
     rbind (load_inst h a) (\<lambda>inst.
       if i < length (mli_acks inst) then
         (case mli_acks inst ! i of
            None \<Rightarrow> Ok h
          | Some v \<Rightarrow> rbind (free_ack v h) (store_inst a (inst\<lparr>mli_acks := (mli_acks inst)[i := None]\<rparr>)))
       else Err OutOfBounds)"

definition instance_clear_m :: "addr \<Rightarrow> nat \<Rightarrow> lheap \<Rightarrow> lheap res" where
  "instance_clear_m a acceptors h =
     rbind (load_inst h a) (\<lambda>inst.
     rbind (store_inst a (inst\<lparr>mli_iid := 0, mli_last_update_ballot := 0\<rparr>) h) (\<lambda>h1.
     rbind (for_loop [0..<acceptors] (clear_ack_m a) h1) (\<lambda>h2.
     rbind (load_inst h2 a) (\<lambda>inst1. store_inst a (inst1\<lparr>mli_final_value := None\<rparr>) h2))))"

definition instance_init_m :: "nat \<Rightarrow> lheap \<Rightarrow> addr \<times> lheap" where
  "instance_init_m acceptors h =
     malloc_inst \<lparr>mli_iid = 0, mli_last_update_ballot = 0, mli_acks = replicate acceptors None,
       mli_final_value = None\<rparr> h"

definition instance_destroy_m :: "nat \<Rightarrow> addr \<Rightarrow> lheap \<Rightarrow> lheap res" where
  "instance_destroy_m acceptors a h = rbind (instance_clear_m a acceptors h) (free_inst a)"

definition has_quorum_body_m ::
  "nat \<Rightarrow> lheap \<Rightarrow> addr \<Rightarrow> nat \<Rightarrow> int \<times> nat \<times> bool \<Rightarrow> (int \<times> nat \<times> bool) res" where
  "has_quorum_body_m acceptors h a i st =
     (case st of (a_valid_index, cnt, broken) \<Rightarrow>
       if broken then Ok st
       else
         rbind (load_inst h a) (\<lambda>inst.
           if i < length (mli_acks inst) then
             (case mli_acks inst ! i of
                None \<Rightarrow> Ok st
              | Some v \<Rightarrow>
                  rbind (load_ack h v) (\<lambda>curr_ack.
                    if aa_ballot curr_ack = mli_last_update_ballot inst then
                      if aa_is_final curr_ack \<noteq> 0 then Ok (int i, cnt + 1 + acceptors, True)
                      else Ok (int i, cnt + 1, False)
                    else Ok st))
           else Err OutOfBounds))"

definition instance_has_quorum_m :: "m_learner \<Rightarrow> addr \<Rightarrow> lheap \<Rightarrow> (bool \<times> lheap) res" where
  "instance_has_quorum_m l a h =
     rbind (load_inst h a) (\<lambda>inst.
       if mli_final_value inst \<noteq> None then Ok (True, h)
       else
         rbind (for_loop [0..<ml_acceptors l] (has_quorum_body_m (ml_acceptors l) h a) (-1, 0, False))
           (\<lambda>(a_valid_index, cnt, _).
             if cnt \<ge> ml_quorum l then
               rbind (int_index a_valid_index (mli_acks inst)) (\<lambda>k.
               rbind (store_inst a (inst\<lparr>mli_final_value := mli_acks inst ! k\<rparr>) h) (\<lambda>h1. Ok (True, h1)))
             else Ok (False, h)))"

definition instance_add_accept_m :: "addr \<Rightarrow> accept_ack \<Rightarrow> lheap \<Rightarrow> lheap res" where
  "instance_add_accept_m a ack h =
     rbind (copy_ack ack) (\<lambda>new_ack.
       case malloc_ack new_ack h of (v, h1) \<Rightarrow>
         rbind (load_inst h1 a) (\<lambda>inst.
         rbind (int_index (aa_acceptor_id ack) (mli_acks inst)) (\<lambda>k.
           store_inst a (inst\<lparr>mli_acks := (mli_acks inst)[k := Some v],
             mli_last_update_ballot := aa_ballot ack\<rparr>) h1)))"

section \<open>Operations\<close>

definition learner_get_instance_m :: "m_learner \<Rightarrow> iid_t \<Rightarrow> lheap \<Rightarrow> addr res" where
  "learner_get_instance_m l iid h =
     rbind (carray_item (ml_instances l) (sint iid)) (\<lambda>a.
     rbind (load_inst h a) (\<lambda>inst.
     rbind (rassert (mli_iid inst = iid \<or> mli_iid inst = 0)) (\<lambda>_. Ok a)))"

text \<open>The end of \<open>learner_update_instance\<close>, for an instance that is not closed.\<close>

definition store_ack_m :: "addr \<Rightarrow> accept_ack \<Rightarrow> lheap \<Rightarrow> lheap res" where
  "store_ack_m a ack h =
     rbind (load_inst h a) (\<lambda>inst.
     rbind (int_index (aa_acceptor_id ack) (mli_acks inst)) (\<lambda>k.
       case mli_acks inst ! k of
         None \<Rightarrow> instance_add_accept_m a ack h
       | Some prev \<Rightarrow>
           rbind (load_ack h prev) (\<lambda>prev_ack.
             if aa_ballot prev_ack \<ge> aa_ballot ack then Ok h
             else rbind (free_ack prev h) (instance_add_accept_m a ack))))"

definition learner_update_instance_m :: "m_learner \<Rightarrow> accept_ack \<Rightarrow> lheap \<Rightarrow> lheap res" where
  "learner_update_instance_m l ack h =
     rbind (learner_get_instance_m l (aa_iid ack) h) (\<lambda>a.
     rbind (load_inst h a) (\<lambda>inst0.
     let inst1 = (if mli_iid inst0 = 0
                  then inst0\<lparr>mli_iid := aa_iid ack, mli_last_update_ballot := aa_ballot ack\<rparr>
                  else inst0) in
     rbind (store_inst a inst1 h) (\<lambda>h1.
     rbind (rassert (mli_iid inst1 = aa_iid ack)) (\<lambda>_.
     rbind (instance_has_quorum_m l a h1) (\<lambda>(closed, h2).
       if closed then Ok h2 else store_ack_m a ack h2)))))"

definition learner_deliver_next_m :: "lheap \<times> m_learner \<Rightarrow> (accept_ack option \<times> lheap \<times> m_learner) res" where
  "learner_deliver_next_m x =
     (case x of (h, l) \<Rightarrow>
      rbind (learner_get_instance_m l (ml_current_iid l) h) (\<lambda>a.
      rbind (instance_has_quorum_m l a h) (\<lambda>(closed, h1).
        if closed then
          rbind (load_inst h1 a) (\<lambda>inst.
            case mli_final_value inst of
              None \<Rightarrow> Err NullPointer
            | Some v \<Rightarrow>
                rbind (load_ack h1 v) (\<lambda>fin.
                rbind (copy_ack fin) (\<lambda>ack.
                rbind (instance_clear_m a (ml_acceptors l) h1) (\<lambda>h2.
                  Ok (Some ack, h2, l\<lparr>ml_current_iid := ml_current_iid l + 1\<rparr>)))))
        else Ok (None, h1, l))))"

definition learner_receive_accept_m :: "accept_ack \<Rightarrow> lheap \<times> m_learner \<Rightarrow> (lheap \<times> m_learner) res" where
  "learner_receive_accept_m ack x =
     (case x of (h, l0) \<Rightarrow>
      let l1 = (if ml_late_start l0
                then l0\<lparr>ml_late_start := False, ml_current_iid := aa_iid ack\<rparr> else l0);
          l = (if aa_iid ack > ml_highest_iid_seen l1
               then l1\<lparr>ml_highest_iid_seen := aa_iid ack\<rparr> else l1)
      in
      if aa_iid ack < ml_current_iid l then Ok (h, l)
      else if aa_iid ack \<ge> ml_current_iid l + of_nat (carray_size (ml_instances l)) then Ok (h, l)
      else
        rbind (learner_update_instance_m l ack h) (\<lambda>h1.
        rbind (learner_get_instance_m l (aa_iid ack) h1) (\<lambda>a.
        rbind (instance_has_quorum_m l a h1) (\<lambda>(closed, h2).
        rbind (load_inst h2 a) (\<lambda>inst.
          Ok (h2, if closed \<and> mli_iid inst > ml_highest_iid_closed l
                  then l\<lparr>ml_highest_iid_closed := mli_iid inst\<rparr> else l))))))"

definition initialize_instances_m :: "nat \<Rightarrow> nat \<Rightarrow> lheap \<Rightarrow> (addr carray \<times> lheap) res" where
  "initialize_instances_m acceptors n h =
     for_loop [0..<carray_size (carray_new n :: addr carray)]
       (\<lambda>i (c, h). case instance_init_m acceptors h of (a, h1) \<Rightarrow>
          rbind (carray_push_back c a) (\<lambda>c1. Ok (c1, h1)))
       (carray_new n, h)"

definition learner_new_m :: "paxos_config \<Rightarrow> nat \<Rightarrow> lheap \<Rightarrow> (lheap \<times> m_learner) res" where
  "learner_new_m cfg acceptors h =
     rbind (initialize_instances_m acceptors (learner_instances cfg) h) (\<lambda>(c, h1).
       Ok (h1, \<lparr>ml_quorum = paxos_quorum acceptors,
           ml_acceptors = acceptors,
           ml_late_start = (learner_catch_up cfg = 0),
           ml_current_iid = 1,
           ml_highest_iid_seen = 1,
           ml_highest_iid_closed = 1,
           ml_instances = c\<rparr>))"

definition learner_free :: "m_learner \<Rightarrow> lheap \<Rightarrow> lheap res" where
  "learner_free l h =
     for_loop [0..<carray_count (ml_instances l)]
       (\<lambda>i h. rbind (carray_item (ml_instances l) (int i)) (\<lambda>a. instance_destroy_m (ml_acceptors l) a h)) h"

section \<open>The invariant\<close>

definition acks_of :: "ml_instance \<Rightarrow> addr list" where
  "acks_of x = concat (map opt_list (mli_acks x))"

text \<open>The final value is one of the acknowledgements of the instance.\<close>

definition final_aliased :: "ml_instance \<Rightarrow> bool" where
  "final_aliased x \<longleftrightarrow> (\<forall>v. mli_final_value x = Some v \<longrightarrow> Some v \<in> set (mli_acks x))"

definition lheap_ok :: "nat \<Rightarrow> lheap \<Rightarrow> addr list \<Rightarrow> bool" where
  "lheap_ok n h is \<longleftrightarrow> owns2 acks_of (lh_acks h) (lh_instances h) [] is \<and>
     (\<forall>a \<in> dom (lh_instances h) \<union> dom (lh_acks h). a < lh_brk h) \<and>
     (\<forall>x \<in> ran (lh_instances h). length (mli_acks x) = n \<and> final_aliased x)"

definition slots :: "m_learner \<Rightarrow> addr list" where
  "slots l = clist (ml_instances l)"

definition ring_ok :: "addr carray \<Rightarrow> bool" where
  "ring_ok c \<longleftrightarrow> carray_inv c \<and> ca_head c = 0 \<and> ca_count c = ca_size c"

definition lmem_ok :: "lheap \<Rightarrow> m_learner \<Rightarrow> bool" where
  "lmem_ok h l \<longleftrightarrow> ring_ok (ml_instances l) \<and> lheap_ok (ml_acceptors l) h (slots l)"

section \<open>The learner that a heap represents\<close>

definition ack_at :: "lheap \<Rightarrow> addr \<Rightarrow> accept_ack" where
  "ack_at h v = the (lh_acks h v)"

definition linst_of :: "lheap \<Rightarrow> ml_instance \<Rightarrow> l_instance" where
  "linst_of h x = \<lparr>li_iid = mli_iid x, li_last_update_ballot = mli_last_update_ballot x,
     li_acks = map (map_option (ack_at h)) (mli_acks x), li_final_value = map_option (ack_at h) (mli_final_value x)\<rparr>"

definition linst_at :: "lheap \<Rightarrow> addr \<Rightarrow> l_instance" where
  "linst_at h a = linst_of h (the (lh_instances h a))"

definition map_carray :: "('a \<Rightarrow> 'b) \<Rightarrow> 'a carray \<Rightarrow> 'b carray" where
  "map_carray f c = \<lparr>ca_head = ca_head c, ca_tail = ca_tail c, ca_size = ca_size c, ca_count = ca_count c,
     ca_array = map (map_option f) (ca_array c)\<rparr>"

definition learner_at :: "lheap \<Rightarrow> m_learner \<Rightarrow> learner" where
  "learner_at h l = \<lparr>l_quorum = ml_quorum l, l_acceptors = ml_acceptors l, l_late_start = ml_late_start l,
     l_current_iid = ml_current_iid l, l_highest_iid_seen = ml_highest_iid_seen l,
     l_highest_iid_closed = ml_highest_iid_closed l, l_instances = map_carray (linst_at h) (ml_instances l)\<rparr>"

lemma linst_of_sel [simp]:
  "li_iid (linst_of h x) = mli_iid x" "li_last_update_ballot (linst_of h x) = mli_last_update_ballot x"
  "li_acks (linst_of h x) = map (map_option (ack_at h)) (mli_acks x)"
  "li_final_value (linst_of h x) = map_option (ack_at h) (mli_final_value x)"
  by (simp_all add: linst_of_def)

lemma learner_at_sel [simp]:
  "l_quorum (learner_at h l) = ml_quorum l" "l_acceptors (learner_at h l) = ml_acceptors l"
  "l_late_start (learner_at h l) = ml_late_start l" "l_current_iid (learner_at h l) = ml_current_iid l"
  "l_highest_iid_seen (learner_at h l) = ml_highest_iid_seen l"
  "l_highest_iid_closed (learner_at h l) = ml_highest_iid_closed l"
  "l_instances (learner_at h l) = map_carray (linst_at h) (ml_instances l)"
  by (simp_all add: learner_at_def)

lemma map_carray_sel [simp]:
  "ca_head (map_carray f c) = ca_head c" "ca_size (map_carray f c) = ca_size c" "ca_count (map_carray f c) = ca_count c"
  "ca_array (map_carray f c) = map (map_option f) (ca_array c)"
  by (simp_all add: map_carray_def)

section \<open>Changes of one instance\<close>

text \<open>What the code does to the instance \<open>a\<close> leaves the other instances and their acknowledgements alone.\<close>

definition changed :: "nat \<Rightarrow> addr list \<Rightarrow> lheap \<Rightarrow> addr \<Rightarrow> lheap \<Rightarrow> ml_instance \<Rightarrow> bool" where
  "changed n is h a h1 x1 \<longleftrightarrow> lheap_ok n h1 is \<and> lh_instances h1 = (lh_instances h)(a \<mapsto> x1) \<and>
     (\<forall>b \<in> set is. b \<noteq> a \<longrightarrow> (\<forall>v \<in> set (held_by acks_of (lh_instances h) b). lh_acks h1 v = lh_acks h v))"

lemma changed_trans:
  assumes "changed n is h a h1 x1" "changed n is h1 a h2 x2"
  shows "changed n is h a h2 x2"
proof -
  have "held_by acks_of (lh_instances h1) b = held_by acks_of (lh_instances h) b" if "b \<noteq> a" for b
    using that assms(1) by (simp add: changed_def held_by_def)
  with assms show ?thesis unfolding changed_def by simp
qed

lemma lheap_okD:
  assumes "lheap_ok n h is"
  shows "owns2 acks_of (lh_acks h) (lh_instances h) [] is" "distinct is" "set is = dom (lh_instances h)"
    "lh_brk h \<notin> dom (lh_acks h)" "lh_brk h \<notin> dom (lh_instances h)"
  using assms owns2D(1,2) [of acks_of "lh_acks h" "lh_instances h" "[]" "is"] by (auto simp: lheap_ok_def)

lemma in_acks_of: "Some v \<in> set (mli_acks x) \<longleftrightarrow> v \<in> set (acks_of x)"
proof -
  have "v \<in> set (opt_list r) \<longleftrightarrow> r = Some v" for r by (cases r) auto
  then show ?thesis by (auto simp: acks_of_def)
qed

lemma instance_at:
  assumes "lheap_ok n h is" "a \<in> set is"
  obtains x where "lh_instances h a = Some x" "load_inst h a = Ok x" "linst_at h a = linst_of h x"
    "length (mli_acks x) = n" "final_aliased x" "\<And>v. Some v \<in> set (mli_acks x) \<Longrightarrow> \<exists>y. lh_acks h v = Some y"
    "\<And>y. store_inst a y h = Ok (h\<lparr>lh_instances := (lh_instances h)(a \<mapsto> y)\<rparr>)"
proof -
  from owns2D(5) [OF lheap_okD(1) [OF assms(1)] assms(2)] obtain x where
    x: "lh_instances h a = Some x" "set (acks_of x) \<subseteq> dom (lh_acks h)" by blast
  then have "x \<in> ran (lh_instances h)" by (simp add: ranI)
  with assms(1) have "length (mli_acks x) = n \<and> final_aliased x" by (simp add: lheap_ok_def)
  with x show thesis
    by (intro that [of x]) (auto simp: load_inst_def store_inst_def linst_at_def in_acks_of)
qed

text \<open>A write that keeps the acknowledgements.\<close>

lemma changed_store:
  assumes ok: "lheap_ok n h is" and a: "a \<in> set is" "lh_instances h a = Some x"
    and y: "mli_acks y = mli_acks x" "final_aliased y"
  shows "changed n is h a (h\<lparr>lh_instances := (lh_instances h)(a \<mapsto> y)\<rparr>) y"
proof -
  have "owns2 acks_of (lh_acks h) ((lh_instances h)(a \<mapsto> y)) [] is"
    by (rule owns2_store [OF lheap_okD(1) [OF ok] a(1)]) (simp add: a(2) acks_of_def y(1))
  moreover have "x \<in> ran (lh_instances h)" using a(2) by (simp add: ranI)
  ultimately show ?thesis
    using ok a(2) y by (auto simp: changed_def lheap_ok_def ran_def)
qed

text \<open>The test for a majority reads the same acknowledgements; the final value becomes an alias.\<close>

lemma instance_has_quorum_m_ok:
  assumes ok: "lheap_ok (ml_acceptors l) h is" and a: "a \<in> set is"
    and q: "instance_has_quorum (learner_at h l) (linst_at h a) = Ok (b, inst)"
  shows "\<exists>h1 x1. instance_has_quorum_m l a h = Ok (b, h1) \<and> changed (ml_acceptors l) is h a h1 x1 \<and>
    lh_acks h1 = lh_acks h \<and> linst_of h1 x1 = inst \<and> (\<not> b \<longrightarrow> mli_final_value x1 = None)"
proof -
  let ?n = "ml_acceptors l"
  from instance_at [OF ok a] obtain x where
    x: "lh_instances h a = Some x" "load_inst h a = Ok x" "linst_at h a = linst_of h x" "length (mli_acks x) = ?n"
      "final_aliased x" "\<And>v. Some v \<in> set (mli_acks x) \<Longrightarrow> \<exists>y. lh_acks h v = Some y"
    and store: "\<And>y. store_inst a y h = Ok (h\<lparr>lh_instances := (lh_instances h)(a \<mapsto> y)\<rparr>)" by blast
  have same: "changed ?n is h a h x" unfolding changed_def using ok x(1) by (simp add: fun_upd_idem)
  have body: "has_quorum_body_m ?n h a i st = has_quorum_body ?n (linst_of h x) i st" for i st
  proof (cases "i < length (mli_acks x)")
    case True
    then have "\<exists>y. lh_acks h v = Some y" if "mli_acks x ! i = Some v" for v using x(6) [of v] that by (metis nth_mem)
    with True show ?thesis
      by (cases st; cases "mli_acks x ! i") (auto simp: has_quorum_body_m_def has_quorum_body_def x(2) load_ack_def ack_at_def)
  qed (cases st; simp add: has_quorum_body_m_def has_quorum_body_def x(2))
  then have loop: "for_loop is' (has_quorum_body_m ?n h a) st = for_loop is' (has_quorum_body ?n (linst_of h x)) st" for is' st
    by (induction is' arbitrary: st) (simp_all add: fun_eq_iff rbind_def split: sum.splits)
  show ?thesis
  proof (cases "mli_final_value x")
    case (Some v)
    with q x(3) have "b" "inst = linst_of h x" by (simp_all add: instance_has_quorum_def)
    with Some same x(2) show ?thesis by (intro exI [of _ h] exI [of _ x]) (simp add: instance_has_quorum_m_def)
  next
    case None
    with q x(3) obtain idx cnt br where
      L: "for_loop [0..<?n] (has_quorum_body ?n (linst_of h x)) (-1, 0, False) = Ok (idx, cnt, br)" and
      r: "(if cnt \<ge> ml_quorum l then rbind (int_index idx (li_acks (linst_of h x))) (\<lambda>k.
             Ok (True, (linst_of h x)\<lparr>li_final_value := li_acks (linst_of h x) ! k\<rparr>))
           else Ok (False, linst_of h x)) = Ok (b, inst)"
      by (auto simp: instance_has_quorum_def res_simps)
    have hm: "instance_has_quorum_m l a h = (if cnt \<ge> ml_quorum l then
        rbind (int_index idx (mli_acks x)) (\<lambda>k.
        rbind (store_inst a (x\<lparr>mli_final_value := mli_acks x ! k\<rparr>) h) (\<lambda>h1. Ok (True, h1))) else Ok (False, h))"
      using None L by (simp add: instance_has_quorum_m_def x(2) loop)
    show ?thesis
    proof (cases "cnt \<ge> ml_quorum l")
      case True
      with r have k: "0 \<le> idx" "idx < int (length (mli_acks x))" and
        i: "b" "inst = (linst_of h x)\<lparr>li_final_value := map_option (ack_at h) (mli_acks x ! nat idx)\<rparr>"
        by (auto simp: res_simps)
      let ?x = "x\<lparr>mli_final_value := mli_acks x ! nat idx\<rparr>"
      let ?h = "h\<lparr>lh_instances := (lh_instances h)(a \<mapsto> ?x)\<rparr>"
      have "mli_acks x ! nat idx \<in> set (mli_acks x)" using k by simp
      then have "final_aliased ?x" by (auto simp: final_aliased_def)
      then have "changed ?n is h a ?h ?x" by (intro changed_store [OF ok a x(1)]) simp_all
      moreover have "instance_has_quorum_m l a h = Ok (b, ?h)" unfolding hm using True k i(1) by (simp add: int_index_def store)
      moreover have "linst_of ?h ?x = inst" by (simp add: i(2) linst_of_def ack_at_def [abs_def])
      ultimately show ?thesis using i(1) by (intro exI [of _ ?h] exI [of _ ?x]) simp
    next
      case False
      with r hm same None show ?thesis by (intro exI [of _ h] exI [of _ x]) simp
    qed
  qed
qed

text \<open>An acknowledgement is stored after the one in its place, if there is one, was freed.\<close>

lemma concat_update:
  "k < length xs \<Longrightarrow> mset (concat (map opt_list (xs[k := r]))) + mset (opt_list (xs ! k)) =
    mset (concat (map opt_list xs)) + mset (opt_list r)"
  by (induction xs arbitrary: k) (auto split: nat.split simp: ac_simps)

lemma acks_of_update:
  "k < length (mli_acks x) \<Longrightarrow> mset (acks_of (x\<lparr>mli_acks := (mli_acks x)[k := r], mli_last_update_ballot := b\<rparr>)) +
    mset (opt_list (mli_acks x ! k)) = mset (acks_of x) + mset (opt_list r)"
  by (simp add: acks_of_def concat_update)

lemma instance_add_accept_m_ok:
  assumes ok: "lheap_ok n h is" and a: "a \<in> set is" "lh_instances h a = Some x"
    and fin: "mli_final_value x = None" and ack: "copy_ack ack = Ok new"
    and k: "int_index (aa_acceptor_id ack) (mli_acks x) = Ok k"
    and h1: "h1 = h\<lparr>lh_acks := lh_acks h |` (- set (opt_list (mli_acks x ! k)))\<rparr>"
  shows "\<exists>h2 x2. instance_add_accept_m a ack h1 = Ok h2 \<and> changed n is h a h2 x2 \<and> linst_of h2 x2 =
    (linst_of h x)\<lparr>li_acks := (li_acks (linst_of h x))[k := Some new], li_last_update_ballot := aa_ballot ack\<rparr>"
proof -
  let ?old = "opt_list (mli_acks x ! k)" and ?v = "lh_brk h"
  let ?x = "\<lambda>r. x\<lparr>mli_acks := (mli_acks x)[k := r], mli_last_update_ballot := aa_ballot ack\<rparr>"
  let ?f = "(lh_acks h |` (- set ?old))(?v \<mapsto> new)"
  let ?h = "h\<lparr>lh_acks := ?f, lh_instances := (lh_instances h)(a \<mapsto> ?x (Some ?v)), lh_brk := Suc ?v\<rparr>"
  note D = lheap_okD [OF ok]
  from k have len: "k < length (mli_acks x)" by (auto simp: res_simps)
  have upd: "mset (acks_of (?x r)) + mset ?old = mset (acks_of x) + mset (opt_list r)" for r
    by (rule acks_of_update [OF len])
  have own: "owns2 acks_of (lh_acks h) ((lh_instances h)(a \<mapsto> ?x None)) ?old is"
    by (rule owns2_store [OF D(1) a(1)]) (use upd [of None] a(2) in \<open>simp add: add.commute\<close>)
  have "owns2 acks_of (lh_acks h |` (- set ?old)) ((lh_instances h)(a \<mapsto> ?x None)) [] is"
  proof (cases "mli_acks x ! k")
    case (Some p)
    then have "lh_acks h |` (- set ?old) = (lh_acks h)(p := None)" by (auto simp: fun_eq_iff restrict_map_def)
    with owns2_free_child(2) [of acks_of "lh_acks h" _ p "[]"] own Some show ?thesis by simp
  qed (use own in \<open>simp add: restrict_map_def\<close>)
  from owns2_new_child [OF this, of ?v new] D(4)
  have "owns2 acks_of ?f ((lh_instances h)(a \<mapsto> ?x None)) [?v] is" by simp
  moreover have "mset (acks_of (?x (Some ?v))) + mset ?old = add_mset ?v (mset (acks_of (?x None))) + mset ?old"
    using upd [of None] upd [of "Some ?v"] by simp
  then have "mset (acks_of (?x (Some ?v))) = add_mset ?v (mset (acks_of (?x None)))" by (simp only: add_right_cancel)
  ultimately have own1: "owns2 acks_of ?f ((lh_instances h)(a \<mapsto> ?x (Some ?v))) [] is"
    using owns2_store [of acks_of ?f "(lh_instances h)(a \<mapsto> ?x None)" "[?v]" "is" a "[]" "?x (Some ?v)"] a(1) by simp
  from instance_at [OF ok a(1)] a(2) have x: "length (mli_acks x) = n"
    "\<And>w. Some w \<in> set (mli_acks x) \<Longrightarrow> \<exists>y. lh_acks h w = Some y" by auto
  have "instance_add_accept_m a ack h1 = Ok ?h"
    using ack k a(2) by (simp add: instance_add_accept_m_def malloc_ack_def load_inst_def store_inst_def h1)
  moreover have "changed n is h a ?h (?x (Some ?v))"
  proof -
    have "lheap_ok n ?h is"
      using own1 ok x(1) fin a(2) by (auto simp: lheap_ok_def ran_def final_aliased_def restrict_map_def intro: less_SucI split: if_splits)
    moreover have "?f w = lh_acks h w" if b: "b \<in> set is" "b \<noteq> a" "w \<in> set (held_by acks_of (lh_instances h) b)" for b w
    proof -
      have "w \<in> dom (lh_acks h)" using owns2D(5) [OF D(1) b(1)] b(3) by auto
      moreover have "w \<notin> set ?old"
        using owns2_other [OF D(1) a(1) b] upd [of None] a(2) len in_acks_of [of w x]
        by (cases "mli_acks x ! k") (auto dest: nth_mem)
      ultimately show ?thesis using D(4) by (auto simp: restrict_map_def)
    qed
    ultimately show ?thesis by (simp add: changed_def)
  qed
  moreover have "linst_of ?h (?x (Some ?v)) =
    (linst_of h x)\<lparr>li_acks := (li_acks (linst_of h x))[k := Some new], li_last_update_ballot := aa_ballot ack\<rparr>"
  proof -
    have "distinct (acks_of x)" by (rule owns2_distinct [OF D(1) a])
    moreover have "mset (acks_of (?x None) @ ?old) = mset (acks_of x)" using upd [of None] by simp
    ultimately have "distinct (acks_of (?x None) @ ?old)" by (metis mset_eq_imp_distinct_iff)
    then have sep: "w \<notin> set ?old" if "w \<in> set (acks_of (?x None))" for w using that by auto
    have "map_option (ack_at ?h) (mli_acks x ! j) = map_option (ack_at h) (mli_acks x ! j)"
      if j: "j < length (mli_acks x)" "j \<noteq> k" for j
    proof (cases "mli_acks x ! j")
      case (Some w)
      then have "Some w \<in> set (mli_acks (?x None))" using j Some nth_mem [of j "(mli_acks x)[k := None]"] by simp
      then have "w \<notin> set ?old" using sep in_acks_of by blast
      moreover have "\<exists>y. lh_acks h w = Some y" using x(2) [of w] j(1) Some by (metis nth_mem)
      then have "w \<noteq> ?v" using D(4) by auto
      ultimately show ?thesis using Some by (simp add: ack_at_def)
    qed simp
    then have "map (map_option (ack_at ?h)) ((mli_acks x)[k := Some ?v]) = (map (map_option (ack_at h)) (mli_acks x))[k := Some new]"
      using len by (intro nth_equalityI) (auto simp: nth_list_update ack_at_def)
    then show ?thesis by (simp add: linst_of_def fin)
  qed
  ultimately show ?thesis by blast
qed

text \<open>Clearing an instance frees its acknowledgements one by one.\<close>

definition cleared :: "nat \<Rightarrow> ml_instance \<Rightarrow> ml_instance" where
  "cleared i x = x\<lparr>mli_iid := 0, mli_last_update_ballot := 0, mli_acks := replicate i None @ drop i (mli_acks x)\<rparr>"

lemma clear_ack_m_ok:
  assumes own: "owns2 acks_of (lh_acks h) (lh_instances h) [] is" and a: "a \<in> set is"
    and x: "lh_instances h a = Some (cleared i x)" and i: "i < length (mli_acks x)"
  shows "\<exists>h1. clear_ack_m a i h = Ok h1 \<and> lh_instances h1 = (lh_instances h)(a \<mapsto> cleared (Suc i) x) \<and>
    owns2 acks_of (lh_acks h1) (lh_instances h1) [] is \<and> lh_brk h1 = lh_brk h \<and> dom (lh_acks h1) \<subseteq> dom (lh_acks h) \<and>
    (\<forall>b \<in> set is. b \<noteq> a \<longrightarrow> (\<forall>v \<in> set (held_by acks_of (lh_instances h) b). lh_acks h1 v = lh_acks h v))"
proof -
  let ?x = "cleared i x"
  have nth: "mli_acks ?x ! i = mli_acks x ! i" "i < length (mli_acks ?x)" using i by (simp_all add: cleared_def nth_append)
  have nx: "?x\<lparr>mli_acks := (mli_acks ?x)[i := None]\<rparr> = cleared (Suc i) x"
    using i by (simp add: cleared_def list_update_append Cons_nth_drop_Suc [symmetric] replicate_append_same)
  show ?thesis
  proof (cases "mli_acks x ! i")
    case None
    then have "(mli_acks ?x)[i := None] = mli_acks ?x" using nth(1) by (metis list_update_id)
    then have "cleared (Suc i) x = ?x" using nx by simp
    with None x own nth show ?thesis
      by (intro exI [of _ h]) (simp add: clear_ack_m_def load_inst_def fun_upd_idem)
  next
    case (Some v)
    let ?h = "h\<lparr>lh_acks := (lh_acks h)(v := None), lh_instances := (lh_instances h)(a \<mapsto> cleared (Suc i) x)\<rparr>"
    have "owns2 acks_of (lh_acks h) ((lh_instances h)(a \<mapsto> cleared (Suc i) x)) [v] is"
      by (rule owns2_store [OF own a])
        (use concat_update [OF nth(2), of None] Some x nth in \<open>simp add: nx [symmetric] acks_of_def add.commute\<close>)
    from owns2_free_child [OF this] have f: "lh_acks h v \<noteq> None"
      "owns2 acks_of (lh_acks ?h) (lh_instances ?h) [] is" by simp_all
    have "clear_ack_m a i h = Ok ?h"
      using x nth Some f(1) by (simp add: clear_ack_m_def load_inst_def free_ack_def store_inst_def nx)
    moreover have "v \<notin> set (held_by acks_of (lh_instances h) b)" if "b \<in> set is" "b \<noteq> a" for b
    proof
      assume "v \<in> set (held_by acks_of (lh_instances h) b)"
      from owns2_other [OF own a that this] x have "v \<notin> set (acks_of ?x)" by simp
      moreover have "Some v \<in> set (mli_acks ?x)" using nth Some by (metis nth_mem)
      ultimately show False using in_acks_of by blast
    qed
    ultimately show ?thesis using f(2) by (intro exI [of _ ?h]) auto
  qed
qed

lemma instance_clear_m_ok:
  assumes ok: "lheap_ok n h is" and a: "a \<in> set is"
  shows "\<exists>h1. instance_clear_m a n h = Ok h1 \<and> changed n is h a h1
    \<lparr>mli_iid = 0, mli_last_update_ballot = 0, mli_acks = replicate n None, mli_final_value = None\<rparr>"
proof -
  from instance_at [OF ok a] obtain x where
    x: "lh_instances h a = Some x" "load_inst h a = Ok x" "length (mli_acks x) = n"
    and store: "\<And>y. store_inst a y h = Ok (h\<lparr>lh_instances := (lh_instances h)(a \<mapsto> y)\<rparr>)" by blast
  let ?h = "h\<lparr>lh_instances := (lh_instances h)(a \<mapsto> cleared 0 x)\<rparr>"
  let ?others = "\<lambda>h1. \<forall>b \<in> set is. b \<noteq> a \<longrightarrow> (\<forall>v \<in> set (held_by acks_of (lh_instances h) b). lh_acks h1 v = lh_acks h v)"
  let ?I = "\<lambda>i h1. lh_instances h1 = (lh_instances h)(a \<mapsto> cleared i x) \<and>
    owns2 acks_of (lh_acks h1) (lh_instances h1) [] is \<and> lh_brk h1 = lh_brk h \<and> dom (lh_acks h1) \<subseteq> dom (lh_acks h) \<and> ?others h1"
  have "owns2 acks_of (lh_acks h) ((lh_instances h)(a \<mapsto> cleared 0 x)) [] is"
    by (rule owns2_store [OF lheap_okD(1) [OF ok] a]) (simp add: x(1) acks_of_def cleared_def)
  then have start: "?I 0 ?h" by simp
  have step: "\<exists>h2. clear_ack_m a i h1 = Ok h2 \<and> ?I (Suc i) h2" if i: "i < n" and I: "?I i h1" for i h1
  proof -
    from I have inst: "lh_instances h1 = (lh_instances h)(a \<mapsto> cleared i x)"
      and own: "owns2 acks_of (lh_acks h1) (lh_instances h1) [] is" by blast+
    have at: "lh_instances h1 a = Some (cleared i x)" by (simp add: inst)
    from clear_ack_m_ok [OF own a at] i x(3) obtain h2 where
      h2: "clear_ack_m a i h1 = Ok h2" "lh_instances h2 = (lh_instances h1)(a \<mapsto> cleared (Suc i) x)"
        "owns2 acks_of (lh_acks h2) (lh_instances h2) [] is" "lh_brk h2 = lh_brk h1" "dom (lh_acks h2) \<subseteq> dom (lh_acks h1)"
      and o: "\<forall>b \<in> set is. b \<noteq> a \<longrightarrow> (\<forall>v \<in> set (held_by acks_of (lh_instances h1) b). lh_acks h2 v = lh_acks h1 v)" by auto
    have "held_by acks_of (lh_instances h1) b = held_by acks_of (lh_instances h) b" if "b \<noteq> a" for b
      using that by (simp add: inst held_by_def)
    then have "?others h2" using o I by simp
    moreover have "dom (lh_acks h2) \<subseteq> dom (lh_acks h)" using h2(5) I by (meson order_trans)
    ultimately show ?thesis using h2 I by (intro exI [of _ h2]) simp
  qed
  have "\<exists>t. for_loop [0..<n] (clear_ack_m a) ?h = Ok t \<and> ?I n t"
    by (rule for_loop_upto_inv) (use start step in blast)+
  then obtain t where t: "for_loop [0..<n] (clear_ack_m a) ?h = Ok t" "?I n t" by blast
  let ?x = "\<lparr>mli_iid = 0, mli_last_update_ballot = 0, mli_acks = replicate n None, mli_final_value = None\<rparr>"
  let ?t = "t\<lparr>lh_instances := (lh_instances h)(a \<mapsto> ?x)\<rparr>"
  have c: "(cleared n x)\<lparr>mli_final_value := None\<rparr> = ?x" "x\<lparr>mli_iid := 0, mli_last_update_ballot := 0\<rparr> = cleared 0 x"
    using x(3) by (simp_all add: cleared_def)
  have clear: "instance_clear_m a n h = Ok ?t"
    using t x(2) by (simp add: instance_clear_m_def store c load_inst_def) (simp add: store_inst_def c)
  from t(2) have own: "owns2 acks_of (lh_acks t) (lh_instances t) [] is"
    and inst: "lh_instances t = (lh_instances h)(a \<mapsto> cleared n x)" by blast+
  have "owns2 acks_of (lh_acks t) ((lh_instances t)(a \<mapsto> ?x)) [] is"
    by (rule owns2_store [OF own a]) (simp add: inst x(3) acks_of_def cleared_def)
  moreover from ok have bound: "\<forall>v \<in> dom (lh_instances h) \<union> dom (lh_acks h). v < lh_brk h" by (simp add: lheap_ok_def)
  moreover from t(2) have d: "dom (lh_acks t) \<subseteq> dom (lh_acks h)" "lh_brk t = lh_brk h" by blast+
  then have "v < lh_brk t" if "v \<in> dom (lh_acks t)" for v using bound that by (metis UnI2 subsetD)
  ultimately have "lheap_ok n ?t is"
    using inst ok x(1) d(2) by (auto simp: lheap_ok_def ran_def final_aliased_def)
  then show ?thesis using clear t(2) by (intro exI [of _ ?t]) (simp add: changed_def)
qed

section \<open>The window\<close>

lemma ring_array:
  assumes "ring_ok c"
  shows "ca_array c = map Some (clist c)"
proof -
  from assms have inv: "carray_inv c" and c: "ca_head c = 0" "ca_count c = ca_size c" by (simp_all add: ring_ok_def)
  have "ca_array c ! i = Some (clist c ! i)" if "i < ca_size c" for i
    using carray_inv_item [OF inv, of i] that c by simp
  then show ?thesis using carray_invD(2) [OF inv] c(2) by (intro nth_equalityI) simp_all
qed

lemma carray_slot_map [simp]: "carray_slot (map_carray f c) i = carray_slot c i"
  by (simp add: carray_slot_def int_index_def)

text \<open>The slot that an index denotes, in the ring of addresses and in the represented ring.\<close>

lemma ring_item:
  assumes ring: "ring_ok c" and item: "carray_item (map_carray f c) i = Ok y"
  obtains k where "carray_slot c i = Ok k" "k < length (clist c)" "carray_item c i = Ok (clist c ! k)" "y = f (clist c ! k)"
proof -
  note arr = ring_array [OF ring]
  from item obtain k where k: "carray_slot c i = Ok k" "arr_read (map (map_option f) (ca_array c)) k = Ok y" "\<not> carray_empty c"
    by (auto simp: carray_item_def carray_at_def carray_empty_def res_simps split: if_splits option.splits)
  then have "k < length (clist c)" "y = f (clist c ! k)" by (auto simp: res_simps arr)
  moreover from this k have "carray_item c i = Ok (clist c ! k)" by (simp add: carray_item_def carray_at_def arr arr_read_def)
  ultimately show thesis using k(1) that by blast
qed

lemma ring_set:
  assumes ring: "ring_ok c" and slot: "carray_slot c i = Ok k" "k < length (clist c)"
    and f: "\<And>a. a \<in> set (clist c) \<Longrightarrow> a \<noteq> clist c ! k \<Longrightarrow> f1 a = f a" "f1 (clist c ! k) = y" and d: "distinct (clist c)"
  shows "carray_set (map_carray f c) i y = Ok (map_carray f1 c)"
proof -
  note arr = ring_array [OF ring]
  have "map (Some \<circ> f1) (clist c) = (map (Some \<circ> f) (clist c))[k := Some y]"
    using slot(2) f d by (intro nth_equalityI) (auto simp: nth_list_update nth_eq_iff_index_eq)
  with slot show ?thesis by (simp add: carray_set_def arr comp_def) (simp add: map_carray_def arr comp_def)
qed

lemma learner_get_instance_m_ok:
  assumes ok: "lmem_ok h l" and get: "learner_get_instance (learner_at h l) i = Ok inst"
  obtains k where "carray_slot (ml_instances l) (sint i) = Ok k" "k < length (slots l)"
    "learner_get_instance_m l i h = Ok (slots l ! k)" "inst = linst_at h (slots l ! k)"
proof -
  from get have item: "carray_item (map_carray (linst_at h) (ml_instances l)) (sint i) = Ok inst"
    and iid: "li_iid inst = i \<or> li_iid inst = 0" by (auto simp: learner_get_instance_def res_simps)
  from ring_item [OF _ item] ok obtain k where
    k: "carray_slot (ml_instances l) (sint i) = Ok k" "k < length (slots l)"
      "carray_item (ml_instances l) (sint i) = Ok (slots l ! k)" "inst = linst_at h (slots l ! k)"
    unfolding lmem_ok_def slots_def by blast
  have "slots l ! k \<in> set (slots l)" using k(2) by simp
  from instance_at [OF _ this] ok obtain x where
    "load_inst h (slots l ! k) = Ok x" "linst_at h (slots l ! k) = linst_of h x" unfolding lmem_ok_def by blast
  with k iid have "learner_get_instance_m l i h = Ok (slots l ! k)" by (simp add: learner_get_instance_m_def)
  with k that show thesis by blast
qed

text \<open>After a change of one instance the heap represents the learner with this instance replaced.\<close>

lemma changed_learner:
  assumes ok: "lmem_ok h l" and slot: "carray_slot (ml_instances l) (sint i) = Ok k" "k < length (slots l)"
    and ch: "changed (ml_acceptors l) (slots l) h (slots l ! k) h1 x1"
  shows "lmem_ok h1 l" "learner_put_instance (learner_at h l) i (linst_of h1 x1) = Ok (learner_at h1 l)"
proof -
  from ok have ring: "ring_ok (ml_instances l)" and lh: "lheap_ok (ml_acceptors l) h (slots l)" by (simp_all add: lmem_ok_def)
  show "lmem_ok h1 l" using ch ring by (simp add: lmem_ok_def changed_def)
  have inst: "lh_instances h1 = (lh_instances h)(slots l ! k \<mapsto> x1)" using ch by (simp add: changed_def)
  have same: "linst_at h1 b = linst_at h b" if b: "b \<in> set (slots l)" "b \<noteq> slots l ! k" for b
  proof -
    from instance_at [OF lh b(1)] obtain x where x: "lh_instances h b = Some x" "final_aliased x" by blast
    have eq: "ack_at h1 v = ack_at h v" if "Some v \<in> set (mli_acks x)" for v
      using ch b that x(1) by (simp add: changed_def ack_at_def in_acks_of)
    then have "map_option (ack_at h1) r = map_option (ack_at h) r" if "r \<in> set (mli_acks x)" for r using that by (cases r) auto
    moreover from eq x(2) have "map_option (ack_at h1) (mli_final_value x) = map_option (ack_at h) (mli_final_value x)"
      by (cases "mli_final_value x") (auto simp: final_aliased_def)
    ultimately show ?thesis using x(1) b(2) by (simp add: linst_at_def linst_of_def inst)
  qed
  have "carray_set (map_carray (linst_at h) (ml_instances l)) (sint i) (linst_of h1 x1) = Ok (map_carray (linst_at h1) (ml_instances l))"
    by (rule ring_set [OF ring slot [unfolded slots_def]])
      (use same lheap_okD(2) [OF lh] in \<open>simp_all add: slots_def linst_at_def inst\<close>)
  then show "learner_put_instance (learner_at h l) i (linst_of h1 x1) = Ok (learner_at h1 l)"
    by (simp add: learner_put_instance_def learner_at_def)
qed

section \<open>The operations\<close>

definition store_ack :: "l_instance \<Rightarrow> accept_ack \<Rightarrow> l_instance res" where
  "store_ack inst ack =
     rbind (int_index (aa_acceptor_id ack) (li_acks inst)) (\<lambda>k.
       case li_acks inst ! k of
         None \<Rightarrow> instance_add_accept inst ack
       | Some prev_ack \<Rightarrow>
           if aa_ballot prev_ack \<ge> aa_ballot ack then Ok inst else instance_add_accept inst ack)"

lemma store_ack_m_ok:
  assumes ok: "lheap_ok n h is" and a: "a \<in> set is" "lh_instances h a = Some x" and fin: "mli_final_value x = None"
    and pure: "store_ack (linst_of h x) ack = Ok inst"
  shows "\<exists>h1 x1. store_ack_m a ack h = Ok h1 \<and> changed n is h a h1 x1 \<and> linst_of h1 x1 = inst"
proof -
  from instance_at [OF ok a(1)] a(2) have x: "load_inst h a = Ok x"
    "\<And>v. Some v \<in> set (mli_acks x) \<Longrightarrow> \<exists>y. lh_acks h v = Some y" by auto
  have same: "changed n is h a h x" unfolding changed_def using ok a(2) by (simp add: fun_upd_idem)
  from pure obtain k where k: "int_index (aa_acceptor_id ack) (mli_acks x) = Ok k" "k < length (mli_acks x)"
    and p: "(case map_option (ack_at h) (mli_acks x ! k) of None \<Rightarrow> instance_add_accept (linst_of h x) ack
      | Some prev \<Rightarrow> if aa_ballot prev \<ge> aa_ballot ack then Ok (linst_of h x) else instance_add_accept (linst_of h x) ack) = Ok inst"
    by (auto simp: store_ack_def res_simps int_index_def split: if_splits)
  have add: "\<exists>h1 x1. instance_add_accept_m a ack (h\<lparr>lh_acks := lh_acks h |` (- set (opt_list (mli_acks x ! k)))\<rparr>) = Ok h1 \<and>
      changed n is h a h1 x1 \<and> linst_of h1 x1 = inst" if "instance_add_accept (linst_of h x) ack = Ok inst"
  proof -
    from that k obtain new where new: "copy_ack ack = Ok new" and i: "inst = (linst_of h x)\<lparr>li_acks := (li_acks (linst_of h x))[k := Some new],
        li_last_update_ballot := aa_ballot ack\<rparr>"
      by (auto simp: instance_add_accept_def res_simps int_index_def split: if_splits)
    show ?thesis unfolding i by (rule instance_add_accept_m_ok [OF ok a fin new k(1) refl])
  qed
  show ?thesis
  proof (cases "mli_acks x ! k")
    case None
    then have "h\<lparr>lh_acks := lh_acks h |` (- set (opt_list (mli_acks x ! k)))\<rparr> = h" by (simp add: restrict_map_def)
    with add p None k(1) x(1) show ?thesis by (simp add: store_ack_m_def)
  next
    case (Some prev)
    from x(2) [of prev] k(2) Some obtain y where y: "lh_acks h prev = Some y" by (metis nth_mem)
    then have free: "free_ack prev h = Ok (h\<lparr>lh_acks := lh_acks h |` (- set (opt_list (mli_acks x ! k)))\<rparr>)"
      using Some by (auto simp: free_ack_def fun_eq_iff restrict_map_def intro!: arg_cong [of _ _ "\<lambda>f. lh_acks_update (\<lambda>_. f) _"])
    show ?thesis
    proof (cases "aa_ballot y \<ge> aa_ballot ack")
      case True
      with p Some y k(1) x(1) same show ?thesis
        by (intro exI [of _ h] exI [of _ x]) (simp add: store_ack_m_def load_ack_def ack_at_def)
    next
      case False
      with p Some y have "instance_add_accept (linst_of h x) ack = Ok inst" by (simp add: ack_at_def)
      from add [OF this] False Some y k(1) x(1) free show ?thesis by (simp add: store_ack_m_def load_ack_def)
    qed
  qed
qed

lemma learner_update_instanceE:
  assumes "learner_update_instance l ack = Ok l1"
  obtains inst0 closed inst2 inst3 where "learner_get_instance l (aa_iid ack) = Ok inst0"
    "li_iid (opened inst0 ack) = aa_iid ack" "instance_has_quorum l (opened inst0 ack) = Ok (closed, inst2)"
    "(if closed then Ok inst2 else store_ack inst2 ack) = Ok inst3" "learner_put_instance l (aa_iid ack) inst3 = Ok l1"
proof -
  from assms obtain inst0 closed inst2 where
    1: "learner_get_instance l (aa_iid ack) = Ok inst0" "li_iid (opened inst0 ack) = aa_iid ack"
      "instance_has_quorum l (opened inst0 ack) = Ok (closed, inst2)" and
    r: "(if closed then learner_put_instance l (aa_iid ack) inst2
      else rbind (int_index (aa_acceptor_id ack) (li_acks inst2)) (\<lambda>k.
           case li_acks inst2 ! k of
             None \<Rightarrow> rbind (instance_add_accept inst2 ack) (learner_put_instance l (aa_iid ack))
           | Some prev_ack \<Rightarrow>
               if aa_ballot prev_ack \<ge> aa_ballot ack then learner_put_instance l (aa_iid ack) inst2
               else rbind (instance_add_accept inst2 ack) (learner_put_instance l (aa_iid ack)))) = Ok l1"
    unfolding learner_update_instance_def Let_def opened_def [symmetric] by (auto simp: res_simps simp del: if_split_eq1)
  have "rbind (if closed then Ok inst2 else store_ack inst2 ack) (learner_put_instance l (aa_iid ack)) = Ok l1"
    using r by (auto simp: store_ack_def rbind_assoc res_simps split: if_splits option.splits)
  with 1 that show thesis by (auto simp: res_simps)
qed

lemma instance_has_quorum_counts:
  "l_acceptors l1 = l_acceptors l \<Longrightarrow> l_quorum l1 = l_quorum l \<Longrightarrow> instance_has_quorum l1 inst = instance_has_quorum l inst"
  by (simp add: instance_has_quorum_def)

lemma learner_update_instance_m_ok:
  assumes ok: "lmem_ok h l" and up: "learner_update_instance (learner_at h l) ack = Ok l1"
  shows "\<exists>h1. learner_update_instance_m l ack h = Ok h1 \<and> lmem_ok h1 l \<and> learner_at h1 l = l1"
proof -
  let ?n = "ml_acceptors l" and ?i = "aa_iid ack"
  from up obtain inst0 closed inst2 inst3 where
    pure: "learner_get_instance (learner_at h l) ?i = Ok inst0" "li_iid (opened inst0 ack) = ?i"
      "instance_has_quorum (learner_at h l) (opened inst0 ack) = Ok (closed, inst2)"
      "(if closed then Ok inst2 else store_ack inst2 ack) = Ok inst3" "learner_put_instance (learner_at h l) ?i inst3 = Ok l1"
    by (rule learner_update_instanceE)
  from learner_get_instance_m_ok [OF ok pure(1)] obtain k where
    k: "carray_slot (ml_instances l) (sint ?i) = Ok k" "k < length (slots l)"
      "learner_get_instance_m l ?i h = Ok (slots l ! k)" "inst0 = linst_at h (slots l ! k)" by blast
  let ?a = "slots l ! k"
  have a: "?a \<in> set (slots l)" using k(2) by simp
  from ok have lh: "lheap_ok ?n h (slots l)" by (simp add: lmem_ok_def)
  from instance_at [OF lh a] obtain x where
    x: "lh_instances h ?a = Some x" "load_inst h ?a = Ok x" "linst_at h ?a = linst_of h x" "final_aliased x"
    and store: "\<And>y. store_inst ?a y h = Ok (h\<lparr>lh_instances := (lh_instances h)(?a \<mapsto> y)\<rparr>)" by blast
  let ?x = "if mli_iid x = 0 then x\<lparr>mli_iid := ?i, mli_last_update_ballot := aa_ballot ack\<rparr> else x"
  let ?h = "h\<lparr>lh_instances := (lh_instances h)(?a \<mapsto> ?x)\<rparr>"
  have c1: "changed ?n (slots l) h ?a ?h ?x"
    by (rule changed_store [OF lh a x(1)]) (use x(4) in \<open>auto simp: final_aliased_def\<close>)
  have at1: "linst_at ?h ?a = opened inst0 ack" using k(4) x(3) by (simp add: linst_at_def opened_def linst_of_def ack_at_def [abs_def])
  have "instance_has_quorum (learner_at ?h l) (linst_at ?h ?a) = Ok (closed, inst2)"
    using pure(3) at1 instance_has_quorum_counts [of "learner_at ?h l" "learner_at h l"] by simp
  from instance_has_quorum_m_ok [OF _ a this] c1 obtain h2 x2 where
    q: "instance_has_quorum_m l ?a ?h = Ok (closed, h2)" "changed ?n (slots l) ?h ?a h2 x2" "linst_of h2 x2 = inst2"
      "\<not> closed \<longrightarrow> mli_final_value x2 = None" unfolding changed_def [of _ _ h] by blast
  have "mli_iid ?x = ?i" using pure(2) k(4) x(3) by (simp add: opened_def split: if_splits)
  then have m: "learner_update_instance_m l ack h = (if closed then Ok h2 else store_ack_m ?a ack h2)"
    using k(3) x(2) store q(1) by (simp add: learner_update_instance_m_def Let_def)
  have "\<exists>h3 x3. (if closed then Ok h2 else store_ack_m ?a ack h2) = Ok h3 \<and> changed ?n (slots l) h ?a h3 x3 \<and> linst_of h3 x3 = inst3"
  proof (cases closed)
    case True
    with pure(4) q(3) changed_trans [OF c1 q(2)] show ?thesis by auto
  next
    case False
    from q(2) have "lheap_ok ?n h2 (slots l)" "lh_instances h2 ?a = Some x2" by (simp_all add: changed_def)
    from store_ack_m_ok [OF this(1) a this(2), of ack inst3] False q(3,4) pure(4) obtain h3 x3 where
      "store_ack_m ?a ack h2 = Ok h3" "changed ?n (slots l) h2 ?a h3 x3" "linst_of h3 x3 = inst3" by auto
    with False changed_trans [OF changed_trans [OF c1 q(2)]] show ?thesis by auto
  qed
  then obtain h3 x3 where "learner_update_instance_m l ack h = Ok h3" "changed ?n (slots l) h ?a h3 x3" "linst_of h3 x3 = inst3"
    unfolding m by blast
  with changed_learner [OF ok k(1,2)] pure(5) show ?thesis by auto
qed

lemma lmem_ok_fields [simp]:
  "lmem_ok h (l\<lparr>ml_current_iid := i\<rparr>) = lmem_ok h l" "lmem_ok h (l\<lparr>ml_late_start := s\<rparr>) = lmem_ok h l"
  "lmem_ok h (l\<lparr>ml_highest_iid_seen := i\<rparr>) = lmem_ok h l" "lmem_ok h (l\<lparr>ml_highest_iid_closed := i\<rparr>) = lmem_ok h l"
  by (simp_all add: lmem_ok_def slots_def)

lemma learner_at_fields [simp]:
  "learner_at h (l\<lparr>ml_current_iid := i\<rparr>) = (learner_at h l)\<lparr>l_current_iid := i\<rparr>"
  "learner_at h (l\<lparr>ml_late_start := s\<rparr>) = (learner_at h l)\<lparr>l_late_start := s\<rparr>"
  "learner_at h (l\<lparr>ml_highest_iid_seen := i\<rparr>) = (learner_at h l)\<lparr>l_highest_iid_seen := i\<rparr>"
  "learner_at h (l\<lparr>ml_highest_iid_closed := i\<rparr>) = (learner_at h l)\<lparr>l_highest_iid_closed := i\<rparr>"
  by (simp_all add: learner_at_def)

text \<open>The test for a majority of an instance of the window, as the operations use it.\<close>

lemma get_and_test:
  assumes ok: "lmem_ok h l" and get: "learner_get_instance (learner_at h l) i = Ok inst"
    and q: "instance_has_quorum (learner_at h l) inst = Ok (b, inst1)"
  obtains a k h1 x1 where "a = slots l ! k" "carray_slot (ml_instances l) (sint i) = Ok k" "k < length (slots l)"
    "learner_get_instance_m l i h = Ok a" "instance_has_quorum_m l a h = Ok (b, h1)"
    "changed (ml_acceptors l) (slots l) h a h1 x1" "linst_of h1 x1 = inst1" "load_inst h1 a = Ok x1"
proof -
  from learner_get_instance_m_ok [OF ok get] obtain k where
    k: "carray_slot (ml_instances l) (sint i) = Ok k" "k < length (slots l)"
      "learner_get_instance_m l i h = Ok (slots l ! k)" "inst = linst_at h (slots l ! k)" by blast
  have a: "slots l ! k \<in> set (slots l)" using k(2) by simp
  from instance_has_quorum_m_ok [OF _ a] q k(4) ok obtain h1 x1 where
    h1: "instance_has_quorum_m l (slots l ! k) h = Ok (b, h1)" "changed (ml_acceptors l) (slots l) h (slots l ! k) h1 x1"
      "linst_of h1 x1 = inst1" unfolding lmem_ok_def by blast
  from h1(2) have "load_inst h1 (slots l ! k) = Ok x1" by (simp add: changed_def load_inst_def)
  with k h1 that show thesis by blast
qed

lemma learner_deliver_next_m_ok:
  assumes ok: "lmem_ok h l" and d: "learner_deliver_next (learner_at h l) = Ok (r, l1)"
  shows "\<exists>h1 ml. learner_deliver_next_m (h, l) = Ok (r, h1, ml) \<and> lmem_ok h1 ml \<and> learner_at h1 ml = l1"
proof -
  let ?n = "ml_acceptors l" and ?i = "ml_current_iid l"
  from d obtain inst b inst1 where
    pure: "learner_get_instance (learner_at h l) ?i = Ok inst" "instance_has_quorum (learner_at h l) inst = Ok (b, inst1)"
    by (auto simp: learner_deliver_next_def learner_get_current_instance_def res_simps)
  from get_and_test [OF ok pure] obtain a k h1 x1 where
    k: "a = slots l ! k" "carray_slot (ml_instances l) (sint ?i) = Ok k" "k < length (slots l)" and
    q: "learner_get_instance_m l ?i h = Ok a" "instance_has_quorum_m l a h = Ok (b, h1)"
      "changed ?n (slots l) h a h1 x1" "linst_of h1 x1 = inst1" "load_inst h1 a = Ok x1" by blast
  show ?thesis
  proof (cases b)
    case False
    with d pure have "r = None" "learner_put_instance (learner_at h l) ?i inst1 = Ok l1"
      by (auto simp: learner_deliver_next_def learner_get_current_instance_def res_simps)
    with False q changed_learner [OF ok k(2,3) q(3) [unfolded k(1)]] show ?thesis by (simp add: learner_deliver_next_m_def)
  next
    case True
    with d pure obtain fin ack inst2 l2 where
      p: "li_final_value inst1 = Some fin" "copy_ack fin = Ok ack" "instance_clear inst1 ?n = Ok inst2"
        "learner_put_instance (learner_at h l) ?i inst2 = Ok l2" "r = Some ack" "l1 = l2\<lparr>l_current_iid := ?i + 1\<rparr>"
      by (auto simp: learner_deliver_next_def learner_get_current_instance_def res_simps split: option.splits)
    have lh1: "lheap_ok ?n h1 (slots l)" using q(3) by (simp add: changed_def)
    have a: "a \<in> set (slots l)" using k(1,3) by simp
    from instance_at [OF lh1 a] q(5) have x1: "length (mli_acks x1) = ?n" "final_aliased x1"
      "\<And>v. Some v \<in> set (mli_acks x1) \<Longrightarrow> \<exists>y. lh_acks h1 v = Some y" by auto
    from p(1) q(4) obtain v where v: "mli_final_value x1 = Some v" "ack_at h1 v = fin" by auto
    with x1(2,3) have load: "load_ack h1 v = Ok fin" by (fastforce simp: final_aliased_def load_ack_def ack_at_def)
    let ?x = "\<lparr>mli_iid = 0, mli_last_update_ballot = 0, mli_acks = replicate ?n None, mli_final_value = None\<rparr>"
    from instance_clear_m_ok [OF lh1 a] obtain h2 where
      h2: "instance_clear_m a ?n h1 = Ok h2" "changed ?n (slots l) h1 a h2 ?x" by blast
    have "inst2 = linst_of h2 ?x"
      using instance_clear_spec [of inst1 ?n] q(4) x1(1) p(3) by (auto simp: instance_new_def linst_of_def)
    with changed_learner [OF ok k(2,3) changed_trans [OF q(3) h2(2), unfolded k(1)]] p(4)
    have "lmem_ok h2 l" "l2 = learner_at h2 l" by simp_all
    with True q(1,2,5) v load p h2(1) show ?thesis by (simp add: learner_deliver_next_m_def)
  qed
qed

lemma learner_receive_accept_m_ok:
  assumes ok: "lmem_ok h l0" and r: "learner_receive_accept (learner_at h l0) ack = Ok l1"
  shows "\<exists>h1 ml. learner_receive_accept_m ack (h, l0) = Ok (h1, ml) \<and> lmem_ok h1 ml \<and> learner_at h1 ml = l1"
proof -
  define l where "l = (let k = (if ml_late_start l0 then l0\<lparr>ml_late_start := False, ml_current_iid := aa_iid ack\<rparr> else l0)
    in if aa_iid ack > ml_highest_iid_seen k then k\<lparr>ml_highest_iid_seen := aa_iid ack\<rparr> else k)"
  have okl: "lmem_ok h l" using ok by (simp add: l_def Let_def)
  have noted: "noted (learner_at h l0) ack = learner_at h l" by (simp add: noted_def l_def Let_def)
  let ?old = "aa_iid ack < ml_current_iid l \<or> aa_iid ack \<ge> ml_current_iid l + of_nat (ca_size (ml_instances l))"
  have pure: "learner_receive_accept (learner_at h l0) ack = (if ?old then Ok (learner_at h l) else
      rbind (learner_update_instance (learner_at h l) ack) (\<lambda>l2.
      rbind (learner_get_instance l2 (aa_iid ack)) (\<lambda>inst.
      rbind (instance_has_quorum l2 inst) (\<lambda>(closed, inst1).
      rbind (learner_put_instance l2 (aa_iid ack) inst1) (\<lambda>l3.
        Ok (if closed \<and> li_iid inst1 > l_highest_iid_closed l3
            then l3\<lparr>l_highest_iid_closed := li_iid inst1\<rparr> else l3))))))"
    unfolding learner_receive_accept_def Let_def noted [unfolded noted_def Let_def] by (simp add: carray_size_def)
  have heap: "learner_receive_accept_m ack (h, l0) = (if ?old then Ok (h, l) else
      rbind (learner_update_instance_m l ack h) (\<lambda>h1.
      rbind (learner_get_instance_m l (aa_iid ack) h1) (\<lambda>a.
      rbind (instance_has_quorum_m l a h1) (\<lambda>(closed, h2).
      rbind (load_inst h2 a) (\<lambda>inst.
        Ok (h2, if closed \<and> mli_iid inst > ml_highest_iid_closed l
                then l\<lparr>ml_highest_iid_closed := mli_iid inst\<rparr> else l))))))"
    unfolding learner_receive_accept_m_def prod.case Let_def l_def [unfolded Let_def, symmetric] by (simp add: carray_size_def)
  show ?thesis
  proof (cases ?old)
    case True
    with okl r pure heap show ?thesis by simp
  next
    case False
    with r pure obtain l2 inst b inst1 l3 where
      p: "learner_update_instance (learner_at h l) ack = Ok l2" "learner_get_instance l2 (aa_iid ack) = Ok inst"
        "instance_has_quorum l2 inst = Ok (b, inst1)" "learner_put_instance l2 (aa_iid ack) inst1 = Ok l3"
        "l1 = (if b \<and> li_iid inst1 > l_highest_iid_closed l3 then l3\<lparr>l_highest_iid_closed := li_iid inst1\<rparr> else l3)"
      by (auto simp: res_simps)
    from learner_update_instance_m_ok [OF okl p(1)] obtain h1 where
      h1: "learner_update_instance_m l ack h = Ok h1" "lmem_ok h1 l" "learner_at h1 l = l2" by blast
    from get_and_test [OF h1(2) p(2,3) [folded h1(3)]] obtain a k h2 x2 where
      k: "a = slots l ! k" "carray_slot (ml_instances l) (sint (aa_iid ack)) = Ok k" "k < length (slots l)" and
      q: "learner_get_instance_m l (aa_iid ack) h1 = Ok a" "instance_has_quorum_m l a h1 = Ok (b, h2)"
        "changed (ml_acceptors l) (slots l) h1 a h2 x2" "linst_of h2 x2 = inst1" "load_inst h2 a = Ok x2" by blast
    from changed_learner [OF h1(2) k(2,3) q(3) [unfolded k(1)]] p(4) q(4) h1(3)
    have "lmem_ok h2 l" "l3 = learner_at h2 l" by simp_all
    with False heap h1(1) q p(5) show ?thesis by auto
  qed
qed

section \<open>Creation and destruction\<close>

lemma instance_init_m_ok:
  assumes "lheap_ok n h is" "instance_init_m n h = (a, h1)"
  shows "lheap_ok n h1 (is @ [a])" "linst_at h1 = (linst_at h)(a := instance_new n)" "a \<notin> set is"
proof -
  let ?x = "\<lparr>mli_iid = 0, mli_last_update_ballot = 0, mli_acks = replicate n None, mli_final_value = None\<rparr>"
  note D = lheap_okD [OF assms(1)]
  have a: "a = lh_brk h" and h1: "h1 = h\<lparr>lh_instances := (lh_instances h)(lh_brk h \<mapsto> ?x), lh_brk := Suc (lh_brk h)\<rparr>"
    using assms(2) by (auto simp: instance_init_m_def malloc_inst_def)
  have "owns2 acks_of (lh_acks h) ((lh_instances h)(a \<mapsto> ?x)) [] (a # is)"
    by (rule owns2_new_parent [OF D(1)]) (use D(5) a in \<open>simp_all add: acks_of_def\<close>)
  then have "owns2 acks_of (lh_acks h1) (lh_instances h1) [] (is @ [a])"
    by (subst owns2_perm [of "[]" "[]" _ "a # is"]) (simp_all add: h1 a)
  then show "lheap_ok n h1 (is @ [a])"
    using assms(1) by (auto simp: lheap_ok_def h1 ran_def final_aliased_def intro: less_SucI)
  have acks: "ack_at h1 = ack_at h" by (simp add: fun_eq_iff ack_at_def h1)
  have inst: "lh_instances h1 = (lh_instances h)(a \<mapsto> ?x)" by (simp add: h1 a)
  show "linst_at h1 = (linst_at h)(a := instance_new n)"
    by (simp add: fun_eq_iff linst_at_def linst_of_def instance_new_def acks inst)
  show "a \<notin> set is" using D(3,5) a by simp
qed

text \<open>The buffer after the elements \<open>xs\<close> were pushed to a new one.\<close>

definition ring_of :: "nat \<Rightarrow> 'a list \<Rightarrow> 'a carray" where
  "ring_of w xs = \<lparr>ca_head = 0, ca_tail = length xs mod w, ca_size = w, ca_count = length xs,
     ca_array = map Some xs @ replicate (w - length xs) None\<rparr>"

lemma ring_of_push:
  assumes "length xs < w"
  shows "carray_push_back (ring_of w xs) x = Ok (ring_of w (xs @ [x]))"
proof -
  obtain k where "w - length xs = Suc k" "w - Suc (length xs) = k" using assms by (metis Suc_diff_Suc)
  then have "(map Some xs @ replicate (w - length xs) None)[length xs := Some x] =
      map Some (xs @ [x]) @ replicate (w - length (xs @ [x])) None" by (simp add: list_update_append)
  then show ?thesis using assms
    by (simp add: carray_push_back_def numeral_2_eq_2 ring_of_def carray_full_def carray_put_def)
qed

lemma ring_of_size [simp]: "ca_size (ring_of w xs) = w"
  by (simp add: ring_of_def)

lemma ring_of_new: "carray_new w = ring_of w []"
  by (simp add: carray_new_def ring_of_def)

lemma ring_of_full:
  assumes "0 < w" "length xs = w"
  shows "ring_ok (ring_of w xs)" "clist (ring_of w xs) = xs"
proof -
  show "clist (ring_of w xs) = xs" using assms(2) by (intro nth_equalityI) (simp_all add: clist_def ring_of_def)
  show "ring_ok (ring_of w xs)" using assms by (simp add: ring_ok_def carray_inv_def ring_of_def)
qed

lemma map_ring_of: "map_carray f (ring_of w xs) = ring_of w (map f xs)"
  by (simp add: map_carray_def ring_of_def comp_def)

lemma initialize_instances_pure: "initialize_instances n w = Ok (ring_of w (replicate w (instance_new n)))"
proof -
  let ?body = "\<lambda>i c. carray_push_back c (instance_new n)"
  have "\<exists>c. for_loop [0..<w] ?body (ring_of w []) = Ok c \<and> c = ring_of w (replicate w (instance_new n))"
    by (rule for_loop_upto_inv [where I = "\<lambda>i c. c = ring_of w (replicate i (instance_new n))"])
      (simp_all add: ring_of_push replicate_append_same)
  then show ?thesis by (simp add: initialize_instances_def carray_size_def ring_of_new)
qed

lemma initialize_instances_m_ok:
  assumes "lheap_ok n h []"
  shows "\<exists>as h1. initialize_instances_m n w h = Ok (ring_of w as, h1) \<and> length as = w \<and> lheap_ok n h1 as \<and>
    map (linst_at h1) as = replicate w (instance_new n)"
proof -
  let ?body = "\<lambda>i (c, h). case instance_init_m n h of (a, h1) \<Rightarrow> rbind (carray_push_back c a) (\<lambda>c1. Ok (c1, h1))"
  let ?I = "\<lambda>i t. \<exists>as h1. t = (ring_of w as, h1) \<and> length as = i \<and> lheap_ok n h1 as \<and>
    map (linst_at h1) as = replicate i (instance_new n)"
  have step: "\<exists>t1. ?body i t = Ok t1 \<and> ?I (Suc i) t1" if i: "i < w" "?I i t" for i t
  proof -
    from i(2) obtain as h1 where t: "t = (ring_of w as, h1)" "length as = i" "lheap_ok n h1 as"
      "map (linst_at h1) as = replicate i (instance_new n)" by blast
    obtain a h2 where a: "instance_init_m n h1 = (a, h2)" by (cases "instance_init_m n h1")
    note new = instance_init_m_ok [OF t(3) a]
    have "map (linst_at h2) (as @ [a]) = replicate (Suc i) (instance_new n)"
      using t(4) new(2,3) by (simp add: replicate_append_same)
    then show ?thesis using i(1) t(1,2) a new(1) ring_of_push [of as w a] by (intro exI [of _ "(ring_of w (as @ [a]), h2)"]) auto
  qed
  have "\<exists>t. for_loop [0..<w] ?body (ring_of w [], h) = Ok t \<and> ?I w t"
    by (rule for_loop_upto_inv) (use assms step in auto)
  then show ?thesis by (auto simp: initialize_instances_m_def carray_size_def ring_of_new)
qed

lemma learner_new_m_ok:
  assumes w: "0 < learner_instances cfg"
  shows "\<exists>h l. learner_new_m cfg n lheap_new = Ok (h, l) \<and> lmem_ok h l \<and> learner_new cfg n = Ok (learner_at h l)"
proof -
  have "lheap_ok n lheap_new []" by (simp add: lheap_ok_def lheap_new_def owns2_empty)
  from initialize_instances_m_ok [OF this, of "learner_instances cfg"] obtain as h where
    as: "initialize_instances_m n (learner_instances cfg) lheap_new = Ok (ring_of (learner_instances cfg) as, h)"
      "length as = learner_instances cfg" "lheap_ok n h as" "map (linst_at h) as = replicate (learner_instances cfg) (instance_new n)" by blast
  with ring_of_full [OF w as(2)] show ?thesis
    by (simp add: learner_new_m_def learner_new_def initialize_instances_pure lmem_ok_def slots_def learner_at_def map_ring_of)
qed

lemma instance_destroy_m_ok:
  assumes ok: "lheap_ok n h (a # is)"
  shows "\<exists>h1. instance_destroy_m n a h = Ok h1 \<and> lheap_ok n h1 is"
proof -
  from instance_clear_m_ok [OF ok, of a] obtain h1 x where
    h1: "instance_clear_m a n h = Ok h1" "lheap_ok n h1 (a # is)" "lh_instances h1 a = Some x" "acks_of x = []"
    by (auto simp: changed_def acks_of_def)
  let ?h = "h1\<lparr>lh_instances := (lh_instances h1)(a := None)\<rparr>"
  have "lh_acks h1 |` (- set (held_by acks_of (lh_instances h1) a)) = lh_acks h1" using h1(3,4) by (simp add: restrict_map_def)
  with owns2_free_parent [OF lheap_okD(1) [OF h1(2)]] have "owns2 acks_of (lh_acks ?h) (lh_instances ?h) [] is" by simp
  moreover have "ran (lh_instances ?h) \<subseteq> ran (lh_instances h1)" by (auto simp: ran_def split: if_splits)
  ultimately have "lheap_ok n ?h is" using h1(2) by (auto simp: lheap_ok_def)
  with h1(1,3) show ?thesis by (simp add: instance_destroy_m_def free_inst_def)
qed

lemma learner_free_ok:
  assumes "lmem_ok h l"
  shows "\<exists>h1. learner_free l h = Ok h1 \<and> lh_acks h1 = Map.empty \<and> lh_instances h1 = Map.empty"
proof -
  let ?c = "ml_instances l" and ?n = "ml_acceptors l"
  from assms have inv: "carray_inv ?c" and ok: "lheap_ok ?n h (clist ?c)" by (simp_all add: lmem_ok_def ring_ok_def slots_def)
  let ?body = "\<lambda>i h. rbind (carray_item ?c (int i)) (\<lambda>a. instance_destroy_m ?n a h)"
  have step: "\<exists>t1. ?body i t = Ok t1 \<and> lheap_ok ?n t1 (drop (Suc i) (clist ?c))"
    if "i < ca_count ?c" "lheap_ok ?n t (drop i (clist ?c))" for i t
    using instance_destroy_m_ok [of ?n t "clist ?c ! i" "drop (Suc i) (clist ?c)"] that
    by (simp add: carray_item_ok [OF inv] Cons_nth_drop_Suc)
  have "\<exists>t. for_loop [0..<ca_count ?c] ?body h = Ok t \<and> lheap_ok ?n t (drop (ca_count ?c) (clist ?c))"
    by (rule for_loop_upto_inv) (use step ok in simp_all)
  then show ?thesis by (auto simp: learner_free_def carray_count_def lheap_ok_def owns2_empty)
qed

section \<open>Runs\<close>

fun learner_run_m :: "lheap \<times> m_learner \<Rightarrow> learner_event list \<Rightarrow> (accept_ack list \<times> lheap \<times> m_learner) res" where
  "learner_run_m x [] = Ok ([], x)"
| "learner_run_m x (LReceive ack # es) = rbind (learner_receive_accept_m ack x) (\<lambda>y. learner_run_m y es)"
| "learner_run_m x (LDeliver # es) =
     rbind (learner_deliver_next_m x) (\<lambda>(r, y).
     rbind (learner_run_m y es) (\<lambda>(ds, z). Ok (case r of None \<Rightarrow> ds | Some d \<Rightarrow> d # ds, z)))"

lemma learner_run_m_ok:
  assumes "lmem_ok h l" "learner_run (learner_at h l) es = Ok (ds, l1)"
  shows "\<exists>h1 ml. learner_run_m (h, l) es = Ok (ds, h1, ml) \<and> lmem_ok h1 ml \<and> learner_at h1 ml = l1"
  using assms
proof (induction es arbitrary: h l ds)
  case (Cons e es)
  show ?case
  proof (cases e)
    case (LReceive ack)
    with Cons.prems(2) obtain k where k: "learner_receive_accept (learner_at h l) ack = Ok k" "learner_run k es = Ok (ds, l1)"
      by (auto simp: res_simps)
    from learner_receive_accept_m_ok [OF Cons.prems(1) k(1)] Cons.IH k(2) LReceive show ?thesis by fastforce
  next
    case LDeliver
    with Cons.prems(2) obtain r k ds1 where k: "learner_deliver_next (learner_at h l) = Ok (r, k)" "learner_run k es = Ok (ds1, l1)"
      "ds = (case r of None \<Rightarrow> ds1 | Some d \<Rightarrow> d # ds1)" by (auto simp: res_simps)
    from learner_deliver_next_m_ok [OF Cons.prems(1) k(1)] Cons.IH k(2,3) LDeliver show ?thesis by fastforce
  qed
qed simp

end
