(* ===== verification/Libevent.thy ===== *)
theory Libevent
  imports Tcp_Sendbuf Proposer
begin

text \<open>
  The part of libevent the network code calls, as a parameter: a record of functions over the
  state \<open>'w\<close> of the library (its connections, their buffers and the timers). A connection
  (\<open>struct bufferevent\<close>) is a number. Which function runs on which event is fixed when a
  connection is made, so the callbacks are the functions of the theories that follow and not
  part of the state. The locale \<open>evbuffers\<close> states the documented behaviour of the buffers.

  The second part is what the three processes do with the bytes of a connection: the loop that
  waits for a complete message, and the removal of one message.
\<close>

type_synonym bev = nat

record sockaddr_in =
  sin_addr :: "string option"   \<comment> \<open>\<open>None\<close> for \<open>INADDR_ANY\<close>\<close>
  sin_port :: "16 word"

record 'w libevent =
  evbuffer_get_length :: "'w \<Rightarrow> bev \<Rightarrow> nat"
  evbuffer_copyout :: "'w \<Rightarrow> bev \<Rightarrow> nat \<Rightarrow> byte list"
  evbuffer_remove :: "'w \<Rightarrow> bev \<Rightarrow> nat \<Rightarrow> byte list \<times> 'w"
  evbuffer_drain :: "'w \<Rightarrow> bev \<Rightarrow> nat \<Rightarrow> 'w"
  bufferevent_write :: "'w \<Rightarrow> bev \<Rightarrow> byte list \<Rightarrow> 'w"
  bufferevent_socket_new :: "'w \<Rightarrow> int \<Rightarrow> bev \<times> 'w"
  bufferevent_free :: "'w \<Rightarrow> bev \<Rightarrow> 'w"
  bufferevent_enable :: "'w \<Rightarrow> bev \<Rightarrow> 'w"
  bufferevent_socket_connect :: "'w \<Rightarrow> bev \<Rightarrow> sockaddr_in \<Rightarrow> 'w"
  event_add :: "'w \<Rightarrow> nat \<Rightarrow> timeval \<Rightarrow> 'w"
  evtimer_new :: "'w \<Rightarrow> nat \<times> 'w"
  evconnlistener_new_bind :: "'w \<Rightarrow> sockaddr_in \<Rightarrow> bool \<times> 'w"
  event_base_loopexit :: "'w \<Rightarrow> 'w"
  event_free :: "'w \<Rightarrow> nat \<Rightarrow> 'w"
  evconnlistener_free :: "'w \<Rightarrow> 'w"

definition BEV_EVENT_EOF :: "16 word" where "BEV_EVENT_EOF = 0x10"
definition BEV_EVENT_ERROR :: "16 word" where "BEV_EVENT_ERROR = 0x20"
definition BEV_EVENT_CONNECTED :: "16 word" where "BEV_EVENT_CONNECTED = 0x80"

text \<open>
  \<open>inp\<close> is what was received on a connection and not read yet, \<open>outp\<close> what was written to it
  so far.
\<close>

locale evbuffers =
  fixes ev :: "'w libevent"
    and inp :: "'w \<Rightarrow> bev \<Rightarrow> byte list"
    and outp :: "'w \<Rightarrow> bev \<Rightarrow> byte list"
  assumes get_length: "evbuffer_get_length ev w b = length (inp w b)"
    and copyout: "evbuffer_copyout ev w b n = take n (inp w b)"
    and remove: "evbuffer_remove ev w b n = (bs, w1) \<Longrightarrow>
      bs = take n (inp w b) \<and> inp w1 = (inp w)(b := drop n (inp w b)) \<and> outp w1 = outp w"
    and drain: "evbuffer_drain ev w b n = w1 \<Longrightarrow>
      inp w1 = (inp w)(b := drop n (inp w b)) \<and> outp w1 = outp w"
    and bev_write: "bufferevent_write ev w b bs = w1 \<Longrightarrow>
      inp w1 = inp w \<and> outp w1 = (outp w)(b := outp w b @ bs)"

text \<open>
  Setting a timer, making a connection, starting it and leaving the loop touch no buffer. Freeing
  a connection drops what was not read.
\<close>

locale evloop = evbuffers +
  assumes event_add_buffers: "inp (event_add ev w t tv) = inp w \<and> outp (event_add ev w t tv) = outp w"
    and socket_new_buffers: "bufferevent_socket_new ev w fd = (b, w1) \<Longrightarrow> inp w1 = inp w \<and> outp w1 = outp w"
    and enable_buffers: "inp (bufferevent_enable ev w b) = inp w \<and> outp (bufferevent_enable ev w b) = outp w"
    and connect_buffers: "inp (bufferevent_socket_connect ev w b a) = inp w \<and>
      outp (bufferevent_socket_connect ev w b a) = outp w"
    and loopexit_buffers: "inp (event_base_loopexit ev w) = inp w \<and> outp (event_base_loopexit ev w) = outp w"
    and free_buffers: "inp (bufferevent_free ev w b) = (inp w)(b := []) \<and> outp (bufferevent_free ev w b) = outp w"

section \<open>Reading messages\<close>

text \<open>
  The loop of \<open>on_read\<close>, \<open>handle_request\<close> and \<open>on_acceptor_msg\<close>. The callback is told how many
  calls came before it. \<open>None\<close> stands for a loop that does not end. The sum of the sizes wraps
  around in \<open>size_t\<close>.
\<close>

partial_function (option) read_loop ::
  "'w libevent \<Rightarrow> (nat \<Rightarrow> bev \<Rightarrow> 'w \<times> 'st \<Rightarrow> ('w \<times> 'st) res) \<Rightarrow> nat \<Rightarrow> bev \<Rightarrow> 'w \<times> 'st \<Rightarrow>
   ('w \<times> 'st) res option" where
  "read_loop ev cb k b x =
     (if evbuffer_get_length ev (fst x) b > sizeof_paxos_msg then
        if of_nat (evbuffer_get_length ev (fst x) b) <
             fst (read_header (evbuffer_copyout ev (fst x) b sizeof_paxos_msg)) + of_nat sizeof_paxos_msg
        then Some (Ok x)
        else (case cb k b x of
                Inl e \<Rightarrow> Some (Err e)
              | Inr y \<Rightarrow> read_loop ev cb (Suc k) b y)
      else Some (Ok x))"

declare read_loop.simps [code]

text \<open>The condition under which the loop goes on: more than a header, and the message is complete.\<close>

definition msg_ready :: "'w libevent \<Rightarrow> 'w \<Rightarrow> bev \<Rightarrow> bool" where
  "msg_ready ev w b \<longleftrightarrow> sizeof_paxos_msg < evbuffer_get_length ev w b \<and>
     \<not> (of_nat (evbuffer_get_length ev w b) :: size_t) <
         fst (read_header (evbuffer_copyout ev w b sizeof_paxos_msg)) + of_nat sizeof_paxos_msg"

lemma read_loop_unfold:
  "read_loop ev cb k b x =
     (if msg_ready ev (fst x) b then
        (case cb k b x of Inl e \<Rightarrow> Some (Err e) | Inr y \<Rightarrow> read_loop ev cb (Suc k) b y)
      else Some (Ok x))"
  by (subst read_loop.simps) (simp add: msg_ready_def)

lemmas read_loop_induct =
  read_loop.raw_induct [where xa = "((((ev, cb), k), b), x)" for ev cb k b x, unfolded prod.case, rotated, consumes 1]

text \<open>What every call of the callback keeps, the loop keeps; when it returns, no message is complete.\<close>

lemma read_loop_inv:
  assumes "read_loop ev cb k b x = Some r" "r = Ok y"
    and "\<And>k x y. msg_ready ev (fst x) b \<Longrightarrow> cb k b x = Ok y \<Longrightarrow> P x \<Longrightarrow> P y" "P x"
  shows "P y \<and> \<not> msg_ready ev (fst y) b"
  using assms
proof (induction rule: read_loop_induct)
  case (1 loop ev cb k b x r)
  show ?case
  proof (cases "msg_ready ev (fst x) b")
    case True
    with 1(2,3) obtain z where z: "cb k b x = Ok z" "loop ev cb (Suc k) b z = Some (Ok y)"
      by (auto simp: msg_ready_def split: sum.splits)
    from 1(1) [OF z(2) refl 1(4) 1(4) [OF True z(1) 1(5)]] show ?thesis by simp
  next
    case False
    with 1(2,3,5) show ?thesis by (auto simp: msg_ready_def split: if_splits)
  qed
qed

text \<open>
  The removal of a message: its code, its size and its bytes, or nothing when it is larger than
  \<open>PAXOS_MAX_VALUE_SIZE\<close> and discarded.
\<close>

definition remove_msg ::
  "'w libevent \<Rightarrow> bev \<Rightarrow> 'w \<Rightarrow> (paxos_msg_code option \<times> size_t \<times> byte list) option \<times> 'w" where
  "remove_msg ev b w =
     (case evbuffer_remove ev w b sizeof_paxos_msg of (hd_bytes, w1) \<Rightarrow>
      case read_header hd_bytes of (data_size, code) \<Rightarrow>
      if data_size > of_nat PAXOS_MAX_VALUE_SIZE then (None, evbuffer_drain ev w1 b (unat data_size))
      else case evbuffer_remove ev w1 b (unat data_size) of (body, w2) \<Rightarrow> (Some (code, data_size, body), w2))"

lemma max_size_word: "of_nat PAXOS_MAX_VALUE_SIZE = (256000 :: size_t)"
  by (simp add: PAXOS_MAX_VALUE_SIZE_def)

lemma remove_msg_code [code]:
  "remove_msg ev b w =
     (case evbuffer_remove ev w b sizeof_paxos_msg of (hd_bytes, w1) \<Rightarrow>
      case read_header hd_bytes of (data_size, code) \<Rightarrow>
      if data_size > 256000 then (None, evbuffer_drain ev w1 b (unat data_size))
      else case evbuffer_remove ev w1 b (unat data_size) of (body, w2) \<Rightarrow> (Some (code, data_size, body), w2))"
  by (simp add: remove_msg_def max_size_word)

text \<open>The bytes of a message with the given code.\<close>

definition frame :: "paxos_msg_code \<Rightarrow> byte list \<Rightarrow> byte list" where
  "frame c body = add_paxos_header c (of_nat (length body)) @ body"

definition body_ok :: "byte list \<Rightarrow> bool" where
  "body_ok body \<longleftrightarrow> body \<noteq> [] \<and> length body \<le> PAXOS_MAX_VALUE_SIZE"

lemma body_size:
  assumes "body_ok body"
  shows "unat (of_nat (length body) :: size_t) = length body"
    "\<not> (of_nat (length body) :: size_t) > of_nat PAXOS_MAX_VALUE_SIZE"
proof -
  have "length body < 2 ^ 64" "length body \<le> 256000"
    using assms by (simp_all add: body_ok_def PAXOS_MAX_VALUE_SIZE_def)
  then show 1: "unat (of_nat (length body) :: size_t) = length body"
    by (simp add: unat_of_nat)
  then show "\<not> (of_nat (length body) :: size_t) > of_nat PAXOS_MAX_VALUE_SIZE"
    using \<open>length body \<le> 256000\<close> by (simp add: word_less_nat_alt PAXOS_MAX_VALUE_SIZE_def)
qed

text \<open>
  Writing messages to a list of connections: each connection gets every message, in order, as
  often as it is in the list.
\<close>

definition written :: "('w \<Rightarrow> bev \<Rightarrow> byte list) \<Rightarrow> bev list \<Rightarrow> byte list list \<Rightarrow> 'w \<Rightarrow> 'w \<Rightarrow> bool" where
  "written outp bs msgs w w1 \<longleftrightarrow>
     (\<forall>b. outp w1 b = outp w b @ concat (map (\<lambda>m. concat (replicate (count_list bs b) m)) msgs))"

abbreviation "appended outp bs bytes \<equiv> written outp bs [bytes]"

lemma written_Nil: "written outp bs [] w w1 \<longleftrightarrow> outp w1 = outp w"
  by (auto simp: written_def)

lemma written_append:
  "written outp bs ms w v \<Longrightarrow> written outp bs ns v w1 \<Longrightarrow> written outp bs (ms @ ns) w w1"
  by (simp add: written_def)

context evbuffers
begin

definition sent_to :: "bev list \<Rightarrow> byte list \<Rightarrow> 'w \<Rightarrow> 'w \<Rightarrow> bool" where
  "sent_to bs bytes w w1 \<longleftrightarrow> inp w1 = inp w \<and> appended outp bs bytes w w1"

lemma sent_to_single: "sent_to [b] bytes w (bufferevent_write ev w b bytes)"
  using bev_write [OF refl, of w b bytes] by (simp add: sent_to_def written_def)

lemma write_all:
  assumes "\<And>i w. i < length bs \<Longrightarrow> body i w = Ok (bufferevent_write ev w (bs ! i) bytes)"
  shows "\<exists>w1. for_loop [0..<length bs] body w = Ok w1 \<and> sent_to bs bytes w w1"
proof -
  have "\<exists>w1. for_loop [0..<k] body w = Ok w1 \<and> sent_to (take k bs) bytes w w1" if "k \<le> length bs" for k
    using that
  proof (induction k)
    case (Suc k)
    then obtain w1 where 1: "for_loop [0..<k] body w = Ok w1" "sent_to (take k bs) bytes w w1" by auto
    have 2: "body k w1 = Ok (bufferevent_write ev w1 (bs ! k) bytes)" using Suc.prems assms by simp
    have 3: "take (Suc k) bs = take k bs @ [bs ! k]" using Suc.prems by (simp add: take_Suc_conv_app_nth)
    have "sent_to (take (Suc k) bs) bytes w (bufferevent_write ev w1 (bs ! k) bytes)"
      using 1(2) bev_write [OF refl, of w1 "bs ! k" bytes]
      by (simp add: sent_to_def written_def 3 replicate_append_same [symmetric])
    with 1(1) 2 show ?case by (simp add: for_loop_append)
  qed (simp add: sent_to_def written_def)
  from this [of "length bs"] show ?thesis by simp
qed

text \<open>A message is removed exactly as it was sent, and only it.\<close>

lemma remove_frame:
  assumes "inp w b = frame c body @ rest" "body_ok body"
  shows "\<exists>w1. remove_msg ev b w = (Some (Some c, of_nat (length body), body), w1) \<and>
    inp w1 = (inp w)(b := rest) \<and> outp w1 = outp w"
proof -
  obtain hb w1 where r1: "evbuffer_remove ev w b sizeof_paxos_msg = (hb, w1)" by force
  note R1 = remove [OF r1]
  have hb: "hb = add_paxos_header c (of_nat (length body))" "inp w1 b = body @ rest"
    using R1 assms(1) by (simp_all add: frame_def)
  have hdr: "read_header hb = (of_nat (length body), Some c)"
    using read_header_add [of c "of_nat (length body)" "[]"] hb(1) by simp
  obtain bs w2 where r2: "evbuffer_remove ev w1 b (length body) = (bs, w2)" by force
  note R2 = remove [OF r2]
  have "remove_msg ev b w = (Some (Some c, of_nat (length body), bs), w2)"
    unfolding remove_msg_def r1 hdr prod.case body_size(1) [OF assms(2)] r2
    using body_size(2) [OF assms(2)] by simp
  moreover have "bs = body" "inp w2 b = rest" using R2 hb(2) by simp_all
  moreover have "inp w2 = (inp w)(b := inp w2 b)" using R1 R2 by (simp add: fun_eq_iff)
  ultimately show ?thesis using R1 R2 by auto
qed

text \<open>A message that is too large is skipped as a whole.\<close>

lemma remove_large:
  assumes "inp w b = frame c body @ rest" "PAXOS_MAX_VALUE_SIZE < length body" "length body < 2 ^ 64"
  shows "\<exists>w1. remove_msg ev b w = (None, w1) \<and> inp w1 = (inp w)(b := rest) \<and> outp w1 = outp w"
proof -
  obtain hb w1 where r1: "evbuffer_remove ev w b sizeof_paxos_msg = (hb, w1)" by force
  note R1 = remove [OF r1]
  have hb: "hb = add_paxos_header c (of_nat (length body))" "inp w1 b = body @ rest"
    using R1 assms(1) by (simp_all add: frame_def)
  have hdr: "read_header hb = (of_nat (length body), Some c)"
    using read_header_add [of c "of_nat (length body)" "[]"] hb(1) by simp
  have len: "unat (of_nat (length body) :: size_t) = length body"
    using assms(3) by (simp add: unat_of_nat)
  then have large: "(of_nat (length body) :: size_t) > of_nat PAXOS_MAX_VALUE_SIZE"
    using assms(2) by (simp add: word_less_nat_alt PAXOS_MAX_VALUE_SIZE_def)
  note R2 = drain [OF refl, of w1 b "length body"]
  have "remove_msg ev b w = (None, evbuffer_drain ev w1 b (length body))"
    unfolding remove_msg_def r1 hdr prod.case len using large by simp
  moreover have "inp (evbuffer_drain ev w1 b (length body)) = (inp w)(b := rest)"
  proof -
    have "inp (evbuffer_drain ev w1 b (length body)) b = rest" using R2 hb(2) by simp
    moreover have "inp (evbuffer_drain ev w1 b (length body)) = (inp w)(b := inp (evbuffer_drain ev w1 b (length body)) b)"
      using R1 R2 by (simp add: fun_eq_iff)
    ultimately show ?thesis by simp
  qed
  ultimately show ?thesis using R1 R2 by auto
qed

text \<open>
  When the loop goes on and what was and will be received starts with a message, the input holds
  the whole message.
\<close>

lemma ready_frame:
  assumes ready: "msg_ready ev w b" and str: "inp w b @ rest = frame c body @ others"
    and len: "length (inp w b) < 2 ^ 64" "length body + 12 < 2 ^ 64"
  shows "\<exists>tail. inp w b = frame c body @ tail \<and> tail @ rest = others"
proof -
  have long: "12 < length (inp w b)" using ready by (simp add: msg_ready_def get_length sizeof_defs)
  have hd12: "take 12 (inp w b) = add_paxos_header c (of_nat (length body))"
  proof -
    have "take 12 (inp w b) = take 12 (inp w b @ rest)" using long by simp
    also have "\<dots> = add_paxos_header c (of_nat (length body))" by (simp add: str frame_def sizeof_defs)
    finally show ?thesis .
  qed
  have hdr: "read_header (take 12 (inp w b)) = (of_nat (length body), Some c)"
    using read_header_add [of c "of_nat (length body)" "[]"] hd12 by simp
  have "(of_nat (length body) + of_nat sizeof_paxos_msg :: size_t) = of_nat (length body + 12)"
    by (simp add: sizeof_defs)
  moreover have "unat (of_nat (length body + 12) :: size_t) = length body + 12"
    "unat (of_nat (length (inp w b)) :: size_t) = length (inp w b)"
    using len by (simp_all add: unsigned_of_nat take_bit_nat_eq_self del: of_nat_add)
  ultimately have "length (frame c body) \<le> length (inp w b)"
    using ready hdr by (simp add: msg_ready_def get_length copyout word_less_nat_alt sizeof_defs frame_def)
  then have "inp w b = frame c body @ drop (length (frame c body)) (inp w b)"
    using str by (metis append_eq_append_conv_if append_take_drop_id)
  with str show ?thesis by (metis append.assoc same_append_eq)
qed

text \<open>Every removal makes the input shorter by a header at least.\<close>

lemma remove_shorter:
  assumes "remove_msg ev b w = (r, w1)" "sizeof_paxos_msg < length (inp w b)"
  shows "length (inp w1 b) < length (inp w b) \<and> outp w1 = outp w"
proof -
  obtain hb w2 where r1: "evbuffer_remove ev w b sizeof_paxos_msg = (hb, w2)" by force
  obtain n c where h: "read_header hb = (n, c)" by force
  obtain bs w3 where r2: "evbuffer_remove ev w2 b (unat n) = (bs, w3)" by force
  have "w1 = evbuffer_drain ev w2 b (unat n) \<or> w1 = w3"
    using assms(1) by (auto simp: remove_msg_def r1 h r2 split: if_splits)
  then have "inp w1 b = drop (unat n) (inp w2 b) \<and> outp w1 = outp w2"
    using remove [OF r2] drain [OF refl, of w2 b "unat n"] by auto
  with remove [OF r1] assms(2) show ?thesis by (simp add: sizeof_defs)
qed

text \<open>The loop ends when every call of the callback reads something.\<close>

lemma read_loop_returns:
  assumes "\<And>k x y. cb k b x = Ok y \<Longrightarrow> sizeof_paxos_msg < length (inp (fst x) b) \<Longrightarrow>
    length (inp (fst y) b) < length (inp (fst x) b)"
  shows "\<exists>r. read_loop ev cb k b x = Some r"
proof (induction "length (inp (fst x) b)" arbitrary: x k rule: less_induct)
  case less
  show ?case
  proof (cases "sizeof_paxos_msg < length (inp (fst x) b)")
    case True
    with less assms show ?thesis
      by (subst read_loop.simps) (auto simp: get_length split: sum.splits)
  qed (subst read_loop.simps, simp add: get_length)
qed

text \<open>A complete message in front passes the two tests of the loop.\<close>

lemma frame_ready:
  assumes "inp w b = frame c body @ rest" "body_ok body" "length (inp w b) < 2 ^ 64"
  shows "sizeof_paxos_msg < evbuffer_get_length ev w b" (is ?long)
    and "\<not> (of_nat (evbuffer_get_length ev w b) :: size_t) <
      fst (read_header (evbuffer_copyout ev w b sizeof_paxos_msg)) + of_nat sizeof_paxos_msg" (is ?all)
proof -
  have len: "length (inp w b) = 12 + length body + length rest"
    using assms(1) by (simp add: frame_def sizeof_defs)
  show ?long using assms(2) len by (cases body) (simp_all add: get_length sizeof_defs body_ok_def)
  have hdr: "read_header (take sizeof_paxos_msg (inp w b)) = (of_nat (length body), Some c)"
    using read_header_add [of c "of_nat (length body)" "[]"] assms(1) by (simp add: frame_def)
  have "(of_nat (length body) + of_nat sizeof_paxos_msg :: size_t) = of_nat (length body + 12)"
    by (simp add: sizeof_defs)
  moreover have "unat (of_nat (length body + 12) :: size_t) = length body + 12"
    "unat (of_nat (length (inp w b)) :: size_t) = length (inp w b)"
    using assms(3) len by (simp_all add: unsigned_of_nat take_bit_nat_eq_self del: of_nat_add)
  ultimately show ?all using len hdr by (simp add: get_length copyout word_less_nat_alt)
qed

text \<open>
  A complete message in front calls the callback once. A message with an empty body waits for
  more bytes: the loop asks for more than a header.
\<close>

lemma read_loop_frame:
  assumes "inp (fst x) b = frame c body @ rest" "body_ok body" "length (inp (fst x) b) < 2 ^ 64"
  shows "read_loop ev cb k b x =
    (case cb k b x of Inl e \<Rightarrow> Some (Err e) | Inr y \<Rightarrow> read_loop ev cb (Suc k) b y)"
  using frame_ready [OF assms] by (subst read_loop.simps) simp

end

end
