(* ===== verification/Config_Reader.thy ===== *)
theory Config_Reader
  imports Paxos "HOL-Library.Char_ord"
begin

text \<open>
  \<open>evpaxos/config_reader.c\<close>: the parser of the configuration file. C strings are lists of
  characters without the terminating NUL; \<open>None\<close> is a NULL pointer. The functions of the C
  library that the parser calls (\<open>isspace\<close>, \<open>strcasecmp\<close>, \<open>strtol\<close>, \<open>strsep\<close>,
  \<open>sscanf\<close> with the one format used, \<open>fgets\<close>) are written out.
\<close>

section \<open>The C library\<close>

definition isspace :: "char \<Rightarrow> bool" where
  "isspace c \<longleftrightarrow> (of_char c = (32::nat) \<or> (9 \<le> (of_char c :: nat) \<and> (of_char c :: nat) \<le> 13))"

definition isdigit :: "char \<Rightarrow> bool" where
  "isdigit c \<longleftrightarrow> 48 \<le> (of_char c :: nat) \<and> (of_char c :: nat) \<le> 57"

definition tolower :: "char \<Rightarrow> char" where
  "tolower c = (if 65 \<le> (of_char c :: nat) \<and> (of_char c :: nat) \<le> 90
     then char_of ((of_char c :: nat) + 32) else c)"

definition strcaseeq :: "string \<Rightarrow> string \<Rightarrow> bool" where
  "strcaseeq a b \<longleftrightarrow> map tolower a = map tolower b"

fun digits_val :: "int \<Rightarrow> string \<Rightarrow> int" where
  "digits_val acc [] = acc"
| "digits_val acc (c # cs) = digits_val (10 * acc + (int (of_char c) - 48)) cs"

text \<open>
  \<open>strtol\<close> in base 10 on an LP64 machine: the value, clamped to 64 bits, and the rest of the
  string; \<open>None\<close> when there is no number (the end pointer is then the start).
\<close>

definition clamp64 :: "int \<Rightarrow> int" where
  "clamp64 n = max (- (2 ^ 63)) (min (2 ^ 63 - 1) n)"

definition strtol :: "string \<Rightarrow> (int \<times> string) option" where
  "strtol str =
     (let s = dropWhile isspace str;
          neg = (s \<noteq> [] \<and> hd s = CHR ''-'');
          t = (if s \<noteq> [] \<and> (hd s = CHR ''-'' \<or> hd s = CHR ''+'') then tl s else s);
          ds = takeWhile isdigit t
      in if ds = [] then None
         else Some (clamp64 (if neg then - digits_val 0 ds else digits_val 0 ds),
                    dropWhile isdigit t))"

text \<open>The conversion of a \<open>long\<close> to \<open>int\<close>.\<close>

definition to_int :: "int \<Rightarrow> int" where
  "to_int n = sint (word_of_int n :: 32 word)"

text \<open>\<open>strsep\<close> with the separator blank: the token, and what follows the first blank.\<close>

definition strsep :: "string \<Rightarrow> string \<times> string option" where
  "strsep s =
     (let tok = takeWhile (\<lambda>c. c \<noteq> CHR '' '') s; rest = dropWhile (\<lambda>c. c \<noteq> CHR '' '') s
      in (tok, if rest = [] then None else Some (tl rest)))"

text \<open>
  \<open>sscanf\<close> with \<open>"%d %s %d"\<close> into an \<open>int\<close>, an array of 128 bytes and an \<open>int\<close>: the three values
  when all conversions succeed. The array is not protected: a word of 128 characters or more
  overflows it.
\<close>

definition sscanf_dsd :: "string \<Rightarrow> (int \<times> string \<times> int) option res" where
  "sscanf_dsd str =
     (case strtol str of
        None \<Rightarrow> Ok None
      | Some (i, s) \<Rightarrow>
          let t = dropWhile isspace s;
              w = takeWhile (\<lambda>c. \<not> isspace c) t;
              u = dropWhile (\<lambda>c. \<not> isspace c) t
          in if w = [] then Ok None
             else if length w \<ge> 128 then Err BufferOverflow
             else (case strtol u of
                     None \<Rightarrow> Ok None
                   | Some (p, _) \<Rightarrow> Ok (Some (to_int i, w, to_int p))))"

text \<open>\<open>fgets\<close> with a buffer of 512 bytes, applied to the rest of the file until it ends.\<close>

definition fgets :: "string \<Rightarrow> string \<times> string" where
  "fgets s =
     (let l = takeWhile (\<lambda>c. c \<noteq> CHR 0x0A) s;
          k = (if length l < length s then Suc (length l) else length l)
      in (take (min 511 k) s, drop (min 511 k) s))"

lemma fgets_progress: "s \<noteq> [] \<Longrightarrow> length (snd (fgets s)) < length s"
proof -
  assume s: "s \<noteq> []"
  let ?l = "takeWhile (\<lambda>c. c \<noteq> CHR 0x0A) s"
  have "0 < (if length ?l < length s then Suc (length ?l) else length ?l)"
    using s length_takeWhile_le [of "\<lambda>c. c \<noteq> CHR 0x0A" s] by (cases s) auto
  with s show ?thesis by (auto simp: fgets_def Let_def)
qed

function file_lines :: "string \<Rightarrow> string list" where
  "file_lines s = (if s = [] then [] else fst (fgets s) # file_lines (snd (fgets s)))"
  by pat_completeness auto
termination
  by (relation "measure length") (auto dest: fgets_progress)

declare file_lines.simps [simp del]

section \<open>Data\<close>

definition MAX_ADDR :: nat where "MAX_ADDR = 10"

record address =
  address_string :: string
  port :: int

record config =
  proposers_count :: nat
  acceptors_count :: nat
  proposers :: "address option list"
  acceptors :: "address option list"

datatype option_type = option_boolean | option_integer | option_string | option_verbosity

text \<open>The variable an option sets.\<close>

datatype option_target = T_verbosity | T_learner_catch_up | T_proposer_timeout
  | T_proposer_preexec_window | T_bdb_sync | T_bdb_cachesize | T_bdb_env_path
  | T_bdb_db_filename | T_bdb_trash_files

definition options :: "(string \<times> option_target \<times> option_type) list" where
  "options =
    [(''verbosity'', T_verbosity, option_verbosity),
     (''learner-catch-up'', T_learner_catch_up, option_boolean),
     (''proposer-timeout'', T_proposer_timeout, option_integer),
     (''proposer-preexec-window'', T_proposer_preexec_window, option_integer),
     (''bdb-sync'', T_bdb_sync, option_boolean),
     (''bdb-cachesize'', T_bdb_cachesize, option_integer),
     (''bdb-env-path'', T_bdb_env_path, option_string),
     (''bdb-db-filename'', T_bdb_db_filename, option_string),
     (''bdb-trash-files'', T_bdb_trash_files, option_boolean)]"

fun set_int :: "option_target \<Rightarrow> int \<Rightarrow> paxos_config \<Rightarrow> paxos_config" where
  "set_int T_verbosity n c = c\<lparr>verbosity := n\<rparr>"
| "set_int T_learner_catch_up n c = c\<lparr>learner_catch_up := n\<rparr>"
| "set_int T_proposer_timeout n c = c\<lparr>proposer_timeout := n\<rparr>"
| "set_int T_proposer_preexec_window n c = c\<lparr>proposer_preexec_window := n\<rparr>"
| "set_int T_bdb_sync n c = c\<lparr>bdb_sync := n\<rparr>"
| "set_int T_bdb_cachesize n c = c\<lparr>bdb_cachesize := n\<rparr>"
| "set_int T_bdb_trash_files n c = c\<lparr>bdb_trash_files := n\<rparr>"
| "set_int _ n c = c"

fun set_string :: "option_target \<Rightarrow> string \<Rightarrow> paxos_config \<Rightarrow> paxos_config" where
  "set_string T_bdb_env_path s c = c\<lparr>bdb_env_path := s\<rparr>"
| "set_string T_bdb_db_filename s c = c\<lparr>bdb_db_filename := s\<rparr>"
| "set_string _ s c = c"

section \<open>The parser\<close>

definition address_init :: "string \<Rightarrow> int \<Rightarrow> address" where
  "address_init addr p = \<lparr>address_string = addr, port = p\<rparr>"

definition strtrim :: "string option \<Rightarrow> string res" where
  "strtrim str =
     (case str of
        None \<Rightarrow> Err NullPointer
      | Some s \<Rightarrow> Ok (rev (dropWhile isspace (rev (dropWhile isspace s)))))"

definition parse_boolean :: "string option \<Rightarrow> int option" where
  "parse_boolean str =
     (case str of
        None \<Rightarrow> None
      | Some s \<Rightarrow> if strcaseeq s ''yes'' then Some 1
                  else if strcaseeq s ''no'' then Some 0 else None)"

definition parse_integer :: "string option \<Rightarrow> int option" where
  "parse_integer str =
     (case str of
        None \<Rightarrow> None
      | Some s \<Rightarrow> (case strtol s of None \<Rightarrow> None | Some (n, _) \<Rightarrow> Some (to_int n)))"

definition parse_string :: "string option \<Rightarrow> string option" where
  "parse_string str =
     (case str of
        None \<Rightarrow> None
      | Some s \<Rightarrow> if s = [] \<or> hd s = CHR 0x0A then None else Some s)"

definition parse_address :: "string option \<Rightarrow> address option res" where
  "parse_address str =
     (case str of
        None \<Rightarrow> Err NullPointer
      | Some s \<Rightarrow>
          rbind (sscanf_dsd s) (\<lambda>r.
            Ok (case r of None \<Rightarrow> None | Some (i, a, p) \<Rightarrow> Some (address_init a p))))"

definition parse_verbosity :: "string option \<Rightarrow> int option res" where
  "parse_verbosity str =
     (case str of
        None \<Rightarrow> Err NullPointer
      | Some s \<Rightarrow>
          Ok (if strcaseeq s ''quiet'' then Some PAXOS_LOG_QUIET
              else if strcaseeq s ''error'' then Some PAXOS_LOG_ERROR
              else if strcaseeq s ''info'' then Some PAXOS_LOG_INFO
              else if strcaseeq s ''debug'' then Some PAXOS_LOG_DEBUG
              else None))"

definition lookup_option :: "string \<Rightarrow> (option_target \<times> option_type) option" where
  "lookup_option opt =
     (case List.find (\<lambda>(name, _). strcaseeq name opt) options of
        None \<Rightarrow> None | Some (_, x) \<Rightarrow> Some x)"

text \<open>Storing a parsed address in an array of \<open>MAX_ADDR\<close> elements.\<close>

definition put_address :: "address option list \<Rightarrow> nat \<Rightarrow> address option \<Rightarrow> address option list res" where
  "put_address as i a =
     (case a of
        None \<Rightarrow> Ok as
      | Some x \<Rightarrow> arr_write as i (Some x))"

text \<open>
  The result is whether the line was understood, with the two configurations. The two calls of
  \<open>strtrim\<close> dereference their argument.
\<close>

definition parse_line ::
  "string \<Rightarrow> config \<times> paxos_config \<Rightarrow> (bool \<times> config \<times> paxos_config) res" where
  "parse_line line0 st =
     (case st of (c, pc) \<Rightarrow>
      rbind (strtrim (Some line0)) (\<lambda>line1.
      case strsep line1 of (tok, line2) \<Rightarrow>
      if strcaseeq tok ''a'' then
        rbind (parse_address line2) (\<lambda>a.
        rbind (put_address (acceptors c) (acceptors_count c) a) (\<lambda>as.
          Ok (a \<noteq> None, c\<lparr>acceptors_count := acceptors_count c + 1, acceptors := as\<rparr>, pc)))
      else if strcaseeq tok ''p'' then
        rbind (parse_address line2) (\<lambda>a.
        rbind (put_address (proposers c) (proposers_count c) a) (\<lambda>ps.
          Ok (a \<noteq> None, c\<lparr>proposers_count := proposers_count c + 1, proposers := ps\<rparr>, pc)))
      else
        rbind (strtrim line2) (\<lambda>line.
        case lookup_option tok of
          None \<Rightarrow> Ok (False, c, pc)
        | Some (target, option_boolean) \<Rightarrow>
            (case parse_boolean (Some line) of
               None \<Rightarrow> Ok (False, c, pc) | Some n \<Rightarrow> Ok (True, c, set_int target n pc))
        | Some (target, option_integer) \<Rightarrow>
            (case parse_integer (Some line) of
               None \<Rightarrow> Ok (False, c, pc) | Some n \<Rightarrow> Ok (True, c, set_int target n pc))
        | Some (target, option_string) \<Rightarrow>
            (case parse_string (Some line) of
               None \<Rightarrow> Ok (False, c, pc) | Some s \<Rightarrow> Ok (True, c, set_string target s pc))
        | Some (target, option_verbosity) \<Rightarrow>
            rbind (parse_verbosity (Some line)) (\<lambda>v.
              case v of
                None \<Rightarrow> Ok (False, c, pc) | Some n \<Rightarrow> Ok (True, c, set_int target n pc)))))"

definition empty_config :: config where
  "empty_config = \<lparr>proposers_count = 0, acceptors_count = 0,
     proposers = replicate MAX_ADDR None, acceptors = replicate MAX_ADDR None\<rparr>"

fun read_lines :: "string list \<Rightarrow> config \<times> paxos_config \<Rightarrow> (config \<times> paxos_config) res" where
  "read_lines [] st = Ok st"
| "read_lines (line # rest) st =
     (if line \<noteq> [] \<and> hd line \<noteq> CHR ''#'' \<and> hd line \<noteq> CHR 0x0A then
        rbind (parse_line line st) (\<lambda>(ok, st1).
          if ok then read_lines rest st1 else Err (ExitCode 1))
      else read_lines rest st)"

text \<open>\<open>file\<close> is the contents of the file, \<open>None\<close> when it cannot be opened.\<close>

definition read_config :: "string option \<Rightarrow> paxos_config \<Rightarrow> (config \<times> paxos_config) res" where
  "read_config file pc =
     (case file of
        None \<Rightarrow> Err (ExitCode 1)
      | Some s \<Rightarrow> read_lines (file_lines s) (empty_config, pc))"

section \<open>Reading back a printed configuration\<close>

lemma of_char_digit: "n < 10 \<Longrightarrow> of_char (digit n) = 48 + n"
  by (simp add: digit_def)

lemma digit_class: "n < 10 \<Longrightarrow> isdigit (digit n) \<and> \<not> isspace (digit n)"
  by (simp add: isdigit_def isspace_def of_char_digit)

lemma digits_val_append: "digits_val acc (xs @ ys) = digits_val (digits_val acc xs) ys"
  by (induction xs arbitrary: acc) simp_all

lemma decimal_val: "digits_val 0 (decimal n) = int n"
proof (induction n rule: decimal.induct)
  case (1 n)
  show ?case
  proof (cases "n < 10")
    case True
    then show ?thesis by (subst decimal.simps) (simp add: of_char_digit)
  next
    case False
    then have "digits_val 0 (decimal n) = 10 * int (n div 10) + int (n mod 10)"
      by (subst decimal.simps) (simp add: digits_val_append 1 of_char_digit)
    then show ?thesis by presburger
  qed
qed

lemma decimal_digits: "c \<in> set (decimal n) \<Longrightarrow> isdigit c \<and> \<not> isspace c"
proof (induction n rule: decimal.induct)
  case (1 n)
  then show ?case
    by (cases "n < 10") (subst (asm) (2) decimal.simps, auto simp: digit_class)+
qed

lemma decimal_nonempty [simp]: "decimal n \<noteq> []"
  by (subst decimal.simps) simp

lemma sign_not_digit: "isdigit c \<Longrightarrow> c \<noteq> CHR ''-'' \<and> c \<noteq> CHR ''+''"
  by (auto simp: isdigit_def)

lemma takeWhile_prefix:
  assumes "\<And>c. c \<in> set xs \<Longrightarrow> P c" "ys = [] \<or> \<not> P (hd ys)"
  shows "takeWhile P (xs @ ys) = xs" "dropWhile P (xs @ ys) = ys"
  using assms by (auto simp: takeWhile_append dropWhile_append takeWhile_eq_Nil_iff dropWhile_eq_self_iff)

lemma strtol_decimal:
  assumes "n < 2 ^ 63" "rest = [] \<or> \<not> isdigit (hd rest)"
  shows "strtol (decimal n @ rest) = Some (int n, rest)"
proof -
  obtain c cs where d: "decimal n = c # cs" using decimal_nonempty [of n] by (cases "decimal n") auto
  have c: "isdigit c" "\<not> isspace c" using decimal_digits [of c n] d by auto
  have sp: "dropWhile isspace (decimal n @ rest) = decimal n @ rest" using c(2) by (simp add: d)
  have hd: "hd (decimal n @ rest) \<noteq> CHR ''-''" "hd (decimal n @ rest) \<noteq> CHR ''+''"
    using sign_not_digit [OF c(1)] by (simp_all add: d)
  have tw: "takeWhile isdigit (decimal n @ rest) = decimal n" "dropWhile isdigit (decimal n @ rest) = rest"
    using takeWhile_prefix [of "decimal n" isdigit rest] decimal_digits assms(2) by auto
  have "clamp64 (int n) = int n" using assms(1) by (simp add: clamp64_def)
  with sp hd tw show ?thesis by (simp add: strtol_def Let_def decimal_val)
qed

lemma strtol_space: "isspace c \<Longrightarrow> strtol (c # s) = strtol s"
  by (simp add: strtol_def)

lemma strtol_blank: "strtol (CHR '' '' # s) = strtol s"
  by (simp add: strtol_space isspace_def)

text \<open>An address that a line can hold: a word that fits the array of \<open>parse_address\<close>.\<close>

definition word_ok :: "string \<Rightarrow> bool" where
  "word_ok w \<longleftrightarrow> w \<noteq> [] \<and> length w < 128 \<and> (\<forall>c \<in> set w. \<not> isspace c)"

lemma to_int_small: "n < 2 ^ 31 \<Longrightarrow> to_int (int n) = int n"
  by (simp add: to_int_def signed_of_nat signed_take_bit_int_eq_self)

lemma sscanf_printed:
  assumes "i < 2 ^ 31" "p < 2 ^ 31" "word_ok w"
  shows "sscanf_dsd (decimal i @ '' '' @ w @ '' '' @ decimal p) = Ok (Some (int i, w, int p))"
proof -
  have 1: "strtol (decimal i @ '' '' @ w @ '' '' @ decimal p) = Some (int i, '' '' @ w @ '' '' @ decimal p)"
    by (rule strtol_decimal) (use assms(1) in \<open>simp_all add: isdigit_def\<close>)
  have w: "w \<noteq> []" "\<And>c. c \<in> set w \<Longrightarrow> \<not> isspace c" using assms(3) by (auto simp: word_ok_def)
  have 2: "dropWhile isspace ('' '' @ w @ '' '' @ decimal p) = w @ '' '' @ decimal p"
    using w by (cases w) (auto simp: isspace_def)
  have 3: "takeWhile (\<lambda>c. \<not> isspace c) (w @ '' '' @ decimal p) = w"
    "dropWhile (\<lambda>c. \<not> isspace c) (w @ '' '' @ decimal p) = '' '' @ decimal p"
    using takeWhile_prefix [of w "\<lambda>c. \<not> isspace c" "'' '' @ decimal p"] w(2)
    by (auto simp: isspace_def)
  have 4: "strtol ('' '' @ decimal p) = Some (int p, [])"
    using strtol_decimal [of p "[]"] assms(2) by (simp add: strtol_blank)
  show ?thesis
    unfolding sscanf_dsd_def 1 option.case prod.case Let_def 2 3 4
    using assms to_int_small by (simp add: word_ok_def)
qed

text \<open>A line of the file, with the end of line that \<open>fgets\<close> keeps.\<close>

definition address_line :: "char \<Rightarrow> nat \<Rightarrow> string \<Rightarrow> nat \<Rightarrow> string" where
  "address_line ch i w p = ch # '' '' @ decimal i @ '' '' @ w @ '' '' @ decimal p @ [CHR 0x0A]"

lemma last_decimal: "\<not> isspace (last (decimal n))"
  using decimal_digits [of "last (decimal n)" n] by simp

lemma strtrim_line:
  assumes "\<not> isspace ch"
  shows "strtrim (Some (address_line ch i w p)) =
     Ok (ch # '' '' @ decimal i @ '' '' @ w @ '' '' @ decimal p)"
proof -
  obtain ds d where d: "decimal p = ds @ [d]" "\<not> isspace d"
    using last_decimal [of p] append_butlast_last_id [OF decimal_nonempty, of p] by metis
  have "dropWhile isspace (address_line ch i w p) = address_line ch i w p"
    using assms by (simp add: address_line_def)
  moreover have "isspace (CHR 0x0A)" by (simp add: isspace_def)
  ultimately show ?thesis
    using d(2) by (simp add: strtrim_def address_line_def d(1))
qed

lemma length_decimal: "n < 10 ^ k \<Longrightarrow> 0 < k \<Longrightarrow> length (decimal n) \<le> k"
proof (induction k arbitrary: n)
  case (Suc k)
  show ?case
  proof (cases "n < 10")
    case True
    then show ?thesis by (subst decimal.simps) simp
  next
    case False
    with Suc.prems(1) have k: "0 < k" by (cases k) auto
    have "n div 10 < 10 ^ k" using Suc.prems(1) by (simp add: less_mult_imp_div_less)
    from Suc.IH [OF this k] False show ?thesis by (subst decimal.simps) simp
  qed
qed simp

lemma parse_address_line:
  assumes "i < 2 ^ 31" "p < 2 ^ 31" "word_ok w"
  shows "parse_line (address_line CHR ''a'' i w p) (c, pc) =
      rbind (arr_write (acceptors c) (acceptors_count c) (Some (address_init w (int p)))) (\<lambda>as.
        Ok (True, c\<lparr>acceptors_count := acceptors_count c + 1, acceptors := as\<rparr>, pc))"
    and "parse_line (address_line CHR ''p'' i w p) (c, pc) =
      rbind (arr_write (proposers c) (proposers_count c) (Some (address_init w (int p)))) (\<lambda>ps.
        Ok (True, c\<lparr>proposers_count := proposers_count c + 1, proposers := ps\<rparr>, pc))"
proof -
  have sp: "\<not> isspace CHR ''a''" "\<not> isspace CHR ''p''" by (simp_all add: isspace_def)
  have sep: "strsep (ch # '' '' @ r) = ([ch], Some r)" if "ch \<noteq> CHR '' ''" for ch r
    using that by (simp add: strsep_def)
  have pa: "parse_address (Some (decimal i @ '' '' @ w @ '' '' @ decimal p)) =
      Ok (Some (address_init w (int p)))"
    unfolding parse_address_def option.case sscanf_printed [OF assms] by simp
  note red = parse_line_def strtrim_line [OF sp(1)] strtrim_line [OF sp(2)] rbind_Ok prod.case pa
    put_address_def option.case
  have eq: "strcaseeq ''a'' ''a''" "strcaseeq ''p'' ''p''" "\<not> strcaseeq ''p'' ''a''"
    by (simp_all add: strcaseeq_def tolower_def)
  show "parse_line (address_line CHR ''a'' i w p) (c, pc) =
      rbind (arr_write (acceptors c) (acceptors_count c) (Some (address_init w (int p)))) (\<lambda>as.
        Ok (True, c\<lparr>acceptors_count := acceptors_count c + 1, acceptors := as\<rparr>, pc))"
    unfolding red by (subst sep) (simp_all add: eq pa [simplified])
  show "parse_line (address_line CHR ''p'' i w p) (c, pc) =
      rbind (arr_write (proposers c) (proposers_count c) (Some (address_init w (int p)))) (\<lambda>ps.
        Ok (True, c\<lparr>proposers_count := proposers_count c + 1, proposers := ps\<rparr>, pc))"
    unfolding red by (subst sep) (simp_all add: eq pa [simplified])
qed

subsection \<open>A whole file of addresses\<close>

text \<open>
  An entry of the file: whether it is an acceptor, its identifier, its address and its port.
  \<open>config_of\<close> is what a file of such entries means.
\<close>

type_synonym entry = "bool \<times> nat \<times> string \<times> nat"

definition entry_ok :: "entry \<Rightarrow> bool" where
  "entry_ok e = (case e of (_, i, w, p) \<Rightarrow> i < 2 ^ 31 \<and> p < 2 ^ 31 \<and> word_ok w)"

definition entry_line :: "entry \<Rightarrow> string" where
  "entry_line e = (case e of (acc, i, w, p) \<Rightarrow> address_line (if acc then CHR ''a'' else CHR ''p'') i w p)"

definition entry_address :: "entry \<Rightarrow> address" where
  "entry_address e = (case e of (_, _, w, p) \<Rightarrow> address_init w (int p))"

definition addr_array :: "address list \<Rightarrow> address option list" where
  "addr_array as = map Some as @ replicate (MAX_ADDR - length as) None"

definition addresses_of :: "bool \<Rightarrow> entry list \<Rightarrow> address list" where
  "addresses_of b es = map entry_address (filter (\<lambda>e. fst e = b) es)"

definition config_of :: "entry list \<Rightarrow> config" where
  "config_of es = \<lparr>proposers_count = length (addresses_of False es),
     acceptors_count = length (addresses_of True es),
     proposers = addr_array (addresses_of False es), acceptors = addr_array (addresses_of True es)\<rparr>"

lemma addr_array_snoc:
  assumes "length as < MAX_ADDR"
  shows "(addr_array as)[length as := Some a] = addr_array (as @ [a])"
proof -
  have "MAX_ADDR - length as = Suc (MAX_ADDR - Suc (length as))" using assms by simp
  then show ?thesis by (simp add: addr_array_def list_update_append)
qed

lemma length_addr_array: "length as \<le> MAX_ADDR \<Longrightarrow> length (addr_array as) = MAX_ADDR"
  by (simp add: addr_array_def)

lemma addresses_of_snoc:
  "addresses_of b (es @ [e]) = addresses_of b es @ (if fst e = b then [entry_address e] else [])"
  by (simp add: addresses_of_def)

lemma parse_entry_line:
  assumes "entry_ok e" "length (addresses_of (fst e) es) < MAX_ADDR"
  shows "parse_line (entry_line e) (config_of es, pc) = Ok (True, config_of (es @ [e]), pc)"
proof -
  obtain b i w p where e: "e = (b, i, w, p)" by (cases e)
  from assms(1) have ok: "i < 2 ^ 31" "p < 2 ^ 31" "word_ok w" by (simp_all add: e entry_ok_def)
  note steps = parse_address_line [OF ok, of "config_of es" pc]
  show ?thesis
    using assms(2) steps
    by (cases b) (simp_all add: e entry_line_def config_of_def addresses_of_snoc length_addr_array
        addr_array_snoc entry_address_def arr_write_def)
qed

lemma parse_entry_full:
  assumes "entry_ok e" "length (addresses_of (fst e) es) = MAX_ADDR"
  shows "parse_line (entry_line e) (config_of es, pc) = Err OutOfBounds"
proof -
  obtain b i w p where e: "e = (b, i, w, p)" by (cases e)
  from assms(1) have ok: "i < 2 ^ 31" "p < 2 ^ 31" "word_ok w" by (simp_all add: e entry_ok_def)
  note steps = parse_address_line [OF ok, of "config_of es" pc]
  show ?thesis
    using assms(2) steps
    by (cases b) (simp_all add: e entry_line_def config_of_def length_addr_array arr_write_def)
qed

lemma entry_line_shape:
  assumes "entry_ok e"
  obtains c r where "entry_line e = c # r @ [CHR 0x0A]" "c \<noteq> CHR ''#''" "c \<noteq> CHR 0x0A"
    "CHR 0x0A \<notin> set r" "length r \<le> 151"
proof -
  obtain b i w p where e: "e = (b, i, w, p)" by (cases e)
  let ?r = "'' '' @ decimal i @ '' '' @ w @ '' '' @ decimal p"
  from assms have ok: "i < 2 ^ 31" "p < 2 ^ 31" "word_ok w" by (simp_all add: e entry_ok_def)
  have nl: "isspace (CHR 0x0A)" by (simp add: isspace_def)
  have "CHR 0x0A \<notin> set ?r" using ok(3) decimal_digits nl by (auto simp: word_ok_def)
  moreover have "length ?r \<le> 151"
    using length_decimal [of i 10] length_decimal [of p 10] ok by (simp add: word_ok_def)
  ultimately show ?thesis
    using that [of "if b then CHR ''a'' else CHR ''p''" ?r] by (simp add: e entry_line_def address_line_def)
qed

lemma fgets_entry:
  assumes "entry_ok e"
  shows "fgets (entry_line e @ s) = (entry_line e, s)"
proof -
  obtain c r where l: "entry_line e = c # r @ [CHR 0x0A]" "c \<noteq> CHR 0x0A" "CHR 0x0A \<notin> set r"
    "length r \<le> 151" using entry_line_shape [OF assms] by metis
  have "takeWhile (\<lambda>x. x \<noteq> CHR 0x0A) (r @ CHR 0x0A # s) = r"
    by (rule takeWhile_prefix(1)) (use l(3) in auto)
  then have tw: "takeWhile (\<lambda>x. x \<noteq> CHR 0x0A) (entry_line e @ s) = c # r"
    using l(2) by (simp add: l(1))
  show ?thesis unfolding fgets_def Let_def tw using l(4) by (simp add: l(1))
qed

lemma file_lines_entries:
  "\<forall>e \<in> set es. entry_ok e \<Longrightarrow>
   file_lines (concat (map entry_line es) @ s) = map entry_line es @ file_lines s"
proof (induction es)
  case (Cons e es)
  then have e: "entry_ok e" by simp
  have "entry_line e \<noteq> []" by (rule entry_line_shape [OF e]) simp
  then show ?case using Cons e by (subst file_lines.simps) (simp add: fgets_entry)
qed simp

lemma read_entry:
  assumes "entry_ok e"
  shows "read_lines (entry_line e # rest) st =
    rbind (parse_line (entry_line e) st) (\<lambda>(ok, st1). if ok then read_lines rest st1 else Err (ExitCode 1))"
proof -
  obtain c r where l: "entry_line e = c # r" "c \<noteq> CHR ''#''" "c \<noteq> CHR 0x0A"
    using entry_line_shape [OF assms] by metis
  show ?thesis by (simp add: l)
qed

lemma read_entries:
  assumes "\<forall>e \<in> set es2. entry_ok e" "\<forall>b. length (addresses_of b (es1 @ es2)) \<le> MAX_ADDR"
  shows "read_lines (map entry_line es2 @ rest) (config_of es1, pc) = read_lines rest (config_of (es1 @ es2), pc)"
  using assms
proof (induction es2 arbitrary: es1)
  case (Cons e es2)
  have "length (addresses_of (fst e) (es1 @ [e])) \<le> length (addresses_of (fst e) (es1 @ e # es2))"
    by (simp add: addresses_of_def)
  with Cons.prems(2) have "length (addresses_of (fst e) es1) < MAX_ADDR"
    by (auto simp: addresses_of_snoc dest: spec [of _ "fst e"])
  with Cons show ?case by (simp add: read_entry parse_entry_line del: read_lines.simps)
qed simp

lemma empty_config_of: "empty_config = config_of []"
  by (simp add: empty_config_def config_of_def addresses_of_def addr_array_def)

lemma read_printed_config:
  assumes "\<forall>e \<in> set es. entry_ok e" "\<forall>b. length (addresses_of b es) \<le> MAX_ADDR"
  shows "read_config (Some (concat (map entry_line es))) pc = Ok (config_of es, pc)"
  using read_entries [of es "[]" "[]" pc] assms file_lines_entries [of es "[]"]
  by (simp add: read_config_def empty_config_of file_lines.simps [of "[]"])

lemma read_too_many:
  assumes "\<forall>e \<in> set (es @ [e]). entry_ok e" "\<forall>b. length (addresses_of b es) \<le> MAX_ADDR"
    "length (addresses_of (fst e) es) = MAX_ADDR"
  shows "read_config (Some (concat (map entry_line (es @ [e] @ es2)))) pc = Err OutOfBounds"
proof -
  have 1: "file_lines (concat (map entry_line (es @ [e])) @ s) = map entry_line (es @ [e]) @ file_lines s" for s
    using assms(1) by (rule file_lines_entries)
  show ?thesis
    using read_entries [of es "[]" "entry_line e # file_lines (concat (map entry_line es2))" pc] assms 1
    by (simp add: read_config_def empty_config_of read_entry parse_entry_full del: read_lines.simps)
qed

subsection \<open>Options\<close>

text \<open>A line that names an option and gives no argument: \<open>strtrim\<close> receives the NULL of \<open>strsep\<close>.\<close>

lemma option_without_argument:
  assumes "\<forall>c \<in> set tok. \<not> isspace c" "\<not> strcaseeq tok ''a''" "\<not> strcaseeq tok ''p''"
  shows "parse_line (tok @ [CHR 0x0A]) st = Err NullPointer"
proof -
  have nl: "isspace (CHR 0x0A)" "isspace (CHR '' '')" by (simp_all add: isspace_def)
  have "dropWhile isspace (rev tok) = rev tok" using assms(1)
    by (cases "rev tok") (auto simp: rev_eq_Cons_iff)
  moreover have "dropWhile isspace (tok @ [CHR 0x0A]) = (if tok = [] then [] else tok @ [CHR 0x0A])"
    using assms(1) nl by (cases tok) auto
  ultimately have 1: "strtrim (Some (tok @ [CHR 0x0A])) = Ok tok"
    using nl by (simp add: strtrim_def)
  have "\<forall>c \<in> set tok. c \<noteq> CHR '' ''" using assms(1) nl(2) by auto
  then have 2: "strsep tok = (tok, None)" by (simp add: strsep_def takeWhile_eq_all_conv)
  show ?thesis using assms(2,3) by (cases st) (simp add: parse_line_def 1 2 strtrim_def [of None])
qed

end
