(* ===== verification/Tcp_Receiver.thy ===== *)
theory Tcp_Receiver
  imports Libevent Config_Reader Carray
begin

text \<open>
  \<open>evpaxos/tcp_receiver.c\<close>: the listening side. The receiver keeps the open connections in a ring
  buffer, and calls its owner for every complete message of a connection.
\<close>

record tcp_receiver =
  tr_bevs :: "bev carray"

text \<open>The \<open>memset\<close> before the assignments clears the size of a pointer only; the padding of the address,
  which it does not reach, is not modelled.\<close>

definition set_sockaddr_in :: "address \<Rightarrow> sockaddr_in" where
  "set_sockaddr_in a = \<lparr>sin_addr = None, sin_port = word_of_int (port a)\<rparr>"

text \<open>The loop that calls the owner; \<open>callback\<close> has the state of the owner in its argument.\<close>

definition receiver_on_read ::
  "'w libevent \<Rightarrow> (nat \<Rightarrow> bev \<Rightarrow> 'w \<times> 'st \<Rightarrow> ('w \<times> 'st) res) \<Rightarrow> bev \<Rightarrow> 'w \<times> 'st \<Rightarrow>
   ('w \<times> 'st) res option" where
  "receiver_on_read ev callback b x = read_loop ev callback 0 b x"

definition match_bufferevent :: "bev \<Rightarrow> bev \<Rightarrow> int" where
  "match_bufferevent arg item = (if arg = item then 1 else 0)"

unbundle bit_operations_syntax

definition receiver_on_error ::
  "'w libevent \<Rightarrow> bev \<Rightarrow> 16 word \<Rightarrow> 'w \<times> tcp_receiver \<Rightarrow> ('w \<times> tcp_receiver) res" where
  "receiver_on_error ev b events x =
     (case x of (w, r) \<Rightarrow>
      if events AND BEV_EVENT_EOF \<noteq> 0 then
        rbind (carray_reject (tr_bevs r) match_bufferevent b) (\<lambda>tmp.
          Ok (bufferevent_free ev w b, r\<lparr>tr_bevs := tmp\<rparr>))
      else Ok x)"

definition receiver_on_accept ::
  "'w libevent \<Rightarrow> int \<Rightarrow> 'w \<times> tcp_receiver \<Rightarrow> ('w \<times> tcp_receiver) res" where
  "receiver_on_accept ev fd x =
     (case x of (w, r) \<Rightarrow>
      case bufferevent_socket_new ev w fd of (b, w1) \<Rightarrow>
      rbind (carray_push_back (tr_bevs r) b) (\<lambda>bevs.
        Ok (bufferevent_enable ev w1 b, r\<lparr>tr_bevs := bevs\<rparr>)))"

definition receiver_on_listener_error :: "'w libevent \<Rightarrow> 'w \<Rightarrow> 'w" where
  "receiver_on_listener_error ev w = event_base_loopexit ev w"

definition tcp_receiver_new :: "'w libevent \<Rightarrow> address \<Rightarrow> 'w \<Rightarrow> ('w \<times> tcp_receiver) res" where
  "tcp_receiver_new ev a w =
     (case evconnlistener_new_bind ev w (set_sockaddr_in a) of (listener, w1) \<Rightarrow>
      rbind (rassert listener) (\<lambda>_. Ok (w1, \<lparr>tr_bevs = carray_new 10\<rparr>)))"

definition tcp_receiver_free :: "'w libevent \<Rightarrow> tcp_receiver \<Rightarrow> 'w \<Rightarrow> 'w res" where
  "tcp_receiver_free ev r w =
     rbind (for_loop [0..<carray_count (tr_bevs r)] (\<lambda>i w.
       rbind (carray_item (tr_bevs r) (int i)) (\<lambda>b. Ok (bufferevent_free ev w b))) w) (\<lambda>w1.
     Ok (evconnlistener_free ev w1))"

definition tcp_receiver_get_events :: "tcp_receiver \<Rightarrow> bev carray" where
  "tcp_receiver_get_events r = tr_bevs r"

section \<open>The connections of a receiver\<close>

definition receiver_inv :: "tcp_receiver \<Rightarrow> bool" where
  "receiver_inv r \<longleftrightarrow> carray_inv (tr_bevs r) \<and> 0 < ca_size (tr_bevs r)"

lemma tcp_receiver_new_inv:
  "tcp_receiver_new ev a w = Ok (w1, r) \<Longrightarrow> receiver_inv r \<and> clist (tr_bevs r) = []"
  by (auto simp: tcp_receiver_new_def receiver_inv_def res_simps split: prod.splits)

text \<open>A new connection is the last one; the end of a connection removes it and only it.\<close>

lemma receiver_on_accept_ok:
  assumes "receiver_inv r" "bufferevent_socket_new ev w fd = (b, w1)"
  shows "\<exists>r1. receiver_on_accept ev fd (w, r) = Ok (bufferevent_enable ev w1 b, r1) \<and>
     receiver_inv r1 \<and> clist (tr_bevs r1) = clist (tr_bevs r) @ [b]"
  using assms carray_push_back_ok [of "tr_bevs r" b]
  by (auto simp: receiver_on_accept_def receiver_inv_def split: if_splits)

lemma receiver_on_error_eof:
  assumes "receiver_inv r" "events AND BEV_EVENT_EOF \<noteq> 0"
  shows "\<exists>r1. receiver_on_error ev b events (w, r) = Ok (bufferevent_free ev w b, r1) \<and>
     receiver_inv r1 \<and> clist (tr_bevs r1) = filter (\<lambda>c. c \<noteq> b) (clist (tr_bevs r))"
proof -
  from carray_map_ok [of "tr_bevs r" match_bufferevent b 0] assms(1) obtain d where
    d: "carray_reject (tr_bevs r) match_bufferevent b = Ok d" "carray_inv d"
      "clist d = filter (\<lambda>x. match_bufferevent b x = 0) (clist (tr_bevs r))"
    by (auto simp: receiver_inv_def carray_reject_def)
  have "filter (\<lambda>x. match_bufferevent b x = 0) xs = filter (\<lambda>c. c \<noteq> b) xs" for xs
    by (rule filter_cong) (auto simp: match_bufferevent_def)
  with d assms(2) carray_invD(1) [OF d(2)] show ?thesis
    by (auto simp: receiver_on_error_def receiver_inv_def)
qed

text \<open>A connection that ends with an error and not with EOF stays in the list.\<close>

lemma receiver_on_error_other:
  "events AND BEV_EVENT_EOF = 0 \<Longrightarrow> receiver_on_error ev b events (w, r) = Ok (w, r)"
  by (simp add: receiver_on_error_def)

end
