(* ===== verification/Peers.thy ===== *)
theory Peers
  imports Libevent Config_Reader
begin

text \<open>
  \<open>evpaxos/peers.c\<close>: the outgoing connections of a proposer or a learner to the acceptors. A peer
  keeps its connection for life; when the connection breaks, it gets a new one and tries again
  after two seconds. The callback and its argument are those of the owner of the peers.
\<close>

record peer =
  peer_addr :: address
  peer_bev :: bev
  peer_reconnect_ev :: nat

record peers =
  peers_n :: nat
  peers_peers :: "peer list"

definition reconnect_timeout :: timeval where
  "reconnect_timeout = \<lparr>tv_sec = 2, tv_usec = 0\<rparr>"

definition peers_new :: peers where
  "peers_new = \<lparr>peers_n = 0, peers_peers = []\<rparr>"

text \<open>The port is stored in 16 bits.\<close>

definition connect_peer :: "'w libevent \<Rightarrow> peer \<Rightarrow> 'w \<Rightarrow> 'w" where
  "connect_peer ev p w =
     bufferevent_socket_connect ev (bufferevent_enable ev w (peer_bev p)) (peer_bev p)
       \<lparr>sin_addr = Some (address_string (peer_addr p)), sin_port = word_of_int (port (peer_addr p))\<rparr>"

definition make_peer :: "'w libevent \<Rightarrow> address \<Rightarrow> 'w \<Rightarrow> peer \<times> 'w" where
  "make_peer ev a w =
     (case evtimer_new ev w of (t, w1) \<Rightarrow>
      case bufferevent_socket_new ev w1 (- 1) of (b, w2) \<Rightarrow>
      let p = \<lparr>peer_addr = a, peer_bev = b, peer_reconnect_ev = t\<rparr>
      in (p, connect_peer ev p w2))"

definition peers_connect :: "'w libevent \<Rightarrow> peers \<Rightarrow> address \<Rightarrow> 'w \<Rightarrow> peers \<times> 'w" where
  "peers_connect ev ps a w =
     (case make_peer ev a w of (p, w1) \<Rightarrow>
        (\<lparr>peers_n = peers_n ps + 1, peers_peers = take (peers_n ps) (peers_peers ps) @ [p]\<rparr>, w1))"

definition peers_count :: "peers \<Rightarrow> nat" where
  "peers_count ps = peers_n ps"

definition peers_get_buffer :: "peers \<Rightarrow> nat \<Rightarrow> bev res" where
  "peers_get_buffer ps i =
     (if i < length (peers_peers ps) then Ok (peer_bev (peers_peers ps ! i)) else Err OutOfBounds)"

text \<open>The callback of the connection calls that of the owner.\<close>

definition peer_on_read :: "(bev \<Rightarrow> 'x \<Rightarrow> 'y) \<Rightarrow> bev \<Rightarrow> 'x \<Rightarrow> 'y" where
  "peer_on_read cb b x = cb b x"

unbundle bit_operations_syntax

definition peer_on_socket_event :: "'w libevent \<Rightarrow> 16 word \<Rightarrow> peer \<Rightarrow> 'w \<Rightarrow> peer \<times> 'w" where
  "peer_on_socket_event ev what p w =
     (if what AND BEV_EVENT_CONNECTED \<noteq> 0 then (p, w)
      else if what AND BEV_EVENT_ERROR \<noteq> 0 \<or> what AND BEV_EVENT_EOF \<noteq> 0 then
        case bufferevent_socket_new ev (bufferevent_free ev w (peer_bev p)) (- 1) of (b, w1) \<Rightarrow>
          (p\<lparr>peer_bev := b\<rparr>, event_add ev w1 (peer_reconnect_ev p) reconnect_timeout)
      else (p, w))"

definition peer_on_connection_timeout :: "'w libevent \<Rightarrow> peer \<Rightarrow> 'w \<Rightarrow> 'w" where
  "peer_on_connection_timeout ev p w = connect_peer ev p w"

text \<open>Connecting to the acceptors of a configuration, in order.\<close>

fun connect_all :: "'w libevent \<Rightarrow> address option list \<Rightarrow> peers \<Rightarrow> 'w \<Rightarrow> (peers \<times> 'w) res" where
  "connect_all ev [] ps w = Ok (ps, w)"
| "connect_all ev (None # as) ps w = Err Uninitialised"
| "connect_all ev (Some a # as) ps w =
     (case peers_connect ev ps a w of (ps1, w1) \<Rightarrow> connect_all ev as ps1 w1)"

definition free_peer :: "'w libevent \<Rightarrow> peer \<Rightarrow> 'w \<Rightarrow> 'w" where
  "free_peer ev p w = event_free ev (bufferevent_free ev w (peer_bev p)) (peer_reconnect_ev p)"

definition peers_free :: "'w libevent \<Rightarrow> peers \<Rightarrow> 'w \<Rightarrow> 'w res" where
  "peers_free ev ps w =
     for_loop [0..<peers_n ps] (\<lambda>i w.
       if i < length (peers_peers ps) then Ok (free_peer ev (peers_peers ps ! i) w) else Err OutOfBounds) w"

section \<open>Writing to all peers\<close>

definition peers_ok :: "peers \<Rightarrow> bool" where
  "peers_ok ps \<longleftrightarrow> peers_n ps = length (peers_peers ps)"

definition peers_bevs :: "peers \<Rightarrow> bev list" where
  "peers_bevs ps = map peer_bev (peers_peers ps)"

lemma peers_new_ok: "peers_ok peers_new"
  by (simp add: peers_ok_def peers_new_def)

lemma peers_connect_ok:
  assumes "peers_ok ps" "peers_connect ev ps a w = (qs, w1)"
  shows "peers_ok qs \<and> (\<exists>b. peers_bevs qs = peers_bevs ps @ [b])"
  using assms by (auto simp: peers_connect_def peers_ok_def peers_bevs_def split: prod.splits)

text \<open>
  The loop with which proposers and learners send a message to every peer; the message is built
  again for each of them.
\<close>

definition send_to_peers :: "'w libevent \<Rightarrow> peers \<Rightarrow> byte list res \<Rightarrow> 'w \<Rightarrow> 'w res" where
  "send_to_peers ev ps msg w =
     for_loop [0..<peers_count ps] (\<lambda>i w.
       rbind (peers_get_buffer ps i) (\<lambda>b.
       rbind msg (\<lambda>bytes. Ok (bufferevent_write ev w b bytes)))) w"

context evbuffers
begin

lemma send_to_peers_Ok:
  assumes "peers_ok ps"
  shows "\<exists>w1. send_to_peers ev ps (Ok bytes) w = Ok w1 \<and> sent_to (peers_bevs ps) bytes w w1"
  using write_all [of "peers_bevs ps"
      "\<lambda>i w. rbind (peers_get_buffer ps i) (\<lambda>b. Ok (bufferevent_write ev w b bytes))" bytes w] assms
  by (simp add: send_to_peers_def peers_count_def peers_ok_def peers_bevs_def peers_get_buffer_def)

end

end
