(* ===== verification/Storage_Bdb.thy ===== *)
theory Storage_Bdb
  imports Acceptor Tcp_Sendbuf Paxos
begin

text \<open>
  \<open>paxos/storage_bdb.c\<close>: the storage of the acceptor on Berkeley DB. The database library and
  the three calls of the operating system are a parameter: a record of functions over the state
  \<open>'e\<close> of the library (its environment, its database and the current transaction, of which the
  storage has one each). The buffer in which the storage builds and reads its records is
  modelled byte by byte, with the layout of \<open>acceptor_record\<close> on a little-endian LP64 machine.

  The locale \<open>bdb\<close> states the documented behaviour of the database, errors included. The locale
  \<open>bdb_reads\<close> adds what the storage relies on beyond it: that no read of a stored record fails. Under
  both the storage keeps the contract \<open>record_store\<close> of the acceptor. The locale \<open>bdb_files\<close> adds the
  files: what an opened database starts with, and what a commit makes durable.
\<close>

unbundle bit_operations_syntax

section \<open>The database library\<close>

definition DB_NOTFOUND :: int where "DB_NOTFOUND = - 30988"
definition DB_KEYEMPTY :: int where "DB_KEYEMPTY = - 30995"
definition DB_BUFFER_SMALL :: int where "DB_BUFFER_SMALL = - 30999"
definition DB_CREATE :: int where "DB_CREATE = 0x00000001"
definition DB_RECOVER :: int where "DB_RECOVER = 0x00000002"
definition DB_INIT_LOCK :: int where "DB_INIT_LOCK = 0x00000100"
definition DB_INIT_LOG :: int where "DB_INIT_LOG = 0x00000200"
definition DB_INIT_MPOOL :: int where "DB_INIT_MPOOL = 0x00000400"
definition DB_INIT_TXN :: int where "DB_INIT_TXN = 0x00002000"
definition DB_THREAD :: int where "DB_THREAD = 0x00000020"
definition DB_REGISTER :: int where "DB_REGISTER = 0x00040000"
definition DB_TXN_WRITE_NOSYNC :: int where "DB_TXN_WRITE_NOSYNC = 0x00000020"

text \<open>
  Every call returns an error number, 0 for success. \<open>db_get\<close> is given the key and the size of
  the caller's buffer, \<open>dbc_get\<close> moves the cursor to the next pair and returns its key.
\<close>

record 'e bdb_api =
  os_stat :: "'e \<Rightarrow> string \<Rightarrow> int \<times> 'e"
  os_mkdir :: "'e \<Rightarrow> string \<Rightarrow> int \<times> 'e"
  os_system :: "'e \<Rightarrow> string \<Rightarrow> int \<times> 'e"
  db_env_create :: "'e \<Rightarrow> int \<times> 'e"
  env_set_flags :: "'e \<Rightarrow> int \<Rightarrow> int \<Rightarrow> int \<times> 'e"
  env_set_cachesize :: "'e \<Rightarrow> int \<Rightarrow> int \<Rightarrow> int \<Rightarrow> int \<times> 'e"
  env_open :: "'e \<Rightarrow> string \<Rightarrow> int \<Rightarrow> int \<times> 'e"
  env_close :: "'e \<Rightarrow> int \<times> 'e"
  env_txn_begin :: "'e \<Rightarrow> int \<times> 'e"
  txn_commit :: "'e \<Rightarrow> int \<times> 'e"
  db_create :: "'e \<Rightarrow> int \<times> 'e"
  db_open :: "'e \<Rightarrow> string \<Rightarrow> int \<Rightarrow> int \<times> 'e"
  db_close :: "'e \<Rightarrow> int \<times> 'e"
  db_get :: "'e \<Rightarrow> byte list \<Rightarrow> nat \<Rightarrow> int \<times> byte list \<times> 'e"
  db_put :: "'e \<Rightarrow> byte list \<Rightarrow> byte list \<Rightarrow> int \<times> 'e"
  db_cursor :: "'e \<Rightarrow> int \<times> 'e"
  dbc_get :: "'e \<Rightarrow> int \<times> byte list \<times> 'e"
  dbc_close :: "'e \<Rightarrow> int \<times> 'e"

section \<open>State\<close>

text \<open>\<open>bs_db\<close>, \<open>bs_env\<close> and \<open>bs_txn\<close> tell whether the pointer is set; \<open>bs_lib\<close> is the state of the
  library behind them.\<close>

record 'e bdb_storage =
  bs_lib :: 'e
  bs_db :: bool
  bs_env :: bool
  bs_txn :: bool
  bs_acceptor_id :: int
  bs_record_buf :: "byte list"

text \<open>A pointer that must not be NULL when it is dereferenced.\<close>

definition deref :: "bool \<Rightarrow> unit res" where
  "deref p = (if p then Ok () else Err NullPointer)"

lemma deref_True [simp]: "deref True = Ok ()"
  by (simp add: deref_def)

section \<open>Opening and closing\<close>

definition env_flags :: int where
  "env_flags = DB_CREATE OR DB_RECOVER OR DB_INIT_LOCK OR DB_INIT_LOG OR DB_INIT_TXN OR DB_THREAD OR
     DB_REGISTER OR DB_INIT_MPOOL"

definition bdb_init_tx_handle ::
  "'e bdb_api \<Rightarrow> paxos_config \<Rightarrow> 'e bdb_storage \<Rightarrow> string \<Rightarrow> int \<times> 'e bdb_storage" where
  "bdb_init_tx_handle api cfg s db_env_path =
     (case db_env_create api (bs_lib s) of (r1, e1) \<Rightarrow>
      if r1 \<noteq> 0 then (- 1, s\<lparr>bs_lib := e1\<rparr>)
      else
        case (if bdb_sync cfg = 0 then env_set_flags api e1 DB_TXN_WRITE_NOSYNC 1 else (r1, e1)) of (r2, e2) \<Rightarrow>
        if r2 \<noteq> 0 then (- 1, s\<lparr>bs_lib := e2\<rparr>)
        else
          case env_set_cachesize api e2 0 (bdb_cachesize cfg) 1 of (r3, e3) \<Rightarrow>
          if r3 \<noteq> 0 then (- 1, s\<lparr>bs_lib := e3\<rparr>)
          else
            case env_open api e3 db_env_path env_flags of (r4, e4) \<Rightarrow>
            if r4 \<noteq> 0 then (- 1, s\<lparr>bs_lib := e4\<rparr>)
            else (0, s\<lparr>bs_lib := e4, bs_env := True\<rparr>))"

definition bdb_storage_tx_begin :: "'e bdb_api \<Rightarrow> 'e bdb_storage \<Rightarrow> 'e bdb_storage res" where
  "bdb_storage_tx_begin api s =
     rbind (deref (bs_env s)) (\<lambda>_.
     case env_txn_begin api (bs_lib s) of (result, e) \<Rightarrow>
     rbind (rassert (result = 0)) (\<lambda>_. Ok (s\<lparr>bs_lib := e, bs_txn := True\<rparr>)))"

definition bdb_storage_tx_commit :: "'e bdb_api \<Rightarrow> 'e bdb_storage \<Rightarrow> 'e bdb_storage res" where
  "bdb_storage_tx_commit api s =
     rbind (deref (bs_txn s)) (\<lambda>_.
     case txn_commit api (bs_lib s) of (result, e) \<Rightarrow>
     rbind (rassert (result = 0)) (\<lambda>_. Ok (s\<lparr>bs_lib := e\<rparr>)))"

definition bdb_init_db ::
  "'e bdb_api \<Rightarrow> 'e bdb_storage \<Rightarrow> string \<Rightarrow> (int \<times> 'e bdb_storage) res" where
  "bdb_init_db api s db_path =
     (case db_create api (bs_lib s) of (r1, e1) \<Rightarrow>
      if r1 \<noteq> 0 then Ok (- 1, s\<lparr>bs_lib := e1\<rparr>)
      else
        rbind (bdb_storage_tx_begin api (s\<lparr>bs_lib := e1, bs_db := True\<rparr>)) (\<lambda>s2.
        case db_open api (bs_lib s2) db_path DB_CREATE of (result, e3) \<Rightarrow>
        rbind (bdb_storage_tx_commit api (s2\<lparr>bs_lib := e3\<rparr>)) (\<lambda>s4.
          Ok (if result \<noteq> 0 then - 1 else 0, s4))))"

text \<open>
  \<open>lib\<close> is the state of the library and of the file system before the call. The result is
  \<open>None\<close> when the function returns NULL. The command line of \<open>rm\<close> is written to an array of 600
  characters.
\<close>

definition bdb_storage_open ::
  "'e bdb_api \<Rightarrow> paxos_config \<Rightarrow> 'e \<Rightarrow> int \<Rightarrow> 'e bdb_storage option res" where
  "bdb_storage_open api cfg lib acceptor_id =
     (let db_env_path = bdb_env_path cfg @ ''_'' @ print_int acceptor_id in
      case os_stat api lib db_env_path of (st, e1) \<Rightarrow>
      let dir_exists = (st = 0) in
      case (if dir_exists then (0, e1) else os_mkdir api e1 db_env_path) of (mk, e2) \<Rightarrow>
      if mk \<noteq> 0 then Ok None
      else
        let rm_command = ''rm -r '' @ db_env_path in
        if bdb_trash_files cfg \<noteq> 0 \<and> dir_exists \<and> length rm_command \<ge> 600 then Err BufferOverflow
        else
          let e3 = (if bdb_trash_files cfg \<noteq> 0 \<and> dir_exists then
                      case os_system api e2 rm_command of (rm, e) \<Rightarrow>
                        if rm \<noteq> 0 then e else snd (os_mkdir api e db_env_path)
                    else e2);
              s = \<lparr>bs_lib = e3, bs_db = False, bs_env = False, bs_txn = False,
                   bs_acceptor_id = acceptor_id, bs_record_buf = replicate PAXOS_MAX_VALUE_SIZE 0\<rparr>
          in
          case bdb_init_tx_handle api cfg s db_env_path of (ret, s1) \<Rightarrow>
          rbind (bdb_init_db api s1 (bdb_db_filename cfg)) (\<lambda>(r, s2).
            Ok (if r \<noteq> 0 then None else Some s2)))"

definition bdb_storage_close :: "'e bdb_api \<Rightarrow> 'e bdb_storage \<Rightarrow> int" where
  "bdb_storage_close api s =
     (case db_close api (bs_lib s) of (r1, e1) \<Rightarrow>
      case env_close api e1 of (r2, _) \<Rightarrow>
      if r1 \<noteq> 0 \<or> r2 \<noteq> 0 then - 1 else 0)"

section \<open>Records in the buffer\<close>

text \<open>The record a pointer to the buffer denotes: the fields, and the value that follows them.\<close>

definition buffer_record :: "byte list \<Rightarrow> acceptor_record" where
  "buffer_record buf = (let r = cast_accept_ack buf in r\<lparr>aa_value := aa_payload r\<rparr>)"

text \<open>Assignments to the fields. The bytes between \<open>is_final\<close> and \<open>value_size\<close> stay as they are.\<close>

definition set_acceptor_id :: "int \<Rightarrow> byte list \<Rightarrow> byte list" where
  "set_acceptor_id aid buf = enc_int aid @ drop 4 buf"

definition set_ballot :: "ballot_t \<Rightarrow> byte list \<Rightarrow> byte list" where
  "set_ballot b buf = take 8 buf @ enc32 b @ drop 12 buf"

definition set_fields ::
  "iid_t \<Rightarrow> ballot_t \<Rightarrow> ballot_t \<Rightarrow> int \<Rightarrow> size_t \<Rightarrow> byte list \<Rightarrow> byte list" where
  "set_fields iid b vb final n buf =
     take 4 buf @ enc32 iid @ enc32 b @ enc32 vb @ enc_short final @ take 6 (drop 18 buf) @
     enc64 n @ drop 32 buf"

text \<open>\<open>memcpy\<close> to the value of the record, which has the rest of the buffer for it.\<close>

definition set_value :: "byte list \<Rightarrow> size_t \<Rightarrow> byte list \<Rightarrow> byte list res" where
  "set_value v n buf =
     rbind (memcpy (PAXOS_MAX_VALUE_SIZE - sizeof_accept_ack) (drop sizeof_accept_ack buf) v (unat n))
       (\<lambda>bytes. Ok (take sizeof_accept_ack buf @ bytes))"

text \<open>
  The call of \<open>put\<close> with the buffer as data. The size is a \<open>size_t\<close> that is stored in 32 bits.
\<close>

definition put_record :: "'e bdb_api \<Rightarrow> 'e bdb_storage \<Rightarrow> iid_t \<Rightarrow> 'e bdb_storage res" where
  "put_record api s iid =
     rbind (deref (bs_db s)) (\<lambda>_.
     let n = unat (ucast (ACCEPT_ACK_SIZE (cast_accept_ack (bs_record_buf s))) :: 32 word) in
     if length (bs_record_buf s) < n then Err OutOfBounds
     else
       case db_put api (bs_lib s) (enc32 iid) (take n (bs_record_buf s)) of (result, e) \<Rightarrow>
       rbind (rassert (result = 0)) (\<lambda>_. Ok (s\<lparr>bs_lib := e\<rparr>)))"

section \<open>Operations\<close>

definition bdb_storage_get_record ::
  "'e bdb_api \<Rightarrow> 'e bdb_storage \<Rightarrow> iid_t \<Rightarrow> (acceptor_record option \<times> 'e bdb_storage) res" where
  "bdb_storage_get_record api s iid =
     rbind (deref (bs_db s)) (\<lambda>_.
     case db_get api (bs_lib s) (enc32 iid) PAXOS_MAX_VALUE_SIZE of (result, data, e) \<Rightarrow>
     if result = DB_NOTFOUND \<or> result = DB_KEYEMPTY then Ok (None, s\<lparr>bs_lib := e\<rparr>)
     else if result \<noteq> 0 then Ok (None, s\<lparr>bs_lib := e\<rparr>)
     else
       let buf = data @ drop (length data) (bs_record_buf s) in
       rbind (rassert (iid = aa_iid (cast_accept_ack buf))) (\<lambda>_.
         Ok (Some (buffer_record buf), s\<lparr>bs_lib := e, bs_record_buf := buf\<rparr>)))"

definition bdb_storage_save_accept ::
  "'e bdb_api \<Rightarrow> 'e bdb_storage \<Rightarrow> accept_req \<Rightarrow> (acceptor_record \<times> 'e bdb_storage) res" where
  "bdb_storage_save_accept api s ar =
     rbind (set_value (ar_value ar) (ar_value_size ar)
       (set_fields (ar_iid ar) (ar_ballot ar) (ar_ballot ar) 0 (ar_value_size ar)
         (set_acceptor_id (bs_acceptor_id s) (bs_record_buf s)))) (\<lambda>buf.
     rbind (put_record api (s\<lparr>bs_record_buf := buf\<rparr>) (ar_iid ar)) (\<lambda>s1.
       Ok (buffer_record buf, s1)))"

text \<open>A record that is not NULL is the pointer \<open>storage_get_record\<close> returned: the buffer.\<close>

definition bdb_storage_save_prepare ::
  "'e bdb_api \<Rightarrow> 'e bdb_storage \<Rightarrow> prepare_req \<Rightarrow> acceptor_record option \<Rightarrow>
   (acceptor_record \<times> 'e bdb_storage) res" where
  "bdb_storage_save_prepare api s pr rec =
     (let buf = (case rec of
          None \<Rightarrow> set_fields (pr_iid pr) (pr_ballot pr) 0 0 0
                    (set_acceptor_id (bs_acceptor_id s) (bs_record_buf s))
        | Some _ \<Rightarrow> set_ballot (pr_ballot pr) (bs_record_buf s)) in
      rbind (put_record api (s\<lparr>bs_record_buf := buf\<rparr>) (pr_iid pr)) (\<lambda>s1.
        Ok (buffer_record buf, s1)))"

definition bdb_storage_save_final_value ::
  "'e bdb_api \<Rightarrow> 'e bdb_storage \<Rightarrow> byte list \<Rightarrow> size_t \<Rightarrow> iid_t \<Rightarrow> ballot_t \<Rightarrow>
   (acceptor_record \<times> 'e bdb_storage) res" where
  "bdb_storage_save_final_value api s v n iid b =
     rbind (set_value v n (set_fields iid b b 1 n (bs_record_buf s))) (\<lambda>buf.
     rbind (put_record api (s\<lparr>bs_record_buf := buf\<rparr>) iid) (\<lambda>s1.
       Ok (buffer_record buf, s1)))"

text \<open>
  The loop over the cursor: every key replaces the one before. It ends when the cursor reports
  something else than success; \<open>None\<close> stands for a cursor that never does.
\<close>

partial_function (option) walk_cursor ::
  "('e \<Rightarrow> int \<times> byte list \<times> 'e) \<Rightarrow> 'e \<Rightarrow> iid_t \<Rightarrow> (int \<times> iid_t \<times> 'e) option" where
  "walk_cursor c_get e max_iid =
     (case c_get e of (ret, key, e1) \<Rightarrow>
        if ret = 0 then walk_cursor c_get e1 (dec32 0 key) else Some (ret, max_iid, e1))"

declare walk_cursor.simps [code]

definition bdb_storage_get_max_iid :: "'e bdb_api \<Rightarrow> 'e bdb_storage \<Rightarrow> iid_t option" where
  "bdb_storage_get_max_iid api s =
     (case db_cursor api (bs_lib s) of (ret, e) \<Rightarrow>
      if ret \<noteq> 0 then Some 1
      else
        case walk_cursor (dbc_get api) e 0 of
          None \<Rightarrow> None
        | Some (ret, max_iid, _) \<Rightarrow> Some (if ret \<noteq> DB_NOTFOUND then 0 else max_iid))"

definition bdb_ops :: "'e bdb_api \<Rightarrow> 'e bdb_storage storage_ops" where
  "bdb_ops api =
     \<lparr>so_tx_begin = bdb_storage_tx_begin api,
      so_tx_commit = bdb_storage_tx_commit api,
      so_get_record = bdb_storage_get_record api,
      so_save_accept = bdb_storage_save_accept api,
      so_save_prepare = bdb_storage_save_prepare api,
      so_close = bdb_storage_close api\<rparr>"

lemma bdb_ops_sel [simp]:
  "so_tx_begin (bdb_ops api) = bdb_storage_tx_begin api"
  "so_tx_commit (bdb_ops api) = bdb_storage_tx_commit api"
  "so_get_record (bdb_ops api) = bdb_storage_get_record api"
  "so_save_accept (bdb_ops api) = bdb_storage_save_accept api"
  "so_save_prepare (bdb_ops api) = bdb_storage_save_prepare api"
  "so_close (bdb_ops api) = bdb_storage_close api"
  by (simp_all add: bdb_ops_def)

section \<open>Bytes of a record\<close>

lemma enc32_inj: "enc32 i = enc32 j \<longleftrightarrow> i = j"
  by (metis dec_first(1))

text \<open>Fields read from the front of a buffer.\<close>

lemma dec_prefix:
  "off + 4 \<le> length d \<Longrightarrow> dec32 off (d @ x) = dec32 off d"
  "off + 8 \<le> length d \<Longrightarrow> dec64 off (d @ x) = dec64 off d"
  "off + 4 \<le> length d \<Longrightarrow> dec_int off (d @ x) = dec_int off d"
  "off + 2 \<le> length d \<Longrightarrow> dec_short off (d @ x) = dec_short off d"
  by (simp_all add: dec32_def dec64_def dec_int_def dec_short_def)

lemma dec_take:
  "off + 4 \<le> m \<Longrightarrow> dec32 off (take m d) = dec32 off d"
  "off + 8 \<le> m \<Longrightarrow> dec64 off (take m d) = dec64 off d"
  "off + 4 \<le> m \<Longrightarrow> dec_int off (take m d) = dec_int off d"
  "off + 2 \<le> m \<Longrightarrow> dec_short off (take m d) = dec_short off d"
  by (simp_all add: dec32_def dec64_def dec_int_def dec_short_def drop_take min_def)

lemma dec_drop:
  "dec32 off (drop k d) = dec32 (k + off) d" "dec64 off (drop k d) = dec64 (k + off) d"
  "dec_int off (drop k d) = dec_int (k + off) d" "dec_short off (drop k d) = dec_short (k + off) d"
  by (simp_all add: dec32_def dec64_def dec_int_def dec_short_def add.commute)

text \<open>
  A database entry for instance \<open>i\<close>: a record of that instance with all the bytes its
  \<open>value_size\<close> announces, not larger than the buffer.
\<close>

definition data_ok :: "iid_t \<Rightarrow> byte list \<Rightarrow> bool" where
  "data_ok i d \<longleftrightarrow> length d = 32 + unat (dec64 24 d) \<and> length d \<le> PAXOS_MAX_VALUE_SIZE \<and> dec32 4 d = i"

lemma buffer_record_data:
  assumes "length d = 32 + unat (dec64 24 d)"
  shows "buffer_record (d @ x) = buffer_record d"
  using assms
  by (simp add: buffer_record_def cast_accept_ack_def aa_payload_def Let_def dec_prefix)

lemma buffer_record_iid: "aa_iid (buffer_record d) = dec32 4 d"
  by (simp add: buffer_record_def cast_accept_ack_def Let_def)

text \<open>A buffer that holds a whole record stores and shows that record.\<close>

definition record_in :: "iid_t \<Rightarrow> byte list \<Rightarrow> bool" where
  "record_in i buf \<longleftrightarrow> length buf = PAXOS_MAX_VALUE_SIZE \<and>
     32 + unat (dec64 24 buf) \<le> PAXOS_MAX_VALUE_SIZE \<and> dec32 4 buf = i"

lemma record_size:
  assumes "record_in i buf"
  shows "unat (ucast (ACCEPT_ACK_SIZE (cast_accept_ack buf)) :: 32 word) = 32 + unat (dec64 24 buf)"
proof -
  have lt: "32 + unat (dec64 24 buf) < 2 ^ 32"
    using assms by (simp add: record_in_def PAXOS_MAX_VALUE_SIZE_def)
  then have "unat (dec64 24 buf + 32) = 32 + unat (dec64 24 buf)"
    by (simp add: unat_word_ariths)
  with lt show ?thesis
    by (simp add: ACCEPT_ACK_SIZE_def cast_accept_ack_def sizeof_defs unsigned_ucast_eq take_bit_nat_eq_self)
qed

lemma record_data:
  assumes "record_in i buf"
  shows "data_ok i (take (32 + unat (dec64 24 buf)) buf)"
    "buffer_record (take (32 + unat (dec64 24 buf)) buf) = buffer_record buf"
proof -
  let ?d = "take (32 + unat (dec64 24 buf)) buf"
  have f: "dec64 24 ?d = dec64 24 buf" "dec32 4 ?d = dec32 4 buf" by (simp_all add: dec_take)
  have l: "length ?d = 32 + unat (dec64 24 buf)" using assms by (simp add: record_in_def)
  then show "data_ok i ?d" using assms f by (simp add: data_ok_def record_in_def)
  have "buffer_record (?d @ drop (32 + unat (dec64 24 buf)) buf) = buffer_record ?d"
    using l f by (intro buffer_record_data) simp
  then show "buffer_record ?d = buffer_record buf" by simp
qed

text \<open>The buffers that the three save functions build.\<close>

lemma accept_buffer:
  assumes len: "length buf = PAXOS_MAX_VALUE_SIZE"
    and aid: "- (2 ^ 31) \<le> aid" "aid < 2 ^ 31"
    and set: "set_value v n (set_fields i b vb 0 n (set_acceptor_id aid buf)) = Ok buf2"
  shows "record_in i buf2 \<and> unat n \<le> length v \<and>
     buffer_record buf2 = \<lparr>aa_acceptor_id = aid, aa_iid = i, aa_ballot = b, aa_value_ballot = vb,
       aa_is_final = 0, aa_value_size = n, aa_value = take (unat n) v\<rparr>"
proof -
  define pad where "pad = take 6 (drop 14 (drop 4 buf))"
  define rest where "rest = drop (unat n) (drop 32 buf)"
  have pad: "length pad = 6" using len by (simp add: pad_def PAXOS_MAX_VALUE_SIZE_def)
  have n: "unat n \<le> length v" "unat n + 32 \<le> PAXOS_MAX_VALUE_SIZE"
    using set by (auto simp: set_value_def res_simps sizeof_defs PAXOS_MAX_VALUE_SIZE_def)
  have buf2: "buf2 = enc_int aid @ enc32 i @ enc32 b @ enc32 vb @ enc_short 0 @ pad @ enc64 n @
      take (unat n) v @ rest"
    using set len pad
    by (auto simp: set_value_def set_fields_def set_acceptor_id_def res_simps sizeof_defs pad_def rest_def
        PAXOS_MAX_VALUE_SIZE_def)
  have "length buf2 = PAXOS_MAX_VALUE_SIZE"
    using n len pad by (simp add: buf2 rest_def PAXOS_MAX_VALUE_SIZE_def)
  then show ?thesis
    using n pad aid
    by (simp add: record_in_def buf2 buffer_record_def cast_accept_ack_def aa_payload_def Let_def)
qed

lemma promise_buffer:
  assumes len: "length buf = PAXOS_MAX_VALUE_SIZE"
    and aid: "- (2 ^ 31) \<le> aid" "aid < 2 ^ 31"
  shows "record_in i (set_fields i b vb 0 0 (set_acceptor_id aid buf)) \<and>
     buffer_record (set_fields i b vb 0 0 (set_acceptor_id aid buf)) =
       \<lparr>aa_acceptor_id = aid, aa_iid = i, aa_ballot = b, aa_value_ballot = vb,
        aa_is_final = 0, aa_value_size = 0, aa_value = []\<rparr>"
proof -
  let ?buf2 = "set_fields i b vb 0 0 (set_acceptor_id aid buf)"
  have "set_value [] 0 ?buf2 = Ok ?buf2"
    by (simp add: set_value_def memcpy_def)
  from accept_buffer [OF len aid this] show ?thesis by simp
qed

lemma ballot_buffer:
  assumes buf: "record_in i buf"
  shows "record_in i (set_ballot b buf) \<and>
     buffer_record (set_ballot b buf) = (buffer_record buf)\<lparr>aa_ballot := b\<rparr>"
proof -
  have len: "length buf = PAXOS_MAX_VALUE_SIZE" using buf by (simp add: record_in_def)
  then have l: "12 \<le> length buf" "length (take 8 buf) = 8" by (simp_all add: PAXOS_MAX_VALUE_SIZE_def)
  have f: "dec_int 0 (set_ballot b buf) = dec_int 0 buf" "dec32 4 (set_ballot b buf) = dec32 4 buf"
    "dec32 8 (set_ballot b buf) = b" "dec32 12 (set_ballot b buf) = dec32 12 buf"
    "dec_short 16 (set_ballot b buf) = dec_short 16 buf" "dec64 24 (set_ballot b buf) = dec64 24 buf"
    "drop 32 (set_ballot b buf) = drop 32 buf" "length (set_ballot b buf) = length buf"
    using l by (simp_all add: set_ballot_def dec_prefix dec_take dec_drop)
  show ?thesis
    using buf
    by (simp add: record_in_def f buffer_record_def cast_accept_ack_def aa_payload_def Let_def)
qed

section \<open>The contract\<close>

text \<open>The records of a storage and its invariant, over what the database holds.\<close>

definition bdb_lookup ::
  "('e \<Rightarrow> byte list \<Rightarrow> byte list option) \<Rightarrow> 'e bdb_storage \<Rightarrow> iid_t \<Rightarrow> acceptor_record option" where
  "bdb_lookup contents s i = map_option buffer_record (contents (bs_lib s) (enc32 i))"

definition bdb_inv ::
  "('e \<Rightarrow> byte list \<Rightarrow> byte list option) \<Rightarrow> ('e \<Rightarrow> bool) \<Rightarrow> 'e bdb_storage \<Rightarrow> bool" where
  "bdb_inv contents good s \<longleftrightarrow>
     good (bs_lib s) \<and> bs_db s \<and> bs_env s \<and> length (bs_record_buf s) = PAXOS_MAX_VALUE_SIZE \<and>
     - (2 ^ 31) \<le> bs_acceptor_id s \<and> bs_acceptor_id s < 2 ^ 31 \<and>
     (\<forall>i d. contents (bs_lib s) (enc32 i) = Some d \<longrightarrow> data_ok i d)"

abbreviation bdb_live :: "'e bdb_storage \<Rightarrow> iid_t \<Rightarrow> bool" where
  "bdb_live s i \<equiv> True"

text \<open>
  The behaviour of the database as its reference manual documents it. \<open>contents\<close> is what the current
  transaction sees of the database, \<open>good\<close> that the environment and the database are open. A begin or
  a commit that succeeds does not change what is seen; a get that succeeds gives the data of the key,
  which fit the buffer, and one that reports a missing key is right about it; it may return any other
  error number. A put that succeeds replaces the data. Nothing is said of calls that fail.
\<close>

locale bdb =
  fixes api :: "'e bdb_api"
    and contents :: "'e \<Rightarrow> byte list \<Rightarrow> byte list option"
    and good :: "'e \<Rightarrow> bool"
  assumes txn_begin_law: "good e \<Longrightarrow> env_txn_begin api e = (0, e1) \<Longrightarrow> good e1 \<and> contents e1 = contents e"
    and commit_law: "good e \<Longrightarrow> txn_commit api e = (0, e1) \<Longrightarrow> good e1 \<and> contents e1 = contents e"
    and get_law: "good e \<Longrightarrow> db_get api e k ulen = (r, d, e1) \<Longrightarrow>
      good e1 \<and> contents e1 = contents e \<and> (r = 0 \<longrightarrow> contents e k = Some d \<and> length d \<le> ulen) \<and>
      (r = DB_NOTFOUND \<or> r = DB_KEYEMPTY \<longrightarrow> contents e k = None)"
    and put_law: "good e \<Longrightarrow> db_put api e k d = (0, e1) \<Longrightarrow>
      good e1 \<and> contents e1 = (contents e)(k \<mapsto> d)"
begin

lemma tx_begin_ok:
  assumes "bdb_inv contents good s" "bdb_storage_tx_begin api s = Ok t"
  shows "bdb_inv contents good t \<and> bs_acceptor_id t = bs_acceptor_id s \<and> contents (bs_lib t) = contents (bs_lib s)"
proof -
  obtain r e where "env_txn_begin api (bs_lib s) = (r, e)" by force
  with assms txn_begin_law [of "bs_lib s" e] show ?thesis
    by (auto simp: bdb_storage_tx_begin_def bdb_inv_def res_simps)
qed

lemma tx_commit_ok:
  assumes "bdb_inv contents good s" "bdb_storage_tx_commit api s = Ok t"
  shows "bdb_inv contents good t \<and> bs_acceptor_id t = bs_acceptor_id s \<and> contents (bs_lib t) = contents (bs_lib s)"
proof -
  obtain r e where "txn_commit api (bs_lib s) = (r, e)" by force
  with assms commit_law [of "bs_lib s" e] show ?thesis
    by (auto simp: bdb_storage_tx_commit_def bdb_inv_def res_simps)
qed

lemma put_record_ok:
  assumes inv: "bdb_inv contents good s" and buf: "record_in i buf"
    and put: "put_record api (s\<lparr>bs_record_buf := buf\<rparr>) i = Ok u"
  shows "bdb_inv contents good u \<and> bs_acceptor_id u = bs_acceptor_id s \<and>
     store_write (bdb_lookup contents) bdb_live i (buffer_record buf) s u"
proof -
  let ?d = "take (32 + unat (dec64 24 buf)) buf"
  obtain r e where g: "db_put api (bs_lib s) (enc32 i) ?d = (r, e)" by force
  with put have r: "r = 0" and u: "u = s\<lparr>bs_record_buf := buf, bs_lib := e\<rparr>"
    by (auto simp: put_record_def record_size [OF buf] Let_def res_simps split: if_splits)
  have "good (bs_lib s)" using inv by (simp add: bdb_inv_def)
  from put_law [OF this] g r have e: "good e" "contents e = (contents (bs_lib s))(enc32 i \<mapsto> ?d)" by auto
  have "bdb_inv contents good u"
    using inv u e buf record_data(1) [OF buf]
    by (auto simp: bdb_inv_def record_in_def enc32_inj split: if_splits)
  then show ?thesis
    using u e record_data(2) [OF buf]
    by (auto simp: store_write_def bdb_lookup_def enc32_inj)
qed

lemma save_accept_ok:
  assumes inv: "bdb_inv contents good s" and sv: "bdb_storage_save_accept api s ar = Ok (rec, u)"
  shows "bdb_inv contents good u \<and> bs_acceptor_id u = bs_acceptor_id s \<and>
     is_accept_record (bs_acceptor_id s) ar rec \<and> store_write (bdb_lookup contents) bdb_live (ar_iid ar) rec s u"
proof -
  from sv obtain buf where buf: "set_value (ar_value ar) (ar_value_size ar)
       (set_fields (ar_iid ar) (ar_ballot ar) (ar_ballot ar) 0 (ar_value_size ar)
         (set_acceptor_id (bs_acceptor_id s) (bs_record_buf s))) = Ok buf"
    and put: "put_record api (s\<lparr>bs_record_buf := buf\<rparr>) (ar_iid ar) = Ok u"
    and rec: "rec = buffer_record buf"
    by (auto simp: bdb_storage_save_accept_def res_simps)
  from inv have "length (bs_record_buf s) = PAXOS_MAX_VALUE_SIZE" "- (2 ^ 31) \<le> bs_acceptor_id s"
    "bs_acceptor_id s < 2 ^ 31" by (simp_all add: bdb_inv_def)
  note b = accept_buffer [OF this buf]
  then have "is_accept_record (bs_acceptor_id s) ar rec"
    by (simp add: rec is_accept_record_def payload_defs)
  with put_record_ok [OF inv _ put] b rec show ?thesis by simp
qed

end

text \<open>
  What the storage relies on beyond the manual: a read of a stored record that fits the buffer does not
  fail. The manual allows it to (a deadlock, a failed disk), \<open>bdb_storage_get_record\<close> then reports a
  missing record, and \<open>read_error_overwrites\<close> below shows what the acceptor makes of it.
\<close>

locale bdb_reads = bdb api contents good
  for api :: "'e bdb_api" and contents :: "'e \<Rightarrow> byte list \<Rightarrow> byte list option" and good :: "'e \<Rightarrow> bool" +
  assumes read_law: "good e \<Longrightarrow> contents e k = Some x \<Longrightarrow> length x \<le> ulen \<Longrightarrow>
    db_get api e k ulen = (r, d, e1) \<Longrightarrow> r = 0"
begin

lemma get_record_ok:
  assumes inv: "bdb_inv contents good s" and get: "bdb_storage_get_record api s i = Ok (old, t)"
  shows "bdb_inv contents good t \<and> bs_acceptor_id t = bs_acceptor_id s \<and> contents (bs_lib t) = contents (bs_lib s) \<and>
     old = bdb_lookup contents s i \<and> (old \<noteq> None \<longrightarrow> record_in i (bs_record_buf t) \<and> old = Some (buffer_record (bs_record_buf t)))"
proof -
  obtain r d e where g: "db_get api (bs_lib s) (enc32 i) PAXOS_MAX_VALUE_SIZE = (r, d, e)"
    by (metis prod_cases3)
  have "good (bs_lib s)" using inv by (simp add: bdb_inv_def)
  note law = get_law [OF this g] and read = read_law [OF this _ _ g]
  show ?thesis
  proof (cases "contents (bs_lib s) (enc32 i)")
    case None
    with law have "r \<noteq> 0" by auto
    with get g inv have "old = None" "t = s\<lparr>bs_lib := e\<rparr>"
      by (simp_all add: bdb_storage_get_record_def bdb_inv_def split: if_splits)
    with None law inv show ?thesis by (simp add: bdb_inv_def bdb_lookup_def)
  next
    case (Some x)
    with inv have x: "data_ok i x" by (simp add: bdb_inv_def)
    then have "r = 0" using read [OF Some] by (simp add: data_ok_def)
    with Some law have e: "r = 0" "d = x" "good e" "contents e = contents (bs_lib s)" by simp_all
    let ?buf = "x @ drop (length x) (bs_record_buf s)"
    have "record_in i ?buf"
      using x inv by (simp add: record_in_def data_ok_def bdb_inv_def dec_prefix)
    moreover have "buffer_record ?buf = buffer_record x"
      using x by (intro buffer_record_data) (simp add: data_ok_def)
    moreover have "old = Some (buffer_record ?buf)" "t = s\<lparr>bs_lib := e, bs_record_buf := ?buf\<rparr>"
      using get g e inv
      by (auto simp: bdb_storage_get_record_def bdb_inv_def DB_NOTFOUND_def DB_KEYEMPTY_def res_simps Let_def)
    ultimately show ?thesis
      using e Some inv by (auto simp: bdb_inv_def bdb_lookup_def record_in_def)
  qed
qed

lemma save_prepare_ok:
  assumes inv: "bdb_inv contents good s" and get: "bdb_storage_get_record api s (pr_iid pr) = Ok (old, t)"
    and sv: "bdb_storage_save_prepare api t pr old = Ok (rec, u)"
  shows "bdb_inv contents good u \<and> bs_acceptor_id u = bs_acceptor_id s \<and>
     is_prepared_record (bs_acceptor_id s) pr old rec \<and> store_write (bdb_lookup contents) bdb_live (pr_iid pr) rec s u"
proof -
  note g = get_record_ok [OF inv get]
  then have t: "bdb_inv contents good t" by simp
  then have tb: "length (bs_record_buf t) = PAXOS_MAX_VALUE_SIZE" "- (2 ^ 31) \<le> bs_acceptor_id t"
    "bs_acceptor_id t < 2 ^ 31" by (simp_all add: bdb_inv_def)
  define buf where "buf = (case old of
      None \<Rightarrow> set_fields (pr_iid pr) (pr_ballot pr) 0 0 0 (set_acceptor_id (bs_acceptor_id t) (bs_record_buf t))
    | Some _ \<Rightarrow> set_ballot (pr_ballot pr) (bs_record_buf t))"
  from sv have put: "put_record api (t\<lparr>bs_record_buf := buf\<rparr>) (pr_iid pr) = Ok u"
    and rec: "rec = buffer_record buf"
    by (auto simp: bdb_storage_save_prepare_def Let_def res_simps buf_def)
  have b: "record_in (pr_iid pr) buf \<and> is_prepared_record (bs_acceptor_id s) pr old rec"
  proof (cases old)
    case None
    with promise_buffer [OF tb, of "pr_iid pr" "pr_ballot pr" 0] g rec show ?thesis
      by (simp add: buf_def is_prepared_record_def is_promise_record_def)
  next
    case (Some r)
    with g ballot_buffer [of "pr_iid pr" "bs_record_buf t" "pr_ballot pr"] rec show ?thesis
      by (simp add: buf_def is_prepared_record_def)
  qed
  from put_record_ok [OF t _ put] b rec g show ?thesis
    by (simp add: store_write_def bdb_lookup_def)
qed

text \<open>The storage keeps the contract of the acceptor.\<close>

sublocale bs: record_store "bdb_ops api" "bdb_lookup contents" bdb_live bs_acceptor_id "bdb_inv contents good"
proof (unfold_locales, goal_cases)
  case (1 s t)
  with tx_begin_ok [of s t] show ?case by (simp add: bdb_lookup_def fun_eq_iff)
next
  case (2 s t)
  with tx_commit_ok [of s t] show ?case by (simp add: bdb_lookup_def fun_eq_iff)
next
  case (3 s i old t)
  with get_record_ok [of s i old t] show ?case by (auto simp: bdb_lookup_def fun_eq_iff)
next
  case (4 s ar old t rec u)
  with get_record_ok [of s "ar_iid ar" old t] save_accept_ok [of t ar rec u] show ?case
    by (simp add: store_write_def bdb_lookup_def)
next
  case (5 s pr old t rec u)
  with save_prepare_ok [of s pr old t rec u] show ?case by simp
next
  case (6 s i r)
  then show ?case by (auto simp: bdb_lookup_def bdb_inv_def data_ok_def buffer_record_iid)
qed

lemma contract:
  "record_store (bdb_ops api) (bdb_lookup contents) bdb_live bs_acceptor_id (bdb_inv contents good)"
  by (rule bs.record_store_axioms)

lemma fresh_store_ok:
  "bdb_inv contents good s \<Longrightarrow> \<forall>i. bdb_lookup contents s i = None \<Longrightarrow> bs.store_ok s"
  by (simp add: bs.store_ok_def)

end

section \<open>Failures\<close>

context bdb
begin

text \<open>
  A read that fails is not told apart from a record that does not exist: the acceptor promises
  any ballot and overwrites what it had promised and accepted before.
\<close>

lemma read_error_overwrites:
  assumes inv: "bdb_inv contents good (acc_store a)"
    and get: "db_get api (snd (env_txn_begin api (bs_lib (acc_store a)))) (enc32 (pr_iid pr)) PAXOS_MAX_VALUE_SIZE = (r, d, e)"
    and r: "r \<noteq> 0"
    and run: "acceptor_receive_prepare (bdb_ops api) a pr = Ok (rec, b)"
  shows "is_promise_record (bs_acceptor_id (acc_store a)) pr rec \<and>
    bdb_lookup contents (acc_store b) (pr_iid pr) = Some rec"
proof -
  from run obtain s0 old s1 s3 s4 where
    1: "bdb_storage_tx_begin api (acc_store a) = Ok s0" and
    2: "bdb_storage_get_record api s0 (pr_iid pr) = Ok (old, s1)" and
    3: "apply_prepare (bdb_ops api) s1 pr old = Ok (rec, s3)" and
    4: "bdb_storage_tx_commit api s3 = Ok s4" and b: "acc_store b = s4"
    by (auto simp: acceptor_receive_prepare_def res_simps)
  note S0 = tx_begin_ok [OF inv 1]
  have lib: "bs_lib s0 = snd (env_txn_begin api (bs_lib (acc_store a)))" and s0: "good (bs_lib s0)"
    using 1 S0 by (auto simp: bdb_storage_tx_begin_def bdb_inv_def res_simps split: prod.splits)
  note G = get_law [OF s0 get [folded lib]]
  have old: "old = None" "s1 = s0\<lparr>bs_lib := e\<rparr>"
    using 2 r get [folded lib] by (auto simp: bdb_storage_get_record_def res_simps split: if_splits)
  have s1: "bdb_inv contents good s1" "bs_acceptor_id s1 = bs_acceptor_id (acc_store a)"
    using S0 G by (auto simp: old(2) bdb_inv_def)
  from 3 old(1) have sv: "bdb_storage_save_prepare api s1 pr None = Ok (rec, s3)"
    by (simp add: apply_prepare_def)
  define buf where "buf = set_fields (pr_iid pr) (pr_ballot pr) 0 0 0
      (set_acceptor_id (bs_acceptor_id s1) (bs_record_buf s1))"
  from s1(1) have "length (bs_record_buf s1) = PAXOS_MAX_VALUE_SIZE" "- (2 ^ 31) \<le> bs_acceptor_id s1"
    "bs_acceptor_id s1 < 2 ^ 31" by (simp_all add: bdb_inv_def)
  note P = promise_buffer [OF this, of "pr_iid pr" "pr_ballot pr" 0, folded buf_def]
  from sv have put: "put_record api (s1\<lparr>bs_record_buf := buf\<rparr>) (pr_iid pr) = Ok s3"
    and rec: "rec = buffer_record buf"
    by (auto simp: bdb_storage_save_prepare_def Let_def res_simps buf_def)
  from put_record_ok [OF s1(1) _ put] P have s3: "bdb_inv contents good s3"
    "bdb_lookup contents s3 (pr_iid pr) = Some (buffer_record buf)" by (simp_all add: store_write_def)
  have "bdb_lookup contents s4 = bdb_lookup contents s3"
    using tx_commit_ok [OF s3(1) 4] by (simp add: bdb_lookup_def fun_eq_iff)
  with s3 P rec s1(2) b show ?thesis by (simp add: is_promise_record_def)
qed

end

text \<open>
  An environment that cannot be opened is reported and then used: \<open>bdb_init_db\<close> starts a
  transaction through the NULL pointer.
\<close>

lemma open_without_env:
  assumes "\<not> bs_env s" "db_create api (bs_lib s) = (0, e)"
  shows "bdb_init_db api s f = Err NullPointer"
  using assms by (simp add: bdb_init_db_def bdb_storage_tx_begin_def deref_def)

lemma init_tx_handle_fails:
  assumes "bdb_init_tx_handle api cfg s path = (r, s1)" "r \<noteq> 0"
  shows "bs_env s1 = bs_env s"
  using assms by (auto simp: bdb_init_tx_handle_def split: prod.splits if_splits)

section \<open>Files\<close>

text \<open>
  What opening and coming back rely on: \<open>disk\<close> is the database in the directory of the environment, as
  a process that opens it with \<open>DB_RECOVER\<close> finds it, \<open>None\<close> when the directory does not exist.
  \<open>nosync\<close> is the flag \<open>DB_TXN_WRITE_NOSYNC\<close> of the environment, which is not set in a new one. An open
  database starts with what is on disk. What a transaction does is not on disk before its commit; a
  commit writes it there, unless the flag is set: then nothing is said of the disk.
\<close>

locale bdb_files = bdb api contents good
  for api :: "'e bdb_api" and contents :: "'e \<Rightarrow> byte list \<Rightarrow> byte list option" and good :: "'e \<Rightarrow> bool" +
  fixes disk :: "'e \<Rightarrow> (byte list \<Rightarrow> byte list option) option"
    and nosync :: "'e \<Rightarrow> bool"
  assumes stat_law: "os_stat api e p = (r, e1) \<Longrightarrow> disk e1 = disk e \<and> (r = 0 \<longleftrightarrow> disk e \<noteq> None)"
    and mkdir_law: "os_mkdir api e p = (0, e1) \<Longrightarrow> disk e1 = Some Map.empty"
    and env_create_law: "db_env_create api e = (0, e1) \<Longrightarrow> disk e1 = disk e \<and> \<not> nosync e1"
    and set_flags_law: "env_set_flags api e f on = (0, e1) \<Longrightarrow> disk e1 = disk e"
    and cachesize_law: "env_set_cachesize api e g b n = (0, e1) \<Longrightarrow> disk e1 = disk e \<and> nosync e1 = nosync e"
    and env_open_law: "env_open api e p f = (0, e1) \<Longrightarrow> disk e1 = disk e \<and> nosync e1 = nosync e"
    and db_create_law: "db_create api e = (0, e1) \<Longrightarrow> disk e1 = disk e \<and> nosync e1 = nosync e"
    and begin_disk_law: "env_txn_begin api e = (0, e1) \<Longrightarrow> disk e1 = disk e \<and> nosync e1 = nosync e"
    and db_open_law: "db_open api e file f = (0, e1) \<Longrightarrow> disk e = Some m \<Longrightarrow>
      good e1 \<and> contents e1 = m \<and> nosync e1 = nosync e"
    and get_disk_law: "db_get api e k ulen = (r, d, e1) \<Longrightarrow> disk e1 = disk e \<and> nosync e1 = nosync e"
    and put_disk_law: "db_put api e k d = (0, e1) \<Longrightarrow> disk e1 = disk e \<and> nosync e1 = nosync e"
    and commit_disk_law: "good e \<Longrightarrow> txn_commit api e = (0, e1) \<Longrightarrow>
      nosync e1 = nosync e \<and> (\<not> nosync e \<longrightarrow> disk e1 = Some (contents e))"
begin

text \<open>The database an opened storage starts with: the one on disk, or an empty one. With \<open>bdb-sync\<close> its
  commits are synchronous.\<close>

lemma init_tx_handle_disk:
  assumes "bdb_init_tx_handle api cfg s path = (0, s1)"
  shows "disk (bs_lib s1) = disk (bs_lib s) \<and> bs_env s1 \<and>
    s1 = s\<lparr>bs_lib := bs_lib s1, bs_env := True\<rparr> \<and> (bdb_sync cfg \<noteq> 0 \<longrightarrow> \<not> nosync (bs_lib s1))"
  using assms
  by (auto simp: bdb_init_tx_handle_def split: prod.splits if_splits
      dest!: env_create_law set_flags_law cachesize_law env_open_law)

lemma init_db_contents:
  assumes "bdb_init_db api s f = Ok (0, s1)" "disk (bs_lib s) = Some m"
  shows "good (bs_lib s1) \<and> contents (bs_lib s1) = m \<and> nosync (bs_lib s1) = nosync (bs_lib s) \<and>
    (\<not> nosync (bs_lib s) \<longrightarrow> disk (bs_lib s1) = Some m) \<and>
    s1 = s\<lparr>bs_lib := bs_lib s1, bs_db := True, bs_txn := True\<rparr> \<and> bs_env s"
proof -
  obtain e1 where 1: "db_create api (bs_lib s) = (0, e1)"
    using assms(1) by (auto simp: bdb_init_db_def split: prod.splits if_splits)
  obtain e2 where 2: "env_txn_begin api e1 = (0, e2)" and env: "bs_env s"
    using assms(1) 1 by (auto simp: bdb_init_db_def bdb_storage_tx_begin_def deref_def res_simps
        split: prod.splits if_splits)
  obtain e3 where 3: "db_open api e2 f DB_CREATE = (0, e3)"
    using assms(1) 1 2 env by (auto simp: bdb_init_db_def bdb_storage_tx_begin_def res_simps
        split: prod.splits if_splits)
  obtain e4 where 4: "txn_commit api e3 = (0, e4)"
    and s1: "s1 = s\<lparr>bs_lib := e4, bs_db := True, bs_txn := True\<rparr>"
    using assms(1) 1 2 3 env
    by (auto simp: bdb_init_db_def bdb_storage_tx_begin_def bdb_storage_tx_commit_def res_simps
        split: prod.splits if_splits)
  have g: "good e3 \<and> contents e3 = m \<and> nosync e3 = nosync (bs_lib s)"
    using db_open_law [OF 3] assms(2) db_create_law [OF 1] begin_disk_law [OF 2] by simp
  with commit_law [OF _ 4] commit_disk_law [OF _ 4] s1 env show ?thesis by simp
qed

lemma open_storage:
  assumes open_ok: "bdb_storage_open api cfg lib aid = Ok (Some s)"
    and case_disk: "disk lib = None \<or> bdb_trash_files cfg = 0"
  shows "good (bs_lib s) \<and> bs_db s \<and> bs_env s \<and> bs_acceptor_id s = aid \<and>
    length (bs_record_buf s) = PAXOS_MAX_VALUE_SIZE \<and>
    contents (bs_lib s) = (case disk lib of None \<Rightarrow> Map.empty | Some m \<Rightarrow> m) \<and>
    (bdb_sync cfg \<noteq> 0 \<longrightarrow> \<not> nosync (bs_lib s) \<and> disk (bs_lib s) = Some (contents (bs_lib s)))"
proof -
  let ?path = "bdb_env_path cfg @ ''_'' @ print_int aid"
  let ?m = "case disk lib of None \<Rightarrow> Map.empty | Some m \<Rightarrow> m"
  let ?s = "\<lambda>e. \<lparr>bs_lib = e, bs_db = False, bs_env = False, bs_txn = False,
     bs_acceptor_id = aid, bs_record_buf = replicate PAXOS_MAX_VALUE_SIZE 0\<rparr>"
  obtain st e1 where 1: "os_stat api lib ?path = (st, e1)" by force
  note stat = stat_law [OF 1]
  obtain e2 where 2: "disk e2 = Some ?m" and
    init: "(case bdb_init_tx_handle api cfg (?s e2) ?path of (ret, s1) \<Rightarrow>
      rbind (bdb_init_db api s1 (bdb_db_filename cfg)) (\<lambda>(r, s2). Ok (if r \<noteq> 0 then None else Some s2))) = Ok (Some s)"
  proof (cases "st = 0")
    case True
    with stat case_disk have t: "bdb_trash_files cfg = 0" "disk e1 = Some ?m" by auto
    with True open_ok 1 that [of e1] show ?thesis by (simp add: bdb_storage_open_def Let_def)
  next
    case False
    obtain mk e where mk: "os_mkdir api e1 ?path = (mk, e)" by force
    with open_ok 1 False have "mk = 0" by (auto simp: bdb_storage_open_def Let_def split: if_splits)
    moreover from this mkdir_law mk have "disk e = Some Map.empty" by blast
    ultimately show ?thesis
      using open_ok 1 False mk stat that [of e] by (simp add: bdb_storage_open_def Let_def)
  qed
  obtain ret s1 where h: "bdb_init_tx_handle api cfg (?s e2) ?path = (ret, s1)" by force
  have db: "bdb_init_db api s1 (bdb_db_filename cfg) = Ok (0, s)"
    using init h by (auto simp: res_simps split: if_splits)
  have "ret = 0"
  proof (rule ccontr)
    assume "ret \<noteq> 0"
    from init_tx_handle_fails [OF h this] have "\<not> bs_env s1" by simp
    with db show False
      by (auto simp: bdb_init_db_def bdb_storage_tx_begin_def deref_def split: prod.splits if_splits)
  qed
  with h init_tx_handle_disk have s1: "disk (bs_lib s1) = disk e2"
    "s1 = (?s e2)\<lparr>bs_lib := bs_lib s1, bs_env := True\<rparr>" "bdb_sync cfg \<noteq> 0 \<longrightarrow> \<not> nosync (bs_lib s1)" by force+
  have "disk (bs_lib s1) = Some ?m" using s1(1) 2 by simp
  note d = init_db_contents [OF db this]
  then have "s = s1\<lparr>bs_lib := bs_lib s, bs_db := True, bs_txn := True\<rparr>" by simp
  then have f: "bs_db s" "bs_env s = bs_env s1" "bs_acceptor_id s = bs_acceptor_id s1"
    "bs_record_buf s = bs_record_buf s1"
    by (metis bdb_storage.select_convs bdb_storage.surjective bdb_storage.update_convs)+
  from s1(2) have "bs_env s1" "bs_acceptor_id s1 = aid" "bs_record_buf s1 = replicate PAXOS_MAX_VALUE_SIZE 0"
    by (metis bdb_storage.select_convs bdb_storage.surjective bdb_storage.update_convs)+
  with d f s1(3) show ?thesis by simp
qed

lemma open_inv:
  assumes "bdb_storage_open api cfg lib aid = Ok (Some s)" "disk lib = None \<or> bdb_trash_files cfg = 0"
    and "- (2 ^ 31) \<le> aid" "aid < 2 ^ 31"
    and "\<forall>m i d. disk lib = Some m \<longrightarrow> m (enc32 i) = Some d \<longrightarrow> data_ok i d"
  shows "bdb_inv contents good s \<and> bs_acceptor_id s = aid \<and>
    (bdb_sync cfg \<noteq> 0 \<longrightarrow> \<not> nosync (bs_lib s) \<and> disk (bs_lib s) = Some (contents (bs_lib s))) \<and>
    bdb_lookup contents s = (\<lambda>i. map_option buffer_record ((case disk lib of None \<Rightarrow> Map.empty | Some m \<Rightarrow> m) (enc32 i)))"
  using open_storage [OF assms(1,2)] assms(3-5)
  by (auto simp: bdb_inv_def bdb_lookup_def fun_eq_iff split: option.splits)

text \<open>
  A restart: what the storage holds is on disk, the process of the acceptor ends in any state with
  the same disk, and the storage is opened again. It holds the records it held.
\<close>

lemma commit_on_disk:
  assumes "bdb_inv contents good s" "bdb_storage_tx_commit api s = Ok t" "\<not> nosync (bs_lib s)"
  shows "disk (bs_lib t) = Some (contents (bs_lib t)) \<and> contents (bs_lib t) = contents (bs_lib s) \<and> \<not> nosync (bs_lib t)"
proof -
  obtain e where e: "txn_commit api (bs_lib s) = (0, e)" "t = s\<lparr>bs_lib := e\<rparr>"
    using assms(2) by (auto simp: bdb_storage_tx_commit_def res_simps split: prod.splits)
  have "good (bs_lib s)" using assms(1) by (simp add: bdb_inv_def)
  from commit_disk_law [OF this e(1)] commit_law [OF this e(1)] e(2) assms(3) show ?thesis by simp
qed

lemma reopened:
  assumes inv: "bdb_inv contents good s" and d: "disk lib = Some (contents (bs_lib s))"
    and reopen: "bdb_storage_open api cfg lib (bs_acceptor_id s) = Ok (Some u)" "bdb_trash_files cfg = 0"
  shows "bdb_inv contents good u \<and> bs_acceptor_id u = bs_acceptor_id s \<and>
    (bdb_sync cfg \<noteq> 0 \<longrightarrow> \<not> nosync (bs_lib u) \<and> disk (bs_lib u) = Some (contents (bs_lib u))) \<and>
    bdb_lookup contents u = bdb_lookup contents s"
proof -
  have "- (2 ^ 31) \<le> bs_acceptor_id s" "bs_acceptor_id s < 2 ^ 31" using inv by (simp_all add: bdb_inv_def)
  with open_inv [OF reopen(1)] reopen(2) inv d show ?thesis
    by (auto simp: bdb_inv_def bdb_lookup_def fun_eq_iff)
qed

lemma restart:
  assumes inv: "bdb_inv contents good s" and commit: "bdb_storage_tx_commit api s = Ok t" "\<not> nosync (bs_lib s)"
    and crash: "disk lib = disk (bs_lib t)"
    and reopen: "bdb_storage_open api cfg lib (bs_acceptor_id s) = Ok (Some u)" "bdb_trash_files cfg = 0"
  shows "bdb_inv contents good u \<and> bs_acceptor_id u = bs_acceptor_id s \<and> bdb_lookup contents u = bdb_lookup contents s"
  using reopened [OF inv _ reopen] commit_on_disk [OF inv commit] crash by simp

text \<open>Before its commit a call leaves the disk and the flag as they are.\<close>

definition same_files :: "'e bdb_storage \<Rightarrow> 'e bdb_storage \<Rightarrow> bool" where
  "same_files s t \<longleftrightarrow> disk (bs_lib t) = disk (bs_lib s) \<and> nosync (bs_lib t) = nosync (bs_lib s) \<and>
     bs_acceptor_id t = bs_acceptor_id s"

lemma put_record_files: "put_record api s i = Ok t \<Longrightarrow> same_files s t"
  by (auto simp: put_record_def same_files_def Let_def res_simps split: prod.splits if_splits dest: put_disk_law)

lemma before_commit:
  "bdb_storage_tx_begin api s = Ok t \<Longrightarrow> same_files s t"
  "bdb_storage_get_record api s i = Ok (old, t) \<Longrightarrow> same_files s t"
  "bdb_storage_save_prepare api s pr old = Ok (rec, t) \<Longrightarrow> same_files s t"
  "bdb_storage_save_accept api s ar = Ok (rec, t) \<Longrightarrow> same_files s t"
proof -
  show "bdb_storage_tx_begin api s = Ok t \<Longrightarrow> same_files s t"
    by (auto simp: bdb_storage_tx_begin_def same_files_def res_simps split: prod.splits dest: begin_disk_law)
  show "bdb_storage_get_record api s i = Ok (old, t) \<Longrightarrow> same_files s t"
    by (auto simp: bdb_storage_get_record_def same_files_def Let_def res_simps split: prod.splits if_splits
        dest!: get_disk_law)
  show "bdb_storage_save_prepare api s pr old = Ok (rec, t) \<Longrightarrow> same_files s t"
    by (auto simp: bdb_storage_save_prepare_def Let_def res_simps same_files_def
        dest!: put_record_files split: option.splits)
  show "bdb_storage_save_accept api s ar = Ok (rec, t) \<Longrightarrow> same_files s t"
    by (auto simp: bdb_storage_save_accept_def res_simps same_files_def dest!: put_record_files)
qed

end

section \<open>The highest instance\<close>

text \<open>
  The cursor of a database of the default kind, a B-tree without a comparison function of its
  own: it visits the keys in the lexicographic order of their bytes. \<open>ahead\<close> is what the
  cursor still has to visit.
\<close>

locale bdb_cursor = bdb api contents good
  for api :: "'e bdb_api" and contents :: "'e \<Rightarrow> byte list \<Rightarrow> byte list option" and good :: "'e \<Rightarrow> bool" +
  fixes ahead :: "'e \<Rightarrow> byte list list"
  assumes cursor_law: "good e \<Longrightarrow> db_cursor api e = (0, e1) \<Longrightarrow>
      sorted_wrt ord_class.lexordp (ahead e1) \<and> set (ahead e1) = dom (contents e)"
    and next_law: "dbc_get api e = (r, k, e1) \<Longrightarrow>
      (case ahead e of [] \<Rightarrow> r = DB_NOTFOUND | k0 # ks \<Rightarrow> r = 0 \<and> k = k0 \<and> ahead e1 = ks)"
begin

lemma walk_cursor_ends:
  "\<exists>e1. walk_cursor (dbc_get api) e m =
     Some (DB_NOTFOUND, if ahead e = [] then m else dec32 0 (last (ahead e)), e1)"
proof (induction "ahead e" arbitrary: e m)
  case Nil
  obtain r k e1 where g: "dbc_get api e = (r, k, e1)" by (metis prod_cases3)
  with next_law [OF g] Nil have "r = DB_NOTFOUND" by (simp flip: Nil)
  with g Nil show ?case by (subst walk_cursor.simps) (simp add: DB_NOTFOUND_def)
next
  case (Cons x xs)
  obtain r k e1 where g: "dbc_get api e = (r, k, e1)" by (metis prod_cases3)
  have "r = 0 \<and> k = x \<and> ahead e1 = xs"
    using next_law [OF g] by (simp flip: Cons.hyps(2))
  with g Cons.hyps(1) [of e1 "dec32 0 x"] show ?case
    by (subst walk_cursor.simps) (auto simp flip: Cons.hyps(2))
qed

lemma get_max_iid_last:
  assumes "good (bs_lib s)" "db_cursor api (bs_lib s) = (0, e1)"
  shows "\<exists>ks. sorted_wrt ord_class.lexordp ks \<and> set ks = dom (contents (bs_lib s)) \<and>
     bdb_storage_get_max_iid api s = Some (if ks = [] then 0 else dec32 0 (last ks))"
proof -
  obtain e2 where "walk_cursor (dbc_get api) e1 0 =
      Some (DB_NOTFOUND, if ahead e1 = [] then 0 else dec32 0 (last (ahead e1)), e2)"
    using walk_cursor_ends by blast
  with assms(2) have "bdb_storage_get_max_iid api s =
      Some (if ahead e1 = [] then 0 else dec32 0 (last (ahead e1)))"
    by (simp add: bdb_storage_get_max_iid_def)
  with cursor_law [OF assms] show ?thesis by blast
qed

end

end
