(* ===== verification/Ev_Wire.thy ===== *)
theory Ev_Wire
  imports System Peers Storage_Mem Storage_Bdb
begin

text \<open>
  Shared by the three processes: the bytes of a message of the system, and that the components
  do not look behind the value of a message they are given in a larger buffer.
\<close>

section \<open>The bytes of a message\<close>

definition ack_record :: "prepare_ack \<Rightarrow> acceptor_record" where
  "ack_record pa =
     \<lparr>aa_acceptor_id = pa_acceptor_id pa, aa_iid = pa_iid pa, aa_ballot = pa_ballot pa,
      aa_value_ballot = pa_value_ballot pa, aa_is_final = 0, aa_value_size = pa_value_size pa,
      aa_value = pa_value pa\<rparr>"

fun wire :: "byte list \<Rightarrow> message \<Rightarrow> byte list res" where
  "wire pad (MPrepare pr) = Ok (sendbuf_add_prepare_req pr)"
| "wire pad (MPromise pa) = sendbuf_add_prepare_ack (ack_record pa)"
| "wire pad (MAccept ar) = sendbuf_add_accept_req ar"
| "wire pad (MAccepted aa) = sendbuf_add_accept_ack pad aa"
| "wire pad (MNack aa) = sendbuf_add_accept_ack pad aa"

lemma value_bytes_take: "value_bytes (take (unat n) v) n = value_bytes v n"
  by (simp add: value_bytes_def min_def)

lemma wire_promise: "wire pad (MPromise (prepare_ack_of rec)) = sendbuf_add_prepare_ack rec"
  by (simp add: sendbuf_add_prepare_ack_def prepare_ack_of_def ack_record_def Let_def aa_payload_def
      value_bytes_take PREPARE_ACK_SIZE_def)

lemma wire_accepted: "sendbuf_add_accept_ack pad (trunc_ack rec) = sendbuf_add_accept_ack pad rec"
  by (simp add: sendbuf_add_accept_ack_def trunc_ack_def aa_payload_def value_bytes_take ACCEPT_ACK_SIZE_def)

section \<open>Values in a larger buffer\<close>

text \<open>A message with the bytes its size announces, as it lies in the buffer of a receiver.\<close>

definition ar_complete :: "accept_req \<Rightarrow> bool" where
  "ar_complete ar \<longleftrightarrow> unat (ar_value_size ar) = length (ar_value ar)"

definition aa_complete :: "accept_ack \<Rightarrow> bool" where
  "aa_complete aa \<longleftrightarrow> unat (aa_value_size aa) = length (aa_value aa)"

definition pa_complete :: "prepare_ack \<Rightarrow> bool" where
  "pa_complete pa \<longleftrightarrow> unat (pa_value_size pa) = length (pa_value pa)"

lemmas complete_defs = ar_complete_def aa_complete_def pa_complete_def

lemma wrap_value_prefix: "unat n = length v \<Longrightarrow> wrap_value (v @ post) n = wrap_value v n"
  by (simp add: wrap_value_def)

lemma receive_promise_prefix:
  assumes "pa_complete ack"
  shows "proposer_receive_prepare_ack now p (ack\<lparr>pa_value := pa_value ack @ post\<rparr>) =
    proposer_receive_prepare_ack now p ack"
proof -
  have f: "pa_iid (ack\<lparr>pa_value := w\<rparr>) = pa_iid ack" "pa_ballot (ack\<lparr>pa_value := w\<rparr>) = pa_ballot ack"
    "pa_acceptor_id (ack\<lparr>pa_value := w\<rparr>) = pa_acceptor_id ack"
    "pa_value_ballot (ack\<lparr>pa_value := w\<rparr>) = pa_value_ballot ack"
    "pa_value_size (ack\<lparr>pa_value := w\<rparr>) = pa_value_size ack" "pa_value (ack\<lparr>pa_value := w\<rparr>) = w" for w
    by simp_all
  have v: "wrap_value (pa_value ack @ post) (pa_value_size ack) = wrap_value (pa_value ack) (pa_value_size ack)"
    using assms by (simp add: pa_complete_def wrap_value_prefix)
  show ?thesis unfolding proposer_receive_prepare_ack_def f v ..
qed

lemma receive_accepted_prefix:
  "proposer_receive_accept_ack now p (ack\<lparr>aa_value := v\<rparr>) = proposer_receive_accept_ack now p ack"
proof -
  have f: "aa_iid (ack\<lparr>aa_value := v\<rparr>) = aa_iid ack" "aa_ballot (ack\<lparr>aa_value := v\<rparr>) = aa_ballot ack"
    "aa_acceptor_id (ack\<lparr>aa_value := v\<rparr>) = aa_acceptor_id ack"
    "aa_value_ballot (ack\<lparr>aa_value := v\<rparr>) = aa_value_ballot ack"
    by simp_all
  show ?thesis unfolding proposer_receive_accept_ack_def f ..
qed

lemma copy_ack_prefix:
  "aa_complete ack \<Longrightarrow> copy_ack (ack\<lparr>aa_value := aa_value ack @ post\<rparr>) = copy_ack ack"
  by (simp add: copy_ack_def aa_complete_def aa_payload_def)

lemma learner_receive_prefix:
  assumes "aa_complete ack"
  shows "learner_receive_accept l (ack\<lparr>aa_value := aa_value ack @ post\<rparr>) = learner_receive_accept l ack"
proof -
  have add: "instance_add_accept inst (ack\<lparr>aa_value := aa_value ack @ post\<rparr>) = instance_add_accept inst ack" for inst
    by (simp add: instance_add_accept_def copy_ack_prefix [OF assms])
  have f: "aa_iid (ack\<lparr>aa_value := aa_value ack @ post\<rparr>) = aa_iid ack"
    "aa_ballot (ack\<lparr>aa_value := aa_value ack @ post\<rparr>) = aa_ballot ack"
    "aa_acceptor_id (ack\<lparr>aa_value := aa_value ack @ post\<rparr>) = aa_acceptor_id ack"
    by simp_all
  have upd: "learner_update_instance l (ack\<lparr>aa_value := aa_value ack @ post\<rparr>) = learner_update_instance l ack" for l
    unfolding learner_update_instance_def f add ..
  show ?thesis unfolding learner_receive_accept_def f upd ..
qed

text \<open>The storages copy only the value.\<close>

locale payload_storage =
  fixes ops :: "'s storage_ops"
  assumes save_accept_prefix: "ar_complete ar \<Longrightarrow>
    so_save_accept ops s (ar\<lparr>ar_value := ar_value ar @ post\<rparr>) = so_save_accept ops s ar"
begin

lemma receive_accept_prefix:
  assumes "ar_complete ar"
  shows "acceptor_receive_accept ops a (ar\<lparr>ar_value := ar_value ar @ post\<rparr>) = acceptor_receive_accept ops a ar"
proof -
  have "apply_accept ops s (ar\<lparr>ar_value := ar_value ar @ post\<rparr>) r = apply_accept ops s ar r" for s r
    by (cases r) (simp_all add: apply_accept_def save_accept_prefix [OF assms])
  then show ?thesis by (simp add: acceptor_receive_accept_def)
qed

end

interpretation mem_payload: payload_storage mem_ops
  by unfold_locales (simp add: storage_save_accept_def memcpy_def ar_complete_def Let_def)

interpretation bdb_payload: payload_storage "bdb_ops api" for api :: "'e bdb_api"
  by unfold_locales (simp add: bdb_storage_save_accept_def set_value_def memcpy_def ar_complete_def)

end
