(* ===== verification/Evacceptor.thy ===== *)
theory Evacceptor
  imports Tcp_Receiver Ev_Wire
begin

text \<open>
  \<open>evpaxos/evacceptor.c\<close>: the acceptor as a process. It answers a prepare request to the connection
  it came from, sends the record of an accepted value to all connections, and that of a rejected
  request back to its sender. \<open>stack\<close> is what the local array \<open>buffer\<close> holds behind the bytes of
  the message, \<open>pad\<close> the padding bytes of a record.

  The lemmas relate one call of the handler to one step of the system.
\<close>

record 's evacceptor =
  ea_acceptor_id :: int
  ea_conf :: config
  ea_receiver :: tcp_receiver
  ea_state :: "'s acceptor option"

text \<open>\<open>acceptor_new\<close> returns NULL when the storage cannot be opened, which nobody checks.\<close>

definition ea_acceptor :: "'s evacceptor \<Rightarrow> 's acceptor res" where
  "ea_acceptor a = (case ea_state a of None \<Rightarrow> Err NullPointer | Some st \<Rightarrow> Ok st)"

section \<open>Handlers\<close>

definition handle_prepare_req ::
  "'w libevent \<Rightarrow> 's storage_ops \<Rightarrow> bev \<Rightarrow> prepare_req \<Rightarrow> 'w \<times> 's evacceptor \<Rightarrow> ('w \<times> 's evacceptor) res" where
  "handle_prepare_req ev ops b pr x =
     (case x of (w, a) \<Rightarrow>
      rbind (ea_acceptor a) (\<lambda>st0.
      rbind (acceptor_receive_prepare ops st0 pr) (\<lambda>(rec, st).
      rbind (sendbuf_add_prepare_ack rec) (\<lambda>bytes.
        Ok (bufferevent_write ev w b bytes, a\<lparr>ea_state := Some st\<rparr>)))))"

text \<open>The loop over the connections of the receiver.\<close>

definition send_accept_acks ::
  "'w libevent \<Rightarrow> byte list \<Rightarrow> bev carray \<Rightarrow> acceptor_record \<Rightarrow> 'w \<Rightarrow> 'w res" where
  "send_accept_acks ev pad bevs rec w =
     for_loop [0..<carray_count bevs] (\<lambda>i w.
       rbind (carray_item bevs (int i)) (\<lambda>b.
       rbind (sendbuf_add_accept_ack pad rec) (\<lambda>bytes. Ok (bufferevent_write ev w b bytes)))) w"

definition handle_accept_req ::
  "'w libevent \<Rightarrow> 's storage_ops \<Rightarrow> byte list \<Rightarrow> bev \<Rightarrow> accept_req \<Rightarrow> 'w \<times> 's evacceptor \<Rightarrow>
   ('w \<times> 's evacceptor) res" where
  "handle_accept_req ev ops pad b ar x =
     (case x of (w, a) \<Rightarrow>
      rbind (ea_acceptor a) (\<lambda>st0.
      rbind (acceptor_receive_accept ops st0 ar) (\<lambda>(rec, st).
      rbind (if ar_ballot ar = aa_ballot rec then
               send_accept_acks ev pad (tcp_receiver_get_events (ea_receiver a)) rec w
             else rbind (sendbuf_add_accept_ack pad rec) (\<lambda>bytes. Ok (bufferevent_write ev w b bytes))) (\<lambda>w1.
        Ok (w1, a\<lparr>ea_state := Some st\<rparr>)))))"

definition handle_repeat_req ::
  "'w libevent \<Rightarrow> 's storage_ops \<Rightarrow> byte list \<Rightarrow> bev \<Rightarrow> iid_t \<Rightarrow> 'w \<times> 's evacceptor \<Rightarrow>
   ('w \<times> 's evacceptor) res" where
  "handle_repeat_req ev ops pad b iid x =
     (case x of (w, a) \<Rightarrow>
      rbind (ea_acceptor a) (\<lambda>st0.
      rbind (acceptor_receive_repeat ops st0 iid) (\<lambda>(r, st).
        case r of
          None \<Rightarrow> Ok (w, a\<lparr>ea_state := Some st\<rparr>)
        | Some rec \<Rightarrow>
            rbind (sendbuf_add_accept_ack pad rec) (\<lambda>bytes.
              Ok (bufferevent_write ev w b bytes, a\<lparr>ea_state := Some st\<rparr>)))))"

definition handle_req ::
  "'w libevent \<Rightarrow> 's storage_ops \<Rightarrow> byte list \<Rightarrow> byte list \<Rightarrow> bev \<Rightarrow> 'w \<times> 's evacceptor \<Rightarrow>
   ('w \<times> 's evacceptor) res" where
  "handle_req ev ops stack pad b x =
     (case x of (w, a) \<Rightarrow>
      case remove_msg ev b w of
        (None, w1) \<Rightarrow> Ok (w1, a)
      | (Some (code, _, body), w1) \<Rightarrow>
          (let buffer = body @ stack in
           case code of
             Some prepare_reqs \<Rightarrow> handle_prepare_req ev ops b (cast_prepare_req buffer) (w1, a)
           | Some accept_reqs \<Rightarrow> handle_accept_req ev ops pad b (cast_accept_req buffer) (w1, a)
           | Some repeat_reqs \<Rightarrow> handle_repeat_req ev ops pad b (cast_iid buffer) (w1, a)
           | _ \<Rightarrow> Ok (w1, a)))"

text \<open>The process of a connection: the loop of the receiver with \<open>handle_req\<close> as callback.\<close>

definition evacceptor_on_read ::
  "'w libevent \<Rightarrow> 's storage_ops \<Rightarrow> (nat \<Rightarrow> byte list) \<Rightarrow> byte list \<Rightarrow> bev \<Rightarrow> 'w \<times> 's evacceptor \<Rightarrow>
   ('w \<times> 's evacceptor) res option" where
  "evacceptor_on_read ev ops stack pad b x =
     receiver_on_read ev (\<lambda>k. handle_req ev ops (stack k) pad) b x"

text \<open>\<open>file\<close> is the contents of the configuration file, \<open>db\<close> the result of \<open>storage_open\<close>.\<close>

definition evacceptor_init ::
  "'w libevent \<Rightarrow> int \<Rightarrow> string option \<Rightarrow> paxos_config \<Rightarrow> 's option \<Rightarrow> 'w \<Rightarrow>
   ('w \<times> 's evacceptor) option res" where
  "evacceptor_init ev aid file cfg db w =
     rbind (read_config file cfg) (\<lambda>(conf, _).
       if aid < 0 \<or> aid \<ge> int (acceptors_count conf) then Ok None
       else
         rbind (arr_read (acceptors conf) (nat aid)) (\<lambda>addr.
         rbind (tcp_receiver_new ev addr w) (\<lambda>(w1, r).
           Ok (Some (w1, \<lparr>ea_acceptor_id = aid, ea_conf = conf, ea_receiver = r,
                           ea_state = acceptor_new db\<rparr>)))))"

text \<open>The result of closing the storage is dropped.\<close>

definition evacceptor_free :: "'w libevent \<Rightarrow> 's storage_ops \<Rightarrow> 's evacceptor \<Rightarrow> 'w \<Rightarrow> (int \<times> 'w) res" where
  "evacceptor_free ev ops a w =
     rbind (ea_acceptor a) (\<lambda>st. case acceptor_free ops st of _ \<Rightarrow>
     rbind (tcp_receiver_free ev (ea_receiver a) w) (\<lambda>w1. Ok (0, w1)))"

section \<open>A call of the handler is a step of the system\<close>

text \<open>The event of the system that stands for a message, and that its message was sent.\<close>

definition acceptor_event :: "nat \<Rightarrow> paxos_msg_code \<Rightarrow> byte list \<Rightarrow> event option" where
  "acceptor_event k c body =
     (case c of
        prepare_reqs \<Rightarrow> Some (EAcceptorPrepare k (cast_prepare_req body))
      | accept_reqs \<Rightarrow> Some (EAcceptorAccept k (cast_accept_req body))
      | repeat_reqs \<Rightarrow> Some (EAcceptorRepeat k (cast_iid body))
      | _ \<Rightarrow> None)"

fun request_sent :: "event \<Rightarrow> 's system \<Rightarrow> bool" where
  "request_sent (EAcceptorPrepare k pr) s = (MPrepare pr \<in> set (sys_net s))"
| "request_sent (EAcceptorAccept k ar) s = (MAccept ar \<in> set (sys_net s))"
| "request_sent _ s = True"

text \<open>A body of the size its structure has.\<close>

definition request_wf :: "paxos_msg_code \<Rightarrow> byte list \<Rightarrow> bool" where
  "request_wf c body =
     (case c of
        prepare_reqs \<Rightarrow> length body = sizeof_prepare_req
      | accept_reqs \<Rightarrow> length body = sizeof_accept_req + unat (ar_value_size (cast_accept_req body))
      | repeat_reqs \<Rightarrow> length body = 4
      | _ \<Rightarrow> False)"

text \<open>Where the answer goes: an accepted value to everyone, all else to the sender.\<close>

fun answer_to :: "bev \<Rightarrow> bev list \<Rightarrow> event \<Rightarrow> message \<Rightarrow> bev list" where
  "answer_to b all (EAcceptorAccept k ar) (MAccepted aa) = all"
| "answer_to b all e m = [b]"

lemma cast_prefix:
  "8 \<le> length body \<Longrightarrow> cast_prepare_req (body @ stack) = cast_prepare_req body"
  "4 \<le> length body \<Longrightarrow> cast_iid (body @ stack) = cast_iid body"
  "16 \<le> length body \<Longrightarrow> cast_accept_req (body @ stack) =
     (cast_accept_req body)\<lparr>ar_value := ar_value (cast_accept_req body) @ stack\<rparr>"
  by (simp_all add: cast_prepare_req_def cast_iid_def cast_accept_req_def dec_prefix)

lemma with_acceptor_Ok:
  "sys_acceptors s k = Some st \<Longrightarrow> f st = Ok (ms, st1) \<Longrightarrow>
   with_acceptor k f s = s\<lparr>sys_acceptors := (sys_acceptors s)(k := Some st1), sys_net := sys_net s @ ms\<rparr>"
  by (simp add: with_acceptor_def)

context evbuffers
begin

lemma send_accept_acks_Ok:
  assumes "carray_inv bevs" "sendbuf_add_accept_ack pad rec = Ok bytes"
  shows "\<exists>w1. send_accept_acks ev pad bevs rec w = Ok w1 \<and> sent_to (clist bevs) bytes w w1"
  using write_all [of "clist bevs" "\<lambda>i w. rbind (carray_item bevs (int i)) (\<lambda>b.
      rbind (sendbuf_add_accept_ack pad rec) (\<lambda>bytes. Ok (bufferevent_write ev w b bytes)))" bytes w] assms
  by (simp add: send_accept_acks_def carray_count_clist)

lemma send_accept_acks_bytes:
  assumes "send_accept_acks ev pad bevs rec w = Ok w1" "carray_inv bevs" "clist bevs \<noteq> []"
  shows "\<exists>bytes. sendbuf_add_accept_ack pad rec = Ok bytes"
proof (cases "sendbuf_add_accept_ack pad rec")
  case (Inl e)
  have n: "0 < carray_count bevs"
    using assms(3) by (metis carray_count_def length_clist length_greater_0_conv)
  then have "[0..<carray_count bevs] = 0 # [1..<carray_count bevs]" by (simp add: upt_conv_Cons)
  with assms(1) Inl n carray_item_ok [OF assms(2), of 0] show ?thesis
    by (simp add: send_accept_acks_def carray_count_def)
qed simp

text \<open>
  A handler that goes from \<open>(v, a)\<close> to \<open>(w1, a1)\<close> does what the event does to the system, and sends
  the message of the event, if there is one, to the right connections.
\<close>

definition answered ::
  "'s storage_ops \<Rightarrow> nat \<Rightarrow> event \<Rightarrow> 's system \<Rightarrow> byte list \<Rightarrow> bev \<Rightarrow> 'w \<times> 's evacceptor \<Rightarrow> 'w \<times> 's evacceptor \<Rightarrow> bool" where
  "answered ops k e s pad b x y \<longleftrightarrow>
     (\<exists>ms. sys_step ops e s =
        s\<lparr>sys_acceptors := (sys_acceptors s)(k := ea_state (snd y)), sys_net := sys_net s @ ms\<rparr> \<and>
      snd y = (snd x)\<lparr>ea_state := ea_state (snd y)\<rparr> \<and> ea_state (snd y) \<noteq> None \<and>
      (ms = [] \<and> fst y = fst x \<or>
       (\<exists>m bytes. ms = [m] \<and> wire pad m = Ok bytes \<and>
          sent_to (answer_to b (clist (tr_bevs (ea_receiver (snd x)))) e m) bytes (fst x) (fst y))))"

lemma handle_prepare_step:
  assumes h: "handle_prepare_req ev ops b pr (w, a) = Ok (w1, a1)"
    and st: "ea_state a = Some st" "sys_acceptors s k = Some st" and sent: "MPrepare pr \<in> set (sys_net s)"
  shows "answered ops k (EAcceptorPrepare k pr) s pad b (w, a) (w1, a1)"
proof -
  from h st obtain rec st1 bytes where r: "acceptor_receive_prepare ops st pr = Ok (rec, st1)"
    "sendbuf_add_prepare_ack rec = Ok bytes" "w1 = bufferevent_write ev w b bytes"
    "a1 = a\<lparr>ea_state := Some st1\<rparr>"
    by (auto simp: handle_prepare_req_def ea_acceptor_def res_simps)
  have "call_acceptor_prepare ops pr st = Ok ([MPromise (prepare_ack_of rec)], st1)"
    using r(1) by (simp add: call_acceptor_prepare_def)
  with st sent r show ?thesis
    unfolding answered_def
    by (intro exI [of _ "[MPromise (prepare_ack_of rec)]"])
      (simp add: if_sent_def with_acceptor_Ok wire_promise [simplified] sent_to_single)
qed

lemma handle_accept_step:
  assumes h: "handle_accept_req ev ops pad b (ar\<lparr>ar_value := ar_value ar @ stack\<rparr>) (w, a) = Ok (w1, a1)"
    and ps: "payload_storage ops" and ar: "ar_complete ar"
    and st: "ea_state a = Some st" "sys_acceptors s k = Some st" and sent: "MAccept ar \<in> set (sys_net s)"
    and rcv: "receiver_inv (ea_receiver a)" "b \<in> set (clist (tr_bevs (ea_receiver a)))"
  shows "answered ops k (EAcceptorAccept k ar) s pad b (w, a) (w1, a1)"
proof -
  let ?bevs = "tr_bevs (ea_receiver a)"
  from h st obtain rec st1 where r: "acceptor_receive_accept ops st ar = Ok (rec, st1)"
    and out0: "(if ar_ballot ar = aa_ballot rec then send_accept_acks ev pad (tcp_receiver_get_events (ea_receiver a)) rec w
       else rbind (sendbuf_add_accept_ack pad rec) (\<lambda>bytes. Ok (bufferevent_write ev w b bytes))) = Ok w1"
    and a1: "a1 = a\<lparr>ea_state := Some st1\<rparr>"
    by (auto simp: handle_accept_req_def ea_acceptor_def res_simps
        payload_storage.receive_accept_prefix [OF ps ar])
  note out = out0 [unfolded tcp_receiver_get_events_def]
  let ?m = "if ar_ballot ar = aa_ballot rec then MAccepted (trunc_ack rec) else MNack (trunc_ack rec)"
  have call: "call_acceptor_accept ops ar st = Ok ([?m], st1)"
    using r by (simp add: call_acceptor_accept_def)
  have inv: "carray_inv ?bevs" "clist ?bevs \<noteq> []" using rcv by (auto simp: receiver_inv_def)
  obtain bytes where b: "sendbuf_add_accept_ack pad rec = Ok bytes"
    using out send_accept_acks_bytes [OF _ inv, of pad rec w w1] by (auto simp: res_simps split: if_splits)
  have "sent_to (answer_to b (clist ?bevs) (EAcceptorAccept k ar) ?m) bytes w w1"
    using out b send_accept_acks_Ok [OF inv(1) b, of w] sent_to_single
    by (auto split: if_splits)
  with call st sent b a1 show ?thesis
    unfolding answered_def
    by (intro exI [of _ "[?m]"]) (simp add: if_sent_def with_acceptor_Ok wire_accepted split: if_splits)
qed

lemma handle_repeat_step:
  assumes h: "handle_repeat_req ev ops pad b i (w, a) = Ok (w1, a1)"
    and st: "ea_state a = Some st" "sys_acceptors s k = Some st"
  shows "answered ops k (EAcceptorRepeat k i) s pad b (w, a) (w1, a1)"
proof -
  from h st obtain r st1 where r: "acceptor_receive_repeat ops st i = Ok (r, st1)"
    and out: "(case r of None \<Rightarrow> Ok (w, a\<lparr>ea_state := Some st1\<rparr>)
        | Some rec \<Rightarrow> rbind (sendbuf_add_accept_ack pad rec) (\<lambda>bytes.
              Ok (bufferevent_write ev w b bytes, a\<lparr>ea_state := Some st1\<rparr>))) = Ok (w1, a1)"
    by (auto simp: handle_repeat_req_def ea_acceptor_def res_simps)
  show ?thesis
  proof (cases r)
    case None
    with r out st show ?thesis
      unfolding answered_def by (intro exI [of _ "[]"]) (auto simp: with_acceptor_def call_acceptor_repeat_def)
  next
    case (Some rec)
    with out obtain bytes where "sendbuf_add_accept_ack pad rec = Ok bytes"
      "w1 = bufferevent_write ev w b bytes" "a1 = a\<lparr>ea_state := Some st1\<rparr>"
      by (auto simp: res_simps)
    with r st Some show ?thesis
      unfolding answered_def by (intro exI [of _ "[MAccepted (trunc_ack rec)]"])
        (simp add: with_acceptor_def call_acceptor_repeat_def wire_accepted sent_to_single)
  qed
qed

text \<open>One message: the handler takes it from the connection and makes the step it stands for.\<close>

theorem handle_req_step:
  assumes h: "handle_req ev ops stack pad b (w, a) = Ok (w1, a1)"
    and inp: "inp w b = frame c body @ rest" and body: "body_ok body" "request_wf c body"
    and e: "acceptor_event k c body = Some e" "request_sent e s"
    and ps: "payload_storage ops"
    and st: "ea_state a = Some st" "sys_acceptors s k = Some st"
    and rcv: "receiver_inv (ea_receiver a)" "b \<in> set (clist (tr_bevs (ea_receiver a)))"
  shows "\<exists>ms. sys_step ops e s =
      s\<lparr>sys_acceptors := (sys_acceptors s)(k := ea_state a1), sys_net := sys_net s @ ms\<rparr> \<and>
    a1 = a\<lparr>ea_state := ea_state a1\<rparr> \<and> ea_state a1 \<noteq> None \<and> inp w1 = (inp w)(b := rest) \<and>
    (ms = [] \<and> outp w1 = outp w \<or>
     (\<exists>m bytes. ms = [m] \<and> wire pad m = Ok bytes \<and>
        appended outp (answer_to b (clist (tr_bevs (ea_receiver a))) e m) bytes w w1))"
proof -
  from remove_frame [OF inp body(1)] obtain v where
    v: "remove_msg ev b w = (Some (Some c, of_nat (length body), body), v)" "inp v = (inp w)(b := rest)" "outp v = outp w"
    by blast
  have "answered ops k e s pad b (v, a) (w1, a1)"
  proof -
    consider (p) "c = prepare_reqs" | (ac) "c = accept_reqs" | (r) "c = repeat_reqs"
      using e(1) by (auto simp: acceptor_event_def split: paxos_msg_code.splits)
    then show ?thesis
    proof cases
      case p
      with body(2) have "8 \<le> length body" by (simp add: request_wf_def sizeof_defs)
      with h v p e handle_prepare_step [OF _ st] show ?thesis
        by (auto simp: handle_req_def cast_prefix acceptor_event_def)
    next
      case ac
      with body(2) have l: "length body = 16 + unat (ar_value_size (cast_accept_req body))"
        by (simp add: request_wf_def sizeof_defs)
      then have "ar_complete (cast_accept_req body)" by (simp add: ar_complete_def cast_accept_req_def)
      with h v ac e l handle_accept_step [OF _ ps _ st _ rcv] show ?thesis
        by (auto simp: handle_req_def cast_prefix acceptor_event_def)
    next
      case r
      with body(2) have "4 \<le> length body" by (simp add: request_wf_def)
      with h v r e handle_repeat_step [OF _ st] show ?thesis
        by (auto simp: handle_req_def cast_prefix acceptor_event_def)
    qed
  qed
  then obtain ms where ms: "sys_step ops e s =
      s\<lparr>sys_acceptors := (sys_acceptors s)(k := ea_state a1), sys_net := sys_net s @ ms\<rparr>"
    "a1 = a\<lparr>ea_state := ea_state a1\<rparr>" "ea_state a1 \<noteq> None"
    "ms = [] \<and> w1 = v \<or> (\<exists>m bytes. ms = [m] \<and> wire pad m = Ok bytes \<and>
       sent_to (answer_to b (clist (tr_bevs (ea_receiver a))) e m) bytes v w1)"
    by (auto simp: answered_def)
  from ms(4) v have "inp w1 = (inp w)(b := rest) \<and> (ms = [] \<and> outp w1 = outp w \<or>
     (\<exists>m bytes. ms = [m] \<and> wire pad m = Ok bytes \<and>
        appended outp (answer_to b (clist (tr_bevs (ea_receiver a))) e m) bytes w w1))"
    by (auto simp: sent_to_def written_def)
  with ms(1-3) show ?thesis by blast
qed

text \<open>The loop of a connection always ends.\<close>

lemma handle_req_inp:
  assumes "handle_req ev ops stack pad b (w, a) = Ok (w1, a1)" "remove_msg ev b w = (r, v)"
  shows "inp w1 = inp v"
proof -
  have wr: "inp (bufferevent_write ev x d bytes) = inp x" for x d bytes using bev_write [OF refl] by simp
  have acks: "inp t = inp x" if "send_accept_acks ev pad bevs rec x = Ok t" for bevs rec x t
    using that unfolding send_accept_acks_def
    by (rule for_loop_keeps [where P = "\<lambda>y. inp y = inp x"]) (auto simp: res_simps wr)
  have p: "inp w1 = inp v" if "handle_prepare_req ev ops b pr (v, a) = Ok (w1, a1)" for pr
    using that by (auto simp: handle_prepare_req_def res_simps wr)
  have ac: "inp w1 = inp v" if "handle_accept_req ev ops pad b ar (v, a) = Ok (w1, a1)" for ar
    using that acks by (auto simp: handle_accept_req_def res_simps wr split: if_splits)
  have re: "inp w1 = inp v" if "handle_repeat_req ev ops pad b i (v, a) = Ok (w1, a1)" for i
    using that by (auto simp: handle_repeat_req_def res_simps wr split: option.splits)
  show ?thesis
    using assms p ac re
    by (auto simp: handle_req_def Let_def split: option.splits paxos_msg_code.splits)
qed

theorem on_read_returns: "\<exists>r. evacceptor_on_read ev ops stack pad b x = Some r"
  unfolding evacceptor_on_read_def receiver_on_read_def
proof (rule read_loop_returns)
  fix k x y
  assume h: "handle_req ev ops (stack k) pad b x = Ok y" and l: "sizeof_paxos_msg < length (inp (fst x) b)"
  obtain w a w1 a1 where x: "x = (w, a)" "y = (w1, a1)" by (metis surj_pair)
  obtain r v where v: "remove_msg ev b w = (r, v)" by force
  from handle_req_inp [OF h [unfolded x] v] remove_shorter [OF v] l x
  show "length (inp (fst y) b) < length (inp (fst x) b)" by simp
qed

end

text \<open>A request changes the state of the acceptor only.\<close>

lemma handle_req_keeps:
  assumes "handle_req ev ops stack pad b (w, a) = Ok (w1, a1)"
  shows "a1 = a\<lparr>ea_state := ea_state a1\<rparr> \<and> (ea_state a \<noteq> None \<longrightarrow> ea_state a1 \<noteq> None)"
proof -
  have p: "a1 = a\<lparr>ea_state := ea_state a1\<rparr> \<and> ea_state a1 \<noteq> None"
    if "handle_prepare_req ev ops b pr (v, a) = Ok (w1, a1)" for pr v
    using that by (auto simp: handle_prepare_req_def res_simps)
  have ac: "a1 = a\<lparr>ea_state := ea_state a1\<rparr> \<and> ea_state a1 \<noteq> None"
    if "handle_accept_req ev ops pad b ar (v, a) = Ok (w1, a1)" for ar v
    using that by (auto simp: handle_accept_req_def res_simps)
  have re: "a1 = a\<lparr>ea_state := ea_state a1\<rparr> \<and> ea_state a1 \<noteq> None"
    if "handle_repeat_req ev ops pad b i (v, a) = Ok (w1, a1)" for i v
    using that by (auto simp: handle_repeat_req_def res_simps split: option.splits)
  show ?thesis
    using assms p ac re
    by (fastforce simp: handle_req_def Let_def split: option.splits paxos_msg_code.splits prod.splits)
qed

end
