(* ===== verification/Evlearner.thy ===== *)
theory Evlearner
  imports Ev_Wire
begin

text \<open>
  \<open>evpaxos/evlearner.c\<close>: the learner as a process. It feeds the acknowledgements it receives to the
  learner, hands what can be delivered to the callback of the application, and asks all acceptors
  for the instances it misses. The calls of the callback are recorded in a list.

  The lemmas show that the loops end and that the handling of a message is a run of the system.
\<close>

record delivery =
  dl_value :: "byte list"
  dl_size :: size_t
  dl_iid :: iid_t
  dl_ballot :: ballot_t
  dl_prop_id :: ballot_t

record evlearner =
  el_state :: learner
  el_hole_timer :: nat
  el_tv :: timeval
  el_acceptors :: peers

section \<open>Handlers\<close>

text \<open>The instances of the loop that asks for holes: from the first up to and without the second.\<close>

definition iid_range :: "iid_t \<Rightarrow> iid_t \<Rightarrow> iid_t list" where
  "iid_range a b = map of_nat [unat a..<unat b]"

definition learner_check_holes :: "'w libevent \<Rightarrow> 'w \<times> evlearner \<Rightarrow> ('w \<times> evlearner) res" where
  "learner_check_holes ev x =
     (case x of (w, l) \<Rightarrow>
      rbind (case learner_has_holes (el_state l) of
               None \<Rightarrow> Ok w
             | Some (from, to) \<Rightarrow>
                 let to1 = (if to - from > 10000 then from + 10000 else to) in
                 for_loop [0..<length (iid_range from to1)]
                   (\<lambda>j w. send_to_peers ev (el_acceptors l)
                      (Ok (sendbuf_add_repeat_req (iid_range from to1 ! j))) w) w) (\<lambda>w1.
        Ok (event_add ev w1 (el_hole_timer l) (el_tv l), l)))"

definition delivery_of :: "accept_ack \<Rightarrow> delivery" where
  "delivery_of ack =
     \<lparr>dl_value = aa_value ack, dl_size = aa_value_size ack, dl_iid = aa_iid ack,
      dl_ballot = aa_ballot ack, dl_prop_id = aa_ballot ack mod of_nat MAX_N_OF_PROPOSERS\<rparr>"

partial_function (option) learner_deliver_next_closed ::
  "learner \<Rightarrow> delivery list \<Rightarrow> (learner \<times> delivery list) res option" where
  "learner_deliver_next_closed l ds =
     (case learner_deliver_next l of
        Inl e \<Rightarrow> Some (Err e)
      | Inr (r, l1) \<Rightarrow>
          (case r of
             None \<Rightarrow> Some (Ok (l1, ds))
           | Some ack \<Rightarrow> learner_deliver_next_closed l1 (ds @ [delivery_of ack])))"

declare learner_deliver_next_closed.simps [code]

definition learner_handle_accept_ack ::
  "learner \<Rightarrow> accept_ack \<Rightarrow> delivery list \<Rightarrow> (learner \<times> delivery list) res option" where
  "learner_handle_accept_ack l aa ds =
     (case learner_receive_accept l aa of
        Inl e \<Rightarrow> Some (Err e)
      | Inr l1 \<Rightarrow> learner_deliver_next_closed l1 ds)"

definition learner_handle_msg ::
  "'w libevent \<Rightarrow> byte list \<Rightarrow> bev \<Rightarrow> 'w \<times> evlearner \<times> delivery list \<Rightarrow>
   ('w \<times> evlearner \<times> delivery list) res option" where
  "learner_handle_msg ev stack b x =
     (case x of (w, l, ds) \<Rightarrow>
      case remove_msg ev b w of
        (None, w1) \<Rightarrow> Some (Ok (w1, l, ds))
      | (Some (code, _, body), w1) \<Rightarrow>
          (let buffer = body @ stack in
           case code of
             Some accept_acks \<Rightarrow>
               map_option (\<lambda>r. rbind r (\<lambda>(st, ds1). Ok (w1, l\<lparr>el_state := st\<rparr>, ds1)))
                 (learner_handle_accept_ack (el_state l) (cast_accept_ack buffer) ds)
           | _ \<Rightarrow> Some (Ok (w1, l, ds))))"

text \<open>
  The loop over the messages of a connection. It has the shape of \<open>read_loop\<close>; the handling of a
  message may itself not end, which makes the whole loop not end.
\<close>

partial_function (option) on_acceptor_msg ::
  "'w libevent \<Rightarrow> (nat \<Rightarrow> byte list) \<Rightarrow> nat \<Rightarrow> bev \<Rightarrow> 'w \<times> evlearner \<times> delivery list \<Rightarrow>
   ('w \<times> evlearner \<times> delivery list) res option" where
  "on_acceptor_msg ev stack k b x =
     (if evbuffer_get_length ev (fst x) b > sizeof_paxos_msg then
        if of_nat (evbuffer_get_length ev (fst x) b) <
             fst (read_header (evbuffer_copyout ev (fst x) b sizeof_paxos_msg)) + of_nat sizeof_paxos_msg
        then Some (Ok x)
        else Option.bind (learner_handle_msg ev (stack k) b x) (\<lambda>r.
               case r of
                 Inl e \<Rightarrow> Some (Err e)
               | Inr y \<Rightarrow> on_acceptor_msg ev stack (Suc k) b y)
      else Some (Ok x))"

declare on_acceptor_msg.simps [code]

lemmas on_acceptor_msg_induct =
  on_acceptor_msg.raw_induct [where xa = "((((ev, stack), k), b), x)" for ev stack k b x, unfolded prod.case,
    rotated, consumes 1]

definition evlearner_init_conf ::
  "'w libevent \<Rightarrow> paxos_config \<Rightarrow> config \<Rightarrow> 'w \<Rightarrow> ('w \<times> evlearner) res" where
  "evlearner_init_conf ev cfg c w =
     rbind (learner_new cfg (acceptors_count c)) (\<lambda>st.
     rbind (connect_all ev (take (acceptors_count c) (acceptors c)) peers_new w) (\<lambda>(ps, w1).
     case evtimer_new ev w1 of (t, w2) \<Rightarrow>
     let tv = \<lparr>tv_sec = 0, tv_usec = 100000\<rparr> in
       Ok (event_add ev w2 t tv, \<lparr>el_state = st, el_hole_timer = t, el_tv = tv, el_acceptors = ps\<rparr>)))"

definition evlearner_init ::
  "'w libevent \<Rightarrow> string option \<Rightarrow> paxos_config \<Rightarrow> 'w \<Rightarrow> ('w \<times> evlearner) res" where
  "evlearner_init ev file cfg w =
     rbind (read_config file cfg) (\<lambda>(c, cfg1). evlearner_init_conf ev cfg1 c w)"

text \<open>\<open>learner_free\<close> only frees memory; it is modelled in \<open>Learner_Heap\<close>.\<close>

definition evlearner_free :: "'w libevent \<Rightarrow> evlearner \<Rightarrow> 'w \<Rightarrow> 'w res" where
  "evlearner_free ev l w =
     rbind (peers_free ev (el_acceptors l) w) (\<lambda>w1. Ok (event_free ev w1 (el_hole_timer l)))"

section \<open>The delivery loop ends\<close>

text \<open>
  Every delivery moves the learner to the next instance, and the instances it can know of are
  bounded.
\<close>

lemma deliver_loop_returns:
  assumes "learner_inv n w R l" "acks_wf n w R"
  shows "\<exists>l1 ds1. learner_deliver_next_closed l ds = Some (Ok (l1, ds1)) \<and> learner_inv n w R l1 \<and>
    l_late_start l1 = l_late_start l"
  using assms
proof (induction "2 ^ 31 - unat (l_current_iid l)" arbitrary: l ds rule: less_induct)
  case less
  from learner_deliver_next_ok [OF less.prems] obtain r l1 where
    d: "learner_deliver_next l = Ok (r, l1)" "learner_inv n w R l1" "l_late_start l1 = l_late_start l"
    and cur: "r \<noteq> None \<Longrightarrow> l_current_iid l1 = l_current_iid l + 1"
    by (auto split: option.splits)
  show ?case
  proof (cases r)
    case None
    with d show ?thesis by (subst learner_deliver_next_closed.simps) simp
  next
    case (Some ack)
    with cur have c: "l_current_iid l1 = l_current_iid l + 1" by simp
    have "unat (l_current_iid l) + 1 < 2 ^ 31" using learner_invD(6,7) [OF less.prems(1)] by simp
    with c unat_add_small [of "l_current_iid l" 1] have "unat (l_current_iid l1) = unat (l_current_iid l) + 1"
      by simp
    with learner_invD(7) [OF less.prems(1)] have "2 ^ 31 - unat (l_current_iid l1) < 2 ^ 31 - unat (l_current_iid l)"
      by simp
    from less.hyps [OF this d(2) less.prems(2)] d Some show ?thesis
      by (subst learner_deliver_next_closed.simps) simp
  qed
qed

section \<open>Handling a message is a run of the system\<close>

lemma with_learner_Ok:
  "sys_learners s k = Some l \<Longrightarrow> f l = Ok (ds, l1) \<Longrightarrow>
   with_learner k f s = s\<lparr>sys_learners := (sys_learners s)(k := Some l1),
     sys_delivered := sys_delivered s @ map (Pair k) ds\<rparr>"
  by (simp add: with_learner_def)

text \<open>The system after learner \<open>k\<close> delivered the given records and came to state \<open>l\<close>.\<close>

definition delivered_by :: "nat \<Rightarrow> learner \<Rightarrow> accept_ack list \<Rightarrow> 's system \<Rightarrow> 's system" where
  "delivered_by k l acks s =
     s\<lparr>sys_learners := (sys_learners s)(k := Some l), sys_delivered := sys_delivered s @ map (Pair k) acks\<rparr>"

lemma delivered_by_simps [simp]:
  "sys_learners (delivered_by k l acks s) k = Some l"
  "delivered_by k m bs (delivered_by k l acks s) = delivered_by k m (acks @ bs) s"
  by (simp_all add: delivered_by_def)

lemma deliver_event:
  "sys_learners s k = Some l \<Longrightarrow> learner_deliver_next l = Ok (d, l1) \<Longrightarrow>
   sys_step ops (EDeliver k) s = delivered_by k l1 (case d of None \<Rightarrow> [] | Some a \<Rightarrow> [a]) s"
  by (simp add: with_learner_def call_deliver_def delivered_by_def)

lemma deliver_loop_run:
  assumes "learner_deliver_next_closed l ds = Some r" "r = Ok (l1, ds1)" "sys_learners s k = Some l"
  shows "\<exists>acks. ds1 = ds @ map delivery_of acks \<and>
    sys_run ops (replicate (Suc (length acks)) (EDeliver k)) s = delivered_by k l1 acks s"
  using assms
proof (induction arbitrary: s rule: learner_deliver_next_closed.raw_induct [rotated, consumes 1])
  case (1 loop l ds r)
  from 1(2,3) obtain d l2 where
    d: "learner_deliver_next l = Ok (d, l2)"
      "(case d of None \<Rightarrow> Some (Ok (l2, ds)) | Some ack \<Rightarrow> loop l2 (ds @ [delivery_of ack])) = Some (Ok (l1, ds1))"
    by (auto split: sum.splits)
  note step = deliver_event [OF 1(4) d(1), of ops]
  show ?case
  proof (cases d)
    case None
    with d step show ?thesis by (intro exI [of _ "[]"]) simp
  next
    case (Some ack)
    with d(2) have "loop l2 (ds @ [delivery_of ack]) = Some (Ok (l1, ds1))" by simp
    from 1(1) [OF this refl delivered_by_simps(1) [of k l2 "[ack]" s]] obtain acks where acks:
      "ds1 = (ds @ [delivery_of ack]) @ map delivery_of acks"
      "sys_run ops (replicate (Suc (length acks)) (EDeliver k)) (delivered_by k l2 [ack] s) =
        delivered_by k l1 acks (delivered_by k l2 [ack] s)"
      by blast
    have "sys_run ops (EDeliver k # replicate (Suc (length acks)) (EDeliver k)) s =
        delivered_by k l1 (ack # acks) s"
      using acks(2) step Some by (simp del: sys_step.simps replicate_Suc)
    with acks(1) show ?thesis by (intro exI [of _ "ack # acks"]) simp
  qed
qed

lemma cast_ack_prefix:
  "32 \<le> length body \<Longrightarrow> cast_accept_ack (body @ stack) =
     (cast_accept_ack body)\<lparr>aa_value := aa_value (cast_accept_ack body) @ stack\<rparr>"
  by (simp add: cast_accept_ack_def dec_prefix)

context evbuffers
begin

text \<open>
  One acknowledgement on a connection: the handler takes it, and what it does to the learner and
  delivers is what the system does for one \<open>ELearn\<close> and then \<open>EDeliver\<close> until nothing is left.
\<close>

theorem learner_handle_msg_run:
  assumes inp: "inp w b = frame accept_acks body @ rest"
    and body: "body_ok body" "length body = sizeof_accept_ack + unat (aa_value_size (cast_accept_ack body))"
    and h: "learner_handle_msg ev stack b (w, l, ds) = Some (Ok (w1, l1, ds1))"
    and s: "MAccepted (cast_accept_ack body) \<in> set (sys_net s)" "sys_learners s k = Some (el_state l)"
  shows "\<exists>acks. ds1 = ds @ map delivery_of acks \<and>
    sys_run ops (ELearn k (cast_accept_ack body) # replicate (Suc (length acks)) (EDeliver k)) s =
      delivered_by k (el_state l1) acks s \<and>
    l1 = l\<lparr>el_state := el_state l1\<rparr> \<and> inp w1 = (inp w)(b := rest) \<and> outp w1 = outp w"
proof -
  let ?ack = "cast_accept_ack body"
  from remove_frame [OF inp body(1)] obtain v where
    v: "remove_msg ev b w = (Some (Some accept_acks, of_nat (length body), body), v)" "inp v = (inp w)(b := rest)" "outp v = outp w"
    by blast
  have cmp: "aa_complete ?ack" using body(2) by (simp add: aa_complete_def cast_accept_ack_def sizeof_defs)
  have cast: "cast_accept_ack (body @ stack) = ?ack\<lparr>aa_value := aa_value ?ack @ stack\<rparr>"
    using body(2) by (simp add: cast_ack_prefix sizeof_defs)
  from h v(1) obtain st where hd: "learner_handle_accept_ack (el_state l) (cast_accept_ack (body @ stack)) ds = Some (Ok (st, ds1))"
    and out: "w1 = v" "l1 = l\<lparr>el_state := st\<rparr>"
    by (auto simp: learner_handle_msg_def Let_def res_simps)
  then obtain l2 where l2: "learner_receive_accept (el_state l) ?ack = Ok l2"
    "learner_deliver_next_closed l2 ds = Some (Ok (st, ds1))"
    unfolding cast by (auto simp: learner_handle_accept_ack_def learner_receive_prefix [OF cmp] split: sum.splits)
  let ?s = "sys_step ops (ELearn k ?ack) s"
  have step: "?s = delivered_by k l2 [] s"
    using l2(1) s by (simp add: if_sent_def with_learner_def call_learn_def delivered_by_def)
  then have "sys_learners ?s k = Some l2" by simp
  from deliver_loop_run [OF l2(2) refl this] obtain acks where acks: "ds1 = ds @ map delivery_of acks"
    "sys_run ops (replicate (Suc (length acks)) (EDeliver k)) ?s = delivered_by k st acks ?s"
    by blast
  have "sys_run ops (ELearn k ?ack # replicate (Suc (length acks)) (EDeliver k)) s =
      delivered_by k st acks s"
    using acks(2) step by simp
  with acks(1) out v show ?thesis by (intro exI [of _ acks]) simp
qed

text \<open>
  All acknowledgements on a connection: the loop takes them in order and returns, what is left
  is the beginning of the next one, and what it did is a run of the system.
\<close>

lemma handle_ack_returns:
  assumes inp: "inp w b = frame accept_acks body @ rest"
    and body: "body_ok body" "length body = sizeof_accept_ack + unat (aa_value_size (cast_accept_ack body))"
    and inv: "learner_inv n m R (el_state l)" "acks_wf n m R" "cast_accept_ack body \<in> R"
  shows "\<exists>w1 l1 ds1. learner_handle_msg ev stack b (w, l, ds) = Some (Ok (w1, l1, ds1)) \<and>
    learner_inv n m R (el_state l1)"
proof -
  let ?ack = "cast_accept_ack body"
  from remove_frame [OF inp body(1)] obtain v where
    v: "remove_msg ev b w = (Some (Some accept_acks, of_nat (length body), body), v)" by blast
  have cmp: "aa_complete ?ack" using body(2) by (simp add: aa_complete_def cast_accept_ack_def sizeof_defs)
  have cast: "cast_accept_ack (body @ stack) = ?ack\<lparr>aa_value := aa_value ?ack @ stack\<rparr>"
    using body(2) by (simp add: cast_ack_prefix sizeof_defs)
  from learner_receive_accept_cases [OF inv] obtain l2 where
    l2: "learner_receive_accept (el_state l) ?ack = Ok l2" "learner_inv n m R l2" by blast
  from deliver_loop_returns [OF l2(2) inv(2), of ds] obtain st ds1 where
    st: "learner_deliver_next_closed l2 ds = Some (Ok (st, ds1))" "learner_inv n m R st" by blast
  from l2 st v show ?thesis
    by (simp add: learner_handle_msg_def learner_handle_accept_ack_def cast learner_receive_prefix [OF cmp] Let_def)
qed

theorem on_acceptor_msg_run:
  assumes "inp w b = concat (map (frame accept_acks) bodies) @ rest"
    and "length (inp w b) < 2 ^ 64" "length rest \<le> sizeof_paxos_msg"
    and "\<And>body. body \<in> set bodies \<Longrightarrow> body_ok body \<and>
      length body = sizeof_accept_ack + unat (aa_value_size (cast_accept_ack body)) \<and>
      MAccepted (cast_accept_ack body) \<in> set (sys_net s) \<and> cast_accept_ack body \<in> R"
    and "learner_inv n m R (el_state l)" "acks_wf n m R" "sys_learners s k = Some (el_state l)"
  shows "\<exists>w1 l1 acks es. on_acceptor_msg ev stack j b (w, l, ds) = Some (Ok (w1, l1, ds @ map delivery_of acks)) \<and>
    sys_run ops es s = delivered_by k (el_state l1) acks s \<and> list_all plain_event es \<and>
    l1 = l\<lparr>el_state := el_state l1\<rparr> \<and> learner_inv n m R (el_state l1) \<and>
    inp w1 = (inp w)(b := rest) \<and> outp w1 = outp w"
  using assms
proof (induction bodies arbitrary: w l ds j s)
  case Nil
  then have "on_acceptor_msg ev stack j b (w, l, ds) = Some (Ok (w, l, ds))"
    by (subst on_acceptor_msg.simps) (simp add: get_length)
  moreover have "inp w = (inp w)(b := rest)" using Nil.prems(1) by (simp add: fun_eq_iff)
  moreover have "delivered_by k (el_state l) [] s = s"
    using Nil.prems(7) by (simp add: delivered_by_def fun_upd_idem)
  ultimately show ?case using Nil.prems(5)
    by (intro exI [of _ w] exI [of _ l] exI [of _ "[]"]) simp
next
  case (Cons body bodies)
  let ?rest = "concat (map (frame accept_acks) bodies) @ rest"
  have inp: "inp w b = frame accept_acks body @ ?rest" using Cons.prems(1) by simp
  have body: "body_ok body" "length body = sizeof_accept_ack + unat (aa_value_size (cast_accept_ack body))"
    "MAccepted (cast_accept_ack body) \<in> set (sys_net s)" "cast_accept_ack body \<in> R"
    using Cons.prems(4) [of body] by simp_all
  from handle_ack_returns [OF inp body(1,2) Cons.prems(5,6) body(4)] obtain w1 l1 ds1 where
    h: "learner_handle_msg ev (stack j) b (w, l, ds) = Some (Ok (w1, l1, ds1))" "learner_inv n m R (el_state l1)"
    by blast
  from learner_handle_msg_run [OF inp body(1,2) h(1) body(3) Cons.prems(7)] obtain acks where
    a: "ds1 = ds @ map delivery_of acks"
      "sys_run ops (ELearn k (cast_accept_ack body) # replicate (Suc (length acks)) (EDeliver k)) s =
        delivered_by k (el_state l1) acks s"
      "l1 = l\<lparr>el_state := el_state l1\<rparr>" "inp w1 = (inp w)(b := ?rest)" "outp w1 = outp w"
    by blast
  let ?s = "delivered_by k (el_state l1) acks s"
  have "sys_net ?s = sys_net s" by (simp add: delivered_by_def)
  then have "\<exists>w2 l2 acks2 es.
      on_acceptor_msg ev stack (Suc j) b (w1, l1, ds1) = Some (Ok (w2, l2, ds1 @ map delivery_of acks2)) \<and>
      sys_run ops es ?s = delivered_by k (el_state l2) acks2 ?s \<and> list_all plain_event es \<and>
      l2 = l1\<lparr>el_state := el_state l2\<rparr> \<and> learner_inv n m R (el_state l2) \<and>
      inp w2 = (inp w1)(b := rest) \<and> outp w2 = outp w1"
    using Cons.prems(2-4,6) inp h(2) a(4) by (intro Cons.IH) simp_all
  then obtain w2 l2 acks2 es where r:
    "on_acceptor_msg ev stack (Suc j) b (w1, l1, ds1) = Some (Ok (w2, l2, ds1 @ map delivery_of acks2))"
    "sys_run ops es ?s = delivered_by k (el_state l2) acks2 ?s" "list_all plain_event es"
    "l2 = l1\<lparr>el_state := el_state l2\<rparr>" "learner_inv n m R (el_state l2)"
    "inp w2 = (inp w1)(b := rest)" "outp w2 = outp w1"
    by blast
  have "on_acceptor_msg ev stack j b (w, l, ds) = on_acceptor_msg ev stack (Suc j) b (w1, l1, ds1)"
    using frame_ready [OF inp body(1) Cons.prems(2)] h(1) by (subst on_acceptor_msg.simps) simp
  moreover have "sys_run ops (ELearn k (cast_accept_ack body) # replicate (Suc (length acks)) (EDeliver k) @ es) s =
      delivered_by k (el_state l2) (acks @ acks2) s"
    using a(2) r(2) by (simp add: sys_run_append del: sys_step.simps)
  moreover have "l2 = l\<lparr>el_state := el_state l2\<rparr>" using r(4) a(3) by (metis evlearner.surjective evlearner.update_convs(1))
  ultimately show ?case using r a
    by (intro exI [of _ w2] exI [of _ l2] exI [of _ "acks @ acks2"]
        exI [of _ "ELearn k (cast_accept_ack body) # replicate (Suc (length acks)) (EDeliver k) @ es"])
      (auto simp: list_all_iff)
qed

text \<open>
  The timer: when there are holes, every acceptor is asked for each of their first 10000
  instances once, in order, and the timer is set again.
\<close>

lemma repeat_loop:
  assumes "peers_ok ps"
  shows "\<exists>w1. for_loop [0..<length is] (\<lambda>j w. send_to_peers ev ps (Ok (sendbuf_add_repeat_req (is ! j))) w) w = Ok w1 \<and>
    inp w1 = inp w \<and> written outp (peers_bevs ps) (map sendbuf_add_repeat_req is) w w1"
proof -
  have "\<exists>t. for_loop [0..<length is] (\<lambda>j w. send_to_peers ev ps (Ok (sendbuf_add_repeat_req (is ! j))) w) w = Ok t \<and>
      (inp t = inp w \<and> written outp (peers_bevs ps) (map sendbuf_add_repeat_req (take (length is) is)) w t)"
  proof (rule for_loop_upto_inv [where I = "\<lambda>j t. inp t = inp w \<and>
        written outp (peers_bevs ps) (map sendbuf_add_repeat_req (take j is)) w t"])
    fix j t
    assume j: "j < length is" and I: "inp t = inp w \<and>
        written outp (peers_bevs ps) (map sendbuf_add_repeat_req (take j is)) w t"
    from send_to_peers_Ok [OF assms, of "sendbuf_add_repeat_req (is ! j)" t] obtain u where
      u: "send_to_peers ev ps (Ok (sendbuf_add_repeat_req (is ! j))) t = Ok u"
        "sent_to (peers_bevs ps) (sendbuf_add_repeat_req (is ! j)) t u" by blast
    with I written_append [of outp "peers_bevs ps" "map sendbuf_add_repeat_req (take j is)" w t
        "[sendbuf_add_repeat_req (is ! j)]" u] j
    show "\<exists>t'. send_to_peers ev ps (Ok (sendbuf_add_repeat_req (is ! j))) t = Ok t' \<and> inp t' = inp w \<and>
        written outp (peers_bevs ps) (map sendbuf_add_repeat_req (take (Suc j) is)) w t'"
      by (simp add: sent_to_def take_Suc_conv_app_nth)
  qed (simp add: written_Nil)
  then show ?thesis by simp
qed

theorem check_holes_ok:
  assumes ps: "peers_ok (el_acceptors l)" and holes: "learner_has_holes (el_state l) = Some (from, to)"
  shows "\<exists>w1. learner_check_holes ev (w, l) = Ok (event_add ev w1 (el_hole_timer l) (el_tv l), l) \<and>
    inp w1 = inp w \<and> written outp (peers_bevs (el_acceptors l)) (map sendbuf_add_repeat_req
      (iid_range from (if to - from > 10000 then from + 10000 else to))) w w1"
  using repeat_loop [OF ps, of "iid_range from (if to - from > 10000 then from + 10000 else to)" w] holes
  by (auto simp: learner_check_holes_def Let_def)

end

end
