(* ===== verification/Evproposer.thy ===== *)
theory Evproposer
  imports Tcp_Receiver Ev_Wire
begin

text \<open>
  \<open>evpaxos/evproposer.c\<close>: the proposer as a process. It hands the acknowledgements and the values
  of clients to the proposer, sends the accept requests that become possible, keeps the number
  of prepared instances at \<open>preexec_window\<close>, and repeats requests when its timer fires. \<open>junk\<close>
  and \<open>clock\<close> give the contents of the block that \<open>quorum_init\<close> allocates and the time of
  the \<open>i\<close>-th instance opened by one call of \<open>proposer_preexecute\<close>.

  Every loop is shown to end where it is defined.
\<close>

record evproposer =
  ep_id :: int
  ep_preexec_window :: int
  ep_receiver :: tcp_receiver
  ep_state :: proposer
  ep_acceptors :: peers
  ep_tv :: timeval
  ep_timeout_ev :: nat

section \<open>Handlers\<close>

definition send_prepares :: "'w libevent \<Rightarrow> evproposer \<Rightarrow> prepare_req \<Rightarrow> 'w \<Rightarrow> 'w res" where
  "send_prepares ev p pr w = send_to_peers ev (ep_acceptors p) (Ok (sendbuf_add_prepare_req pr)) w"

definition send_accepts :: "'w libevent \<Rightarrow> evproposer \<Rightarrow> accept_req \<Rightarrow> 'w \<Rightarrow> 'w res" where
  "send_accepts ev p ar w = send_to_peers ev (ep_acceptors p) (sendbuf_add_accept_req ar) w"

definition proposer_preexecute ::
  "'w libevent \<Rightarrow> (nat \<Rightarrow> nat \<Rightarrow> int) \<Rightarrow> (nat \<Rightarrow> timeval) \<Rightarrow> 'w \<times> evproposer \<Rightarrow> ('w \<times> evproposer) res" where
  "proposer_preexecute ev junk clock x =
     (let count = ep_preexec_window (snd x) - int (proposer_prepared_count (ep_state (snd x))) in
      if count \<le> 0 then Ok x
      else for_loop [0..<nat count] (\<lambda>i (w, p).
             rbind (proposer_prepare (junk i) (clock i) (ep_state p)) (\<lambda>(pr, st).
             rbind (send_prepares ev p pr w) (\<lambda>w1. Ok (w1, p\<lparr>ep_state := st\<rparr>)))) x)"

text \<open>The loop of \<open>try_accept\<close>: every accept request takes an instance from the prepared ones.\<close>

lemma accept_scan_count:
  "accept_scan c = Ok (r, d) \<Longrightarrow> ca_count d \<le> ca_count c \<and> (r \<noteq> None \<longrightarrow> \<not> carray_empty d)"
proof (induction "ca_count c" arbitrary: c rule: less_induct)
  case less
  from less.prems obtain f where f: "carray_front c = Ok f"
    by (subst (asm) accept_scan.simps) (auto simp: res_simps)
  show ?case
  proof (cases f)
    case None
    with less.prems f show ?thesis by (subst (asm) accept_scan.simps) simp
  next
    case (Some inst)
    then have ne: "\<not> carray_empty c" using f by (auto simp: carray_front_def split: if_splits)
    show ?thesis
    proof (cases "pi_closed inst")
      case True
      with less.prems f Some obtain x e where e: "carray_pop_front c = Ok (Some x, e)" "accept_scan e = Ok (r, d)"
        by (subst (asm) accept_scan.simps) (auto simp: res_simps split: option.splits)
      from less.hyps [OF carray_pop_front_count [OF e(1)] e(2)] carray_pop_front_count [OF e(1)]
      show ?thesis by simp
    next
      case False
      with less.prems f Some ne show ?thesis by (subst (asm) accept_scan.simps) (auto split: if_splits)
    qed
  qed
qed

lemma proposer_accept_count:
  assumes "proposer_accept p = Ok (Some ar, q)"
  shows "ca_count (p_prepare_instances q) < ca_count (p_prepare_instances p)"
proof -
  from assms obtain inst prep where scan: "accept_scan (p_prepare_instances p) = Ok (Some inst, prep)"
    by (auto simp: proposer_accept_def res_simps split: option.splits)
  from assms scan obtain x where "carray_pop_front prep = Ok (x, p_prepare_instances q)"
    by (auto simp: proposer_accept_def res_simps Let_def split: option.splits)
  moreover from this accept_scan_count [OF scan] have "x \<noteq> None"
    by (auto simp: carray_pop_front_def res_simps split: if_splits)
  ultimately have "ca_count (p_prepare_instances q) < ca_count prep" by (auto dest: carray_pop_front_count)
  with accept_scan_count [OF scan] show ?thesis by simp
qed

function try_accept_loop :: "'w libevent \<Rightarrow> 'w \<times> evproposer \<Rightarrow> ('w \<times> evproposer) res" where
  "try_accept_loop ev (w, p) =
     rbind (proposer_accept (ep_state p)) (\<lambda>(r, st).
       case r of
         None \<Rightarrow> Ok (w, p\<lparr>ep_state := st\<rparr>)
       | Some ar \<Rightarrow>
           rbind (send_accepts ev p ar w) (\<lambda>w1. try_accept_loop ev (w1, p\<lparr>ep_state := st\<rparr>)))"
  by pat_completeness auto
termination
  by (relation "measure (\<lambda>(ev, w, p). ca_count (p_prepare_instances (ep_state p)))")
    (auto dest: proposer_accept_count)

declare try_accept_loop.simps [simp del]

definition try_accept ::
  "'w libevent \<Rightarrow> (nat \<Rightarrow> nat \<Rightarrow> int) \<Rightarrow> (nat \<Rightarrow> timeval) \<Rightarrow> 'w \<times> evproposer \<Rightarrow> ('w \<times> evproposer) res" where
  "try_accept ev junk clock x = rbind (try_accept_loop ev x) (proposer_preexecute ev junk clock)"

definition send_again ::
  "'w libevent \<Rightarrow> (proposer \<Rightarrow> (prepare_req option \<times> proposer) res) \<Rightarrow> 'w \<times> evproposer \<Rightarrow> ('w \<times> evproposer) res" where
  "send_again ev receive x =
     (case x of (w, p) \<Rightarrow>
      rbind (receive (ep_state p)) (\<lambda>(preempted, st).
        case preempted of
          None \<Rightarrow> Ok (w, p\<lparr>ep_state := st\<rparr>)
        | Some pr \<Rightarrow> rbind (send_prepares ev p pr w) (\<lambda>w1. Ok (w1, p\<lparr>ep_state := st\<rparr>))))"

definition proposer_handle_prepare_ack ::
  "'w libevent \<Rightarrow> timeval \<Rightarrow> prepare_ack \<Rightarrow> 'w \<times> evproposer \<Rightarrow> ('w \<times> evproposer) res" where
  "proposer_handle_prepare_ack ev now ack x =
     send_again ev (\<lambda>st. proposer_receive_prepare_ack now st ack) x"

definition proposer_handle_accept_ack ::
  "'w libevent \<Rightarrow> timeval \<Rightarrow> accept_ack \<Rightarrow> 'w \<times> evproposer \<Rightarrow> ('w \<times> evproposer) res" where
  "proposer_handle_accept_ack ev now ack x =
     send_again ev (\<lambda>st. proposer_receive_accept_ack now st ack) x"

definition proposer_handle_client_msg ::
  "byte list \<Rightarrow> size_t \<Rightarrow> 'w \<times> evproposer \<Rightarrow> ('w \<times> evproposer) res" where
  "proposer_handle_client_msg v n x =
     (case x of (w, p) \<Rightarrow>
      rbind (proposer_propose (ep_state p) v n) (\<lambda>st. Ok (w, p\<lparr>ep_state := st\<rparr>)))"

text \<open>
  The size of a message is at most \<open>PAXOS_MAX_VALUE_SIZE\<close> when it is passed on as an \<open>int\<close>, so the
  conversion keeps it. Only a message of a known kind is followed by \<open>try_accept\<close>.
\<close>

definition proposer_handle_msg ::
  "'w libevent \<Rightarrow> (nat \<Rightarrow> nat \<Rightarrow> int) \<Rightarrow> (nat \<Rightarrow> timeval) \<Rightarrow> timeval \<Rightarrow> byte list \<Rightarrow> bev \<Rightarrow>
   'w \<times> evproposer \<Rightarrow> ('w \<times> evproposer) res" where
  "proposer_handle_msg ev junk clock now stack b x =
     (case x of (w, p) \<Rightarrow>
      case remove_msg ev b w of
        (None, w1) \<Rightarrow> Ok (w1, p)
      | (Some (code, data_size, body), w1) \<Rightarrow>
          (let buffer = body @ stack in
           case code of
             Some prepare_acks \<Rightarrow>
               rbind (proposer_handle_prepare_ack ev now (cast_prepare_ack buffer) (w1, p))
                 (try_accept ev junk clock)
           | Some accept_acks \<Rightarrow>
               rbind (proposer_handle_accept_ack ev now (cast_accept_ack buffer) (w1, p))
                 (try_accept ev junk clock)
           | Some submit \<Rightarrow>
               rbind (proposer_handle_client_msg buffer data_size (w1, p))
                 (try_accept ev junk clock)
           | _ \<Rightarrow> Ok (w1, p)))"

definition handle_request ::
  "'w libevent \<Rightarrow> (nat \<Rightarrow> nat \<Rightarrow> nat \<Rightarrow> int) \<Rightarrow> (nat \<Rightarrow> nat \<Rightarrow> timeval) \<Rightarrow> (nat \<Rightarrow> timeval) \<Rightarrow>
   (nat \<Rightarrow> byte list) \<Rightarrow> bev \<Rightarrow> 'w \<times> evproposer \<Rightarrow> ('w \<times> evproposer) res option" where
  "handle_request ev junk clock now stack b x =
     read_loop ev (\<lambda>k. proposer_handle_msg ev (junk k) (clock k) (now k) (stack k)) 0 b x"

text \<open>
  The two loops over the instances that timed out. Every answer of an iterator moves its
  position forward and keeps the number of instances.
\<close>

lemma next_timedout_moves:
  "next_timedout cfg c i t = Ok (Some k, j) \<Longrightarrow> i \<le> k \<and> k < carray_count c \<and> j = Suc k"
proof (induction "carray_count c - i" arbitrary: i)
  case 0
  from 0(2) 0(1) show ?case by (subst (asm) next_timedout.simps) simp
next
  case (Suc m)
  have IH: "i \<le> k \<and> k < carray_count c \<and> j = Suc k" if "next_timedout cfg c (Suc i) t = Ok (Some k, j)"
  proof -
    have "m = carray_count c - Suc i" using Suc.hyps(2) by simp
    from Suc.hyps(1) [OF this that] show ?thesis by simp
  qed
  from Suc.hyps(2) have i: "i < carray_count c" by simp
  with Suc.prems obtain inst where inst: "carray_item c (int i) = Ok inst"
    by (subst (asm) next_timedout.simps) (auto simp: res_simps)
  from Suc.prems i inst show ?case
    by (subst (asm) next_timedout.simps) (auto simp: res_simps dest: IH split: if_splits)
qed

lemma carray_set_count: "carray_set c i x = Ok d \<Longrightarrow> ca_count d = ca_count c"
  by (auto simp: carray_set_def res_simps split: if_splits)

lemma timeout_prepare_moves:
  assumes "timeout_iterator_prepare cfg it st = Ok (Some pr, it1, st1)"
  shows "carray_count (p_prepare_instances st1) - ti_pi it1 < carray_count (p_prepare_instances st) - ti_pi it"
  using assms
  by (auto simp: timeout_iterator_prepare_def res_simps carray_count_def
      split: option.splits dest!: next_timedout_moves carray_set_count)

lemma timeout_accept_moves:
  assumes "timeout_iterator_accept cfg it st = Ok (Some ar, it1, st1)"
  shows "carray_count (p_accept_instances st1) - ti_ai it1 < carray_count (p_accept_instances st) - ti_ai it"
  using assms
  by (auto simp: timeout_iterator_accept_def res_simps carray_count_def
      split: option.splits dest!: next_timedout_moves carray_set_count)

function timeout_prepares ::
  "'w libevent \<Rightarrow> paxos_config \<Rightarrow> timeout_iterator \<Rightarrow> 'w \<times> evproposer \<Rightarrow>
   (timeout_iterator \<times> 'w \<times> evproposer) res" where
  "timeout_prepares ev cfg it (w, p) =
     rbind (timeout_iterator_prepare cfg it (ep_state p)) (\<lambda>(r, it1, st).
       case r of
         None \<Rightarrow> Ok (it1, w, p\<lparr>ep_state := st\<rparr>)
       | Some pr \<Rightarrow>
           rbind (send_prepares ev p pr w) (\<lambda>w1. timeout_prepares ev cfg it1 (w1, p\<lparr>ep_state := st\<rparr>)))"
  by pat_completeness auto
termination
  by (relation "measure (\<lambda>(ev, cfg, it, w, p). carray_count (p_prepare_instances (ep_state p)) - ti_pi it)")
    (auto dest: timeout_prepare_moves)

function timeout_accepts ::
  "'w libevent \<Rightarrow> paxos_config \<Rightarrow> timeout_iterator \<Rightarrow> 'w \<times> evproposer \<Rightarrow>
   (timeout_iterator \<times> 'w \<times> evproposer) res" where
  "timeout_accepts ev cfg it (w, p) =
     rbind (timeout_iterator_accept cfg it (ep_state p)) (\<lambda>(r, it1, st).
       case r of
         None \<Rightarrow> Ok (it1, w, p\<lparr>ep_state := st\<rparr>)
       | Some ar \<Rightarrow>
           rbind (send_accepts ev p ar w) (\<lambda>w1. timeout_accepts ev cfg it1 (w1, p\<lparr>ep_state := st\<rparr>)))"
  by pat_completeness auto
termination
  by (relation "measure (\<lambda>(ev, cfg, it, w, p). carray_count (p_accept_instances (ep_state p)) - ti_ai it)")
    (auto dest: timeout_accept_moves)

declare timeout_prepares.simps [simp del] timeout_accepts.simps [simp del]

definition proposer_check_timeouts ::
  "'w libevent \<Rightarrow> paxos_config \<Rightarrow> timeval \<Rightarrow> 'w \<times> evproposer \<Rightarrow> ('w \<times> evproposer) res" where
  "proposer_check_timeouts ev cfg now x =
     rbind (timeout_prepares ev cfg (proposer_timeout_iterator now) x) (\<lambda>(it, y).
     rbind (timeout_accepts ev cfg it y) (\<lambda>(_, w, p).
       Ok (event_add ev w (ep_timeout_ev p) (ep_tv p), p)))"

text \<open>
  The slot of a proposer that the configuration does not name is zero: port 0. Its address
  string is not read.
\<close>

definition evproposer_init ::
  "'w libevent \<Rightarrow> int \<Rightarrow> string option \<Rightarrow> paxos_config \<Rightarrow> 'w \<Rightarrow> ('w \<times> evproposer) option res" where
  "evproposer_init ev pid file cfg w =
     rbind (read_config file cfg) (\<lambda>(conf, cfg1).
       if pid < 0 \<or> pid \<ge> int MAX_N_OF_PROPOSERS then Ok None
       else if length (proposers conf) \<le> nat pid then Err OutOfBounds
       else
         let addr = (case proposers conf ! nat pid of None \<Rightarrow> \<lparr>address_string = [], port = 0\<rparr> | Some a \<Rightarrow> a) in
         rbind (tcp_receiver_new ev addr w) (\<lambda>(w1, r).
         rbind (connect_all ev (take (acceptors_count conf) (acceptors conf)) peers_new w1) (\<lambda>(ps, w2).
           let tv = \<lparr>tv_sec = proposer_timeout cfg1, tv_usec = 0\<rparr> in
           case evtimer_new ev w2 of (t, w3) \<Rightarrow>
             Ok (Some (event_add ev w3 t tv,
               \<lparr>ep_id = pid, ep_preexec_window = proposer_preexec_window cfg1, ep_receiver = r,
                ep_state = proposer_new pid (acceptors_count conf), ep_acceptors = ps, ep_tv = tv,
                ep_timeout_ev = t\<rparr>)))))"

text \<open>\<open>proposer_free\<close> only frees memory; it is modelled in \<open>Proposer_Heap\<close>.\<close>

definition evproposer_free :: "'w libevent \<Rightarrow> evproposer \<Rightarrow> 'w \<Rightarrow> 'w res" where
  "evproposer_free ev p w =
     rbind (peers_free ev (ep_acceptors p) w) (\<lambda>w1. tcp_receiver_free ev (ep_receiver p) w1)"

end
