(* ===== verification/Evproposer_Run.thy ===== *)
theory Evproposer_Run
  imports Evproposer Proposer_Spec
begin

text \<open>
  The proposer process against the system: a handler is a run of the system whose messages go to
  all acceptors, the loop of a connection ends, a well-formed message never makes the process
  fail, and the window of prepared instances is filled after every message.
\<close>

section \<open>A handler is a run of the system\<close>

text \<open>The system after proposer \<open>k\<close> sent the given messages and came to state \<open>st\<close>.\<close>

definition proposer_sent :: "nat \<Rightarrow> proposer \<Rightarrow> message list \<Rightarrow> 's system \<Rightarrow> 's system" where
  "proposer_sent k st ms s =
     s\<lparr>sys_proposers := (sys_proposers s)(k := Some st), sys_net := sys_net s @ ms\<rparr>"

lemma proposer_sent_simps [simp]:
  "sys_proposers (proposer_sent k st ms s) k = Some st"
  "sys_net (proposer_sent k st ms s) = sys_net s @ ms"
  "proposer_sent k st2 ns (proposer_sent k st ms s) = proposer_sent k st2 (ms @ ns) s"
  by (simp_all add: proposer_sent_def)

lemma with_proposer_Ok:
  "sys_proposers s k = Some st \<Longrightarrow> f st = Ok (ms, st1) \<Longrightarrow> with_proposer k f s = proposer_sent k st1 ms s"
  by (simp add: with_proposer_def proposer_sent_def)

text \<open>
  Process \<open>k\<close> went from \<open>(w, p)\<close> to \<open>(w1, p1)\<close> by the events \<open>es\<close>: the state of its proposer is
  that of the run, and the messages the run sends are requests and are what was written to all
  acceptors. At most \<open>c\<close> of the events send nothing.
\<close>

fun is_request :: "message \<Rightarrow> bool" where
  "is_request (MPrepare pr) = True"
| "is_request (MAccept ar) = True"
| "is_request _ = False"

definition process_run ::
  "('w \<Rightarrow> bev \<Rightarrow> byte list) \<Rightarrow> ('w \<Rightarrow> bev \<Rightarrow> byte list) \<Rightarrow> 's storage_ops \<Rightarrow> nat \<Rightarrow> nat \<Rightarrow> event list \<Rightarrow> 's system \<Rightarrow>
   'w \<times> evproposer \<Rightarrow> 'w \<times> evproposer \<Rightarrow> bool" where
  "process_run inp outp ops k c es s x y \<longleftrightarrow>
     inp (fst y) = inp (fst x) \<and> snd y = (snd x)\<lparr>ep_state := ep_state (snd y)\<rparr> \<and>
     (\<exists>ms bytes. sys_run ops es s = proposer_sent k (ep_state (snd y)) ms s \<and>
        length es \<le> length ms + c \<and> list_all2 (\<lambda>m bs. is_request m \<and> wire [] m = Ok bs) ms bytes \<and>
        written outp (peers_bevs (ep_acceptors (snd x))) bytes (fst x) (fst y))"

lemma process_run_sys:
  "process_run inp outp ops k c es s x y \<Longrightarrow>
   sys_proposers (sys_run ops es s) k = Some (ep_state (snd y)) \<and>
   ep_acceptors (snd y) = ep_acceptors (snd x) \<and> set (sys_net s) \<subseteq> set (sys_net (sys_run ops es s))"
  unfolding process_run_def by (metis (no_types, lifting) Un_upper1 evproposer.ext_inject
      evproposer.surjective evproposer.update_convs(4) proposer_sent_simps(1,2) set_append)

lemma process_run_Nil:
  assumes "sys_proposers s k = Some (ep_state p)"
  shows "process_run inp outp ops k c [] s (w, p) (w, p)"
proof -
  have "s = proposer_sent k (ep_state p) [] s" using assms by (simp add: proposer_sent_def fun_upd_idem)
  then show ?thesis
    by (simp add: process_run_def) (intro exI [of _ "[]"], simp add: written_Nil)
qed

lemma process_run_append:
  assumes 1: "process_run inp outp ops k c es s x y"
    and 2: "process_run inp outp ops k d fs (sys_run ops es s) y z"
  shows "process_run inp outp ops k (c + d) (es @ fs) s x z"
proof -
  from 1 obtain ms bytes where m: "sys_run ops es s = proposer_sent k (ep_state (snd y)) ms s"
    "list_all2 (\<lambda>m bs. is_request m \<and> wire [] m = Ok bs) ms bytes" "length es \<le> length ms + c"
    "written outp (peers_bevs (ep_acceptors (snd x))) bytes (fst x) (fst y)"
    by (auto simp: process_run_def)
  from 2 obtain ns bytes2 where n: "sys_run ops fs (sys_run ops es s) = proposer_sent k (ep_state (snd z)) ns (sys_run ops es s)"
    "list_all2 (\<lambda>m bs. is_request m \<and> wire [] m = Ok bs) ns bytes2" "length fs \<le> length ns + d"
    "written outp (peers_bevs (ep_acceptors (snd y))) bytes2 (fst y) (fst z)"
    by (auto simp: process_run_def)
  have acc: "ep_acceptors (snd y) = ep_acceptors (snd x)" using process_run_sys [OF 1] by simp
  have "inp (fst z) = inp (fst x)" using 1 2 by (simp add: process_run_def)
  moreover have "snd z = (snd x)\<lparr>ep_state := ep_state (snd z)\<rparr>"
  proof -
    have "snd y = (snd x)\<lparr>ep_state := ep_state (snd y)\<rparr>" "snd z = (snd y)\<lparr>ep_state := ep_state (snd z)\<rparr>"
      using 1 2 by (simp_all add: process_run_def)
    then show ?thesis by (metis evproposer.surjective evproposer.update_convs(4))
  qed
  moreover have "sys_run ops (es @ fs) s = proposer_sent k (ep_state (snd z)) (ms @ ns) s"
    using m(1) n(1) by (simp add: sys_run_append)
  moreover have "list_all2 (\<lambda>m bs. is_request m \<and> wire [] m = Ok bs) (ms @ ns) (bytes @ bytes2)"
    using m(2) n(2) by (rule list_all2_appendI)
  moreover have "length (es @ fs) \<le> length (ms @ ns) + (c + d)" using m(3) n(3) by simp
  moreover have "written outp (peers_bevs (ep_acceptors (snd x))) (bytes @ bytes2) (fst x) (fst z)"
    using m(4) n(4) unfolding acc by (rule written_append)
  ultimately show ?thesis unfolding process_run_def by blast
qed

text \<open>Every accept request is made from an instance and carries exactly its value.\<close>

lemma accept_req_wire: "accept_req_of inst = Ok ar \<Longrightarrow> \<exists>bytes. sendbuf_add_accept_req ar = Ok bytes"
  by (auto simp: accept_req_of_def sendbuf_add_accept_req_def value_bytes_def msg_payload_def
      split: option.splits if_splits)

lemma accept_req_complete: "accept_req_of inst = Ok ar \<Longrightarrow> ar_complete ar"
  by (auto simp: accept_req_of_def ar_complete_def msg_payload_def split: option.splits if_splits)

lemma proposer_accept_made:
  assumes "proposer_accept st = Ok (Some ar, st1)"
  shows "\<exists>inst. accept_req_of inst = Ok ar"
proof -
  from assms obtain inst prep where "accept_scan (p_prepare_instances st) = Ok (Some inst, prep)"
    by (auto simp: proposer_accept_def res_simps split: option.splits)
  with assms show ?thesis
    by (cases "pi_value inst") (auto simp: proposer_accept_def res_simps Let_def split: option.splits)
qed

lemma timeout_accept_made:
  "timeout_iterator_accept cfg it st = Ok (Some ar, it1, st1) \<Longrightarrow> \<exists>inst. accept_req_of inst = Ok ar"
  by (auto simp: timeout_iterator_accept_def res_simps split: option.splits)

lemma silent_run:
  "sys_step ops e s = proposer_sent k st [] s \<Longrightarrow> 0 < c \<Longrightarrow>
   process_run inp outp ops k c [e] s (w, p) (w, p\<lparr>ep_state := st\<rparr>)"
  by (simp add: process_run_def) (intro exI [of _ "[]"], simp add: written_Nil)

text \<open>What \<open>try_accept\<close> relies on, on the lists of a proposer.\<close>

lemma lp_accept_idle: "fst (lp_accept l) = None \<Longrightarrow> snd (lp_accept l) = l"
  by (auto simp: lp_accept_def split: list.splits option.splits if_splits)

lemma lp_accept_next: "lp_next (snd (lp_accept l)) = lp_next l"
  by (auto simp: lp_accept_def split: list.splits option.splits if_splits)

lemma lp_prepare_idle:
  assumes "fst (lp_accept l) = None" "0 < lp_acceptors l"
  shows "fst (lp_accept (snd (lp_prepare junk now l))) = None"
proof (cases "lp_preps l")
  case Nil
  have "\<not> quorum_reached (q_new junk (lp_acceptors l))"
    using assms(2) by (simp add: quorum_reached_def q_new_def q_clear_def paxos_quorum_def)
  with Nil show ?thesis by (simp add: lp_accept_def lp_prepare_def Let_def)
next
  case (Cons inst rest)
  with assms(1) show ?thesis
    by (auto simp: lp_accept_def lp_prepare_def Let_def split: option.splits list.splits if_splits)
qed

text \<open>The event of the system that stands for a message, and that its message was sent.\<close>

definition proposer_event :: "nat \<Rightarrow> timeval \<Rightarrow> paxos_msg_code \<Rightarrow> byte list \<Rightarrow> event option" where
  "proposer_event k now c body =
     (case c of
        prepare_acks \<Rightarrow> Some (EPromise k now (cast_prepare_ack body))
      | accept_acks \<Rightarrow> Some (EAccepted k now (cast_accept_ack body))
      | submit \<Rightarrow> Some (EPropose k body (of_nat (length body)))
      | _ \<Rightarrow> None)"

fun answer_sent :: "event \<Rightarrow> 's system \<Rightarrow> bool" where
  "answer_sent (EPromise k now ack) s = (MPromise ack \<in> set (sys_net s))"
| "answer_sent (EAccepted k now ack) s = (MAccepted ack \<in> set (sys_net s) \<or> MNack ack \<in> set (sys_net s))"
| "answer_sent _ s = True"

definition answer_wf :: "paxos_msg_code \<Rightarrow> byte list \<Rightarrow> bool" where
  "answer_wf c body =
     (case c of
        prepare_acks \<Rightarrow> length body = sizeof_prepare_ack + unat (pa_value_size (cast_prepare_ack body))
      | accept_acks \<Rightarrow> length body = sizeof_accept_ack + unat (aa_value_size (cast_accept_ack body))
      | submit \<Rightarrow> True
      | _ \<Rightarrow> False)"

text \<open>
  The acceptor of an acknowledgement is one of the \<open>n\<close> acceptors, and a record with the ballot of the
  pending instance has this ballot as value ballot, which \<open>proposer_receive_accept_ack\<close> asserts. The
  answer to a rejected request has another ballot and any value ballot.
\<close>

definition answer_ok :: "nat \<Rightarrow> proposer \<Rightarrow> paxos_msg_code \<Rightarrow> byte list \<Rightarrow> bool" where
  "answer_ok n p c body =
     (case c of
        prepare_acks \<Rightarrow> 0 \<le> pa_acceptor_id (cast_prepare_ack body) \<and> pa_acceptor_id (cast_prepare_ack body) < int n
      | accept_acks \<Rightarrow> 0 \<le> aa_acceptor_id (cast_accept_ack body) \<and> aa_acceptor_id (cast_accept_ack body) < int n \<and>
          ack_consistent (lp_accs (lists_of p)) (cast_accept_ack body)
      | _ \<Rightarrow> True)"

lemma lp_receive_next:
  "lp_next (snd (lp_receive_prepare_ack now l pa)) = lp_next l"
  "lp_next (snd (lp_receive_accept_ack now l aa)) = lp_next l"
  by (simp_all add: lp_receive_prepare_ack_def lp_receive_accept_ack_def Let_def split: option.split)

context evbuffers
begin

abbreviation "runs \<equiv> process_run inp outp"

text \<open>A step with one message, sent to all acceptors.\<close>

lemma message_run:
  assumes "wire [] m = Ok bytes" "peers_ok (ep_acceptors p)" "is_request m"
    and "send_to_peers ev (ep_acceptors p) (wire [] m) w = Ok w1"
    and "sys_step ops e s = proposer_sent k st [m] s"
  shows "runs ops k c [e] s (w, p) (w1, p\<lparr>ep_state := st\<rparr>)"
  using assms send_to_peers_Ok [OF assms(2), of bytes w]
  by (auto simp: process_run_def sent_to_def intro!: exI [of _ "[m]"] exI [of _ "[bytes]"])

lemma send_again_run:
  assumes h: "send_again ev f (w, p) = Ok y"
    and e: "sys_step ops e s = with_proposer k (\<lambda>st. rbind (f st) (\<lambda>(r, q). Ok (prepares r, q))) s"
    and s: "sys_proposers s k = Some (ep_state p)" and ps: "peers_ok (ep_acceptors p)"
  shows "runs ops k 1 [e] s (w, p) y"
proof -
  from h obtain r st where r: "f (ep_state p) = Ok (r, st)" by (auto simp: send_again_def res_simps)
  then have step: "sys_step ops e s = proposer_sent k st (prepares r) s"
    unfolding e by (intro with_proposer_Ok [OF s]) simp
  show ?thesis
  proof (cases r)
    case None
    with h r step show ?thesis by (auto simp: send_again_def prepares_def intro: silent_run)
  next
    case (Some pr)
    with h r obtain w1 where w1: "send_prepares ev p pr w = Ok w1" and y: "y = (w1, p\<lparr>ep_state := st\<rparr>)"
      by (auto simp: send_again_def res_simps)
    from w1 step Some show ?thesis
      unfolding y by (intro message_run [OF _ ps, of "MPrepare pr"]) (simp_all add: send_prepares_def prepares_def)
  qed
qed

lemma try_accept_loop_run:
  assumes "try_accept_loop ev (w, p) = Ok y" "sys_proposers s k = Some (ep_state p)" "peers_ok (ep_acceptors p)"
  shows "\<exists>j. runs ops k 1 (replicate (Suc j) (EAccept k)) s (w, p) y"
  using assms
proof (induction "ca_count (p_prepare_instances (ep_state p))" arbitrary: w p s rule: less_induct)
  case less
  from less.prems(1) obtain r st where r: "proposer_accept (ep_state p) = Ok (r, st)"
    by (auto simp: try_accept_loop.simps res_simps)
  then have step: "sys_step ops (EAccept k) s = proposer_sent k st (accepts r) s"
    by (simp add: with_proposer_Ok [OF less.prems(2)] call_accept_def)
  show ?case
  proof (cases r)
    case None
    with less.prems(1) r step show ?thesis
      by (intro exI [of _ 0]) (auto simp: try_accept_loop.simps accepts_def intro: silent_run)
  next
    case (Some ar)
    with less.prems(1) r obtain w1 where w1: "send_accepts ev p ar w = Ok w1"
      "try_accept_loop ev (w1, p\<lparr>ep_state := st\<rparr>) = Ok y"
      by (auto simp: try_accept_loop.simps res_simps)
    obtain bytes where b: "wire [] (MAccept ar) = Ok bytes"
      using proposer_accept_made accept_req_wire r Some by fastforce
    have run: "runs ops k 0 [EAccept k] s (w, p) (w1, p\<lparr>ep_state := st\<rparr>)"
      using w1(1) step Some by (intro message_run [OF b less.prems(3)]) (simp_all add: send_accepts_def accepts_def)
    have "\<exists>j. runs ops k 1 (replicate (Suc j) (EAccept k)) (sys_run ops [EAccept k] s) (w1, p\<lparr>ep_state := st\<rparr>) y"
      using proposer_accept_count r Some process_run_sys [OF run] w1(2) less.prems(3)
      by (intro less.hyps) auto
    then obtain j where "runs ops k (0 + 1) ([EAccept k] @ replicate (Suc j) (EAccept k)) s (w, p) y"
      using process_run_append [OF run] by blast
    then show ?thesis by (intro exI [of _ "Suc j"]) simp
  qed
qed

lemma prepare_loop_run:
  assumes "for_loop [0..<m] (\<lambda>i (w, p).
      rbind (proposer_prepare (junk i) (clock i) (ep_state p)) (\<lambda>(pr, st).
      rbind (send_prepares ev p pr w) (\<lambda>w1. Ok (w1, p\<lparr>ep_state := st\<rparr>)))) (w, p) = Ok y"
    and s: "sys_proposers s k = Some (ep_state p)" and ps: "peers_ok (ep_acceptors p)"
  shows "runs ops k 0 (map (\<lambda>i. EPrepare k (junk i) (clock i)) [0..<m]) s (w, p) y"
  using assms(1)
proof (induction m arbitrary: y)
  case 0
  then show ?case using process_run_Nil [OF s] by auto
next
  case (Suc m)
  let ?es = "map (\<lambda>i. EPrepare k (junk i) (clock i)) [0..<m]"
  from Suc.prems obtain v q where v: "for_loop [0..<m] (\<lambda>i (w, p).
      rbind (proposer_prepare (junk i) (clock i) (ep_state p)) (\<lambda>(pr, st).
      rbind (send_prepares ev p pr w) (\<lambda>w1. Ok (w1, p\<lparr>ep_state := st\<rparr>)))) (w, p) = Ok (v, q)"
    by (auto simp: for_loop_append res_simps)
  with Suc.prems obtain pr st w1 where pr: "proposer_prepare (junk m) (clock m) (ep_state q) = Ok (pr, st)"
    "send_prepares ev q pr v = Ok w1" and y: "y = (w1, q\<lparr>ep_state := st\<rparr>)"
    by (auto simp: for_loop_append res_simps)
  note run = Suc.IH [OF v]
  note q = process_run_sys [OF run, simplified]
  have "sys_step ops (EPrepare k (junk m) (clock m)) (sys_run ops ?es s) =
      proposer_sent k st [MPrepare pr] (sys_run ops ?es s)"
    using pr(1) q by (simp add: with_proposer_Ok call_prepare_def)
  then have "runs ops k 0 [EPrepare k (junk m) (clock m)] (sys_run ops ?es s) (v, q) y"
    unfolding y using pr(2) ps q
    by (intro message_run [of "MPrepare pr"]) (simp_all add: send_prepares_def)
  from process_run_append [OF run this] show ?case by simp
qed

lemma preexecute_run:
  assumes h: "proposer_preexecute ev junk clock (w, p) = Ok y"
    and s: "sys_proposers s k = Some (ep_state p)" and ps: "peers_ok (ep_acceptors p)"
  shows "\<exists>m. runs ops k 0 (map (\<lambda>i. EPrepare k (junk i) (clock i)) [0..<m]) s (w, p) y"
proof (cases "ep_preexec_window p - int (proposer_prepared_count (ep_state p)) \<le> 0")
  case True
  with h process_run_Nil [OF s, of inp outp ops 0 w] show ?thesis
    by (intro exI [of _ 0]) (simp add: proposer_preexecute_def)
next
  case False
  with h have "for_loop [0..<nat (ep_preexec_window p - int (proposer_prepared_count (ep_state p)))]
      (\<lambda>i (w, p). rbind (proposer_prepare (junk i) (clock i) (ep_state p)) (\<lambda>(pr, st).
        rbind (send_prepares ev p pr w) (\<lambda>w1. Ok (w1, p\<lparr>ep_state := st\<rparr>)))) (w, p) = Ok y"
    by (simp add: proposer_preexecute_def Let_def)
  from prepare_loop_run [OF this s ps] show ?thesis by blast
qed

lemma try_accept_run:
  assumes h: "try_accept ev junk clock (w, p) = Ok y"
    and s: "sys_proposers s k = Some (ep_state p)" and ps: "peers_ok (ep_acceptors p)"
  shows "\<exists>j m. runs ops k 1 (replicate (Suc j) (EAccept k) @
    map (\<lambda>i. EPrepare k (junk i) (clock i)) [0..<m]) s (w, p) y"
proof -
  from h obtain v q where v: "try_accept_loop ev (w, p) = Ok (v, q)"
    "proposer_preexecute ev junk clock (v, q) = Ok y"
    by (auto simp: try_accept_def res_simps)
  from try_accept_loop_run [OF v(1) s ps] obtain j where
    j: "runs ops k 1 (replicate (Suc j) (EAccept k)) s (w, p) (v, q)" by blast
  note q = process_run_sys [OF j, simplified snd_conv]
  from preexecute_run [OF v(2) q [THEN conjunct1]] q ps obtain m where
    "runs ops k 0 (map (\<lambda>i. EPrepare k (junk i) (clock i)) [0..<m])
      (sys_run ops (replicate (Suc j) (EAccept k)) s) (v, q) y" by auto
  from process_run_append [OF j this] show ?thesis by auto
qed

text \<open>The three kinds of messages: the event of the message, and what is left to do is \<open>try_accept\<close>.\<close>

lemma promise_msg_run:
  assumes h: "proposer_handle_msg ev junk clock now stack b (w, p) = Ok y"
    and v: "remove_msg ev b w = (Some (Some prepare_acks, of_nat (length body), body), v)"
    and wf: "length body = sizeof_prepare_ack + unat (pa_value_size (cast_prepare_ack body))"
    and sent: "MPromise (cast_prepare_ack body) \<in> set (sys_net s)"
    and s: "sys_proposers s k = Some (ep_state p)" and ps: "peers_ok (ep_acceptors p)"
  shows "\<exists>z. runs ops k 1 [EPromise k now (cast_prepare_ack body)] s (v, p) z \<and> try_accept ev junk clock z = Ok y"
proof -
  let ?ack = "cast_prepare_ack body"
  have cmp: "pa_complete ?ack" and cast: "cast_prepare_ack (body @ stack) = ?ack\<lparr>pa_value := pa_value ?ack @ stack\<rparr>"
    using wf by (simp_all add: pa_complete_def cast_prepare_ack_def sizeof_defs dec_prefix)
  from h v obtain z where z: "send_again ev (\<lambda>st. proposer_receive_prepare_ack now st ?ack) (v, p) = Ok z"
    "try_accept ev junk clock z = Ok y"
    by (auto simp: proposer_handle_msg_def Let_def res_simps proposer_handle_prepare_ack_def cast
        receive_promise_prefix [OF cmp])
  have "sys_step ops (EPromise k now ?ack) s = with_proposer k
      (\<lambda>st. rbind (proposer_receive_prepare_ack now st ?ack) (\<lambda>(r, q). Ok (prepares r, q))) s"
    using sent by (simp add: if_sent_def call_promise_def [abs_def])
  from send_again_run [OF z(1) this s ps] z(2) show ?thesis by blast
qed

lemma accepted_msg_run:
  assumes h: "proposer_handle_msg ev junk clock now stack b (w, p) = Ok y"
    and v: "remove_msg ev b w = (Some (Some accept_acks, of_nat (length body), body), v)"
    and wf: "length body = sizeof_accept_ack + unat (aa_value_size (cast_accept_ack body))"
    and sent: "MAccepted (cast_accept_ack body) \<in> set (sys_net s) \<or> MNack (cast_accept_ack body) \<in> set (sys_net s)"
    and s: "sys_proposers s k = Some (ep_state p)" and ps: "peers_ok (ep_acceptors p)"
  shows "\<exists>z. runs ops k 1 [EAccepted k now (cast_accept_ack body)] s (v, p) z \<and> try_accept ev junk clock z = Ok y"
proof -
  let ?ack = "cast_accept_ack body"
  have cast: "cast_accept_ack (body @ stack) = ?ack\<lparr>aa_value := aa_value ?ack @ stack\<rparr>"
    using wf by (simp add: cast_accept_ack_def sizeof_defs dec_prefix)
  from h v obtain z where z: "send_again ev (\<lambda>st. proposer_receive_accept_ack now st ?ack) (v, p) = Ok z"
    "try_accept ev junk clock z = Ok y"
    by (auto simp: proposer_handle_msg_def Let_def res_simps proposer_handle_accept_ack_def cast
        receive_accepted_prefix)
  have "sys_step ops (EAccepted k now ?ack) s = with_proposer k
      (\<lambda>st. rbind (proposer_receive_accept_ack now st ?ack) (\<lambda>(r, q). Ok (prepares r, q))) s"
    using sent by (simp add: if_sent_def call_accepted_def [abs_def])
  from send_again_run [OF z(1) this s ps] z(2) show ?thesis by blast
qed

lemma submit_msg_run:
  assumes h: "proposer_handle_msg ev junk clock now stack b (w, p) = Ok y"
    and v: "remove_msg ev b w = (Some (Some submit, of_nat (length body), body), v)" and body: "body_ok body"
    and s: "sys_proposers s k = Some (ep_state p)"
  shows "\<exists>z. runs ops k 1 [EPropose k body (of_nat (length body))] s (v, p) z \<and> try_accept ev junk clock z = Ok y"
proof -
  have prefix: "proposer_propose st (body @ stack) (of_nat (length body)) =
      proposer_propose st body (of_nat (length body))" for st
    using body_size(1) [OF body] by (simp add: proposer_propose_def wrap_value_prefix)
  from h v obtain st where st: "proposer_propose (ep_state p) body (of_nat (length body)) = Ok st"
    "try_accept ev junk clock (v, p\<lparr>ep_state := st\<rparr>) = Ok y"
    by (auto simp: proposer_handle_msg_def Let_def res_simps proposer_handle_client_msg_def prefix)
  have "sys_step ops (EPropose k body (of_nat (length body))) s = proposer_sent k st [] s"
    using st(1) by (simp add: with_proposer_Ok [OF s] call_propose_def)
  from silent_run [OF this zero_less_one, of inp outp v p] st(2) show ?thesis by blast
qed

text \<open>
  A message of a connection: the event it stands for, then the accept requests and the new
  instances of \<open>try_accept\<close>.
\<close>

theorem handle_msg_run:
  assumes h: "proposer_handle_msg ev junk clock now stack b (w, p) = Ok y"
    and inp: "inp w b = frame c body @ rest" and body: "body_ok body" "answer_wf c body"
    and e: "proposer_event k now c body = Some e" "answer_sent e s"
    and s: "sys_proposers s k = Some (ep_state p)" and ps: "peers_ok (ep_acceptors p)"
  shows "\<exists>v j m. inp v = (inp w)(b := rest) \<and> outp v = outp w \<and> 
    runs ops k 2 (e # replicate (Suc j) (EAccept k) @ map (\<lambda>i. EPrepare k (junk i) (clock i)) [0..<m])
      s (v, p) y"
proof -
  from remove_frame [OF inp body(1)] obtain v where
    v: "remove_msg ev b w = (Some (Some c, of_nat (length body), body), v)" "inp v = (inp w)(b := rest)" "outp v = outp w"
    by blast
  have "\<exists>z. runs ops k 1 [e] s (v, p) z \<and> try_accept ev junk clock z = Ok y"
  proof (cases c)
    case prepare_acks
    with body(2) e have "length body = sizeof_prepare_ack + unat (pa_value_size (cast_prepare_ack body))"
      "e = EPromise k now (cast_prepare_ack body)" "MPromise (cast_prepare_ack body) \<in> set (sys_net s)"
      by (auto simp: answer_wf_def proposer_event_def)
    with promise_msg_run [OF h _ _ _ s ps] v(1) prepare_acks show ?thesis by blast
  next
    case accept_acks
    with body(2) e have "length body = sizeof_accept_ack + unat (aa_value_size (cast_accept_ack body))"
      "e = EAccepted k now (cast_accept_ack body)"
      "MAccepted (cast_accept_ack body) \<in> set (sys_net s) \<or> MNack (cast_accept_ack body) \<in> set (sys_net s)"
      by (auto simp: answer_wf_def proposer_event_def)
    with accepted_msg_run [OF h _ _ _ s ps] v(1) accept_acks show ?thesis by blast
  next
    case submit
    with e(1) have "e = EPropose k body (of_nat (length body))" by (simp add: proposer_event_def)
    with submit_msg_run [OF h _ body(1) s] v(1) submit show ?thesis by blast
  qed (use body(2) in \<open>simp_all add: answer_wf_def\<close>)
  then obtain u q where z: "runs ops k 1 [e] s (v, p) (u, q)" "try_accept ev junk clock (u, q) = Ok y" by force
  note q = process_run_sys [OF z(1), simplified snd_conv]
  from q ps have "peers_ok (ep_acceptors q)" by simp
  from try_accept_run [OF z(2) q [THEN conjunct1] this] obtain j m where
    "runs ops k 1 (replicate (Suc j) (EAccept k) @ map (\<lambda>i. EPrepare k (junk i) (clock i)) [0..<m])
      (sys_run ops [e] s) (u, q) y" by blast
  from process_run_append [OF z(1) this] v show ?thesis by (auto simp: numeral_2_eq_2)
qed

text \<open>The timer: one event for every instance that timed out, and one more for each iterator.\<close>

lemma timeout_prepares_run:
  assumes "timeout_prepares ev cfg it (w, p) = Ok (it1, y)"
    "sys_proposers s k = Some (ep_state p)" "peers_ok (ep_acceptors p)"
  shows "\<exists>its. runs ops k 1 (map (ETimeoutPrepare k cfg) its) s (w, p) y"
  using assms
proof (induction "carray_count (p_prepare_instances (ep_state p)) - ti_pi it" arbitrary: it w p s rule: less_induct)
  case less
  from less.prems(1) obtain r it2 st where r: "timeout_iterator_prepare cfg it (ep_state p) = Ok (r, it2, st)"
    by (auto simp: timeout_prepares.simps res_simps)
  then have step: "sys_step ops (ETimeoutPrepare k cfg it) s = proposer_sent k st (prepares r) s"
    by (simp add: with_proposer_Ok [OF less.prems(2)] call_timeout_prepare_def)
  show ?case
  proof (cases r)
    case None
    with less.prems(1) r step show ?thesis
      by (intro exI [of _ "[it]"]) (auto simp: timeout_prepares.simps prepares_def intro: silent_run)
  next
    case (Some pr)
    with less.prems(1) r obtain w1 where w1: "send_prepares ev p pr w = Ok w1"
      "timeout_prepares ev cfg it2 (w1, p\<lparr>ep_state := st\<rparr>) = Ok (it1, y)"
      by (auto simp: timeout_prepares.simps res_simps)
    have run: "runs ops k 0 [ETimeoutPrepare k cfg it] s (w, p) (w1, p\<lparr>ep_state := st\<rparr>)"
      using w1(1) step Some
      by (intro message_run [of "MPrepare pr", OF _ less.prems(3)]) (simp_all add: send_prepares_def prepares_def)
    have "\<exists>its. runs ops k 1 (map (ETimeoutPrepare k cfg) its) (sys_run ops [ETimeoutPrepare k cfg it] s)
        (w1, p\<lparr>ep_state := st\<rparr>) y"
      using timeout_prepare_moves r Some process_run_sys [OF run] w1(2) less.prems(3)
      by (intro less.hyps) auto
    then obtain its where "runs ops k (0 + 1) ([ETimeoutPrepare k cfg it] @ map (ETimeoutPrepare k cfg) its) s (w, p) y"
      using process_run_append [OF run] by blast
    then show ?thesis by (intro exI [of _ "it # its"]) simp
  qed
qed

lemma timeout_accepts_run:
  assumes "timeout_accepts ev cfg it (w, p) = Ok (it1, y)"
    "sys_proposers s k = Some (ep_state p)" "peers_ok (ep_acceptors p)"
  shows "\<exists>its. runs ops k 1 (map (ETimeoutAccept k cfg) its) s (w, p) y"
  using assms
proof (induction "carray_count (p_accept_instances (ep_state p)) - ti_ai it" arbitrary: it w p s rule: less_induct)
  case less
  from less.prems(1) obtain r it2 st where r: "timeout_iterator_accept cfg it (ep_state p) = Ok (r, it2, st)"
    by (auto simp: timeout_accepts.simps res_simps)
  then have step: "sys_step ops (ETimeoutAccept k cfg it) s = proposer_sent k st (accepts r) s"
    by (simp add: with_proposer_Ok [OF less.prems(2)] call_timeout_accept_def)
  show ?case
  proof (cases r)
    case None
    with less.prems(1) r step show ?thesis
      by (intro exI [of _ "[it]"]) (auto simp: timeout_accepts.simps accepts_def intro: silent_run)
  next
    case (Some ar)
    with less.prems(1) r obtain w1 where w1: "send_accepts ev p ar w = Ok w1"
      "timeout_accepts ev cfg it2 (w1, p\<lparr>ep_state := st\<rparr>) = Ok (it1, y)"
      by (auto simp: timeout_accepts.simps res_simps)
    obtain bytes where b: "wire [] (MAccept ar) = Ok bytes" using timeout_accept_made accept_req_wire r Some by fastforce
    have run: "runs ops k 0 [ETimeoutAccept k cfg it] s (w, p) (w1, p\<lparr>ep_state := st\<rparr>)"
      using w1(1) step Some by (intro message_run [OF b less.prems(3)]) (simp_all add: send_accepts_def accepts_def)
    have "\<exists>its. runs ops k 1 (map (ETimeoutAccept k cfg) its) (sys_run ops [ETimeoutAccept k cfg it] s)
        (w1, p\<lparr>ep_state := st\<rparr>) y"
      using timeout_accept_moves r Some process_run_sys [OF run] w1(2) less.prems(3)
      by (intro less.hyps) auto
    then obtain its where "runs ops k (0 + 1) ([ETimeoutAccept k cfg it] @ map (ETimeoutAccept k cfg) its) s (w, p) y"
      using process_run_append [OF run] by blast
    then show ?thesis by (intro exI [of _ "it # its"]) simp
  qed
qed

theorem check_timeouts_run:
  assumes h: "proposer_check_timeouts ev cfg now (w, p) = Ok (w1, p1)"
    and s: "sys_proposers s k = Some (ep_state p)" and ps: "peers_ok (ep_acceptors p)"
  shows "\<exists>v its jts. w1 = event_add ev v (ep_timeout_ev p) (ep_tv p) \<and>
    runs ops k 2 (map (ETimeoutPrepare k cfg) its @ map (ETimeoutAccept k cfg) jts) s (w, p) (v, p1)"
proof -
  from h obtain it u q it1 v where
    1: "timeout_prepares ev cfg (proposer_timeout_iterator now) (w, p) = Ok (it, u, q)" and
    2: "timeout_accepts ev cfg it (u, q) = Ok (it1, v, p1)" and
    w1: "w1 = event_add ev v (ep_timeout_ev p1) (ep_tv p1)"
    by (auto simp: proposer_check_timeouts_def res_simps)
  from timeout_prepares_run [OF 1 s ps] obtain its where
    r1: "runs ops k 1 (map (ETimeoutPrepare k cfg) its) s (w, p) (u, q)" by blast
  note q = process_run_sys [OF r1, simplified snd_conv]
  from timeout_accepts_run [OF 2 q [THEN conjunct1]] q ps obtain jts where
    r2: "runs ops k 1 (map (ETimeoutAccept k cfg) jts)
      (sys_run ops (map (ETimeoutPrepare k cfg) its) s) (u, q) (v, p1)" by auto
  note run = process_run_append [OF r1 r2, simplified one_add_one]
  have "ep_timeout_ev p1 = ep_timeout_ev p \<and> ep_tv p1 = ep_tv p"
    using run unfolding process_run_def
    by (metis snd_conv evproposer.ext_inject evproposer.surjective evproposer.update_convs(4))
  with run w1 show ?thesis by (intro exI [of _ v] exI [of _ its] exI [of _ jts]) simp
qed

text \<open>The loop of a connection always ends.\<close>

lemma send_to_peers_inp: "send_to_peers ev ps msg w = Ok w1 \<Longrightarrow> inp w1 = inp w"
  unfolding send_to_peers_def
  by (rule for_loop_keeps [where P = "\<lambda>y. inp y = inp w"]) (auto simp: res_simps bev_write)

lemma send_prepares_inp: "send_prepares ev p pr w = Ok w1 \<Longrightarrow> inp w1 = inp w"
  unfolding send_prepares_def by (rule send_to_peers_inp)

lemma try_accept_inp:
  assumes "try_accept ev junk clock x = Ok y"
  shows "inp (fst y) = inp (fst x)"
proof -
  have loop: "inp (fst z) = inp w" if "try_accept_loop ev (w, p) = Ok z" for w p z
    using that
  proof (induction "ca_count (p_prepare_instances (ep_state p))" arbitrary: w p rule: less_induct)
    case less
    from less.prems obtain r st where r: "proposer_accept (ep_state p) = Ok (r, st)"
      by (auto simp: try_accept_loop.simps res_simps)
    show ?case
    proof (cases r)
      case (Some ar)
      with less.prems r obtain u where u: "send_accepts ev p ar w = Ok u"
        "try_accept_loop ev (u, p\<lparr>ep_state := st\<rparr>) = Ok z"
        by (auto simp: try_accept_loop.simps res_simps)
      have "inp (fst z) = inp u" using proposer_accept_count r Some u(2) by (intro less.hyps) auto
      with u(1) show ?thesis by (auto simp: send_accepts_def dest: send_to_peers_inp)
    qed (use less.prems r in \<open>auto simp: try_accept_loop.simps res_simps\<close>)
  qed
  obtain w p where x: "x = (w, p)" by force
  from assms obtain z where z: "try_accept_loop ev (w, p) = Ok z" "proposer_preexecute ev junk clock z = Ok y"
    by (auto simp: try_accept_def res_simps x)
  have "inp (fst y) = inp (fst z)"
  proof (cases "ep_preexec_window (snd z) - int (proposer_prepared_count (ep_state (snd z))) \<le> 0")
    case False
    with z(2) show ?thesis
      unfolding proposer_preexecute_def Let_def
      by (simp del: diff_le_0_iff_le, elim for_loop_keeps [where P = "\<lambda>y. inp (fst y) = inp (fst z)"])
        (auto simp: res_simps dest!: send_prepares_inp)
  qed (use z(2) in \<open>simp add: proposer_preexecute_def\<close>)
  with loop [OF z(1)] show ?thesis by (simp add: x)
qed

theorem handle_request_returns: "\<exists>r. handle_request ev junk clock now stack b x = Some r"
  unfolding handle_request_def
proof (rule read_loop_returns)
  fix k x y
  assume h: "proposer_handle_msg ev (junk k) (clock k) (now k) (stack k) b x = Ok y"
    and l: "sizeof_paxos_msg < length (inp (fst x) b)"
  obtain w p where x: "x = (w, p)" by force
  obtain r v where v: "remove_msg ev b w = (r, v)" by force
  have again: "inp (fst z) = inp u" if "send_again ev f (u, q) = Ok z" for f u q z
    using that by (auto simp: send_again_def res_simps split: option.splits dest!: send_prepares_inp)
  have "inp (fst y) = inp v"
    using h v unfolding x proposer_handle_msg_def Let_def
    by (auto simp: res_simps proposer_handle_prepare_ack_def proposer_handle_accept_ack_def
        proposer_handle_client_msg_def split: option.splits paxos_msg_code.splits
        dest!: try_accept_inp again)
  with remove_shorter [OF v] l x show "length (inp (fst y) b) < length (inp (fst x) b)" by simp
qed

text \<open>
  On a well-formed proposer \<open>try_accept\<close> succeeds. Afterwards no accept request is possible and
  the window is filled.
\<close>

lemma accept_request_sent:
  assumes "proposer_accept (ep_state p) = Ok (Some ar, st)" "peers_ok (ep_acceptors p)"
  shows "\<exists>w1. send_accepts ev p ar w = Ok w1"
  using proposer_accept_made [OF assms(1)] accept_req_wire send_to_peers_Ok [OF assms(2)]
  unfolding send_accepts_def by metis

lemma try_accept_loop_ok:
  assumes "proposer_inv n (ep_state p)" "peers_ok (ep_acceptors p)"
  shows "\<exists>w1 st. try_accept_loop ev (w, p) = Ok (w1, p\<lparr>ep_state := st\<rparr>) \<and> proposer_inv n st \<and>
    fst (lp_accept (lists_of st)) = None \<and> p_next_prepare_iid st = p_next_prepare_iid (ep_state p)"
  using assms
proof (induction "ca_count (p_prepare_instances (ep_state p))" arbitrary: w p rule: less_induct)
  case less
  from proposer_accept_ok [OF less.prems(1)] obtain st where
    st: "proposer_accept (ep_state p) = Ok (fst (lp_accept (lists_of (ep_state p))), st)" "proposer_inv n st"
      "lists_of st = snd (lp_accept (lists_of (ep_state p)))" by blast
  have nxt: "p_next_prepare_iid st = p_next_prepare_iid (ep_state p)"
    using arg_cong [OF st(3), of lp_next] lp_accept_next [of "lists_of (ep_state p)"] by simp
  show ?case
  proof (cases "fst (lp_accept (lists_of (ep_state p)))")
    case None
    with st(3) have "lists_of st = lists_of (ep_state p)" by (simp add: lp_accept_idle)
    with None st nxt show ?thesis
      by (intro exI [of _ w] exI [of _ st]) (simp add: try_accept_loop.simps)
  next
    case (Some ar)
    with st(1) have acc: "proposer_accept (ep_state p) = Ok (Some ar, st)" by simp
    from accept_request_sent [OF acc less.prems(2)] obtain v where v: "send_accepts ev p ar w = Ok v" by blast
    have "\<exists>w1 st1. try_accept_loop ev (v, p\<lparr>ep_state := st\<rparr>) = Ok (w1, p\<lparr>ep_state := st\<rparr>\<lparr>ep_state := st1\<rparr>) \<and>
        proposer_inv n st1 \<and> fst (lp_accept (lists_of st1)) = None \<and>
        p_next_prepare_iid st1 = p_next_prepare_iid (ep_state (p\<lparr>ep_state := st\<rparr>))"
      using proposer_accept_count [OF acc] st(2) less.prems(2) by (intro less.hyps) simp_all
    with acc v nxt show ?thesis by (simp add: try_accept_loop.simps [of ev w p])
  qed
qed

lemma prepare_loop_ok:
  assumes inv: "proposer_inv n (ep_state p)" and ps: "peers_ok (ep_acceptors p)"
    and idle: "fst (lp_accept (lists_of (ep_state p))) = None"
    and room: "unat (p_next_prepare_iid (ep_state p)) + m < 2 ^ 32"
  shows "\<exists>x. for_loop [0..<m] (\<lambda>i (w, p).
      rbind (proposer_prepare (junk i) (clock i) (ep_state p)) (\<lambda>(pr, st).
      rbind (send_prepares ev p pr w) (\<lambda>w1. Ok (w1, p\<lparr>ep_state := st\<rparr>)))) (w, p) = Ok x \<and>
    (\<exists>w1 st. x = (w1, p\<lparr>ep_state := st\<rparr>) \<and> proposer_inv n st \<and> fst (lp_accept (lists_of st)) = None \<and>
      unat (p_next_prepare_iid st) = unat (p_next_prepare_iid (ep_state p)) + m \<and>
      proposer_prepared_count st = proposer_prepared_count (ep_state p) + m)"
proof (rule for_loop_upto_inv [where I = "\<lambda>m x. \<exists>w1 st. x = (w1, p\<lparr>ep_state := st\<rparr>) \<and> proposer_inv n st \<and>
      fst (lp_accept (lists_of st)) = None \<and>
      unat (p_next_prepare_iid st) = unat (p_next_prepare_iid (ep_state p)) + m \<and>
      proposer_prepared_count st = proposer_prepared_count (ep_state p) + m"])
  show "\<exists>w1 st. (w, p) = (w1, p\<lparr>ep_state := st\<rparr>) \<and> proposer_inv n st \<and> fst (lp_accept (lists_of st)) = None \<and>
      unat (p_next_prepare_iid st) = unat (p_next_prepare_iid (ep_state p)) + 0 \<and>
      proposer_prepared_count st = proposer_prepared_count (ep_state p) + 0"
    using inv idle by (intro exI [of _ w] exI [of _ "ep_state p"]) simp
next
  fix i and x :: "'w \<times> evproposer"
  assume i: "i < m" and "\<exists>w1 st. x = (w1, p\<lparr>ep_state := st\<rparr>) \<and> proposer_inv n st \<and>
      fst (lp_accept (lists_of st)) = None \<and>
      unat (p_next_prepare_iid st) = unat (p_next_prepare_iid (ep_state p)) + i \<and>
      proposer_prepared_count st = proposer_prepared_count (ep_state p) + i"
  then obtain w1 st where x: "x = (w1, p\<lparr>ep_state := st\<rparr>)" and st: "proposer_inv n st"
    "fst (lp_accept (lists_of st)) = None" "unat (p_next_prepare_iid st) = unat (p_next_prepare_iid (ep_state p)) + i"
    "proposer_prepared_count st = proposer_prepared_count (ep_state p) + i" by blast
  have room1: "unat (p_next_prepare_iid st) + 1 < 2 ^ 32" using st(3) i room by simp
  from proposer_prepare_ok [OF st(1) room1, of "junk i" "clock i"] obtain st1 where
    st1: "proposer_prepare (junk i) (clock i) st = Ok (fst (lp_prepare (junk i) (clock i) (lists_of st)), st1)"
    "proposer_inv n st1" "lists_of st1 = snd (lp_prepare (junk i) (clock i) (lists_of st))" by blast
  have nxt: "p_next_prepare_iid st1 = p_next_prepare_iid st + 1"
    using arg_cong [OF st1(3), of lp_next] by (simp add: lp_prepare_def Let_def)
  have cnt: "proposer_prepared_count st1 = Suc (proposer_prepared_count st)"
    using arg_cong [OF st1(3), of "\<lambda>l. length (lp_preps l)"]
    by (simp add: lp_prepare_def Let_def proposer_prepared_count_def carray_count_def)
  have "fst (lp_accept (lists_of st1)) = None"
    unfolding st1(3) using st(2) proposer_invD(5,6) [OF st(1)] by (intro lp_prepare_idle) simp_all
  moreover have "unat (p_next_prepare_iid st1) = unat (p_next_prepare_iid st) + 1"
    unfolding nxt using room1 unat_add_small [of "p_next_prepare_iid st" 1] by simp
  moreover obtain w2 where "send_prepares ev (p\<lparr>ep_state := st\<rparr>)
      (fst (lp_prepare (junk i) (clock i) (lists_of st))) w1 = Ok w2"
    using send_to_peers_Ok [OF ps] unfolding send_prepares_def by (metis evproposer.select_convs(5) evproposer.surjective evproposer.update_convs(4))
  ultimately show "\<exists>t. (case x of (w, p) \<Rightarrow>
        rbind (proposer_prepare (junk i) (clock i) (ep_state p)) (\<lambda>(pr, st).
        rbind (send_prepares ev p pr w) (\<lambda>w1. Ok (w1, p\<lparr>ep_state := st\<rparr>)))) = Ok t \<and>
      (\<exists>w1 st. t = (w1, p\<lparr>ep_state := st\<rparr>) \<and> proposer_inv n st \<and> fst (lp_accept (lists_of st)) = None \<and>
        unat (p_next_prepare_iid st) = unat (p_next_prepare_iid (ep_state p)) + Suc i \<and>
        proposer_prepared_count st = proposer_prepared_count (ep_state p) + Suc i)"
    using st1(1,2) st cnt x by auto
qed

theorem try_accept_ok:
  assumes inv: "proposer_inv n (ep_state p)" and ps: "peers_ok (ep_acceptors p)"
    and room: "unat (p_next_prepare_iid (ep_state p)) + nat (ep_preexec_window p) < 2 ^ 32"
  shows "\<exists>w1 st st1. try_accept ev junk clock (w, p) = Ok (w1, p\<lparr>ep_state := st\<rparr>) \<and> proposer_inv n st \<and>
    proposer_accept st = Ok (None, st1) \<and> ep_preexec_window p \<le> int (proposer_prepared_count st)"
proof -
  from try_accept_loop_ok [OF inv ps] obtain v q where
    v: "try_accept_loop ev (w, p) = Ok (v, p\<lparr>ep_state := q\<rparr>)" and q: "proposer_inv n q"
      "fst (lp_accept (lists_of q)) = None" "p_next_prepare_iid q = p_next_prepare_iid (ep_state p)" by blast
  let ?c = "ep_preexec_window p - int (proposer_prepared_count q)"
  have "\<exists>w1 st. proposer_preexecute ev junk clock (v, p\<lparr>ep_state := q\<rparr>) = Ok (w1, p\<lparr>ep_state := st\<rparr>) \<and>
      proposer_inv n st \<and> fst (lp_accept (lists_of st)) = None \<and>
      ep_preexec_window p \<le> int (proposer_prepared_count st)"
  proof (cases "?c \<le> 0")
    case True
    with q show ?thesis by (intro exI [of _ v] exI [of _ q]) (simp add: proposer_preexecute_def)
  next
    case False
    have "unat (p_next_prepare_iid q) + nat ?c < 2 ^ 32" using room q(3) by simp
    with q ps False prepare_loop_ok [of n "p\<lparr>ep_state := q\<rparr>" "nat ?c" junk clock v] obtain w1 st where
      "proposer_preexecute ev junk clock (v, p\<lparr>ep_state := q\<rparr>) = Ok (w1, p\<lparr>ep_state := st\<rparr>)"
      "proposer_inv n st" "fst (lp_accept (lists_of st)) = None"
      "proposer_prepared_count st = proposer_prepared_count q + nat ?c"
      by (auto simp: proposer_preexecute_def)
    then show ?thesis by (intro exI [of _ w1] exI [of _ st]) simp
  qed
  then obtain w1 st where st: "proposer_preexecute ev junk clock (v, p\<lparr>ep_state := q\<rparr>) = Ok (w1, p\<lparr>ep_state := st\<rparr>)"
    "proposer_inv n st" "fst (lp_accept (lists_of st)) = None"
    "ep_preexec_window p \<le> int (proposer_prepared_count st)" by blast
  from proposer_accept_ok [OF st(2)] st(3) obtain st1 where "proposer_accept st = Ok (None, st1)" by auto
  with v st show ?thesis by (auto simp: try_accept_def)
qed

lemma send_again_ok:
  assumes "f (ep_state p) = Ok (r, st)" "peers_ok (ep_acceptors p)"
  shows "\<exists>w1. send_again ev f (w, p) = Ok (w1, p\<lparr>ep_state := st\<rparr>)"
proof (cases r)
  case (Some pr)
  with assms send_to_peers_Ok [OF assms(2), of "sendbuf_add_prepare_req pr" w] show ?thesis
    by (auto simp: send_again_def send_prepares_def)
qed (use assms in \<open>simp add: send_again_def\<close>)

text \<open>
  A well-formed message never makes the proposer fail: each kind comes to \<open>try_accept\<close> with a
  well-formed proposer that has opened no instance.
\<close>

abbreviation reaches_try_accept :: "nat \<Rightarrow> ('w \<times> evproposer) res \<Rightarrow> (nat \<Rightarrow> nat \<Rightarrow> int) \<Rightarrow> (nat \<Rightarrow> timeval) \<Rightarrow>
   evproposer \<Rightarrow> bool" where
  "reaches_try_accept n r junk clock p \<equiv> \<exists>u q. r = try_accept ev junk clock (u, p\<lparr>ep_state := q\<rparr>) \<and>
     proposer_inv n q \<and> p_next_prepare_iid q = p_next_prepare_iid (ep_state p)"

lemma promise_msg_ok:
  assumes v: "remove_msg ev b w = (Some (Some prepare_acks, of_nat (length body), body), v)"
    and wf: "answer_wf prepare_acks body" "answer_ok n (ep_state p) prepare_acks body"
    and inv: "proposer_inv n (ep_state p)" and ps: "peers_ok (ep_acceptors p)"
  shows "reaches_try_accept n (proposer_handle_msg ev junk clock now stack b (w, p)) junk clock p"
proof -
  let ?ack = "cast_prepare_ack (body @ stack)"
  have sz: "length body = 24 + unat (pa_value_size (cast_prepare_ack body))"
    using wf(1) by (simp add: answer_wf_def sizeof_defs)
  then have f: "pa_value_size ?ack = pa_value_size (cast_prepare_ack body)"
    "pa_acceptor_id ?ack = pa_acceptor_id (cast_prepare_ack body)" "length (pa_value ?ack) = length (body @ stack) - 24"
    by (simp_all add: cast_prepare_ack_def dec_prefix)
  have ok: "0 \<le> pa_acceptor_id ?ack" "pa_acceptor_id ?ack < int n" "unat (pa_value_size ?ack) \<le> length (pa_value ?ack)"
    using wf(2) f sz by (simp_all add: answer_ok_def)
  from proposer_receive_prepare_ack_ok [OF inv ok, of now] obtain q where
    q: "proposer_receive_prepare_ack now (ep_state p) ?ack = Ok (fst (lp_receive_prepare_ack now (lists_of (ep_state p)) ?ack), q)"
      "proposer_inv n q" "lists_of q = snd (lp_receive_prepare_ack now (lists_of (ep_state p)) ?ack)" by blast
  have "p_next_prepare_iid q = p_next_prepare_iid (ep_state p)"
    using arg_cong [OF q(3), of lp_next] by (simp add: lp_receive_next)
  moreover obtain u where "send_again ev (\<lambda>st. proposer_receive_prepare_ack now st ?ack) (v, p) = Ok (u, p\<lparr>ep_state := q\<rparr>)"
    using send_again_ok [of "\<lambda>st. proposer_receive_prepare_ack now st ?ack" p, OF q(1) ps] by blast
  ultimately show ?thesis using q(2) v
    by (intro exI [of _ u] exI [of _ q]) (simp add: proposer_handle_msg_def proposer_handle_prepare_ack_def Let_def)
qed

lemma accepted_msg_ok:
  assumes v: "remove_msg ev b w = (Some (Some accept_acks, of_nat (length body), body), v)"
    and wf: "answer_wf accept_acks body" "answer_ok n (ep_state p) accept_acks body"
    and inv: "proposer_inv n (ep_state p)" and ps: "peers_ok (ep_acceptors p)"
  shows "reaches_try_accept n (proposer_handle_msg ev junk clock now stack b (w, p)) junk clock p"
proof -
  let ?ack = "cast_accept_ack (body @ stack)"
  have "32 \<le> length body" using wf(1) by (simp add: answer_wf_def sizeof_defs)
  then have ok: "0 \<le> aa_acceptor_id ?ack" "aa_acceptor_id ?ack < int n"
    "ack_consistent (lp_accs (lists_of (ep_state p))) ?ack"
    using wf(2) by (simp_all add: answer_ok_def ack_consistent_def cast_accept_ack_def dec_prefix)
  from proposer_receive_accept_ack_ok [OF inv ok, of now] obtain q where
    q: "proposer_receive_accept_ack now (ep_state p) ?ack = Ok (fst (lp_receive_accept_ack now (lists_of (ep_state p)) ?ack), q)"
      "proposer_inv n q" "lists_of q = snd (lp_receive_accept_ack now (lists_of (ep_state p)) ?ack)" by blast
  have "p_next_prepare_iid q = p_next_prepare_iid (ep_state p)"
    using arg_cong [OF q(3), of lp_next] by (simp add: lp_receive_next)
  moreover obtain u where "send_again ev (\<lambda>st. proposer_receive_accept_ack now st ?ack) (v, p) = Ok (u, p\<lparr>ep_state := q\<rparr>)"
    using send_again_ok [of "\<lambda>st. proposer_receive_accept_ack now st ?ack" p, OF q(1) ps] by blast
  ultimately show ?thesis using q(2) v
    by (intro exI [of _ u] exI [of _ q]) (simp add: proposer_handle_msg_def proposer_handle_accept_ack_def Let_def)
qed

lemma submit_msg_ok:
  assumes v: "remove_msg ev b w = (Some (Some submit, of_nat (length body), body), v)" and body: "body_ok body"
    and inv: "proposer_inv n (ep_state p)"
  shows "reaches_try_accept n (proposer_handle_msg ev junk clock now stack b (w, p)) junk clock p"
proof -
  from proposer_propose_ok [OF inv, of "of_nat (length body)" "body @ stack"] body_size(1) [OF body]
  obtain q where q: "proposer_propose (ep_state p) (body @ stack) (of_nat (length body)) = Ok q" "proposer_inv n q"
      "lists_of q = lp_propose (lists_of (ep_state p)) (body @ stack) (of_nat (length body))" by auto
  have "p_next_prepare_iid q = p_next_prepare_iid (ep_state p)"
    using arg_cong [OF q(3), of lp_next] by (simp add: lp_propose_def)
  with q v show ?thesis
    by (intro exI [of _ v] exI [of _ q]) (simp add: proposer_handle_msg_def proposer_handle_client_msg_def Let_def)
qed

theorem handle_msg_ok:
  assumes inp: "inp w b = frame c body @ rest" and body: "body_ok body" "answer_wf c body" "answer_ok n (ep_state p) c body"
    and inv: "proposer_inv n (ep_state p)" and ps: "peers_ok (ep_acceptors p)"
    and room: "unat (p_next_prepare_iid (ep_state p)) + nat (ep_preexec_window p) < 2 ^ 32"
  shows "\<exists>w1 st st1. proposer_handle_msg ev junk clock now stack b (w, p) = Ok (w1, p\<lparr>ep_state := st\<rparr>) \<and>
    proposer_inv n st \<and> proposer_accept st = Ok (None, st1) \<and>
    ep_preexec_window p \<le> int (proposer_prepared_count st)"
proof -
  from remove_frame [OF inp body(1)] obtain v where
    v: "remove_msg ev b w = (Some (Some c, of_nat (length body), body), v)" by blast
  have "reaches_try_accept n (proposer_handle_msg ev junk clock now stack b (w, p)) junk clock p"
  proof (cases c)
    case prepare_acks
    with promise_msg_ok [OF _ _ _ inv ps] v body(2,3) show ?thesis by blast
  next
    case accept_acks
    with accepted_msg_ok [OF _ _ _ inv ps] v body(2,3) show ?thesis by blast
  next
    case submit
    with submit_msg_ok [OF _ body(1) inv] v show ?thesis by blast
  qed (use body(2) in \<open>simp_all add: answer_wf_def\<close>)
  then obtain u q where u: "proposer_handle_msg ev junk clock now stack b (w, p) = try_accept ev junk clock (u, p\<lparr>ep_state := q\<rparr>)"
    "proposer_inv n q" "p_next_prepare_iid q = p_next_prepare_iid (ep_state p)" by blast
  with try_accept_ok [of n "p\<lparr>ep_state := q\<rparr>" junk clock u] ps room show ?thesis by auto
qed

end

end
