(* ===== verification/Evpaxos.thy ===== *)
theory Evpaxos
  imports Evacceptor Evlearner Evproposer_Run Consensus
begin

text \<open>
  The three processes together: what one of them writes for a message of the system is one frame
  that the others accept and read as that message, and a learner process that is fed such frames
  continues a run of the system.
\<close>

section \<open>A message is a frame\<close>

fun wire_code :: "message \<Rightarrow> paxos_msg_code" where
  "wire_code (MPrepare pr) = prepare_reqs"
| "wire_code (MPromise pa) = prepare_acks"
| "wire_code (MAccept ar) = accept_reqs"
| "wire_code (MAccepted aa) = accept_acks"
| "wire_code (MNack aa) = accept_acks"

definition ack_body :: "byte list \<Rightarrow> accept_ack \<Rightarrow> byte list" where
  "ack_body pad aa = enc_int (aa_acceptor_id aa) @ enc32 (aa_iid aa) @ enc32 (aa_ballot aa) @
     enc32 (aa_value_ballot aa) @ enc_short (aa_is_final aa) @ pad @ enc64 (aa_value_size aa) @ aa_value aa"

fun wire_body :: "byte list \<Rightarrow> message \<Rightarrow> byte list" where
  "wire_body pad (MPrepare pr) = enc32 (pr_iid pr) @ enc32 (pr_ballot pr)"
| "wire_body pad (MPromise pa) = enc_int (pa_acceptor_id pa) @ enc32 (pa_iid pa) @ enc32 (pa_ballot pa) @
     enc32 (pa_value_ballot pa) @ enc64 (pa_value_size pa) @ pa_value pa"
| "wire_body pad (MAccept ar) = enc32 (ar_iid ar) @ enc32 (ar_ballot ar) @ enc64 (ar_value_size ar) @ ar_value ar"
| "wire_body pad (MAccepted aa) = ack_body pad aa"
| "wire_body pad (MNack aa) = ack_body pad aa"

text \<open>
  The value of a message is complete, ids and flags are in the range of their C types. A value of
  at most 255968 bytes fits every message.
\<close>

definition ack_shape :: "accept_ack \<Rightarrow> bool" where
  "ack_shape aa \<longleftrightarrow> aa_complete aa \<and> - (2 ^ 31) \<le> aa_acceptor_id aa \<and> aa_acceptor_id aa < 2 ^ 31 \<and>
     - (2 ^ 15) \<le> aa_is_final aa \<and> aa_is_final aa < 2 ^ 15"

fun message_shape :: "message \<Rightarrow> bool" where
  "message_shape (MPrepare pr) = True"
| "message_shape (MPromise pa) =
     (pa_complete pa \<and> - (2 ^ 31) \<le> pa_acceptor_id pa \<and> pa_acceptor_id pa < 2 ^ 31)"
| "message_shape (MAccept ar) = ar_complete ar"
| "message_shape (MAccepted aa) = ack_shape aa"
| "message_shape (MNack aa) = ack_shape aa"

fun message_value :: "message \<Rightarrow> byte list" where
  "message_value (MPrepare pr) = []"
| "message_value (MPromise pa) = pa_value pa"
| "message_value (MAccept ar) = ar_value ar"
| "message_value (MAccepted aa) = aa_value aa"
| "message_value (MNack aa) = aa_value aa"

definition ack_fits :: "accept_ack \<Rightarrow> bool" where
  "ack_fits aa \<longleftrightarrow> ack_shape aa \<and> length (aa_value aa) \<le> 255968"

definition message_fits :: "message \<Rightarrow> bool" where
  "message_fits m \<longleftrightarrow> message_shape m \<and> length (message_value m) \<le> 255968"

text \<open>The receiver of the message sees a body of the right size and reads the message from it.\<close>

fun read_as :: "byte list \<Rightarrow> message \<Rightarrow> bool" where
  "read_as body (MPrepare pr) = (request_wf prepare_reqs body \<and> cast_prepare_req body = pr)"
| "read_as body (MPromise pa) = (answer_wf prepare_acks body \<and> cast_prepare_ack body = pa)"
| "read_as body (MAccept ar) = (request_wf accept_reqs body \<and> cast_accept_req body = ar)"
| "read_as body (MAccepted aa) = (answer_wf accept_acks body \<and> cast_accept_ack body = aa)"
| "read_as body (MNack aa) = (answer_wf accept_acks body \<and> cast_accept_ack body = aa)"

lemma complete_size: "unat n = length v \<Longrightarrow> of_nat (length v) = (n :: size_t)"
  by (drule sym) simp

lemma body_okI: "0 < length body \<Longrightarrow> length body \<le> 256000 \<Longrightarrow> body_ok body"
  by (auto simp: body_ok_def PAXOS_MAX_VALUE_SIZE_def)

lemma ack_body_frame:
  assumes "ack_shape aa" "length pad = 6"
  shows "sendbuf_add_accept_ack pad aa = Ok (frame accept_acks (ack_body pad aa))"
    "length (ack_body pad aa) = 32 + length (aa_value aa)"
    "answer_wf accept_acks (ack_body pad aa)" "cast_accept_ack (ack_body pad aa) = aa"
proof -
  show l: "length (ack_body pad aa) = 32 + length (aa_value aa)"
    using assms by (simp add: ack_body_def)
  have size: "unat (aa_value_size aa) = length (aa_value aa)" using assms by (simp add: ack_shape_def aa_complete_def)
  show cast: "cast_accept_ack (ack_body pad aa) = aa"
    using assms by (simp add: cast_accept_ack_def ack_body_def ack_shape_def)
  show "sendbuf_add_accept_ack pad aa = Ok (frame accept_acks (ack_body pad aa))"
    unfolding frame_def l using assms complete_size [OF size] size
    by (simp add: sendbuf_add_accept_ack_def value_bytes_def ACCEPT_ACK_SIZE_def
        sizeof_defs ack_body_def add.commute)
  show "answer_wf accept_acks (ack_body pad aa)"
    using l cast size by (simp add: answer_wf_def sizeof_defs)
qed

lemma ack_body_ok: "ack_fits aa \<Longrightarrow> length pad = 6 \<Longrightarrow> body_ok (ack_body pad aa)"
  by (intro body_okI) (simp_all add: ack_fits_def ack_body_frame(2))

text \<open>
  What is written for a message is one frame, whatever its size, and its body is read as the
  message.
\<close>

lemma wire_shape:
  assumes "message_shape m" "length pad = 6"
  shows "wire pad m = Ok (frame (wire_code m) (wire_body pad m)) \<and> read_as (wire_body pad m) m \<and>
    0 < length (wire_body pad m) \<and> length (message_value m) \<le> length (wire_body pad m) \<and>
    length (wire_body pad m) \<le> 32 + length (message_value m)"
proof (cases m)
  case (MPrepare pr)
  have l: "length (wire_body pad m) = 8" using MPrepare by simp
  with MPrepare dec_first(1) [of "pr_ballot pr" "[]"] show ?thesis
    by (simp add: frame_def sendbuf_add_prepare_req_def PREPARE_REQ_SIZE_def sizeof_defs
        request_wf_def cast_prepare_req_def)
next
  case (MPromise pa)
  have size: "unat (pa_value_size pa) = length (pa_value pa)" using MPromise assms by (simp add: pa_complete_def)
  have l: "length (wire_body pad m) = 24 + length (pa_value pa)" using MPromise by simp
  have cast: "cast_prepare_ack (wire_body pad m) = pa"
    using MPromise assms by (simp add: cast_prepare_ack_def)
  have "wire pad m = Ok (frame (wire_code m) (wire_body pad m))"
    unfolding frame_def l using MPromise complete_size [OF size] size
    by (auto simp: sendbuf_add_prepare_ack_def prepare_ack_of_def ack_record_def value_bytes_def
        PREPARE_ACK_SIZE_def sizeof_defs add.commute aa_payload_def word_gt_0 Let_def)
  moreover have "answer_wf prepare_acks (wire_body pad m)"
    using l cast size by (simp add: answer_wf_def sizeof_defs)
  ultimately show ?thesis using cast MPromise l by simp
next
  case (MAccept ar)
  have size: "unat (ar_value_size ar) = length (ar_value ar)" using MAccept assms by (simp add: ar_complete_def)
  have l: "length (wire_body pad m) = 16 + length (ar_value ar)" using MAccept by simp
  have cast: "cast_accept_req (wire_body pad m) = ar"
    using MAccept by (simp add: cast_accept_req_def)
  have "wire pad m = Ok (frame (wire_code m) (wire_body pad m))"
    unfolding frame_def l using MAccept complete_size [OF size] size
    by (simp add: sendbuf_add_accept_req_def value_bytes_def ACCEPT_REQ_SIZE_def sizeof_defs add.commute)
  moreover have "request_wf accept_reqs (wire_body pad m)"
    using l cast size by (simp add: request_wf_def sizeof_defs)
  ultimately show ?thesis using cast MAccept l by simp
qed (use ack_body_frame assms in simp_all)

lemma wire_frame:
  assumes "message_fits m" "length pad = 6"
  shows "wire pad m = Ok (frame (wire_code m) (wire_body pad m)) \<and> body_ok (wire_body pad m) \<and>
    read_as (wire_body pad m) m"
proof -
  have "message_shape m" "length (message_value m) \<le> 255968" using assms(1) by (simp_all add: message_fits_def)
  note 1 = wire_shape [OF this(1) assms(2)] and 2 = this(2)
  have "0 < length (wire_body pad m)" "length (wire_body pad m) \<le> 256000" using 1 2 by auto
  with 1 show ?thesis by (blast intro: body_okI)
qed

section \<open>A learner process in a run of the system\<close>

context record_store
begin

lemma learner_process_run:
  assumes ev: "evbuffers ev inp outp"
    and n: "0 < n" and l0: "learner_inv n m {} l0"
    and stores: "\<And>a. a < n \<Longrightarrow> store_ok (stores a) \<and> owner (stores a) = int a"
    and fresh: "\<And>a i. a < n \<Longrightarrow> i \<noteq> 0 \<Longrightarrow> live (stores a) i \<Longrightarrow> lookup (stores a) i = None"
    and run: "run_ok ops es (sys_init n stores l0)" "length es \<le> step_limit" "length es + m + 1 < 2 ^ 31"
    and s: "s = sys_run ops es (sys_init n stores l0)" "sys_learners s k = Some (el_state l)"
    and inp: "inp w b = concat (map (\<lambda>aa. frame accept_acks (ack_body pad aa)) aas) @ rest"
      "length (inp w b) < 2 ^ 64" "length rest \<le> sizeof_paxos_msg" "length pad = 6"
    and aas: "\<And>aa. aa \<in> set aas \<Longrightarrow> MAccepted aa \<in> set (sys_net s) \<and> ack_fits aa"
  shows "\<exists>w1 l1 acks fs. on_acceptor_msg ev stack j b (w, l, ds) = Some (Ok (w1, l1, ds @ map delivery_of acks)) \<and>
    sys_run ops fs s = delivered_by k (el_state l1) acks s \<and> list_all plain_event fs \<and>
    inp w1 = (inp w)(b := rest) \<and> outp w1 = outp w"
proof -
  have "sys_good n m 0 (sys_init n stores l0)" by (rule sys_init_good [OF n l0 stores fresh]) simp_all
  from sys_run_good [OF this run(1)] run(2,3) have good: "sys_good n m (length es) s" by (simp add: s)
  have "inp w b = concat (map (frame accept_acks) (map (ack_body pad) aas)) @ rest"
    using inp(1) by (simp add: comp_def)
  moreover have "body_ok body \<and> length body = sizeof_accept_ack + unat (aa_value_size (cast_accept_ack body)) \<and>
      MAccepted (cast_accept_ack body) \<in> set (sys_net s) \<and> cast_accept_ack body \<in> accepted_in (sys_net s)"
    if "body \<in> set (map (ack_body pad) aas)" for body
    using that ack_body_frame [OF _ inp(4)] ack_body_ok [OF _ inp(4)] aas
    by (auto simp: answer_wf_def accepted_in_def ack_fits_def)
  ultimately show ?thesis
    using evbuffers.on_acceptor_msg_run [OF ev _ inp(2,3) _ sys_goodD(5) [OF good s(2)] accepted_wf [OF good run(3)] s(2)]
    by blast
qed

end

end
