(* ===== verification/Ev_Example.thy ===== *)
theory Ev_Example
  imports Evpaxos Scenarios "HOL-Library.AList"
begin

text \<open>
  A small world with the documented behaviour of the buffers of libevent, in which the handlers
  of the processes can be run: the bytes received and written per connection, numbers for new
  connections and timers, and the timers that were set. Then three processes in it.
\<close>

record demo_world =
  dw_ins :: "(bev \<times> byte list) list"
  dw_outs :: "(bev \<times> byte list) list"
  dw_fresh :: nat
  dw_timers :: "(nat \<times> timeval) list"
  dw_exit :: bool

definition buffer_of :: "(bev \<times> byte list) list \<Rightarrow> bev \<Rightarrow> byte list" where
  "buffer_of bufs b = (case map_of bufs b of None \<Rightarrow> [] | Some bytes \<Rightarrow> bytes)"

definition dw_in :: "demo_world \<Rightarrow> bev \<Rightarrow> byte list" where
  "dw_in w = buffer_of (dw_ins w)"

definition dw_out :: "demo_world \<Rightarrow> bev \<Rightarrow> byte list" where
  "dw_out w = buffer_of (dw_outs w)"

definition set_in :: "demo_world \<Rightarrow> bev \<Rightarrow> byte list \<Rightarrow> demo_world" where
  "set_in w b bytes = w\<lparr>dw_ins := AList.update b bytes (dw_ins w)\<rparr>"

definition set_out :: "demo_world \<Rightarrow> bev \<Rightarrow> byte list \<Rightarrow> demo_world" where
  "set_out w b bytes = w\<lparr>dw_outs := AList.update b bytes (dw_outs w)\<rparr>"

lemma buffer_of_update: "buffer_of (AList.update b bytes bufs) = (buffer_of bufs)(b := bytes)"
  by (auto simp: buffer_of_def fun_eq_iff update_conv')

lemma world_buffers [simp]:
  "dw_in (set_in w b bytes) = (dw_in w)(b := bytes)" "dw_out (set_in w b bytes) = dw_out w"
  "dw_out (set_out w b bytes) = (dw_out w)(b := bytes)" "dw_in (set_out w b bytes) = dw_in w"
  "dw_in (w\<lparr>dw_fresh := n\<rparr>) = dw_in w" "dw_out (w\<lparr>dw_fresh := n\<rparr>) = dw_out w"
  "dw_in (w\<lparr>dw_timers := ts\<rparr>) = dw_in w" "dw_out (w\<lparr>dw_timers := ts\<rparr>) = dw_out w"
  "dw_in (w\<lparr>dw_exit := e\<rparr>) = dw_in w" "dw_out (w\<lparr>dw_exit := e\<rparr>) = dw_out w"
  by (simp_all add: dw_in_def dw_out_def set_in_def set_out_def buffer_of_update)

definition demo_ev :: "demo_world libevent" where
  "demo_ev =
     \<lparr>evbuffer_get_length = (\<lambda>w b. length (dw_in w b)),
      evbuffer_copyout = (\<lambda>w b n. take n (dw_in w b)),
      evbuffer_remove = (\<lambda>w b n. (take n (dw_in w b), set_in w b (drop n (dw_in w b)))),
      evbuffer_drain = (\<lambda>w b n. set_in w b (drop n (dw_in w b))),
      bufferevent_write = (\<lambda>w b bs. set_out w b (dw_out w b @ bs)),
      bufferevent_socket_new = (\<lambda>w fd. (dw_fresh w, w\<lparr>dw_fresh := dw_fresh w + 1\<rparr>)),
      bufferevent_free = (\<lambda>w b. set_in w b []),
      bufferevent_enable = (\<lambda>w b. w),
      bufferevent_socket_connect = (\<lambda>w b a. w),
      event_add = (\<lambda>w t tv. w\<lparr>dw_timers := (t, tv) # dw_timers w\<rparr>),
      evtimer_new = (\<lambda>w. (dw_fresh w, w\<lparr>dw_fresh := dw_fresh w + 1\<rparr>)),
      evconnlistener_new_bind = (\<lambda>w a. (True, w)),
      event_base_loopexit = (\<lambda>w. w\<lparr>dw_exit := True\<rparr>),
      event_free = (\<lambda>w t. w\<lparr>dw_timers := filter (\<lambda>(s, _). s \<noteq> t) (dw_timers w)\<rparr>),
      evconnlistener_free = (\<lambda>w. w)\<rparr>"

interpretation demo: evbuffers demo_ev dw_in dw_out
  by unfold_locales (auto simp: demo_ev_def)

text \<open>The given bytes were received on the connection.\<close>

definition with_input :: "bev \<Rightarrow> byte list \<Rightarrow> demo_world" where
  "with_input b bytes =
     \<lparr>dw_ins = [(b, bytes)], dw_outs = [], dw_fresh = 10, dw_timers = [], dw_exit = False\<rparr>"

lemma with_input_buffers [simp]:
  "dw_in (with_input b bytes) = (\<lambda>c. if c = b then bytes else [])" "dw_out (with_input b bytes) = (\<lambda>c. [])"
  by (auto simp: with_input_def dw_in_def dw_out_def buffer_of_def)

definition pad6 :: "byte list" where "pad6 = replicate 6 0"

section \<open>An acceptor\<close>

definition demo_receiver :: tcp_receiver where
  "demo_receiver = (case receiver_on_accept demo_ev 3 (with_input 0 [], \<lparr>tr_bevs = carray_new 10\<rparr>) of Inr x \<Rightarrow> snd x)"

lemma demo_receiver_ok: "receiver_inv demo_receiver \<and> clist (tr_bevs demo_receiver) = [10]"
proof -
  have new: "bufferevent_socket_new demo_ev (with_input 0 []) 3 = (10, (with_input 0 [])\<lparr>dw_fresh := 11\<rparr>)"
    by (simp add: demo_ev_def with_input_def)
  have "receiver_inv \<lparr>tr_bevs = carray_new 10\<rparr>" by (simp add: receiver_inv_def)
  from receiver_on_accept_ok [OF this new] show ?thesis by (auto simp: demo_receiver_def)
qed

definition demo_system :: "mem_storage system" where
  "demo_system = sys_run mem_ops (take 1 compete_run) (small_init 3)"

definition demo_acceptor :: "mem_storage evacceptor" where
  "demo_acceptor = \<lparr>ea_acceptor_id = 0, ea_conf = empty_config, ea_receiver = demo_receiver,
     ea_state = Some \<lparr>acc_store = small_store 0\<rparr>\<rparr>"

lemma demo_acceptor_sys: "sys_acceptors demo_system 0 = Some \<lparr>acc_store = small_store 0\<rparr>"
  by (simp add: demo_system_def compete_run_def with_proposer_def small_init_def sys_init_def
      split: option.split sum.split)

lemma demo_prepare_sent: "MPrepare (prep 1 10) \<in> set (sys_net demo_system)"
  by code_simp

abbreviation "prepare_body \<equiv> wire_body pad6 (MPrepare (prep 1 10))"

lemma demo_answer:
  "case acceptor_receive_prepare mem_ops \<lparr>acc_store = small_store 0\<rparr> (prep 1 10) of
     Inr (rec, st) \<Rightarrow> aa_value_size rec = 0 | Inl _ \<Rightarrow> False"
  by code_simp

lemma prepare_body_ok: "body_ok prepare_body" "request_wf prepare_reqs prepare_body"
  "cast_prepare_req prepare_body = prep 1 10"
  using wire_frame [of "MPrepare (prep 1 10)" pad6] by (simp_all add: pad6_def message_fits_def)

lemma demo_request_ok:
  "\<exists>w1 a1. handle_req demo_ev mem_ops [] pad6 10 (with_input 10 (frame prepare_reqs prepare_body), demo_acceptor) =
     Ok (w1, a1)"
proof -
  have "dw_in (with_input 10 (frame prepare_reqs prepare_body)) 10 = frame prepare_reqs prepare_body @ []"
    by simp
  from demo.remove_frame [OF this prepare_body_ok(1)] obtain v where
    v: "remove_msg demo_ev 10 (with_input 10 (frame prepare_reqs prepare_body)) = (Some (Some prepare_reqs, of_nat (length prepare_body), prepare_body), v)"
    by blast
  from demo_answer obtain rec st where "acceptor_receive_prepare mem_ops \<lparr>acc_store = small_store 0\<rparr> (prep 1 10) = Ok (rec, st)"
    "aa_value_size rec = 0" by (auto split: sum.splits prod.splits)
  with v prepare_body_ok(3) show ?thesis
    by (simp add: handle_req_def handle_prepare_req_def ea_acceptor_def demo_acceptor_def
        sendbuf_add_prepare_ack_def prepare_ack_of_def Let_def del: wire_body.simps)
qed

section \<open>A proposer\<close>

definition demo_peers :: peers where
  "demo_peers = fst (peers_connect demo_ev (fst (peers_connect demo_ev peers_new
      \<lparr>address_string = ''127.0.0.1'', port = 8801\<rparr> (with_input 0 [])))
      \<lparr>address_string = ''127.0.0.1'', port = 8802\<rparr> (with_input 0 []))"

lemma demo_peers_ok: "peers_ok demo_peers"
  by (simp add: demo_peers_def peers_connect_def peers_new_def peers_ok_def split: prod.split)

definition demo_proposer :: evproposer where
  "demo_proposer = \<lparr>ep_id = 0, ep_preexec_window = 2, ep_receiver = demo_receiver,
     ep_state = proposer_new 0 3, ep_acceptors = demo_peers, ep_tv = clock0, ep_timeout_ev = 1\<rparr>"

lemma demo_proposer_sys: "sys_proposers (small_init 3) 0 = Some (ep_state demo_proposer)"
  by (simp add: small_init_def sys_init_def demo_proposer_def MAX_N_OF_PROPOSERS_def)

section \<open>A learner\<close>

definition demo_run :: "event list" where
  "demo_run = take 18 compete_run"

definition demo_acks :: "accept_ack list" where
  "demo_acks = [aack 0 1 10 10 [7], aack 1 1 10 10 [7]]"

definition demo_learner :: evlearner where
  "demo_learner = \<lparr>el_state = the (sys_learners (sys_run mem_ops demo_run (small_init 3)) 0),
     el_hole_timer = 1, el_tv = clock0, el_acceptors = demo_peers\<rparr>"

lemma demo_acks_sent:
  "list_all (\<lambda>aa. MAccepted aa \<in> set (sys_net (sys_run mem_ops demo_run (small_init 3)))) demo_acks"
  by code_simp

lemma demo_acks_fit: "list_all ack_fits demo_acks"
  by (simp add: demo_acks_def aack_def ack_fits_def ack_shape_def aa_complete_def)

lemma demo_learner_sys: "sys_learners (sys_run mem_ops demo_run (small_init 3)) 0 \<noteq> None"
  by code_simp

lemma demo_run_ok: "run_ok mem_ops demo_run (small_init 3)"
  by (rule run_ok_plain) (simp add: demo_run_def compete_run_def)

lemma demo_length: "length (concat (map (\<lambda>aa. frame accept_acks (ack_body pad6 aa)) demo_acks)) = 90"
  by code_simp

end
