(* ===== verification/Processes.thy ===== *)
theory Processes
  imports Evacceptor Evlearner Evproposer_Run
begin

text \<open>
  \<open>sample/acceptor.c\<close>, \<open>sample/proposer.c\<close>, \<open>sample/learner.c\<close>: the programs that run one process
  until they are interrupted. What they add to the handlers of the process is the event loop and
  the two callbacks of their own. The event loop is \<open>event_base_dispatch\<close>: it is given the rounds
  of events that become active, calls the handlers of a round one after the other and looks
  between the rounds whether a handler asked it to exit, as libevent documents for
  \<open>event_base_loopexit\<close> without a delay. An input carries what the environment chooses for the
  call: the connection, the bytes behind a message, the times.

  The lemmas show that the loop keeps the processes well-formed, whatever bytes arrive, and which
  connections a process has after it.
\<close>

record 'w event_base =
  event_base_new :: 'w
  event_base_got_exit :: "'w \<Rightarrow> bool"
  evsignal_new :: "'w \<Rightarrow> int \<Rightarrow> nat \<times> 'w"
  evsignal_add :: "'w \<Rightarrow> nat \<Rightarrow> 'w"
  event_base_free :: "'w \<Rightarrow> 'w"

definition SIGINT :: int where "SIGINT = 2"

definition atoi :: "string \<Rightarrow> int" where
  "atoi s = (case strtol s of None \<Rightarrow> 0 | Some (n, _) \<Rightarrow> to_int n)"

section \<open>The event loop\<close>

text \<open>Handlers may fail or not return: \<open>call\<close> sequences them.\<close>

definition call :: "'x res option \<Rightarrow> ('x \<Rightarrow> 'y res option) \<Rightarrow> 'y res option" where
  "call m f = Option.bind m (\<lambda>r. case r of Inl e \<Rightarrow> Some (Err e) | Inr x \<Rightarrow> f x)"

lemma call_simps [simp]:
  "call None f = None" "call (Some (Err e)) f = Some (Err e)" "call (Some (Ok x)) f = f x"
  by (simp_all add: call_def)

lemma call_eq_Ok: "call m f = Some (Ok y) \<longleftrightarrow> (\<exists>x. m = Some (Ok x) \<and> f x = Some (Ok y))"
  by (cases m; cases "the m") (auto simp: call_def)

fun run_active :: "('e \<Rightarrow> 'x \<Rightarrow> 'x res option) \<Rightarrow> 'e list \<Rightarrow> 'x \<Rightarrow> 'x res option" where
  "run_active h [] x = Some (Ok x)"
| "run_active h (e # es) x = call (h e x) (run_active h es)"

fun event_base_dispatch ::
  "('w \<Rightarrow> bool) \<Rightarrow> ('e \<Rightarrow> 'w \<times> 'st \<Rightarrow> ('w \<times> 'st) res option) \<Rightarrow> 'e list list \<Rightarrow> 'w \<times> 'st \<Rightarrow>
   ('w \<times> 'st) res option" where
  "event_base_dispatch got_exit h [] x = Some (Ok x)"
| "event_base_dispatch got_exit h (es # rounds) x =
     (if got_exit (fst x) then Some (Ok x)
      else call (run_active h es x) (event_base_dispatch got_exit h rounds))"

text \<open>What every handler keeps, the loop keeps; and it returns when every handler returns.\<close>

lemma run_active_keeps:
  assumes "\<And>e x y. h e x = Some (Ok y) \<Longrightarrow> P x \<Longrightarrow> P y" "run_active h es x = Some (Ok y)" "P x"
  shows "P y"
  using assms(2,3) by (induction es arbitrary: x) (auto simp: call_eq_Ok intro: assms(1))

lemma dispatch_keeps:
  assumes "\<And>e x y. h e x = Some (Ok y) \<Longrightarrow> P x \<Longrightarrow> P y"
    and "event_base_dispatch got_exit h rounds x = Some (Ok y)" "P x"
  shows "P y"
  using assms(2,3) run_active_keeps [of h P, OF assms(1)]
  by (induction rounds arbitrary: x) (auto simp: call_eq_Ok split: if_splits)

lemma run_active_returns: "(\<And>e x. \<exists>r. h e x = Some r) \<Longrightarrow> \<exists>r. run_active h es x = Some r"
proof (induction es arbitrary: x)
  case (Cons e es)
  from Cons.prems obtain r where "h e x = Some r" by blast
  with Cons show ?case by (cases r) simp_all
qed simp

lemma dispatch_returns:
  assumes "\<And>e x. \<exists>r. h e x = Some r"
  shows "\<exists>r. event_base_dispatch got_exit h rounds x = Some r"
proof (induction rounds arbitrary: x)
  case (Cons es rounds)
  from run_active_returns [of h es x] assms obtain r where "run_active h es x = Some r" by blast
  with Cons show ?case by (cases r) simp_all
qed simp

text \<open>When a handler of a round asks for it and the rest of the round keeps it, the loop exits.\<close>

lemma dispatch_exits:
  "run_active h es x = Some (Ok y) \<Longrightarrow> \<not> got_exit (fst x) \<Longrightarrow> got_exit (fst y) \<Longrightarrow>
   event_base_dispatch got_exit h (es # rounds) x = Some (Ok y)"
  by (cases rounds) simp_all

section \<open>Callbacks of the programs\<close>

type_synonym stdout = "string list"

definition handle_sigint :: "'w libevent \<Rightarrow> int \<Rightarrow> 'w \<times> stdout \<Rightarrow> 'w \<times> stdout" where
  "handle_sigint ev sig x =
     (case x of (w, out) \<Rightarrow> (event_base_loopexit ev w, out @ [''Caught signal '' @ print_int sig]))"

text \<open>
  The conversion \<open>%s\<close>: the characters up to the first zero byte; without one, \<open>printf\<close> reads
  behind the block.
\<close>

definition c_string :: "byte list \<Rightarrow> string res" where
  "c_string v =
     (if 0 \<in> set v then Ok (map (\<lambda>b. char_of (unat b)) (takeWhile (\<lambda>b. b \<noteq> 0) v)) else Err OutOfBounds)"

definition deliver :: "delivery \<Rightarrow> stdout \<Rightarrow> stdout res" where
  "deliver d out =
     rbind (c_string (dl_value d)) (\<lambda>s.
       Ok (out @ [''Paxos instance '' @ decimal (unat (dl_iid d)) @ '' closed by ballot '' @
                    decimal (unat (dl_ballot d)), s]))"

fun deliver_all :: "delivery list \<Rightarrow> stdout \<Rightarrow> stdout res" where
  "deliver_all [] out = Ok out"
| "deliver_all (d # ds) out = rbind (deliver d out) (deliver_all ds)"

section \<open>The acceptor\<close>

datatype acceptor_input =
    AcceptorRead bev "nat \<Rightarrow> byte list" "byte list"
  | AcceptorConn int
  | AcceptorEvent bev "16 word"
  | AcceptorListenError
  | AcceptorSignal int

definition with_ea_receiver ::
  "('w \<times> tcp_receiver \<Rightarrow> ('w \<times> tcp_receiver) res) \<Rightarrow> 'w \<times> 's evacceptor \<times> stdout \<Rightarrow>
   ('w \<times> 's evacceptor \<times> stdout) res" where
  "with_ea_receiver f x =
     (case x of (w, a, out) \<Rightarrow>
      rbind (f (w, ea_receiver a)) (\<lambda>(w1, r). Ok (w1, a\<lparr>ea_receiver := r\<rparr>, out)))"

fun acceptor_handler ::
  "'w libevent \<Rightarrow> 's storage_ops \<Rightarrow> acceptor_input \<Rightarrow> 'w \<times> 's evacceptor \<times> stdout \<Rightarrow>
   ('w \<times> 's evacceptor \<times> stdout) res option" where
  "acceptor_handler ev ops (AcceptorRead b stack pad) (w, a, out) =
     call (evacceptor_on_read ev ops stack pad b (w, a)) (\<lambda>(w1, a1). Some (Ok (w1, a1, out)))"
| "acceptor_handler ev ops (AcceptorConn fd) x = Some (with_ea_receiver (receiver_on_accept ev fd) x)"
| "acceptor_handler ev ops (AcceptorEvent b events) x = Some (with_ea_receiver (receiver_on_error ev b events) x)"
| "acceptor_handler ev ops AcceptorListenError (w, a, out) = Some (Ok (receiver_on_listener_error ev w, a, out))"
| "acceptor_handler ev ops (AcceptorSignal sig) (w, a, out) =
     (case handle_sigint ev sig (w, out) of (w1, out1) \<Rightarrow> Some (Ok (w1, a, out1)))"

text \<open>\<open>argv\<close> are the arguments, \<open>files\<close> the contents of the files that can be opened.\<close>

definition prog_name :: "string list \<Rightarrow> string" where
  "prog_name argv = (case argv of [] \<Rightarrow> ''(null)'' | p # _ \<Rightarrow> p)"

definition acceptor_main ::
  "'w libevent \<Rightarrow> 'w event_base \<Rightarrow> 's storage_ops \<Rightarrow> (string \<Rightarrow> string option) \<Rightarrow> paxos_config \<Rightarrow> 's option \<Rightarrow>
   acceptor_input list list \<Rightarrow> string list \<Rightarrow> (int \<times> stdout \<times> 'w option) res option" where
  "acceptor_main ev eb ops files cfg db inputs argv =
     (if length argv \<noteq> 3 then Some (Ok (0, [''Usage: '' @ prog_name argv @ '' id config''], None))
      else
        case evacceptor_init ev (atoi (argv ! 1)) (files (argv ! 2)) cfg db (event_base_new eb) of
          Inl e \<Rightarrow> Some (Err e)
        | Inr None \<Rightarrow> Some (Ok (0, [''Could not start the acceptor''], None))
        | Inr (Some (w, a)) \<Rightarrow>
            (case evsignal_new eb w SIGINT of (sig, w1) \<Rightarrow>
             call (event_base_dispatch (event_base_got_exit eb) (acceptor_handler ev ops) inputs
                     (evsignal_add eb w1 sig, a, [])) (\<lambda>(w2, a2, out).
             Some (rbind (evacceptor_free ev ops a2 (event_free ev w2 sig)) (\<lambda>(_, w3).
               Ok (1, out, Some (event_base_free eb w3)))))))"

section \<open>The proposer\<close>

text \<open>
  The receiver of a proposer is given \<open>handle_request\<close> as its callback, so the loop over the
  messages of a client connection runs inside the loop of the receiver.
\<close>

record proposer_env =
  pe_junk :: "nat \<Rightarrow> nat \<Rightarrow> nat \<Rightarrow> int"
  pe_clock :: "nat \<Rightarrow> nat \<Rightarrow> timeval"
  pe_now :: "nat \<Rightarrow> timeval"
  pe_stack :: "nat \<Rightarrow> byte list"

definition proposer_on_msgs ::
  "'w libevent \<Rightarrow> proposer_env \<Rightarrow> bev \<Rightarrow> 'w \<times> evproposer \<Rightarrow> ('w \<times> evproposer) res option" where
  "proposer_on_msgs ev e b x = handle_request ev (pe_junk e) (pe_clock e) (pe_now e) (pe_stack e) b x"

partial_function (option) client_on_read ::
  "'w libevent \<Rightarrow> (nat \<Rightarrow> proposer_env) \<Rightarrow> nat \<Rightarrow> bev \<Rightarrow> 'w \<times> evproposer \<Rightarrow> ('w \<times> evproposer) res option" where
  "client_on_read ev e k b x =
     (if evbuffer_get_length ev (fst x) b > sizeof_paxos_msg then
        if of_nat (evbuffer_get_length ev (fst x) b) <
             fst (read_header (evbuffer_copyout ev (fst x) b sizeof_paxos_msg)) + of_nat sizeof_paxos_msg
        then Some (Ok x)
        else Option.bind (proposer_on_msgs ev (e k) b x) (\<lambda>r.
               case r of
                 Inl err \<Rightarrow> Some (Err err)
               | Inr y \<Rightarrow> client_on_read ev e (Suc k) b y)
      else Some (Ok x))"

declare client_on_read.simps [code]

datatype proposer_input =
    PeerRead bev proposer_env
  | ClientRead bev "nat \<Rightarrow> proposer_env"
  | ClientConn int
  | ClientEvent bev "16 word"
  | ClientListenError
  | PeerEvent nat "16 word"
  | PeerTimeout nat
  | ProposerTimer paxos_config timeval
  | ProposerSignal int

definition with_ep_receiver ::
  "('w \<times> tcp_receiver \<Rightarrow> ('w \<times> tcp_receiver) res) \<Rightarrow> 'w \<times> evproposer \<times> stdout \<Rightarrow>
   ('w \<times> evproposer \<times> stdout) res" where
  "with_ep_receiver f x =
     (case x of (w, p, out) \<Rightarrow>
      rbind (f (w, ep_receiver p)) (\<lambda>(w1, r). Ok (w1, p\<lparr>ep_receiver := r\<rparr>, out)))"

text \<open>The callbacks of a peer change the peer they were registered with.\<close>

definition with_peer ::
  "nat \<Rightarrow> (peer \<Rightarrow> 'w \<Rightarrow> peer \<times> 'w) \<Rightarrow> peers \<Rightarrow> 'w \<Rightarrow> (peers \<times> 'w) res" where
  "with_peer i f ps w =
     (if i < length (peers_peers ps) then
        case f (peers_peers ps ! i) w of (q, w1) \<Rightarrow> Ok (ps\<lparr>peers_peers := (peers_peers ps)[i := q]\<rparr>, w1)
      else Err OutOfBounds)"

fun proposer_handler ::
  "'w libevent \<Rightarrow> proposer_input \<Rightarrow> 'w \<times> evproposer \<times> stdout \<Rightarrow> ('w \<times> evproposer \<times> stdout) res option" where
  "proposer_handler ev (PeerRead b e) (w, p, out) =
     call (peer_on_read (proposer_on_msgs ev e) b (w, p)) (\<lambda>(w1, p1). Some (Ok (w1, p1, out)))"
| "proposer_handler ev (ClientRead b e) (w, p, out) =
     call (client_on_read ev e 0 b (w, p)) (\<lambda>(w1, p1). Some (Ok (w1, p1, out)))"
| "proposer_handler ev (ClientConn fd) x = Some (with_ep_receiver (receiver_on_accept ev fd) x)"
| "proposer_handler ev (ClientEvent b events) x = Some (with_ep_receiver (receiver_on_error ev b events) x)"
| "proposer_handler ev ClientListenError (w, p, out) = Some (Ok (receiver_on_listener_error ev w, p, out))"
| "proposer_handler ev (PeerEvent i what) (w, p, out) =
     Some (rbind (with_peer i (peer_on_socket_event ev what) (ep_acceptors p) w) (\<lambda>(ps, w1).
       Ok (w1, p\<lparr>ep_acceptors := ps\<rparr>, out)))"
| "proposer_handler ev (PeerTimeout i) (w, p, out) =
     Some (rbind (with_peer i (\<lambda>q w. (q, peer_on_connection_timeout ev q w)) (ep_acceptors p) w) (\<lambda>(ps, w1).
       Ok (w1, p\<lparr>ep_acceptors := ps\<rparr>, out)))"
| "proposer_handler ev (ProposerTimer cfg now) (w, p, out) =
     Some (rbind (proposer_check_timeouts ev cfg now (w, p)) (\<lambda>(w1, p1). Ok (w1, p1, out)))"
| "proposer_handler ev (ProposerSignal sig) (w, p, out) =
     (case handle_sigint ev sig (w, out) of (w1, out1) \<Rightarrow> Some (Ok (w1, p, out1)))"

definition proposer_main ::
  "'w libevent \<Rightarrow> 'w event_base \<Rightarrow> (string \<Rightarrow> string option) \<Rightarrow> paxos_config \<Rightarrow>
   proposer_input list list \<Rightarrow> string list \<Rightarrow> (int \<times> stdout \<times> 'w option) res option" where
  "proposer_main ev eb files cfg inputs argv =
     (if length argv \<noteq> 3 then Some (Ok (1, [''Usage: '' @ prog_name argv @ '' id config''], None))
      else
        case evsignal_new eb (event_base_new eb) SIGINT of (sig, w1) \<Rightarrow>
        case evproposer_init ev (atoi (argv ! 1)) (files (argv ! 2)) cfg (evsignal_add eb w1 sig) of
          Inl e \<Rightarrow> Some (Err e)
        | Inr None \<Rightarrow> Some (Ok (1, [''Could not start the proposer!''], None))
        | Inr (Some (w, p)) \<Rightarrow>
            call (event_base_dispatch (event_base_got_exit eb) (proposer_handler ev) inputs (w, p, []))
              (\<lambda>(w2, p2, out).
             Some (rbind (evproposer_free ev p2 (event_free ev w2 sig)) (\<lambda>w3.
               Ok (0, out, Some (event_base_free eb w3))))))"

section \<open>The learner\<close>

datatype learner_input =
    AcceptorMsg bev "nat \<Rightarrow> byte list"
  | LearnerPeerEvent nat "16 word"
  | LearnerPeerTimeout nat
  | HoleTimer
  | LearnerSignal int

fun learner_handler ::
  "'w libevent \<Rightarrow> learner_input \<Rightarrow> 'w \<times> evlearner \<times> stdout \<Rightarrow> ('w \<times> evlearner \<times> stdout) res option" where
  "learner_handler ev (AcceptorMsg b stack) (w, l, out) =
     call (peer_on_read (on_acceptor_msg ev stack 0) b (w, l, [])) (\<lambda>(w1, l1, ds).
       Some (rbind (deliver_all ds out) (\<lambda>out1. Ok (w1, l1, out1))))"
| "learner_handler ev (LearnerPeerEvent i what) (w, l, out) =
     Some (rbind (with_peer i (peer_on_socket_event ev what) (el_acceptors l) w) (\<lambda>(ps, w1).
       Ok (w1, l\<lparr>el_acceptors := ps\<rparr>, out)))"
| "learner_handler ev (LearnerPeerTimeout i) (w, l, out) =
     Some (rbind (with_peer i (\<lambda>q w. (q, peer_on_connection_timeout ev q w)) (el_acceptors l) w) (\<lambda>(ps, w1).
       Ok (w1, l\<lparr>el_acceptors := ps\<rparr>, out)))"
| "learner_handler ev HoleTimer (w, l, out) =
     Some (rbind (learner_check_holes ev (w, l)) (\<lambda>(w1, l1). Ok (w1, l1, out)))"
| "learner_handler ev (LearnerSignal sig) (w, l, out) =
     (case handle_sigint ev sig (w, out) of (w1, out1) \<Rightarrow> Some (Ok (w1, l, out1)))"

definition learner_main ::
  "'w libevent \<Rightarrow> 'w event_base \<Rightarrow> (string \<Rightarrow> string option) \<Rightarrow> paxos_config \<Rightarrow>
   learner_input list list \<Rightarrow> string list \<Rightarrow> (int \<times> stdout \<times> 'w option) res option" where
  "learner_main ev eb files cfg inputs argv =
     (if length argv \<noteq> 2 then Some (Ok (1, [''Usage: '' @ prog_name argv @ '' config''], None))
      else
        case evlearner_init ev (files (argv ! 1)) cfg (event_base_new eb) of
          Inl e \<Rightarrow> Some (Err e)
        | Inr (w, l) \<Rightarrow>
            (case evsignal_new eb w SIGINT of (sig, w1) \<Rightarrow>
             call (event_base_dispatch (event_base_got_exit eb) (learner_handler ev) inputs
                     (evsignal_add eb w1 sig, l, [])) (\<lambda>(w2, l2, out).
             Some (rbind (evlearner_free ev l2 (event_free ev w2 sig)) (\<lambda>w3.
               Ok (0, out, Some (event_base_free eb w3)))))))"

section \<open>The loops of a client connection\<close>

text \<open>When \<open>handle_request\<close> returns, the loop of the receiver around it has nothing left to do.\<close>

lemma client_on_read_unfold:
  "client_on_read ev e k b x =
     (if msg_ready ev (fst x) b then
        Option.bind (proposer_on_msgs ev (e k) b x) (\<lambda>r.
          case r of Inl err \<Rightarrow> Some (Err err) | Inr y \<Rightarrow> client_on_read ev e (Suc k) b y)
      else Some (Ok x))"
  by (subst client_on_read.simps) (simp add: msg_ready_def)

lemma client_on_read_once: "client_on_read ev e k b x = proposer_on_msgs ev (e k) b x"
proof (cases "msg_ready ev (fst x) b")
  case True
  have "client_on_read ev e (Suc k) b y = Some (Ok y)" if "proposer_on_msgs ev (e k) b x = Some (Ok y)" for y
    using that read_loop_inv [of ev _ 0 b x "Ok y" y "\<lambda>_. True"]
    by (subst client_on_read_unfold) (auto simp: proposer_on_msgs_def handle_request_def)
  with True show ?thesis
    by (subst client_on_read_unfold) (auto split: sum.splits simp: bind_eq_None_conv intro!: option.expand
        dest: sym split: bind_splits)
next
  case False
  then show ?thesis
    by (subst client_on_read_unfold) (simp add: proposer_on_msgs_def handle_request_def read_loop_unfold)
qed

section \<open>The processes stay well-formed\<close>

definition evacceptor_ok :: "'s evacceptor \<Rightarrow> bool" where
  "evacceptor_ok a \<longleftrightarrow> receiver_inv (ea_receiver a) \<and> ea_state a \<noteq> None"

definition evproposer_ok :: "evproposer \<Rightarrow> bool" where
  "evproposer_ok p \<longleftrightarrow> receiver_inv (ep_receiver p) \<and> peers_ok (ep_acceptors p)"

definition evlearner_ok :: "evlearner \<Rightarrow> bool" where
  "evlearner_ok l \<longleftrightarrow> peers_ok (el_acceptors l)"

lemma receiver_on_accept_keeps:
  "receiver_on_accept ev fd (w, r) = Ok (w1, r1) \<Longrightarrow> receiver_inv r \<Longrightarrow> receiver_inv r1"
  using receiver_on_accept_ok [of r ev w fd] by (cases "bufferevent_socket_new ev w fd") auto

lemma receiver_on_error_keeps:
  assumes "receiver_on_error ev b events (w, r) = Ok (w1, r1)" "receiver_inv r"
  shows "receiver_inv r1"
proof (cases "and events BEV_EVENT_EOF = 0")
  case True
  with assms receiver_on_error_other [of events ev b w r] show ?thesis by simp
next
  case False
  from receiver_on_error_eof [OF assms(2) False, of ev b w] assms(1) show ?thesis by auto
qed

lemma evacceptor_on_read_keeps:
  assumes "evacceptor_on_read ev ops stack pad b (w, a) = Some (Ok (w1, a1))"
  shows "a1 = a\<lparr>ea_state := ea_state a1\<rparr> \<and> (ea_state a \<noteq> None \<longrightarrow> ea_state a1 \<noteq> None)"
proof -
  let ?P = "\<lambda>(_, c). c = a\<lparr>ea_state := ea_state c\<rparr> \<and> (ea_state a \<noteq> None \<longrightarrow> ea_state c \<noteq> None)"
  have "?P (w1, a1)"
  proof (rule read_loop_inv [THEN conjunct1, OF assms [unfolded evacceptor_on_read_def receiver_on_read_def] refl])
    fix k x y
    assume h: "handle_req ev ops (stack k) pad b x = Ok y" and P: "?P x"
    obtain v c v1 c1 where x: "x = (v, c)" "y = (v1, c1)" by (metis surj_pair)
    from handle_req_keeps [OF h [unfolded x]] P show "?P y"
      by (auto simp: x) (metis evacceptor.update_convs(4) evacceptor.surjective evacceptor.ext_inject)
  qed simp
  then show ?thesis by simp
qed

lemma acceptor_handler_keeps:
  assumes "acceptor_handler ev ops e (w, a, out) = Some (Ok (w1, a1, out1))" "evacceptor_ok a"
  shows "evacceptor_ok a1 \<and> ea_acceptor_id a1 = ea_acceptor_id a \<and> ea_conf a1 = ea_conf a"
proof (cases e)
  case (AcceptorRead b stack pad)
  with assms(1) evacceptor_on_read_keeps [of ev ops stack pad b w a w1 a1] have
    "a1 = a\<lparr>ea_state := ea_state a1\<rparr> \<and> (ea_state a \<noteq> None \<longrightarrow> ea_state a1 \<noteq> None)"
    by (auto simp: call_eq_Ok)
  with assms(2) show ?thesis unfolding evacceptor_ok_def
    by (metis evacceptor.ext_inject evacceptor.surjective evacceptor.update_convs(4))
qed (use assms in \<open>auto simp: with_ea_receiver_def res_simps evacceptor_ok_def handle_sigint_def
        intro: receiver_on_accept_keeps receiver_on_error_keeps\<close>)

text \<open>The handlers of a proposer change its state machine only.\<close>

definition same_process :: "evproposer \<Rightarrow> evproposer \<Rightarrow> bool" where
  "same_process p q \<longleftrightarrow> q = p\<lparr>ep_state := ep_state q\<rparr>"

lemma same_process_refl [simp]: "same_process p p"
  by (simp add: same_process_def)

lemma same_process_upd [simp]: "same_process p (q\<lparr>ep_state := st\<rparr>) = same_process p q"
  by (auto simp: same_process_def) (metis evproposer.ext_inject evproposer.surjective evproposer.update_convs(4))+

lemma same_process_fields:
  "same_process p q \<Longrightarrow> ep_receiver q = ep_receiver p \<and> ep_acceptors q = ep_acceptors p \<and> ep_id q = ep_id p \<and>
    ep_preexec_window q = ep_preexec_window p \<and> ep_tv q = ep_tv p \<and> ep_timeout_ev q = ep_timeout_ev p"
  unfolding same_process_def
  by (metis evproposer.ext_inject evproposer.surjective evproposer.update_convs(4))

lemma try_accept_loop_keeps: "try_accept_loop ev (w, p) = Ok (w1, p1) \<Longrightarrow> same_process q p \<Longrightarrow> same_process q p1"
proof (induction "ca_count (p_prepare_instances (ep_state p))" arbitrary: w p rule: less_induct)
  case less
  from less.prems(1) obtain r st where r: "proposer_accept (ep_state p) = Ok (r, st)"
    by (auto simp: try_accept_loop.simps res_simps)
  show ?case
  proof (cases r)
    case (Some ar)
    with less.prems(1) r obtain u where u: "try_accept_loop ev (u, p\<lparr>ep_state := st\<rparr>) = Ok (w1, p1)"
      by (auto simp: try_accept_loop.simps res_simps)
    show ?thesis using proposer_accept_count r Some less.prems(2) by (intro less.hyps [OF _ u]) auto
  qed (use less.prems r in \<open>auto simp: try_accept_loop.simps res_simps\<close>)
qed

lemma preexecute_keeps:
  assumes "proposer_preexecute ev junk clock x = Ok y" "same_process q (snd x)"
  shows "same_process q (snd y)"
proof (cases "ep_preexec_window (snd x) - int (proposer_prepared_count (ep_state (snd x))) \<le> 0")
  case False
  from assms(1) False show ?thesis
    unfolding proposer_preexecute_def Let_def
    by (simp del: diff_le_0_iff_le, elim for_loop_keeps [where P = "\<lambda>y. same_process q (snd y)"])
      (auto simp: res_simps assms(2))
qed (use assms in \<open>simp add: proposer_preexecute_def\<close>)

lemma try_accept_keeps:
  "try_accept ev junk clock (w, p) = Ok (w1, p1) \<Longrightarrow> same_process q p \<Longrightarrow> same_process q p1"
  by (auto simp: try_accept_def res_simps dest!: try_accept_loop_keeps dest: preexecute_keeps)

lemma send_again_keeps: "send_again ev f (w, p) = Ok (w1, p1) \<Longrightarrow> same_process q p \<Longrightarrow> same_process q p1"
  by (auto simp: send_again_def res_simps split: option.splits)

lemma proposer_handle_msg_keeps:
  assumes "proposer_handle_msg ev junk clock now stack b (w, p) = Ok (w1, p1)" "same_process q p"
  shows "same_process q p1"
  using assms
  by (auto simp: proposer_handle_msg_def Let_def proposer_handle_prepare_ack_def proposer_handle_accept_ack_def
      proposer_handle_client_msg_def res_simps split: option.splits paxos_msg_code.splits prod.splits
      intro: try_accept_keeps dest!: send_again_keeps)

lemma proposer_on_msgs_keeps:
  assumes "proposer_on_msgs ev e b (w, p) = Some (Ok (w1, p1))"
  shows "same_process p p1"
proof -
  have "same_process p (snd (w1, p1))"
  proof (rule read_loop_inv [THEN conjunct1, OF assms [unfolded proposer_on_msgs_def handle_request_def] refl])
    fix k x y
    assume "proposer_handle_msg ev (pe_junk e k) (pe_clock e k) (pe_now e k) (pe_stack e k) b x = Ok y"
      and "same_process p (snd x)"
    then show "same_process p (snd y)" by (cases x; cases y) (auto intro: proposer_handle_msg_keeps)
  qed simp
  then show ?thesis by simp
qed

lemma timeout_prepares_keeps:
  "timeout_prepares ev cfg it (w, p) = Ok (it1, w1, p1) \<Longrightarrow> same_process q p \<Longrightarrow> same_process q p1"
proof (induction "carray_count (p_prepare_instances (ep_state p)) - ti_pi it" arbitrary: it w p rule: less_induct)
  case less
  from less.prems(1) obtain r it2 st where r: "timeout_iterator_prepare cfg it (ep_state p) = Ok (r, it2, st)"
    by (auto simp: timeout_prepares.simps res_simps)
  show ?case
  proof (cases r)
    case (Some pr)
    with less.prems(1) r obtain u where u: "timeout_prepares ev cfg it2 (u, p\<lparr>ep_state := st\<rparr>) = Ok (it1, w1, p1)"
      by (auto simp: timeout_prepares.simps res_simps)
    show ?thesis using timeout_prepare_moves r Some less.prems(2) by (intro less.hyps [OF _ u]) auto
  qed (use less.prems r in \<open>auto simp: timeout_prepares.simps res_simps\<close>)
qed

lemma timeout_accepts_keeps:
  "timeout_accepts ev cfg it (w, p) = Ok (it1, w1, p1) \<Longrightarrow> same_process q p \<Longrightarrow> same_process q p1"
proof (induction "carray_count (p_accept_instances (ep_state p)) - ti_ai it" arbitrary: it w p rule: less_induct)
  case less
  from less.prems(1) obtain r it2 st where r: "timeout_iterator_accept cfg it (ep_state p) = Ok (r, it2, st)"
    by (auto simp: timeout_accepts.simps res_simps)
  show ?case
  proof (cases r)
    case (Some pr)
    with less.prems(1) r obtain u where u: "timeout_accepts ev cfg it2 (u, p\<lparr>ep_state := st\<rparr>) = Ok (it1, w1, p1)"
      by (auto simp: timeout_accepts.simps res_simps)
    show ?thesis using timeout_accept_moves r Some less.prems(2) by (intro less.hyps [OF _ u]) auto
  qed (use less.prems r in \<open>auto simp: timeout_accepts.simps res_simps\<close>)
qed

lemma check_timeouts_keeps: "proposer_check_timeouts ev cfg now (w, p) = Ok (w1, p1) \<Longrightarrow> same_process p p1"
  by (auto simp: proposer_check_timeouts_def res_simps intro: timeout_accepts_keeps dest!: timeout_prepares_keeps)

text \<open>A peer is replaced by itself with another connection.\<close>

lemma with_peer_keeps:
  "with_peer i f ps w = Ok (ps1, w1) \<Longrightarrow> peers_ok ps \<Longrightarrow> peers_ok ps1 \<and> peers_n ps1 = peers_n ps"
  by (auto simp: with_peer_def peers_ok_def split: if_splits prod.splits)

lemma proposer_handler_keeps:
  assumes "proposer_handler ev e (w, p, out) = Some (Ok (w1, p1, out1))" "evproposer_ok p"
  shows "evproposer_ok p1 \<and> ep_id p1 = ep_id p \<and> ep_preexec_window p1 = ep_preexec_window p \<and>
    ep_tv p1 = ep_tv p \<and> ep_timeout_ev p1 = ep_timeout_ev p \<and> peers_n (ep_acceptors p1) = peers_n (ep_acceptors p)"
proof -
  have same: ?thesis if "same_process p p1"
    using same_process_fields [OF that] assms(2) by (simp add: evproposer_ok_def)
  show ?thesis
  proof (cases e)
    case (PeerRead b f)
    with assms(1) show ?thesis by (auto simp: call_eq_Ok peer_on_read_def intro!: same proposer_on_msgs_keeps)
  next
    case (ClientRead b f)
    with assms(1) show ?thesis by (auto simp: call_eq_Ok client_on_read_once intro!: same proposer_on_msgs_keeps)
  next
    case (ProposerTimer cfg now)
    with assms(1) show ?thesis by (auto simp: res_simps intro!: same check_timeouts_keeps)
  qed (use assms in \<open>auto simp: with_ep_receiver_def res_simps evproposer_ok_def handle_sigint_def
        intro: receiver_on_accept_keeps receiver_on_error_keeps dest: with_peer_keeps\<close>)
qed

lemma learner_handle_msg_keeps:
  assumes "learner_handle_msg ev stack b (w, l, ds) = Some (Ok (w1, l1, ds1))"
  shows "el_acceptors l1 = el_acceptors l \<and> el_hole_timer l1 = el_hole_timer l \<and> el_tv l1 = el_tv l"
proof -
  obtain r v where "remove_msg ev b w = (r, v)" by force
  with assms show ?thesis
    by (cases r)
      (auto simp: learner_handle_msg_def Let_def res_simps split: option.splits paxos_msg_code.splits)
qed

lemma on_acceptor_msg_keeps:
  assumes "on_acceptor_msg ev stack k b x = Some r" "r = Ok (w1, l1, ds1)"
  shows "el_acceptors l1 = el_acceptors (fst (snd x)) \<and> el_hole_timer l1 = el_hole_timer (fst (snd x)) \<and>
    el_tv l1 = el_tv (fst (snd x))"
  using assms
proof (induction rule: on_acceptor_msg_induct)
  case (1 loop ev stack k b x r)
  obtain w l ds where x: "x = (w, l, ds)" by (metis surj_pair)
  from 1(2,3) consider "x = (w1, l1, ds1)"
    | y where "learner_handle_msg ev (stack k) b x = Some (Ok y)" "loop ev stack (Suc k) b y = Some (Ok (w1, l1, ds1))"
    by (auto split: if_splits bind_splits sum.splits)
  then show ?case
  proof cases
    case 2
    obtain v m es where y: "y = (v, m, es)" by (metis surj_pair)
    from 1(1) [OF 2(2) refl] learner_handle_msg_keeps [OF 2(1) [unfolded x y]] show ?thesis by (simp add: x y)
  qed simp
qed

lemma learner_handler_keeps:
  assumes "learner_handler ev e (w, l, out) = Some (Ok (w1, l1, out1))" "evlearner_ok l"
  shows "evlearner_ok l1 \<and> el_hole_timer l1 = el_hole_timer l \<and> el_tv l1 = el_tv l \<and>
    peers_n (el_acceptors l1) = peers_n (el_acceptors l)"
proof (cases e)
  case (AcceptorMsg b stack)
  with assms(1) obtain ds where "on_acceptor_msg ev stack 0 b (w, l, []) = Some (Ok (w1, l1, ds))"
    by (auto simp: call_eq_Ok peer_on_read_def res_simps)
  from on_acceptor_msg_keeps [OF this refl] assms(2) show ?thesis by (simp add: evlearner_ok_def)
qed (use assms in \<open>auto simp: res_simps evlearner_ok_def handle_sigint_def learner_check_holes_def dest: with_peer_keeps\<close>)

section \<open>The connections of a process\<close>

text \<open>
  What an event does to the list of connections, in the order in which they were accepted: a new
  connection is the last one, and the end of a connection (and no other event) removes it and only it.
  \<open>w\<close> is the world in which the handler is called.
\<close>

datatype conn_event = ConnNew int | ConnEvent bev "16 word" | ConnOther

fun conn_step :: "'w libevent \<Rightarrow> conn_event \<Rightarrow> 'w \<Rightarrow> bev list \<Rightarrow> bev list" where
  "conn_step ev (ConnNew fd) w cs = cs @ [fst (bufferevent_socket_new ev w fd)]"
| "conn_step ev (ConnEvent b events) w cs =
     (if and events BEV_EVENT_EOF \<noteq> 0 then filter (\<lambda>c. c \<noteq> b) cs else cs)"
| "conn_step ev ConnOther w cs = cs"

fun acceptor_conn :: "acceptor_input \<Rightarrow> conn_event" where
  "acceptor_conn (AcceptorConn fd) = ConnNew fd"
| "acceptor_conn (AcceptorEvent b events) = ConnEvent b events"
| "acceptor_conn _ = ConnOther"

fun proposer_conn :: "proposer_input \<Rightarrow> conn_event" where
  "proposer_conn (ClientConn fd) = ConnNew fd"
| "proposer_conn (ClientEvent b events) = ConnEvent b events"
| "proposer_conn _ = ConnOther"

abbreviation acceptor_conns :: "'s evacceptor \<Rightarrow> bev list" where
  "acceptor_conns a \<equiv> clist (tr_bevs (ea_receiver a))"

abbreviation proposer_conns :: "evproposer \<Rightarrow> bev list" where
  "proposer_conns p \<equiv> clist (tr_bevs (ep_receiver p))"

lemma receiver_on_accept_conns:
  assumes "receiver_on_accept ev fd (w, r) = Ok (w1, r1)" "receiver_inv r"
  shows "clist (tr_bevs r1) = conn_step ev (ConnNew fd) w (clist (tr_bevs r))"
  using receiver_on_accept_ok [OF assms(2), of ev w fd] assms(1) by (cases "bufferevent_socket_new ev w fd") auto

lemma receiver_on_error_conns:
  assumes "receiver_on_error ev b events (w, r) = Ok (w1, r1)" "receiver_inv r"
  shows "clist (tr_bevs r1) = conn_step ev (ConnEvent b events) w (clist (tr_bevs r))"
proof (cases "and events BEV_EVENT_EOF = 0")
  case True
  with assms receiver_on_error_other [of events ev b w r] show ?thesis by simp
next
  case False
  from receiver_on_error_eof [OF assms(2) False, of ev b w] assms(1) False show ?thesis by auto
qed

lemma acceptor_handler_conns:
  assumes "acceptor_handler ev ops e (w, a, out) = Some (Ok (w1, a1, out1))" "evacceptor_ok a"
  shows "acceptor_conns a1 = conn_step ev (acceptor_conn e) w (acceptor_conns a)"
proof (cases e)
  case (AcceptorRead b stack pad)
  with assms(1) evacceptor_on_read_keeps [of ev ops stack pad b w a w1 a1] have
    "a1 = a\<lparr>ea_state := ea_state a1\<rparr>" by (auto simp: call_eq_Ok)
  then have "ea_receiver a1 = ea_receiver a"
    by (metis evacceptor.ext_inject evacceptor.surjective evacceptor.update_convs(4))
  with AcceptorRead show ?thesis by simp
qed (use assms in \<open>auto simp: with_ea_receiver_def res_simps evacceptor_ok_def handle_sigint_def
       simp del: conn_step.simps(1,2) dest: receiver_on_accept_conns receiver_on_error_conns\<close>)

lemma proposer_handler_conns:
  assumes "proposer_handler ev e (w, p, out) = Some (Ok (w1, p1, out1))" "evproposer_ok p"
  shows "proposer_conns p1 = conn_step ev (proposer_conn e) w (proposer_conns p)"
proof -
  have same: "proposer_conns p1 = proposer_conns p" if "same_process p p1"
    using same_process_fields [OF that] by simp
  show ?thesis
  proof (cases e)
    case (PeerRead b f)
    with assms(1) show ?thesis by (auto simp: call_eq_Ok peer_on_read_def intro!: same proposer_on_msgs_keeps)
  next
    case (ClientRead b f)
    with assms(1) show ?thesis by (auto simp: call_eq_Ok client_on_read_once intro!: same proposer_on_msgs_keeps)
  next
    case (ProposerTimer cfg now)
    with assms(1) show ?thesis by (auto simp: res_simps intro!: same check_timeouts_keeps)
  qed (use assms in \<open>auto simp: with_ep_receiver_def res_simps evproposer_ok_def handle_sigint_def
        simp del: conn_step.simps(1,2) dest: receiver_on_accept_conns receiver_on_error_conns\<close>)
qed

text \<open>
  The connections after a run of the loop: the inputs of the rounds up to the exit, each with the
  world in which its handler was called.
\<close>

fun conns_after :: "'w libevent \<Rightarrow> (conn_event \<times> 'w) list \<Rightarrow> bev list \<Rightarrow> bev list" where
  "conns_after ev [] cs = cs"
| "conns_after ev ((e, w) # es) cs = conns_after ev es (conn_step ev e w cs)"

lemma conns_after_append: "conns_after ev (es @ fs) cs = conns_after ev fs (conns_after ev es cs)"
  by (induction ev es cs rule: conns_after.induct) simp_all

text \<open>
  \<open>dispatched got_exit conn ins w1 es\<close>: \<open>es\<close> are the events of the first rounds of \<open>ins\<close>, all of them
  or those up to the exit that was asked for in the world \<open>w1\<close>.
\<close>

definition dispatched ::
  "('w \<Rightarrow> bool) \<Rightarrow> ('i \<Rightarrow> conn_event) \<Rightarrow> 'i list list \<Rightarrow> 'w \<Rightarrow> (conn_event \<times> 'w) list \<Rightarrow> bool" where
  "dispatched got_exit conn ins w1 es \<longleftrightarrow>
     (\<exists>k. map fst es = map conn (concat (take k ins)) \<and> (k < length ins \<longrightarrow> got_exit w1))"

lemma run_active_conns:
  assumes step: "\<And>e w x w1 x1. h e (w, x) = Some (Ok (w1, x1)) \<Longrightarrow> I x \<Longrightarrow>
      I x1 \<and> conns x1 = conn_step ev (conn e) w (conns x)"
    and "run_active h es (w, x) = Some (Ok (w1, x1))" "I x"
  shows "I x1 \<and> (\<exists>tr. map fst tr = map conn es \<and> conns x1 = conns_after ev tr (conns x))"
  using assms(2,3)
proof (induction es arbitrary: w x)
  case (Cons e es)
  from Cons.prems(1) obtain w2 x2 where h: "h e (w, x) = Some (Ok (w2, x2))"
    and rest: "run_active h es (w2, x2) = Some (Ok (w1, x1))" by (auto simp: call_eq_Ok)
  note S = step [OF h Cons.prems(2)]
  from Cons.IH [OF rest conjunct1 [OF S]] obtain tr where
    "I x1" "map fst tr = map conn es" "conns x1 = conns_after ev tr (conns x2)" by (elim exE conjE)
  with S show ?case by (intro conjI exI [of _ "(conn e, w) # tr"]) simp_all
qed simp

lemma dispatch_conns:
  assumes step: "\<And>e w x w1 x1. h e (w, x) = Some (Ok (w1, x1)) \<Longrightarrow> I x \<Longrightarrow>
      I x1 \<and> conns x1 = conn_step ev (conn e) w (conns x)"
    and "event_base_dispatch got_exit h ins (w, x) = Some (Ok (w1, x1))" "I x"
  shows "\<exists>es. dispatched got_exit conn ins w1 es \<and> conns x1 = conns_after ev es (conns x)"
  using assms(2,3)
proof (induction ins arbitrary: w x)
  case Nil
  then show ?case by (intro exI [of _ "[]"]) (simp add: dispatched_def)
next
  case (Cons es ins)
  show ?case
  proof (cases "got_exit w")
    case True
    with Cons.prems(1) show ?thesis
      by (intro exI [of _ "[]"]) (auto simp: dispatched_def intro!: exI [of _ 0])
  next
    case False
    with Cons.prems(1) obtain w2 x2 where h: "run_active h es (w, x) = Some (Ok (w2, x2))"
      and rest: "event_base_dispatch got_exit h ins (w2, x2) = Some (Ok (w1, x1))" by (auto simp: call_eq_Ok)
    have "I x2 \<and> (\<exists>tr. map fst tr = map conn es \<and> conns x2 = conns_after ev tr (conns x))"
      by (rule run_active_conns [of h I conns ev conn es w x w2 x2]) (fact step h Cons.prems(2))+
    then obtain tr where
      tr: "I x2" "map fst tr = map conn es" "conns x2 = conns_after ev tr (conns x)" by blast
    from Cons.IH [OF rest tr(1)] obtain fs k where fs: "map fst fs = map conn (concat (take k ins))"
      "k < length ins \<longrightarrow> got_exit w1" "conns x1 = conns_after ev fs (conns x2)" by (auto simp: dispatched_def)
    have "dispatched got_exit conn (es # ins) w1 (tr @ fs)"
      unfolding dispatched_def using tr(2) fs(1,2) by (intro exI [of _ "Suc k"]) simp
    with fs(3) tr(3) show ?thesis by (intro exI [of _ "tr @ fs"]) (simp add: conns_after_append)
  qed
qed

lemma acceptor_dispatch_conns:
  assumes "event_base_dispatch got_exit (acceptor_handler ev ops) ins (w, a, out) = Some (Ok (w1, a1, out1))"
    and "evacceptor_ok a"
  shows "\<exists>es. dispatched got_exit acceptor_conn ins w1 es \<and> acceptor_conns a1 = conns_after ev es (acceptor_conns a)"
  using dispatch_conns [of "acceptor_handler ev ops" "\<lambda>(a, out). evacceptor_ok a" "\<lambda>(a, out). acceptor_conns a" ev
      acceptor_conn got_exit ins w "(a, out)" w1 "(a1, out1)"] assms acceptor_handler_keeps acceptor_handler_conns
  by fastforce

lemma proposer_dispatch_conns:
  assumes "event_base_dispatch got_exit (proposer_handler ev) ins (w, p, out) = Some (Ok (w1, p1, out1))"
    and "evproposer_ok p"
  shows "\<exists>es. dispatched got_exit proposer_conn ins w1 es \<and> proposer_conns p1 = conns_after ev es (proposer_conns p)"
  using dispatch_conns [of "proposer_handler ev" "\<lambda>(p, out). evproposer_ok p" "\<lambda>(p, out). proposer_conns p" ev
      proposer_conn got_exit ins w "(p, out)" w1 "(p1, out1)"] assms proposer_handler_keeps proposer_handler_conns
  by fastforce

text \<open>Whole runs of the event loop.\<close>

lemma acceptor_dispatch_keeps:
  assumes "event_base_dispatch got_exit (acceptor_handler ev ops) rounds (w, a, out) = Some (Ok (w1, a1, out1))"
    and "evacceptor_ok a"
  shows "evacceptor_ok a1 \<and> ea_acceptor_id a1 = ea_acceptor_id a \<and> ea_conf a1 = ea_conf a"
proof -
  let ?P = "\<lambda>(_, c, _). evacceptor_ok c \<and> ea_acceptor_id c = ea_acceptor_id a \<and> ea_conf c = ea_conf a"
  have "?P (w1, a1, out1)"
    by (rule dispatch_keeps [OF _ assms(1)]) (use assms(2) in \<open>auto dest: acceptor_handler_keeps\<close>)
  then show ?thesis by simp
qed

lemma proposer_dispatch_keeps:
  assumes "event_base_dispatch got_exit (proposer_handler ev) rounds (w, p, out) = Some (Ok (w1, p1, out1))"
    and "evproposer_ok p"
  shows "evproposer_ok p1 \<and> ep_id p1 = ep_id p \<and> peers_n (ep_acceptors p1) = peers_n (ep_acceptors p)"
proof -
  let ?P = "\<lambda>(_, c, _). evproposer_ok c \<and> ep_id c = ep_id p \<and> peers_n (ep_acceptors c) = peers_n (ep_acceptors p)"
  have "?P (w1, p1, out1)"
    by (rule dispatch_keeps [OF _ assms(1)]) (use assms(2) in \<open>auto dest: proposer_handler_keeps\<close>)
  then show ?thesis by simp
qed

lemma learner_dispatch_keeps:
  assumes "event_base_dispatch got_exit (learner_handler ev) rounds (w, l, out) = Some (Ok (w1, l1, out1))"
    and "evlearner_ok l"
  shows "evlearner_ok l1 \<and> peers_n (el_acceptors l1) = peers_n (el_acceptors l)"
proof -
  let ?P = "\<lambda>(_, c, _). evlearner_ok c \<and> peers_n (el_acceptors c) = peers_n (el_acceptors l)"
  have "?P (w1, l1, out1)"
    by (rule dispatch_keeps [OF _ assms(1)]) (use assms(2) in \<open>auto dest: learner_handler_keeps\<close>)
  then show ?thesis by simp
qed

context evbuffers
begin

lemma acceptor_dispatch_returns: "\<exists>r. event_base_dispatch got_exit (acceptor_handler ev ops) rounds x = Some r"
proof (rule dispatch_returns)
  fix e y
  show "\<exists>r. acceptor_handler ev ops e y = Some r"
  proof (cases y)
    case (fields w a out)
    have "\<exists>r. call (evacceptor_on_read ev ops stack pad b (w, a)) (\<lambda>(w1, a1). Some (Ok (w1, a1, out))) = Some r"
      for stack pad b
      using on_read_returns [of ops stack pad b "(w, a)"] by (auto simp: call_def split: sum.split)
    then show ?thesis using fields by (cases e) (auto simp: handle_sigint_def)
  qed
qed

lemma proposer_dispatch_returns: "\<exists>r. event_base_dispatch got_exit (proposer_handler ev) rounds x = Some r"
proof (rule dispatch_returns)
  fix e y
  show "\<exists>r. proposer_handler ev e y = Some r"
  proof (cases y)
    case (fields w p out)
    have "\<exists>r. call (proposer_on_msgs ev f b (w, p)) (\<lambda>(w1, p1). Some (Ok (w1, p1, out))) = Some r" for f b
      using handle_request_returns [of "pe_junk f" "pe_clock f" "pe_now f" "pe_stack f" b "(w, p)"]
      by (auto simp: call_def proposer_on_msgs_def split: sum.split)
    then show ?thesis
      using fields by (cases e) (auto simp: handle_sigint_def peer_on_read_def client_on_read_once)
  qed
qed

end

section \<open>Starting and stopping\<close>

text \<open>A process that was started is well-formed.\<close>

lemma evacceptor_init_ok:
  "evacceptor_init ev aid file cfg db w = Ok (Some (w1, a)) \<Longrightarrow> db \<noteq> None \<Longrightarrow> evacceptor_ok a"
  by (auto simp: evacceptor_init_def res_simps evacceptor_ok_def acceptor_new_def dest: tcp_receiver_new_inv
      split: if_splits option.splits)

lemma connect_all_ok: "connect_all ev as ps w = Ok (qs, w1) \<Longrightarrow> peers_ok ps \<Longrightarrow> peers_ok qs"
  by (induction ev as ps w rule: connect_all.induct) (auto split: prod.splits dest: peers_connect_ok)

lemma evproposer_init_ok:
  "evproposer_init ev pid file cfg w = Ok (Some (w1, p)) \<Longrightarrow> evproposer_ok p"
  by (auto simp: evproposer_init_def res_simps evproposer_ok_def Let_def case_prod_beta
      dest!: tcp_receiver_new_inv dest: connect_all_ok [OF _ peers_new_ok] split: if_split_asm)

lemma evlearner_init_ok: "evlearner_init ev file cfg w = Ok (w1, l) \<Longrightarrow> evlearner_ok l"
  by (auto simp: evlearner_init_def evlearner_init_conf_def res_simps evlearner_ok_def Let_def
      case_prod_beta dest: connect_all_ok [OF _ peers_new_ok])

text \<open>A well-formed process can be freed.\<close>

lemma tcp_receiver_free_ok:
  assumes "receiver_inv r"
  shows "\<exists>w1. tcp_receiver_free ev r w = Ok w1"
proof -
  have "\<exists>w1. for_loop [0..<carray_count (tr_bevs r)] (\<lambda>i w.
      rbind (carray_item (tr_bevs r) (int i)) (\<lambda>b. Ok (bufferevent_free ev w b))) w = Ok w1 \<and> True"
    by (rule for_loop_upto_inv) (use assms in \<open>auto simp: receiver_inv_def carray_count_def carray_item_ok\<close>)
  then show ?thesis by (auto simp: tcp_receiver_free_def)
qed

lemma peers_free_ok:
  assumes "peers_ok ps"
  shows "\<exists>w1. peers_free ev ps w = Ok w1"
proof -
  have "\<exists>w1. peers_free ev ps w = Ok w1 \<and> True"
    unfolding peers_free_def by (rule for_loop_upto_inv) (use assms in \<open>auto simp: peers_ok_def\<close>)
  then show ?thesis by simp
qed

lemma evacceptor_free_ok: "evacceptor_ok a \<Longrightarrow> \<exists>w1. evacceptor_free ev ops a w = Ok (0, w1)"
  using tcp_receiver_free_ok [of "ea_receiver a" ev w]
  by (auto simp: evacceptor_free_def evacceptor_ok_def ea_acceptor_def split: prod.split)

lemma evproposer_free_ok: "evproposer_ok p \<Longrightarrow> \<exists>w1. evproposer_free ev p w = Ok w1"
  using peers_free_ok [of "ep_acceptors p" ev w] tcp_receiver_free_ok [of "ep_receiver p" ev]
  by (auto simp: evproposer_free_def evproposer_ok_def)

lemma evlearner_free_ok: "evlearner_ok l \<Longrightarrow> \<exists>w1. evlearner_free ev l w = Ok w1"
  using peers_free_ok [of "el_acceptors l" ev w] by (auto simp: evlearner_free_def evlearner_ok_def)

text \<open>
  Once its event loop ended, a program exits, with what it printed in the loop: the acceptor with
  status 1, the others with status 0.
\<close>

lemma acceptor_main_exits:
  assumes "length argv = 3" "db \<noteq> None"
    and init: "evacceptor_init ev (atoi (argv ! 1)) (files (argv ! 2)) cfg db (event_base_new eb) = Ok (Some (w, a))"
    and sig: "evsignal_new eb w SIGINT = (sig, w1)"
    and loop: "event_base_dispatch (event_base_got_exit eb) (acceptor_handler ev ops) rounds
      (evsignal_add eb w1 sig, a, []) = Some (Ok (w2, a2, out))"
  shows "\<exists>v. acceptor_main ev eb ops files cfg db rounds argv = Some (Ok (1, out, Some v))"
  using evacceptor_free_ok [of a2 ev ops "event_free ev w2 sig"] assms(1) loop
    acceptor_dispatch_keeps [OF loop evacceptor_init_ok [OF init assms(2)]]
  by (auto simp: acceptor_main_def init sig simp del: One_nat_def)

lemma proposer_main_exits:
  assumes "length argv = 3" and sig: "evsignal_new eb (event_base_new eb) SIGINT = (sig, w1)"
    and init: "evproposer_init ev (atoi (argv ! 1)) (files (argv ! 2)) cfg (evsignal_add eb w1 sig) = Ok (Some (w, p))"
    and loop: "event_base_dispatch (event_base_got_exit eb) (proposer_handler ev) rounds (w, p, []) = Some (Ok (w2, p2, out))"
  shows "\<exists>v. proposer_main ev eb files cfg rounds argv = Some (Ok (0, out, Some v))"
  using evproposer_free_ok [of p2 ev "event_free ev w2 sig"] assms(1) loop
    proposer_dispatch_keeps [OF loop evproposer_init_ok [OF init]]
  by (auto simp: proposer_main_def init sig simp del: One_nat_def)

lemma learner_main_exits:
  assumes "length argv = 2"
    and init: "evlearner_init ev (files (argv ! 1)) cfg (event_base_new eb) = Ok (w, l)"
    and sig: "evsignal_new eb w SIGINT = (sig, w1)"
    and loop: "event_base_dispatch (event_base_got_exit eb) (learner_handler ev) rounds
      (evsignal_add eb w1 sig, l, []) = Some (Ok (w2, l2, out))"
  shows "\<exists>v. learner_main ev eb files cfg rounds argv = Some (Ok (0, out, Some v))"
  using evlearner_free_ok [of l2 ev "event_free ev w2 sig"] assms(1) loop
    learner_dispatch_keeps [OF loop evlearner_init_ok [OF init]]
  by (auto simp: learner_main_def init sig simp del: One_nat_def)

section \<open>What the learner prints\<close>

lemma c_string_text: "c_string (map (\<lambda>c. of_nat (of_char c)) s @ 0 # rest) = Ok s" if "list_all (\<lambda>c. c \<noteq> CHR 0x00) s"
proof -
  have 1: "(of_nat (of_char c) :: byte) \<noteq> 0 \<and> char_of (unat (of_nat (of_char c) :: byte)) = c"
    if "c \<noteq> CHR 0x00" for c
  proof -
    have "of_char c < (256 :: nat)" by simp
    then have u: "unat (of_nat (of_char c) :: byte) = of_char c" by (simp add: unat_of_nat)
    have "of_char c \<noteq> (of_char CHR 0x00 :: nat)" using that by (simp only: of_char_eq_iff not_False_eq_True)
    then have "of_char c \<noteq> (0 :: nat)" by simp
    then show ?thesis using u by (metis char_of_char unat_0)
  qed
  have "takeWhile (\<lambda>b. b \<noteq> 0) (map (\<lambda>c. of_nat (of_char c) :: byte) s @ 0 # rest) = map (\<lambda>c. of_nat (of_char c)) s"
    using that 1 by (induction s) auto
  then show ?thesis using that 1 by (simp add: c_string_def list_all_iff map_idI)
qed

end
