(* ===== verification/Sample_Client.thy ===== *)
theory Sample_Client
  imports Processes
begin

text \<open>
  \<open>sample/client.c\<close> and \<open>sample/bakclient.c\<close>: a client connects to a proposer and submits the same
  value \<open>rate\<close> times, then sleeps, forever. The two programs differ in the value and the length of
  the pause. The endless loop is cut off after a number of rounds.
\<close>

text \<open>
  What the client uses of libevent beside the record \<open>libevent\<close>: the address parser, the result of
  \<open>bufferevent_socket_connect\<close>, and \<open>event_base_dispatch\<close>, which reports the events of the
  connection together with the text of the last socket error.
\<close>

record 'w client_lib =
  evutil_parse_sockaddr_port :: "string \<Rightarrow> sockaddr_in option"
  socket_connect :: "'w \<Rightarrow> bev \<Rightarrow> sockaddr_in \<Rightarrow> int \<times> 'w"
  client_dispatch :: "'w \<Rightarrow> (16 word \<times> string) list \<times> 'w"
  sleep :: "nat \<Rightarrow> 'w \<Rightarrow> 'w"

unbundle bit_operations_syntax

definition event_callback :: "16 word \<times> string \<Rightarrow> stdout \<Rightarrow> stdout" where
  "event_callback e out =
     (case e of (events, err) \<Rightarrow>
      if events AND BEV_EVENT_CONNECTED \<noteq> 0 then out @ [''Connected'']
      else if events AND BEV_EVENT_ERROR \<noteq> 0 then out @ [err]
      else out)"

definition dispatch_events :: "'w client_lib \<Rightarrow> 'w \<times> stdout \<Rightarrow> 'w \<times> stdout" where
  "dispatch_events lib x =
     (case x of (w, out) \<Rightarrow> case client_dispatch lib w of (es, w1) \<Rightarrow> (w1, fold event_callback es out))"

text \<open>\<open>None\<close> is the NULL pointer.\<close>

definition connect_to_proposer ::
  "'w libevent \<Rightarrow> 'w client_lib \<Rightarrow> sockaddr_in \<Rightarrow> 'w \<times> stdout \<Rightarrow> bev option \<times> 'w \<times> stdout" where
  "connect_to_proposer ev lib addr x =
     (case x of (w, out) \<Rightarrow>
      case bufferevent_socket_new ev w (- 1) of (b, w1) \<Rightarrow>
      case socket_connect lib w1 b addr of (rv, w2) \<Rightarrow>
      if rv < 0 then (None, bufferevent_free ev w2 b, out)
      else (Some b, dispatch_events lib (w2, out)))"

definition usage :: "string \<Rightarrow> int \<times> stdout" where
  "usage prog = (1, [''Usage: '' @ prog @ '' address:port rate''])"

text \<open>A string literal as an array of characters.\<close>

definition c_literal :: "string \<Rightarrow> byte list" where
  "c_literal s = map (\<lambda>c. of_nat (of_char c)) s @ [0]"

text \<open>The body of the inner loop, and one round of the endless loop.\<close>

definition submit_once ::
  "'w libevent \<Rightarrow> 'w client_lib \<Rightarrow> byte list \<Rightarrow> int \<Rightarrow> bev option \<Rightarrow> 'w \<times> stdout \<Rightarrow> ('w \<times> stdout) res" where
  "submit_once ev lib val len bev x =
     (case x of (w, out) \<Rightarrow>
      case bev of
        None \<Rightarrow> Err NullPointer
      | Some b \<Rightarrow>
          rbind (paxos_submit val len) (\<lambda>bytes. Ok (dispatch_events lib (bufferevent_write ev w b bytes, out))))"

definition client_round ::
  "'w libevent \<Rightarrow> 'w client_lib \<Rightarrow> byte list \<Rightarrow> int \<Rightarrow> int \<Rightarrow> nat \<Rightarrow> bev option \<Rightarrow> 'w \<times> stdout \<Rightarrow>
   ('w \<times> stdout) res" where
  "client_round ev lib val len rate secs bev x =
     rbind (for_loop [0..<nat rate] (\<lambda>_. submit_once ev lib val len bev) x) (\<lambda>(w, out).
     Ok (sleep lib secs w, out))"

fun client_rounds ::
  "nat \<Rightarrow> 'w libevent \<Rightarrow> 'w client_lib \<Rightarrow> byte list \<Rightarrow> int \<Rightarrow> int \<Rightarrow> nat \<Rightarrow> bev option \<Rightarrow> 'w \<times> stdout \<Rightarrow>
   ('w \<times> stdout) res" where
  "client_rounds 0 ev lib val len rate secs bev x = Ok x"
| "client_rounds (Suc n) ev lib val len rate secs bev x =
     rbind (client_round ev lib val len rate secs bev x) (client_rounds n ev lib val len rate secs bev)"

text \<open>\<open>Inl\<close> is a program that ended with a status, \<open>Inr\<close> one that is still in its loop.\<close>

definition client_main ::
  "string \<Rightarrow> nat \<Rightarrow> nat \<Rightarrow> 'w libevent \<Rightarrow> 'w event_base \<Rightarrow> 'w client_lib \<Rightarrow> string list \<Rightarrow>
   (int \<times> stdout + 'w \<times> stdout) res" where
  "client_main text secs n ev eb lib argv =
     (if length argv \<noteq> 3 then Ok (Inl (usage (prog_name argv)))
      else
        case evutil_parse_sockaddr_port lib (argv ! 1) of
          None \<Rightarrow> Ok (Inl (usage (prog_name argv)))
        | Some addr \<Rightarrow>
            (case connect_to_proposer ev lib addr (event_base_new eb, []) of (bev, x) \<Rightarrow>
             rbind (client_rounds n ev lib (c_literal text) (int (length text) + 1) (atoi (argv ! 2)) secs bev x)
               (\<lambda>y. Ok (Inr y))))"

definition client_program ::
  "nat \<Rightarrow> 'w libevent \<Rightarrow> 'w event_base \<Rightarrow> 'w client_lib \<Rightarrow> string list \<Rightarrow> (int \<times> stdout + 'w \<times> stdout) res" where
  "client_program = client_main ''hello'' 100"

definition bakclient_program ::
  "nat \<Rightarrow> 'w libevent \<Rightarrow> 'w event_base \<Rightarrow> 'w client_lib \<Rightarrow> string list \<Rightarrow> (int \<times> stdout + 'w \<times> stdout) res" where
  "bakclient_program = client_main ''hello!'' 10"

section \<open>The bytes a client writes\<close>

text \<open>The event loop and the pause do not take back what was written.\<close>

locale client_buffers = evbuffers ev inp outp for ev :: "'w libevent" and inp outp +
  fixes lib :: "'w client_lib"
  assumes dispatch_outp: "client_dispatch lib w = (es, w1) \<Longrightarrow> outp w1 = outp w"
    and sleep_outp: "outp (sleep lib secs w) = outp w"
begin

lemma dispatch_events_outp: "outp (fst (dispatch_events lib (w, out))) = outp w"
  using dispatch_outp by (auto simp: dispatch_events_def split: prod.split)

lemma client_round_writes:
  assumes "paxos_submit val len = Ok bytes"
  shows "\<exists>w1 out1. client_round ev lib val len rate secs (Some b) (w, out) = Ok (w1, out1) \<and>
    outp w1 = (outp w)(b := outp w b @ concat (replicate (nat rate) bytes))"
proof -
  have "\<exists>t. for_loop [0..<nat rate] (\<lambda>_. submit_once ev lib val len (Some b)) (w, out) = Ok t \<and>
    outp (fst t) = (outp w)(b := outp w b @ concat (replicate (nat rate) bytes))"
  proof (rule for_loop_upto_inv)
    fix i and t :: "'w \<times> stdout"
    assume I: "outp (fst t) = (outp w)(b := outp w b @ concat (replicate i bytes))"
    obtain v o1 where t: "t = (v, o1)" by force
    have "outp (fst (dispatch_events lib (bufferevent_write ev v b bytes, o1))) =
        (outp w)(b := outp w b @ concat (replicate (Suc i) bytes))"
      using bev_write [OF refl, of v b bytes] I t
      by (simp add: dispatch_events_outp replicate_append_same [symmetric])
    then show "\<exists>t'. submit_once ev lib val len (Some b) t = Ok t' \<and>
        outp (fst t') = (outp w)(b := outp w b @ concat (replicate (Suc i) bytes))"
      using assms t by (simp add: submit_once_def)
  qed simp
  then show ?thesis by (auto simp: client_round_def sleep_outp)
qed

lemma client_rounds_write:
  assumes "paxos_submit val len = Ok bytes"
  shows "\<exists>w1 out1. client_rounds n ev lib val len rate secs (Some b) (w, out) = Ok (w1, out1) \<and>
    outp w1 = (outp w)(b := outp w b @ concat (replicate (n * nat rate) bytes))"
proof (induction n arbitrary: w out)
  case (Suc n)
  from client_round_writes [OF assms] obtain v o1 where
    v: "client_round ev lib val len rate secs (Some b) (w, out) = Ok (v, o1)"
      "outp v = (outp w)(b := outp w b @ concat (replicate (nat rate) bytes))" by blast
  from Suc [of v o1] v show ?case by (auto simp: replicate_add fun_eq_iff)
qed simp

end

lemma submit_literal:
  assumes "length s < 256000"
  shows "paxos_submit (c_literal s) (int (length s) + 1) = Ok (frame submit (c_literal s))" "body_ok (c_literal s)"
proof -
  have "paxos_submit (c_literal s) (int (Suc (length s))) =
      Ok (add_paxos_header submit (of_nat (nat (int (Suc (length s))))) @ take (nat (int (Suc (length s)))) (c_literal s))"
    by (rule submit_trip) (use assms in \<open>simp_all add: c_literal_def\<close>)
  then show "paxos_submit (c_literal s) (int (length s) + 1) = Ok (frame submit (c_literal s))"
    unfolding frame_def by (simp add: c_literal_def add.commute nat_add_distrib)
  show "body_ok (c_literal s)" using assms by (simp add: body_ok_def c_literal_def PAXOS_MAX_VALUE_SIZE_def)
qed

text \<open>Without a connection the first submission dereferences NULL.\<close>

lemma client_not_connected:
  assumes "0 < rate"
  shows "client_rounds (Suc n) ev lib val len rate secs None x = Err NullPointer"
proof -
  have "[0..<nat rate] = 0 # [Suc 0..<nat rate]" using assms by (simp add: upt_conv_Cons)
  then show ?thesis by (simp add: client_round_def submit_once_def split: prod.split)
qed

end
