(* ===== verification/Echo_Server.thy ===== *)
theory Echo_Server
  imports Processes
begin

text \<open>
  \<open>test.c\<close>: a server that writes everything it reads back to the sender, used to try out libevent.
\<close>

text \<open>\<open>evbuffer_add_buffer\<close> from the input to the output of a connection.\<close>

record 'w echo_lib =
  evbuffer_add_buffer :: "'w \<Rightarrow> bev \<Rightarrow> 'w"
  echo_base_new :: "'w option"

definition echo_read_cb :: "'w echo_lib \<Rightarrow> bev \<Rightarrow> 'w \<Rightarrow> 'w" where
  "echo_read_cb lib b w = evbuffer_add_buffer lib w b"

unbundle bit_operations_syntax

text \<open>\<open>perror\<close> writes to standard error, with the text of the error number.\<close>

definition echo_event_cb :: "'w libevent \<Rightarrow> bev \<Rightarrow> 16 word \<Rightarrow> string \<Rightarrow> 'w \<times> stdout \<Rightarrow> 'w \<times> stdout" where
  "echo_event_cb ev b events err x =
     (case x of (w, errs) \<Rightarrow>
      let errs1 = (if events AND BEV_EVENT_ERROR \<noteq> 0 then errs @ [''Error from bufferevent: '' @ err] else errs)
      in if events AND (BEV_EVENT_EOF OR BEV_EVENT_ERROR) \<noteq> 0 then (bufferevent_free ev w b, errs1)
         else (w, errs1))"

definition accept_conn_cb :: "'w libevent \<Rightarrow> int \<Rightarrow> 'w \<Rightarrow> 'w" where
  "accept_conn_cb ev fd w = (case bufferevent_socket_new ev w fd of (b, w1) \<Rightarrow> bufferevent_enable ev w1 b)"

definition accept_error_cb :: "'w libevent \<Rightarrow> int \<Rightarrow> string \<Rightarrow> 'w \<times> stdout \<Rightarrow> 'w \<times> stdout" where
  "accept_error_cb ev err text x =
     (case x of (w, errs) \<Rightarrow>
        (event_base_loopexit ev w,
         errs @ [''Got an error '' @ print_int err @ '' ('' @ text @ '') on the listener. Shutting down.'']))"

datatype echo_input =
    EchoRead bev
  | EchoEvent bev "16 word" string
  | EchoConn int
  | EchoListenError int string

fun echo_handler :: "'w libevent \<Rightarrow> 'w echo_lib \<Rightarrow> echo_input \<Rightarrow> 'w \<times> stdout \<Rightarrow> ('w \<times> stdout) res option" where
  "echo_handler ev lib (EchoRead b) (w, errs) = Some (Ok (echo_read_cb lib b w, errs))"
| "echo_handler ev lib (EchoEvent b events err) x = Some (Ok (echo_event_cb ev b events err x))"
| "echo_handler ev lib (EchoConn fd) (w, errs) = Some (Ok (accept_conn_cb ev fd w, errs))"
| "echo_handler ev lib (EchoListenError n text) x = Some (Ok (accept_error_cb ev n text x))"

text \<open>
  The result is the status and the lines written to standard output and standard error. The port
  is stored in 16 bits after the check. \<open>bind_error\<close> is the text of the error number.
\<close>

definition couldnt :: "string \<Rightarrow> string" where
  "couldnt what = ''Couldn'' @ [CHR 0x27] @ ''t '' @ what"

definition echo_main ::
  "'w libevent \<Rightarrow> ('w \<Rightarrow> bool) \<Rightarrow> 'w echo_lib \<Rightarrow> string \<Rightarrow> echo_input list list \<Rightarrow> string list \<Rightarrow>
   (int \<times> stdout \<times> stdout) res option" where
  "echo_main ev got_exit lib bind_error rounds argv =
     (let p = (if length argv > 1 then atoi (argv ! 1) else 9876) in
      if p \<le> 0 \<or> p > 65535 then Some (Ok (1, [''Invalid port''], []))
      else
        case echo_base_new lib of
          None \<Rightarrow> Some (Ok (1, [couldnt ''open event base''], []))
        | Some w \<Rightarrow>
            (case evconnlistener_new_bind ev w \<lparr>sin_addr = None, sin_port = word_of_int p\<rparr> of (listener, w1) \<Rightarrow>
             if \<not> listener then Some (Ok (1, [], [couldnt ''create listener: '' @ bind_error]))
             else call (event_base_dispatch got_exit (echo_handler ev lib) rounds (w1, []))
                    (\<lambda>(w2, errs). Some (Ok (0, [], errs)))))"

section \<open>The server echoes\<close>

text \<open>\<open>arrive\<close> stands for the network: it appends bytes to the input of a connection.\<close>

locale echo_buffers = evbuffers ev inp outp for ev :: "'w libevent" and inp outp +
  fixes lib :: "'w echo_lib" and arrive :: "'w \<Rightarrow> bev \<Rightarrow> byte list \<Rightarrow> 'w"
  assumes add_buffer: "evbuffer_add_buffer lib w b = w1 \<Longrightarrow>
      inp w1 = (inp w)(b := []) \<and> outp w1 = (outp w)(b := outp w b @ inp w b)"
    and arrive: "inp (arrive w b bs) = (inp w)(b := inp w b @ bs) \<and> outp (arrive w b bs) = outp w"
begin

definition echo_run :: "(bev \<times> byte list) list \<Rightarrow> 'w \<Rightarrow> 'w" where
  "echo_run chunks = fold (\<lambda>(b, bs) v. echo_read_cb lib b (arrive v b bs)) chunks"

lemma echo_chunks:
  "inp w c = [] \<Longrightarrow> inp (echo_run chunks w) c = [] \<and>
     outp (echo_run chunks w) c = outp w c @ concat (map snd (filter (\<lambda>x. fst x = c) chunks))"
proof (induction chunks arbitrary: w)
  case (Cons x chunks)
  obtain b bs where x: "x = (b, bs)" by force
  let ?v = "echo_read_cb lib b (arrive w b bs)"
  have v: "inp ?v = (inp w)(b := [])" "outp ?v = (outp w)(b := outp w b @ inp w b @ bs)"
    using add_buffer [OF refl, of "arrive w b bs" b] arrive [of w b bs] by (simp_all add: echo_read_cb_def)
  from Cons.IH [of ?v] Cons.prems v show ?case by (auto simp: x echo_run_def split: if_splits)
qed (simp add: echo_run_def)

end

end
