(* ===== verification/Sample_Example.thy ===== *)
theory Sample_Example
  imports Ev_Example Sample_Client Echo_Server
begin

text \<open>The sample programs in the small world of \<open>Ev_Example\<close>.\<close>

definition demo_base :: "demo_world event_base" where
  "demo_base =
     \<lparr>event_base_new = with_input 0 [],
      event_base_got_exit = dw_exit,
      evsignal_new = (\<lambda>w sig. (dw_fresh w, w\<lparr>dw_fresh := dw_fresh w + 1\<rparr>)),
      evsignal_add = (\<lambda>w t. w),
      event_base_free = (\<lambda>w. w)\<rparr>"

definition demo_client :: "demo_world client_lib" where
  "demo_client =
     \<lparr>evutil_parse_sockaddr_port = (\<lambda>s. if s = ''127.0.0.1:8801'' then Some \<lparr>sin_addr = Some ''127.0.0.1'', sin_port = 8801\<rparr> else None),
      socket_connect = (\<lambda>w b a. (0, w)),
      client_dispatch = (\<lambda>w. ([], w)),
      sleep = (\<lambda>n w. w)\<rparr>"

interpretation democlient: client_buffers demo_ev dw_in dw_out demo_client
  by unfold_locales (auto simp: demo_client_def)

definition demo_echo :: "demo_world echo_lib" where
  "demo_echo =
     \<lparr>evbuffer_add_buffer = (\<lambda>w b. set_in (set_out w b (dw_out w b @ dw_in w b)) b []),
      echo_base_new = Some (with_input 0 [])\<rparr>"

definition demo_arrive :: "demo_world \<Rightarrow> bev \<Rightarrow> byte list \<Rightarrow> demo_world" where
  "demo_arrive w b bs = set_in w b (dw_in w b @ bs)"

interpretation demoecho: echo_buffers demo_ev dw_in dw_out demo_echo demo_arrive
  by unfold_locales (auto simp: demo_echo_def demo_arrive_def)

definition demo_files :: "string \<Rightarrow> string option" where
  "demo_files name =
     (if name = ''paxos.conf'' then
        Some (''a 0 127.0.0.1 8800'' @ [CHR 0x0A] @ ''p 0 127.0.0.1 5550'' @ [CHR 0x0A])
      else None)"

text \<open>The three programs are interrupted in the first or second round of their event loop.\<close>

definition acceptor_rounds :: "acceptor_input list list" where
  "acceptor_rounds = [[AcceptorConn 5, AcceptorSignal SIGINT], [AcceptorListenError]]"

definition proposer_rounds :: "proposer_input list list" where
  "proposer_rounds = [[ClientConn 5, PeerTimeout 0], [ProposerSignal SIGINT], [PeerTimeout 0]]"

definition learner_rounds :: "learner_input list list" where
  "learner_rounds = [[HoleTimer], [LearnerSignal SIGINT]]"

text \<open>Two connections come and one ends, bytes that are no message arrive, and the program is interrupted.\<close>

definition busy_acceptor_rounds :: "acceptor_input list list" where
  "busy_acceptor_rounds =
     [[AcceptorConn 5], [AcceptorConn 6, AcceptorRead 10 (\<lambda>i. []) pad6], [AcceptorEvent 20 BEV_EVENT_EOF],
      [AcceptorSignal SIGINT], [AcceptorConn 7]]"

definition busy_proposer_rounds :: "proposer_input list list" where
  "busy_proposer_rounds =
     [[ClientConn 5], [ClientConn 6, ProposerTimer small_config clock0], [ClientEvent 20 BEV_EVENT_EOF],
      [ProposerSignal SIGINT], [ClientConn 7]]"

lemma demo_signal: "evsignal_new demo_base w sig = (dw_fresh w, w\<lparr>dw_fresh := dw_fresh w + 1\<rparr>)"
  by (simp add: demo_base_def)

lemma ran_cases:
  "(case x of Inl e \<Rightarrow> False | Inr None \<Rightarrow> False | Inr (Some (w, a)) \<Rightarrow> P w a) \<longleftrightarrow> (\<exists>w a. x = Ok (Some (w, a)) \<and> P w a)"
  "(case y of Inl e \<Rightarrow> False | Inr (w, a) \<Rightarrow> P w a) \<longleftrightarrow> (\<exists>w a. y = Ok (w, a) \<and> P w a)"
  "(case z of None \<Rightarrow> False | Some (Inl e) \<Rightarrow> False | Some (Inr (w, a, out)) \<Rightarrow> out = s) \<longleftrightarrow>
     (\<exists>w a. z = Some (Ok (w, a, s)))"
proof -
  show "(case z of None \<Rightarrow> False | Some (Inl e) \<Rightarrow> False | Some (Inr (w, a, out)) \<Rightarrow> out = s) \<longleftrightarrow>
     (\<exists>w a. z = Some (Ok (w, a, s)))"
    by (cases z; cases "the z") auto
qed (auto split: sum.splits option.splits)

lemma demo_acceptor_loop:
  "case evacceptor_init demo_ev (atoi ''0'') (demo_files ''paxos.conf'') small_config (Some (small_store 0))
     (event_base_new demo_base) of
     Inr (Some (w, a)) \<Rightarrow> (case evsignal_new demo_base w SIGINT of (sig, w1) \<Rightarrow>
       (case event_base_dispatch (event_base_got_exit demo_base) (acceptor_handler demo_ev mem_ops) acceptor_rounds
          (evsignal_add demo_base w1 sig, a, []) of
          Some (Inr (_, _, out)) \<Rightarrow> out = [''Caught signal 2''] | _ \<Rightarrow> False))
   | _ \<Rightarrow> False"
  by code_simp

lemma demo_proposer_loop:
  "case evsignal_new demo_base (event_base_new demo_base) SIGINT of (sig, w1) \<Rightarrow>
     (case evproposer_init demo_ev (atoi ''0'') (demo_files ''paxos.conf'') small_config (evsignal_add demo_base w1 sig) of
        Inr (Some (w, p)) \<Rightarrow>
          (case event_base_dispatch (event_base_got_exit demo_base) (proposer_handler demo_ev) proposer_rounds (w, p, []) of
             Some (Inr (_, _, out)) \<Rightarrow> out = [''Caught signal 2''] | _ \<Rightarrow> False)
      | _ \<Rightarrow> False)"
  by code_simp

lemma demo_learner_loop:
  "case evlearner_init demo_ev (demo_files ''paxos.conf'') small_config (event_base_new demo_base) of
     Inr (w, l) \<Rightarrow> (case evsignal_new demo_base w SIGINT of (sig, w1) \<Rightarrow>
       (case event_base_dispatch (event_base_got_exit demo_base) (learner_handler demo_ev) learner_rounds
          (evsignal_add demo_base w1 sig, l, []) of
          Some (Inr (_, _, out)) \<Rightarrow> out = [''Caught signal 2''] | _ \<Rightarrow> False))
   | _ \<Rightarrow> False"
  by code_simp

text \<open>A world in which the next connection is number 20.\<close>

definition busy_world0 :: demo_world where
  "busy_world0 = (with_input 0 [])\<lparr>dw_fresh := 20\<rparr>"

definition ends_with :: "('st \<Rightarrow> bev list) \<Rightarrow> ('w \<times> 'st \<times> stdout) res option \<Rightarrow> bev list \<Rightarrow> bool" where
  "ends_with conns r cs = (case r of Some (Inr (w, x, out)) \<Rightarrow> conns x = cs | _ \<Rightarrow> False)"

lemma ends_withD: "ends_with conns r cs \<Longrightarrow> \<exists>w x out. r = Some (Ok (w, x, out)) \<and> conns x = cs"
  by (auto simp: ends_with_def split: option.splits sum.splits)

lemma busy_acceptor_ok:
  "ends_with (\<lambda>a. clist (tr_bevs (ea_receiver a))) (event_base_dispatch dw_exit (acceptor_handler demo_ev mem_ops)
     busy_acceptor_rounds (busy_world0, demo_acceptor, [])) [10, 21]"
  by code_simp

lemma busy_proposer_ok:
  "ends_with (\<lambda>p. clist (tr_bevs (ep_receiver p))) (event_base_dispatch dw_exit (proposer_handler demo_ev)
     busy_proposer_rounds (busy_world0, demo_proposer, [])) [10, 21]"
  by code_simp

lemma busy_learner_ok:
  "ends_with (\<lambda>l. []) (event_base_dispatch dw_exit (learner_handler demo_ev) learner_rounds
     (busy_world0, demo_learner, [])) []"
  by code_simp

end
