(* ===== verification/Deployment.thy ===== *)
theory Deployment
  imports Evpaxos Processes
begin

text \<open>
  A whole deployment on the level of bytes: acceptor, proposer, learner and client processes, each
  with its own libevent state, and TCP connections between them that deliver the bytes written at
  one end in order at the other, in pieces of any size. A step is the handling of one message by
  the handler of a process, one firing of the timer of a proposer, any other call of a handler (a
  connection is accepted, breaks or is made again, a signal), the submission of a value by a
  client, the arrival of some bytes, or the end of a process. The hole timer of the learners, whose
  requests are answered in a way that breaks agreement, is left out.

  A connection that breaks loses the bytes that were not read. Its number is not used again: both
  sides go on with new connections. The topology says for every number a process may use which
  other end it leads to; that nothing ever arrives on a connection is always possible.

  \<open>Deployment_Run\<close> shows that every step is a run of the system of \<open>System\<close>, so that agreement and
  validity carry over to what the callbacks of the learners get.
\<close>

section \<open>Processes and connections\<close>

datatype process =
    AcceptorProc nat
  | ProposerProc nat
  | LearnerProc nat
  | ClientProc nat

type_synonym endpoint = "process \<times> bev"

text \<open>The other end of a connection.\<close>

type_synonym topology = "endpoint \<Rightarrow> endpoint option"

text \<open>
  \<open>dp_fed\<close> counts the bytes that arrived at an endpoint, \<open>dp_closed\<close> are the ends that were freed. \<open>dp_submitted\<close> lists the values the clients
  submitted, \<open>dp_delivered\<close> what the callbacks of the learners got. \<open>dp_work\<close> bounds the number of calls
  of the protocol library.
\<close>

record ('w, 's) deployment =
  dp_world :: "process \<Rightarrow> 'w"
  dp_acceptors :: "nat \<Rightarrow> 's evacceptor option"
  dp_proposers :: "nat \<Rightarrow> evproposer option"
  dp_learners :: "nat \<Rightarrow> evlearner option"
  dp_fed :: "endpoint \<Rightarrow> nat"
  dp_closed :: "endpoint set"
  dp_submitted :: "byte list list"
  dp_delivered :: "(nat \<times> delivery) list"
  dp_work :: nat

text \<open>The number of messages in a sequence of bytes, by their headers.\<close>

function frames_in :: "byte list \<Rightarrow> nat" where
  "frames_in bs =
     (if length bs < sizeof_paxos_msg then 0
      else Suc (frames_in (drop (sizeof_paxos_msg + unat (fst (read_header (take sizeof_paxos_msg bs)))) bs)))"
  by pat_completeness auto
termination
  by (relation "measure length") (auto simp: sizeof_defs)

declare frames_in.simps [simp del]

text \<open>The number of messages a proposer wrote to its first acceptor.\<close>

definition sent_count :: "('w \<Rightarrow> bev \<Rightarrow> byte list) \<Rightarrow> evproposer \<Rightarrow> 'w \<Rightarrow> 'w \<Rightarrow> nat" where
  "sent_count outp p w w1 =
     (case peers_bevs (ep_acceptors p) of
        [] \<Rightarrow> 0
      | b # _ \<Rightarrow> frames_in (drop (length (outp w b)) (outp w1 b)))"

text \<open>The connections of a proposer to its peers go to acceptors.\<close>

definition peers_wired :: "topology \<Rightarrow> nat \<Rightarrow> evproposer \<Rightarrow> bool" where
  "peers_wired topo k p \<longleftrightarrow> peers_ok (ep_acceptors p) \<and> peers_bevs (ep_acceptors p) \<noteq> [] \<and>
     (\<forall>b \<in> set (peers_bevs (ep_acceptors p)). \<exists>j c. topo (ProposerProc k, b) = Some (AcceptorProc j, c))"

text \<open>
  The calls of the handlers of \<open>Processes\<close> that handle no message and are not the timers, and the
  connections they free.
\<close>

unbundle bit_operations_syntax

definition receiver_frees :: "16 word \<Rightarrow> bool" where
  "receiver_frees events \<longleftrightarrow> events AND BEV_EVENT_EOF \<noteq> 0"

definition peer_frees :: "16 word \<Rightarrow> bool" where
  "peer_frees what \<longleftrightarrow> what AND BEV_EVENT_CONNECTED = 0 \<and> (what AND BEV_EVENT_ERROR \<noteq> 0 \<or> what AND BEV_EVENT_EOF \<noteq> 0)"

definition peer_closes :: "peers \<Rightarrow> nat \<Rightarrow> 16 word \<Rightarrow> bev set" where
  "peer_closes ps i what = (if peer_frees what then {peer_bev (peers_peers ps ! i)} else {})"

fun acceptor_other_input :: "acceptor_input \<Rightarrow> bool" where
  "acceptor_other_input (AcceptorRead b stack pad) = False"
| "acceptor_other_input _ = True"

fun acceptor_closes :: "acceptor_input \<Rightarrow> bev set" where
  "acceptor_closes (AcceptorEvent b events) = (if receiver_frees events then {b} else {})"
| "acceptor_closes _ = {}"

fun proposer_other_input :: "proposer_input \<Rightarrow> bool" where
  "proposer_other_input (PeerRead b e) = False"
| "proposer_other_input (ClientRead b e) = False"
| "proposer_other_input (ProposerTimer cfg now) = False"
| "proposer_other_input _ = True"

fun proposer_closes :: "evproposer \<Rightarrow> proposer_input \<Rightarrow> bev set" where
  "proposer_closes p (ClientEvent b events) = (if receiver_frees events then {b} else {})"
| "proposer_closes p (PeerEvent i what) = peer_closes (ep_acceptors p) i what"
| "proposer_closes p _ = {}"

fun learner_other_input :: "learner_input \<Rightarrow> bool" where
  "learner_other_input (AcceptorMsg b stack) = False"
| "learner_other_input HoleTimer = False"
| "learner_other_input _ = True"

fun learner_closes :: "evlearner \<Rightarrow> learner_input \<Rightarrow> bev set" where
  "learner_closes l (LearnerPeerEvent i what) = peer_closes (el_acceptors l) i what"
| "learner_closes l _ = {}"

text \<open>
  The steps. Left out are the hole timer of the learners (\<open>evlearner_check_holes\<close>, armed by every learner
  process), so that no learner sends a repeat request; client values of size 0; and processes that are
  started again. Runs are limited by \<open>within_limits\<close> below.
\<close>

inductive deploy_step ::
  "'w libevent \<Rightarrow> ('w \<Rightarrow> bev \<Rightarrow> byte list) \<Rightarrow> ('w \<Rightarrow> bev \<Rightarrow> byte list) \<Rightarrow> topology \<Rightarrow> 's storage_ops \<Rightarrow>
   ('w, 's) deployment \<Rightarrow> ('w, 's) deployment \<Rightarrow> bool"
  for ev inp outp topo ops where
  arrive:
    "topo (p, b) = Some (q, c) \<Longrightarrow> (p, b) \<notin> dp_closed d \<Longrightarrow>
     chunk = take n (drop (dp_fed d (p, b)) (outp (dp_world d q) c)) \<Longrightarrow>
     inp w = (inp (dp_world d p))(b := inp (dp_world d p) b @ chunk) \<Longrightarrow> outp w = outp (dp_world d p) \<Longrightarrow>
     deploy_step ev inp outp topo ops d
       (d\<lparr>dp_world := (dp_world d)(p := w), dp_fed := (dp_fed d)((p, b) := dp_fed d (p, b) + length chunk)\<rparr>)"
| client_submit:
    "paxos_submit v n = Ok bytes \<Longrightarrow> 0 < n \<Longrightarrow> n < 2 ^ 31 \<Longrightarrow> p = ClientProc k \<Longrightarrow>
     deploy_step ev inp outp topo ops d
       (d\<lparr>dp_world := (dp_world d)(p := bufferevent_write ev (dp_world d p) b bytes),
          dp_submitted := dp_submitted d @ [take (nat n) v]\<rparr>)"
| acceptor_message:
    "dp_acceptors d k = Some a \<Longrightarrow> b \<in> set (clist (tr_bevs (ea_receiver a))) \<Longrightarrow> p = AcceptorProc k \<Longrightarrow>
     (p, b) \<notin> dp_closed d \<Longrightarrow> msg_ready ev (dp_world d p) b \<Longrightarrow> length pad = 6 \<Longrightarrow>
     handle_req ev ops stack pad b (dp_world d p, a) = Ok (w1, a1) \<Longrightarrow>
     deploy_step ev inp outp topo ops d
       (d\<lparr>dp_world := (dp_world d)(p := w1), dp_acceptors := (dp_acceptors d)(k := Some a1),
          dp_work := dp_work d + 1\<rparr>)"
| proposer_message:
    "dp_proposers d k = Some pr \<Longrightarrow> p = ProposerProc k \<Longrightarrow> (p, b) \<notin> dp_closed d \<Longrightarrow> msg_ready ev (dp_world d p) b \<Longrightarrow>
     proposer_handle_msg ev junk clock now stack b (dp_world d p, pr) = Ok (w1, pr1) \<Longrightarrow>
     deploy_step ev inp outp topo ops d
       (d\<lparr>dp_world := (dp_world d)(p := w1), dp_proposers := (dp_proposers d)(k := Some pr1),
          dp_work := dp_work d + (2 + sent_count outp pr (dp_world d p) w1)\<rparr>)"
| proposer_timer:
    "dp_proposers d k = Some pr \<Longrightarrow> p = ProposerProc k \<Longrightarrow>
     proposer_check_timeouts ev cfg now (dp_world d p, pr) = Ok (w1, pr1) \<Longrightarrow>
     deploy_step ev inp outp topo ops d
       (d\<lparr>dp_world := (dp_world d)(p := w1), dp_proposers := (dp_proposers d)(k := Some pr1),
          dp_work := dp_work d + (2 + sent_count outp pr (dp_world d p) w1)\<rparr>)"
| learner_message:
    "dp_learners d k = Some l \<Longrightarrow> p = LearnerProc k \<Longrightarrow> (p, b) \<notin> dp_closed d \<Longrightarrow> msg_ready ev (dp_world d p) b \<Longrightarrow>
     learner_handle_msg ev stack b (dp_world d p, l, []) = Some (Ok (w1, l1, ds)) \<Longrightarrow>
     deploy_step ev inp outp topo ops d
       (d\<lparr>dp_world := (dp_world d)(p := w1), dp_learners := (dp_learners d)(k := Some l1),
          dp_delivered := dp_delivered d @ map (Pair k) ds, dp_work := dp_work d + (2 + length ds)\<rparr>)"
| acceptor_other:
    "dp_acceptors d k = Some a \<Longrightarrow> p = AcceptorProc k \<Longrightarrow> acceptor_other_input i \<Longrightarrow>
     acceptor_handler ev ops i (dp_world d p, a, out) = Some (Ok (w1, a1, out1)) \<Longrightarrow>
     deploy_step ev inp outp topo ops d
       (d\<lparr>dp_world := (dp_world d)(p := w1), dp_acceptors := (dp_acceptors d)(k := Some a1),
          dp_closed := dp_closed d \<union> Pair p ` acceptor_closes i\<rparr>)"
| proposer_other:
    "dp_proposers d k = Some pr \<Longrightarrow> p = ProposerProc k \<Longrightarrow> proposer_other_input i \<Longrightarrow>
     proposer_handler ev i (dp_world d p, pr, out) = Some (Ok (w1, pr1, out1)) \<Longrightarrow> peers_wired topo k pr1 \<Longrightarrow>
     deploy_step ev inp outp topo ops d
       (d\<lparr>dp_world := (dp_world d)(p := w1), dp_proposers := (dp_proposers d)(k := Some pr1),
          dp_closed := dp_closed d \<union> Pair p ` proposer_closes pr i\<rparr>)"
| learner_other:
    "dp_learners d k = Some l \<Longrightarrow> p = LearnerProc k \<Longrightarrow> learner_other_input i \<Longrightarrow>
     learner_handler ev i (dp_world d p, l, out) = Some (Ok (w1, l1, out1)) \<Longrightarrow>
     deploy_step ev inp outp topo ops d
       (d\<lparr>dp_world := (dp_world d)(p := w1), dp_learners := (dp_learners d)(k := Some l1),
          dp_closed := dp_closed d \<union> Pair p ` learner_closes l i\<rparr>)"
| acceptor_ends: "deploy_step ev inp outp topo ops d (d\<lparr>dp_acceptors := (dp_acceptors d)(k := None)\<rparr>)"
| proposer_ends: "deploy_step ev inp outp topo ops d (d\<lparr>dp_proposers := (dp_proposers d)(k := None)\<rparr>)"
| learner_ends: "deploy_step ev inp outp topo ops d (d\<lparr>dp_learners := (dp_learners d)(k := None)\<rparr>)"

text \<open>
  Runs of at most \<open>step_limit\<close> calls in which no connection carries \<open>2 ^ 63\<close> bytes.
\<close>

definition streams_bounded :: "('w \<Rightarrow> bev \<Rightarrow> byte list) \<Rightarrow> topology \<Rightarrow> (process \<Rightarrow> 'w) \<Rightarrow> bool" where
  "streams_bounded outp topo W \<longleftrightarrow> (\<forall>p b. topo (p, b) \<noteq> None \<longrightarrow> length (outp (W p) b) < 2 ^ 63)"

definition within_limits :: "('w \<Rightarrow> bev \<Rightarrow> byte list) \<Rightarrow> topology \<Rightarrow> ('w, 's) deployment \<Rightarrow> bool" where
  "within_limits outp topo d \<longleftrightarrow> dp_work d \<le> step_limit \<and> streams_bounded outp topo (dp_world d)"

inductive deploy_run ::
  "'w libevent \<Rightarrow> ('w \<Rightarrow> bev \<Rightarrow> byte list) \<Rightarrow> ('w \<Rightarrow> bev \<Rightarrow> byte list) \<Rightarrow> topology \<Rightarrow> 's storage_ops \<Rightarrow>
   ('w, 's) deployment \<Rightarrow> ('w, 's) deployment \<Rightarrow> bool"
  for ev inp outp topo ops d0 where
  start: "within_limits outp topo d0 \<Longrightarrow> deploy_run ev inp outp topo ops d0 d0"
| step: "deploy_run ev inp outp topo ops d0 d \<Longrightarrow> deploy_step ev inp outp topo ops d d1 \<Longrightarrow>
    within_limits outp topo d1 \<Longrightarrow> deploy_run ev inp outp topo ops d0 d1"

text \<open>
  Connections run between proposers and acceptors, learners and acceptors, and clients and
  proposers.
\<close>

fun linked :: "process \<Rightarrow> process \<Rightarrow> bool" where
  "linked (AcceptorProc k) (ProposerProc j) = True"
| "linked (AcceptorProc k) (LearnerProc j) = True"
| "linked (ProposerProc k) (AcceptorProc j) = True"
| "linked (ProposerProc k) (ClientProc j) = True"
| "linked (LearnerProc k) (AcceptorProc j) = True"
| "linked (ClientProc k) (ProposerProc j) = True"
| "linked p q = False"

definition topology_ok :: "topology \<Rightarrow> bool" where
  "topology_ok topo \<longleftrightarrow>
     (\<forall>p b q c. topo (p, b) = Some (q, c) \<longrightarrow> topo (q, c) = Some (p, b) \<and> linked p q)"

text \<open>
  The start: \<open>n\<close> acceptors with the given storages, proposers with different ids below
  \<open>MAX_N_OF_PROPOSERS\<close>, new learners, nothing sent.
\<close>

definition deploy_init ::
  "('w \<Rightarrow> bev \<Rightarrow> byte list) \<Rightarrow> ('w \<Rightarrow> bev \<Rightarrow> byte list) \<Rightarrow> topology \<Rightarrow> nat \<Rightarrow> (nat \<Rightarrow> 's) \<Rightarrow> learner \<Rightarrow>
   ('w, 's) deployment \<Rightarrow> bool" where
  "deploy_init inp outp topo n stores l d \<longleftrightarrow>
     (\<forall>p b. inp (dp_world d p) b = [] \<and> outp (dp_world d p) b = []) \<and>
     (\<forall>k a. dp_acceptors d k = Some a \<longrightarrow>
        k < n \<and> receiver_inv (ea_receiver a) \<and> ea_state a = Some \<lparr>acc_store = stores k\<rparr>) \<and>
     (\<forall>k p. dp_proposers d k = Some p \<longrightarrow>
        k < MAX_N_OF_PROPOSERS \<and> ep_state p = proposer_new (int k) n \<and> peers_wired topo k p) \<and>
     (\<forall>k e. dp_learners d k = Some e \<longrightarrow> el_state e = l) \<and>
     (\<forall>e. dp_fed d e = 0) \<and> dp_closed d = {} \<and> dp_submitted d = [] \<and> dp_delivered d = [] \<and> dp_work d = 0"

end
