(* ===== verification/Validity.thy ===== *)
theory Validity
  imports Consensus
begin

text \<open>
  Where the delivered values come from. Proposers hold, and accept requests carry, only values
  that were submitted: a proposer takes a value from its queue, or from a promise, and the value
  of a promise was in an accept request before. With the invariant of \<open>Consensus\<close> the
  delivered values are values of accept requests.
\<close>

section \<open>Submitted values and the values of a proposer\<close>

fun event_values :: "event \<Rightarrow> byte list list" where
  "event_values (EPropose k v n) = [take (unat n) v]"
| "event_values _ = []"

definition submitted_values :: "event list \<Rightarrow> byte list list" where
  "submitted_values es = concat (map event_values es)"

definition inst_from :: "byte list set \<Rightarrow> p_instance \<Rightarrow> bool" where
  "inst_from V x \<longleftrightarrow> (\<forall>v. pi_value x = Some v \<longrightarrow> msg_payload v \<in> V)"

definition values_from :: "byte list set \<Rightarrow> lproposer \<Rightarrow> bool" where
  "values_from V l \<longleftrightarrow> list_all (\<lambda>v. msg_payload v \<in> V) (lp_values l) \<and>
     list_all (inst_from V) (lp_preps l) \<and> list_all (inst_from V) (lp_accs l)"

lemma inst_from_simps [simp]:
  "inst_from V (x\<lparr>pi_quorum := q\<rparr>) = inst_from V x" "inst_from V (x\<lparr>pi_created_at := t\<rparr>) = inst_from V x"
  "inst_from V (x\<lparr>pi_value := Some v\<rparr>) = (msg_payload v \<in> V)" "inst_from V (preempted pid t x) = inst_from V x"
  by (simp_all add: inst_from_def preempted_def)

lemma values_from_mono: "values_from V l \<Longrightarrow> V \<subseteq> V' \<Longrightarrow> values_from V' l"
  unfolding values_from_def inst_from_def list_all_iff by blast

lemma list_all_update: "list_all P xs \<Longrightarrow> P z \<Longrightarrow> list_all P (xs[i := z])"
  using set_update_subset_insert [of xs i z] by (auto simp: list_all_iff)

lemma found_from: "list_all P xs \<Longrightarrow> iid_index j xs = Some i \<Longrightarrow> P (xs ! i)"
  using iid_index_Some(3) by (auto simp: list_all_iff)

lemma promised_from:
  "inst_from V x \<Longrightarrow> (pa_value_size a > 0 \<Longrightarrow> pa_payload a \<in> V) \<Longrightarrow> inst_from V (promised x a)"
  by (auto simp: promised_def inst_from_def adopts_def Let_def msg_payload_def pa_payload_def)

lemma accept_of_payload: "msg_ok v \<Longrightarrow> ar_payload (accept_of x v) = msg_payload v"
  by (simp add: accept_of_def ar_payload_def msg_payload_def msg_ok_def)

text \<open>The operations of the proposer specification make up no values.\<close>

lemma lp_propose_values: "values_from V l \<Longrightarrow> values_from (insert (take (unat n) v) V) (lp_propose l v n)"
  using values_from_mono [of V l "insert (take (unat n) v) V"]
  by (auto simp: values_from_def lp_propose_def msg_payload_def)

lemma lp_prepare_values: "values_from V l \<Longrightarrow> lp_prepare junk now l = (q, l1) \<Longrightarrow> values_from V l1"
  by (auto simp: values_from_def inst_from_def lp_prepare_def Let_def)

lemma lp_promise_values:
  assumes held: "values_from V l" and a: "pa_value_size a > 0 \<Longrightarrow> pa_payload a \<in> V"
    and r: "lp_receive_prepare_ack now l a = (q, l1)"
  shows "values_from V l1"
proof (cases "iid_index (pa_iid a) (lp_preps l)")
  case (Some i)
  note H = held [unfolded values_from_def]
  have x: "inst_from V (lp_preps l ! i)" using found_from [OF _ Some] H by blast
  then have old: "list_all (\<lambda>v. msg_payload v \<in> V)
      (case pi_value (lp_preps l ! i) of Some w \<Rightarrow> if c then [w] else [] | None \<Rightarrow> [])" for c
    by (simp add: inst_from_def split: option.split)
  have l1: "l1 = snd (lp_receive_prepare_ack now l a)" by (simp add: r)
  show ?thesis
    using H old promised_from [OF x a] x
    by (simp add: l1 lp_receive_prepare_ack_def Some Let_def values_from_def list_all_update)
qed (use held r in \<open>simp add: lp_receive_prepare_ack_def\<close>)

lemma lp_accept_values:
  assumes held: "values_from V l" and inv: "lp_inv n l" and r: "lp_accept l = (Some q, l1)"
  shows "values_from V l1 \<and> ar_payload q \<in> V"
proof (rule lp_accept_cases [OF r inv])
  fix x rest v vs
  assume x: "lp_preps l = x # rest" "q = accept_of x v"
      "l1 = l\<lparr>lp_preps := rest, lp_values := vs, lp_accs := lp_accs l @
        [x\<lparr>pi_value := Some v, pi_quorum := q_clear (pi_quorum x)\<rparr>]\<rparr>"
      "set vs \<subseteq> set (lp_values l)" "msg_ok v" "pi_value x = Some v \<or> pi_value x = None \<and> v \<in> set (lp_values l)"
  note H = held [unfolded values_from_def]
  have v: "msg_payload v \<in> V" using x(1,6) H by (auto simp: inst_from_def list_all_iff)
  have "list_all (\<lambda>v. msg_payload v \<in> V) vs" using x(4) H by (auto simp: list_all_iff)
  with v x(1) H show ?thesis by (simp add: x(2,3) accept_of_payload [OF x(5)] values_from_def)
qed

lemma lp_accepted_values:
  assumes held: "values_from V l" and r: "lp_receive_accept_ack now l a = (q, l1)"
  shows "values_from V l1"
proof (cases "iid_index (aa_iid a) (lp_accs l)")
  case (Some i)
  note H = held [unfolded values_from_def]
  have x: "inst_from V (lp_accs l ! i)" using found_from [OF _ Some] H by blast
  have rest: "list_all (inst_from V) (without_iid j (lp_accs l))" for j
    using H by (auto simp: without_iid_def list_all_iff)
  have l1: "l1 = snd (lp_receive_accept_ack now l a)" by (simp add: r)
  show ?thesis
    using H rest x by (simp add: l1 lp_receive_accept_ack_def Some Let_def values_from_def list_all_update)
qed (use held r in \<open>simp add: lp_receive_accept_ack_def\<close>)

lemma touched_from: "list_all (inst_from V) xs \<Longrightarrow> m < length xs \<Longrightarrow> list_all (inst_from V) (touched t m xs)"
  unfolding touched_def by (rule list_all_update) (auto simp: list_all_length)

lemma touched_values:
  assumes "values_from V l"
  shows "m < length (lp_preps l) \<Longrightarrow> values_from V (l\<lparr>lp_preps := touched t m (lp_preps l)\<rparr>)"
    "m < length (lp_accs l) \<Longrightarrow> values_from V (l\<lparr>lp_accs := touched t m (lp_accs l)\<rparr>)"
  using assms by (simp_all add: values_from_def touched_from)

section \<open>The invariant\<close>

definition values_ok :: "byte list set \<Rightarrow> 's system \<Rightarrow> bool" where
  "values_ok V s \<longleftrightarrow> (\<forall>q. MAccept q \<in> set (sys_net s) \<longrightarrow> ar_payload q \<in> V) \<and>
     (\<forall>pid p. sys_proposers s pid = Some p \<longrightarrow> values_from V (lists_of p))"

lemma values_okD:
  assumes "values_ok V s"
  shows "MAccept q \<in> set (sys_net s) \<Longrightarrow> ar_payload q \<in> V"
    "sys_proposers s pid = Some p \<Longrightarrow> values_from V (lists_of p)"
    "proposed_in (sys_net s) i b v \<Longrightarrow> v \<in> V"
  using assms unfolding values_ok_def proposed_in_def by blast+

lemma values_ok_mono: "values_ok V s \<Longrightarrow> V \<subseteq> V' \<Longrightarrow> values_ok V' s"
  unfolding values_ok_def using values_from_mono by blast

lemma with_proposer_values:
  assumes ok: "values_ok V s" and sub: "V \<subseteq> V'"
    and step: "\<And>p ms p1. sys_proposers s pid = Some p \<Longrightarrow> f p = Ok (ms, p1) \<Longrightarrow>
      values_from V' (lists_of p1) \<and> (\<forall>q. MAccept q \<in> set ms \<longrightarrow> ar_payload q \<in> V')"
  shows "values_ok V' (with_proposer pid f s)"
  using values_ok_mono [OF ok sub] step
  unfolding with_proposer_def values_ok_def
  by (auto split: option.splits sum.splits)

lemma no_new_accepts:
  assumes "values_ok V s"
    and "\<And>a ms a1. f a = Ok (ms, a1) \<Longrightarrow> (\<forall>q. MAccept q \<notin> set ms)"
  shows "values_ok V (with_acceptor k f s)"
  using assms unfolding with_acceptor_def values_ok_def
  by (auto split: option.splits sum.splits)

lemma with_learner_values: "values_ok V s \<Longrightarrow> values_ok V (with_learner k g s)"
  unfolding with_learner_def values_ok_def by (auto split: option.splits sum.splits)

lemma prepares_no_accept: "MAccept q \<notin> set (prepares r)"
  by (simp add: prepares_def split: option.split)

context record_store
begin

lemma step_propose_values:
  assumes good: "sys_good n w k s" and ok: "values_ok V s"
  shows "values_ok (insert (take (unat m) v) V) (with_proposer pid (call_propose v m) s)"
proof (rule with_proposer_values [OF ok subset_insertI])
  fix p ms p1 assume p: "sys_proposers s pid = Some p" and "call_propose v m p = Ok (ms, p1)"
  then have c: "proposer_propose p v m = Ok p1" "ms = []" by (auto simp: call_propose_def res_simps)
  then have "unat m \<le> length v"
    by (auto simp: proposer_propose_def wrap_value_def res_simps split: if_splits)
  from proposer_propose_refines [OF proposer_of_good(3) [OF good p] this] c lp_propose_values [OF values_okD(2) [OF ok p]]
  show "values_from (insert (take (unat m) v) V) (lists_of p1) \<and>
      (\<forall>q. MAccept q \<in> set ms \<longrightarrow> ar_payload q \<in> insert (take (unat m) v) V)"
    by auto
qed

text \<open>Calls that send prepare requests only.\<close>

lemma with_preparer_values:
  assumes ok: "values_ok V s"
    and step: "\<And>p ms p1. sys_proposers s pid = Some p \<Longrightarrow> f p = Ok (ms, p1) \<Longrightarrow>
      values_from V (lists_of p1) \<and> (\<exists>r. ms = prepares r)"
  shows "values_ok V (with_proposer pid f s)"
  by (rule with_proposer_values [OF ok subset_refl]) (use step prepares_no_accept in fastforce)

lemma step_prepare_values:
  assumes good: "sys_good n w k s" and ok: "values_ok V s"
  shows "values_ok V (with_proposer pid (call_prepare junk now) s)"
proof (rule with_preparer_values [OF ok])
  fix p ms p1 assume p: "sys_proposers s pid = Some p" and "call_prepare junk now p = Ok (ms, p1)"
  then obtain q where c: "proposer_prepare junk now p = Ok (q, p1)" "ms = prepares (Some q)"
    by (auto simp: call_prepare_def prepares_def res_simps)
  with proposer_prepare_refines [OF proposer_of_good(2) [OF good p], of junk now]
  have "lp_prepare junk now (lists_of p) = (q, lists_of p1)" by (auto simp: implements_def)
  from lp_prepare_values [OF values_okD(2) [OF ok p] this] c(2)
  show "values_from V (lists_of p1) \<and> (\<exists>r. ms = prepares r)" by blast
qed

lemma step_promise_values:
  assumes good: "sys_good n w k s" and ok: "values_ok V s" and net: "MPromise a \<in> set (sys_net s)"
  shows "values_ok V (with_proposer pid (call_promise now a) s)"
proof (rule with_preparer_values [OF ok])
  fix p ms p1 assume p: "sys_proposers s pid = Some p" and "call_promise now a p = Ok (ms, p1)"
  then obtain q where c: "proposer_receive_prepare_ack now p a = Ok (q, p1)" "ms = prepares q"
    by (auto simp: call_promise_def res_simps)
  have a: "promise_ok n (safe s) (proposed_in (sys_net s)) a" using sys_goodD(1) [OF good net] by simp
  then have "pa_payload a \<in> V" if "pa_value_size a > 0"
    using that values_okD(3) [OF ok, of "pa_iid a" "pa_value_ballot a"] by (auto simp: promise_ok_def split: if_splits)
  moreover have "lp_receive_prepare_ack now (lists_of p) a = (q, lists_of p1)"
    using proposer_receive_prepare_ack_refines [OF proposer_of_good(2) [OF good p], of a now] a c(1)
    by (auto simp: implements_def promise_ok_def)
  ultimately show "values_from V (lists_of p1) \<and> (\<exists>r. ms = prepares r)"
    using lp_promise_values [OF values_okD(2) [OF ok p]] c(2) by blast
qed

lemma step_accepted_values:
  assumes good: "sys_good n w k s" and ok: "values_ok V s"
    and net: "MAccepted r \<in> set (sys_net s) \<or> MNack r \<in> set (sys_net s)"
  shows "values_ok V (with_proposer pid (call_accepted now r) s)"
proof (rule with_preparer_values [OF ok])
  fix p ms p1 assume p: "sys_proposers s pid = Some p" and "call_accepted now r p = Ok (ms, p1)"
  then obtain q where c: "proposer_receive_accept_ack now p r = Ok (q, p1)" "ms = prepares q"
    by (auto simp: call_accepted_def res_simps)
  have "0 \<le> aa_acceptor_id r" "aa_acceptor_id r < int n"
    using net sys_goodD(1) [OF good, of "MAccepted r"] sys_goodD(1) [OF good, of "MNack r"]
    by (auto simp: accepted_ok_def)
  from proposer_receive_accept_ack_refines [OF proposer_of_good(2) [OF good p] this c(1)] c(1)
  have "lp_receive_accept_ack now (lists_of p) r = (q, lists_of p1)" by (auto simp: implements_def)
  from lp_accepted_values [OF values_okD(2) [OF ok p] this] c(2)
  show "values_from V (lists_of p1) \<and> (\<exists>r. ms = prepares r)" by blast
qed

lemma step_timeout_prepare_values:
  assumes good: "sys_good n w k s" and ok: "values_ok V s"
  shows "values_ok V (with_proposer pid (call_timeout_prepare cfg it) s)"
proof (rule with_preparer_values [OF ok])
  fix p ms p1 assume p: "sys_proposers s pid = Some p" and "call_timeout_prepare cfg it p = Ok (ms, p1)"
  then obtain q it1 where c: "timeout_iterator_prepare cfg it p = Ok (q, it1, p1)" "ms = prepares q"
    by (auto simp: call_timeout_prepare_def res_simps)
  note held = values_okD(2) [OF ok p]
  from timeout_iterator_prepare_Ok [OF proposer_of_good(2) [OF good p] c(1)] held touched_values(1) [OF held] c(2)
  show "values_from V (lists_of p1) \<and> (\<exists>r. ms = prepares r)" by auto
qed

text \<open>Calls that send accept requests.\<close>

lemma with_sender_values:
  assumes ok: "values_ok V s"
    and step: "\<And>p ms p1. sys_proposers s pid = Some p \<Longrightarrow> f p = Ok (ms, p1) \<Longrightarrow>
      \<exists>r. ms = accepts r \<and> values_from V (lists_of p1) \<and> (\<forall>q. r = Some q \<longrightarrow> ar_payload q \<in> V)"
  shows "values_ok V (with_proposer pid f s)"
proof (rule with_proposer_values [OF ok subset_refl])
  fix p ms p1 assume "sys_proposers s pid = Some p" "f p = Ok (ms, p1)"
  from step [OF this] show "values_from V (lists_of p1) \<and> (\<forall>q. MAccept q \<in> set ms \<longrightarrow> ar_payload q \<in> V)"
    by (auto simp: accepts_def split: option.splits)
qed

lemma step_accept_values:
  assumes good: "sys_good n w k s" and ok: "values_ok V s"
  shows "values_ok V (with_proposer pid call_accept s)"
proof (rule with_sender_values [OF ok])
  fix p ms p1 assume p: "sys_proposers s pid = Some p" and "call_accept p = Ok (ms, p1)"
  then obtain r where c: "proposer_accept p = Ok (r, p1)" "ms = accepts r"
    by (auto simp: call_accept_def res_simps)
  note P = proposer_of_good [OF good p] and held = values_okD(2) [OF ok p]
  from proposer_accept_refines [OF P(2)] c(1) have R: "lp_accept (lists_of p) = (r, lists_of p1)"
    by (auto simp: implements_def)
  have "values_from V (lists_of p1) \<and> (\<forall>q. r = Some q \<longrightarrow> ar_payload q \<in> V)"
    using R lp_accept_None [of "lists_of p" "lists_of p1"] held lp_accept_values [OF held lp_goodD(1) [OF P(1)]]
    by (cases r) auto
  with c(2) show "\<exists>r. ms = accepts r \<and> values_from V (lists_of p1) \<and> (\<forall>q. r = Some q \<longrightarrow> ar_payload q \<in> V)"
    by blast
qed

lemma step_timeout_accept_values:
  assumes good: "sys_good n w k s" and ok: "values_ok V s"
  shows "values_ok V (with_proposer pid (call_timeout_accept cfg it) s)"
proof (rule with_sender_values [OF ok])
  fix p ms p1 assume p: "sys_proposers s pid = Some p" and "call_timeout_accept cfg it p = Ok (ms, p1)"
  then obtain r it1 where c: "timeout_iterator_accept cfg it p = Ok (r, it1, p1)" "ms = accepts r"
    by (auto simp: call_timeout_accept_def res_simps)
  note P = proposer_of_good [OF good p] and held = values_okD(2) [OF ok p]
  note T = timeout_iterator_accept_Ok [OF P(2) c(1)]
  then have "values_from V (lists_of p1)" using held touched_values(2) [OF held] by auto
  moreover have "ar_payload ar \<in> V" if "r = Some ar" for ar
  proof -
    from T that obtain j x where x: "j < length (lp_accs (lists_of p))" "pi_value (lp_accs (lists_of p) ! j) = Some x"
      "ar = accept_of (lp_accs (lists_of p) ! j) x" by auto
    from accept_again_ok(2,3) [OF good nth_mem [OF x(1)] x(2) P(1)] values_okD(3) [OF ok] x(3)
    show ?thesis by simp
  qed
  ultimately show "\<exists>r. ms = accepts r \<and> values_from V (lists_of p1) \<and> (\<forall>q. r = Some q \<longrightarrow> ar_payload q \<in> V)"
    using c(2) by blast
qed

section \<open>Runs\<close>

lemma step_acceptor_values:
  assumes "values_ok V s"
  shows "values_ok V (with_acceptor j (call_acceptor_prepare ops pr) s)"
    "values_ok V (with_acceptor j (call_acceptor_accept ops ar) s)"
    "values_ok V (with_acceptor j (call_acceptor_repeat ops i) s)"
  by (rule no_new_accepts [OF assms];
      auto simp: call_acceptor_prepare_def call_acceptor_accept_def call_acceptor_repeat_def res_simps
        split: option.splits if_splits)+

lemma sys_step_values:
  assumes good: "sys_good n w k s" and ok: "values_ok V s"
  shows "values_ok (set (event_values e) \<union> V) (sys_step ops e s)"
proof -
  have "values_ok V (s\<lparr>sys_proposers := (sys_proposers s)(j := None)\<rparr>)"
    "values_ok V (s\<lparr>sys_acceptors := A\<rparr>)" "values_ok V (s\<lparr>sys_learners := L\<rparr>)" for j A L
    using ok by (auto simp: values_ok_def)
  then show ?thesis
    by (cases e) (simp_all add: if_sent_def ok step_propose_values [OF good ok] step_prepare_values [OF good ok]
        step_promise_values [OF good ok] step_accept_values [OF good ok] step_accepted_values [OF good ok]
        step_timeout_prepare_values [OF good ok] step_timeout_accept_values [OF good ok]
        step_acceptor_values [OF ok] with_learner_values [OF ok])
qed

lemma sys_run_values:
  assumes "sys_good n w k s" "values_ok V s" "run_ok ops es s" "k + length es \<le> step_limit"
    "k + length es + w + 1 < 2 ^ 31"
  shows "values_ok (set (submitted_values es) \<union> V) (sys_run ops es s)"
  using assms
proof (induction es arbitrary: k s V)
  case (Cons e es)
  have "sys_good n w (Suc k) (sys_step ops e s)"
    using Cons.prems by (intro sys_step_good) simp_all
  from Cons.IH [OF this sys_step_values [OF Cons.prems(1,2)]] Cons.prems(3-5)
  show ?case by (simp add: submitted_values_def Un_assoc Un_left_commute)
qed (simp add: submitted_values_def)

lemma init_values: "values_ok {} (sys_init n stores l)"
  by (auto simp: values_ok_def sys_init_def values_from_def proposer_new_def split: if_splits)

lemma delivered_values:
  assumes good: "sys_good n w k s" and ok: "values_ok V s" and d: "(j, d) \<in> set (sys_delivered s)"
  shows "aa_payload d \<in> V"
proof -
  from sys_goodD(6) [OF good d] obtain r where r: "MAccepted r \<in> set (sys_net s)" "d = trunc_ack r"
    by (auto simp: closed_by_def accepted_in_def)
  with sys_goodD(1) [OF good r(1)] have "proposed_in (sys_net s) (aa_iid r) (aa_ballot r) (aa_payload d)"
    by (simp add: accepted_ok_def)
  from values_okD(3) [OF ok this] show ?thesis .
qed

theorem run_validity:
  assumes n: "0 < n" and l: "learner_inv n w {} l"
    and stores: "\<And>a. a < n \<Longrightarrow> store_ok (stores a) \<and> owner (stores a) = int a"
    and fresh: "\<And>a i. a < n \<Longrightarrow> i \<noteq> 0 \<Longrightarrow> live (stores a) i \<Longrightarrow> lookup (stores a) i = None"
    and run: "run_ok ops es (sys_init n stores l)" "length es \<le> step_limit"
      "length es + w + 1 < 2 ^ 31"
    and d: "(j, d) \<in> set (sys_delivered (sys_run ops es (sys_init n stores l)))"
  shows "aa_payload d \<in> set (submitted_values es)"
proof -
  have init: "sys_good n w 0 (sys_init n stores l)"
    by (rule sys_init_good [OF n l stores fresh]) simp_all
  have "sys_good n w (length es) (sys_run ops es (sys_init n stores l))"
    using sys_run_good [OF init run(1)] run(2,3) by simp
  moreover have "values_ok (set (submitted_values es)) (sys_run ops es (sys_init n stores l))"
    using sys_run_values [OF init init_values run(1)] run(2,3) by simp
  ultimately show ?thesis using d by (rule delivered_values)
qed

end

end
