(* ===== verification/Deployment_Run.thy ===== *)
theory Deployment_Run
  imports Deployment Validity
begin

text \<open>
  A run of a deployment is a run of the system: every connection carries whole messages of the
  network of the system, in order, and every message a process handles is an event of the system.
\<close>

section \<open>Streams of messages\<close>

type_synonym item = "paxos_msg_code \<times> byte list"

definition stream :: "item list \<Rightarrow> byte list" where
  "stream items = concat (map (\<lambda>(c, body). frame c body) items)"

lemma stream_simps [simp]:
  "stream [] = []" "stream ((c, body) # items) = frame c body @ stream items"
  "stream (xs @ ys) = stream xs @ stream ys"
  by (simp_all add: stream_def)

text \<open>What each kind of process sends to the others; clients send values from the set \<open>V\<close>.\<close>

fun link_message :: "process \<Rightarrow> process \<Rightarrow> message \<Rightarrow> bool" where
  "link_message (ProposerProc k) (AcceptorProc j) m = is_request m"
| "link_message (AcceptorProc k) (ProposerProc j) m = (\<not> is_request m)"
| "link_message (AcceptorProc k) (LearnerProc j) (MAccepted aa) = True"
| "link_message p q m = False"

fun link_submit :: "process \<Rightarrow> process \<Rightarrow> bool" where
  "link_submit (ClientProc k) (ProposerProc j) = True"
| "link_submit p q = False"

definition item_ok :: "byte list set \<Rightarrow> process \<Rightarrow> process \<Rightarrow> message list \<Rightarrow> item \<Rightarrow> bool" where
  "item_ok V p q net x \<longleftrightarrow> 0 < length (snd x) \<and> length (snd x) < 2 ^ 63 \<and>
     (fst x = submit \<and> link_submit p q \<and> snd x \<in> V \<or>
      (\<exists>m \<in> set net. link_message p q m \<and> fst x = wire_code m \<and> read_as (snd x) m))"

definition carries :: "byte list set \<Rightarrow> process \<Rightarrow> process \<Rightarrow> message list \<Rightarrow> byte list \<Rightarrow> bool" where
  "carries V p q net bytes \<longleftrightarrow> (\<exists>items. bytes = stream items \<and> list_all (item_ok V p q net) items)"

lemma item_ok_mono: "item_ok V p q net x \<Longrightarrow> set net \<subseteq> set net1 \<Longrightarrow> item_ok V p q net1 x"
  by (auto simp: item_ok_def)

lemma carries_mono: "carries V p q net bytes \<Longrightarrow> set net \<subseteq> set net1 \<Longrightarrow> carries V p q net1 bytes"
  unfolding carries_def
  by (elim exE conjE, intro exI conjI, assumption) (auto simp: list_all_iff intro: item_ok_mono)

lemma carries_Nil [simp]: "carries V p q net []"
  by (auto simp: carries_def intro: exI [of _ "[]"])

lemma carries_append: "carries V p q net xs \<Longrightarrow> carries V p q net ys \<Longrightarrow> carries V p q net (xs @ ys)"
  unfolding carries_def by (metis list_all_append stream_simps(3))

lemma carries_frame: "item_ok V p q net (c, body) \<Longrightarrow> carries V p q net (frame c body)"
  unfolding carries_def by (intro exI [of _ "[(c, body)]"]) simp

lemma carries_repeat: "carries V p q net bytes \<Longrightarrow> carries V p q net (concat (replicate k bytes))"
  by (induction k) (simp_all add: carries_append)

lemma carries_Cons:
  assumes "carries V p q net bytes" "bytes \<noteq> []"
  shows "\<exists>c body rest. bytes = frame c body @ rest \<and> item_ok V p q net (c, body) \<and> carries V p q net rest"
proof -
  from assms(1) obtain items where "bytes = stream items" "list_all (item_ok V p q net) items"
    by (auto simp: carries_def)
  with assms(2) obtain c body rest where
    "bytes = frame c body @ stream rest" "item_ok V p q net (c, body)" "list_all (item_ok V p q net) rest"
    by (cases items) auto
  then show ?thesis unfolding carries_def by blast
qed

text \<open>Counting messages.\<close>

lemma frames_in_frame:
  assumes "length body < 2 ^ 64"
  shows "frames_in (frame c body @ rest) = Suc (frames_in rest)"
proof -
  have u: "unat (of_nat (length body) :: size_t) = length body" using assms by (simp add: unat_of_nat)
  have t: "take sizeof_paxos_msg (frame c body @ rest) = add_paxos_header c (of_nat (length body))"
    by (simp add: frame_def)
  have h: "read_header (add_paxos_header c (of_nat (length body))) = (of_nat (length body), Some c)"
    using read_header_add [of c "of_nat (length body)" "[]"] by simp
  have "\<not> length (frame c body @ rest) < sizeof_paxos_msg" by (simp add: frame_def)
  then have "frames_in (frame c body @ rest) = Suc (frames_in (drop (sizeof_paxos_msg + length body) (frame c body @ rest)))"
    by (subst frames_in.simps) (simp only: t h u fst_conv if_False)
  then show ?thesis by (simp add: frame_def)
qed

lemma frames_in_repeat:
  assumes "length body < 2 ^ 64"
  shows "frames_in (concat (replicate k (frame c body)) @ rest) = k + frames_in rest"
  by (induction k) (simp_all add: frames_in_frame [OF assms])

lemma frames_in_written:
  assumes "list_all (\<lambda>bs. \<exists>c body. bs = frame c body \<and> length body < 2 ^ 64) msgs"
  shows "frames_in (concat (map (\<lambda>m. concat (replicate k m)) msgs)) = k * length msgs"
  using assms
proof (induction msgs)
  case Nil
  show ?case by (subst frames_in.simps) (simp add: sizeof_defs)
next
  case (Cons bs msgs)
  then obtain c body where "bs = frame c body" "length body < 2 ^ 64" by auto
  with Cons show ?case by (simp add: frames_in_repeat)
qed

section \<open>Connections\<close>

text \<open>
  \<open>I\<close> and \<open>out\<close> are the input and the output of all endpoints. What was written to a connection
  carries messages, what has arrived is a part of it, and what is not yet read, together with what
  is still on the way, carries messages.
\<close>

definition link_ok ::
  "byte list set \<Rightarrow> message list \<Rightarrow> (process \<Rightarrow> bev \<Rightarrow> byte list) \<Rightarrow> (process \<Rightarrow> bev \<Rightarrow> byte list) \<Rightarrow> (endpoint \<Rightarrow> nat) \<Rightarrow>
   endpoint set \<Rightarrow> process \<Rightarrow> bev \<Rightarrow> process \<Rightarrow> bev \<Rightarrow> bool" where
  "link_ok V net I out fed C p b q c \<longleftrightarrow>
     carries V p q net (out p b) \<and> fed (p, b) \<le> length (out q c) \<and>
     ((p, b) \<notin> C \<longrightarrow> (\<exists>pre. take (fed (p, b)) (out q c) = pre @ I p b) \<and>
        carries V q p net (I p b @ drop (fed (p, b)) (out q c)))"

definition links_ok ::
  "byte list set \<Rightarrow> topology \<Rightarrow> message list \<Rightarrow> (process \<Rightarrow> bev \<Rightarrow> byte list) \<Rightarrow> (process \<Rightarrow> bev \<Rightarrow> byte list) \<Rightarrow>
   (endpoint \<Rightarrow> nat) \<Rightarrow> endpoint set \<Rightarrow> bool" where
  "links_ok V topo net I out fed C \<longleftrightarrow>
     (\<forall>p b. (topo (p, b) = None \<longrightarrow> I p b = []) \<and>
        (\<forall>q c. topo (p, b) = Some (q, c) \<longrightarrow> link_ok V net I out fed C p b q c))"

lemma links_okD:
  assumes "links_ok V topo net I out fed C"
  shows "topo (p, b) = None \<Longrightarrow> I p b = []" "topo (p, b) = Some (q, c) \<Longrightarrow> link_ok V net I out fed C p b q c"
  using assms unfolding links_ok_def by blast+

lemma topology_okD:
  "topology_ok topo \<Longrightarrow> topo (p, b) = Some (q, c) \<Longrightarrow> topo (q, c) = Some (p, b)"
  "topology_ok topo \<Longrightarrow> topo (p, b) = Some (q, c) \<Longrightarrow> linked p q"
  unfolding topology_ok_def by blast+

lemma streams_boundedD:
  "streams_bounded outp topo W \<Longrightarrow> topo (p, b) \<noteq> None \<Longrightarrow> length (outp (W p) b) < 2 ^ 63"
  unfolding streams_bounded_def by blast

lemma linked_irrefl: "\<not> linked p p"
  by (cases p) simp_all

text \<open>One process reads from some of its inputs and writes to some of its outputs.\<close>

lemma links_move:
  assumes ok: "links_ok V topo net I out fed C" and topo: "topology_ok topo" and net: "set net \<subseteq> set net1"
    and out: "\<And>b. \<exists>ext. out1 b = out p b @ ext \<and> (\<forall>q c. topo (p, b) = Some (q, c) \<longrightarrow> carries V p q net1 ext)"
    and inp: "\<And>b. \<exists>gone. I p b = gone @ I1 b"
    and read: "\<And>b q c. topo (p, b) = Some (q, c) \<Longrightarrow> (p, b) \<notin> C \<Longrightarrow> carries V q p net1 (I1 b @ drop (fed (p, b)) (out q c))"
  shows "links_ok V topo net1 (I(p := I1)) (out(p := out1)) fed C"
  unfolding links_ok_def
proof (intro allI conjI impI)
  fix r b
  {
    assume "topo (r, b) = None"
    from links_okD(1) [OF ok this] inp [of b] show "(I(p := I1)) r b = []" by auto
  next
    fix q c assume t: "topo (r, b) = Some (q, c)"
    then have sym: "topo (q, c) = Some (r, b)" and ne: "r \<noteq> q"
      using topology_okD [OF topo t] linked_irrefl by auto
    note L = links_okD(2) [OF ok t, unfolded link_ok_def]
    consider "r = p" | "q = p" "r \<noteq> p" | "r \<noteq> p" "q \<noteq> p" by blast
    then show "link_ok V net1 (I(p := I1)) (out(p := out1)) fed C r b q c"
    proof cases
      case 1
      from out [of b] obtain ext where ext: "out1 b = out p b @ ext" "carries V p q net1 ext" using t 1 by auto
      from inp [of b] obtain gone where gone: "I p b = gone @ I1 b" by blast
      have "\<exists>pre. take (fed (p, b)) (out q c) = pre @ I1 b" if "(p, b) \<notin> C"
      proof -
        from L 1 that obtain pre where "take (fed (p, b)) (out q c) = (pre @ gone) @ I1 b" using gone by auto
        then show ?thesis by blast
      qed
      then show ?thesis
        using L ext 1 ne read [of b q c] t net by (auto simp: link_ok_def intro: carries_append carries_mono)
    next
      case 2
      from out [of c] obtain ext where ext: "out1 c = out p c @ ext" "carries V p r net1 ext" using sym 2 by auto
      have "carries V p r net1 ((I r b @ drop (fed (r, b)) (out p c)) @ ext)" if "(r, b) \<notin> C"
        using L 2 that ext(2) net by (blast intro: carries_append carries_mono)
      then show ?thesis using L ext 2 net by (auto simp: link_ok_def intro: carries_mono)
    next
      case 3
      then show ?thesis using L net by (auto simp: link_ok_def intro: carries_mono)
    qed
  }
qed

text \<open>Connections are closed.\<close>

lemma links_close:
  assumes ok: "links_ok V topo net I out fed C" and C: "C \<subseteq> C1"
    and I1: "\<And>b. I1 b = I p b \<or> (p, b) \<in> C1 \<and> I1 b = []"
  shows "links_ok V topo net (I(p := I1)) out fed C1"
proof -
  have "I1 b = []" if "topo (p, b) = None" for b using links_okD(1) [OF ok that] I1 [of b] by auto
  moreover have "link_ok V net (I(p := I1)) out fed C1 r b q c" if "topo (r, b) = Some (q, c)" for r b q c
    using links_okD(2) [OF ok that] I1 [of b] C by (auto simp: link_ok_def)
  ultimately show ?thesis using links_okD(1) [OF ok] by (simp add: links_ok_def)
qed

text \<open>Bytes arrive.\<close>

lemma links_arrive:
  assumes ok: "links_ok V topo net I out fed C" and t: "topo (p, b) = Some (q, c)" "(p, b) \<notin> C"
    and chunk: "chunk = take n (drop (fed (p, b)) (out q c))"
  shows "links_ok V topo net (I(p := (I p)(b := I p b @ chunk))) out (fed((p, b) := fed (p, b) + length chunk)) C"
proof -
  note L = links_okD(2) [OF ok t(1), unfolded link_ok_def]
  let ?f = "fed (p, b)"
  obtain pre where pre: "take ?f (out q c) = pre @ I p b" using L t(2) by blast
  have len: "?f + length chunk \<le> length (out q c)" using L by (auto simp: chunk)
  have split: "drop ?f (out q c) = chunk @ drop (?f + length chunk) (out q c)"
  proof -
    have "drop (length (take n ys)) ys = drop n ys" for ys :: "byte list" by (cases "n \<le> length ys") simp_all
    from this [of "drop ?f (out q c)"] have "drop n (drop ?f (out q c)) = drop (?f + length chunk) (out q c)"
      by (simp add: chunk add.commute)
    then show ?thesis using append_take_drop_id [of n "drop ?f (out q c)"] by (simp add: chunk)
  qed
  have "take (?f + length chunk) (out q c) = take ?f (out q c) @ take (length chunk) (drop ?f (out q c))"
    by (rule take_add)
  also have "\<dots> = pre @ I p b @ chunk" using pre split by (metis append.assoc append_eq_conv_conj)
  finally have tk: "take (?f + length chunk) (out q c) = pre @ I p b @ chunk" .
  have cr: "carries V q p net ((I p b @ chunk) @ drop (?f + length chunk) (out q c))" using L split t(2) by simp
  have "link_ok V net (I(p := (I p)(b := I p b @ chunk))) out (fed((p, b) := ?f + length chunk)) C p b q c"
    using L len tk cr by (auto simp: link_ok_def)
  with ok t show ?thesis by (auto simp: links_ok_def link_ok_def)
qed

section \<open>The messages of a run\<close>

text \<open>The processes put no more bytes into a message than its size says.\<close>

fun message_short :: "message \<Rightarrow> bool" where
  "message_short (MPrepare pr) = True"
| "message_short (MPromise pa) = (length (pa_value pa) \<le> unat (pa_value_size pa))"
| "message_short (MAccept ar) = ar_complete ar"
| "message_short (MAccepted aa) = (length (aa_value aa) \<le> unat (aa_value_size aa))"
| "message_short (MNack aa) = (length (aa_value aa) \<le> unat (aa_value_size aa))"

lemma trunc_short: "length (aa_payload r) \<le> unat (aa_value_size r)"
  by (simp add: aa_payload_def)

lemma with_proposer_net:
  "list_all P (sys_net s) \<Longrightarrow> (\<And>p ms p1. f p = Ok (ms, p1) \<Longrightarrow> list_all P ms) \<Longrightarrow>
   list_all P (sys_net (with_proposer k f s))"
  by (auto simp: with_proposer_def split: option.split sum.split)

lemma with_acceptor_net:
  "list_all P (sys_net s) \<Longrightarrow> (\<And>a ms a1. f a = Ok (ms, a1) \<Longrightarrow> list_all P ms) \<Longrightarrow>
   list_all P (sys_net (with_acceptor k f s))"
  by (auto simp: with_acceptor_def split: option.split sum.split)

lemma with_learner_net: "sys_net (with_learner k f s) = sys_net s"
  by (auto simp: with_learner_def split: option.split sum.split)

lemma accepts_short:
  assumes "\<And>ar. r = Some ar \<Longrightarrow> \<exists>inst. accept_req_of inst = Ok ar"
  shows "list_all message_short (accepts r)"
proof (cases r)
  case (Some ar)
  with assms [OF Some] show ?thesis by (auto simp: accepts_def dest: accept_req_complete)
qed (simp add: accepts_def)

lemma prepares_short: "list_all message_short (prepares r)"
  by (cases r) (simp_all add: prepares_def)

lemma sys_step_short:
  assumes "list_all message_short (sys_net s)"
  shows "list_all message_short (sys_net (sys_step ops e s))"
proof (cases e)
  case (EAccept k)
  have "list_all message_short ms" if "call_accept p = Ok (ms, p1)" for p ms p1
    using that by (auto simp: call_accept_def res_simps intro!: accepts_short dest: proposer_accept_made)
  with assms EAccept show ?thesis by (auto intro: with_proposer_net)
next
  case (ETimeoutAccept k cfg it)
  have "list_all message_short ms" if "call_timeout_accept cfg it p = Ok (ms, p1)" for p ms p1
    using that by (auto simp: call_timeout_accept_def res_simps intro!: accepts_short dest: timeout_accept_made)
  with assms ETimeoutAccept show ?thesis by (auto intro: with_proposer_net)
next
  case (EAcceptorPrepare k pr)
  have "list_all message_short ms" if "call_acceptor_prepare ops pr a = Ok (ms, a1)" for a ms a1
    using that by (auto simp: call_acceptor_prepare_def res_simps prepare_ack_of_def trunc_short)
  with assms EAcceptorPrepare show ?thesis by (auto simp: if_sent_def intro: with_acceptor_net)
next
  case (EAcceptorAccept k ar)
  have "list_all message_short ms" if "call_acceptor_accept ops ar a = Ok (ms, a1)" for a ms a1
    using that by (auto simp: call_acceptor_accept_def res_simps trunc_ack_def trunc_short)
  with assms EAcceptorAccept show ?thesis by (auto simp: if_sent_def intro: with_acceptor_net)
next
  case (EAcceptorRepeat k i)
  have "list_all message_short ms" if "call_acceptor_repeat ops i a = Ok (ms, a1)" for a ms a1
    using that by (auto simp: call_acceptor_repeat_def res_simps trunc_ack_def trunc_short split: option.splits)
  with assms EAcceptorRepeat show ?thesis by (auto intro: with_acceptor_net)
qed (use assms in \<open>auto simp: if_sent_def with_learner_net call_propose_def call_prepare_def call_promise_def
      call_accepted_def call_timeout_prepare_def prepares_short res_simps intro!: with_proposer_net\<close>)

lemma sys_run_short: "list_all message_short (sys_net s) \<Longrightarrow> list_all message_short (sys_net (sys_run ops es s))"
  by (induction es arbitrary: s) (simp_all add: sys_step_short)

text \<open>A message of the system that could be written is a frame.\<close>

definition message_ids :: "nat \<Rightarrow> message \<Rightarrow> bool" where
  "message_ids n m =
     (case m of
        MPromise pa \<Rightarrow> 0 \<le> pa_acceptor_id pa \<and> pa_acceptor_id pa < int n
      | MAccepted aa \<Rightarrow> 0 \<le> aa_acceptor_id aa \<and> aa_acceptor_id aa < int n \<and> aa_is_final aa = 0
      | MNack aa \<Rightarrow> 0 \<le> aa_acceptor_id aa \<and> aa_acceptor_id aa < int n \<and> aa_is_final aa = 0
      | _ \<Rightarrow> True)"

lemma message_ok_ids: "message_ok n k safe proposed m \<Longrightarrow> message_ids n m"
  by (cases m) (auto simp: message_ids_def promise_ok_def accepted_ok_def)

lemma wire_complete:
  assumes "message_short m" "message_ids n m" "n < 2 ^ 31" "wire pad m = Ok bytes"
  shows "message_shape m"
proof -
  have n: "int n < 2 ^ 31" using assms(3) by simp
  show ?thesis
  proof (cases m)
    case (MPromise pa)
    have "unat (pa_value_size pa) \<le> length (pa_value pa)"
    proof (cases "pa_value_size pa = 0")
      case False
      with assms(4) MPromise show ?thesis
        by (auto simp: sendbuf_add_prepare_ack_def ack_record_def prepare_ack_of_def Let_def value_bytes_def
            aa_payload_def res_simps word_neq_0_conv split: if_splits)
    qed simp
    with assms(1,2) n MPromise show ?thesis by (auto simp: message_ids_def pa_complete_def)
  next
    case (MAccepted aa)
    with assms n show ?thesis
      by (auto simp: message_ids_def ack_shape_def aa_complete_def sendbuf_add_accept_ack_def value_bytes_def
          res_simps split: if_splits)
  next
    case (MNack aa)
    with assms n show ?thesis
      by (auto simp: message_ids_def ack_shape_def aa_complete_def sendbuf_add_accept_ack_def value_bytes_def
          res_simps split: if_splits)
  qed (use assms in simp_all)
qed

lemma wire_item:
  assumes "message_short m" "message_ids n m" "n < 2 ^ 31" "wire pad m = Ok bytes" "length pad = 6"
    and "m \<in> set net" "link_message p q m" "length bytes < 2 ^ 63"
  shows "carries V p q net bytes"
proof -
  note W = wire_shape [OF wire_complete [OF assms(1-4)] assms(5)]
  then have b: "bytes = frame (wire_code m) (wire_body pad m)" using assms(4) by simp
  have "length (wire_body pad m) < 2 ^ 63" using assms(8) unfolding b by (simp add: frame_def)
  with W assms(6,7) have "item_ok V p q net (wire_code m, wire_body pad m)" by (auto simp: item_ok_def)
  then show ?thesis unfolding b by (rule carries_frame)
qed

section \<open>Every step is a run of the system\<close>

definition deploy_sim ::
  "byte list set \<Rightarrow> ('w \<Rightarrow> bev \<Rightarrow> byte list) \<Rightarrow> ('w \<Rightarrow> bev \<Rightarrow> byte list) \<Rightarrow> topology \<Rightarrow> ('w, 's) deployment \<Rightarrow> 's system \<Rightarrow> bool" where
  "deploy_sim V inp outp topo d s \<longleftrightarrow>
     (\<forall>k a. dp_acceptors d k = Some a \<longrightarrow>
        receiver_inv (ea_receiver a) \<and> ea_state a \<noteq> None \<and> sys_acceptors s k = ea_state a) \<and>
     (\<forall>k p. dp_proposers d k = Some p \<longrightarrow> peers_wired topo k p \<and> sys_proposers s k = Some (ep_state p)) \<and>
     (\<forall>k l. dp_learners d k = Some l \<longrightarrow> sys_learners s k = Some (el_state l)) \<and>
     dp_delivered d = map (\<lambda>(k, ack). (k, delivery_of ack)) (sys_delivered s) \<and>
     links_ok V topo (sys_net s) (\<lambda>p. inp (dp_world d p)) (\<lambda>p. outp (dp_world d p)) (dp_fed d) (dp_closed d)"

lemma deploy_simD:
  assumes "deploy_sim V inp outp topo d s"
  shows "dp_acceptors d k = Some a \<Longrightarrow>
      receiver_inv (ea_receiver a) \<and> ea_state a \<noteq> None \<and> sys_acceptors s k = ea_state a"
    "dp_proposers d k = Some p \<Longrightarrow> peers_wired topo k p \<and> sys_proposers s k = Some (ep_state p)"
    "dp_learners d k = Some l \<Longrightarrow> sys_learners s k = Some (el_state l)"
    "dp_delivered d = map (\<lambda>(k, ack). (k, delivery_of ack)) (sys_delivered s)"
    "links_ok V topo (sys_net s) (\<lambda>p. inp (dp_world d p)) (\<lambda>p. outp (dp_world d p)) (dp_fed d) (dp_closed d)"
  using assms unfolding deploy_sim_def by blast+

text \<open>The events of the run submit values from \<open>V\<close> only, and answer no repeat request.\<close>

definition event_from :: "byte list set \<Rightarrow> event \<Rightarrow> bool" where
  "event_from V e \<longleftrightarrow> plain_event e \<and> set (event_values e) \<subseteq> V"

lemma events_fromD:
  "list_all (event_from V) es \<Longrightarrow> list_all plain_event es \<and> set (submitted_values es) \<subseteq> V"
  by (induction es) (auto simp: event_from_def submitted_values_def)

text \<open>In the next \<open>m\<close> events the messages of the system stay in the ranges of their C types.\<close>

definition messages_in_range :: "'s storage_ops \<Rightarrow> nat \<Rightarrow> nat \<Rightarrow> 's system \<Rightarrow> bool" where
  "messages_in_range ops n m s \<longleftrightarrow>
     (\<forall>es. list_all plain_event es \<longrightarrow> length es \<le> m \<longrightarrow>
        (\<forall>x \<in> set (sys_net (sys_run ops es s)). message_ids n x \<and> message_short x))"

lemma messages_in_rangeD:
  "messages_in_range ops n m s \<Longrightarrow> list_all plain_event es \<Longrightarrow> length es \<le> m \<Longrightarrow>
   \<forall>x \<in> set (sys_net (sys_run ops es s)). message_ids n x \<and> message_short x"
  unfolding messages_in_range_def by blast

context evbuffers
begin

text \<open>A process whose loop goes on has a message of the system at the front of the connection.\<close>

lemma ready_item:
  assumes ok: "links_ok V topo net (\<lambda>p. inp (W p)) (\<lambda>p. outp (W p)) fed C"
    and topo: "topology_ok topo" and len: "streams_bounded outp topo W"
    and ready: "(p, b) \<notin> C" "msg_ready ev (W p) b"
  shows "\<exists>q c code body tail. topo (p, b) = Some (q, c) \<and> inp (W p) b = frame code body @ tail \<and>
    item_ok V q p net (code, body) \<and> carries V q p net (tail @ drop (fed (p, b)) (outp (W q) c))"
proof -
  have "0 < length (inp (W p) b)" using ready(2) by (auto simp: msg_ready_def get_length)
  then have ne: "inp (W p) b \<noteq> []" by simp
  with links_okD(1) [OF ok] obtain q c where t: "topo (p, b) = Some (q, c)" by force
  note L = links_okD(2) [OF ok t, unfolded link_ok_def]
  have "(p, b) \<notin> C" by (rule ready(1))
  with L have L: "\<exists>pre. take (fed (p, b)) (outp (W q) c) = pre @ inp (W p) b"
    "carries V q p net (inp (W p) b @ drop (fed (p, b)) (outp (W q) c))" by simp_all
  let ?rest = "drop (fed (p, b)) (outp (W q) c)"
  from L(2) carries_Cons [of V q p net "inp (W p) b @ ?rest"] ne obtain code body others where
    f: "inp (W p) b @ ?rest = frame code body @ others" "item_ok V q p net (code, body)" "carries V q p net others"
    by auto
  from L(1) obtain pre where "take (fed (p, b)) (outp (W q) c) = pre @ inp (W p) b" by blast
  then have "length (pre @ inp (W p) b) \<le> length (outp (W q) c)" by (metis length_take min.cobounded1)
  moreover have "topo (q, c) \<noteq> None" using topology_okD(1) [OF topo t] by simp
  ultimately have l: "length (inp (W p) b) < 2 ^ 64" using streams_boundedD [OF len, of q c] by simp
  have "length body + 12 < 2 ^ 64" using f(2) by (simp add: item_ok_def)
  from ready_frame [OF ready(2) f(1) l this] f t show ?thesis by blast
qed

text \<open>A process handles the message at the front of a connection and writes to connections.\<close>

lemma links_read:
  assumes ok: "links_ok V topo net (\<lambda>p. inp (W p)) (\<lambda>p. outp (W p)) fed C"
    and topo: "topology_ok topo" and net: "set net \<subseteq> set net1"
    and t: "topo (p, b) = Some (q, c)" and front: "inp (W p) b = gone @ tail"
    and tail: "carries V q p net (tail @ drop (fed (p, b)) (outp (W q) c))"
    and inp: "inp w1 = (inp (W p))(b := tail)"
    and out: "\<And>b. \<exists>ext. outp w1 b = outp (W p) b @ ext \<and> (\<forall>q c. topo (p, b) = Some (q, c) \<longrightarrow> carries V p q net1 ext)"
  shows "links_ok V topo net1 (\<lambda>r. inp ((W(p := w1)) r)) (\<lambda>r. outp ((W(p := w1)) r)) fed C"
proof -
  have "links_ok V topo net1 ((\<lambda>r. inp (W r))(p := inp w1)) ((\<lambda>r. outp (W r))(p := outp w1)) fed C"
  proof (rule links_move [OF ok topo net out])
    fix b' q' c' assume t': "topo (p, b') = Some (q', c')" "(p, b') \<notin> C"
    show "carries V q' p net1 (inp w1 b' @ drop (fed (p, b')) (outp (W q') c'))"
      using links_okD(2) [OF ok t'(1), unfolded link_ok_def] t t' tail net inp
      by (cases "b' = b") (auto intro: carries_mono)
  qed (use front inp in auto)
  then show ?thesis by (simp add: fun_upd_def if_distrib cong: if_cong)
qed

text \<open>A process that only writes.\<close>

lemma links_write:
  assumes ok: "links_ok V topo net (\<lambda>p. inp (W p)) (\<lambda>p. outp (W p)) fed C"
    and topo: "topology_ok topo" and net: "set net \<subseteq> set net1" and inp: "inp w1 = inp (W p)"
    and out: "\<And>b. \<exists>ext. outp w1 b = outp (W p) b @ ext \<and> (\<forall>q c. topo (p, b) = Some (q, c) \<longrightarrow> carries V p q net1 ext)"
  shows "links_ok V topo net1 (\<lambda>r. inp ((W(p := w1)) r)) (\<lambda>r. outp ((W(p := w1)) r)) fed C"
proof -
  have "links_ok V topo net1 ((\<lambda>r. inp (W r))(p := inp w1)) ((\<lambda>r. outp (W r))(p := outp w1)) fed C"
  proof (rule links_move [OF ok topo net out])
    fix b q c assume t: "topo (p, b) = Some (q, c)" "(p, b) \<notin> C"
    from links_okD(2) [OF ok t(1)] t(2) net inp show "carries V q p net1 (inp w1 b @ drop (fed (p, b)) (outp (W q) c))"
      by (auto simp: link_ok_def intro: carries_mono)
  qed (use inp in auto)
  then show ?thesis by (simp add: fun_upd_def if_distrib cong: if_cong)
qed

text \<open>
  So the message is skipped because it is too large, or it is a message of the system that the
  handler takes.
\<close>

lemma ready_cases:
  assumes ok: "links_ok V topo net (\<lambda>p. inp (W p)) (\<lambda>p. outp (W p)) fed C" and topo: "topology_ok topo"
    and len: "streams_bounded outp topo W" and ready: "(p, b) \<notin> C" "msg_ready ev (W p) b"
  obtains (skipped) v where "remove_msg ev b (W p) = (None, v)"
      "links_ok V topo net (\<lambda>r. inp ((W(p := v)) r)) (\<lambda>r. outp ((W(p := v)) r)) fed C"
    | (taken) q c code body tail where "topo (p, b) = Some (q, c)" "inp (W p) b = frame code body @ tail"
      "body_ok body" "item_ok V q p net (code, body)"
      "carries V q p net (tail @ drop (fed (p, b)) (outp (W q) c))"
proof -
  from ready_item [OF ok topo len ready] obtain q c code body tail where
    t: "topo (p, b) = Some (q, c)" and front: "inp (W p) b = frame code body @ tail"
    and item: "item_ok V q p net (code, body)"
    and tail: "carries V q p net (tail @ drop (fed (p, b)) (outp (W q) c))" by blast
  have l: "0 < length body" "length body < 2 ^ 63" using item by (simp_all add: item_ok_def)
  show thesis
  proof (cases "length body \<le> PAXOS_MAX_VALUE_SIZE")
    case True
    with l have "body_ok body" by (auto simp: body_ok_def)
    with t front item tail show thesis by (blast intro: taken)
  next
    case False
    with remove_large [OF front] l obtain v where v: "remove_msg ev b (W p) = (None, v)"
      "inp v = (inp (W p))(b := tail)" "outp v = outp (W p)" by auto
    from links_read [OF ok topo _ t front tail v(2)] v(1,3) show thesis by (intro skipped) auto
  qed
qed

text \<open>Acceptors: a request is answered, a message that is too large is skipped.\<close>

lemma written_ext:
  assumes "appended outp bs bytes w w1" and "\<And>b. topo (p, b) \<noteq> None \<Longrightarrow> length (outp w1 b) < 2 ^ 63"
    and "\<And>b q c. b \<in> set bs \<Longrightarrow> length bytes < 2 ^ 63 \<Longrightarrow> topo (p, b) = Some (q, c) \<Longrightarrow> carries V p q net bytes"
  shows "\<exists>ext. outp w1 b = outp w b @ ext \<and> (\<forall>q c. topo (p, b) = Some (q, c) \<longrightarrow> carries V p q net ext)"
proof (cases "b \<in> set bs \<and> topo (p, b) \<noteq> None")
  case True
  then have "0 < count_list bs b" by (metis count_list_0_iff gr0I)
  then obtain k where k: "count_list bs b = Suc k" by (metis not0_implies_Suc not_gr_zero)
  have o1: "outp w1 b = outp w b @ concat (replicate (count_list bs b) bytes)" using assms(1) by (simp add: written_def)
  with assms(2) [of b] True k have "length bytes < 2 ^ 63" by simp
  with assms(3) [of b] True o1 show ?thesis by (blast intro: carries_repeat)
next
  case False
  have "outp w1 b = outp w b @ concat (replicate (count_list bs b) bytes)" using assms(1) by (simp add: written_def)
  moreover have "count_list bs b = 0" if "topo (p, b) \<noteq> None" using False that by (simp add: count_list_0_iff)
  ultimately show ?thesis by (intro exI [of _ "concat (replicate (count_list bs b) bytes)"]) auto
qed

lemma acceptor_answer_kind:
  assumes "sys_net (sys_step ops e s) = sys_net s @ [m]" "e = EAcceptorPrepare k pr \<or> e = EAcceptorAccept k ar"
  shows "\<not> is_request m"
  using assms
  by (auto simp: if_sent_def with_acceptor_def call_acceptor_prepare_def call_acceptor_accept_def res_simps
      split: if_splits option.splits sum.splits)

lemma acceptor_answer_carries:
  assumes topo: "topology_ok topo" and n: "n < 2 ^ 31" and m: "message_ids n m" "message_short m" "\<not> is_request m" "m \<in> set net"
    and wire: "wire pad m = Ok bytes" "length pad = 6" and e: "e = EAcceptorPrepare k pr \<or> e = EAcceptorAccept k ar"
    and app: "appended outp (answer_to b bs e m) bytes w w1" and t: "topo (p, b) = Some (ProposerProc j, c)"
    and p: "p = AcceptorProc k" and lim: "streams_bounded outp topo (W(p := w1))"
  shows "\<exists>ext. outp w1 b' = outp w b' @ ext \<and> (\<forall>q c. topo (p, b') = Some (q, c) \<longrightarrow> carries V p q net ext)"
proof (rule written_ext [OF app])
  fix b1 q1 c1
  assume mem: "b1 \<in> set (answer_to b bs e m)" and l: "length bytes < 2 ^ 63" and t1: "topo (p, b1) = Some (q1, c1)"
  have "linked p q1" by (rule topology_okD(2) [OF topo t1])
  then have "(\<exists>j. q1 = ProposerProc j) \<or> (\<exists>j. q1 = LearnerProc j)" unfolding p by (cases q1) auto
  moreover have "(\<exists>aa. m = MAccepted aa) \<or> q1 = ProposerProc j" using mem t t1 e by (cases m) auto
  ultimately have "link_message p q1 m" using m(3) by (auto simp: p)
  then show "carries V p q1 net bytes" using wire_item [OF m(2,1) n wire _ _ l] m(4) by simp
qed (use streams_boundedD [OF lim, of p] in simp)

lemma acceptor_message_sim:
  assumes sim: "deploy_sim V inp outp topo d s" and topo: "topology_ok topo" and ps: "payload_storage ops"
    and n: "n < 2 ^ 31" and rng: "messages_in_range ops n 1 s"
    and a: "dp_acceptors d k = Some a" "b \<in> set (clist (tr_bevs (ea_receiver a)))" and p: "p = AcceptorProc k"
    and ready: "(p, b) \<notin> dp_closed d" "msg_ready ev (dp_world d p) b" and pad: "length pad = 6"
    and h: "handle_req ev ops stack pad b (dp_world d p, a) = Ok (w1, a1)"
    and lim: "streams_bounded outp topo (dp_world d)" "streams_bounded outp topo ((dp_world d)(p := w1))"
  shows "\<exists>es. list_all (event_from V) es \<and> length es \<le> 1 \<and>
    deploy_sim V inp outp topo (d\<lparr>dp_world := (dp_world d)(p := w1), dp_acceptors := (dp_acceptors d)(k := Some a1),
      dp_work := x\<rparr>) (sys_run ops es s)"
proof -
  note A = deploy_simD(1) [OF sim a(1)] and links = deploy_simD(5) [OF sim]
  show ?thesis
  proof (cases rule: ready_cases [OF links topo lim(1) ready, case_names skipped taken])
    case (skipped v)
    with h have "w1 = v" "a1 = a" by (simp_all add: handle_req_def)
    with skipped sim a(1) show ?thesis by (intro exI [of _ "[]"]) (auto simp: deploy_sim_def)
  next
    case (taken q c code body tail)
    from taken(4) obtain m j where m: "m \<in> set (sys_net s)" "is_request m" "code = wire_code m" "read_as body m"
      and q: "q = ProposerProc j"
      unfolding item_ok_def p by (cases q) auto
    from m(2) consider pr where "m = MPrepare pr" | ar where "m = MAccept ar" by (cases m) auto
    then obtain e pr ar where e: "acceptor_event k code body = Some e" "request_sent e s" "request_wf code body"
      "e = EAcceptorPrepare k pr \<or> e = EAcceptorAccept k ar" "event_from V e"
      using m by cases (auto simp: acceptor_event_def event_from_def)
    from A obtain st where st: "ea_state a = Some st" "sys_acceptors s k = Some st" by auto
    from handle_req_step [OF h taken(2,3) e(3,1,2) ps st] A a(2) obtain ms where
      step: "sys_step ops e s = s\<lparr>sys_acceptors := (sys_acceptors s)(k := ea_state a1), sys_net := sys_net s @ ms\<rparr>"
      and a1: "a1 = a\<lparr>ea_state := ea_state a1\<rparr>" "ea_state a1 \<noteq> None" and i1: "inp w1 = (inp (dp_world d p))(b := tail)"
      and out: "ms = [] \<and> outp w1 = outp (dp_world d p) \<or> (\<exists>m bytes. ms = [m] \<and> wire pad m = Ok bytes \<and>
        appended outp (answer_to b (clist (tr_bevs (ea_receiver a))) e m) bytes (dp_world d p) w1)"
      by blast
    have net1: "sys_net (sys_step ops e s) = sys_net s @ ms" by (simp add: step)
    have "\<exists>ext. outp w1 b' = outp (dp_world d p) b' @ ext \<and>
        (\<forall>q c. topo (p, b') = Some (q, c) \<longrightarrow> carries V p q (sys_net s @ ms) ext)" for b'
      using out
    proof (elim disjE exE conjE)
      fix m' bytes
      assume m': "ms = [m']" "wire pad m' = Ok bytes"
        and app: "appended outp (answer_to b (clist (tr_bevs (ea_receiver a))) e m') bytes (dp_world d p) w1"
      have kind: "\<not> is_request m'" using acceptor_answer_kind [OF _ e(4), of ops s m'] net1 m'(1) by simp
      have "\<forall>x \<in> set (sys_net (sys_run ops [e] s)). message_ids n x \<and> message_short x"
        by (rule messages_in_rangeD [OF rng]) (use e(5) in \<open>simp_all add: event_from_def\<close>)
      then have rng': "message_ids n m'" "message_short m'" using net1 m'(1) by simp_all
      from acceptor_answer_carries [OF topo n rng' kind _ m'(2) pad e(4) app taken(1) [unfolded q] p lim(2)] m'(1)
      show ?thesis by simp
    qed simp
    then have "links_ok V topo (sys_net s @ ms) (\<lambda>r. inp (((dp_world d)(p := w1)) r)) (\<lambda>r. outp (((dp_world d)(p := w1)) r)) (dp_fed d) (dp_closed d)"
      by (intro links_read [OF links topo _ taken(1,2,5) i1]) simp_all
    moreover have "ea_receiver a1 = ea_receiver a" using a1(1) by (metis evacceptor.surjective evacceptor.update_convs(4) evacceptor.ext_inject)
    ultimately have "deploy_sim V inp outp topo (d\<lparr>dp_world := (dp_world d)(p := w1),
        dp_acceptors := (dp_acceptors d)(k := Some a1), dp_work := x\<rparr>) (sys_run ops [e] s)"
      using sim a1(2) A by (auto simp: deploy_sim_def step)
    with e(5) show ?thesis by (intro exI [of _ "[e]"]) simp
  qed
qed

text \<open>Proposers: what a run of a proposer process writes carries the messages of the run.\<close>

lemma wire_request: "is_request m \<Longrightarrow> wire pad m = wire [] m"
  by (cases m) simp_all

lemma request_frame:
  assumes "is_request m" "wire [] m = Ok bytes" "message_short m" "length bytes < 2 ^ 63"
  shows "\<exists>c body. bytes = frame c body \<and> length body < 2 ^ 64"
    and "m \<in> set net \<Longrightarrow> q = AcceptorProc j \<Longrightarrow> carries V (ProposerProc k) q net bytes"
proof -
  let ?pad = "replicate 6 0"
  have w: "wire ?pad m = Ok bytes" using assms(1,2) wire_request [of m ?pad] by simp
  have ids: "message_ids 0 m" "(0 :: nat) < 2 ^ 31" using assms(1) by (cases m) (simp_all add: message_ids_def)
  from wire_shape [OF wire_complete [OF assms(3) ids w], of ?pad] w assms(4)
  show "\<exists>c body. bytes = frame c body \<and> length body < 2 ^ 64" by (auto simp: frame_def)
  show "carries V (ProposerProc k) q net bytes" if "m \<in> set net" "q = AcceptorProc j"
    using wire_item [OF assms(3) ids w _ that(1) _ assms(4)] assms(1) that(2) by simp
qed

lemma concat_part: "x \<in> set xs \<Longrightarrow> length x \<le> length (concat xs)"
  by (induction xs) auto

lemma process_run_links:
  assumes run: "runs ops k c es s (v, pr) (w1, pr1)" and wired: "peers_wired topo k pr"
    and short: "list_all message_short (sys_net s)" and lim: "streams_bounded outp topo (W(ProposerProc k := w1))"
  shows "\<exists>ms. sys_run ops es s = proposer_sent k (ep_state pr1) ms s \<and>
    length es \<le> c + sent_count outp pr v w1 \<and>
    (\<forall>b. \<exists>ext. outp w1 b = outp v b @ ext \<and>
       (\<forall>q c. topo (ProposerProc k, b) = Some (q, c) \<longrightarrow> carries V (ProposerProc k) q (sys_net s @ ms) ext))"
proof -
  let ?bs = "peers_bevs (ep_acceptors pr)"
  let ?ext = "\<lambda>bytes b. concat (map (\<lambda>m. concat (replicate (count_list ?bs b) m)) bytes)"
  from run obtain ms bytes where ms: "sys_run ops es s = proposer_sent k (ep_state pr1) ms s"
    "length es \<le> length ms + c" "list_all2 (\<lambda>m bs. is_request m \<and> wire [] m = Ok bs) ms bytes"
    and wr: "\<And>b. outp w1 b = outp v b @ ?ext bytes b"
    by (auto simp: process_run_def written_def)
  have small: "length bs < 2 ^ 63" if x: "bs \<in> set bytes" "b \<in> set ?bs" for bs b
  proof -
    obtain j where j: "count_list ?bs b = Suc j" using x(2) by (metis count_list_0_iff not0_implies_Suc)
    have "length bs \<le> length (concat (replicate (count_list ?bs b) bs))" by (simp add: j)
    also have "\<dots> \<le> length (?ext bytes b)" using x(1) by (intro concat_part) simp
    finally show ?thesis using streams_boundedD [OF lim, of "ProposerProc k" b] wr [of b] wired x(2)
      by (fastforce simp: peers_wired_def)
  qed
  have item: "\<exists>m \<in> set ms. is_request m \<and> wire [] m = Ok bs \<and> message_short m" if x: "bs \<in> set bytes" for bs
  proof -
    from x obtain i where i: "i < length bytes" "bs = bytes ! i" by (auto simp: in_set_conv_nth)
    then have "is_request (ms ! i)" "wire [] (ms ! i) = Ok bs" "ms ! i \<in> set ms"
      using ms(3) by (auto simp: list_all2_conv_all_nth)
    with sys_run_short [OF short, of ops es] ms(1) show ?thesis by (auto simp: list_all_iff)
  qed
  have "carries V (ProposerProc k) q (sys_net s @ ms) (?ext bytes b)" if t: "topo (ProposerProc k, b) = Some (q, c)" for b q c
  proof (cases "b \<in> set ?bs")
    case True
    with wired t obtain j where q: "q = AcceptorProc j" unfolding peers_wired_def by force
    have "carries V (ProposerProc k) q (sys_net s @ ms) bs" if bs: "bs \<in> set bytes" for bs
      using item [OF bs] request_frame(2) [OF _ _ _ small [OF bs True] _ q] by auto
    then show ?thesis by (induction bytes) (auto intro: carries_append carries_repeat)
  next
    case False
    then have "?ext bytes b = []" by (auto simp: count_list_0_iff)
    then show ?thesis by (simp only: carries_Nil)
  qed
  moreover have "length ms \<le> sent_count outp pr v w1"
  proof -
    obtain b0 bs where b0: "?bs = b0 # bs" using wired by (cases ?bs) (auto simp: peers_wired_def)
    have "list_all (\<lambda>bs. \<exists>c body. bs = frame c body \<and> length body < 2 ^ 64) bytes"
      unfolding list_all_iff using item request_frame(1) [OF _ _ _ small] b0 by (metis list.set_intros(1))
    from frames_in_written [OF this, of "count_list ?bs b0"] wr [of b0] b0 list_all2_lengthD [OF ms(3)]
    show ?thesis by (simp add: sent_count_def)
  qed
  ultimately show ?thesis using ms wr by (intro exI [of _ ms]) (auto intro!: exI)
qed

lemma peers_wired_same: "pr1 = pr\<lparr>ep_state := st\<rparr> \<Longrightarrow> peers_wired topo k pr1 = peers_wired topo k pr"
  by (simp add: peers_wired_def)

lemma proposer_sim_step:
  assumes sim: "deploy_sim V inp outp topo d s" and pr: "dp_proposers d k = Some pr"
    and run: "sys_run ops es s = proposer_sent k (ep_state pr1) ms s" and same: "pr1 = pr\<lparr>ep_state := ep_state pr1\<rparr>"
    and links: "links_ok V topo (sys_net s @ ms) (\<lambda>r. inp (((dp_world d)(p := w1)) r))
      (\<lambda>r. outp (((dp_world d)(p := w1)) r)) (dp_fed d) (dp_closed d)"
  shows "deploy_sim V inp outp topo (d\<lparr>dp_world := (dp_world d)(p := w1),
    dp_proposers := (dp_proposers d)(k := Some pr1), dp_work := x\<rparr>) (sys_run ops es s)"
proof -
  have "peers_wired topo k pr1" using deploy_simD(2) [OF sim pr] peers_wired_same [OF same] by blast
  with sim links show ?thesis by (auto simp: deploy_sim_def run proposer_sent_def)
qed

lemma proposer_item:
  assumes item: "item_ok V q (ProposerProc k) net (code, body)" and body: "body_ok body" and net: "net = sys_net s"
  shows "\<exists>e. proposer_event k now code body = Some e \<and> answer_sent e s \<and> answer_wf code body \<and> event_from V e"
proof -
  from item consider "code = submit" "0 < length body" "body \<in> V"
    | m where "m \<in> set net" "\<not> is_request m" "code = wire_code m" "read_as body m"
    unfolding item_ok_def by (cases q) auto
  then show ?thesis
  proof cases
    case 1
    have "(of_nat (length body) :: size_t) \<noteq> 0" using body_size(1) [OF body] 1(2) by (metis unat_0 not_gr_zero)
    with 1 body_size(1) [OF body] show ?thesis by (simp add: proposer_event_def answer_wf_def word_gt_0 event_from_def)
  next
    case 2
    from 2(2) consider pa where "m = MPromise pa" | aa where "m = MAccepted aa \<or> m = MNack aa" by (cases m) auto
    then show ?thesis using 2 unfolding net by cases (auto simp: proposer_event_def event_from_def)
  qed
qed

lemma proposer_message_sim:
  assumes sim: "deploy_sim V inp outp topo d s" and topo: "topology_ok topo"
    and short: "list_all message_short (sys_net s)"
    and pr: "dp_proposers d k = Some pr" and p: "p = ProposerProc k"
    and ready: "(p, b) \<notin> dp_closed d" "msg_ready ev (dp_world d p) b"
    and h: "proposer_handle_msg ev junk clock now stack b (dp_world d p, pr) = Ok (w1, pr1)"
    and lim: "streams_bounded outp topo (dp_world d)" "streams_bounded outp topo ((dp_world d)(p := w1))"
  shows "\<exists>es. list_all (event_from V) es \<and> length es \<le> 2 + sent_count outp pr (dp_world d p) w1 \<and>
    deploy_sim V inp outp topo (d\<lparr>dp_world := (dp_world d)(p := w1), dp_proposers := (dp_proposers d)(k := Some pr1),
      dp_work := x\<rparr>) (sys_run ops es s)"
proof -
  note P = deploy_simD(2) [OF sim pr] and links = deploy_simD(5) [OF sim]
  have ps: "peers_ok (ep_acceptors pr)" using P by (simp add: peers_wired_def)
  show ?thesis
  proof (cases rule: ready_cases [OF links topo lim(1) ready, case_names skipped taken])
    case (skipped v)
    with h have "w1 = v" "pr1 = pr" by (simp_all add: proposer_handle_msg_def)
    with skipped sim pr show ?thesis by (intro exI [of _ "[]"]) (auto simp: deploy_sim_def)
  next
    case (taken q c code body tail)
    from proposer_item [OF taken(4) [unfolded p] taken(3) refl, of now] obtain e where
      e: "proposer_event k now code body = Some e" "answer_sent e s" "answer_wf code body" "event_from V e" by blast
    from handle_msg_run [OF h taken(2,3) e(3,1,2) _ ps, of ops] P obtain v j m where
      v: "inp v = (inp (dp_world d p))(b := tail)" "outp v = outp (dp_world d p)" and
      run: "runs ops k 2 (e # replicate (Suc j) (EAccept k) @ map (\<lambda>i. EPrepare k (junk i) (clock i)) [0..<m]) s (v, pr) (w1, pr1)"
      (is "runs ops k 2 ?es s _ _")
      by blast
    from process_run_links [OF run P [THEN conjunct1] short lim(2) [unfolded p]] obtain ms where
      ms: "sys_run ops ?es s = proposer_sent k (ep_state pr1) ms s" "length ?es \<le> 2 + sent_count outp pr v w1"
      "\<And>b. \<exists>ext. outp w1 b = outp v b @ ext \<and>
         (\<forall>q c. topo (ProposerProc k, b) = Some (q, c) \<longrightarrow> carries V (ProposerProc k) q (sys_net s @ ms) ext)"
      by blast
    have same: "pr1 = pr\<lparr>ep_state := ep_state pr1\<rparr>" and i1: "inp w1 = inp v" using run by (simp_all add: process_run_def)
    have "links_ok V topo (sys_net s @ ms) (\<lambda>r. inp (((dp_world d)(p := w1)) r)) (\<lambda>r. outp (((dp_world d)(p := w1)) r)) (dp_fed d) (dp_closed d)"
      by (rule links_read [OF links topo _ taken(1,2,5)]) (use ms(3) v i1 p in simp_all)
    from proposer_sim_step [OF sim pr ms(1) same this] have
      "deploy_sim V inp outp topo (d\<lparr>dp_world := (dp_world d)(p := w1), dp_proposers := (dp_proposers d)(k := Some pr1),
        dp_work := x\<rparr>) (sys_run ops ?es s)" .
    moreover have "list_all (event_from V) ?es" using e(4) by (auto simp: list_all_iff event_from_def)
    moreover have "sent_count outp pr v w1 = sent_count outp pr (dp_world d p) w1" by (simp add: sent_count_def v(2) cong: list.case_cong)
    ultimately show ?thesis using ms(2) by (intro exI [of _ ?es]) simp
  qed
qed

text \<open>Learners: an acknowledgement may lead to deliveries.\<close>

lemma learner_message_sim:
  assumes sim: "deploy_sim V inp outp topo d s" and topo: "topology_ok topo"
    and l: "dp_learners d k = Some l" and p: "p = LearnerProc k" and ready: "(p, b) \<notin> dp_closed d" "msg_ready ev (dp_world d p) b"
    and h: "learner_handle_msg ev stack b (dp_world d p, l, []) = Some (Ok (w1, l1, ds))"
    and lim: "streams_bounded outp topo (dp_world d)"
  shows "\<exists>es. list_all (event_from V) es \<and> length es \<le> 2 + length ds \<and>
    deploy_sim V inp outp topo (d\<lparr>dp_world := (dp_world d)(p := w1), dp_learners := (dp_learners d)(k := Some l1),
      dp_delivered := dp_delivered d @ map (Pair k) ds, dp_work := x\<rparr>) (sys_run ops es s)"
proof -
  note L = deploy_simD(3) [OF sim l] and links = deploy_simD(5) [OF sim]
  show ?thesis
  proof (cases rule: ready_cases [OF links topo lim(1) ready, case_names skipped taken])
    case (skipped v)
    with h have "w1 = v" "l1 = l" "ds = []" by (simp_all add: learner_handle_msg_def)
    with skipped sim l show ?thesis by (intro exI [of _ "[]"]) (auto simp: deploy_sim_def)
  next
    case (taken q c code body tail)
    from taken(4) obtain m where m: "m \<in> set (sys_net s)" "link_message q p m" "code = wire_code m" "read_as body m"
      unfolding item_ok_def p by (cases q) auto
    from m(2) obtain aa where "m = MAccepted aa" unfolding p by (cases q; cases m) auto
    with m have aa: "MAccepted (cast_accept_ack body) \<in> set (sys_net s)" "code = accept_acks"
      "length body = sizeof_accept_ack + unat (aa_value_size (cast_accept_ack body))"
      by (auto simp: answer_wf_def)
    let ?es = "\<lambda>acks. ELearn k (cast_accept_ack body) # replicate (Suc (length acks)) (EDeliver k)"
    from learner_handle_msg_run [OF taken(2) [unfolded aa(2)] taken(3) aa(3) h aa(1) L, of ops] obtain acks where
      acks: "ds = map delivery_of acks" "sys_run ops (?es acks) s = delivered_by k (el_state l1) acks s"
      and w1: "inp w1 = (inp (dp_world d p))(b := tail)" "outp w1 = outp (dp_world d p)"
      by auto
    have "links_ok V topo (sys_net s) (\<lambda>r. inp (((dp_world d)(p := w1)) r)) (\<lambda>r. outp (((dp_world d)(p := w1)) r)) (dp_fed d) (dp_closed d)"
      by (rule links_read [OF links topo _ taken(1,2,5) w1(1)]) (simp_all add: w1(2))
    then have "deploy_sim V inp outp topo (d\<lparr>dp_world := (dp_world d)(p := w1), dp_learners := (dp_learners d)(k := Some l1),
        dp_delivered := dp_delivered d @ map (Pair k) ds, dp_work := x\<rparr>) (sys_run ops (?es acks) s)"
      using sim unfolding acks(2) by (auto simp: deploy_sim_def delivered_by_def acks(1))
    moreover have "list_all (event_from V) (?es acks)" by (auto simp: list_all_iff event_from_def)
    ultimately show ?thesis using acks(1) by (intro exI [of _ "?es acks"]) simp
  qed
qed

text \<open>Clients.\<close>

lemma client_submit_sim:
  assumes sim: "deploy_sim V inp outp topo d s" and topo: "topology_ok topo"
    and v: "paxos_submit v n = Ok bytes" "0 < n" "n < 2 ^ 31" and p: "p = ClientProc k" and V: "take (nat n) v \<in> V"
  shows "deploy_sim V inp outp topo (d\<lparr>dp_world := (dp_world d)(p := bufferevent_write ev (dp_world d p) b bytes),
    dp_submitted := dp_submitted d @ [take (nat n) v]\<rparr>) s"
proof -
  let ?w = "bufferevent_write ev (dp_world d p) b bytes" and ?v = "take (nat n) v"
  have nv: "nat n \<le> length v"
    using v by (auto simp: paxos_submit_def value_bytes_def res_simps unsigned_of_int take_bit_int_eq_self split: if_splits)
  from submit_trip [OF _ this v(3)] v(1,2) nv have bytes: "bytes = frame submit ?v"
    by (simp add: frame_def)
  have "nat n < 2 ^ 31" using v(3) by simp
  then have "item_ok V p q (sys_net s) (submit, ?v)" if "linked p q" for q
    using v(2) nv that V unfolding p by (cases q) (simp_all add: item_ok_def)
  then have c: "carries V p q (sys_net s) bytes" if "linked p q" for q using that by (simp add: bytes carries_frame)
  have c': "carries V p q (sys_net s) bytes" if "topo (p, b') = Some (q, c')" for b' q c'
    using c topology_okD(2) [OF topo that] by blast
  have "links_ok V topo (sys_net s) (\<lambda>r. inp (((dp_world d)(p := ?w)) r)) (\<lambda>r. outp (((dp_world d)(p := ?w)) r)) (dp_fed d) (dp_closed d)"
  proof (rule links_write [OF deploy_simD(5) [OF sim] topo])
    fix b'
    show "\<exists>ext. outp ?w b' = outp (dp_world d p) b' @ ext \<and> (\<forall>q c. topo (p, b') = Some (q, c) \<longrightarrow> carries V p q (sys_net s) ext)"
      by (intro exI [of _ "if b' = b then bytes else []"])
        (use c' bev_write [OF refl, of "dp_world d p" b bytes] in auto)
  qed (use bev_write [OF refl, of "dp_world d p" b bytes] in simp_all)
  with sim show ?thesis by (auto simp: deploy_sim_def)
qed

end

context evloop
begin

text \<open>The timer of a proposer.\<close>

lemma proposer_timer_sim:
  assumes sim: "deploy_sim V inp outp topo d s" and topo: "topology_ok topo"
    and short: "list_all message_short (sys_net s)"
    and pr: "dp_proposers d k = Some pr" and p: "p = ProposerProc k"
    and h: "proposer_check_timeouts ev cfg now (dp_world d p, pr) = Ok (w1, pr1)"
    and lim: "streams_bounded outp topo ((dp_world d)(p := w1))"
  shows "\<exists>es. list_all (event_from V) es \<and> length es \<le> 2 + sent_count outp pr (dp_world d p) w1 \<and>
    deploy_sim V inp outp topo (d\<lparr>dp_world := (dp_world d)(p := w1), dp_proposers := (dp_proposers d)(k := Some pr1),
      dp_work := x\<rparr>) (sys_run ops es s)"
proof -
  note P = deploy_simD(2) [OF sim pr] and links = deploy_simD(5) [OF sim]
  have ps: "peers_ok (ep_acceptors pr)" using P by (simp add: peers_wired_def)
  from check_timeouts_run [OF h _ ps, of s k ops] P obtain v its jts where
    w1: "w1 = event_add ev v (ep_timeout_ev pr) (ep_tv pr)" and
    run: "runs ops k 2 (map (ETimeoutPrepare k cfg) its @ map (ETimeoutAccept k cfg) jts) s (dp_world d p, pr) (v, pr1)"
    (is "runs ops k 2 ?es s _ _") by blast
  have w1v: "inp w1 = inp v" "outp w1 = outp v" by (simp_all add: w1 event_add_buffers)
  have "streams_bounded outp topo ((dp_world d)(ProposerProc k := v))"
  proof -
    have "outp (((dp_world d)(ProposerProc k := v)) r) = outp (((dp_world d)(p := w1)) r)" for r
      using w1v(2) p by simp
    with lim show ?thesis by (simp only: streams_bounded_def)
  qed
  from process_run_links [OF run P [THEN conjunct1] short this] obtain ms where
    ms: "sys_run ops ?es s = proposer_sent k (ep_state pr1) ms s" "length ?es \<le> 2 + sent_count outp pr (dp_world d p) v"
    "\<And>b. \<exists>ext. outp v b = outp (dp_world d p) b @ ext \<and>
       (\<forall>q c. topo (ProposerProc k, b) = Some (q, c) \<longrightarrow> carries V (ProposerProc k) q (sys_net s @ ms) ext)"
    by blast
  have same: "pr1 = pr\<lparr>ep_state := ep_state pr1\<rparr>" and i1: "inp v = inp (dp_world d p)"
    using run by (simp_all add: process_run_def)
  have "links_ok V topo (sys_net s @ ms) (\<lambda>r. inp (((dp_world d)(p := w1)) r)) (\<lambda>r. outp (((dp_world d)(p := w1)) r)) (dp_fed d) (dp_closed d)"
    by (rule links_write [OF links topo]) (use ms(3) i1 w1v p in simp_all)
  from proposer_sim_step [OF sim pr ms(1) same this] have
    "deploy_sim V inp outp topo (d\<lparr>dp_world := (dp_world d)(p := w1), dp_proposers := (dp_proposers d)(k := Some pr1),
      dp_work := x\<rparr>) (sys_run ops ?es s)" .
  moreover have "list_all (event_from V) ?es" by (auto simp: list_all_iff event_from_def)
  moreover have "sent_count outp pr (dp_world d p) v = sent_count outp pr (dp_world d p) w1"
    by (simp add: sent_count_def w1v cong: list.case_cong)
  ultimately show ?thesis using ms(2) by (intro exI [of _ ?es]) simp
qed

end

section \<open>Connections that begin and end\<close>

text \<open>The connections \<open>B\<close> are freed, the other buffers stay as they are.\<close>

definition freed ::
  "('w \<Rightarrow> bev \<Rightarrow> byte list) \<Rightarrow> ('w \<Rightarrow> bev \<Rightarrow> byte list) \<Rightarrow> bev set \<Rightarrow> 'w \<Rightarrow> 'w \<Rightarrow> bool" where
  "freed inp outp B w w1 \<longleftrightarrow> inp w1 = (\<lambda>b. if b \<in> B then [] else inp w b) \<and> outp w1 = outp w"

context evloop
begin

lemmas loop_buffers = event_add_buffers enable_buffers connect_buffers loopexit_buffers free_buffers

lemma receiver_freed:
  "receiver_on_accept ev fd (w, r) = Ok (w1, r1) \<Longrightarrow> freed inp outp {} w w1"
  "receiver_on_error ev b events (w, r) = Ok (w1, r1) \<Longrightarrow> freed inp outp (if receiver_frees events then {b} else {}) w w1"
  by (auto simp: freed_def receiver_on_accept_def receiver_on_error_def receiver_frees_def res_simps loop_buffers
      dest: socket_new_buffers split: prod.splits if_splits)

lemma peer_freed:
  "with_peer i (peer_on_socket_event ev what) ps w = Ok (ps1, w1) \<Longrightarrow> freed inp outp (peer_closes ps i what) w w1"
  "with_peer i (\<lambda>q w. (q, peer_on_connection_timeout ev q w)) ps w = Ok (ps1, w1) \<Longrightarrow> freed inp outp {} w w1"
  by (auto simp: with_peer_def freed_def peer_on_socket_event_def peer_on_connection_timeout_def connect_peer_def
      peer_closes_def peer_frees_def loop_buffers dest!: socket_new_buffers split: prod.splits if_splits)

lemmas handlers_freed = receiver_freed peer_freed

lemma acceptor_other_freed:
  assumes "acceptor_handler ev ops i (w, a, out) = Some (Ok (w1, a1, out1))" "acceptor_other_input i"
  shows "freed inp outp (acceptor_closes i) w w1 \<and> ea_state a1 = ea_state a"
  using assms
  by (cases i) (auto simp: with_ea_receiver_def res_simps receiver_on_listener_error_def handle_sigint_def
      freed_def [of inp outp "{}"] loop_buffers dest!: handlers_freed)

lemma proposer_other_freed:
  assumes "proposer_handler ev i (w, p, out) = Some (Ok (w1, p1, out1))" "proposer_other_input i"
  shows "freed inp outp (proposer_closes p i) w w1 \<and> ep_state p1 = ep_state p"
  using assms
  by (cases i) (auto simp: with_ep_receiver_def res_simps receiver_on_listener_error_def handle_sigint_def
      freed_def [of inp outp "{}"] loop_buffers dest!: handlers_freed)

lemma learner_other_freed:
  assumes "learner_handler ev i (w, l, out) = Some (Ok (w1, l1, out1))" "learner_other_input i"
  shows "freed inp outp (learner_closes l i) w w1 \<and> el_state l1 = el_state l"
  using assms
  by (cases i) (auto simp: res_simps handle_sigint_def freed_def [of inp outp "{}"] loop_buffers dest!: handlers_freed)

end

lemma freed_links:
  assumes ok: "links_ok V topo net (\<lambda>r. inp (W r)) (\<lambda>r. outp (W r)) fed C" and B: "freed inp outp B (W p) w1"
  shows "links_ok V topo net (\<lambda>r. inp ((W(p := w1)) r)) (\<lambda>r. outp ((W(p := w1)) r)) fed (C \<union> Pair p ` B)"
proof -
  have I: "(\<lambda>r. inp ((W(p := w1)) r)) = (\<lambda>r. inp (W r))(p := inp w1)"
    and out: "(\<lambda>r. outp ((W(p := w1)) r)) = (\<lambda>r. outp (W r))"
    using B by (auto simp: fun_eq_iff freed_def)
  show ?thesis unfolding I out by (rule links_close [OF ok]) (use B in \<open>auto simp: freed_def\<close>)
qed

text \<open>Such a call is no event of the system.\<close>

lemma freed_sim:
  assumes sim: "deploy_sim V inp outp topo d s" and B: "freed inp outp B (dp_world d p) w1"
  shows "dp_acceptors d k = Some a \<Longrightarrow> receiver_inv (ea_receiver a1) \<Longrightarrow> ea_state a1 = ea_state a \<Longrightarrow>
      deploy_sim V inp outp topo (d\<lparr>dp_world := (dp_world d)(p := w1), dp_acceptors := (dp_acceptors d)(k := Some a1),
        dp_closed := dp_closed d \<union> Pair p ` B\<rparr>) s"
    and "dp_proposers d k = Some pr \<Longrightarrow> peers_wired topo k pr1 \<Longrightarrow> ep_state pr1 = ep_state pr \<Longrightarrow>
      deploy_sim V inp outp topo (d\<lparr>dp_world := (dp_world d)(p := w1), dp_proposers := (dp_proposers d)(k := Some pr1),
        dp_closed := dp_closed d \<union> Pair p ` B\<rparr>) s"
    and "dp_learners d k = Some l \<Longrightarrow> el_state l1 = el_state l \<Longrightarrow>
      deploy_sim V inp outp topo (d\<lparr>dp_world := (dp_world d)(p := w1), dp_learners := (dp_learners d)(k := Some l1),
        dp_closed := dp_closed d \<union> Pair p ` B\<rparr>) s"
  using freed_links [OF deploy_simD(5) [OF sim] B] sim by (simp_all add: deploy_sim_def)

section \<open>Runs\<close>

lemma submitted_grows: "deploy_step ev inp outp topo ops d d1 \<Longrightarrow> set (dp_submitted d) \<subseteq> set (dp_submitted d1)"
  by (induction rule: deploy_step.induct) auto

lemma deploy_run_limits: "deploy_run ev inp outp topo ops d0 d \<Longrightarrow> within_limits outp topo d"
  by (induction rule: deploy_run.induct) assumption+

text \<open>Bytes that arrive, and processes that end, are no events of the system.\<close>

lemma arrive_sim:
  assumes sim: "deploy_sim V inp outp topo d s" and t: "topo (p, b) = Some (q, c)" "(p, b) \<notin> dp_closed d"
    and chunk: "chunk = take n (drop (dp_fed d (p, b)) (outp (dp_world d q) c))"
    and w: "inp w = (inp (dp_world d p))(b := inp (dp_world d p) b @ chunk)" "outp w = outp (dp_world d p)"
  shows "deploy_sim V inp outp topo (d\<lparr>dp_world := (dp_world d)(p := w),
    dp_fed := (dp_fed d)((p, b) := dp_fed d (p, b) + length chunk)\<rparr>) s"
proof -
  have I: "(\<lambda>r. inp (((dp_world d)(p := w)) r)) = (\<lambda>r. inp (dp_world d r))(p := (inp (dp_world d p))(b := inp (dp_world d p) b @ chunk))"
    by (simp add: fun_eq_iff w)
  have out: "(\<lambda>r. outp (((dp_world d)(p := w)) r)) = (\<lambda>r. outp (dp_world d r))"
    by (simp add: fun_eq_iff w)
  from links_arrive [OF deploy_simD(5) [OF sim] t chunk] have "links_ok V topo (sys_net s) (\<lambda>r. inp (((dp_world d)(p := w)) r))
      (\<lambda>r. outp (((dp_world d)(p := w)) r)) ((dp_fed d)((p, b) := dp_fed d (p, b) + length chunk)) (dp_closed d)"
    unfolding I out .
  with sim show ?thesis by (simp add: deploy_sim_def)
qed

lemma ends_sim:
  assumes "deploy_sim V inp outp topo d s"
  shows "deploy_sim V inp outp topo (d\<lparr>dp_acceptors := (dp_acceptors d)(k := None)\<rparr>) s"
    "deploy_sim V inp outp topo (d\<lparr>dp_proposers := (dp_proposers d)(k := None)\<rparr>) s"
    "deploy_sim V inp outp topo (d\<lparr>dp_learners := (dp_learners d)(k := None)\<rparr>) s"
  using assms by (simp_all add: deploy_sim_def)

context evloop
begin

text \<open>One step.\<close>

lemma deploy_step_sim:
  assumes step: "deploy_step ev inp outp topo ops d d1" and sim: "deploy_sim V inp outp topo d s"
    and topo: "topology_ok topo" and ps: "payload_storage ops" and n: "n < 2 ^ 31"
    and short: "list_all message_short (sys_net s)"
    and rng: "dp_work d < step_limit \<Longrightarrow> messages_in_range ops n 1 s"
    and lim: "within_limits outp topo d" "within_limits outp topo d1" and V: "set (dp_submitted d1) \<subseteq> V"
  shows "\<exists>es. list_all (event_from V) es \<and> length es + dp_work d \<le> dp_work d1 \<and> deploy_sim V inp outp topo d1 (sys_run ops es s)"
proof -
  have len: "streams_bounded outp topo (dp_world d)" "streams_bounded outp topo (dp_world d1)"
    using lim by (simp_all add: within_limits_def)
  from step show ?thesis
  proof cases
    case (arrive p b q c chunk m w)
    from arrive_sim [OF sim arrive(2-6)] show ?thesis by (intro exI [of _ "[]"]) (simp add: arrive(1))
  next
    case (client_submit v m bytes p k b)
    with V have "take (nat m) v \<in> V" by simp
    from client_submit_sim [OF sim topo client_submit(2-5) this] show ?thesis
      by (intro exI [of _ "[]"]) (simp add: client_submit(1))
  next
    case (acceptor_message k a b p pad stack w1 a1)
    have "messages_in_range ops n 1 s" using rng lim(2) by (simp add: acceptor_message(1) within_limits_def)
    from acceptor_message_sim [OF sim topo ps n this acceptor_message(2-8) len(1)] len(2) show ?thesis
      by (force simp: acceptor_message(1))
  next
    case (proposer_message k pr p b junk clock now stack w1 pr1)
    from proposer_message_sim [OF sim topo short proposer_message(2-6) len(1)] len(2) show ?thesis
      by (force simp: proposer_message(1))
  next
    case (proposer_timer k pr p cfg now w1 pr1)
    from proposer_timer_sim [OF sim topo short proposer_timer(2-4)] len(2) show ?thesis
      by (force simp: proposer_timer(1))
  next
    case (learner_message k l p b stack w1 l1 ds)
    from learner_message_sim [OF sim topo learner_message(2-6) len(1)] show ?thesis
      by (force simp: learner_message(1))
  next
    case (acceptor_other k a p i out w1 a1 out1)
    note A = deploy_simD(1) [OF sim acceptor_other(2)] and F = acceptor_other_freed [OF acceptor_other(5,4)]
    have "receiver_inv (ea_receiver a1)" using acceptor_handler_keeps [OF acceptor_other(5)] A by (simp add: evacceptor_ok_def)
    from freed_sim(1) [OF sim F [THEN conjunct1] acceptor_other(2) this] F show ?thesis
      by (intro exI [of _ "[]"]) (simp add: acceptor_other(1))
  next
    case (proposer_other k pr p i out w1 pr1 out1)
    note F = proposer_other_freed [OF proposer_other(5,4)]
    from freed_sim(2) [OF sim F [THEN conjunct1] proposer_other(2,6)] F show ?thesis
      by (intro exI [of _ "[]"]) (simp add: proposer_other(1))
  next
    case (learner_other k l p i out w1 l1 out1)
    note F = learner_other_freed [OF learner_other(5,4)]
    from freed_sim(3) [OF sim F [THEN conjunct1] learner_other(2)] F show ?thesis
      by (intro exI [of _ "[]"]) (simp add: learner_other(1))
  qed (use ends_sim [OF sim] in \<open>auto intro: exI [of _ "[]"]\<close>)
qed

end

lemma deploy_init_sim:
  assumes "deploy_init inp outp topo n stores l d"
  shows "deploy_sim V inp outp topo d (sys_init n stores l)"
  using assms by (auto simp: deploy_init_def deploy_sim_def sys_init_def links_ok_def link_ok_def)

section \<open>Refinement and agreement\<close>

context record_store
begin

lemma run_in_range:
  assumes init: "sys_good n m 0 s0" "list_all message_short (sys_net s0)"
    and es: "list_all plain_event es" "length es + j \<le> step_limit" and m: "step_limit + m + 1 < 2 ^ 31"
  shows "messages_in_range ops n j (sys_run ops es s0)"
  unfolding messages_in_range_def
proof (intro allI impI ballI conjI)
  fix fs x
  assume fs: "list_all plain_event fs" "length fs \<le> j" and x: "x \<in> set (sys_net (sys_run ops fs (sys_run ops es s0)))"
  have "run_ok ops (es @ fs) s0" using es(1) fs(1) by (intro run_ok_plain) simp
  from sys_run_good [OF init(1) this] es(2) fs(2) m have "sys_good n m (length (es @ fs)) (sys_run ops (es @ fs) s0)"
    by simp
  from sys_goodD(1) [OF this, of x] x show "message_ids n x" by (simp add: sys_run_append message_ok_ids)
  from sys_run_short [OF init(2), of ops "es @ fs"] x show "message_short x"
    by (simp add: sys_run_append list_all_iff)
qed

theorem deployment_refines:
  assumes ev: "evloop ev inp outp" and ps: "payload_storage ops" and topo: "topology_ok topo"
    and n: "0 < n" "n < 2 ^ 31" and l0: "learner_inv n m {} l0" and m: "step_limit + m + 1 < 2 ^ 31"
    and stores: "\<And>a. a < n \<Longrightarrow> store_ok (stores a) \<and> owner (stores a) = int a"
    and fresh: "\<And>a i. a < n \<Longrightarrow> i \<noteq> 0 \<Longrightarrow> live (stores a) i \<Longrightarrow> lookup (stores a) i = None"
    and init: "deploy_init inp outp topo n stores l0 d0"
    and run: "deploy_run ev inp outp topo ops d0 d" and V: "set (dp_submitted d) \<subseteq> V"
  shows "\<exists>es. list_all (event_from V) es \<and> length es \<le> dp_work d \<and>
    deploy_sim V inp outp topo d (sys_run ops es (sys_init n stores l0))"
  using run V
proof induction
  case start
  from deploy_init_sim [OF init] show ?case by (intro exI [of _ "[]"]) simp
next
  case (step d d1)
  let ?s0 = "sys_init n stores l0"
  have good: "sys_good n m 0 ?s0" by (rule sys_init_good [OF n(1) l0 stores fresh]) simp_all
  have short: "list_all message_short (sys_net ?s0)" by (simp add: sys_init_def)
  have "set (dp_submitted d) \<subseteq> V" using submitted_grows [OF step.hyps(2)] step.prems by blast
  with step.IH obtain es where es: "list_all (event_from V) es" "length es \<le> dp_work d"
    "deploy_sim V inp outp topo d (sys_run ops es ?s0)" by blast
  have "messages_in_range ops n 1 (sys_run ops es ?s0)" if "dp_work d < step_limit"
    by (rule run_in_range [OF good short events_fromD [OF es(1), THEN conjunct1] _ m]) (use es(2) that in simp)
  from evloop.deploy_step_sim [OF ev step.hyps(2) es(3) topo ps n(2) sys_run_short [OF short] this
      deploy_run_limits [OF step.hyps(1)] step.hyps(3) step.prems]
  obtain fs where fs: "list_all (event_from V) fs" "length fs + dp_work d \<le> dp_work d1"
    "deploy_sim V inp outp topo d1 (sys_run ops fs (sys_run ops es ?s0))" by blast
  with es show ?case by (intro exI [of _ "es @ fs"]) (simp add: sys_run_append)
qed

text \<open>
  So the callbacks of the learners never get different values for an instance, and only values that
  clients submitted.
\<close>

lemma delivered_payload:
  assumes good: "sys_good n w k s" and d: "dp_delivered d = map (\<lambda>(k, ack). (k, delivery_of ack)) (sys_delivered s)"
    and e: "(j, e) \<in> set (dp_delivered d)"
  shows "\<exists>a. (j, a) \<in> set (sys_delivered s) \<and> dl_iid e = aa_iid a \<and> dl_value e = aa_payload a"
proof -
  from e obtain a where a: "(j, a) \<in> set (sys_delivered s)" "e = delivery_of a" unfolding d by auto
  from sys_goodD(6) [OF good a(1)] obtain r where "a = trunc_ack r" by (auto simp: closed_by_def)
  then have "aa_value a = aa_payload a" by (simp add: trunc_ack_def aa_payload_def)
  with a show ?thesis by (auto simp: delivery_of_def)
qed

theorem deployment_safe:
  assumes ev: "evloop ev inp outp" and ps: "payload_storage ops" and topo: "topology_ok topo"
    and n: "0 < n" "n < 2 ^ 31" and l0: "learner_inv n m {} l0" and m: "step_limit + m + 1 < 2 ^ 31"
    and stores: "\<And>a. a < n \<Longrightarrow> store_ok (stores a) \<and> owner (stores a) = int a"
    and fresh: "\<And>a i. a < n \<Longrightarrow> i \<noteq> 0 \<Longrightarrow> live (stores a) i \<Longrightarrow> lookup (stores a) i = None"
    and init: "deploy_init inp outp topo n stores l0 d0"
    and run: "deploy_run ev inp outp topo ops d0 d"
    and d: "(j1, e1) \<in> set (dp_delivered d)"
  shows "dl_value e1 \<in> set (dp_submitted d)"
    "(j2, e2) \<in> set (dp_delivered d) \<Longrightarrow> dl_iid e1 = dl_iid e2 \<Longrightarrow> dl_value e1 = dl_value e2"
proof -
  let ?s0 = "sys_init n stores l0" and ?V = "set (dp_submitted d)"
  from deployment_refines [OF ev ps topo n l0 m stores fresh init run subset_refl] obtain es where
    es: "list_all (event_from ?V) es" "length es \<le> dp_work d" "deploy_sim ?V inp outp topo d (sys_run ops es ?s0)"
    by blast
  have lim: "length es \<le> step_limit" using es(2) deploy_run_limits [OF run] by (simp add: within_limits_def)
  then have lim': "length es + m + 1 < 2 ^ 31" using m by simp
  have ok: "run_ok ops es ?s0" by (rule run_ok_plain) (use events_fromD [OF es(1)] in blast)
  have good: "sys_good n m (length es) (sys_run ops es ?s0)"
    using sys_run_good [OF sys_init_good [OF n(1) l0 stores fresh] ok] lim lim' by simp
  note ack = delivered_payload [OF good deploy_simD(4) [OF es(3)]]
  from ack [OF d] run_validity [OF n(1) l0 stores fresh ok lim lim'] events_fromD [OF es(1)]
  show "dl_value e1 \<in> ?V" by auto
  assume d2: "(j2, e2) \<in> set (dp_delivered d)" "dl_iid e1 = dl_iid e2"
  from ack [OF d] ack [OF d2(1)] agreement [OF good] d2(2) show "dl_value e1 = dl_value e2" by metis
qed

end

section \<open>Calls of the read callbacks\<close>

text \<open>
  libevent calls the read callback of a connection, which handles all complete messages of the
  connection. Such a call is a sequence of steps.
\<close>

definition with_acceptor_at :: "nat \<Rightarrow> 'w \<times> 's evacceptor \<Rightarrow> nat \<Rightarrow> ('w, 's) deployment \<Rightarrow> ('w, 's) deployment" where
  "with_acceptor_at k x work d = d\<lparr>dp_world := (dp_world d)(AcceptorProc k := fst x),
     dp_acceptors := (dp_acceptors d)(k := Some (snd x)), dp_work := work\<rparr>"

definition with_proposer_at :: "nat \<Rightarrow> 'w \<times> evproposer \<Rightarrow> nat \<Rightarrow> ('w, 's) deployment \<Rightarrow> ('w, 's) deployment" where
  "with_proposer_at k x work d = d\<lparr>dp_world := (dp_world d)(ProposerProc k := fst x),
     dp_proposers := (dp_proposers d)(k := Some (snd x)), dp_work := work\<rparr>"

definition with_learner_at ::
  "nat \<Rightarrow> 'w \<times> evlearner \<times> delivery list \<Rightarrow> nat \<Rightarrow> ('w, 's) deployment \<Rightarrow> ('w, 's) deployment" where
  "with_learner_at k x work d = d\<lparr>dp_world := (dp_world d)(LearnerProc k := fst x),
     dp_learners := (dp_learners d)(k := Some (fst (snd x))),
     dp_delivered := dp_delivered d @ map (Pair k) (snd (snd x)), dp_work := work\<rparr>"

lemma with_at_same:
  "dp_acceptors d k = Some a \<Longrightarrow> with_acceptor_at k (dp_world d (AcceptorProc k), a) (dp_work d) d = d"
  "dp_proposers d k = Some p \<Longrightarrow> with_proposer_at k (dp_world d (ProposerProc k), p) (dp_work d) d = d"
  "dp_learners d k = Some l \<Longrightarrow> with_learner_at k (dp_world d (LearnerProc k), l, []) (dp_work d) d = d"
  by (simp_all add: with_acceptor_at_def with_proposer_at_def with_learner_at_def fun_upd_idem)

lemma acceptor_call_steps:
  assumes a: "dp_acceptors d k = Some a" "b \<in> set (clist (tr_bevs (ea_receiver a)))" and pad: "length pad = 6"
    and up: "(AcceptorProc k, b) \<notin> dp_closed d"
    and call: "evacceptor_on_read ev ops stack pad b (dp_world d (AcceptorProc k), a) = Some (Ok y)"
  shows "\<exists>work. (deploy_step ev inp outp topo ops)\<^sup>*\<^sup>* d (with_acceptor_at k y work d)"
proof -
  let ?P = "\<lambda>x. ea_receiver (snd x) = ea_receiver a \<and>
    (\<exists>work. (deploy_step ev inp outp topo ops)\<^sup>*\<^sup>* d (with_acceptor_at k x work d))"
  have "?P y"
  proof (rule read_loop_inv [THEN conjunct1, OF call [unfolded evacceptor_on_read_def receiver_on_read_def] refl])
    fix i x z
    assume ready: "msg_ready ev (fst x) b" and h: "handle_req ev ops (stack i) pad b x = Ok z" and P: "?P x"
    obtain w c w1 c1 where x: "x = (w, c)" "z = (w1, c1)" by (metis surj_pair)
    from P obtain work where steps: "(deploy_step ev inp outp topo ops)\<^sup>*\<^sup>* d (with_acceptor_at k x work d)"
      and rcv: "ea_receiver c = ea_receiver a" by (auto simp: x)
    have "deploy_step ev inp outp topo ops (with_acceptor_at k x work d) (with_acceptor_at k z (work + 1) d)"
      using acceptor_message [of "with_acceptor_at k x work d" k c b "AcceptorProc k" ev pad ops "stack i" w1 c1 inp outp topo]
        a(2) ready pad h rcv up
      by (simp add: with_acceptor_at_def x)
    with steps have "(deploy_step ev inp outp topo ops)\<^sup>*\<^sup>* d (with_acceptor_at k z (work + 1) d)" by simp
    moreover have "ea_receiver c1 = ea_receiver a"
      using handle_req_keeps [of ev ops "stack i" pad b w c w1 c1] h rcv
      by (metis x evacceptor.ext_inject evacceptor.surjective evacceptor.update_convs(4))
    ultimately show "?P z" by (auto simp: x)
  next
    show "?P (dp_world d (AcceptorProc k), a)"
      using with_at_same(1) [OF a(1)] by (auto intro: exI [of _ "dp_work d"])
  qed
  then show ?thesis by blast
qed

lemma proposer_call_steps:
  assumes pr: "dp_proposers d k = Some pr" and up: "(ProposerProc k, b) \<notin> dp_closed d"
    and call: "handle_request ev junk clock now stack b (dp_world d (ProposerProc k), pr) = Some (Ok y)"
  shows "\<exists>work. (deploy_step ev inp outp topo ops)\<^sup>*\<^sup>* d (with_proposer_at k y work d)"
proof (rule read_loop_inv [THEN conjunct1, OF call [unfolded handle_request_def] refl])
  fix i x z
  assume ready: "msg_ready ev (fst x) b"
    and h: "proposer_handle_msg ev (junk i) (clock i) (now i) (stack i) b x = Ok z"
    and "\<exists>work. (deploy_step ev inp outp topo ops)\<^sup>*\<^sup>* d (with_proposer_at k x work d)"
  then obtain work where steps: "(deploy_step ev inp outp topo ops)\<^sup>*\<^sup>* d (with_proposer_at k x work d)" by blast
  obtain w c w1 c1 where x: "x = (w, c)" "z = (w1, c1)" by (metis surj_pair)
  have "\<exists>work1. deploy_step ev inp outp topo ops (with_proposer_at k x work d) (with_proposer_at k z work1 d)"
    using proposer_message [of "with_proposer_at k x work d" k c "ProposerProc k" b ev "junk i" "clock i" "now i"
        "stack i" w1 c1 inp outp topo ops] ready h up
    by (auto simp: with_proposer_at_def x)
  with steps show "\<exists>work. (deploy_step ev inp outp topo ops)\<^sup>*\<^sup>* d (with_proposer_at k z work d)"
    by (meson rtranclp.rtrancl_into_rtrancl)
next
  show "\<exists>work. (deploy_step ev inp outp topo ops)\<^sup>*\<^sup>* d (with_proposer_at k (dp_world d (ProposerProc k), pr) work d)"
    using with_at_same(2) [OF pr] by (auto intro: exI [of _ "dp_work d"])
qed

text \<open>What a learner delivers does not depend on what it delivered before.\<close>

lemma deliver_loop_list:
  assumes "learner_deliver_next_closed l ds = Some r" "r = Ok (l1, ds1)"
  shows "\<exists>es. ds1 = ds @ es \<and> (\<forall>ds2. learner_deliver_next_closed l ds2 = Some (Ok (l1, ds2 @ es)))"
  using assms
proof (induction rule: learner_deliver_next_closed.raw_induct [rotated, consumes 1])
  case (1 loop l ds r)
  from 1(2,3) obtain d l2 where
    d: "learner_deliver_next l = Ok (d, l2)"
      "(case d of None \<Rightarrow> Some (Ok (l2, ds)) | Some ack \<Rightarrow> loop l2 (ds @ [delivery_of ack])) = Some (Ok (l1, ds1))"
    by (auto split: sum.splits)
  show ?case
  proof (cases d)
    case None
    with d show ?thesis
      by (intro exI [of _ "[]"]) (simp, subst learner_deliver_next_closed.simps, simp)
  next
    case (Some ack)
    with d(2) have "loop l2 (ds @ [delivery_of ack]) = Some (Ok (l1, ds1))" by simp
    from 1(1) [OF this refl] obtain es where es: "ds1 = (ds @ [delivery_of ack]) @ es"
      "\<And>ds2. learner_deliver_next_closed l2 ds2 = Some (Ok (l1, ds2 @ es))" by blast
    have "learner_deliver_next_closed l ds2 = Some (Ok (l1, ds2 @ delivery_of ack # es))" for ds2
      using d(1) Some es(2) by (subst learner_deliver_next_closed.simps) simp
    with es(1) show ?thesis by (intro exI [of _ "delivery_of ack # es"]) simp
  qed
qed

lemma learner_handle_msg_list:
  assumes "learner_handle_msg ev stack b (w, l, ds) = Some (Ok (w1, l1, ds1))"
  shows "\<exists>es. ds1 = ds @ es \<and> learner_handle_msg ev stack b (w, l, []) = Some (Ok (w1, l1, es))"
proof -
  have ack: "\<exists>es. ds1 = ds @ es \<and> learner_handle_accept_ack st aa [] = Some (Ok (st1, es))"
    if "learner_handle_accept_ack st aa ds = Some (Ok (st1, ds1))" for st aa st1
  proof -
    from that obtain st2 where "learner_receive_accept st aa = Ok st2" "learner_deliver_next_closed st2 ds = Some (Ok (st1, ds1))"
      by (auto simp: learner_handle_accept_ack_def split: sum.splits)
    with deliver_loop_list [of st2 ds "Ok (st1, ds1)" st1 ds1] show ?thesis
      by (fastforce simp: learner_handle_accept_ack_def)
  qed
  obtain r v where v: "remove_msg ev b w = (r, v)" by force
  show ?thesis
  proof (cases "\<exists>n body. r = Some (Some accept_acks, n, body)")
    case True
    then obtain n body where r: "r = Some (Some accept_acks, n, body)" by blast
    from assms v r obtain st where st: "learner_handle_accept_ack (el_state l) (cast_accept_ack (body @ stack)) ds = Some (Ok (st, ds1))"
      "w1 = v" "l1 = l\<lparr>el_state := st\<rparr>"
      by (auto simp: learner_handle_msg_def Let_def res_simps)
    from ack [OF st(1)] st(2,3) v r show ?thesis by (auto simp: learner_handle_msg_def Let_def)
  next
    case False
    with assms v show ?thesis
      by (auto simp: learner_handle_msg_def Let_def split: option.splits paxos_msg_code.splits)
  qed
qed

lemma learner_call_steps:
  assumes "on_acceptor_msg ev stack i b x = Some r" "r = Ok y"
    and "(LearnerProc k, b) \<notin> dp_closed d"
    and "(deploy_step ev inp outp topo ops)\<^sup>*\<^sup>* d (with_learner_at k x work d)"
  shows "\<exists>work. (deploy_step ev inp outp topo ops)\<^sup>*\<^sup>* d (with_learner_at k y work d)"
  using assms
proof (induction arbitrary: work rule: on_acceptor_msg_induct)
  case (1 loop ev stack i b x r)
  obtain w l ds where x: "x = (w, l, ds)" by (metis surj_pair)
  from 1(2,3) consider "y = x"
    | z where "msg_ready ev w b" "learner_handle_msg ev (stack i) b x = Some (Ok z)" "loop ev stack (Suc i) b z = Some (Ok y)"
    by (auto simp: x msg_ready_def split: if_splits bind_splits sum.splits)
  then show ?case
  proof cases
    case 2
    obtain w1 l1 ds1 where z: "z = (w1, l1, ds1)" by (metis surj_pair)
    from learner_handle_msg_list [OF 2(2) [unfolded x z]] obtain es where
      es: "ds1 = ds @ es" "learner_handle_msg ev (stack i) b (w, l, []) = Some (Ok (w1, l1, es))" by blast
    have "\<exists>work1. deploy_step ev inp outp topo ops (with_learner_at k x work d) (with_learner_at k z work1 d)"
      using learner_message [of "with_learner_at k x work d" k l "LearnerProc k" b ev "stack i" w1 l1 es inp outp topo ops]
        2(1) es 1(4)
      by (auto simp: with_learner_at_def x z)
    with 1(5) obtain work1 where "(deploy_step ev inp outp topo ops)\<^sup>*\<^sup>* d (with_learner_at k z work1 d)"
      by (meson rtranclp.rtrancl_into_rtrancl)
    from 1(1) [OF 2(3) refl 1(4) this] show ?thesis .
  qed (use 1(5) in blast)
qed

section \<open>Calls of the handlers\<close>

text \<open>
  Every call of a handler of \<open>Processes\<close> but for the hole timer is a sequence of steps. libevent
  calls no callback of a connection that was freed, and the connections of a receiver are the ones
  it accepted; a proposer connects to acceptors.
\<close>

fun acceptor_call_ok :: "nat \<Rightarrow> 's evacceptor \<Rightarrow> ('w, 's) deployment \<Rightarrow> acceptor_input \<Rightarrow> bool" where
  "acceptor_call_ok k a d (AcceptorRead b stack pad) \<longleftrightarrow>
     b \<in> set (clist (tr_bevs (ea_receiver a))) \<and> (AcceptorProc k, b) \<notin> dp_closed d \<and> length pad = 6"
| "acceptor_call_ok k a d _ \<longleftrightarrow> True"

fun proposer_call_ok :: "nat \<Rightarrow> ('w, 's) deployment \<Rightarrow> proposer_input \<Rightarrow> bool" where
  "proposer_call_ok k d (PeerRead b e) \<longleftrightarrow> (ProposerProc k, b) \<notin> dp_closed d"
| "proposer_call_ok k d (ClientRead b e) \<longleftrightarrow> (ProposerProc k, b) \<notin> dp_closed d"
| "proposer_call_ok k d _ \<longleftrightarrow> True"

fun learner_call_ok :: "nat \<Rightarrow> ('w, 's) deployment \<Rightarrow> learner_input \<Rightarrow> bool" where
  "learner_call_ok k d (AcceptorMsg b stack) \<longleftrightarrow> (LearnerProc k, b) \<notin> dp_closed d"
| "learner_call_ok k d HoleTimer \<longleftrightarrow> False"
| "learner_call_ok k d _ \<longleftrightarrow> True"

definition closing :: "process \<Rightarrow> bev set \<Rightarrow> ('w, 's) deployment \<Rightarrow> ('w, 's) deployment" where
  "closing p B d = d\<lparr>dp_closed := dp_closed d \<union> Pair p ` B\<rparr>"

lemma closing_none [simp]: "closing p {} d = d"
  by (simp add: closing_def)

lemma acceptor_handler_steps:
  assumes a: "dp_acceptors d k = Some a" "acceptor_call_ok k a d i"
    and call: "acceptor_handler ev ops i (dp_world d (AcceptorProc k), a, out) = Some (Ok (w1, a1, out1))"
  shows "\<exists>work. (deploy_step ev inp outp topo ops)\<^sup>*\<^sup>* d
    (closing (AcceptorProc k) (acceptor_closes i) (with_acceptor_at k (w1, a1) work d))"
proof (cases "acceptor_other_input i")
  case True
  have "deploy_step ev inp outp topo ops d
      (closing (AcceptorProc k) (acceptor_closes i) (with_acceptor_at k (w1, a1) (dp_work d) d))"
    using acceptor_other [OF a(1) refl True call, of inp outp topo] by (cases d) (simp add: with_acceptor_at_def closing_def)
  then show ?thesis by blast
next
  case False
  then obtain b stack pad where i: "i = AcceptorRead b stack pad" by (cases i) simp_all
  with call have "evacceptor_on_read ev ops stack pad b (dp_world d (AcceptorProc k), a) = Some (Ok (w1, a1))"
    by (auto simp: call_eq_Ok)
  from acceptor_call_steps [OF a(1) _ _ _ this] a(2) show ?thesis by (simp add: i)
qed

lemma proposer_handler_steps:
  assumes pr: "dp_proposers d k = Some pr" "proposer_call_ok k d i"
    and call: "proposer_handler ev i (dp_world d (ProposerProc k), pr, out) = Some (Ok (w1, pr1, out1))"
    and wired: "peers_wired topo k pr1"
  shows "\<exists>work. (deploy_step ev inp outp topo ops)\<^sup>*\<^sup>* d
    (closing (ProposerProc k) (proposer_closes pr i) (with_proposer_at k (w1, pr1) work d))"
proof (cases "proposer_other_input i")
  case True
  have "deploy_step ev inp outp topo ops d
      (closing (ProposerProc k) (proposer_closes pr i) (with_proposer_at k (w1, pr1) (dp_work d) d))"
    using proposer_other [OF pr(1) refl True call wired, of inp outp ops] by (cases d) (simp add: with_proposer_at_def closing_def)
  then show ?thesis by blast
next
  case False
  then consider b e where "i = PeerRead b e \<or> (\<exists>f. i = ClientRead b f \<and> f 0 = e)"
    | cfg now where "i = ProposerTimer cfg now" by (cases i) auto
  then show ?thesis
  proof cases
    case 1
    with call have "handle_request ev (pe_junk e) (pe_clock e) (pe_now e) (pe_stack e) b
        (dp_world d (ProposerProc k), pr) = Some (Ok (w1, pr1))"
      by (auto simp: call_eq_Ok peer_on_read_def client_on_read_once proposer_on_msgs_def)
    from proposer_call_steps [OF pr(1) _ this] pr(2) 1 show ?thesis by auto
  next
    case 2
    with call have "proposer_check_timeouts ev cfg now (dp_world d (ProposerProc k), pr) = Ok (w1, pr1)"
      by (auto simp: res_simps)
    from proposer_timer [OF pr(1) refl this, of inp outp topo ops] 2 show ?thesis
      by (auto simp: with_proposer_at_def intro: exI [where x = "dp_work d + _"])
  qed
qed

lemma learner_handler_steps:
  assumes l: "dp_learners d k = Some l" "learner_call_ok k d i"
    and call: "learner_handler ev i (dp_world d (LearnerProc k), l, out) = Some (Ok (w1, l1, out1))"
  shows "\<exists>ds work. (deploy_step ev inp outp topo ops)\<^sup>*\<^sup>* d
      (closing (LearnerProc k) (learner_closes l i) (with_learner_at k (w1, l1, ds) work d)) \<and>
    (learner_other_input i \<or> deliver_all ds out = Ok out1)"
proof (cases "learner_other_input i")
  case True
  have "deploy_step ev inp outp topo ops d
      (closing (LearnerProc k) (learner_closes l i) (with_learner_at k (w1, l1, []) (dp_work d) d))"
    using learner_other [OF l(1) refl True call, of inp outp topo ops] by (cases d) (simp add: with_learner_at_def closing_def)
  with True show ?thesis by blast
next
  case False
  with l(2) obtain b stack where i: "i = AcceptorMsg b stack" by (cases i) simp_all
  with call obtain ds where
    ds: "on_acceptor_msg ev stack 0 b (dp_world d (LearnerProc k), l, []) = Some (Ok (w1, l1, ds))" "deliver_all ds out = Ok out1"
    by (auto simp: call_eq_Ok peer_on_read_def res_simps)
  from learner_call_steps [OF ds(1) refl, of k d inp outp topo ops "dp_work d"] l(2) with_at_same(3) [OF l(1)] ds(2)
  show ?thesis by (auto simp: i)
qed

end
