(* ===== verification/Deployment_Example.thy ===== *)
theory Deployment_Example
  imports Deployment_Run Sample_Example
begin

text \<open>
  A small deployment that runs: one acceptor, one proposer, one learner and one client in the world
  of \<open>Ev_Example\<close>. A client submits a value, and the bytes it leads to are carried and handled until
  the learner delivers it; on the way the connection between the proposer and the acceptor breaks
  and is made again.
\<close>

interpretation demoloop: evloop demo_ev dw_in dw_out
  by unfold_locales (auto simp: demo_ev_def)

section \<open>Steps as a function\<close>

datatype action =
    Arrive process bev nat
  | Submit nat bev "byte list" int
  | Acceptor_handles nat bev
  | Proposer_handles nat bev
  | Learner_handles nat bev
  | Acceptor_calls nat acceptor_input
  | Proposer_calls nat proposer_input
  | Proposer_timer nat timeval

definition wired_to :: "topology \<Rightarrow> nat \<Rightarrow> evproposer \<Rightarrow> bool" where
  "wired_to topo k p \<longleftrightarrow> peers_ok (ep_acceptors p) \<and> peers_bevs (ep_acceptors p) \<noteq> [] \<and>
     list_all (\<lambda>b. case topo (ProposerProc k, b) of Some (AcceptorProc j, c) \<Rightarrow> True | _ \<Rightarrow> False)
       (peers_bevs (ep_acceptors p))"

lemma wired_to: "wired_to topo k p \<longleftrightarrow> peers_wired topo k p"
proof -
  have "(case topo e of Some (AcceptorProc j, c) \<Rightarrow> True | _ \<Rightarrow> False) \<longleftrightarrow> (\<exists>j c. topo e = Some (AcceptorProc j, c))" for e
    by (auto split: option.splits process.splits)
  then show ?thesis by (simp add: wired_to_def peers_wired_def list_all_iff)
qed

fun act :: "topology \<Rightarrow> action \<Rightarrow> (demo_world, mem_storage) deployment \<Rightarrow> (demo_world, mem_storage) deployment option" where
  "act topo (Arrive p b n) d =
     (case topo (p, b) of
        None \<Rightarrow> None
      | Some (q, c) \<Rightarrow>
          let chunk = take n (drop (dp_fed d (p, b)) (dw_out (dp_world d q) c)) in
          if (p, b) \<notin> dp_closed d then
            Some (d\<lparr>dp_world := (dp_world d)(p := demo_arrive (dp_world d p) b chunk),
                    dp_fed := (dp_fed d)((p, b) := dp_fed d (p, b) + length chunk)\<rparr>)
          else None)"
| "act topo (Submit k b v n) d =
     (case paxos_submit v n of
        Inl _ \<Rightarrow> None
      | Inr bytes \<Rightarrow>
          if 0 < n \<and> n < 2 ^ 31 then
            Some (d\<lparr>dp_world := (dp_world d)(ClientProc k := bufferevent_write demo_ev (dp_world d (ClientProc k)) b bytes),
                    dp_submitted := dp_submitted d @ [take (nat n) v]\<rparr>)
          else None)"
| "act topo (Acceptor_handles k b) d =
     (case dp_acceptors d k of
        None \<Rightarrow> None
      | Some a \<Rightarrow>
          if b \<in> set (clist (tr_bevs (ea_receiver a))) \<and> (AcceptorProc k, b) \<notin> dp_closed d \<and>
             msg_ready demo_ev (dp_world d (AcceptorProc k)) b then
            (case handle_req demo_ev mem_ops [] pad6 b (dp_world d (AcceptorProc k), a) of
               Inl _ \<Rightarrow> None
             | Inr (w1, a1) \<Rightarrow>
                 Some (d\<lparr>dp_world := (dp_world d)(AcceptorProc k := w1), dp_acceptors := (dp_acceptors d)(k := Some a1),
                         dp_work := dp_work d + 1\<rparr>))
          else None)"
| "act topo (Proposer_handles k b) d =
     (case dp_proposers d k of
        None \<Rightarrow> None
      | Some pr \<Rightarrow>
          if (ProposerProc k, b) \<notin> dp_closed d \<and> msg_ready demo_ev (dp_world d (ProposerProc k)) b then
            (case proposer_handle_msg demo_ev (\<lambda>i. zeros) (\<lambda>i. clock0) clock0 [] b (dp_world d (ProposerProc k), pr) of
               Inl _ \<Rightarrow> None
             | Inr (w1, pr1) \<Rightarrow>
                 Some (d\<lparr>dp_world := (dp_world d)(ProposerProc k := w1), dp_proposers := (dp_proposers d)(k := Some pr1),
                         dp_work := dp_work d + (2 + sent_count dw_out pr (dp_world d (ProposerProc k)) w1)\<rparr>))
          else None)"
| "act topo (Learner_handles k b) d =
     (case dp_learners d k of
        None \<Rightarrow> None
      | Some l \<Rightarrow>
          if (LearnerProc k, b) \<notin> dp_closed d \<and> msg_ready demo_ev (dp_world d (LearnerProc k)) b then
            (case learner_handle_msg demo_ev [] b (dp_world d (LearnerProc k), l, []) of
               Some (Inr (w1, l1, ds)) \<Rightarrow>
                 Some (d\<lparr>dp_world := (dp_world d)(LearnerProc k := w1), dp_learners := (dp_learners d)(k := Some l1),
                         dp_delivered := dp_delivered d @ map (Pair k) ds, dp_work := dp_work d + (2 + length ds)\<rparr>)
             | _ \<Rightarrow> None)
          else None)"
| "act topo (Acceptor_calls k i) d =
     (case dp_acceptors d k of
        None \<Rightarrow> None
      | Some a \<Rightarrow>
          if acceptor_other_input i then
            (case acceptor_handler demo_ev mem_ops i (dp_world d (AcceptorProc k), a, []) of
               Some (Inr (w1, a1, out)) \<Rightarrow>
                 Some (d\<lparr>dp_world := (dp_world d)(AcceptorProc k := w1), dp_acceptors := (dp_acceptors d)(k := Some a1),
                         dp_closed := dp_closed d \<union> Pair (AcceptorProc k) ` acceptor_closes i\<rparr>)
             | _ \<Rightarrow> None)
          else None)"
| "act topo (Proposer_calls k i) d =
     (case dp_proposers d k of
        None \<Rightarrow> None
      | Some pr \<Rightarrow>
          if proposer_other_input i then
            (case proposer_handler demo_ev i (dp_world d (ProposerProc k), pr, []) of
               Some (Inr (w1, pr1, out)) \<Rightarrow>
                 if wired_to topo k pr1 then
                   Some (d\<lparr>dp_world := (dp_world d)(ProposerProc k := w1), dp_proposers := (dp_proposers d)(k := Some pr1),
                           dp_closed := dp_closed d \<union> Pair (ProposerProc k) ` proposer_closes pr i\<rparr>)
                 else None
             | _ \<Rightarrow> None)
          else None)"
| "act topo (Proposer_timer k now) d =
     (case dp_proposers d k of
        None \<Rightarrow> None
      | Some pr \<Rightarrow>
          (case proposer_check_timeouts demo_ev default_config now (dp_world d (ProposerProc k), pr) of
             Inl _ \<Rightarrow> None
           | Inr (w1, pr1) \<Rightarrow>
               Some (d\<lparr>dp_world := (dp_world d)(ProposerProc k := w1), dp_proposers := (dp_proposers d)(k := Some pr1),
                       dp_work := dp_work d + (2 + sent_count dw_out pr (dp_world d (ProposerProc k)) w1)\<rparr>)))"

lemma act_step:
  assumes "act topo a d = Some d1"
  shows "deploy_step demo_ev dw_in dw_out topo mem_ops d d1"
  using assms
proof (cases a)
  case (Arrive p b n)
  with assms obtain q c where q: "topo (p, b) = Some (q, c)" "(p, b) \<notin> dp_closed d"
    and d1: "d1 = (let chunk = take n (drop (dp_fed d (p, b)) (dw_out (dp_world d q) c)) in
      d\<lparr>dp_world := (dp_world d)(p := demo_arrive (dp_world d p) b chunk),
        dp_fed := (dp_fed d)((p, b) := dp_fed d (p, b) + length chunk)\<rparr>)"
    by (auto simp: Let_def split: option.splits if_splits)
  show ?thesis unfolding d1 Let_def
    by (rule arrive [where topo = topo, OF q]) (simp_all add: demo_arrive_def)
next
  case (Submit k b v n)
  with assms show ?thesis by (auto split: sum.splits if_splits intro!: client_submit [OF _ _ _ refl])
next
  case (Acceptor_handles k b)
  with assms show ?thesis
    by (auto simp: pad6_def simp del: One_nat_def split: option.splits if_splits sum.splits
        intro!: acceptor_message [OF _ _ refl, where pad = pad6 and stack = "[]"])
next
  case (Proposer_handles k b)
  with assms show ?thesis
    by (auto simp del: add_2_eq_Suc add_2_eq_Suc' split: option.splits if_splits sum.splits
        intro!: proposer_message [OF _ refl])
next
  case (Learner_handles k b)
  with assms show ?thesis
    by (auto simp del: add_2_eq_Suc add_2_eq_Suc' split: option.splits if_splits sum.splits
        intro!: learner_message [OF _ refl])
next
  case (Acceptor_calls k i)
  with assms show ?thesis
    by (auto split: option.splits if_splits sum.splits simp del: acceptor_handler.simps intro!: acceptor_other [OF _ refl])
next
  case (Proposer_calls k i)
  with assms show ?thesis
    by (auto simp: wired_to split: option.splits if_splits sum.splits simp del: proposer_handler.simps
        intro!: proposer_other [OF _ refl])
next
  case (Proposer_timer k now)
  with assms show ?thesis
    by (auto simp del: add_2_eq_Suc add_2_eq_Suc' split: option.splits sum.splits intro!: proposer_timer [OF _ refl])
qed

text \<open>A run of actions in which the listed connections carry fewer than 1000 bytes.\<close>

definition small_state :: "endpoint list \<Rightarrow> (demo_world, mem_storage) deployment \<Rightarrow> bool" where
  "small_state es d \<longleftrightarrow> dp_work d < 1000 \<and> list_all (\<lambda>(p, b). length (dw_out (dp_world d p) b) < 1000) es"

fun acts :: "(endpoint \<times> endpoint) list \<Rightarrow> action list \<Rightarrow> (demo_world, mem_storage) deployment \<Rightarrow>
  (demo_world, mem_storage) deployment option" where
  "acts links [] d = (if small_state (map fst links) d then Some d else None)"
| "acts links (a # as) d =
     (if small_state (map fst links) d then Option.bind (act (map_of links) a d) (acts links as) else None)"

lemma small_within:
  assumes "small_state (map fst links) d"
  shows "within_limits dw_out (map_of links) d"
proof -
  have "length (dw_out (dp_world d p) b) < 2 ^ 63" if "map_of links (p, b) \<noteq> None" for p b
  proof -
    from that have "(p, b) \<in> set (map fst links)" by (metis map_of_eq_None_iff set_map)
    with assms have "length (dw_out (dp_world d p) b) < 1000" by (auto simp: small_state_def list_all_iff)
    then show ?thesis by simp
  qed
  with assms show ?thesis
    by (simp add: within_limits_def streams_bounded_def small_state_def step_limit_def)
qed

lemma acts_run:
  assumes "acts links as d = Some d1" "deploy_run demo_ev dw_in dw_out (map_of links) mem_ops d0 d"
  shows "deploy_run demo_ev dw_in dw_out (map_of links) mem_ops d0 d1"
  using assms
proof (induction "as" arbitrary: d)
  case (Cons a as)
  from Cons.prems(1) obtain d2 where d2: "act (map_of links) a d = Some d2" "acts links as d2 = Some d1"
    by (auto simp: bind_eq_Some_conv split: if_splits)
  from d2(2) have "small_state (map fst links) d2" by (cases "as") (auto split: if_splits)
  from deploy_run.step [OF Cons.prems(2) act_step [OF d2(1)] small_within [OF this]] Cons.IH [OF d2(2)]
  show ?case by blast
qed (simp split: if_splits)

section \<open>The deployment\<close>

definition demo_links :: "(endpoint \<times> endpoint) list" where
  "demo_links =
     [((AcceptorProc 0, 10), (ProposerProc 0, 20)), ((ProposerProc 0, 20), (AcceptorProc 0, 10)),
      ((AcceptorProc 0, 30), (ProposerProc 0, 30)), ((ProposerProc 0, 30), (AcceptorProc 0, 30)),
      ((AcceptorProc 0, 11), (LearnerProc 0, 20)), ((LearnerProc 0, 20), (AcceptorProc 0, 11)),
      ((ProposerProc 0, 10), (ClientProc 0, 10)), ((ClientProc 0, 10), (ProposerProc 0, 10))]"

definition demo_receiver2 :: tcp_receiver where
  "demo_receiver2 = (case receiver_on_accept demo_ev 4 ((with_input 0 [])\<lparr>dw_fresh := 11\<rparr>, demo_receiver) of Inr x \<Rightarrow> snd x)"

definition demo_peer :: peers where
  "demo_peer = fst (peers_connect demo_ev peers_new \<lparr>address_string = ''127.0.0.1'', port = 8801\<rparr>
     ((with_input 0 [])\<lparr>dw_fresh := 19\<rparr>))"

definition demo_acceptor2 :: "mem_storage evacceptor" where
  "demo_acceptor2 = \<lparr>ea_acceptor_id = 0, ea_conf = empty_config, ea_receiver = demo_receiver2,
     ea_state = Some \<lparr>acc_store = small_store 0\<rparr>\<rparr>"

definition demo_proposer2 :: evproposer where
  "demo_proposer2 = \<lparr>ep_id = 0, ep_preexec_window = 1, ep_receiver = demo_receiver,
     ep_state = proposer_new 0 1, ep_acceptors = demo_peer, ep_tv = clock0, ep_timeout_ev = 1\<rparr>"

definition demo_learner2 :: evlearner where
  "demo_learner2 = \<lparr>el_state = small_learner 1, el_hole_timer = 1, el_tv = clock0, el_acceptors = demo_peer\<rparr>"

lemmas demo_process_defs = demo_acceptor2_def demo_proposer2_def demo_learner2_def

definition demo_deployment :: "(demo_world, mem_storage) deployment" where
  "demo_deployment =
     \<lparr>dp_world = (\<lambda>p. (with_input 0 [])\<lparr>dw_fresh := 30\<rparr>), dp_acceptors = [0 \<mapsto> demo_acceptor2], dp_proposers = [0 \<mapsto> demo_proposer2],
      dp_learners = [0 \<mapsto> demo_learner2], dp_fed = (\<lambda>e. 0), dp_closed = {}, dp_submitted = [], dp_delivered = [], dp_work = 0\<rparr>"

definition demo_actions :: "action list" where
  "demo_actions =
     [Submit 0 10 [7] 1, Arrive (ProposerProc 0) 10 5, Arrive (ProposerProc 0) 10 100, Proposer_handles 0 10,
      Arrive (AcceptorProc 0) 10 100, Acceptor_handles 0 10,
      Arrive (ProposerProc 0) 20 100, Proposer_handles 0 20,
      Proposer_calls 0 (PeerEvent 0 BEV_EVENT_EOF), Acceptor_calls 0 (AcceptorEvent 10 BEV_EVENT_EOF),
      Proposer_calls 0 (PeerTimeout 0), Acceptor_calls 0 (AcceptorConn 5),
      Proposer_timer 0 \<lparr>tv_sec = 100, tv_usec = 0\<rparr>,
      Arrive (AcceptorProc 0) 30 200, Acceptor_handles 0 30, Acceptor_handles 0 30,
      Arrive (LearnerProc 0) 20 100, Learner_handles 0 20]"

lemma demo_connections: "peers_bevs demo_peer = [20]" "peers_ok demo_peer"
  by (simp_all add: demo_peer_def peers_connect_def peers_new_def make_peer_def demo_ev_def with_input_def Let_def
      peers_bevs_def peers_ok_def)

lemma demo_receiver2_ok: "receiver_inv demo_receiver2 \<and> clist (tr_bevs demo_receiver2) = [10, 11]"
proof -
  have new: "bufferevent_socket_new demo_ev ((with_input 0 [])\<lparr>dw_fresh := 11\<rparr>) 4 = (11, (with_input 0 [])\<lparr>dw_fresh := 12\<rparr>)"
    by (simp add: demo_ev_def with_input_def)
  from receiver_on_accept_ok [OF demo_receiver_ok [THEN conjunct1] new] demo_receiver_ok show ?thesis
    by (auto simp: demo_receiver2_def)
qed

lemma demo_topology: "topology_ok (map_of demo_links)"
  by (auto simp: topology_ok_def demo_links_def split: if_splits)

lemma demo_deploy_init:
  "deploy_init dw_in dw_out (map_of demo_links) 1 small_store (small_learner 1) demo_deployment"
  using demo_connections demo_receiver2_ok
  by (auto simp: deploy_init_def demo_deployment_def demo_process_defs peers_wired_def demo_links_def MAX_N_OF_PROPOSERS_def
      split: if_splits)

lemma demo_delivers:
  "(case acts demo_links demo_actions demo_deployment of
      None \<Rightarrow> False | Some d \<Rightarrow> map (\<lambda>(k, e). (k, dl_iid e, dl_value e)) (dp_delivered d) = [(0, 1, [7])])"
  by code_simp

lemma demo_starts: "deploy_run demo_ev dw_in dw_out (map_of demo_links) mem_ops demo_deployment demo_deployment"
  by (rule deploy_run.start)
    (simp add: within_limits_def streams_bounded_def demo_deployment_def)

lemma demo_run_delivers:
  "\<exists>d e. deploy_run demo_ev dw_in dw_out (map_of demo_links) mem_ops demo_deployment d \<and>
     dp_delivered d = [(0, e)] \<and> dl_iid e = 1 \<and> dl_value e = [7]"
proof -
  from demo_delivers obtain d where "acts demo_links demo_actions demo_deployment = Some d"
    "map (\<lambda>(k, e). (k, dl_iid e, dl_value e)) (dp_delivered d) = [(0, 1, [7])]"
    by (auto split: option.splits)
  with acts_run [OF _ demo_starts] show ?thesis by (auto simp: map_eq_Cons_conv)
qed

section \<open>A state in which all three processes have something to do\<close>

text \<open>The acceptor and the learner have a message to read, the connection of the proposer breaks.\<close>

fun busy_world :: "process \<Rightarrow> demo_world" where
  "busy_world (AcceptorProc k) = with_input 10 (frame prepare_reqs (wire_body pad6 (MPrepare (prep 1 10))))"
| "busy_world (ProposerProc k) = (with_input 20 [1, 2, 3])\<lparr>dw_fresh := 30\<rparr>"
| "busy_world (LearnerProc k) = with_input 20 (frame accept_acks (ack_body pad6 (aack 0 1 10 10 [65, 0])))"
| "busy_world (ClientProc k) = with_input 0 []"

definition demo_busy :: "(demo_world, mem_storage) deployment" where
  "demo_busy = demo_deployment\<lparr>dp_world := busy_world\<rparr>"

definition busy_read :: acceptor_input where "busy_read = AcceptorRead 10 (\<lambda>i. []) pad6"
definition busy_break :: proposer_input where "busy_break = PeerEvent 0 BEV_EVENT_EOF"
definition busy_learn :: learner_input where "busy_learn = AcceptorMsg 20 (\<lambda>i. [])"

lemma demo_busy_processes:
  "dp_acceptors demo_busy 0 = Some demo_acceptor2" "acceptor_call_ok 0 demo_acceptor2 demo_busy busy_read"
  "dp_proposers demo_busy 0 = Some demo_proposer2" "proposer_call_ok 0 demo_busy busy_break"
  "dp_learners demo_busy 0 = Some demo_learner2" "learner_call_ok 0 demo_busy busy_learn"
  "dp_world demo_busy = busy_world"
  using demo_receiver2_ok
  by (simp_all add: demo_busy_def demo_deployment_def demo_process_defs busy_read_def busy_break_def busy_learn_def pad6_def)

lemma is_ok_call: "(case c of Some (Inr x) \<Rightarrow> P x | _ \<Rightarrow> False) \<longleftrightarrow> (\<exists>x. c = Some (Ok x) \<and> P x)"
  by (auto split: option.splits sum.splits)

lemma demo_busy_acceptor:
  "case acceptor_handler demo_ev mem_ops busy_read (busy_world (AcceptorProc 0), demo_acceptor2, []) of
     Some (Inr x) \<Rightarrow> dw_in (fst x) 10 = [] | _ \<Rightarrow> False"
  by code_simp

lemma demo_busy_proposer:
  "case proposer_handler demo_ev busy_break (busy_world (ProposerProc 0), demo_proposer2, []) of
     Some (Inr y) \<Rightarrow> dw_in (fst y) 20 = [] \<and> peers_bevs (ep_acceptors (fst (snd y))) = [30] \<and>
       wired_to (map_of demo_links) 0 (fst (snd y)) | _ \<Rightarrow> False"
  by code_simp

lemma demo_busy_learner:
  "case learner_handler demo_ev busy_learn (busy_world (LearnerProc 0), demo_learner2, []) of
     Some (Inr z) \<Rightarrow> snd (snd z) = [''Paxos instance 1 closed by ballot 10'', ''A''] | _ \<Rightarrow> False"
  by code_simp

lemma demo_break_closes: "proposer_closes demo_proposer2 busy_break = {20}"
  by code_simp

lemmas demo_busy_calls = demo_busy_acceptor demo_busy_proposer demo_busy_learner

end
