(* ===== verification/Restarts.thy ===== *)
theory Restarts
  imports Validity Storage_Bdb Scenarios
begin

text \<open>
  Processes that come back. An acceptor that is started again opens its storage again, a learner
  that is started again is a new learner, a proposer that is started again is a new proposer with
  its old id. With a storage that keeps what was committed (locale \<open>durable_store\<close>, the Berkeley DB
  storage) agreement and validity hold with any restarts of acceptors and learners. With the
  in-memory storage, or with restarts of proposers, they do not: two runs show it.

  A process may end between two calls, inside a call, or because a call fails. The end and the start
  of an acceptor are one occurrence, at the time of the start: what the others do in between does not
  depend on whether the acceptor is idle or gone. The states in which a request can be cut off are
  \<open>request_states\<close>; its answer is then not sent.
\<close>

section \<open>Runs with restarts\<close>

datatype 's occurrence =
    Call event
  | AcceptorRestarts nat "acceptor_request option" "'s option"
  | LearnerRestarts nat
  | ProposerRestarts nat

text \<open>
  \<open>n\<close> is the number of acceptors and \<open>l0\<close> the new learner. The arguments of \<open>AcceptorRestarts\<close> are
  the request that the acceptor was handling when it ended, if any, and what \<open>storage_open\<close> returns.
\<close>

fun occur :: "'s storage_ops \<Rightarrow> nat \<Rightarrow> learner \<Rightarrow> 's occurrence \<Rightarrow> 's system \<Rightarrow> 's system" where
  "occur ops n l0 (Call e) s = sys_step ops e s"
| "occur ops n l0 (AcceptorRestarts k q found) s =
     s\<lparr>sys_acceptors := (sys_acceptors s)(k := acceptor_new found)\<rparr>"
| "occur ops n l0 (LearnerRestarts j) s = s\<lparr>sys_learners := (sys_learners s)(j := Some l0)\<rparr>"
| "occur ops n l0 (ProposerRestarts k) s =
     s\<lparr>sys_proposers := (sys_proposers s)(k := Some (proposer_new (int k) n))\<rparr>"

fun occur_all :: "'s storage_ops \<Rightarrow> nat \<Rightarrow> learner \<Rightarrow> 's occurrence list \<Rightarrow> 's system \<Rightarrow> 's system" where
  "occur_all ops n l0 [] s = s"
| "occur_all ops n l0 (x # xs) s = occur_all ops n l0 xs (occur ops n l0 x s)"

text \<open>
  The states of the storage while an acceptor handles a request: after the transaction began, after the
  record was read, after the new record was put, and after the commit. A call that fails, fails in the
  step after the last of these states.
\<close>

fun request_change :: "'s storage_ops \<Rightarrow> acceptor_request \<Rightarrow> 's \<Rightarrow> acceptor_record option \<Rightarrow> 's res" where
  "request_change ops (RPrepare pr) s rec = rbind (apply_prepare ops s pr rec) (\<lambda>(_, t). Ok t)"
| "request_change ops (RAccept ar) s rec = rbind (apply_accept ops s ar rec) (\<lambda>(_, t). Ok t)"
| "request_change ops (RRepeat i) s rec = Ok s"

definition request_states :: "'s storage_ops \<Rightarrow> 's \<Rightarrow> acceptor_request \<Rightarrow> 's list" where
  "request_states ops s q =
     (case so_tx_begin ops s of Inl _ \<Rightarrow> [] | Inr s1 \<Rightarrow> s1 #
     (case so_get_record ops s1 (request_iid q) of Inl _ \<Rightarrow> [] | Inr (rec, s2) \<Rightarrow> s2 #
     (case request_change ops q s2 rec of Inl _ \<Rightarrow> [] | Inr s3 \<Rightarrow> s3 #
     (case so_tx_commit ops s3 of Inl _ \<Rightarrow> [] | Inr s4 \<Rightarrow> [s4]))))"

fun request_in_net :: "acceptor_request \<Rightarrow> 's system \<Rightarrow> bool" where
  "request_in_net (RPrepare pr) s = (MPrepare pr \<in> set (sys_net s))"
| "request_in_net (RAccept ar) s = (MAccept ar \<in> set (sys_net s))"
| "request_in_net (RRepeat i) s = True"

text \<open>
  The runs the protocol is meant for: calls as in \<open>event_ok\<close>, an acceptor opens the storage it had
  (\<open>reopens\<close>) between two calls or in one of the states of a request that was sent, and no proposer
  comes back.
\<close>

fun occurrence_ok :: "'s storage_ops \<Rightarrow> ('s \<Rightarrow> 's option \<Rightarrow> bool) \<Rightarrow> 's occurrence \<Rightarrow> 's system \<Rightarrow> bool" where
  "occurrence_ok ops reopens (Call e) s = event_ok ops e s"
| "occurrence_ok ops reopens (AcceptorRestarts k during found) s =
     (case sys_acceptors s k of
        None \<Rightarrow> False
      | Some a \<Rightarrow>
          (case during of
             None \<Rightarrow> reopens (acc_store a) found
           | Some q \<Rightarrow> request_in_net q s \<and>
               list_ex (\<lambda>t. reopens t found) (acc_store a # request_states ops (acc_store a) q)))"
| "occurrence_ok ops reopens (LearnerRestarts j) s = True"
| "occurrence_ok ops reopens (ProposerRestarts k) s = False"

fun occurrences_ok ::
  "'s storage_ops \<Rightarrow> nat \<Rightarrow> learner \<Rightarrow> ('s \<Rightarrow> 's option \<Rightarrow> bool) \<Rightarrow> 's occurrence list \<Rightarrow> 's system \<Rightarrow> bool" where
  "occurrences_ok ops n l0 reopens [] s = True"
| "occurrences_ok ops n l0 reopens (x # xs) s =
     (occurrence_ok ops reopens x s \<and> occurrences_ok ops n l0 reopens xs (occur ops n l0 x s))"

fun occurrence_values :: "'s occurrence \<Rightarrow> byte list list" where
  "occurrence_values (Call e) = event_values e"
| "occurrence_values _ = []"

definition all_submitted :: "'s occurrence list \<Rightarrow> byte list list" where
  "all_submitted xs = concat (map occurrence_values xs)"

section \<open>Storages that survive\<close>

text \<open>
  \<open>saved s\<close>: what the storage holds has been committed. \<open>reopens s found\<close>: \<open>found\<close> is what opening gives
  after a process with storage \<open>s\<close> has ended. A transaction that has not committed leaves no trace.
\<close>

locale durable_store = record_store ops lookup live owner inv
  for ops :: "'s storage_ops" and lookup live owner inv +
  fixes saved :: "'s \<Rightarrow> bool"
    and reopens :: "'s \<Rightarrow> 's option \<Rightarrow> bool"
  assumes commit_saves: "inv s \<Longrightarrow> so_tx_commit ops s = Ok t \<Longrightarrow> saved t"
    and begin_keeps: "so_tx_begin ops s = Ok t \<Longrightarrow> reopens t found \<Longrightarrow> reopens s found"
    and get_keeps: "so_get_record ops s i = Ok (old, t) \<Longrightarrow> reopens t found \<Longrightarrow> reopens s found"
    and save_prepare_keeps: "so_save_prepare ops s pr old = Ok (rec, t) \<Longrightarrow> reopens t found \<Longrightarrow> reopens s found"
    and save_accept_keeps: "so_save_accept ops s ar = Ok (rec, t) \<Longrightarrow> reopens t found \<Longrightarrow> reopens s found"
    and reopen: "inv s \<Longrightarrow> saved s \<Longrightarrow> reopens s (Some t) \<Longrightarrow>
      inv t \<and> saved t \<and> owner t = owner s \<and> lookup t = lookup s \<and> live t = live s"
begin

definition all_saved :: "'s system \<Rightarrow> bool" where
  "all_saved s \<longleftrightarrow> (\<forall>k a. sys_acceptors s k = Some a \<longrightarrow> saved (acc_store a))"

lemma request_saves:
  assumes inv: "inv (acc_store a)"
  shows "acceptor_receive_prepare ops a pr = Ok (rec, b) \<Longrightarrow> saved (acc_store b)"
    "acceptor_receive_accept ops a ar = Ok (rec, b) \<Longrightarrow> saved (acc_store b)"
    "acceptor_receive_repeat ops a i = Ok (r, b) \<Longrightarrow> saved (acc_store b)"
proof -
  {
    assume "acceptor_receive_prepare ops a pr = Ok (rec, b)"
    then obtain s1 old s2 s3 where s: "so_tx_begin ops (acc_store a) = Ok s1" "so_get_record ops s1 (pr_iid pr) = Ok (old, s2)"
      "apply_prepare ops s2 pr old = Ok (rec, s3)" "so_tx_commit ops s3 = Ok (acc_store b)"
      by (auto simp: acceptor_receive_prepare_def res_simps)
    from tx_begin [OF inv s(1)] apply_prepare_spec [OF _ s(2,3)] commit_saves [OF _ s(4)] show "saved (acc_store b)" by blast
  next
    assume "acceptor_receive_accept ops a ar = Ok (rec, b)"
    then obtain s1 old s2 s3 where s: "so_tx_begin ops (acc_store a) = Ok s1" "so_get_record ops s1 (ar_iid ar) = Ok (old, s2)"
      "apply_accept ops s2 ar old = Ok (rec, s3)" "so_tx_commit ops s3 = Ok (acc_store b)"
      by (auto simp: acceptor_receive_accept_def res_simps)
    from tx_begin [OF inv s(1)] apply_accept_spec [OF _ s(2,3)] commit_saves [OF _ s(4)] show "saved (acc_store b)" by blast
  next
    assume "acceptor_receive_repeat ops a i = Ok (r, b)"
    then obtain s1 s2 where s: "so_tx_begin ops (acc_store a) = Ok s1" "so_get_record ops s1 i = Ok (r, s2)"
      "so_tx_commit ops s2 = Ok (acc_store b)"
      by (auto simp: acceptor_receive_repeat_def res_simps)
    from tx_begin [OF inv s(1)] get_law [OF _ s(2)] commit_saves [OF _ s(3)] show "saved (acc_store b)" by blast
  }
qed

lemma with_acceptor_saved:
  assumes saved: "all_saved s"
    and f: "\<And>a ms b. sys_acceptors s k = Some a \<Longrightarrow> f a = Ok (ms, b) \<Longrightarrow> saved (acc_store b)"
  shows "all_saved (with_acceptor k f s)"
  using assms unfolding all_saved_def with_acceptor_def by (auto split: option.splits sum.splits if_splits)

lemma sys_step_saved:
  assumes good: "sys_good n w k s" and saved: "all_saved s"
  shows "all_saved (sys_step ops e s)"
proof -
  have inv: "inv (acc_store a)" if "sys_acceptors s j = Some a" for j a
    using acceptor_goodD(2) [OF sys_goodD(4) [OF good that]] by (simp add: store_ok_def)
  have calls: "all_saved (with_acceptor j (call_acceptor_prepare ops pr) s)"
    "all_saved (with_acceptor j (call_acceptor_accept ops ar) s)"
    "all_saved (with_acceptor j (call_acceptor_repeat ops i) s)" for j pr ar i
    using request_saves [OF inv]
    by (auto intro!: with_acceptor_saved [OF saved]
        simp: call_acceptor_prepare_def call_acceptor_accept_def call_acceptor_repeat_def res_simps)
  have others: "all_saved (with_proposer j f s)" "all_saved (with_learner j g s)" for j f g
    using saved by (auto simp: all_saved_def with_proposer_def with_learner_def split: option.splits sum.splits)
  show ?thesis
    using saved by (cases e) (auto simp: if_sent_def calls others, auto simp: all_saved_def split: if_splits)
qed

text \<open>A process that ends inside a call has either done nothing or all that the call does.\<close>

lemma change_keeps: "request_change ops q s old = Ok t \<Longrightarrow> reopens t found \<Longrightarrow> reopens s found"
  by (cases q) (auto simp: apply_prepare_def apply_accept_def res_simps split: option.splits if_splits
      intro: save_prepare_keeps save_accept_keeps)

lemma cut_off:
  assumes "u \<in> set (request_states ops s q)" "reopens u found"
  shows "reopens s found \<or> (\<exists>r. acceptor_handle ops \<lparr>acc_store = s\<rparr> q = Ok (r, \<lparr>acc_store = u\<rparr>))"
proof -
  from assms(1) obtain s1 where 1: "so_tx_begin ops s = Ok s1"
    by (cases "so_tx_begin ops s") (simp_all add: request_states_def)
  show ?thesis
  proof (cases "so_get_record ops s1 (request_iid q)")
    case (Inl e)
    with assms 1 begin_keeps [OF 1] show ?thesis by (simp add: request_states_def)
  next
    case (Inr x)
    then obtain old s2 where 2: "so_get_record ops s1 (request_iid q) = Ok (old, s2)" by (cases x) simp
    show ?thesis
    proof (cases "request_change ops q s2 old")
      case (Inl e)
      with assms 1 2 begin_keeps [OF 1] get_keeps [OF 2] show ?thesis by (auto simp: request_states_def)
    next
      case (Inr s3)
      note keeps = begin_keeps [OF 1] get_keeps [OF 2] change_keeps [OF Inr]
      consider "u \<in> {s1, s2, s3}" | "so_tx_commit ops s3 = Ok u"
        using assms(1) 1 2 Inr by (auto simp: request_states_def split: sum.splits)
      then show ?thesis
      proof cases
        case 1
        with assms(2) keeps show ?thesis by blast
      next
        case commit: 2
        have "\<exists>r. acceptor_handle ops \<lparr>acc_store = s\<rparr> q = Ok (r, \<lparr>acc_store = u\<rparr>)"
          using 1 2 Inr commit
          by (cases q) (auto simp: acceptor_receive_prepare_def acceptor_receive_accept_def
              acceptor_receive_repeat_def res_simps)
        then show ?thesis ..
      qed
    qed
  qed
qed

lemma handled_store:
  assumes good: "sys_good n w k s" and a: "sys_acceptors s j = Some a" and q: "request_in_net q s"
    and h: "acceptor_handle ops a q = Ok (r, b)"
  shows "saved (acc_store b)"
    and "i \<noteq> 0 \<Longrightarrow> live (acc_store b) i \<Longrightarrow> lookup (acc_store b) i = Some rec \<Longrightarrow>
      record_good (proposed_in (sys_net s)) rec"
proof -
  note A = acceptor_goodD [OF sys_goodD(4) [OF good a]]
  have inv: "inv (acc_store a)" using A(2) by (simp add: store_ok_def)
  show "saved (acc_store b)"
    using h request_saves [OF inv] by (cases q) (auto simp: res_simps)
  have sent: "record_good (proposed_in (sys_net s)) rec"
    if f: "f a = Ok (ms, b)" "sys_good n w (Suc k) (with_acceptor j f s)" "\<forall>m \<in> set ms. \<forall>ar. m \<noteq> MAccept ar"
      and i: "i \<noteq> 0" "live (acc_store b) i" "lookup (acc_store b) i = Some rec" for f ms
  proof -
    have "proposed_in (sys_net s @ ms) = proposed_in (sys_net s)"
      using f(3) by (intro ext) (auto simp: proposed_in_def)
    moreover have "sys_good n w (Suc k) (s\<lparr>sys_acceptors := (sys_acceptors s)(j \<mapsto> b), sys_net := sys_net s @ ms\<rparr>)"
      using f(1,2) a by (simp add: with_acceptor_def)
    from acceptor_goodD(5) [OF sys_goodD(4) [OF this, of j b] i] have "record_good (proposed_in (sys_net s @ ms)) rec"
      by simp
    ultimately show ?thesis by simp
  qed
  show "i \<noteq> 0 \<Longrightarrow> live (acc_store b) i \<Longrightarrow> lookup (acc_store b) i = Some rec \<Longrightarrow>
      record_good (proposed_in (sys_net s)) rec"
  proof (cases q)
    case (RPrepare pr)
    assume i: "i \<noteq> 0" "live (acc_store b) i" "lookup (acc_store b) i = Some rec"
    from RPrepare h obtain x where "acceptor_receive_prepare ops a pr = Ok (x, b)" by (auto simp: res_simps)
    then have "call_acceptor_prepare ops pr a = Ok ([MPromise (prepare_ack_of x)], b)" by (simp add: call_acceptor_prepare_def)
    from sent [OF this step_acceptor_prepare [OF good] _ i] q RPrepare show ?thesis by simp
  next
    case (RAccept ar)
    assume i: "i \<noteq> 0" "live (acc_store b) i" "lookup (acc_store b) i = Some rec"
    from RAccept h obtain x where "acceptor_receive_accept ops a ar = Ok (x, b)" by (auto simp: res_simps)
    then have "call_acceptor_accept ops ar a =
        Ok ([if ar_ballot ar = aa_ballot x then MAccepted (trunc_ack x) else MNack (trunc_ack x)], b)"
      by (simp add: call_acceptor_accept_def)
    from sent [OF this step_acceptor_accept [OF good] _ i] q RAccept show ?thesis by simp
  next
    case (RRepeat x)
    assume i: "i \<noteq> 0" "live (acc_store b) i" "lookup (acc_store b) i = Some rec"
    from RRepeat h have "acceptor_receive_repeat ops a x = Ok (r, b)" by simp
    from receive_repeat_spec [OF inv this] A(5) [OF i(1)] i show ?thesis by simp
  qed
qed

text \<open>A storage that may be opened again: the acceptor's own, or the one its last request leaves.\<close>

definition left_by :: "'s system \<Rightarrow> 's acceptor \<Rightarrow> 's \<Rightarrow> bool" where
  "left_by s a u \<longleftrightarrow> store_ok u \<and> owner u = owner (acc_store a) \<and> grows (acc_store a) u \<and> saved u \<and>
     (\<forall>i r. i \<noteq> 0 \<longrightarrow> live u i \<longrightarrow> lookup u i = Some r \<longrightarrow> record_good (proposed_in (sys_net s)) r)"

lemma restart_left:
  assumes good: "sys_good n w k s" and saved: "all_saved s" and a: "sys_acceptors s j = Some a"
    and ok: "occurrence_ok ops reopens (AcceptorRestarts j during found) s"
  shows "\<exists>u. left_by s a u \<and> reopens u found"
proof -
  note A = acceptor_goodD [OF sys_goodD(4) [OF good a]]
  have here: "left_by s a (acc_store a)"
    using A saved a by (simp add: left_by_def grows_def all_saved_def)
  show ?thesis
  proof (cases during)
    case None
    with ok a here show ?thesis by auto
  next
    case (Some q)
    with ok a have q: "request_in_net q s" by simp
    from Some ok a obtain u where u: "u = acc_store a \<or> u \<in> set (request_states ops (acc_store a) q)" "reopens u found"
      by (auto simp: list_ex_iff)
    with cut_off [of u "acc_store a" q found] consider "reopens (acc_store a) found"
      | r where "acceptor_handle ops a q = Ok (r, \<lparr>acc_store = u\<rparr>)"
      by (cases a) auto
    then show ?thesis
    proof cases
      case 1
      with here show ?thesis by blast
    next
      case 2
      from handle_grows [OF A(2) 2] handled_store [OF good a q 2] have "left_by s a u" by (simp add: left_by_def)
      with u(2) show ?thesis by blast
    qed
  qed
qed

lemma restart_acceptor_good:
  assumes good: "sys_good n w k s" and a: "sys_acceptors s j = Some a"
    and u: "left_by s a u" "reopens u found"
  shows "sys_good n w (Suc k) (s\<lparr>sys_acceptors := (sys_acceptors s)(j := acceptor_new found)\<rparr>)"
proof (cases found)
  case None
  with crash_acceptor_good [OF good] show ?thesis by (simp add: acceptor_new_def)
next
  case (Some t)
  have "inv u" "saved u" using u(1) by (simp_all add: left_by_def store_ok_def)
  from reopen [OF this u(2) [unfolded Some]] have
    t: "inv t" "owner t = owner u" "lookup t = lookup u" "live t = live u"
    by simp_all
  note U = u(1) [unfolded left_by_def]
  show ?thesis
  proof (rule acceptor_step_good [OF good a, where ?acc1.0 = "\<lparr>acc_store = t\<rparr>" and ?ms = "[]"])
    have "store_ok u" using U by blast
    then show "store_ok (acc_store \<lparr>acc_store = t\<rparr>)" using t by (simp add: store_ok_def)
    show "grows (acc_store a) (acc_store \<lparr>acc_store = t\<rparr>)" using U t by (simp add: grows_def)
    show "record_good (proposed_in (sys_net s)) r"
      if "i \<noteq> 0" "live (acc_store \<lparr>acc_store = t\<rparr>) i" "lookup (acc_store \<lparr>acc_store = t\<rparr>) i = Some r" for i r
      using U that t by simp
  qed (use U t Some in \<open>simp_all add: voted_in_def accepted_in_def acceptor_new_def\<close>)
qed

lemma restart_learner_good:
  assumes good: "sys_good n w k s" and l0: "learner_inv n w {} l0"
  shows "sys_good n w (Suc k) (s\<lparr>sys_learners := (sys_learners s)(j := Some l0)\<rparr>)"
  using learner_step_good [OF good, of "Some l0" "[]" j] learner_inv_mono [OF l0] by simp

lemma occur_good:
  assumes good: "sys_good n w k s" and saved: "all_saved s" and vals: "values_ok V s"
    and ok: "occurrence_ok ops reopens x s" and l0: "learner_inv n w {} l0"
    and k: "k < step_limit" "k + w + 1 < 2 ^ 31"
  shows "sys_good n w (Suc k) (occur ops m l0 x s) \<and> all_saved (occur ops m l0 x s) \<and>
    values_ok (set (occurrence_values x) \<union> V) (occur ops m l0 x s)"
proof (cases x)
  case (Call e)
  with sys_step_good [OF good _ k] ok sys_step_saved [OF good saved] sys_step_values [OF good vals]
  show ?thesis by simp
next
  case (AcceptorRestarts j during found)
  with ok obtain a where a: "sys_acceptors s j = Some a" by (auto split: option.splits)
  from restart_left [OF good saved a] ok AcceptorRestarts obtain u where
    u: "left_by s a u" "reopens u found" by blast
  have "inv u" "saved u" using u(1) by (simp_all add: left_by_def store_ok_def)
  then have "saved t" if "found = Some t" for t using reopen u(2) that by blast
  with saved have "all_saved (occur ops m l0 x s)"
    by (auto simp: AcceptorRestarts all_saved_def acceptor_new_def split: option.splits if_splits)
  with restart_acceptor_good [OF good a u] vals AcceptorRestarts show ?thesis by (simp add: values_ok_def)
next
  case (LearnerRestarts j)
  with restart_learner_good [OF good l0] saved vals show ?thesis by (simp add: all_saved_def values_ok_def)
qed (use ok in simp)

lemma occur_all_good:
  assumes "sys_good n w k s" "all_saved s" "values_ok V s" "occurrences_ok ops m l0 reopens xs s"
    and l0: "learner_inv n w {} l0" and "k + length xs \<le> step_limit" "k + length xs + w + 1 < 2 ^ 31"
  shows "sys_good n w (k + length xs) (occur_all ops m l0 xs s) \<and>
    values_ok (set (all_submitted xs) \<union> V) (occur_all ops m l0 xs s)"
  using assms(1-4,6,7)
proof (induction xs arbitrary: k s V)
  case (Cons x xs)
  from occur_good [OF Cons.prems(1-3) _ l0, of x m] Cons.prems(4-6)
  have "sys_good n w (Suc k) (occur ops m l0 x s) \<and> all_saved (occur ops m l0 x s) \<and>
    values_ok (set (occurrence_values x) \<union> V) (occur ops m l0 x s)" by simp
  with Cons.IH [of "Suc k" "occur ops m l0 x s" "set (occurrence_values x) \<union> V"] Cons.prems(4-6)
  show ?case by (simp add: all_submitted_def Un_assoc Un_left_commute)
qed (simp add: all_submitted_def)

theorem restarts_safe:
  assumes n: "0 < n" and l0: "learner_inv n w {} l0"
    and stores: "\<And>a. a < n \<Longrightarrow> store_ok (stores a) \<and> owner (stores a) = int a \<and> saved (stores a)"
    and fresh: "\<And>a i. a < n \<Longrightarrow> i \<noteq> 0 \<Longrightarrow> live (stores a) i \<Longrightarrow> lookup (stores a) i = None"
    and run: "occurrences_ok ops n l0 reopens xs (sys_init n stores l0)" "length xs \<le> step_limit"
      "length xs + w + 1 < 2 ^ 31"
    and d: "(j1, d1) \<in> set (sys_delivered (occur_all ops n l0 xs (sys_init n stores l0)))"
  shows "aa_payload d1 \<in> set (all_submitted xs)"
    "(j2, d2) \<in> set (sys_delivered (occur_all ops n l0 xs (sys_init n stores l0))) \<Longrightarrow> aa_iid d1 = aa_iid d2 \<Longrightarrow>
       aa_payload d1 = aa_payload d2"
proof -
  let ?init = "sys_init n stores l0" and ?s = "occur_all ops n l0 xs (sys_init n stores l0)"
  have init: "sys_good n w 0 ?init" by (rule sys_init_good [OF n l0]) (use stores fresh in blast)+
  have saved: "all_saved ?init" using stores by (auto simp: all_saved_def sys_init_def split: if_splits)
  from occur_all_good [OF init saved init_values run(1) l0] run(2,3)
  have good: "sys_good n w (length xs) ?s" and vals: "values_ok (set (all_submitted xs)) ?s" by simp_all
  from delivered_values [OF good vals d] show "aa_payload d1 \<in> set (all_submitted xs)" .
  show "(j2, d2) \<in> set (sys_delivered ?s) \<Longrightarrow> aa_iid d1 = aa_iid d2 \<Longrightarrow> aa_payload d1 = aa_payload d2"
    by (rule agreement [OF good d])
qed

end

text \<open>The Berkeley DB storage, opened again on the same directory without \<open>bdb-trash-files\<close> and with
  \<open>bdb-sync\<close>.\<close>

definition bdb_reopens ::
  "'e bdb_api \<Rightarrow> paxos_config \<Rightarrow> ('e \<Rightarrow> (byte list \<Rightarrow> byte list option) option) \<Rightarrow> 'e bdb_storage \<Rightarrow>
   'e bdb_storage option \<Rightarrow> bool" where
  "bdb_reopens api cfg disk s found \<longleftrightarrow>
     (\<exists>lib. disk lib = disk (bs_lib s) \<and> bdb_storage_open api cfg lib (bs_acceptor_id s) = Ok found)"

locale bdb_kept = bdb_files api contents good disk nosync + bdb_reads api contents good
  for api :: "'e bdb_api" and contents good disk nosync +
  fixes cfg :: paxos_config
  assumes kept: "bdb_trash_files cfg = 0" and sync: "bdb_sync cfg \<noteq> 0"

text \<open>The flag of the environment is never set again, so that it can be part of the invariant.\<close>

context bdb_kept
begin

abbreviation synced :: "'e \<Rightarrow> bool" where
  "synced e \<equiv> good e \<and> \<not> nosync e"

lemma synced_reads: "bdb_reads api contents synced"
proof (unfold_locales, goal_cases)
  case (1 e e1)
  then show ?case using txn_begin_law [of e e1] begin_disk_law [of e e1] by simp
next
  case (2 e e1)
  then show ?case using commit_law [of e e1] commit_disk_law [of e e1] by simp
next
  case (3 e k ulen r d e1)
  then show ?case using get_law [of e k ulen r d e1] get_disk_law [of e k ulen r d e1] by simp
next
  case (4 e k d e1)
  then show ?case using put_law [of e k d e1] put_disk_law [of e k d e1] by simp
next
  case (5 e k x ulen r d e1)
  then show ?case using read_law [of e k x ulen r d e1] by simp
qed

lemma synced_inv: "bdb_inv contents synced s \<longleftrightarrow> bdb_inv contents good s \<and> \<not> nosync (bs_lib s)"
  by (auto simp: bdb_inv_def)

lemma durable_contract:
  "durable_store (bdb_ops api) (bdb_lookup contents) bdb_live bs_acceptor_id (bdb_inv contents synced)
     (\<lambda>s. disk (bs_lib s) = Some (contents (bs_lib s))) (bdb_reopens api cfg disk)"
proof (intro durable_store.intro durable_store_axioms.intro)
  show "record_store (bdb_ops api) (bdb_lookup contents) bdb_live bs_acceptor_id (bdb_inv contents synced)"
    by (rule bdb_reads.contract [OF synced_reads])
  have keeps: "bdb_reopens api cfg disk s found" if "same_files s t" "bdb_reopens api cfg disk t found" for s t found
    using that by (simp add: bdb_reopens_def same_files_def)
  show "bdb_reopens api cfg disk s found"
    if "so_tx_begin (bdb_ops api) s = Ok t" "bdb_reopens api cfg disk t found" for s t found
    using keeps [OF before_commit(1) that(2)] that(1) by simp
  show "bdb_reopens api cfg disk s found"
    if "so_get_record (bdb_ops api) s i = Ok (old, t)" "bdb_reopens api cfg disk t found" for s t i old found
    using keeps [OF before_commit(2) that(2)] that(1) by simp
  show "bdb_reopens api cfg disk s found"
    if "so_save_prepare (bdb_ops api) s pr old = Ok (rec, t)" "bdb_reopens api cfg disk t found" for s t pr old rec found
    using keeps [OF before_commit(3) that(2)] that(1) by simp
  show "bdb_reopens api cfg disk s found"
    if "so_save_accept (bdb_ops api) s ar = Ok (rec, t)" "bdb_reopens api cfg disk t found" for s t ar rec found
    using keeps [OF before_commit(4) that(2)] that(1) by simp
  show "disk (bs_lib t) = Some (contents (bs_lib t))"
    if "bdb_inv contents synced s" "so_tx_commit (bdb_ops api) s = Ok t" for s t
    using that commit_on_disk [of s t] by (simp add: synced_inv)
  fix s t
  assume inv: "bdb_inv contents synced s" and d: "disk (bs_lib s) = Some (contents (bs_lib s))"
    and re: "bdb_reopens api cfg disk s (Some t)"
  from re d obtain lib where "disk lib = Some (contents (bs_lib s))"
    "bdb_storage_open api cfg lib (bs_acceptor_id s) = Ok (Some t)" by (auto simp: bdb_reopens_def)
  from reopened [OF _ this kept] inv sync show "bdb_inv contents synced t \<and> disk (bs_lib t) = Some (contents (bs_lib t)) \<and>
      bs_acceptor_id t = bs_acceptor_id s \<and> bdb_lookup contents t = bdb_lookup contents s \<and> bdb_live t = bdb_live s"
    by (simp add: synced_inv)
qed

sublocale durable: durable_store "bdb_ops api" "bdb_lookup contents" bdb_live bs_acceptor_id "bdb_inv contents synced"
  "\<lambda>s. disk (bs_lib s) = Some (contents (bs_lib s))" "bdb_reopens api cfg disk"
  by (rule durable_contract)

lemma opened_empty:
  assumes "bdb_storage_open api cfg lib aid = Ok (Some s)" "disk lib = None" "- (2 ^ 31) \<le> aid" "aid < 2 ^ 31"
  shows "durable.store_ok s \<and> bs_acceptor_id s = aid \<and> disk (bs_lib s) = Some (contents (bs_lib s)) \<and>
    bdb_lookup contents s i = None"
  using open_inv [OF assms(1)] assms(2-4) sync by (simp add: durable.store_ok_def synced_inv)

end

end
