(* ===== verification/Bdb_Example.thy ===== *)
theory Bdb_Example
  imports Storage_Bdb
begin

text \<open>
  A small database that behaves as the locales of \<open>Storage_Bdb\<close> require: entries in the
  lexicographic order of their keys, a copy of them on disk and a cursor. It shows that the
  hypotheses on Berkeley DB can hold together and gives the theorems about the storage concrete
  instances. A variant whose reads fail behaves as documented, too.
\<close>

record ref_db =
  rd_disk :: "(byte list \<times> byte list) list option"
  rd_data :: "(byte list \<times> byte list) list option"
  rd_cursor :: "byte list list"
  rd_nosync :: bool

fun rd_insert :: "byte list \<Rightarrow> byte list \<Rightarrow> (byte list \<times> byte list) list \<Rightarrow> (byte list \<times> byte list) list" where
  "rd_insert k d [] = [(k, d)]"
| "rd_insert k d ((l, x) # xs) =
     (if k = l then (k, d) # xs
      else if ord_class.lexordp k l then (k, d) # (l, x) # xs
      else (l, x) # rd_insert k d xs)"

definition rd_sort :: "(byte list \<times> byte list) list \<Rightarrow> (byte list \<times> byte list) list" where
  "rd_sort xs = foldr (\<lambda>(k, d). rd_insert k d) xs []"

definition rd_sorted :: "(byte list \<times> byte list) list \<Rightarrow> bool" where
  "rd_sorted xs = sorted_wrt ord_class.lexordp (map fst xs)"

definition ref_api :: "ref_db bdb_api" where
  "ref_api =
     \<lparr>os_stat = (\<lambda>e p. (if rd_disk e = None then - 1 else 0, e)),
      os_mkdir = (\<lambda>e p. (0, e\<lparr>rd_disk := Some []\<rparr>)),
      os_system = (\<lambda>e c. (0, e\<lparr>rd_disk := None\<rparr>)),
      db_env_create = (\<lambda>e. (0, e\<lparr>rd_nosync := False\<rparr>)),
      env_set_flags = (\<lambda>e f on. (0, if f = DB_TXN_WRITE_NOSYNC then e\<lparr>rd_nosync := (on \<noteq> 0)\<rparr> else e)),
      env_set_cachesize = (\<lambda>e g b n. (0, e)),
      env_open = (\<lambda>e p f. (if rd_disk e = None then 2 else 0, e)),
      env_close = (\<lambda>e. (0, e)),
      env_txn_begin = (\<lambda>e. (0, e)),
      txn_commit = (\<lambda>e. (0, if rd_nosync e then e else e\<lparr>rd_disk := rd_data e\<rparr>)),
      db_create = (\<lambda>e. (0, e)),
      db_open = (\<lambda>e p f. (if rd_disk e = None then 2 else 0,
                          e\<lparr>rd_data := map_option rd_sort (rd_disk e)\<rparr>)),
      db_close = (\<lambda>e. (0, e\<lparr>rd_data := None\<rparr>)),
      db_get = (\<lambda>e k ulen.
        case map_of (case rd_data e of None \<Rightarrow> [] | Some xs \<Rightarrow> xs) k of
          None \<Rightarrow> (DB_NOTFOUND, [], e)
        | Some d \<Rightarrow> if length d \<le> ulen then (0, d, e) else (DB_BUFFER_SMALL, [], e)),
      db_put = (\<lambda>e k d. (0, e\<lparr>rd_data := map_option (rd_insert k d) (rd_data e)\<rparr>)),
      db_cursor = (\<lambda>e. (0, e\<lparr>rd_cursor := (case rd_data e of None \<Rightarrow> [] | Some xs \<Rightarrow> map fst xs)\<rparr>)),
      dbc_get = (\<lambda>e. case rd_cursor e of [] \<Rightarrow> (DB_NOTFOUND, [], e) | k # ks \<Rightarrow> (0, k, e\<lparr>rd_cursor := ks\<rparr>)),
      dbc_close = (\<lambda>e. (0, e))\<rparr>"

definition ref_contents :: "ref_db \<Rightarrow> byte list \<Rightarrow> byte list option" where
  "ref_contents e = map_of (case rd_data e of None \<Rightarrow> [] | Some xs \<Rightarrow> xs)"

definition ref_good :: "ref_db \<Rightarrow> bool" where
  "ref_good e = (case rd_data e of None \<Rightarrow> False | Some xs \<Rightarrow> rd_sorted xs)"

definition ref_disk :: "ref_db \<Rightarrow> (byte list \<Rightarrow> byte list option) option" where
  "ref_disk e = map_option map_of (rd_disk e)"

definition ref_ahead :: "ref_db \<Rightarrow> byte list list" where
  "ref_ahead e = rd_cursor e"

lemma map_of_rd_insert: "map_of (rd_insert k d xs) = (map_of xs)(k \<mapsto> d)"
  by (induction k d xs rule: rd_insert.induct) (auto simp: fun_eq_iff)

lemma rd_insert_keys: "set (map fst (rd_insert k d xs)) = insert k (set (map fst xs))"
  by (induction k d xs rule: rd_insert.induct) auto

lemma rd_insert_sorted: "rd_sorted xs \<Longrightarrow> rd_sorted (rd_insert k d xs)"
proof (induction k d xs rule: rd_insert.induct)
  case (2 k d l x xs)
  have trans: "ord_class.lexordp k y" if "ord_class.lexordp k l" "ord_class.lexordp l y" for y
    using that by (rule lexordp_trans)
  have lin: "ord_class.lexordp l k" if "k \<noteq> l" "\<not> ord_class.lexordp k l"
    using that lexordp_linear [of k l] by auto
  show ?case
    using 2 trans lin rd_insert_keys [of k d xs] by (auto simp: rd_sorted_def)
qed (simp add: rd_sorted_def)

lemma rd_sort_ok: "rd_sorted (rd_sort xs)" "map_of (rd_sort xs) = map_of xs"
  by (induction xs) (auto simp: rd_sort_def rd_sorted_def [of "[]"] rd_insert_sorted map_of_rd_insert)

interpretation ref: bdb_reads ref_api ref_contents ref_good
  by unfold_locales
    (auto simp: ref_api_def ref_contents_def ref_good_def map_of_rd_insert rd_insert_sorted
      DB_NOTFOUND_def DB_KEYEMPTY_def DB_BUFFER_SMALL_def split: option.splits if_splits)

interpretation ref_files: bdb_files ref_api ref_contents ref_good ref_disk rd_nosync
  by unfold_locales
    (auto simp: ref_api_def ref_contents_def ref_good_def ref_disk_def rd_sort_ok
      split: option.splits if_splits)

interpretation ref_cursor: bdb_cursor ref_api ref_contents ref_good ref_ahead
  by unfold_locales
    (force simp: ref_api_def ref_contents_def ref_good_def ref_ahead_def rd_sorted_def dom_map_of_conv_image_fst
      split: option.splits list.splits)+

section \<open>Storages on the example database\<close>

definition ref_empty :: ref_db where
  "ref_empty = \<lparr>rd_disk = None, rd_data = None, rd_cursor = [], rd_nosync = False\<rparr>"

definition ref_store :: "int \<Rightarrow> ref_db bdb_storage" where
  "ref_store aid =
     \<lparr>bs_lib = \<lparr>rd_disk = Some [], rd_data = Some [], rd_cursor = [], rd_nosync = False\<rparr>, bs_db = True, bs_env = True,
      bs_txn = True, bs_acceptor_id = aid, bs_record_buf = replicate PAXOS_MAX_VALUE_SIZE 0\<rparr>"

lemma ref_open:
  "bdb_trash_files cfg = 0 \<Longrightarrow> bdb_sync cfg \<noteq> 0 \<Longrightarrow> bdb_storage_open ref_api cfg ref_empty aid = Ok (Some (ref_store aid))"
  by (simp add: bdb_storage_open_def ref_api_def ref_empty_def ref_store_def Let_def
      bdb_init_tx_handle_def bdb_init_db_def bdb_storage_tx_begin_def bdb_storage_tx_commit_def rd_sort_def)

lemma ref_store_inv:
  "- (2 ^ 31) \<le> aid \<Longrightarrow> aid < 2 ^ 31 \<Longrightarrow> bdb_inv ref_contents ref_good (ref_store aid)"
  by (simp add: bdb_inv_def ref_store_def ref_contents_def ref_good_def rd_sorted_def)

text \<open>The calls of the example database do not fail, so neither does the storage.\<close>

lemma ref_begin: "bs_env s \<Longrightarrow> bdb_storage_tx_begin ref_api s = Ok (s\<lparr>bs_txn := True\<rparr>)"
  by (simp add: bdb_storage_tx_begin_def ref_api_def)

lemma ref_commit:
  "bs_txn s \<Longrightarrow> bdb_storage_tx_commit ref_api s = Ok (s\<lparr>bs_lib :=
     if rd_nosync (bs_lib s) then bs_lib s else (bs_lib s)\<lparr>rd_disk := rd_data (bs_lib s)\<rparr>\<rparr>)"
  by (simp add: bdb_storage_tx_commit_def ref_api_def)

lemma ref_get:
  assumes "bdb_inv ref_contents ref_good s"
  shows "\<exists>old t. bdb_storage_get_record ref_api s i = Ok (old, t) \<and> bs_txn t = bs_txn s"
proof (cases "ref_contents (bs_lib s) (enc32 i)")
  case None
  then have "db_get ref_api (bs_lib s) (enc32 i) PAXOS_MAX_VALUE_SIZE = (DB_NOTFOUND, [], bs_lib s)"
    by (simp add: ref_api_def ref_contents_def)
  with assms show ?thesis by (simp add: bdb_storage_get_record_def bdb_inv_def)
next
  case (Some d)
  with assms have d: "data_ok i d" by (simp add: bdb_inv_def)
  with Some have "db_get ref_api (bs_lib s) (enc32 i) PAXOS_MAX_VALUE_SIZE = (0, d, bs_lib s)"
    by (simp add: ref_api_def ref_contents_def data_ok_def)
  with assms d show ?thesis
    by (simp add: bdb_storage_get_record_def bdb_inv_def DB_NOTFOUND_def DB_KEYEMPTY_def Let_def
        cast_accept_ack_def data_ok_def dec_prefix)
qed

lemma ref_put:
  assumes "record_in i buf" "bs_db s"
  shows "\<exists>t. put_record ref_api (s\<lparr>bs_record_buf := buf\<rparr>) i = Ok t \<and> bs_txn t = bs_txn s"
  using assms
  by (simp add: put_record_def record_size Let_def record_in_def ref_api_def)

lemma ref_prepare_total:
  assumes inv: "bdb_inv ref_contents ref_good (acc_store a)"
  shows "\<exists>rec b. acceptor_receive_prepare (bdb_ops ref_api) a pr = Ok (rec, b)"
proof -
  let ?s = "(acc_store a)\<lparr>bs_txn := True\<rparr>"
  have env: "bs_env (acc_store a)" and s: "bdb_inv ref_contents ref_good ?s"
    using inv by (simp_all add: bdb_inv_def)
  from ref_get [OF s] obtain old t where t: "bdb_storage_get_record ref_api ?s (pr_iid pr) = Ok (old, t)"
    and txn: "bs_txn t" by fastforce
  note G = ref.get_record_ok [OF s t]
  then have tb: "length (bs_record_buf t) = PAXOS_MAX_VALUE_SIZE" "- (2 ^ 31) \<le> bs_acceptor_id t"
    "bs_acceptor_id t < 2 ^ 31" "bs_db t" by (simp_all add: bdb_inv_def)
  define buf where "buf = (case old of
      None \<Rightarrow> set_fields (pr_iid pr) (pr_ballot pr) 0 0 0 (set_acceptor_id (bs_acceptor_id t) (bs_record_buf t))
    | Some _ \<Rightarrow> set_ballot (pr_ballot pr) (bs_record_buf t))"
  have "record_in (pr_iid pr) buf"
    using G promise_buffer [OF tb(1-3), of "pr_iid pr" "pr_ballot pr" 0]
      ballot_buffer [of "pr_iid pr" "bs_record_buf t" "pr_ballot pr"]
    by (auto simp: buf_def split: option.splits)
  from ref_put [OF this tb(4)] txn obtain u where
    "put_record ref_api (t\<lparr>bs_record_buf := buf\<rparr>) (pr_iid pr) = Ok u" "bs_txn u" by auto
  then have "\<exists>rec u. apply_prepare (bdb_ops ref_api) t pr old = Ok (rec, u) \<and> bs_txn u"
    using txn by (auto simp: apply_prepare_def bdb_storage_save_prepare_def Let_def buf_def split: option.splits)
  then show ?thesis
    using env t by (auto simp: acceptor_receive_prepare_def ref_begin ref_commit)
qed

lemma ref_accept_total:
  assumes inv: "bdb_inv ref_contents ref_good (acc_store a)"
    and v: "unat (ar_value_size ar) \<le> length (ar_value ar)"
      "32 + unat (ar_value_size ar) \<le> PAXOS_MAX_VALUE_SIZE"
  shows "\<exists>rec b. acceptor_receive_accept (bdb_ops ref_api) a ar = Ok (rec, b)"
proof -
  let ?s = "(acc_store a)\<lparr>bs_txn := True\<rparr>"
  have env: "bs_env (acc_store a)" and s: "bdb_inv ref_contents ref_good ?s"
    using inv by (simp_all add: bdb_inv_def)
  from ref_get [OF s] obtain old t where t: "bdb_storage_get_record ref_api ?s (ar_iid ar) = Ok (old, t)"
    and txn: "bs_txn t" by fastforce
  note G = ref.get_record_ok [OF s t]
  then have tb: "length (bs_record_buf t) = PAXOS_MAX_VALUE_SIZE" "- (2 ^ 31) \<le> bs_acceptor_id t"
    "bs_acceptor_id t < 2 ^ 31" "bs_db t" by (simp_all add: bdb_inv_def)
  have "\<not> PAXOS_MAX_VALUE_SIZE - 32 < unat (ar_value_size ar)" using v(2) by simp
  with v(1) obtain buf where buf: "set_value (ar_value ar) (ar_value_size ar)
      (set_fields (ar_iid ar) (ar_ballot ar) (ar_ballot ar) 0 (ar_value_size ar)
        (set_acceptor_id (bs_acceptor_id t) (bs_record_buf t))) = Ok buf"
    by (simp add: set_value_def memcpy_def sizeof_defs)
  note B = accept_buffer [OF tb(1-3) buf]
  then obtain u where "put_record ref_api (t\<lparr>bs_record_buf := buf\<rparr>) (ar_iid ar) = Ok u" "bs_txn u"
    using ref_put [of "ar_iid ar" buf t] tb(4) txn by auto
  then have "\<exists>rec u. apply_accept (bdb_ops ref_api) t ar old = Ok (rec, u) \<and> bs_txn u"
    using txn buf by (auto simp: apply_accept_def bdb_storage_save_accept_def split: option.splits)
  then show ?thesis
    using env t by (auto simp: acceptor_receive_accept_def ref_begin ref_commit)
qed

text \<open>A run of requests on both storages.\<close>

definition example_requests :: "acceptor_request list" where
  "example_requests =
     [RPrepare \<lparr>pr_iid = 1, pr_ballot = 10\<rparr>,
      RAccept \<lparr>ar_iid = 1, ar_ballot = 10, ar_value_size = 2, ar_value = [7, 8, 9]\<rparr>,
      RPrepare \<lparr>pr_iid = 1, pr_ballot = 21\<rparr>]"

lemma ref_vote:
  "\<exists>r1 r2 b2. acceptor_run (bdb_ops ref_api) \<lparr>acc_store = ref_store 0\<rparr> (take 2 example_requests) = Ok ([Some r1, Some r2], b2) \<and>
     bdb_inv ref_contents ref_good (acc_store b2) \<and> bs_acceptor_id (acc_store b2) = 0 \<and>
     bdb_lookup ref_contents (acc_store b2) 1 = Some r2 \<and> aa_value_ballot r2 = 10 \<and> aa_payload r2 = [7, 8]"
proof -
  let ?ar = "\<lparr>ar_iid = 1, ar_ballot = 10, ar_value_size = 2, ar_value = [7, 8, 9]\<rparr>"
  have inv: "bdb_inv ref_contents ref_good (acc_store \<lparr>acc_store = ref_store 0\<rparr>)"
    by (simp add: ref_store_inv)
  from ref_prepare_total [OF inv, of "\<lparr>pr_iid = 1, pr_ballot = 10\<rparr>"] obtain r1 b1 where
    1: "acceptor_receive_prepare (bdb_ops ref_api) \<lparr>acc_store = ref_store 0\<rparr> \<lparr>pr_iid = 1, pr_ballot = 10\<rparr> = Ok (r1, b1)"
    by blast
  note P = ref.bs.receive_prepare_spec [OF inv 1]
  have none: "bdb_lookup ref_contents (ref_store 0) 1 = None"
    by (simp add: bdb_lookup_def ref_contents_def ref_store_def)
  have inv1: "bdb_inv ref_contents ref_good (acc_store b1)" using P by blast
  have r1: "bdb_lookup ref_contents (acc_store b1) 1 = Some r1" "aa_ballot r1 = 10" "bs_acceptor_id (acc_store b1) = 0"
    using P none by (simp_all add: store_write_def prepare_answer_def is_promise_record_def ref_store_def)
  from ref_accept_total [OF inv1, of ?ar] obtain r2 b2 where
    2: "acceptor_receive_accept (bdb_ops ref_api) b1 ?ar = Ok (r2, b2)"
    by (auto simp: PAXOS_MAX_VALUE_SIZE_def)
  note A = ref.bs.receive_accept_spec [OF inv1 2]
  have "bdb_lookup ref_contents (acc_store b2) 1 = Some r2 \<and> aa_value_ballot r2 = 10 \<and> aa_payload r2 = [7, 8]"
    using A r1 by (simp add: store_write_def accept_answer_def is_accept_record_def ar_payload_def)
  with 1 2 A r1(3) show ?thesis
    by (intro exI [of _ r1] exI [of _ r2] exI [of _ b2]) (simp add: example_requests_def)
qed

lemma ref_example_run:
  "\<exists>rs b. acceptor_run (bdb_ops ref_api) \<lparr>acc_store = ref_store 0\<rparr> example_requests = Ok (rs, b)"
proof -
  from ref_vote obtain rs b2 where
    2: "acceptor_run (bdb_ops ref_api) \<lparr>acc_store = ref_store 0\<rparr> (take 2 example_requests) = Ok (rs, b2)"
      "bdb_inv ref_contents ref_good (acc_store b2)" by (elim exE conjE)
  from ref_prepare_total [OF 2(2), of "\<lparr>pr_iid = 1, pr_ballot = 21\<rparr>"] obtain r3 b3 where
    3: "acceptor_receive_prepare (bdb_ops ref_api) b2 \<lparr>pr_iid = 1, pr_ballot = 21\<rparr> = Ok (r3, b3)"
    by blast
  show ?thesis using 2(1) 3 by (auto simp: example_requests_def res_simps)
qed

section \<open>Reads that fail\<close>

text \<open>The same database, whose disk cannot be read: every get returns the error number 5 (EIO).\<close>

definition faulty_api :: "ref_db bdb_api" where
  "faulty_api = ref_api\<lparr>db_get := \<lambda>e k ulen. (5, [], e)\<rparr>"

interpretation faulty: bdb faulty_api ref_contents ref_good
  by unfold_locales
    (auto simp: faulty_api_def ref_api_def ref_contents_def ref_good_def map_of_rd_insert rd_insert_sorted
      DB_NOTFOUND_def DB_KEYEMPTY_def split: option.splits if_splits)

lemma faulty_prepare_total:
  assumes inv: "bdb_inv ref_contents ref_good (acc_store a)"
  shows "\<exists>rec b. acceptor_receive_prepare (bdb_ops faulty_api) a pr = Ok (rec, b)"
proof -
  let ?s = "acc_store a"
  have s: "length (bs_record_buf ?s) = PAXOS_MAX_VALUE_SIZE" "- (2 ^ 31) \<le> bs_acceptor_id ?s"
    "bs_acceptor_id ?s < 2 ^ 31" "bs_db ?s" "bs_env ?s"
    using inv by (simp_all add: bdb_inv_def)
  define buf where "buf = set_fields (pr_iid pr) (pr_ballot pr) 0 0 0 (set_acceptor_id (bs_acceptor_id ?s) (bs_record_buf ?s))"
  have b: "record_in (pr_iid pr) buf" using promise_buffer [OF s(1-3)] by (simp add: buf_def)
  then show ?thesis
    using record_size [OF b] s
    by (simp add: acceptor_receive_prepare_def bdb_storage_tx_begin_def bdb_storage_tx_commit_def
        bdb_storage_get_record_def apply_prepare_def bdb_storage_save_prepare_def put_record_def
        faulty_api_def ref_api_def Let_def record_in_def buf_def)
qed

end
