(* ===== verification/Restart_Example.thy ===== *)
theory Restart_Example
  imports Restarts Bdb_Example
begin

text \<open>
  Runs with restarts. With the in-memory storage an acceptor forgets its vote and two learners
  disagree; a proposer that comes back uses its first ballot again and two learners disagree; with
  the database of \<open>Bdb_Example\<close> an acceptor comes back with its promise.
\<close>

section \<open>An acceptor that forgets\<close>

text \<open>
  The value 7 is accepted by acceptors 0 and 1 and delivered. Acceptor 1 restarts with an empty
  storage and promises ballot 11 without a value, and so the value 9 is chosen.
\<close>

definition forget_run :: "mem_storage occurrence list" where
  "forget_run =
     map Call
       [EPrepare 0 zeros clock0, EAcceptorPrepare 0 (prep 1 10), EAcceptorPrepare 1 (prep 1 10),
        EPromise 0 clock0 (promise 0 1 10 0 []), EPromise 0 clock0 (promise 1 1 10 0 []),
        EPropose 0 [7] 1, EAccept 0, EAcceptorAccept 0 (areq 1 10 [7]), EAcceptorAccept 1 (areq 1 10 [7]),
        ELearn 0 (aack 0 1 10 10 [7]), ELearn 0 (aack 1 1 10 10 [7]), EDeliver 0] @
     [AcceptorRestarts 1 None (Some (small_store 1))] @
     map Call
       [EPrepare 1 zeros clock0, EAcceptorPrepare 1 (prep 1 11), EAcceptorPrepare 2 (prep 1 11),
        EPromise 1 clock0 (promise 1 1 11 0 []), EPromise 1 clock0 (promise 2 1 11 0 []),
        EPropose 1 [9] 1, EAccept 1, EAcceptorAccept 1 (areq 1 11 [9]), EAcceptorAccept 2 (areq 1 11 [9]),
        ELearn 1 (aack 1 1 11 11 [9]), ELearn 1 (aack 2 1 11 11 [9]), EDeliver 1]"

lemma forget_run_delivers:
  "sys_delivered (occur_all mem_ops 3 (small_learner 3) forget_run (small_init 3)) =
     [(0, aack 1 1 10 10 [7]), (1, aack 2 1 11 11 [9])]"
  by code_simp

section \<open>A proposer that comes back\<close>

text \<open>
  Proposer 0 sends an accept request for the value 7 with ballot 10 and restarts before any acceptor
  gets it. It prepares the instance again, with the same ballot, and proposes 9. Acceptors 1 and 2
  accept 9; then acceptors 0 and 1 get the old request, which has the ballot they promised, and
  accept 7.
\<close>

definition same_ballot_run :: "'s occurrence list" where
  "same_ballot_run =
     map Call
       [EPrepare 0 zeros clock0, EAcceptorPrepare 0 (prep 1 10), EAcceptorPrepare 1 (prep 1 10),
        EAcceptorPrepare 2 (prep 1 10),
        EPromise 0 clock0 (promise 0 1 10 0 []), EPromise 0 clock0 (promise 1 1 10 0 []),
        EPropose 0 [7] 1, EAccept 0] @
     [ProposerRestarts 0] @
     map Call
       [EPrepare 0 zeros clock0, EAcceptorPrepare 1 (prep 1 10), EAcceptorPrepare 2 (prep 1 10),
        EPromise 0 clock0 (promise 1 1 10 0 []), EPromise 0 clock0 (promise 2 1 10 0 []),
        EPropose 0 [9] 1, EAccept 0,
        EAcceptorAccept 1 (areq 1 10 [9]), EAcceptorAccept 2 (areq 1 10 [9]),
        ELearn 0 (aack 1 1 10 10 [9]), ELearn 0 (aack 2 1 10 10 [9]), EDeliver 0,
        EAcceptorAccept 0 (areq 1 10 [7]), EAcceptorAccept 1 (areq 1 10 [7]),
        ELearn 1 (aack 0 1 10 10 [7]), ELearn 1 (aack 1 1 10 10 [7]), EDeliver 1]"

lemma same_ballot_run_delivers:
  "sys_delivered (occur_all mem_ops 3 (small_learner 3) same_ballot_run (small_init 3)) =
     [(0, aack 2 1 10 10 [9]), (1, aack 1 1 10 10 [7])]"
  by code_simp

section \<open>A durable acceptor\<close>

definition synced_config :: paxos_config where
  "synced_config = small_config\<lparr>bdb_sync := 1\<rparr>"

lemma synced_config_sel [simp]:
  "bdb_sync synced_config = 1" "bdb_trash_files synced_config = 0" "learner_instances synced_config = learner_instances small_config"
  by (simp_all add: synced_config_def small_config_def default_config_def)

lemma synced_learner: "learner_new synced_config 3 = Ok (small_learner 3)"
  using small_learner_new by (simp add: learner_new_def synced_config_def)

interpretation ref_kept: bdb_kept ref_api ref_contents ref_good ref_disk rd_nosync synced_config
  by unfold_locales simp_all

abbreviation ref_init :: "ref_db bdb_storage system" where
  "ref_init \<equiv> sys_init 3 (\<lambda>a. ref_store (int a)) (small_learner 3)"

lemma ref_reopen:
  assumes "rd_disk (bs_lib s) \<noteq> None"
  shows "\<exists>u. bdb_reopens ref_api synced_config ref_disk s (Some u)"
proof -
  from assms have "\<exists>u. bdb_storage_open ref_api synced_config (bs_lib s) (bs_acceptor_id s) = Ok (Some u)"
    by (auto simp: bdb_storage_open_def ref_api_def Let_def
      bdb_init_tx_handle_def bdb_init_db_def bdb_storage_tx_begin_def bdb_storage_tx_commit_def)
  then show ?thesis unfolding bdb_reopens_def by blast
qed

lemma first_prepare:
  "case call_prepare zeros clock0 (proposer_new 0 3) of Inr (ms, p) \<Rightarrow> ms = [MPrepare (prep 1 10)] | Inl _ \<Rightarrow> False"
  by code_simp

lemma calls_ok:
  "list_all plain_event es \<Longrightarrow> occurrences_ok ops n l0 reopens (map Call es) s"
proof (induction es arbitrary: s)
  case (Cons e es)
  then show ?case by (cases e) simp_all
qed simp

text \<open>
  Acceptor 0 ends while it handles the first prepare request, after the commit and before it has
  answered; it comes back with its promise, and the request that was sent to it reaches it again.
\<close>

definition durable_run :: "ref_db bdb_storage \<Rightarrow> ref_db bdb_storage occurrence list" where
  "durable_run u =
     map Call (take 1 compete_run) @ [AcceptorRestarts 0 (Some (RPrepare (prep 1 10))) (Some u), LearnerRestarts 1] @
     map Call (drop 1 compete_run)"

lemma durable_run_ok:
  "\<exists>u. bdb_lookup ref_contents u 1 \<noteq> None \<and>
    occurrences_ok (bdb_ops ref_api) 3 (small_learner 3) (bdb_reopens ref_api synced_config ref_disk) (durable_run u) ref_init"
proof -
  let ?s1 = "sys_step (bdb_ops ref_api) (EPrepare 0 zeros clock0) ref_init"
  let ?q = "RPrepare (prep 1 10)"
  have net: "sys_net ?s1 = [MPrepare (prep 1 10)]" "sys_acceptors ?s1 0 = Some \<lparr>acc_store = ref_store 0\<rparr>"
    using first_prepare by (auto simp: with_proposer_def sys_init_def MAX_N_OF_PROPOSERS_def split: sum.splits)
  have inv: "bdb_inv ref_contents ref_good (acc_store \<lparr>acc_store = ref_store 0\<rparr>)"
    "bdb_inv ref_contents ref_kept.synced (acc_store \<lparr>acc_store = ref_store 0\<rparr>)"
    by (simp_all add: ref_store_inv ref_kept.synced_inv, simp add: ref_store_def)
  from ref_prepare_total [OF inv(1)] obtain rec b where
    b: "acceptor_receive_prepare (bdb_ops ref_api) \<lparr>acc_store = ref_store 0\<rparr> (prep 1 10) = Ok (rec, b)" by blast
  note B = ref_kept.durable.receive_prepare_spec [OF inv(2) b]
  have end_state: "acc_store b \<in> set (request_states (bdb_ops ref_api) (ref_store 0) ?q)"
    using b by (auto simp: acceptor_receive_prepare_def request_states_def res_simps)
  have "ref_disk (bs_lib (acc_store b)) = Some (ref_contents (bs_lib (acc_store b)))"
    by (rule ref_kept.durable.request_saves(1) [OF inv(2) b])
  moreover from this have "rd_disk (bs_lib (acc_store b)) \<noteq> None" by (auto simp: ref_disk_def)
  ultimately obtain u where u: "bdb_reopens ref_api synced_config ref_disk (acc_store b) (Some u)"
    "bdb_lookup ref_contents u = bdb_lookup ref_contents (acc_store b)"
    using ref_reopen ref_kept.durable.reopen B by blast
  have "bdb_lookup ref_contents u 1 \<noteq> None" using B u(2) by (simp add: store_write_def prep_def)
  moreover have "list_all plain_event (drop 1 compete_run)" by (simp add: compete_run_def)
  moreover have "list_ex (\<lambda>t. bdb_reopens ref_api synced_config ref_disk t (Some u))
      (ref_store 0 # request_states (bdb_ops ref_api) (ref_store 0) ?q)"
    using u(1) end_state by (auto simp: list_ex_iff)
  ultimately show ?thesis
    using net calls_ok by (intro exI [of _ u]) (simp add: durable_run_def compete_run_def del: sys_step.simps)
qed

end
