(* ===== verification/Storage_Equiv.thy ===== *)
theory Storage_Equiv
  imports Storage_Mem Storage_Bdb
begin

text \<open>
  The acceptor is linked with one of two storages. The locale \<open>store_pair\<close> holds two storages
  that keep the contract \<open>record_store\<close>; as long as neither fails, an acceptor gives the same
  answers with either. It is instantiated with the in-memory storage and Berkeley DB.
\<close>

text \<open>What can be seen of a record: its fields and its value.\<close>

definition record_view :: "acceptor_record \<Rightarrow> acceptor_record" where
  "record_view r = r\<lparr>aa_value := aa_payload r\<rparr>"

lemma record_view_eq:
  "record_view r = record_view s \<longleftrightarrow>
     aa_acceptor_id r = aa_acceptor_id s \<and> aa_iid r = aa_iid s \<and> aa_ballot r = aa_ballot s \<and>
     aa_value_ballot r = aa_value_ballot s \<and> aa_is_final r = aa_is_final s \<and>
     aa_value_size r = aa_value_size s \<and> aa_payload r = aa_payload s"
  by (cases r; cases s) (auto simp: record_view_def)

lemma payload_empty: "aa_value_size r = 0 \<Longrightarrow> aa_payload r = []"
  by (simp add: aa_payload_def)

text \<open>An answer is determined by what can be seen of the record before.\<close>

lemma prepare_answer_view:
  assumes "prepare_answer aid pr old1 r1" "prepare_answer aid pr old2 r2"
    and "map_option record_view old1 = map_option record_view old2"
  shows "record_view r1 = record_view r2"
  using assms
  by (cases old1; cases old2)
    (auto simp: prepare_answer_def is_promise_record_def record_view_eq payload_empty aa_payload_def
      split: if_splits)

lemma accept_answer_view:
  assumes "accept_answer aid ar old1 r1" "accept_answer aid ar old2 r2"
    and "map_option record_view old1 = map_option record_view old2"
  shows "record_view r1 = record_view r2"
  using assms
  by (cases old1; cases old2)
    (auto simp: accept_answer_def is_accept_record_def record_view_eq split: if_splits)

locale store_pair = one: record_store ops1 lookup1 live1 owner1 inv1 +
  two: record_store ops2 lookup2 live2 owner2 inv2
  for ops1 :: "'s storage_ops" and lookup1 live1 owner1 inv1
    and ops2 :: "'t storage_ops" and lookup2 live2 owner2 inv2
begin

definition same_records :: "'s \<Rightarrow> 't \<Rightarrow> bool" where
  "same_records s t \<longleftrightarrow> inv1 s \<and> inv2 t \<and> owner1 s = owner2 t \<and>
     (\<forall>i. i \<noteq> 0 \<longrightarrow> live1 s i \<longrightarrow> live2 t i \<longrightarrow>
        map_option record_view (lookup1 s i) = map_option record_view (lookup2 t i))"

lemma same_write:
  assumes "same_records s t" "record_view r1 = record_view r2"
    and "store_write lookup1 live1 i r1 s s1" "store_write lookup2 live2 i r2 t t1"
    and "inv1 s1" "inv2 t1" "owner1 s1 = owner1 s" "owner2 t1 = owner2 t"
  shows "same_records s1 t1"
  unfolding same_records_def
proof (intro conjI allI impI)
  fix j assume j: "j \<noteq> 0" "live1 s1 j" "live2 t1 j"
  show "map_option record_view (lookup1 s1 j) = map_option record_view (lookup2 t1 j)"
  proof (cases "j = i")
    case True
    with assms(2-4) show ?thesis by (simp add: store_write_def)
  next
    case False
    with assms(3,4) j have "live1 s j" "live2 t j" "lookup1 s1 j = lookup1 s j" "lookup2 t1 j = lookup2 t j"
      by (auto simp: store_write_def)
    with assms(1) j(1) show ?thesis by (simp add: same_records_def)
  qed
qed (use assms in \<open>simp_all add: same_records_def\<close>)

lemma handle_same:
  assumes same: "same_records (acc_store a) (acc_store b)" and i: "request_iid q \<noteq> 0"
    and h: "acceptor_handle ops1 a q = Ok (r1, a1)" "acceptor_handle ops2 b q = Ok (r2, b1)"
  shows "map_option record_view r1 = map_option record_view r2 \<and>
    same_records (acc_store a1) (acc_store b1)"
proof -
  have inv: "inv1 (acc_store a)" "inv2 (acc_store b)" "owner1 (acc_store a) = owner2 (acc_store b)"
    using same by (simp_all add: same_records_def)
  have eq: "map_option record_view (lookup1 (acc_store a) (request_iid q)) =
      map_option record_view (lookup2 (acc_store b) (request_iid q))"
    if "live1 (acc_store a) (request_iid q)" "live2 (acc_store b) (request_iid q)"
    using that same i by (simp add: same_records_def)
  show ?thesis
  proof (cases q)
    case (RPrepare pr)
    from h RPrepare obtain x y where x: "acceptor_receive_prepare ops1 a pr = Ok (x, a1)" "r1 = Some x"
      and y: "acceptor_receive_prepare ops2 b pr = Ok (y, b1)" "r2 = Some y"
      by (auto simp: res_simps)
    note X = one.receive_prepare_spec [OF inv(1) x(1)] and Y = two.receive_prepare_spec [OF inv(2) y(1)]
    have "record_view x = record_view y"
      using prepare_answer_view [of "owner2 (acc_store b)" pr "lookup1 (acc_store a) (pr_iid pr)" x
          "lookup2 (acc_store b) (pr_iid pr)" y] X Y inv eq RPrepare by simp
    with same_write [OF same] X Y x(2) y(2) show ?thesis by auto
  next
    case (RAccept ar)
    from h RAccept obtain x y where x: "acceptor_receive_accept ops1 a ar = Ok (x, a1)" "r1 = Some x"
      and y: "acceptor_receive_accept ops2 b ar = Ok (y, b1)" "r2 = Some y"
      by (auto simp: res_simps)
    note X = one.receive_accept_spec [OF inv(1) x(1)] and Y = two.receive_accept_spec [OF inv(2) y(1)]
    have "record_view x = record_view y"
      using accept_answer_view [of "owner2 (acc_store b)" ar "lookup1 (acc_store a) (ar_iid ar)" x
          "lookup2 (acc_store b) (ar_iid ar)" y] X Y inv eq RAccept by simp
    with same_write [OF same] X Y x(2) y(2) show ?thesis by auto
  next
    case (RRepeat j)
    with h have x: "acceptor_receive_repeat ops1 a j = Ok (r1, a1)"
      and y: "acceptor_receive_repeat ops2 b j = Ok (r2, b1)" by simp_all
    note X = one.receive_repeat_spec [OF inv(1) x] and Y = two.receive_repeat_spec [OF inv(2) y]
    with same eq RRepeat show ?thesis by (auto simp: same_records_def)
  qed
qed

theorem runs_same:
  "same_records (acc_store a) (acc_store b) \<Longrightarrow> \<forall>q \<in> set qs. request_iid q \<noteq> 0 \<Longrightarrow>
   acceptor_run ops1 a qs = Ok (rs1, a1) \<Longrightarrow> acceptor_run ops2 b qs = Ok (rs2, b1) \<Longrightarrow>
   map (map_option record_view) rs1 = map (map_option record_view) rs2"
proof (induction qs arbitrary: a b rs1 rs2)
  case (Cons q qs)
  from Cons.prems(3,4) obtain r1 a2 ss1 r2 b2 ss2 where
    h: "acceptor_handle ops1 a q = Ok (r1, a2)" "acceptor_handle ops2 b q = Ok (r2, b2)"
    and t: "acceptor_run ops1 a2 qs = Ok (ss1, a1)" "acceptor_run ops2 b2 qs = Ok (ss2, b1)"
    and rs: "rs1 = r1 # ss1" "rs2 = r2 # ss2"
    by (auto simp: res_simps)
  have "request_iid q \<noteq> 0" using Cons.prems(2) by simp
  note H = handle_same [OF Cons.prems(1) this h]
  with Cons.IH [OF _ _ t] Cons.prems(2) rs show ?case by simp
qed simp

end

text \<open>The two storages of the library.\<close>

context bdb_reads
begin

sublocale both: store_pair mem_ops mem_lookup mem_live ms_acceptor_id "\<lambda>s. True"
  "bdb_ops api" "bdb_lookup contents" bdb_live bs_acceptor_id "bdb_inv contents good"
  by (rule store_pair.intro) (rule mem.record_store_axioms, rule bs.record_store_axioms)

lemma mem_bdb_same:
  assumes "bdb_inv contents good t" "\<forall>i. i \<noteq> 0 \<longrightarrow> contents (bs_lib t) (enc32 i) = None"
    and "acceptor_run mem_ops \<lparr>acc_store = storage_open junk (bs_acceptor_id t)\<rparr> qs = Ok (rs1, a1)"
    and "acceptor_run (bdb_ops api) \<lparr>acc_store = t\<rparr> qs = Ok (rs2, b1)"
    and "\<forall>q \<in> set qs. request_iid q \<noteq> 0"
  shows "map (map_option record_view) rs1 = map (map_option record_view) rs2"
proof (rule both.runs_same [OF _ assms(5,3,4)])
  show "both.same_records (acc_store \<lparr>acc_store = storage_open junk (bs_acceptor_id t)\<rparr>) (acc_store \<lparr>acc_store = t\<rparr>)"
    using assms(1,2)
    by (auto simp: both.same_records_def storage_open_def mem_lookup_def bdb_lookup_def)
qed

end

end
