(* ===== verification/Acceptor_Tests.thy ===== *)
theory Acceptor_Tests
  imports Storage_Mem
begin

text \<open>
  \<open>unit/acceptor_unittest.cc\<close>: the unit tests of the acceptor, as programs over the model. A
  failed \<open>ASSERT\<close> ends a test, as in the test framework; a test passes when its result is
  \<open>Ok ()\<close>. The tests are functions of the storage, as the library is: they are evaluated for the
  in-memory storage, whatever its buffers hold when they are allocated.
\<close>

section \<open>The fixture\<close>

definition test_prepare_req :: "iid_t \<Rightarrow> ballot_t \<Rightarrow> prepare_req" where
  "test_prepare_req i b = \<lparr>pr_iid = i, pr_ballot = b\<rparr>"

text \<open>An accept request without a value.\<close>

definition test_accept_req :: "iid_t \<Rightarrow> ballot_t \<Rightarrow> accept_req" where
  "test_accept_req i b = \<lparr>ar_iid = i, ar_ballot = b, ar_value_size = 0, ar_value = []\<rparr>"

definition acceptor_test_id :: int where
  "acceptor_test_id = 2"

text \<open>\<open>opened\<close> is the result of \<open>storage_open\<close>.\<close>

definition AcceptorTest_SetUp :: "'s option \<Rightarrow> 's acceptor res" where
  "AcceptorTest_SetUp opened =
     (case acceptor_new opened of None \<Rightarrow> Err NullPointer | Some a \<Rightarrow> Ok a)"

section \<open>The tests\<close>

text \<open>The six assertions on a record that the first two tests share.\<close>

definition assert_promised :: "acceptor_record \<Rightarrow> unit res" where
  "assert_promised rec =
     rbind (rassert (aa_acceptor_id rec = acceptor_test_id)) (\<lambda>_.
     rbind (rassert (aa_iid rec = 1)) (\<lambda>_.
     rbind (rassert (aa_ballot rec = 101)) (\<lambda>_.
     rbind (rassert (aa_is_final rec = 0)) (\<lambda>_.
     rbind (rassert (aa_value_ballot rec = 0)) (\<lambda>_.
       rassert (aa_value_size rec = 0))))))"

definition AcceptorTest_Prepare :: "'s storage_ops \<Rightarrow> 's acceptor \<Rightarrow> unit res" where
  "AcceptorTest_Prepare ops a =
     rbind (acceptor_receive_prepare ops a (test_prepare_req 1 101)) (\<lambda>(rec, _).
       assert_promised rec)"

definition AcceptorTest_PrepareDuplicate :: "'s storage_ops \<Rightarrow> 's acceptor \<Rightarrow> unit res" where
  "AcceptorTest_PrepareDuplicate ops a =
     (let p = test_prepare_req 1 101 in
      rbind (acceptor_receive_prepare ops a p) (\<lambda>(_, a1).
      rbind (acceptor_receive_prepare ops a1 p) (\<lambda>(rec, _).
        assert_promised rec)))"

text \<open>Prepare requests for instance 1 in order; each answer must carry the expected ballot.\<close>

fun prepare_ballots ::
  "'s storage_ops \<Rightarrow> (ballot_t \<times> ballot_t) list \<Rightarrow> 's acceptor \<Rightarrow> unit res" where
  "prepare_ballots ops [] a = Ok ()"
| "prepare_ballots ops ((b, expected) # bs) a =
     rbind (acceptor_receive_prepare ops a (test_prepare_req 1 b)) (\<lambda>(rec, a1).
     rbind (rassert (aa_ballot rec = expected)) (\<lambda>_. prepare_ballots ops bs a1))"

definition AcceptorTest_PrepareSmallerBallot :: "'s storage_ops \<Rightarrow> 's acceptor \<Rightarrow> unit res" where
  "AcceptorTest_PrepareSmallerBallot ops a =
     (let ballots = [11, 5, 9] in prepare_ballots ops (map (\<lambda>b. (b, ballots ! 0)) ballots) a)"

definition AcceptorTest_PrepareHigherBallot :: "'s storage_ops \<Rightarrow> 's acceptor \<Rightarrow> unit res" where
  "AcceptorTest_PrepareHigherBallot ops a =
     (let ballots = [0, 10, 11] in prepare_ballots ops (map (\<lambda>b. (b, b)) ballots) a)"

definition AcceptorTest_Accept :: "'s storage_ops \<Rightarrow> 's acceptor \<Rightarrow> unit res" where
  "AcceptorTest_Accept ops a =
     rbind (acceptor_receive_accept ops a (test_accept_req 1 101)) (\<lambda>(rec, _).
     rbind (rassert (aa_acceptor_id rec = acceptor_test_id)) (\<lambda>_.
     rbind (rassert (aa_iid rec = 1)) (\<lambda>_.
     rbind (rassert (aa_ballot rec = 101)) (\<lambda>_.
     rbind (rassert (aa_is_final rec = 0)) (\<lambda>_.
     rbind (rassert (aa_value_ballot rec = 101)) (\<lambda>_.
       rassert (aa_value_size rec = 0)))))))"

text \<open>
  The three tests that prepare one ballot and then accept another, with the ballots expected
  after the accept request.
\<close>

definition prepare_then_accept ::
  "'s storage_ops \<Rightarrow> 's acceptor \<Rightarrow> ballot_t \<Rightarrow> ballot_t \<Rightarrow> ballot_t \<Rightarrow> ballot_t \<Rightarrow> unit res" where
  "prepare_then_accept ops a pb ab ballot vballot =
     rbind (acceptor_receive_prepare ops a (test_prepare_req 1 pb)) (\<lambda>(rec, a1).
     rbind (rassert (aa_ballot rec = pb)) (\<lambda>_.
     rbind (rassert (aa_value_ballot rec = 0)) (\<lambda>_.
     rbind (acceptor_receive_accept ops a1 (test_accept_req 1 ab)) (\<lambda>(rec2, _).
     rbind (rassert (aa_ballot rec2 = ballot)) (\<lambda>_.
       rassert (aa_value_ballot rec2 = vballot))))))"

definition AcceptorTest_AcceptPrepared :: "'s storage_ops \<Rightarrow> 's acceptor \<Rightarrow> unit res" where
  "AcceptorTest_AcceptPrepared ops a = prepare_then_accept ops a 101 101 101 101"

definition AcceptorTest_AcceptHigherBallot :: "'s storage_ops \<Rightarrow> 's acceptor \<Rightarrow> unit res" where
  "AcceptorTest_AcceptHigherBallot ops a = prepare_then_accept ops a 101 201 201 201"

definition AcceptorTest_AcceptSmallerBallot :: "'s storage_ops \<Rightarrow> 's acceptor \<Rightarrow> unit res" where
  "AcceptorTest_AcceptSmallerBallot ops a = prepare_then_accept ops a 201 101 201 0"

definition AcceptorTest_PrepareWithAcceptedValue :: "'s storage_ops \<Rightarrow> 's acceptor \<Rightarrow> unit res" where
  "AcceptorTest_PrepareWithAcceptedValue ops a =
     rbind (acceptor_receive_prepare ops a (test_prepare_req 1 101)) (\<lambda>(_, a1).
     rbind (acceptor_receive_accept ops a1 (test_accept_req 1 101)) (\<lambda>(_, a2).
     rbind (acceptor_receive_prepare ops a2 (test_prepare_req 1 201)) (\<lambda>(rec, _).
     rbind (rassert (aa_ballot rec = 201)) (\<lambda>_.
       rassert (aa_value_ballot rec = 101)))))"

definition acceptor_tests :: "('s storage_ops \<Rightarrow> 's acceptor \<Rightarrow> unit res) list" where
  "acceptor_tests =
     [AcceptorTest_Prepare, AcceptorTest_PrepareDuplicate, AcceptorTest_PrepareSmallerBallot,
      AcceptorTest_PrepareHigherBallot, AcceptorTest_Accept, AcceptorTest_AcceptPrepared,
      AcceptorTest_AcceptHigherBallot, AcceptorTest_AcceptSmallerBallot,
      AcceptorTest_PrepareWithAcceptedValue]"

section \<open>The tests on the in-memory storage\<close>

lemma mem_setup:
  "AcceptorTest_SetUp (Some (storage_open junk acceptor_test_id)) =
     Ok \<lparr>acc_store = storage_open junk acceptor_test_id\<rparr>"
  by (simp add: AcceptorTest_SetUp_def acceptor_new_def)


lemmas acceptor_test_defs =
  AcceptorTest_Prepare_def
  AcceptorTest_PrepareDuplicate_def
  AcceptorTest_PrepareSmallerBallot_def
  AcceptorTest_PrepareHigherBallot_def
  AcceptorTest_Accept_def
  AcceptorTest_AcceptPrepared_def
  AcceptorTest_AcceptHigherBallot_def
  AcceptorTest_AcceptSmallerBallot_def
  AcceptorTest_PrepareWithAcceptedValue_def
  prepare_then_accept_def assert_promised_def
  test_prepare_req_def test_accept_req_def acceptor_test_id_def

lemmas mem_eval = acceptor_receive_prepare_def acceptor_receive_accept_def apply_prepare_def
  apply_accept_def storage_tx_begin_def storage_tx_commit_def storage_get_record_def
  storage_save_prepare_def storage_save_accept_def memcpy_def storage_open_def Let_def

lemma acceptor_tests_mem:
  "list_all (\<lambda>t. t mem_ops \<lparr>acc_store = storage_open junk acceptor_test_id\<rparr> = Ok ()) acceptor_tests"
  by (simp add: acceptor_tests_def acceptor_test_defs mem_eval)

end
