(* ===== verification/Learner_Tests.thy ===== *)
theory Learner_Tests
  imports Learner
begin

text \<open>
  \<open>unit/learner_unittest.cc\<close>: the unit tests of the learner, as programs over the model. A test
  passes when its result is \<open>Ok ()\<close>. \<open>l\<close> is the learner the fixture makes, for three acceptors.
\<close>

section \<open>The fixture\<close>

text \<open>The tests write their acknowledgements with the fields in this order and without a value.\<close>

definition test_ack :: "int \<Rightarrow> iid_t \<Rightarrow> ballot_t \<Rightarrow> accept_ack" where
  "test_ack aid iid bal =
     \<lparr>aa_acceptor_id = aid, aa_iid = iid, aa_ballot = bal, aa_value_ballot = bal,
      aa_is_final = 0, aa_value_size = 0, aa_value = []\<rparr>"

definition learner_test_acceptors :: nat where
  "learner_test_acceptors = 3"

definition LearnerTest_SetUp :: "paxos_config \<Rightarrow> learner res" where
  "LearnerTest_SetUp cfg = learner_new (cfg\<lparr>verbosity := PAXOS_LOG_ERROR\<rparr>) learner_test_acceptors"

text \<open>Acknowledgements received one after the other.\<close>

fun receive_all :: "accept_ack list \<Rightarrow> learner \<Rightarrow> learner res" where
  "receive_all [] l = Ok l"
| "receive_all (a # as) l = rbind (learner_receive_accept l a) (receive_all as)"

text \<open>A call of \<open>learner_deliver_next\<close> that must return NULL, and one that must not.\<close>

definition deliver_none :: "learner \<Rightarrow> learner res" where
  "deliver_none l =
     rbind (learner_deliver_next l) (\<lambda>(delivered, l1).
     rbind (rassert (delivered = None)) (\<lambda>_. Ok l1))"

definition deliver_some :: "learner \<Rightarrow> (accept_ack \<times> learner) res" where
  "deliver_some l =
     rbind (learner_deliver_next l) (\<lambda>(delivered, l1).
       case delivered of None \<Rightarrow> Err AssertFailed | Some d \<Rightarrow> Ok (d, l1))"

section \<open>The tests\<close>

definition LearnerTest_Learn :: "learner \<Rightarrow> unit res" where
  "LearnerTest_Learn l =
     rbind (deliver_none l) (\<lambda>l1.
     rbind (learner_receive_accept l1 (test_ack 1 1 101)) (\<lambda>l2.
     rbind (deliver_none l2) (\<lambda>l3.
     rbind (learner_receive_accept l3 (test_ack 2 1 101)) (\<lambda>l4.
     rbind (deliver_some l4) (\<lambda>(d, _).
     rbind (rassert (aa_iid d = 1)) (\<lambda>_.
     rbind (rassert (aa_ballot d = 101)) (\<lambda>_.
     rbind (rassert (aa_value_ballot d = 101)) (\<lambda>_.
     rbind (rassert (aa_is_final d = 0)) (\<lambda>_.
       rassert (aa_value_size d = 0))))))))))"

definition LearnerTest_LearnInOrder :: "learner \<Rightarrow> unit res" where
  "LearnerTest_LearnInOrder l =
     rbind (receive_all [test_ack 2 2 101, test_ack 1 2 101] l) (\<lambda>l1.
     rbind (deliver_none l1) (\<lambda>l2.
     rbind (receive_all [test_ack 2 1 101, test_ack 1 1 101] l2) (\<lambda>l3.
     rbind (deliver_some l3) (\<lambda>(d, l4).
     rbind (rassert (aa_iid d = 1)) (\<lambda>_.
     rbind (deliver_some l4) (\<lambda>(d2, _).
       rassert (aa_iid d2 = 2)))))))"

definition LearnerTest_IgnoreDuplicates :: "learner \<Rightarrow> unit res" where
  "LearnerTest_IgnoreDuplicates l =
     rbind (receive_all [test_ack 1 1 101, test_ack 1 1 101, test_ack 1 1 101] l) (\<lambda>l1.
     rbind (deliver_none l1) (\<lambda>l2.
     rbind (learner_receive_accept l2 (test_ack 2 1 101)) (\<lambda>l3.
     rbind (deliver_some l3) (\<lambda>(d, _). rassert (aa_iid d = 1)))))"

definition LearnerTest_LearnMajority :: "learner \<Rightarrow> unit res" where
  "LearnerTest_LearnMajority l =
     rbind (receive_all [test_ack 0 1 101, test_ack 1 1 100] l) (\<lambda>l1.
     rbind (deliver_none l1) (\<lambda>l2.
     rbind (learner_receive_accept l2 (test_ack 2 1 101)) (\<lambda>l3.
     rbind (deliver_some l3) (\<lambda>(d, _).
     rbind (rassert (aa_iid d = 1)) (\<lambda>_.
       rassert (aa_ballot d = 101))))))"

definition LearnerTest_IgnoreOlderBallot :: "learner \<Rightarrow> unit res" where
  "LearnerTest_IgnoreOlderBallot l =
     rbind (receive_all [test_ack 1 1 101, test_ack 1 1 201] l) (\<lambda>l1.
     rbind (deliver_none l1) (\<lambda>l2.
     rbind (learner_receive_accept l2 (test_ack 2 1 201)) (\<lambda>l3.
     rbind (deliver_some l3) (\<lambda>(d, _).
     rbind (rassert (aa_iid d = 1)) (\<lambda>_.
       rassert (aa_ballot d = 201))))))"

definition LearnerTest_NoHoles :: "learner \<Rightarrow> unit res" where
  "LearnerTest_NoHoles l =
     rbind (receive_all [test_ack 1 1 101, test_ack 2 1 101] l) (\<lambda>l1.
     rbind (learner_deliver_next l1) (\<lambda>(_, l2).
       rassert (learner_has_holes l2 = None)))"

definition LearnerTest_OneHole :: "learner \<Rightarrow> unit res" where
  "LearnerTest_OneHole l =
     rbind (receive_all [test_ack 1 1 101, test_ack 2 1 101] l) (\<lambda>l1.
     rbind (learner_deliver_next l1) (\<lambda>(_, l2).
     rbind (receive_all [test_ack 1 3 101, test_ack 2 3 101] l2) (\<lambda>l3.
     rbind (learner_deliver_next l3) (\<lambda>(_, l4).
       rassert (learner_has_holes l4 = Some (2, 3))))))"

definition LearnerTest_ManyHoles :: "learner \<Rightarrow> unit res" where
  "LearnerTest_ManyHoles l =
     rbind (receive_all [test_ack 1 2 101, test_ack 2 2 101] l) (\<lambda>l1.
     rbind (learner_deliver_next l1) (\<lambda>(_, l2).
     rbind (receive_all [test_ack 1 100 101, test_ack 2 100 101] l2) (\<lambda>l3.
     rbind (learner_deliver_next l3) (\<lambda>(_, l4).
       rassert (learner_has_holes l4 = Some (1, 100))))))"

definition learner_tests :: "(learner \<Rightarrow> unit res) list" where
  "learner_tests =
     [LearnerTest_Learn, LearnerTest_LearnInOrder, LearnerTest_IgnoreDuplicates,
      LearnerTest_LearnMajority, LearnerTest_IgnoreOlderBallot, LearnerTest_NoHoles,
      LearnerTest_OneHole, LearnerTest_ManyHoles]"

definition learner_tests_pass :: "paxos_config \<Rightarrow> bool" where
  "learner_tests_pass cfg =
     (case LearnerTest_SetUp cfg of
        Inl _ \<Rightarrow> False
      | Inr l \<Rightarrow> list_all (\<lambda>t. t l = Ok ()) learner_tests)"

end
