(* ===== verification/Proposer_Tests.thy ===== *)
theory Proposer_Tests
  imports Proposer
begin

text \<open>
  \<open>unit/proposer_unittest.cc\<close>: the unit tests of the proposer, as programs over the model. A
  test passes when its result is \<open>Ok ()\<close>. \<open>junk\<close> is the contents of the memory that instances
  are allocated in, \<open>t0\<close> the clock up to the call of \<open>usleep\<close> and \<open>t1\<close> the clock after it.
\<close>

section \<open>The fixture\<close>

definition proposer_test_id :: int where "proposer_test_id = 2"

definition proposer_test_acceptors :: nat where "proposer_test_acceptors = 3"

definition proposer_test_quorum :: nat where
  "proposer_test_quorum = paxos_quorum proposer_test_acceptors"

definition proposer_test_config :: paxos_config where
  "proposer_test_config = default_config\<lparr>proposer_timeout := 100, verbosity := PAXOS_LOG_DEBUG\<rparr>"

definition ProposerTest_SetUp :: proposer where
  "ProposerTest_SetUp = proposer_new proposer_test_id proposer_test_acceptors"

text \<open>A C string with its terminating NUL, and the comparison of two of them.\<close>

definition cstr :: "string \<Rightarrow> byte list" where
  "cstr s = map of_char s @ [0]"

definition streq :: "byte list \<Rightarrow> byte list \<Rightarrow> bool" where
  "streq a b \<longleftrightarrow> takeWhile (\<lambda>c. c \<noteq> 0) a = takeWhile (\<lambda>c. c \<noteq> 0) b"

definition CHECK_ACCEPT_REQ ::
  "accept_req option \<Rightarrow> iid_t \<Rightarrow> ballot_t \<Rightarrow> byte list \<Rightarrow> size_t \<Rightarrow> unit res" where
  "CHECK_ACCEPT_REQ r i b v s =
     (case r of
        None \<Rightarrow> Err AssertFailed
      | Some ar \<Rightarrow>
          rbind (rassert (ar_iid ar = i)) (\<lambda>_.
          rbind (rassert (ar_ballot ar = b)) (\<lambda>_.
          rbind (rassert (ar_value_size ar = s)) (\<lambda>_.
            rassert (streq (ar_value ar) v)))))"

text \<open>The acknowledgements the tests write, without a value and with one.\<close>

definition test_promise :: "int \<Rightarrow> iid_t \<Rightarrow> ballot_t \<Rightarrow> prepare_ack" where
  "test_promise aid iid bal =
     \<lparr>pa_acceptor_id = aid, pa_iid = iid, pa_ballot = bal, pa_value_ballot = 0,
      pa_value_size = 0, pa_value = []\<rparr>"

definition prepare_ack_with_value :: "prepare_ack \<Rightarrow> byte list \<Rightarrow> size_t \<Rightarrow> prepare_ack" where
  "prepare_ack_with_value pa v n = pa\<lparr>pa_value_size := n, pa_value := take (unat n) v\<rparr>"

definition test_accepted :: "int \<Rightarrow> iid_t \<Rightarrow> ballot_t \<Rightarrow> ballot_t \<Rightarrow> size_t \<Rightarrow> accept_ack" where
  "test_accepted aid iid bal vbal n =
     \<lparr>aa_acceptor_id = aid, aa_iid = iid, aa_ballot = bal, aa_value_ballot = vbal,
      aa_is_final = 0, aa_value_size = n, aa_value = []\<rparr>"

text \<open>The loops of the tests: a call that must return 0 for each of the first acceptors.\<close>

definition promised_by_quorum :: "timeval \<Rightarrow> prepare_ack \<Rightarrow> proposer \<Rightarrow> proposer res" where
  "promised_by_quorum t pa p =
     for_loop [0..<proposer_test_quorum] (\<lambda>i p.
       rbind (proposer_receive_prepare_ack t p (pa\<lparr>pa_acceptor_id := int i\<rparr>)) (\<lambda>(r, p1).
       rbind (rassert (r = None)) (\<lambda>_. Ok p1))) p"

definition accepted_by_quorum :: "timeval \<Rightarrow> accept_ack \<Rightarrow> proposer \<Rightarrow> proposer res" where
  "accepted_by_quorum t aa p =
     for_loop [0..<proposer_test_quorum] (\<lambda>i p.
       rbind (proposer_receive_accept_ack t p (aa\<lparr>aa_acceptor_id := int i\<rparr>)) (\<lambda>(r, p1).
       rbind (rassert (r = None)) (\<lambda>_. Ok p1))) p"

text \<open>The checks after a preempting acknowledgement; the result is the new request.\<close>

definition assert_preempted :: "prepare_req option \<Rightarrow> prepare_req \<Rightarrow> prepare_req res" where
  "assert_preempted r pr =
     (case r of
        None \<Rightarrow> Err AssertFailed
      | Some preempted \<Rightarrow>
          rbind (rassert (pr_iid preempted = pr_iid pr)) (\<lambda>_.
          rbind (rassert (pr_ballot preempted > pr_ballot pr)) (\<lambda>_. Ok preempted)))"

text \<open>The checks of a timed out request.\<close>

definition assert_timed_out :: "prepare_req option \<Rightarrow> prepare_req \<Rightarrow> unit res" where
  "assert_timed_out r pr =
     (case r of
        None \<Rightarrow> Err AssertFailed
      | Some to \<Rightarrow>
          rbind (rassert (pr_iid pr = pr_iid to)) (\<lambda>_. rassert (pr_ballot pr = pr_ballot to)))"

section \<open>The tests\<close>

definition ProposerTest_Prepare :: "(nat \<Rightarrow> int) \<Rightarrow> timeval \<Rightarrow> proposer \<Rightarrow> unit res" where
  "ProposerTest_Prepare junk t0 p0 =
     rbind (for_loop [0..<10] (\<lambda>i p.
         rbind (proposer_prepare junk t0 p) (\<lambda>(pr, p1).
         rbind (rassert (pr_iid pr = of_nat (i + 1))) (\<lambda>_.
         rbind (rassert (pr_ballot pr = word_of_int (proposer_test_id + int MAX_N_OF_PROPOSERS))) (\<lambda>_.
           Ok p1)))) p0) (\<lambda>p.
       rassert (10 = proposer_prepared_count p))"

definition ProposerTest_PrepareAndAccept :: "(nat \<Rightarrow> int) \<Rightarrow> timeval \<Rightarrow> proposer \<Rightarrow> unit res" where
  "ProposerTest_PrepareAndAccept junk t0 p0 =
     (let v = cstr ''a value''; n = of_nat (length v) in
      rbind (proposer_prepare junk t0 p0) (\<lambda>(pr, p1).
      rbind (promised_by_quorum t0 (test_promise 0 (pr_iid pr) (pr_ballot pr)) p1) (\<lambda>p2.
      rbind (proposer_accept p2) (\<lambda>(none, p3).
      rbind (rassert (none = None)) (\<lambda>_.
      rbind (proposer_propose p3 v n) (\<lambda>p4.
      rbind (proposer_accept p4) (\<lambda>(ar, p5).
      rbind (CHECK_ACCEPT_REQ ar (pr_iid pr) (pr_ballot pr) v n) (\<lambda>_.
      rbind (accepted_by_quorum t0
          (test_accepted 0 (ar_iid (the ar)) (ar_ballot (the ar)) (ar_ballot (the ar)) 0) p5) (\<lambda>_.
        Ok ())))))))))"

definition ProposerTest_PreparePreempted :: "(nat \<Rightarrow> int) \<Rightarrow> timeval \<Rightarrow> proposer \<Rightarrow> unit res" where
  "ProposerTest_PreparePreempted junk t0 p0 =
     (let v = cstr ''some value''; n = of_nat (length v) in
      rbind (proposer_prepare junk t0 p0) (\<lambda>(pr, p1).
      rbind (proposer_propose p1 v n) (\<lambda>p2.
      rbind (proposer_receive_prepare_ack t0 p2 (test_promise 1 (pr_iid pr) (pr_ballot pr + 1))) (\<lambda>(r, p3).
      rbind (assert_preempted r pr) (\<lambda>preempted.
      rbind (promised_by_quorum t0 (test_promise 0 (pr_iid preempted) (pr_ballot preempted)) p3) (\<lambda>p4.
      rbind (proposer_accept p4) (\<lambda>(ar, _).
        CHECK_ACCEPT_REQ ar (pr_iid preempted) (pr_ballot preempted) v n)))))))"

text \<open>
  The test in two parts: up to the call of \<open>proposer_accept\<close> that is expected to find the
  instance closed, with the request it returns, and the rest.
\<close>

definition PrepareAlreadyClosed_accept ::
  "(nat \<Rightarrow> int) \<Rightarrow> timeval \<Rightarrow> proposer \<Rightarrow> (accept_req option \<times> proposer) res" where
  "PrepareAlreadyClosed_accept junk t0 p0 =
     (let v = cstr ''some value''; n = of_nat (length v); foo = cstr ''foo bar baz'' in
      rbind (proposer_prepare junk t0 p0) (\<lambda>(pr, p1).
      rbind (proposer_propose p1 v n) (\<lambda>p2.
      rbind (proposer_receive_prepare_ack t0 p2
          (prepare_ack_with_value (test_promise 1 (pr_iid pr) (pr_ballot pr + 1)) foo 12)) (\<lambda>(r, p3).
      rbind (assert_preempted r pr) (\<lambda>preempted.
      rbind (promised_by_quorum t0
          (prepare_ack_with_value (test_promise 0 (pr_iid preempted) (pr_ballot preempted)) foo 12) p3) (\<lambda>p4.
        proposer_accept p4))))))"

definition ProposerTest_PrepareAlreadyClosed :: "(nat \<Rightarrow> int) \<Rightarrow> timeval \<Rightarrow> proposer \<Rightarrow> unit res" where
  "ProposerTest_PrepareAlreadyClosed junk t0 p0 =
     (let v = cstr ''some value''; n = of_nat (length v) in
      rbind (PrepareAlreadyClosed_accept junk t0 p0) (\<lambda>(ar, p5).
      rbind (rassert (ar = None)) (\<lambda>_.
      rbind (proposer_prepare junk t0 p5) (\<lambda>(pr, p6).
      rbind (promised_by_quorum t0 (test_promise 0 (pr_iid pr) (pr_ballot pr)) p6) (\<lambda>p7.
      rbind (proposer_accept p7) (\<lambda>(ar2, _).
        CHECK_ACCEPT_REQ ar2 (pr_iid pr) (pr_ballot pr) v n))))))"

definition ProposerTest_AcceptPreempted :: "(nat \<Rightarrow> int) \<Rightarrow> timeval \<Rightarrow> proposer \<Rightarrow> unit res" where
  "ProposerTest_AcceptPreempted junk t0 p0 =
     (let v = cstr ''some value''; n = of_nat (length v) in
      rbind (proposer_prepare junk t0 p0) (\<lambda>(pr, p1).
      rbind (proposer_propose p1 v n) (\<lambda>p2.
      rbind (promised_by_quorum t0 (test_promise 0 (pr_iid pr) (pr_ballot pr)) p2) (\<lambda>p3.
      rbind (proposer_accept p3) (\<lambda>(ar, p4).
      case ar of
        None \<Rightarrow> Err AssertFailed
      | Some a \<Rightarrow>
          rbind (proposer_receive_accept_ack t0 p4 (test_accepted 0 (ar_iid a) (ar_ballot a + 1) 0 0)) (\<lambda>(r, p5).
          rbind (assert_preempted r \<lparr>pr_iid = pr_iid pr, pr_ballot = ar_ballot a\<rparr>) (\<lambda>preempted.
          rbind (rassert (proposer_prepared_count p5 = 1)) (\<lambda>_.
          rbind (promised_by_quorum t0 (test_promise 0 (pr_iid preempted) (pr_ballot preempted)) p5) (\<lambda>p6.
          rbind (proposer_accept p6) (\<lambda>(ar2, p7).
          rbind (CHECK_ACCEPT_REQ ar2 (pr_iid preempted) (pr_ballot preempted) v n) (\<lambda>_.
          rbind (accepted_by_quorum t0
              (test_accepted 0 (ar_iid (the ar2)) (ar_ballot (the ar2)) (ar_ballot (the ar2)) n) p7) (\<lambda>_.
            Ok ()))))))))))))"

definition ProposerTest_PreparedCount :: "(nat \<Rightarrow> int) \<Rightarrow> timeval \<Rightarrow> proposer \<Rightarrow> unit res" where
  "ProposerTest_PreparedCount junk t0 p0 =
     (let v = cstr ''a value''; n = of_nat (length v) in
      rbind (for_loop [0..<10] (\<lambda>i (_, p).
          rbind (proposer_prepare junk t0 p) (\<lambda>(pr, p1).
          rbind (proposer_propose p1 v n) (\<lambda>p2.
          rbind (rassert (i + 1 = proposer_prepared_count p2)) (\<lambda>_. Ok (pr, p2)))))
        (\<lparr>pr_iid = 0, pr_ballot = 0\<rparr>, p0)) (\<lambda>(pr, p3).
      rbind (for_loop [0..<10] (\<lambda>_ p. rbind (proposer_accept p) (\<lambda>(_, p1). Ok p1)) p3) (\<lambda>p4.
      rbind (rassert (10 = proposer_prepared_count p4)) (\<lambda>_.
      rbind (for_loop [0..<10] (\<lambda>i p.
          rbind (proposer_receive_prepare_ack t0 p (test_promise 0 (of_nat (i + 1)) (pr_ballot pr))) (\<lambda>(_, p1).
          rbind (proposer_receive_prepare_ack t0 p1 (test_promise 1 (of_nat (i + 1)) (pr_ballot pr))) (\<lambda>(_, p2).
          rbind (proposer_accept p2) (\<lambda>(_, p3).
          rbind (rassert (10 - (i + 1) = proposer_prepared_count p3)) (\<lambda>_. Ok p3))))) p4) (\<lambda>_.
        Ok ())))))"

definition ProposerTest_PendingPrepareShouldTimeout ::
  "(nat \<Rightarrow> int) \<Rightarrow> timeval \<Rightarrow> timeval \<Rightarrow> proposer \<Rightarrow> unit res" where
  "ProposerTest_PendingPrepareShouldTimeout junk t0 t1 p0 =
     rbind (proposer_prepare junk t0 p0) (\<lambda>(pr, p1).
     let iter = proposer_timeout_iterator t1 in
     rbind (timeout_iterator_prepare proposer_test_config iter p1) (\<lambda>(to, iter1, p2).
     rbind (assert_timed_out to pr) (\<lambda>_.
     rbind (timeout_iterator_prepare proposer_test_config iter1 p2) (\<lambda>(to2, _, _).
       rassert (to2 = None)))))"

definition ProposerTest_PreparedShouldNotTimeout ::
  "(nat \<Rightarrow> int) \<Rightarrow> timeval \<Rightarrow> timeval \<Rightarrow> proposer \<Rightarrow> unit res" where
  "ProposerTest_PreparedShouldNotTimeout junk t0 t1 p0 =
     rbind (proposer_prepare junk t0 p0) (\<lambda>(pr1, p1).
     rbind (proposer_prepare junk t0 p1) (\<lambda>(pr2, p2).
     rbind (promised_by_quorum t0 (test_promise 0 (pr_iid pr1) (pr_ballot pr1)) p2) (\<lambda>p3.
     let iter = proposer_timeout_iterator t1 in
     rbind (timeout_iterator_prepare proposer_test_config iter p3) (\<lambda>(to, iter1, p4).
     rbind (assert_timed_out to pr2) (\<lambda>_.
     rbind (timeout_iterator_prepare proposer_test_config iter1 p4) (\<lambda>(to2, _, _).
       rassert (to2 = None)))))))"

definition ProposerTest_PendingAcceptShouldTimeout ::
  "(nat \<Rightarrow> int) \<Rightarrow> timeval \<Rightarrow> timeval \<Rightarrow> proposer \<Rightarrow> unit res" where
  "ProposerTest_PendingAcceptShouldTimeout junk t0 t1 p0 =
     (let v = cstr ''a value''; n = of_nat (length v) in
      rbind (proposer_prepare junk t0 p0) (\<lambda>(pr, p1).
      rbind (proposer_propose p1 v n) (\<lambda>p2.
      rbind (promised_by_quorum t0 (test_promise 0 (pr_iid pr) (pr_ballot pr)) p2) (\<lambda>p3.
      rbind (proposer_accept p3) (\<lambda>(_, p4).
      let iter = proposer_timeout_iterator t1 in
      rbind (timeout_iterator_accept proposer_test_config iter p4) (\<lambda>(to, iter1, p5).
      case to of
        None \<Rightarrow> Err AssertFailed
      | Some ar \<Rightarrow>
          rbind (rassert (pr_iid pr = ar_iid ar)) (\<lambda>_.
          rbind (rassert (pr_ballot pr = ar_ballot ar)) (\<lambda>_.
          rbind (timeout_iterator_accept proposer_test_config iter1 p5) (\<lambda>(to2, _, _).
            rassert (to2 = None)))))))))) "

definition ProposerTest_AcceptedShouldNotTimeout ::
  "(nat \<Rightarrow> int) \<Rightarrow> timeval \<Rightarrow> timeval \<Rightarrow> proposer \<Rightarrow> unit res" where
  "ProposerTest_AcceptedShouldNotTimeout junk t0 t1 p0 =
     (let v = cstr ''a value''; n = of_nat (length v) in
      rbind (proposer_prepare junk t0 p0) (\<lambda>(pr, p1).
      rbind (proposer_propose p1 v n) (\<lambda>p2.
      rbind (promised_by_quorum t0 (test_promise 0 (pr_iid pr) (pr_ballot pr)) p2) (\<lambda>p3.
      rbind (proposer_accept p3) (\<lambda>(ar, p4).
      case ar of
        None \<Rightarrow> Err NullPointer
      | Some a \<Rightarrow>
          rbind (accepted_by_quorum t0
              (test_accepted 0 (ar_iid a) (ar_ballot a) (ar_ballot a) 0) p4) (\<lambda>p5.
          rbind (proposer_prepare junk t0 p5) (\<lambda>(pr2, p6).
          let iter = proposer_timeout_iterator t1 in
          rbind (timeout_iterator_prepare proposer_test_config iter p6) (\<lambda>(to, iter1, p7).
          rbind (assert_timed_out to pr2) (\<lambda>_.
          rbind (timeout_iterator_prepare proposer_test_config iter1 p7) (\<lambda>(to2, iter2, p8).
          rbind (rassert (to2 = None)) (\<lambda>_.
          rbind (timeout_iterator_accept proposer_test_config iter2 p8) (\<lambda>(to3, _, _).
            rassert (to3 = None)))))))))))))"

text \<open>\<open>t2\<close> is the clock when the second iterator is made.\<close>

definition ProposerTest_ShouldNotTimeoutTwice ::
  "(nat \<Rightarrow> int) \<Rightarrow> timeval \<Rightarrow> timeval \<Rightarrow> timeval \<Rightarrow> proposer \<Rightarrow> unit res" where
  "ProposerTest_ShouldNotTimeoutTwice junk t0 t1 t2 p0 =
     rbind (proposer_prepare junk t0 p0) (\<lambda>(pr, p1).
     rbind (timeout_iterator_prepare proposer_test_config (proposer_timeout_iterator t1) p1) (\<lambda>(to, _, p2).
     rbind (rassert (to \<noteq> None)) (\<lambda>_.
     rbind (timeout_iterator_prepare proposer_test_config (proposer_timeout_iterator t2) p2) (\<lambda>(to2, _, _).
       rassert (to2 = None)))))"

text \<open>The tests in the order of the file.\<close>

definition proposer_tests ::
  "(nat \<Rightarrow> int) \<Rightarrow> timeval \<Rightarrow> timeval \<Rightarrow> timeval \<Rightarrow> (string \<times> unit res) list" where
  "proposer_tests junk t0 t1 t2 =
     (let p = ProposerTest_SetUp in
      [(''Prepare'', ProposerTest_Prepare junk t0 p),
       (''PrepareAndAccept'', ProposerTest_PrepareAndAccept junk t0 p),
       (''PreparePreempted'', ProposerTest_PreparePreempted junk t0 p),
       (''PrepareAlreadyClosed'', ProposerTest_PrepareAlreadyClosed junk t0 p),
       (''AcceptPreempted'', ProposerTest_AcceptPreempted junk t0 p),
       (''PreparedCount'', ProposerTest_PreparedCount junk t0 p),
       (''PendingPrepareShouldTimeout'', ProposerTest_PendingPrepareShouldTimeout junk t0 t1 p),
       (''PreparedShouldNotTimeout'', ProposerTest_PreparedShouldNotTimeout junk t0 t1 p),
       (''PendingAcceptShouldTimeout'', ProposerTest_PendingAcceptShouldTimeout junk t0 t1 p),
       (''AcceptedShouldNotTimeout'', ProposerTest_AcceptedShouldNotTimeout junk t0 t1 p),
       (''ShouldNotTimeoutTwice'', ProposerTest_ShouldNotTimeoutTwice junk t0 t1 t2 p)])"

definition failing :: "(string \<times> unit res) list \<Rightarrow> string list" where
  "failing ts = map fst (filter (\<lambda>(_, r). r \<noteq> Ok ()) ts)"

end
