(* ===== verification/Spec2Isabelle.thy ===== *)
theory Spec2Isabelle
  imports Scenarios Consensus Progress Proposer_Heap Learner_Heap Ev_Example Sample_Example Deployment_Example Restart_Example Storage_Equiv Bdb_Example Config_Reader Acceptor_Tests Learner_Tests Proposer_Tests
begin

text \<open>
  \<^bold>\<open>LibPaxos\<close>, a C library for Multi-Paxos: proposers get values chosen for the instances
  1, 2, 3, ... of a replicated log, acceptors vote and remember their votes in a storage, learners
  deliver the chosen values in order. \<open>src/paxos/\<close> holds the protocol as pure state machines,
  \<open>src/evpaxos/\<close> connects them to sockets and timers of libevent.

  \<^bold>\<open>Theories and the code they model.\<close>
  \<^item> \<open>Prelude\<close>: machine types (\<open>iid_t\<close>, \<open>ballot_t\<close> are 32-bit words, \<open>size_t\<close> 64-bit), the ways a C
    call can fail (type \<open>error\<close>) and the result type \<open>res\<close> of every operation, checked array access,
    loops over indices, printed numbers.
  \<^item> \<open>Carray\<close>: \<open>paxos/carray.c\<close>, the growable ring buffer. The list it represents, its invariant, and
    every operation as an operation of a double-ended queue (locale \<open>deque\<close>, interpretation \<open>cq\<close>).
  \<^item> \<open>Paxos\<close>: \<open>paxos/paxos.c\<close>, \<open>paxos.h\<close>: configuration, log filter, size of a majority; majorities
    intersect (locale \<open>quorum_system\<close>, interpretation \<open>maj\<close>).
  \<^item> \<open>Quorum\<close>: \<open>paxos/quorum.c\<close>, the counter of acknowledgements (locale \<open>ack_counter\<close>).
  \<^item> \<open>Messages\<close>: \<open>libpaxos_messages.h\<close>, the structures and their sizes.
  \<^item> \<open>Storage\<close>, \<open>Storage_Mem\<close>, \<open>Storage_Bdb\<close>: the interface \<open>storage.h\<close> as the locale \<open>record_store\<close>,
    and its two implementations \<open>storage_mem.c\<close> (interpretation \<open>mem\<close>) and \<open>storage_bdb.c\<close> (sublocale
    of \<open>bdb_reads\<close>). The locale \<open>bdb\<close> is the documented behaviour of Berkeley DB, errors included;
    \<open>bdb_reads\<close> adds that no read of a stored record fails; \<open>bdb_files\<close> adds the files and when a commit is
    durable. \<open>Bdb_Example\<close> is a small database with that behaviour, and one whose reads fail; \<open>Storage_Equiv\<close> compares the two storages.
  \<^item> \<open>Acceptor\<close>: \<open>paxos/acceptor.c\<close> over any storage: what each request answers and stores, and that
    ballots never go down.
  \<^item> \<open>Learner\<close>: \<open>paxos/learner.c\<close>: invariant of the window of instances, delivery in order, delivery
    of every instance with a majority. \<open>Learner_Heap\<close>: the same code with its pointers, allocations and
    \<open>free\<close>, and the alias \<open>final_value\<close>; it computes what \<open>Learner\<close> computes.
  \<^item> \<open>Proposer\<close>, \<open>Proposer_Spec\<close>: \<open>paxos/proposer.c\<close> and a specification of it over plain lists; every
    operation is shown to compute the specification. \<open>Proposer_Heap\<close>: the same code once more, with its
    pointers, allocations and \<open>free\<close>; every block is owned once, so the other model is right.
    \<open>Ownership\<close>: blocks, the blocks they point to, and who owns them, for the two theories with pointers.
  \<^item> \<open>Tcp_Sendbuf\<close>: \<open>evpaxos/tcp_sendbuf.c\<close>, the bytes of every message, and the casts of the
    receivers; round trips.
  \<^item> \<open>Config_Reader\<close>: \<open>evpaxos/config_reader.c\<close>, with the functions of the C library it calls.
  \<^item> \<open>System\<close>, \<open>Agreement\<close>, \<open>Consensus\<close>: the processes and the messages between them as a step function
    on a system state; the invariant of Paxos on the level of the proposer specification; the
    invariant of the system and agreement, for any storage with the contract \<open>record_store\<close>.
  \<^item> \<open>Validity\<close>: the delivered values are values that were submitted. \<open>Progress\<close>: a schedule that gets any
    list of values delivered that fit the records of the in-memory storage.
  \<^item> \<open>Libevent\<close>: what the network code uses of libevent, as a record of functions over an abstract
    state; the documented behaviour of its buffers is the locale \<open>evbuffers\<close>. Also the loop that waits
    for complete messages and the removal of one message, which all processes share.
  \<^item> \<open>Peers\<close>, \<open>Tcp_Receiver\<close>: \<open>evpaxos/peers.c\<close>, \<open>evpaxos/tcp_receiver.c\<close>: outgoing connections with their
    reconnection, and the listening side with its list of connections.
  \<^item> \<open>Ev_Wire\<close>: the bytes of the messages of \<open>System\<close>; the components do not look behind the value of a
    message (locale \<open>payload_storage\<close>, interpretations \<open>mem_payload\<close>, \<open>bdb_payload\<close>).
  \<^item> \<open>Evacceptor\<close>, \<open>Evlearner\<close>, \<open>Evproposer\<close>: \<open>evpaxos/evacceptor.c\<close>, \<open>evlearner.c\<close>, \<open>evproposer.c\<close>: every
    handler, timer and constructor (\<open>Evproposer_Run\<close> has the lemmas about the proposer). A call of a handler is a step or a run of \<open>System\<close>, and what it
    writes to its connections is what the run sends; the loops return. \<open>Evpaxos\<close> shows that what one
    process writes the others read back, and follows a learner process through a run of the system;
    \<open>Ev_Example\<close> is a small state with the behaviour \<open>evbuffers\<close> (interpretation \<open>demo\<close>).
  \<^item> \<open>Processes\<close>: \<open>sample/acceptor.c\<close>, \<open>proposer.c\<close>, \<open>learner.c\<close>: the event loop of libevent as rounds of
    active events, the callbacks it calls, and the three \<open>main\<close> functions; the processes stay
    well-formed and have exactly the connections that the events leave. \<open>Sample_Client\<close>: \<open>sample/client.c\<close>, \<open>bakclient.c\<close> (locale \<open>client_buffers\<close>).
    \<open>Echo_Server\<close>: \<open>sample/test.c\<close> (locale \<open>echo_buffers\<close>). \<open>Sample_Example\<close> runs them.
  \<^item> \<open>Deployment\<close>: acceptor, proposer, learner and client processes with byte streams between them, the
    handlers of the processes as steps. \<open>Deployment_Run\<close>: every step is a run of \<open>System\<close>, every
    connection carries messages of that run; agreement and validity of what the callbacks get, without
    the hole timer of the learners and without empty values; a call
    of a handler is a sequence of steps. \<open>Deployment_Example\<close>: a deployment that runs, from a
    submission over a broken connection to its delivery (interpretation \<open>demoloop\<close> of \<open>evloop\<close>).
  \<^item> \<open>Restarts\<close>: runs in which acceptors end between calls, inside a call or by a failing call and are
    started again on their storage, and learners from nothing: agreement and validity for every storage
    that keeps what was committed (locale \<open>durable_store\<close>, with the Berkeley DB storage as the sublocale
    of \<open>bdb_kept\<close>: with \<open>bdb-sync\<close>, without \<open>bdb-trash-files\<close>, no read fails). \<open>Restart_Example\<close>: such a run, and
    runs in which the restart of an in-memory acceptor or of a proposer breaks agreement.
  \<^item> \<open>Scenarios\<close>: concrete runs, evaluated.
  \<^item> \<open>Acceptor_Tests\<close>, \<open>Learner_Tests\<close>, \<open>Proposer_Tests\<close>: the unit tests of \<open>src/unit/\<close>.

  \<^bold>\<open>Conventions.\<close> A C pointer to an object that belongs to one container is the object itself;
  a write through the pointer replaces it (only the theories with \<open>Heap\<close> in their name have addresses). What a call leaves undefined or reads from uninitialised
  memory is a parameter (\<open>junk\<close>) or an error value. Time (\<open>gettimeofday\<close>) is a parameter.
  A conversion to \<open>int\<close> that the standard leaves undefined or to the implementation is an error value.

  \<^bold>\<open>Bounds.\<close> Agreement is stated for runs of at most \<open>step_limit\<close> (400000000) calls: an instance id
  or a ballot grows by at most 10 per call, so no 32-bit counter wraps around and the \<open>int\<close> indices
  of the learner stay below \<open>2 ^ 31\<close>. Its other two assumptions are that no empty value is submitted and
  that repeat requests are answered only from records whose value ballot equals their ballot (the
  acceptor accepted a value with its last ballot and has not promised a higher one since). They are
  needed: the theorem \<open>agreement_assumptions_needed\<close> gives runs of the code in which learners disagree
  after an empty value, after repeat answers from mere promises, and after repeat answers from records
  that were accepted and then promised higher. The deployments count their calls by the messages
  they send and handle, at most \<open>step_limit\<close>, and a connection carries fewer than \<open>2 ^ 63\<close> bytes, so
  the 64-bit length of a message does not wrap around.

  \<^bold>\<open>Not modelled.\<close> The memory of the ring buffers (\<open>carray_free\<close>) and of the configuration (\<open>free_config\<close>); failing allocations; growth of a ring
  buffer beyond the range of \<open>int\<close>; a negative \<open>learner_instances\<close>; the inside of libevent and of Berkeley DB. In the deployments, the
  hole timer of the learners, which is modelled in \<open>Evlearner\<close> and armed by every learner process: its
  repeat requests can break agreement, so the claims about deployments do not hold for processes in
  which it fires. Empty client values are left out there for the same reason. What a machine that stops
  loses without \<open>bdb-sync\<close> (the default) is not modelled: nothing is claimed of restarts without it.
\<close>

section \<open>Agreement\<close>

lemma mem_start:
  assumes "learner_new cfg n = Ok l" "0 < learner_instances cfg" "learner_instances cfg \<le> 2 ^ 30"
  shows "learner_inv n (learner_instances cfg) {} l"
    "step_limit + learner_instances cfg + 1 < 2 ^ 31"
    "mem.store_ok (storage_open junk (int a)) \<and> ms_acceptor_id (storage_open junk (int a)) = int a"
    "i \<noteq> 0 \<Longrightarrow> mem_lookup (storage_open junk (int a)) i = None"
  using assms learner_new_ok [of cfg n "{}"] mem_store_ok_open
  by (auto simp: step_limit_def storage_open_def mem_lookup_def)

text \<open>C1. Agreement, with the in-memory storage: in every run of at most \<open>step_limit\<close> calls,
  with any loss, duplication and reordering of messages and any crashes, two learners (or one,
  twice) never deliver different values for the same instance. The run must not submit empty
  values, and repeat requests must be answered only from records whose value ballot equals their ballot,
  that is, from values accepted with the last ballot of the acceptor and not promised higher since (C8).\<close>

theorem mem_agreement:
  assumes "0 < n" "learner_new cfg n = Ok l"
    and "0 < learner_instances cfg" "learner_instances cfg \<le> 2 ^ 30" "length es \<le> step_limit"
    and "run_ok mem_ops es (sys_init n (\<lambda>a. storage_open (junk a) (int a)) l)"
    and "(j1, d1) \<in> set (sys_delivered
          (sys_run mem_ops es (sys_init n (\<lambda>a. storage_open (junk a) (int a)) l)))"
    and "(j2, d2) \<in> set (sys_delivered
          (sys_run mem_ops es (sys_init n (\<lambda>a. storage_open (junk a) (int a)) l)))"
    and "aa_iid d1 = aa_iid d2"
  shows "aa_payload d1 = aa_payload d2"
  by (rule mem.run_agreement [OF assms(1) mem_start(1) [OF assms(2-4)] mem_start(3) [OF assms(2-4)] _ assms(6,5) _ assms(7-9)])
    (use mem_start(2) [OF assms(2-4)] mem_start(4) [OF assms(2-4)] assms(5) in simp_all)

theorem mem_agreement_witness:
  "\<exists>d1 d2. (0, d1) \<in> set (sys_delivered (sys_run mem_ops compete_run (small_init 3))) \<and>
     (1, d2) \<in> set (sys_delivered (sys_run mem_ops compete_run (small_init 3))) \<and>
     aa_iid d1 = aa_iid d2 \<and> aa_ballot d1 \<noteq> aa_ballot d2 \<and> aa_payload d1 = aa_payload d2"
proof -
  note init = small_init_stores [of 3]
  note l = small_learner_new [of 3]
  have d: "(0, aack 1 1 10 10 [7]) \<in> set (sys_delivered (sys_run mem_ops compete_run (small_init 3)))"
    "(1, aack 2 1 11 11 [7]) \<in> set (sys_delivered (sys_run mem_ops compete_run (small_init 3)))"
    by (simp_all add: compete_run_delivers)
  have "aa_payload (aack 1 1 10 10 [7]) = aa_payload (aack 2 1 11 11 [7])"
    by (rule mem_agreement [OF _ l _ _ _ compete_run_ok [unfolded init] d [unfolded init]])
      (simp_all add: small_config_def step_limit_def compete_run_def aack_def)
  with d show ?thesis by (intro exI conjI) (assumption | simp add: aack_def)+
qed

text \<open>C2. Validity: in the runs of C1, without empty values and with repeat requests answered only from
  records whose value ballot equals their ballot, a delivered value is one that was submitted: the first \<open>n\<close> bytes of
  the argument of a call of \<open>proposer_propose\<close> with size \<open>n\<close>.\<close>

theorem mem_validity:
  assumes "0 < n" "learner_new cfg n = Ok l"
    and "0 < learner_instances cfg" "learner_instances cfg \<le> 2 ^ 30" "length es \<le> step_limit"
    and "run_ok mem_ops es (sys_init n (\<lambda>a. storage_open (junk a) (int a)) l)"
    and "(j, d) \<in> set (sys_delivered
          (sys_run mem_ops es (sys_init n (\<lambda>a. storage_open (junk a) (int a)) l)))"
  shows "aa_payload d \<in> set (submitted_values es)"
  by (rule mem.run_validity [OF assms(1) mem_start(1) [OF assms(2-4)] mem_start(3) [OF assms(2-4)] _ assms(6,5) _ assms(7)])
    (use mem_start(2) [OF assms(2-4)] mem_start(4) [OF assms(2-4)] assms(5) in simp_all)

theorem mem_validity_witness:
  "\<exists>d. (1, d) \<in> set (sys_delivered (sys_run mem_ops compete_run (small_init 3))) \<and>
     aa_payload d \<in> set (submitted_values compete_run) \<and> set (submitted_values compete_run) = {[7], [9]}"
proof -
  note init = small_init_stores [of 3]
  note l = small_learner_new [of 3]
  have d: "(1, aack 2 1 11 11 [7]) \<in> set (sys_delivered (sys_run mem_ops compete_run (small_init 3)))"
    by (simp add: compete_run_delivers)
  have "aa_payload (aack 2 1 11 11 [7]) \<in> set (submitted_values compete_run)"
    by (rule mem_validity [OF _ l _ _ _ compete_run_ok [unfolded init] d [unfolded init]])
      (simp_all add: small_config_def step_limit_def compete_run_def)
  moreover have "set (submitted_values compete_run) = {[7], [9]}"
    by (simp add: submitted_values_def compete_run_def insert_commute)
  ultimately show ?thesis using d by (intro exI conjI)
qed

text \<open>C3. Progress: for any majority of the acceptors, any proposer with an id below 10 and any learner, and
  any values that fit the records of the in-memory storage, there is a schedule, written out in
  \<open>log_run\<close>, after which the learner has delivered exactly the submitted values, in order, as the
  instances 1, 2, 3, ..., and the proposer, the acceptors of the majority and the learner still run: no
  call of the schedule failed, since a failing call ends its process for good. The learner starts with
  \<open>learner_catch_up\<close>; the number of values and the window of the learner keep the instance numbers below
  2^31; and acceptors of the majority beyond the first \<open>paxos_quorum n\<close>, whose flags \<open>quorum_clear\<close> does not
  reset, find zeros in the block the proposer allocates (C24).\<close>

theorem log_progress:
  assumes "0 < n" "k < MAX_N_OF_PROPOSERS" "distinct Q" "paxos_quorum n \<le> length Q"
    and "\<forall>a \<in> set Q. a < n \<and> (a < paxos_quorum n \<or> junk a = 0)"
    and "learner_new cfg n = Ok l" "learner_catch_up cfg \<noteq> 0" "0 < learner_instances cfg"
    and "length vs + learner_instances cfg + 1 < 2 ^ 31" "\<forall>v \<in> set vs. length v \<le> mem_value_room"
    and "s = sys_run mem_ops (log_run k j junk now Q 0 vs) (sys_init n (\<lambda>a. storage_open (mem a) (int a)) l)"
  shows "map (\<lambda>(i, d). (i, unat (aa_iid d), aa_payload d)) (sys_delivered s) = map (\<lambda>(i, v). (j, i, v)) (enumerate 1 vs) \<and>
    sys_proposers s k \<noteq> None \<and> (\<forall>a \<in> set Q. sys_acceptors s a \<noteq> None) \<and> sys_learners s j \<noteq> None"
proof -
  have Q: "countable_by n junk Q" using assms(3-5) by (simp add: countable_by_def)
  have "idle n k j (learner_instances cfg) Q 0 (sys_init n (\<lambda>a. storage_open (mem a) (int a)) l)"
    by (rule init_idle [OF assms(1,2) Q assms(6-8)]) (use assms(9) in simp)
  note L = log_delivers [OF this Q, of vs now, folded assms(11)]
  have "0 + length vs + learner_instances cfg + 1 < 2 ^ 31" using assms(9) by simp
  note L = L [OF this assms(10)]
  from idle_alive [OF conjunct1 [OF L]] conjunct2 [OF L] show ?thesis by (simp add: sys_init_def)
qed

theorem log_progress_witness:
  "map (\<lambda>(i, d). (i, unat (aa_iid d), aa_payload d))
     (sys_delivered (sys_run mem_ops (log_run 3 1 zeros clock0 [4, 0, 2] 0 [[7], [9, 9]]) (small_init 5))) =
   [(1, 1, [7]), (1, 2, [9, 9])] \<and>
   sys_acceptors (sys_run mem_ops (log_run 3 1 zeros clock0 [4, 0, 2] 0 [[7], [9, 9]]) (small_init 5)) 4 \<noteq> None"
proof -
  have ok: "\<forall>a \<in> set [4, 0, 2]. a < 5 \<and> (a < paxos_quorum 5 \<or> zeros a = 0)" "\<forall>v \<in> set [[7], [9, 9]]. length v \<le> mem_value_room"
    by (auto simp: zeros_def mem_value_room_def MAX_SIZE_RECORD_def sizeof_defs)
  have cfg: "learner_catch_up small_config \<noteq> 0" "0 < learner_instances small_config"
    "length [[7], [9, 9 :: byte]] + learner_instances small_config + 1 < 2 ^ 31"
    by (simp_all add: small_config_def default_config_def)
  from log_progress [OF _ _ _ _ ok(1) small_learner_new cfg ok(2) refl, of 3 1 clock0 "\<lambda>a i. aack 0 0 0 0 []"]
  show ?thesis unfolding small_init_stores [of 5] by (simp add: MAX_N_OF_PROPOSERS_def paxos_quorum_def)
qed

text \<open>C4. Agreement for the bytes: acceptor, proposer, learner and client processes whose read callbacks and
  whose proposer timers run on the bytes of their connections, which arrive in order and in pieces of any
  size. Connections are accepted, break at any byte and are made again. Whatever the callbacks of the
  learners get for the same instance is the same value. This is a claim about deployments without the
  hole timer of the learners (\<open>evlearner.c\<close> lines 42 to 58, which every learner process arms: no repeat
  request is ever sent), whose clients submit no empty value, whose acceptors store in memory and are not
  started again, that do at most \<open>step_limit\<close> calls and write less than 2^63 bytes on a connection. C8
  shows that agreement fails with repeat requests, and with empty values.\<close>

theorem deployment_agreement:
  assumes "evloop ev inp outp" "topology_ok topo"
    and "0 < n" "n < 2 ^ 31" "learner_new cfg n = Ok l"
    and "0 < learner_instances cfg" "learner_instances cfg \<le> 2 ^ 30"
    and "deploy_init inp outp topo n (\<lambda>a. storage_open (junk a) (int a)) l d0"
    and "deploy_run ev inp outp topo mem_ops d0 d"
    and "(j1, e1) \<in> set (dp_delivered d)" "(j2, e2) \<in> set (dp_delivered d)" "dl_iid e1 = dl_iid e2"
  shows "dl_value e1 = dl_value e2"
  by (rule mem.deployment_safe(2) [OF assms(1) mem_payload.payload_storage_axioms assms(2-4)
      mem_start(1,2) [OF assms(5-7)] mem_start(3) [OF assms(5-7)] _ assms(8-12)])
    (rule mem_start(4) [OF assms(5-7)])

theorem deployment_agreement_witness:
  "\<exists>d e. deploy_run demo_ev dw_in dw_out (map_of demo_links) mem_ops demo_deployment d \<and>
     dp_delivered d = [(0, e)] \<and> dl_iid e = 1 \<and> dl_value e = [7] \<and>
     (\<forall>j1 e1. (j1, e1) \<in> set (dp_delivered d) \<longrightarrow> dl_iid e1 = 1 \<longrightarrow> dl_value e1 = [7])"
proof -
  from demo_run_delivers obtain d e where
    d: "deploy_run demo_ev dw_in dw_out (map_of demo_links) mem_ops demo_deployment d"
      "dp_delivered d = [(0, e)]" "dl_iid e = 1" "dl_value e = [7]" by blast
  have "dl_value e1 = dl_value e" if "(j1, e1) \<in> set (dp_delivered d)" "dl_iid e1 = 1" for j1 e1
    by (rule deployment_agreement [OF demoloop.evloop_axioms demo_topology _ _ small_learner_new _ _
        demo_deploy_init [unfolded small_store_def [abs_def]] d(1) that(1)])
      (use that d(2,3) in \<open>auto simp: small_config_def\<close>)
  then have "\<forall>j1 e1. (j1, e1) \<in> set (dp_delivered d) \<longrightarrow> dl_iid e1 = 1 \<longrightarrow> dl_value e1 = [7]" by (simp add: d(4))
  then show ?thesis by (intro exI [of _ d] exI [of _ e] conjI d)
qed

text \<open>C5. Validity for the bytes: in the deployments of C4, that is, without the hole timer of the learners,
  without empty values, with acceptors that store in memory and are not started again, within
  \<open>step_limit\<close> calls and less than 2^63 bytes per connection, whatever the callback of a learner gets is a
  value that a client submitted. With the hole timer this is false: C8 has a learner that delivers an
  empty value.\<close>

theorem deployment_validity:
  assumes "evloop ev inp outp" "topology_ok topo"
    and "0 < n" "n < 2 ^ 31" "learner_new cfg n = Ok l"
    and "0 < learner_instances cfg" "learner_instances cfg \<le> 2 ^ 30"
    and "deploy_init inp outp topo n (\<lambda>a. storage_open (junk a) (int a)) l d0"
    and "deploy_run ev inp outp topo mem_ops d0 d"
    and "(j, e) \<in> set (dp_delivered d)"
  shows "dl_value e \<in> set (dp_submitted d)"
  by (rule mem.deployment_safe(1) [OF assms(1) mem_payload.payload_storage_axioms assms(2-4)
      mem_start(1,2) [OF assms(5-7)] mem_start(3) [OF assms(5-7)] _ assms(8-10)])
    (rule mem_start(4) [OF assms(5-7)])

theorem deployment_validity_witness:
  "\<exists>d e. deploy_run demo_ev dw_in dw_out (map_of demo_links) mem_ops demo_deployment d \<and>
     dp_delivered d = [(0, e)] \<and> dl_value e = [7] \<and> [7] \<in> set (dp_submitted d)"
proof -
  from demo_run_delivers obtain d e where
    d: "deploy_run demo_ev dw_in dw_out (map_of demo_links) mem_ops demo_deployment d"
      "dp_delivered d = [(0, e)]" "dl_iid e = 1" "dl_value e = [7]" by blast
  have "dl_value e \<in> set (dp_submitted d)"
    by (rule deployment_validity [OF demoloop.evloop_axioms demo_topology _ _ small_learner_new _ _
        demo_deploy_init [unfolded small_store_def [abs_def]] d(1), of 0 e])
      (use d(2) in \<open>auto simp: small_config_def\<close>)
  with d show ?thesis by (intro exI [of _ d] exI [of _ e] conjI) simp_all
qed

text \<open>C6. The bytes implement the system: what a deployment of C4 (without the hole timer of the learners,
  without empty values, within the limits) does on its connections is a run of
  \<open>System\<close> of at most as many calls as the deployment counts, in which only the values of the clients
  are submitted. Every live process has the state of its counterpart there, the callbacks got what
  the learners of the run delivered, and the bytes on every connection are messages the run sent.\<close>

theorem deployment_refines_system:
  assumes "evloop ev inp outp" "topology_ok topo"
    and "0 < n" "n < 2 ^ 31" "learner_new cfg n = Ok l"
    and "0 < learner_instances cfg" "learner_instances cfg \<le> 2 ^ 30"
    and "deploy_init inp outp topo n (\<lambda>a. storage_open (junk a) (int a)) l d0"
    and "deploy_run ev inp outp topo mem_ops d0 d"
  shows "\<exists>es. list_all (event_from (set (dp_submitted d))) es \<and> length es \<le> dp_work d \<and>
    deploy_sim (set (dp_submitted d)) inp outp topo d
      (sys_run mem_ops es (sys_init n (\<lambda>a. storage_open (junk a) (int a)) l))"
  by (rule mem.deployment_refines [OF assms(1) mem_payload.payload_storage_axioms assms(2-4)
      mem_start(1,2) [OF assms(5-7)] mem_start(3) [OF assms(5-7)] _ assms(8,9) subset_refl])
    (rule mem_start(4) [OF assms(5-7)])

theorem deployment_refines_system_witness:
  "\<exists>d es a. deploy_run demo_ev dw_in dw_out (map_of demo_links) mem_ops demo_deployment d \<and>
     list_all plain_event es \<and> sys_delivered (sys_run mem_ops es (small_init 1)) = [(0, a)] \<and>
     aa_iid a = 1 \<and> aa_value a = [7]"
proof -
  from demo_run_delivers obtain d e where
    d: "deploy_run demo_ev dw_in dw_out (map_of demo_links) mem_ops demo_deployment d"
      "dp_delivered d = [(0, e)]" "dl_iid e = 1" "dl_value e = [7]" by blast
  obtain es where es: "list_all (event_from (set (dp_submitted d))) es"
    "deploy_sim (set (dp_submitted d)) dw_in dw_out (map_of demo_links) d (sys_run mem_ops es (small_init 1))"
    using deployment_refines_system [OF demoloop.evloop_axioms demo_topology _ _ small_learner_new _ _
        demo_deploy_init [unfolded small_store_def [abs_def]] d(1)]
    by (auto simp: small_config_def small_init_def small_store_def [abs_def])
  from deploy_simD(4) [OF es(2)] d(2-4) obtain a where
    "sys_delivered (sys_run mem_ops es (small_init 1)) = [(0, a)]" "aa_iid a = 1" "aa_value a = [7]"
    by (auto simp: delivery_of_def)
  with events_fromD [OF es(1)] d(1) show ?thesis by blast
qed

text \<open>C7. The handlers of the processes are sequences of these steps: every call of a handler of
  an acceptor, a proposer or a learner (a read callback, which handles all the complete messages
  that arrived; a timer; a connection that is accepted, breaks or is made again; a signal) leads to
  a state that the deployment reaches, with the connections closed that the handler frees and
  with what the learner prints delivered. Only the hole timer of the learners is left out.\<close>

theorem handler_calls_are_steps:
  assumes "dp_acceptors d i = Some a" "acceptor_call_ok i a d x"
    and "acceptor_handler ev ops x (dp_world d (AcceptorProc i), a, aout) = Some (Ok (v1, a1, aout1))"
    and "dp_proposers d j = Some p" "proposer_call_ok j d y"
    and "proposer_handler ev y (dp_world d (ProposerProc j), p, pout) = Some (Ok (v2, p1, pout1))" "peers_wired topo j p1"
    and "dp_learners d k = Some l" "learner_call_ok k d z"
    and "learner_handler ev z (dp_world d (LearnerProc k), l, lout) = Some (Ok (v3, l1, lout1))"
  shows "(\<exists>work. (deploy_step ev inp outp topo ops)\<^sup>*\<^sup>* d
      (closing (AcceptorProc i) (acceptor_closes x) (with_acceptor_at i (v1, a1) work d))) \<and>
    (\<exists>work. (deploy_step ev inp outp topo ops)\<^sup>*\<^sup>* d
      (closing (ProposerProc j) (proposer_closes p y) (with_proposer_at j (v2, p1) work d))) \<and>
    (\<exists>ds work. (deploy_step ev inp outp topo ops)\<^sup>*\<^sup>* d
      (closing (LearnerProc k) (learner_closes l z) (with_learner_at k (v3, l1, ds) work d)) \<and>
      (learner_other_input z \<or> deliver_all ds lout = Ok lout1))"
  by (intro conjI acceptor_handler_steps [OF assms(1-3)] proposer_handler_steps [OF assms(4-7)]
      learner_handler_steps [OF assms(8-10)])

theorem handler_calls_are_steps_witness:
  "\<exists>x y z ds work1 work2 work3. dw_in (fst x) 10 = [] \<and> peers_bevs (ep_acceptors (snd y)) = [30] \<and>
     deliver_all ds [] = Ok [''Paxos instance 1 closed by ballot 10'', ''A''] \<and>
     (deploy_step demo_ev dw_in dw_out (map_of demo_links) mem_ops)\<^sup>*\<^sup>* demo_busy (with_acceptor_at 0 x work1 demo_busy) \<and>
     (deploy_step demo_ev dw_in dw_out (map_of demo_links) mem_ops)\<^sup>*\<^sup>* demo_busy
       (closing (ProposerProc 0) {20} (with_proposer_at 0 y work2 demo_busy)) \<and>
     (deploy_step demo_ev dw_in dw_out (map_of demo_links) mem_ops)\<^sup>*\<^sup>* demo_busy
       (with_learner_at 0 (fst z, snd z, ds) work3 demo_busy)"
proof -
  from demo_busy_calls obtain w1 a1 o1 w2 p1 o2 w3 l1 where
    1: "acceptor_handler demo_ev mem_ops busy_read (dp_world demo_busy (AcceptorProc 0), demo_acceptor2, []) = Some (Ok (w1, a1, o1))"
    and 2: "proposer_handler demo_ev busy_break (dp_world demo_busy (ProposerProc 0), demo_proposer2, []) = Some (Ok (w2, p1, o2))"
    and 3: "learner_handler demo_ev busy_learn (dp_world demo_busy (LearnerProc 0), demo_learner2, []) =
      Some (Ok (w3, l1, [''Paxos instance 1 closed by ballot 10'', ''A'']))"
    and ends: "dw_in w1 10 = []" "peers_bevs (ep_acceptors p1) = [30]" "peers_wired (map_of demo_links) 0 p1"
    unfolding is_ok_call wired_to demo_busy_processes(7) by auto
  have closes: "acceptor_closes busy_read = {}" "proposer_closes demo_proposer2 busy_break = {20}"
    "learner_closes demo_learner2 busy_learn = {}" "\<not> learner_other_input busy_learn"
    by (simp_all add: busy_read_def busy_learn_def demo_break_closes)
  from handler_calls_are_steps [OF demo_busy_processes(1,2) 1 demo_busy_processes(3,4) 2 ends(3) demo_busy_processes(5,6) 3,
      of dw_in dw_out, unfolded closes closing_none]
  obtain ds u1 u2 u3 where "(deploy_step demo_ev dw_in dw_out (map_of demo_links) mem_ops)\<^sup>*\<^sup>* demo_busy (with_acceptor_at 0 (w1, a1) u1 demo_busy)"
    "(deploy_step demo_ev dw_in dw_out (map_of demo_links) mem_ops)\<^sup>*\<^sup>* demo_busy
       (closing (ProposerProc 0) {20} (with_proposer_at 0 (w2, p1) u2 demo_busy))"
    "(deploy_step demo_ev dw_in dw_out (map_of demo_links) mem_ops)\<^sup>*\<^sup>* demo_busy (with_learner_at 0 (w3, l1, ds) u3 demo_busy)"
    "deliver_all ds [] = Ok [''Paxos instance 1 closed by ballot 10'', ''A'']" using closes(4) by blast
  with ends show ?thesis
    by (intro exI [of _ "(w1, a1)"] exI [of _ "(w2, p1)"] exI [of _ "(w3, l1)"] exI [of _ ds] exI [of _ u1]
        exI [of _ u2] exI [of _ u3]) simp
qed

text \<open>C8. The assumptions of agreement are needed. Repeat requests: acceptors 1 and 2 have promised
  ballot 11 and accepted nothing, a learner takes their answers to a repeat request for votes and
  delivers an empty value that nobody proposed, while another learner delivers the value 9. Records
  that were accepted and then promised higher: two acceptors answer with different values and the ballot
  of the promise, and a learner delivers the value 7 where another delivered 9. Empty values: one that a
  majority accepted is not noticed in the promises, and a second proposer gets another value chosen for
  the instance.\<close>

theorem agreement_assumptions_needed:
  "(\<exists>d1 d2. (0, d1) \<in> set (sys_delivered (sys_run mem_ops repeat_run (small_init 3))) \<and>
     (1, d2) \<in> set (sys_delivered (sys_run mem_ops repeat_run (small_init 3))) \<and>
     aa_iid d1 = aa_iid d2 \<and> aa_payload d1 = [] \<and> aa_payload d2 = [9]) \<and>
   (\<exists>d1 d2. (0, d1) \<in> set (sys_delivered (sys_run mem_ops promised_repeat_run (small_init 3))) \<and>
     (1, d2) \<in> set (sys_delivered (sys_run mem_ops promised_repeat_run (small_init 3))) \<and>
     aa_iid d1 = aa_iid d2 \<and> aa_payload d1 = [9] \<and> aa_payload d2 = [7] \<and> 0 < aa_value_ballot d2) \<and>
   (\<exists>d1 d2. (0, d1) \<in> set (sys_delivered (sys_run mem_ops empty_run (small_init 3))) \<and>
     (1, d2) \<in> set (sys_delivered (sys_run mem_ops empty_run (small_init 3))) \<and>
     aa_iid d1 = aa_iid d2 \<and> aa_payload d1 = [] \<and> aa_payload d2 = [9])"
proof (intro conjI)
  show "\<exists>d1 d2. (0, d1) \<in> set (sys_delivered (sys_run mem_ops repeat_run (small_init 3))) \<and>
     (1, d2) \<in> set (sys_delivered (sys_run mem_ops repeat_run (small_init 3))) \<and>
     aa_iid d1 = aa_iid d2 \<and> aa_payload d1 = [] \<and> aa_payload d2 = [9]"
    by (intro exI [of _ "aack 2 1 11 0 []"] exI [of _ "aack 2 1 11 11 [9]"])
      (simp add: repeat_run_delivers, simp add: aack_def aa_payload_def)
  show "\<exists>d1 d2. (0, d1) \<in> set (sys_delivered (sys_run mem_ops promised_repeat_run (small_init 3))) \<and>
     (1, d2) \<in> set (sys_delivered (sys_run mem_ops promised_repeat_run (small_init 3))) \<and>
     aa_iid d1 = aa_iid d2 \<and> aa_payload d1 = [9] \<and> aa_payload d2 = [7] \<and> 0 < aa_value_ballot d2"
    by (intro exI [of _ "aack 1 1 11 11 [9]"] exI [of _ "aack 2 1 12 10 [7]"])
      (simp add: promised_repeat_run_delivers, simp add: aack_def aa_payload_def)
  show "\<exists>d1 d2. (0, d1) \<in> set (sys_delivered (sys_run mem_ops empty_run (small_init 3))) \<and>
     (1, d2) \<in> set (sys_delivered (sys_run mem_ops empty_run (small_init 3))) \<and>
     aa_iid d1 = aa_iid d2 \<and> aa_payload d1 = [] \<and> aa_payload d2 = [9]"
    by (intro exI [of _ "aack 1 1 10 10 []"] exI [of _ "aack 2 1 11 11 [9]"])
      (simp add: empty_run_delivers, simp add: aack_def aa_payload_def)
qed

text \<open>C9. A value submitted once can be delivered twice: when an instance is preempted after its
  value was accepted, the promise that reports the value makes the proposer queue its own copy
  again, and the copy is chosen for a later instance.\<close>

theorem submitted_once_delivered_twice:
  "length (filter (\<lambda>e. case e of EPropose k v n \<Rightarrow> True | _ \<Rightarrow> False) twice_run) = 1 \<and>
   map (\<lambda>(j, d). (aa_iid d, aa_payload d))
     (sys_delivered (sys_run mem_ops twice_run (small_init 1))) = [(1, [7]), (2, [7])]"
  unfolding twice_run_delivers by (simp add: twice_run_def aack_def aa_payload_def)

section \<open>The processes\<close>



text \<open>C11. The acceptor process: handling the request at the front of a connection is the step of the
  system that the request stands for. It removes the request and nothing else, the state of its
  acceptor is that of the system, and the answer is written in the layout of the system's message:
  an accepted value to every open connection, a promise, a rejection or a repeated record to the
  sender only.\<close>

theorem evacceptor_request_step:
  assumes "evbuffers ev inp outp" "payload_storage ops"
    and "handle_req ev ops stack pad b (w, a) = Ok (w1, a1)"
    and "inp w b = frame c body @ rest" "body_ok body" "request_wf c body"
    and "acceptor_event k c body = Some e" "request_sent e s"
    and "ea_state a = Some st" "sys_acceptors s k = Some st"
    and "receiver_inv (ea_receiver a)" "b \<in> set (clist (tr_bevs (ea_receiver a)))"
  shows "\<exists>ms. sys_step ops e s =
      s\<lparr>sys_acceptors := (sys_acceptors s)(k := ea_state a1), sys_net := sys_net s @ ms\<rparr> \<and>
    a1 = a\<lparr>ea_state := ea_state a1\<rparr> \<and> ea_state a1 \<noteq> None \<and> inp w1 = (inp w)(b := rest) \<and>
    (ms = [] \<and> outp w1 = outp w \<or>
     (\<exists>m bytes. ms = [m] \<and> wire pad m = Ok bytes \<and>
        written outp (answer_to b (clist (tr_bevs (ea_receiver a))) e m) [bytes] w w1))"
  by (rule evbuffers.handle_req_step [OF assms(1,3-8,2,9-12)])

theorem evacceptor_request_step_witness:
  "\<exists>w1 a1 ms. handle_req demo_ev mem_ops [] pad6 10
      (with_input 10 (frame prepare_reqs prepare_body), demo_acceptor) = Ok (w1, a1) \<and>
    sys_step mem_ops (EAcceptorPrepare 0 (prep 1 10)) demo_system =
      demo_system\<lparr>sys_acceptors := (sys_acceptors demo_system)(0 := ea_state a1),
        sys_net := sys_net demo_system @ ms\<rparr> \<and> dw_in w1 10 = []"
proof -
  obtain w1 a1 where h: "handle_req demo_ev mem_ops [] pad6 10
      (with_input 10 (frame prepare_reqs prepare_body), demo_acceptor) = Ok (w1, a1)"
    using demo_request_ok by blast
  have "dw_in (with_input 10 (frame prepare_reqs prepare_body)) 10 = frame prepare_reqs prepare_body @ []"
    by simp
  moreover have "acceptor_event 0 prepare_reqs prepare_body = Some (EAcceptorPrepare 0 (prep 1 10))"
    unfolding acceptor_event_def prepare_body_ok(3) by simp
  moreover have "request_sent (EAcceptorPrepare 0 (prep 1 10)) demo_system"
    using demo_prepare_sent by simp
  moreover have "receiver_inv (ea_receiver demo_acceptor)" "10 \<in> set (clist (tr_bevs (ea_receiver demo_acceptor)))"
    "ea_state demo_acceptor = Some \<lparr>acc_store = small_store 0\<rparr>"
    using demo_receiver_ok by (simp_all add: demo_acceptor_def)
  ultimately obtain ms where "sys_step mem_ops (EAcceptorPrepare 0 (prep 1 10)) demo_system =
      demo_system\<lparr>sys_acceptors := (sys_acceptors demo_system)(0 := ea_state a1), sys_net := sys_net demo_system @ ms\<rparr>"
    "dw_in w1 = (dw_in (with_input 10 (frame prepare_reqs prepare_body)))(10 := [])"
    using evacceptor_request_step [OF demo.evbuffers_axioms mem_payload.payload_storage_axioms h _
        prepare_body_ok(1,2) _ _ _ demo_acceptor_sys] by blast
  with h show ?thesis by (intro exI [of _ w1] exI [of _ a1] exI [of _ ms]) simp
qed

text \<open>C12. The proposer process: handling the promise, the record or the client's value at the front of
  a connection is a run of the system: the event of the message, then accept requests until none is
  possible, then new instances. Every message of the run, and nothing else, is written to every
  acceptor in this order.\<close>

theorem evproposer_message_run:
  assumes "evbuffers ev inp outp"
    and "proposer_handle_msg ev junk clock now stack b (w, p) = Ok y"
    and "inp w b = frame c body @ rest" "body_ok body" "answer_wf c body"
    and "proposer_event k now c body = Some e" "answer_sent e s"
    and "sys_proposers s k = Some (ep_state p)" "peers_ok (ep_acceptors p)"
  shows "\<exists>v j m. inp v = (inp w)(b := rest) \<and> outp v = outp w \<and>
    process_run inp outp ops k 2
      (e # replicate (Suc j) (EAccept k) @ map (\<lambda>i. EPrepare k (junk i) (clock i)) [0..<m]) s (v, p) y"
  by (rule evbuffers.handle_msg_run [OF assms])

theorem evproposer_message_run_witness:
  "\<exists>v j m y. proposer_handle_msg demo_ev (\<lambda>i. zeros) (\<lambda>i. clock0) clock0 [] 9
      (with_input 9 (frame submit [7]), demo_proposer) = Ok y \<and> dw_in v 9 = [] \<and>
    process_run dw_in dw_out mem_ops 0 2
      (EPropose 0 [7] 1 # replicate (Suc j) (EAccept 0) @ map (\<lambda>i. EPrepare 0 zeros clock0) [0..<m])
      (small_init 3) (v, demo_proposer) y"
proof -
  have inp: "dw_in (with_input 9 (frame submit [7])) 9 = frame submit [7] @ []" by simp
  have body: "body_ok [7]" "answer_wf submit [7]" "answer_ok 3 (ep_state demo_proposer) submit [7]"
    by (simp_all add: body_ok_def PAXOS_MAX_VALUE_SIZE_def answer_wf_def answer_ok_def)
  have p: "peers_ok (ep_acceptors demo_proposer)" "proposer_inv 3 (ep_state demo_proposer)"
    "unat (p_next_prepare_iid (ep_state demo_proposer)) + nat (ep_preexec_window demo_proposer) < 2 ^ 32"
    using demo_peers_ok proposer_new_inv [of 3 0] by (simp_all add: demo_proposer_def proposer_new_def)
  obtain y where y: "proposer_handle_msg demo_ev (\<lambda>i. zeros) (\<lambda>i. clock0) clock0 [] 9
      (with_input 9 (frame submit [7]), demo_proposer) = Ok y"
    using demo.handle_msg_ok [OF inp body p(2,1,3)] by blast
  have "proposer_event 0 clock0 submit [7] = Some (EPropose 0 [7] 1)" by (simp add: proposer_event_def)
  from evproposer_message_run [OF demo.evbuffers_axioms y inp body(1,2) this _ demo_proposer_sys p(1), of mem_ops]
  obtain v j m where "dw_in v = (dw_in (with_input 9 (frame submit [7])))(9 := [])"
    "process_run dw_in dw_out mem_ops 0 2
      (EPropose 0 [7] 1 # replicate (Suc j) (EAccept 0) @ map (\<lambda>i. EPrepare 0 zeros clock0) [0..<m])
      (small_init 3) (v, demo_proposer) y" by auto
  with y show ?thesis by (intro exI [of _ v] exI [of _ j] exI [of _ m] exI [of _ y]) simp
qed

text \<open>C13. A well-formed message never makes a proposer process fail, whether it is a client's value, a
  promise, an accepted record or the answer to a rejected request. Well-formed means: complete, from one
  of the acceptors, and not a record with the ballot of a pending instance but another value ballot, the
  one case that \<open>proposer_receive_accept_ack\<close> asserts to be impossible. When the message was handled,
  the proposer keeps its invariant, no further accept request is possible, and at least
  \<open>preexec_window\<close> instances are prepared. The instance numbers must not wrap around.\<close>

theorem evproposer_window:
  assumes "evbuffers ev inp outp"
    and "inp w b = frame c body @ rest" "body_ok body" "answer_wf c body" "answer_ok n (ep_state p) c body"
    and "proposer_inv n (ep_state p)" "peers_ok (ep_acceptors p)"
    and "unat (p_next_prepare_iid (ep_state p)) + nat (ep_preexec_window p) < 2 ^ 32"
  shows "\<exists>w1 st st1. proposer_handle_msg ev junk clock now stack b (w, p) = Ok (w1, p\<lparr>ep_state := st\<rparr>) \<and>
    proposer_inv n st \<and> proposer_accept st = Ok (None, st1) \<and>
    ep_preexec_window p \<le> int (proposer_prepared_count st)"
  by (rule evbuffers.handle_msg_ok [OF assms])

text \<open>A proposer that waits for acceptance with ballot 10 gets the answer of an acceptor that promised
  ballot 12 and has accepted nothing.\<close>

theorem evproposer_window_witness:
  "\<exists>w1 st. proposer_handle_msg demo_ev (\<lambda>i. zeros) (\<lambda>i. clock0) clock0 [] 9
      (with_input 9 (frame accept_acks (ack_body pad6 (aack 0 1 12 0 []))),
       demo_proposer\<lparr>ep_state := accepting_proposer\<rparr>) =
      Ok (w1, demo_proposer\<lparr>ep_state := st\<rparr>) \<and>
    pi_ballot (hd (lp_accs (lists_of accepting_proposer))) = 10 \<and> 2 \<le> proposer_prepared_count st"
proof -
  let ?nack = "aack 0 1 12 0 []" and ?p = "demo_proposer\<lparr>ep_state := accepting_proposer\<rparr>"
  have nack: "ack_fits ?nack" "length pad6 = 6"
    by (simp_all add: aack_def ack_fits_def ack_shape_def aa_complete_def pad6_def)
  note frame = ack_body_frame [OF _ nack(2), of ?nack]
  have inp: "dw_in (with_input 9 (frame accept_acks (ack_body pad6 ?nack))) 9 =
      frame accept_acks (ack_body pad6 ?nack) @ []" by simp
  have con: "ack_consistent (lp_accs (lists_of accepting_proposer)) ?nack" by code_simp
  have body: "body_ok (ack_body pad6 ?nack)" "answer_wf accept_acks (ack_body pad6 ?nack)"
    "answer_ok 3 (ep_state ?p) accept_acks (ack_body pad6 ?nack)"
    using ack_body_ok [OF nack] frame nack(1) con
    by (simp_all add: answer_ok_def ack_fits_def aack_def del: lists_of_sel)
  have nxt: "p_next_prepare_iid accepting_proposer = 1" "pi_ballot (hd (lp_accs (lists_of accepting_proposer))) = 10"
    by code_simp+
  have p: "proposer_inv 3 (ep_state ?p)" "peers_ok (ep_acceptors ?p)"
    "unat (p_next_prepare_iid (ep_state ?p)) + nat (ep_preexec_window ?p) < 2 ^ 32" "ep_preexec_window ?p = 2"
    using demo_peers_ok accepting_proposer_inv by (simp_all add: demo_proposer_def nxt(1))
  from evproposer_window [OF demo.evbuffers_axioms inp body p(1,2,3)] p(4) nxt(2) show ?thesis by fastforce
qed

text \<open>The timer of a proposer process: its two loops end, and what they do is a run of the system
  that repeats the requests of the instances that timed out, each written to every acceptor; then
  the timer is set again.\<close>

theorem evproposer_timeouts_run:
  assumes "evbuffers ev inp outp"
    and "proposer_check_timeouts ev cfg now (w, p) = Ok (w1, p1)"
    and "sys_proposers s k = Some (ep_state p)" "peers_ok (ep_acceptors p)"
  shows "\<exists>v its jts. w1 = event_add ev v (ep_timeout_ev p) (ep_tv p) \<and>
    process_run inp outp ops k 2 (map (ETimeoutPrepare k cfg) its @ map (ETimeoutAccept k cfg) jts) s (w, p) (v, p1)"
  by (rule evbuffers.check_timeouts_run [OF assms])

theorem evproposer_timeouts_run_witness:
  "\<exists>w1 p1 its jts v. proposer_check_timeouts demo_ev small_config clock0 (with_input 9 [], demo_proposer) = Ok (w1, p1) \<and>
    dw_timers w1 = (1, clock0) # dw_timers v \<and>
    process_run dw_in dw_out mem_ops 0 2
      (map (ETimeoutPrepare 0 small_config) its @ map (ETimeoutAccept 0 small_config) jts)
      (small_init 3) (with_input 9 [], demo_proposer) (v, p1)"
proof -
  have t: "timeout_iterator_prepare small_config (proposer_timeout_iterator clock0) (proposer_new 0 3) =
      Ok (None, proposer_timeout_iterator clock0, proposer_new 0 3)"
    "timeout_iterator_accept small_config (proposer_timeout_iterator clock0) (proposer_new 0 3) =
      Ok (None, proposer_timeout_iterator clock0, proposer_new 0 3)"
    by (simp_all add: timeout_iterator_prepare_def timeout_iterator_accept_def next_timedout.simps
        proposer_new_def proposer_timeout_iterator_def carray_count_def carray_new_def)
  obtain w1 p1 where h: "proposer_check_timeouts demo_ev small_config clock0 (with_input 9 [], demo_proposer) = Ok (w1, p1)"
    using t by (simp add: proposer_check_timeouts_def timeout_prepares.simps timeout_accepts.simps demo_proposer_def)
  have ps: "peers_ok (ep_acceptors demo_proposer)" using demo_peers_ok by (simp add: demo_proposer_def)
  from evproposer_timeouts_run [OF demo.evbuffers_axioms h demo_proposer_sys ps, of mem_ops] obtain v its jts where
    "w1 = event_add demo_ev v (ep_timeout_ev demo_proposer) (ep_tv demo_proposer)"
    "process_run dw_in dw_out mem_ops 0 2
      (map (ETimeoutPrepare 0 small_config) its @ map (ETimeoutAccept 0 small_config) jts)
      (small_init 3) (with_input 9 [], demo_proposer) (v, p1)" by blast
  with h show ?thesis
    by (intro exI [of _ w1] exI [of _ p1] exI [of _ its] exI [of _ jts] exI [of _ v])
      (simp add: demo_ev_def demo_proposer_def)
qed

text \<open>C14. A learner process in any run of the system (in-memory storage, at most \<open>step_limit\<close> calls):
  when acknowledgements of the system arrive on a connection, followed by at most a header's worth
  of the next one, the loop returns, leaves exactly that rest, and what it handed to the application
  is what a continuation of the run delivers. So agreement holds for the applications.\<close>

theorem evlearner_process_run:
  assumes "evbuffers ev inp outp"
    and "0 < n" "learner_new cfg n = Ok l0" "0 < learner_instances cfg" "learner_instances cfg \<le> 2 ^ 30"
    and "length es \<le> step_limit" "run_ok mem_ops es (sys_init n (\<lambda>a. storage_open (junk a) (int a)) l0)"
    and "s = sys_run mem_ops es (sys_init n (\<lambda>a. storage_open (junk a) (int a)) l0)"
    and "sys_learners s k = Some (el_state l)"
    and "inp w b = concat (map (\<lambda>aa. frame accept_acks (ack_body pad aa)) aas) @ rest"
    and "length (inp w b) < 2 ^ 64" "length rest \<le> sizeof_paxos_msg" "length pad = 6"
    and "\<And>aa. aa \<in> set aas \<Longrightarrow> MAccepted aa \<in> set (sys_net s) \<and> ack_fits aa"
  shows "\<exists>w1 l1 acks fs. on_acceptor_msg ev stack j b (w, l, ds) = Some (Ok (w1, l1, ds @ map delivery_of acks)) \<and>
    sys_run mem_ops fs s = delivered_by k (el_state l1) acks s \<and> list_all plain_event fs \<and>
    inp w1 = (inp w)(b := rest) \<and> outp w1 = outp w"
proof (rule mem.learner_process_run [OF assms(1,2) _ _ _ assms(7,6) _ assms(8-14)])
  show "learner_inv n (learner_instances cfg) {} l0"
    using learner_new_ok [of cfg n "{}"] assms(3-5) by auto
  show "mem.store_ok (storage_open (junk a) (int a)) \<and>
      ms_acceptor_id (storage_open (junk a) (int a)) = int a" for a
    using mem_store_ok_open by (simp add: storage_open_def)
  show "mem_lookup (storage_open (junk a) (int a)) i = None" if "i \<noteq> 0" for a i
    using that by (simp add: mem_lookup_def storage_open_def)
  show "length es + learner_instances cfg + 1 < 2 ^ 31"
    using assms(5,6) by (simp add: step_limit_def)
qed

theorem evlearner_process_run_witness:
  "\<exists>w1 l1 acks fs. on_acceptor_msg demo_ev (\<lambda>i. []) 0 9
      (with_input 9 (concat (map (\<lambda>aa. frame accept_acks (ack_body pad6 aa)) demo_acks) @ [1, 2]), demo_learner, []) =
      Some (Ok (w1, l1, map delivery_of acks)) \<and>
    sys_run mem_ops fs (sys_run mem_ops demo_run (small_init 3)) =
      delivered_by 0 (el_state l1) acks (sys_run mem_ops demo_run (small_init 3)) \<and> dw_in w1 9 = [1, 2]"
proof -
  let ?s = "sys_run mem_ops demo_run (small_init 3)"
  let ?w = "with_input 9 (concat (map (\<lambda>aa. frame accept_acks (ack_body pad6 aa)) demo_acks) @ [1, 2])"
  note init = small_init_stores [of 3]
  note l = small_learner_new [of 3]
  have s: "?s = sys_run mem_ops demo_run (sys_init 3 (\<lambda>a. storage_open (\<lambda>i. aack 0 0 0 0 []) (int a)) (small_learner 3))"
    by (simp add: init)
  have st: "sys_learners ?s 0 = Some (el_state demo_learner)"
    using demo_learner_sys by (auto simp: demo_learner_def)
  have inp: "dw_in ?w 9 = concat (map (\<lambda>aa. frame accept_acks (ack_body pad6 aa)) demo_acks) @ [1, 2]"
    by simp
  have len: "length (dw_in ?w 9) < 2 ^ 64" using demo_length unfolding inp by simp
  have aas: "MAccepted aa \<in> set (sys_net ?s) \<and> ack_fits aa" if "aa \<in> set demo_acks" for aa
    using that demo_acks_sent demo_acks_fit by (auto simp: list_all_iff)
  have "\<exists>w1 l1 acks fs. on_acceptor_msg demo_ev (\<lambda>i. []) 0 9 (?w, demo_learner, []) =
      Some (Ok (w1, l1, [] @ map delivery_of acks)) \<and>
    sys_run mem_ops fs ?s = delivered_by 0 (el_state l1) acks ?s \<and> list_all plain_event fs \<and>
    dw_in w1 = (dw_in ?w)(9 := [1, 2]) \<and> dw_out w1 = dw_out ?w"
    by (rule evlearner_process_run [OF demo.evbuffers_axioms _ l _ _ _ demo_run_ok [unfolded init] s st inp len _ _ aas])
      (simp_all add: small_config_def step_limit_def demo_run_def compete_run_def sizeof_defs pad6_def)
  then obtain w1 l1 acks fs where "on_acceptor_msg demo_ev (\<lambda>i. []) 0 9 (?w, demo_learner, []) =
      Some (Ok (w1, l1, [] @ map delivery_of acks))"
    "sys_run mem_ops fs ?s = delivered_by 0 (el_state l1) acks ?s" "dw_in w1 = (dw_in ?w)(9 := [1, 2])" by blast
  then show ?thesis by (intro exI [of _ w1] exI [of _ l1] exI [of _ acks] exI [of _ fs]) simp
qed

text \<open>Whatever bytes arrive on a connection, well-formed or not, the loops of an acceptor and of
  a proposer process return: every round takes at least a header from the connection.\<close>

theorem process_loops_return:
  assumes "evbuffers ev inp outp"
  shows "\<exists>r q. evacceptor_on_read ev ops stack pad b x = Some r \<and>
    handle_request ev junk clock now stack b y = Some q"
  using evbuffers.on_read_returns [OF assms] evbuffers.handle_request_returns [OF assms] by blast

theorem process_loops_return_witness:
  "\<exists>r q. evacceptor_on_read demo_ev mem_ops (\<lambda>i. []) pad6 9 (with_input 9 (replicate 30 0), demo_acceptor) = Some r \<and>
    handle_request demo_ev (\<lambda>k i. zeros) (\<lambda>k i. clock0) (\<lambda>k. clock0) (\<lambda>k. []) 9
      (with_input 9 (replicate 30 0), demo_proposer) = Some q"
  by (rule process_loops_return [OF demo.evbuffers_axioms])

section \<open>The sample programs\<close>

text \<open>C15. The processes of the sample programs stay well-formed, whatever events happen and whatever
  bytes arrive, in any number of rounds of the event loop. The loop of an acceptor and of a proposer
  returns. A process that did not fail has exactly the connections that the events of the rounds up to
  the exit leave: the ones it had, in their order, then the new ones that the accepts got from libevent,
  without those that ended. It has as many peers as before, the same id and, for the acceptor, the same
  configuration and an open storage; a learner that did not fail has as many peers as before.\<close>

theorem processes_stay_wellformed:
  assumes "evbuffers ev inp outp" "evacceptor_ok a" "evproposer_ok p" "evlearner_ok l"
  shows "\<exists>r q. event_base_dispatch got_exit (acceptor_handler ev ops) ins (w, a, out) = Some r \<and>
      (\<forall>w1 a1 out1. r = Ok (w1, a1, out1) \<longrightarrow>
         evacceptor_ok a1 \<and> ea_acceptor_id a1 = ea_acceptor_id a \<and> ea_conf a1 = ea_conf a \<and>
         (\<exists>es. dispatched got_exit acceptor_conn ins w1 es \<and>
            clist (tr_bevs (ea_receiver a1)) = conns_after ev es (clist (tr_bevs (ea_receiver a))))) \<and>
      event_base_dispatch got_exit (proposer_handler ev) pins (v, p, out) = Some q \<and>
      (\<forall>w1 p1 out1. q = Ok (w1, p1, out1) \<longrightarrow>
         evproposer_ok p1 \<and> ep_id p1 = ep_id p \<and> peers_n (ep_acceptors p1) = peers_n (ep_acceptors p) \<and>
         (\<exists>es. dispatched got_exit proposer_conn pins w1 es \<and>
            clist (tr_bevs (ep_receiver p1)) = conns_after ev es (clist (tr_bevs (ep_receiver p))))) \<and>
      (\<forall>w1 l1 out1. event_base_dispatch got_exit (learner_handler ev) lins (u, l, out) = Some (Ok (w1, l1, out1)) \<longrightarrow>
         evlearner_ok l1 \<and> peers_n (el_acceptors l1) = peers_n (el_acceptors l))"
proof -
  from evbuffers.acceptor_dispatch_returns [OF assms(1)] obtain r where
    r: "event_base_dispatch got_exit (acceptor_handler ev ops) ins (w, a, out) = Some r" by blast
  from evbuffers.proposer_dispatch_returns [OF assms(1)] obtain q where
    q: "event_base_dispatch got_exit (proposer_handler ev) pins (v, p, out) = Some q" by blast
  show ?thesis
  proof (rule exI [of _ r], rule exI [of _ q], intro conjI allI impI)
    fix w1 a1 out1 assume "r = Ok (w1, a1, out1)"
    with r have d: "event_base_dispatch got_exit (acceptor_handler ev ops) ins (w, a, out) = Some (Ok (w1, a1, out1))" by simp
    from acceptor_dispatch_keeps [OF d assms(2)]
    show "evacceptor_ok a1" "ea_acceptor_id a1 = ea_acceptor_id a" "ea_conf a1 = ea_conf a" by simp_all
    from acceptor_dispatch_conns [OF d assms(2)]
    show "\<exists>es. dispatched got_exit acceptor_conn ins w1 es \<and>
      clist (tr_bevs (ea_receiver a1)) = conns_after ev es (clist (tr_bevs (ea_receiver a)))" .
  next
    fix w1 p1 out1 assume "q = Ok (w1, p1, out1)"
    with q have d: "event_base_dispatch got_exit (proposer_handler ev) pins (v, p, out) = Some (Ok (w1, p1, out1))" by simp
    from proposer_dispatch_keeps [OF d assms(3)]
    show "evproposer_ok p1" "ep_id p1 = ep_id p" "peers_n (ep_acceptors p1) = peers_n (ep_acceptors p)" by simp_all
    from proposer_dispatch_conns [OF d assms(3)]
    show "\<exists>es. dispatched got_exit proposer_conn pins w1 es \<and>
      clist (tr_bevs (ep_receiver p1)) = conns_after ev es (clist (tr_bevs (ep_receiver p)))" .
  next
    fix w1 l1 out1
    assume d: "event_base_dispatch got_exit (learner_handler ev) lins (u, l, out) = Some (Ok (w1, l1, out1))"
    from learner_dispatch_keeps [OF d assms(4)]
    show "evlearner_ok l1" "peers_n (el_acceptors l1) = peers_n (el_acceptors l)" by simp_all
  qed (rule r q)+
qed

text \<open>An acceptor and a proposer accept two connections and lose one, a learner checks for holes; all are
  interrupted.\<close>

theorem processes_stay_wellformed_witness:
  "\<exists>w1 a1 out1 w2 p2 out2 w3 l3 out3 es fs.
     event_base_dispatch dw_exit (acceptor_handler demo_ev mem_ops) busy_acceptor_rounds
       (busy_world0, demo_acceptor, []) = Some (Ok (w1, a1, out1)) \<and>
     evacceptor_ok a1 \<and> clist (tr_bevs (ea_receiver demo_acceptor)) = [10] \<and>
     clist (tr_bevs (ea_receiver a1)) = [10, 21] \<and>
     dispatched dw_exit acceptor_conn busy_acceptor_rounds w1 es \<and> conns_after demo_ev es [10] = [10, 21] \<and>
     event_base_dispatch dw_exit (proposer_handler demo_ev) busy_proposer_rounds
       (busy_world0, demo_proposer, []) = Some (Ok (w2, p2, out2)) \<and>
     evproposer_ok p2 \<and> dispatched dw_exit proposer_conn busy_proposer_rounds w2 fs \<and> conns_after demo_ev fs [10] = [10, 21] \<and>
     event_base_dispatch dw_exit (learner_handler demo_ev) learner_rounds
       (busy_world0, demo_learner, []) = Some (Ok (w3, l3, out3)) \<and>
     evlearner_ok l3 \<and> peers_n (el_acceptors l3) = peers_n (el_acceptors demo_learner)"
proof -
  have ok: "evacceptor_ok demo_acceptor" "evproposer_ok demo_proposer" "evlearner_ok demo_learner"
    using demo_receiver_ok demo_peers_ok
    by (simp_all add: evacceptor_ok_def evproposer_ok_def evlearner_ok_def demo_acceptor_def demo_proposer_def demo_learner_def)
  have start: "clist (tr_bevs (ea_receiver demo_acceptor)) = [10]" "clist (tr_bevs (ep_receiver demo_proposer)) = [10]"
    by code_simp+
  from ends_withD [OF busy_acceptor_ok] obtain w1 a1 out1 where
    a: "event_base_dispatch dw_exit (acceptor_handler demo_ev mem_ops) busy_acceptor_rounds
       (busy_world0, demo_acceptor, []) = Some (Ok (w1, a1, out1))" "clist (tr_bevs (ea_receiver a1)) = [10, 21]" by blast
  from ends_withD [OF busy_proposer_ok] obtain w2 p2 out2 where
    p: "event_base_dispatch dw_exit (proposer_handler demo_ev) busy_proposer_rounds
       (busy_world0, demo_proposer, []) = Some (Ok (w2, p2, out2))" "clist (tr_bevs (ep_receiver p2)) = [10, 21]" by blast
  from ends_withD [OF busy_learner_ok] obtain w3 l3 out3 where
    l: "event_base_dispatch dw_exit (learner_handler demo_ev) learner_rounds
       (busy_world0, demo_learner, []) = Some (Ok (w3, l3, out3))" by blast
  note wf = processes_stay_wellformed [OF demo.evbuffers_axioms ok, of dw_exit mem_ops busy_acceptor_rounds busy_world0 "[]"
      busy_proposer_rounds busy_world0 learner_rounds busy_world0]
  from wf a p start obtain es fs where
    "evacceptor_ok a1" "dispatched dw_exit acceptor_conn busy_acceptor_rounds w1 es" "conns_after demo_ev es [10] = [10, 21]"
    "evproposer_ok p2" "dispatched dw_exit proposer_conn busy_proposer_rounds w2 fs" "conns_after demo_ev fs [10] = [10, 21]"
    by auto
  moreover from wf l have "evlearner_ok l3" "peers_n (el_acceptors l3) = peers_n (el_acceptors demo_learner)" by auto
  ultimately show ?thesis using a p l start(1)
    by (intro exI [of _ w1] exI [of _ a1] exI [of _ out1] exI [of _ w2] exI [of _ p2] exI [of _ out2]
        exI [of _ w3] exI [of _ l3] exI [of _ out3] exI [of _ es] exI [of _ fs]) simp
qed

text \<open>When the event loop of a sample program ended, the program frees its process without a failure
  and exits with what it printed: the acceptor with status 1, and the proposer and the learner with
  status 0. With the wrong number of arguments the acceptor exits with 0, the others with 1.\<close>

theorem sample_programs_exit:
  assumes acceptor: "evacceptor_init ev (atoi aid) (files conf) cfg (Some db) (event_base_new eb) = Ok (Some (w, a))"
      "evsignal_new eb w SIGINT = (sig, w1)"
      "event_base_dispatch (event_base_got_exit eb) (acceptor_handler ev ops) ins (evsignal_add eb w1 sig, a, []) =
         Some (Ok (w2, a2, out))"
    and proposer: "evsignal_new eb (event_base_new eb) SIGINT = (psig, v1)"
      "evproposer_init ev (atoi pid) (files conf) cfg (evsignal_add eb v1 psig) = Ok (Some (v, p))"
      "event_base_dispatch (event_base_got_exit eb) (proposer_handler ev) pins (v, p, []) = Some (Ok (v2, p2, pout))"
    and learner: "evlearner_init ev (files conf) cfg (event_base_new eb) = Ok (u, l)"
      "evsignal_new eb u SIGINT = (lsig, u1)"
      "event_base_dispatch (event_base_got_exit eb) (learner_handler ev) lins (evsignal_add eb u1 lsig, l, []) =
         Some (Ok (u2, l2, lout))"
    and argv: "length argv \<noteq> 2" "length argv \<noteq> 3"
  shows "\<exists>x y z s t r. acceptor_main ev eb ops files cfg (Some db) ins [prog, aid, conf] = Some (Ok (1, out, x)) \<and>
    proposer_main ev eb files cfg pins [prog, pid, conf] = Some (Ok (0, pout, y)) \<and>
    learner_main ev eb files cfg lins [prog, conf] = Some (Ok (0, lout, z)) \<and>
    acceptor_main ev eb ops files cfg (Some db) ins argv = Some (Ok (0, s)) \<and>
    proposer_main ev eb files cfg pins argv = Some (Ok (1, t)) \<and>
    learner_main ev eb files cfg lins argv = Some (Ok (1, r))"
  using acceptor_main_exits [of "[prog, aid, conf]" "Some db" ev files cfg eb w a sig w1 ops ins w2 a2 out]
    proposer_main_exits [of "[prog, pid, conf]" eb psig v1 ev files cfg v p pins v2 p2 pout]
    learner_main_exits [of "[prog, conf]" ev files cfg eb u l lsig u1 lins u2 l2 lout] assms
  by (auto simp: acceptor_main_def [of _ _ _ _ _ _ _ argv] proposer_main_def [of _ _ _ _ _ argv]
      learner_main_def [of _ _ _ _ _ argv])

theorem sample_programs_exit_witness:
  "\<exists>x y z. acceptor_main demo_ev demo_base mem_ops demo_files small_config (Some (small_store 0)) acceptor_rounds
      [''acceptor'', ''0'', ''paxos.conf''] = Some (Ok (1, [''Caught signal 2''], x)) \<and>
    proposer_main demo_ev demo_base demo_files small_config proposer_rounds [''acceptor'', ''0'', ''paxos.conf''] =
      Some (Ok (0, [''Caught signal 2''], y)) \<and>
    learner_main demo_ev demo_base demo_files small_config learner_rounds [''acceptor'', ''paxos.conf''] =
      Some (Ok (0, [''Caught signal 2''], z))"
proof -
  from demo_acceptor_loop obtain w a sig w1 w2 a2 where a:
    "evacceptor_init demo_ev (atoi ''0'') (demo_files ''paxos.conf'') small_config (Some (small_store 0))
       (event_base_new demo_base) = Ok (Some (w, a))"
    "evsignal_new demo_base w SIGINT = (sig, w1)"
    "event_base_dispatch (event_base_got_exit demo_base) (acceptor_handler demo_ev mem_ops) acceptor_rounds
       (evsignal_add demo_base w1 sig, a, []) = Some (Ok (w2, a2, [''Caught signal 2'']))"
    by (auto simp: ran_cases demo_signal)
  from demo_proposer_loop obtain psig v1 v p v2 p2 where p:
    "evsignal_new demo_base (event_base_new demo_base) SIGINT = (psig, v1)"
    "evproposer_init demo_ev (atoi ''0'') (demo_files ''paxos.conf'') small_config (evsignal_add demo_base v1 psig) =
       Ok (Some (v, p))"
    "event_base_dispatch (event_base_got_exit demo_base) (proposer_handler demo_ev) proposer_rounds (v, p, []) =
       Some (Ok (v2, p2, [''Caught signal 2'']))"
    by (auto simp: ran_cases demo_signal)
  from demo_learner_loop obtain u l lsig u1 u2 l2 where l:
    "evlearner_init demo_ev (demo_files ''paxos.conf'') small_config (event_base_new demo_base) = Ok (u, l)"
    "evsignal_new demo_base u SIGINT = (lsig, u1)"
    "event_base_dispatch (event_base_got_exit demo_base) (learner_handler demo_ev) learner_rounds
       (evsignal_add demo_base u1 lsig, l, []) = Some (Ok (u2, l2, [''Caught signal 2'']))"
    by (auto simp: ran_cases demo_signal)
  from sample_programs_exit [where files = demo_files and conf = "''paxos.conf''" and argv = "[]" and prog = "''acceptor''",
      OF a p l] show ?thesis by auto
qed

text \<open>A sample client that is connected to a proposer stays in its loop and has written, after \<open>n\<close>
  rounds, \<open>n\<close> times \<open>rate\<close> submissions of its text, each a frame that a proposer process takes as a
  client's value; and the sample learner prints the text when the value is delivered. With a rate
  that is negative or not a number nothing is written.\<close>

theorem client_stream:
  assumes "client_buffers ev inp outp lib" "length argv = 3"
    and "evutil_parse_sockaddr_port lib (argv ! 1) = Some addr"
    and "connect_to_proposer ev lib addr (event_base_new eb, []) = (Some b, w, out)"
  shows "\<exists>w1 out1 w2 out2.
    client_program n ev eb lib argv = Ok (Inr (w1, out1)) \<and>
    outp w1 = (outp w)(b := outp w b @ concat (replicate (n * nat (atoi (argv ! 2))) (frame submit (c_literal ''hello'')))) \<and>
    bakclient_program n ev eb lib argv = Ok (Inr (w2, out2)) \<and>
    outp w2 = (outp w)(b := outp w b @ concat (replicate (n * nat (atoi (argv ! 2))) (frame submit (c_literal ''hello!'')))) \<and>
    body_ok (c_literal ''hello'') \<and> body_ok (c_literal ''hello!'') \<and>
    c_string (c_literal ''hello'') = Ok ''hello'' \<and> c_string (c_literal ''hello!'') = Ok ''hello!''"
proof -
  note wr = client_buffers.client_rounds_write [OF assms(1) submit_literal(1)]
  from wr [of "''hello''" n "atoi (argv ! 2)" 100 b w out] wr [of "''hello!''" n "atoi (argv ! 2)" 10 b w out]
  show ?thesis
    using assms(2-4) submit_literal(2) [of "''hello''"] submit_literal(2) [of "''hello!''"]
      c_string_text [of "''hello''" "[]"] c_string_text [of "''hello!''" "[]"]
    by (auto simp: client_program_def bakclient_program_def client_main_def c_literal_def)
qed

theorem client_stream_witness:
  "\<exists>w1 out1. client_program 2 demo_ev demo_base demo_client [''client'', ''127.0.0.1:8801'', ''3''] = Ok (Inr (w1, out1)) \<and>
     dw_out w1 10 = concat (replicate 6 (frame submit (c_literal ''hello'')))"
proof -
  have 1: "evutil_parse_sockaddr_port demo_client ([''client'', ''127.0.0.1:8801'', ''3''] ! 1) =
      Some \<lparr>sin_addr = Some ''127.0.0.1'', sin_port = 8801\<rparr>"
    by (simp add: demo_client_def)
  have 2: "connect_to_proposer demo_ev demo_client \<lparr>sin_addr = Some ''127.0.0.1'', sin_port = 8801\<rparr>
      (event_base_new demo_base, []) = (Some 10, (with_input 0 [])\<lparr>dw_fresh := 11\<rparr>, [])"
    by (simp add: connect_to_proposer_def dispatch_events_def demo_client_def demo_ev_def demo_base_def with_input_def)
  have 3: "atoi ''3'' = 3" by code_simp
  from client_stream [OF democlient.client_buffers_axioms _ 1 2, of 2] show ?thesis
    by (auto simp: 3)
qed

text \<open>\<open>main\<close> does not look at the result of \<open>connect_to_proposer\<close>: when the connection cannot be
  started, the first submission dereferences NULL.\<close>

theorem client_unconnected:
  assumes "length argv = 3" "evutil_parse_sockaddr_port lib (argv ! 1) = Some addr"
    and "bufferevent_socket_new ev (event_base_new eb) (- 1) = (b, w)" "socket_connect lib w b addr = (rv, w1)" "rv < 0"
    and "0 < atoi (argv ! 2)"
  shows "client_program (Suc n) ev eb lib argv = Err NullPointer"
  using assms
  by (simp add: client_program_def client_main_def connect_to_proposer_def client_not_connected
      del: client_rounds.simps)

theorem client_unconnected_witness:
  "client_program 1 demo_ev demo_base (demo_client\<lparr>socket_connect := \<lambda>w b a. (- 1, w)\<rparr>)
     [''client'', ''127.0.0.1:8801'', ''3''] = Err NullPointer"
proof -
  have 1: "evutil_parse_sockaddr_port (demo_client\<lparr>socket_connect := \<lambda>w b a. (- 1, w)\<rparr>)
      ([''client'', ''127.0.0.1:8801'', ''3''] ! 1) = Some \<lparr>sin_addr = Some ''127.0.0.1'', sin_port = 8801\<rparr>"
    by (simp add: demo_client_def)
  have 2: "bufferevent_socket_new demo_ev (event_base_new demo_base) (- 1) = (10, (with_input 0 [])\<lparr>dw_fresh := 11\<rparr>)"
    by (simp add: demo_ev_def demo_base_def with_input_def)
  have 3: "0 < atoi ''3''" by code_simp
  from client_unconnected [OF _ 1 2, of "- 1" _ 0] 3 show ?thesis by simp
qed

section \<open>The learner\<close>

text \<open>C16. A new learner that does not start late, whatever well-formed acknowledgements it receives
  and whenever it is asked to deliver: no call fails, it delivers the instances 1, 2, 3 and so on
  without gaps or repetitions, and each delivered acknowledgement was received and its ballot was
  acknowledged for the instance by a majority of the acceptors.\<close>

theorem learner_in_order:
  assumes "learner_catch_up cfg \<noteq> 0"
    and "0 < learner_instances cfg" "learner_instances cfg + 1 < 2 ^ 31"
    and "acks_wf n (learner_instances cfg) (received es)"
  shows "\<exists>l ds l'. learner_new cfg n = Ok l \<and> learner_run l es = Ok (ds, l') \<and>
     map (\<lambda>d. unat (aa_iid d)) ds = [1..<Suc (length ds)] \<and>
     (\<forall>d \<in> set ds. closed_by n (received es) d)"
proof -
  obtain l where l: "learner_new cfg n = Ok l" "l_current_iid l = 1"
    "learner_inv n (learner_instances cfg) (received es) l"
    using learner_new_ok [OF assms(2,3), of n "received es"] by blast
  then have "\<not> l_late_start l"
    using assms(1) by (auto simp: learner_new_def res_simps)
  from learner_run_ok [OF l(3) assms(4) subset_refl this] l(2) obtain ds l' where
    r: "learner_run l es = Ok (ds, l')" "\<forall>d \<in> set ds. closed_by n (received es) d"
    "map (\<lambda>d. unat (aa_iid d)) ds = [1..<unat (l_current_iid l')]" "1 \<le> unat (l_current_iid l')"
    by auto
  from r(3) have "length ds = unat (l_current_iid l') - 1"
    by (metis length_map length_upt)
  with r(4) have "unat (l_current_iid l') = Suc (length ds)" by simp
  with l(1) r show ?thesis by auto
qed

theorem learner_in_order_witness:
  "\<exists>l ds l'. learner_new small_config 3 = Ok l \<and>
     learner_run l [LReceive (aack 0 1 10 10 [7]), LDeliver, LReceive (aack 2 1 10 10 [7]), LDeliver] =
       Ok (ds, l') \<and>
     map (\<lambda>d. unat (aa_iid d)) ds = [1..<Suc (length ds)]"
  using learner_in_order [of small_config 3
      "[LReceive (aack 0 1 10 10 [7]), LDeliver, LReceive (aack 2 1 10 10 [7]), LDeliver]"]
  by (fastforce simp: small_config_def default_config_def acks_wf_def aack_def)

text \<open>C17. The memory of the learner: in such a run no call reads or writes through a pointer to a freed
  block or frees a block twice, although \<open>final_value\<close> is a second pointer to an acknowledgement of
  its instance; what is delivered is what the model without pointers delivers; every allocated block
  belongs to one place of the window; and \<open>learner_free\<close> frees all that is left.\<close>

theorem learner_memory_safe:
  assumes "learner_catch_up cfg \<noteq> 0"
    and "0 < learner_instances cfg" "learner_instances cfg + 1 < 2 ^ 31"
    and "acks_wf n (learner_instances cfg) (received es)"
  shows "\<exists>h0 l0 l ds l1 h ml h1. learner_new_m cfg n lheap_new = Ok (h0, l0) \<and> learner_new cfg n = Ok l \<and>
    learner_run l es = Ok (ds, l1) \<and> learner_run_m (h0, l0) es = Ok (ds, h, ml) \<and> learner_at h ml = l1 \<and>
    lmem_ok h ml \<and> learner_free ml h = Ok h1 \<and> lh_acks h1 = Map.empty \<and> lh_instances h1 = Map.empty"
proof -
  from learner_new_m_ok [OF assms(2), of n] obtain h0 l0 where
    new: "learner_new_m cfg n lheap_new = Ok (h0, l0)" "lmem_ok h0 l0" "learner_new cfg n = Ok (learner_at h0 l0)" by blast
  from learner_new_ok [OF assms(2,3), of n "received es"] new(3)
  have inv: "learner_inv n (learner_instances cfg) (received es) (learner_at h0 l0)" by auto
  have "\<not> l_late_start l" if "learner_new cfg n = Ok l" for l using that assms(1) by (auto simp: learner_new_def res_simps)
  from learner_run_ok [OF inv assms(4) subset_refl this [OF new(3)]] obtain ds l1 where
    run: "learner_run (learner_at h0 l0) es = Ok (ds, l1)" by blast
  from learner_run_m_ok [OF new(2) run] obtain h ml where
    "learner_run_m (h0, l0) es = Ok (ds, h, ml)" "lmem_ok h ml" "learner_at h ml = l1" by blast
  with learner_free_ok [of h ml] new run show ?thesis by blast
qed

text \<open>An acknowledgement is replaced by a newer one, instance 1 is closed, gets another acknowledgement
  and is delivered; instance 2 is pending when the learner is freed.\<close>

theorem learner_memory_safe_witness:
  "\<exists>h0 l0 ds h ml h1. learner_new_m small_config 3 lheap_new = Ok (h0, l0) \<and>
     learner_run_m (h0, l0) [LReceive (aack 0 1 10 10 [7]), LReceive (aack 0 1 20 20 [8]), LReceive (aack 2 1 20 20 [8]),
       LReceive (aack 0 1 30 30 [8]), LDeliver, LReceive (aack 1 2 20 20 [9])] = Ok (ds, h, ml) \<and>
     learner_free ml h = Ok h1 \<and> lh_acks h1 = Map.empty \<and> lh_instances h1 = Map.empty"
proof -
  let ?es = "[LReceive (aack 0 1 10 10 [7]), LReceive (aack 0 1 20 20 [8]), LReceive (aack 2 1 20 20 [8]),
       LReceive (aack 0 1 30 30 [8]), LDeliver, LReceive (aack 1 2 20 20 [9])]"
  have "acks_wf 3 (learner_instances small_config) (received ?es)" by (simp add: small_config_def acks_wf_def aack_def)
  from learner_memory_safe [OF _ _ _ this] show ?thesis
    by (simp add: small_config_def default_config_def) blast
qed

text \<open>Progress of the learner: when a new learner receives acknowledgements for instance 1, all
  with the same ballot, from every member of a majority, and nothing else, the next call of
  \<open>learner_deliver_next\<close> delivers the instance.\<close>

theorem learner_delivers_majority:
  assumes "learner_catch_up cfg \<noteq> 0"
    and "0 < learner_instances cfg" "learner_instances cfg + 1 < 2 ^ 31"
    and "acks_wf n (learner_instances cfg) (set acks)"
    and "\<forall>a \<in> set acks. aa_iid a = 1 \<and> aa_ballot a = b"
    and "nat ` aa_acceptor_id ` set acks \<in> majorities n"
  shows "\<exists>l l1 d l2. learner_new cfg n = Ok l \<and> learner_run l (map LReceive acks) = Ok ([], l1) \<and>
     learner_deliver_next l1 = Ok (Some d, l2) \<and> aa_iid d = 1 \<and> aa_ballot d = b"
proof -
  let ?w = "learner_instances cfg"
  obtain l where l: "learner_new cfg n = Ok l" "learner_inv n ?w (set acks) l" "l_current_iid l = 1"
    using learner_new_ok [OF assms(2,3), of n "set acks"] by blast
  then have late: "\<not> l_late_start l" using assms(1) by (auto simp: learner_new_def res_simps)
  have fresh: "filled l b {}" by (rule learner_new_filled [OF assms(2) l(1)])
  from learner_receive_all_filled [OF l(2) assms(4) subset_refl late _ fresh] assms(5) l(3)
  obtain l1 where l1: "learner_run l (map LReceive acks) = Ok ([], l1)"
    "learner_inv n ?w (set acks) l1" "l_current_iid l1 = 1"
    "filled l1 b (nat ` aa_acceptor_id ` set acks)"
    by auto
  from learner_deliver_filled [OF l1(2) assms(4) l1(4) assms(6)] obtain d l2
    where d: "learner_deliver_next l1 = Ok (Some d, l2)" by blast
  with learner_deliver_next_ok [OF l1(2) assms(4)] l1(3)
  have "aa_iid d = 1" "closed_by n (set acks) d" by auto
  moreover from this(2) assms(5) have "aa_ballot d = b" by (auto simp: closed_by_def)
  ultimately show ?thesis using l(1) l1(1) d by blast
qed

theorem learner_delivers_majority_witness:
  "\<exists>l l1 d l2. learner_new small_config 3 = Ok l \<and>
     learner_run l (map LReceive [aack 0 1 10 10 [7], aack 2 1 10 10 [7]]) = Ok ([], l1) \<and>
     learner_deliver_next l1 = Ok (Some d, l2) \<and> aa_iid d = 1 \<and> aa_ballot d = 10"
proof -
  have "nat ` aa_acceptor_id ` set [aack 0 1 10 10 [7], aack 2 1 10 10 [7]] = {0, 2}"
    by (auto simp: aack_def)
  then have maj: "nat ` aa_acceptor_id ` set [aack 0 1 10 10 [7], aack 2 1 10 10 [7]] \<in> majorities 3"
    by (simp add: majorities_def paxos_quorum_def)
  show ?thesis
    by (rule learner_delivers_majority [OF _ _ _ _ _ maj])
      (simp_all add: small_config_def default_config_def acks_wf_def aack_def)
qed

section \<open>The acceptor and its storage\<close>

text \<open>C18. Promises are kept: over any sequence of requests to an acceptor with the in-memory
  storage, the answers for one instance never report a lower ballot or a lower value ballot than
  an earlier answer for it.\<close>

theorem acceptor_answers_grow:
  assumes "acceptor_run mem_ops \<lparr>acc_store = storage_open junk aid\<rparr> qs = Ok (rs, c)"
    and "j < k" "k < length qs"
    and "request_iid (qs ! j) = i" "request_iid (qs ! k) = i" "i \<noteq> 0" "rs ! j = Some r"
  shows "\<exists>r'. rs ! k = Some r' \<and> aa_ballot r \<le> aa_ballot r' \<and> aa_value_ballot r \<le> aa_value_ballot r'"
  using mem.run_monotone [OF _ assms] mem_store_ok_open by simp

theorem acceptor_answers_grow_witness:
  "\<exists>rs c r'. acceptor_run mem_ops \<lparr>acc_store = small_store 0\<rparr>
       [RPrepare (prep 1 20), RAccept (areq 1 11 [7])] = Ok (rs, c) \<and>
     rs ! 1 = Some r' \<and> 20 \<le> aa_ballot r'"
proof -
  let ?r = "aack 0 1 20 0 []"
  have run: "acceptor_run mem_ops \<lparr>acc_store = small_store 0\<rparr>
      [RPrepare (prep 1 20), RAccept (areq 1 11 [7])] =
    Ok ([Some ?r, Some ?r], \<lparr>acc_store = (small_store 0)\<lparr>ms_records :=
      (ms_records (small_store 0))(mem_slot 1 := ?r)\<rparr>\<rparr>)"
    by (simp add: small_store_def storage_open_def prep_def areq_def aack_def
        acceptor_receive_prepare_def acceptor_receive_accept_def storage_tx_begin_def
        storage_get_record_def apply_prepare_def apply_accept_def storage_save_prepare_def
        storage_tx_commit_def Let_def)
  have "\<exists>r'. [Some ?r, Some ?r] ! 1 = Some r' \<and> aa_ballot ?r \<le> aa_ballot r' \<and>
      aa_value_ballot ?r \<le> aa_value_ballot r'"
    by (rule acceptor_answers_grow [OF run [unfolded small_store_def], of 0 1 1])
      (simp_all add: prep_def areq_def)
  then show ?thesis unfolding run by (auto simp: aack_def)
qed

text \<open>C19. A prepare request, on every branch: the acceptor answers with its record unchanged when
  the ballot is not higher than its own or the record is final, otherwise with the ballot raised
  and the accepted value kept, and with a fresh promise when it has no record; the answer is what
  it stores, other instances keep their records or are overwritten, and it never fails for an
  instance that was not overwritten by a newer one.\<close>

theorem acceptor_prepare_total:
  assumes "mem_live (acc_store a) (pr_iid pr)"
  shows "\<exists>rec b. acceptor_receive_prepare mem_ops a pr = Ok (rec, b) \<and>
     prepare_answer (ms_acceptor_id (acc_store a)) pr (mem_lookup (acc_store a) (pr_iid pr)) rec \<and>
     store_write mem_lookup mem_live (pr_iid pr) rec (acc_store a) (acc_store b)"
proof -
  have "storage_get_record (acc_store a) (pr_iid pr) =
      Ok (mem_lookup (acc_store a) (pr_iid pr), acc_store a)"
    using assms by (simp add: storage_get_record_Ok)
  then have "is_ok (acceptor_receive_prepare mem_ops a pr)"
    by (cases "mem_lookup (acc_store a) (pr_iid pr)")
      (simp_all add: acceptor_receive_prepare_def storage_tx_begin_def storage_tx_commit_def
        apply_prepare_def storage_save_prepare_def Let_def)
  then obtain rec b where "acceptor_receive_prepare mem_ops a pr = Ok (rec, b)"
    by (auto simp: is_ok_iff)
  with mem.receive_prepare_spec [OF TrueI this] show ?thesis by blast
qed

theorem acceptor_prepare_total_witness:
  "\<exists>rec b. acceptor_receive_prepare mem_ops \<lparr>acc_store = small_store 1\<rparr> (prep 5 12) = Ok (rec, b) \<and>
     is_promise_record 1 (prep 5 12) rec"
  using acceptor_prepare_total [of "\<lparr>acc_store = small_store 1\<rparr>" "prep 5 12"]
  by (auto simp: mem_live_def small_store_def storage_open_def prepare_answer_def mem_lookup_def
      prep_def)

text \<open>C20. An accept request, on every branch: the acceptor answers with its record unchanged when
  it has promised a higher ballot, otherwise it stores and answers the accepted value. It does not
  fail when the value fits a buffer of the storage and the instance was not overwritten.\<close>

theorem acceptor_accept_total:
  assumes "mem_live (acc_store a) (ar_iid ar)" "unat (ar_value_size ar) \<le> length (ar_value ar)"
    and "unat (ar_value_size ar) \<le> mem_value_room"
  shows "\<exists>rec b. acceptor_receive_accept mem_ops a ar = Ok (rec, b) \<and>
     accept_answer (ms_acceptor_id (acc_store a)) ar (mem_lookup (acc_store a) (ar_iid ar)) rec \<and>
     store_write mem_lookup mem_live (ar_iid ar) rec (acc_store a) (acc_store b)"
proof -
  have "storage_get_record (acc_store a) (ar_iid ar) =
      Ok (mem_lookup (acc_store a) (ar_iid ar), acc_store a)"
    using assms(1) by (simp add: storage_get_record_Ok)
  then have "is_ok (acceptor_receive_accept mem_ops a ar)"
    using assms(2,3)
    by (cases "mem_lookup (acc_store a) (ar_iid ar)")
      (simp_all add: acceptor_receive_accept_def storage_tx_begin_def storage_tx_commit_def
        apply_accept_def storage_save_accept_def memcpy_def Let_def)
  then obtain rec b where "acceptor_receive_accept mem_ops a ar = Ok (rec, b)"
    by (auto simp: is_ok_iff)
  with mem.receive_accept_spec [OF TrueI this] show ?thesis by blast
qed

theorem acceptor_accept_total_witness:
  "\<exists>rec b. acceptor_receive_accept mem_ops \<lparr>acc_store = small_store 1\<rparr> (areq 5 12 [7]) = Ok (rec, b) \<and>
     is_accept_record 1 (areq 5 12 [7]) rec"
  using acceptor_accept_total [of "\<lparr>acc_store = small_store 1\<rparr>" "areq 5 12 [7]"]
  by (auto simp: mem_live_def small_store_def storage_open_def accept_answer_def mem_lookup_def
      areq_def mem_value_room_def MAX_SIZE_RECORD_def sizeof_defs)

text \<open>C21. A value that does not fit the 8 KiB buffer is copied anyway: with an accept request whose
  value is larger than what is left of the buffer behind the record's header, the in-memory
  storage writes past its buffer.\<close>

theorem mem_storage_overflow:
  assumes "mem_value_room < unat (ar_value_size ar)" "unat (ar_value_size ar) \<le> length (ar_value ar)"
    and "mem_live (acc_store a) (ar_iid ar)" "mem_lookup (acc_store a) (ar_iid ar) = None"
  shows "acceptor_receive_accept mem_ops a ar = Err BufferOverflow"
proof -
  have "storage_get_record (acc_store a) (ar_iid ar) = Ok (None, acc_store a)"
    using assms(3,4) by (simp add: storage_get_record_Ok)
  with assms(1,2) show ?thesis
    by (simp add: acceptor_receive_accept_def storage_tx_begin_def apply_accept_def
        storage_save_accept_def memcpy_def Let_def)
qed

theorem mem_storage_overflow_witness:
  "acceptor_receive_accept mem_ops \<lparr>acc_store = small_store 1\<rparr>
     \<lparr>ar_iid = 1, ar_ballot = 10, ar_value_size = 9000, ar_value = replicate 9000 0\<rparr> =
     Err BufferOverflow"
  by (rule mem_storage_overflow)
    (simp_all add: mem_value_room_def MAX_SIZE_RECORD_def sizeof_defs mem_live_def mem_lookup_def
      small_store_def storage_open_def aack_def)

text \<open>C22. A request for an instance whose buffer holds a newer instance ends the acceptor: after an
  accept request for instance \<open>i\<close>, any request for an older instance in the same slot of the ring
  exits with status 1.\<close>

theorem overwritten_instance_exits:
  assumes "acceptor_receive_accept mem_ops a ar = Ok (rec, b)" "ar_iid ar = i"
    and "mem_slot (request_iid q) = mem_slot i" "request_iid q < i"
  shows "acceptor_handle mem_ops b q = Err (ExitCode 1)"
proof -
  have "mem_lookup (acc_store b) i = Some rec"
    using mem.receive_accept_spec [OF TrueI assms(1)] assms(2) by (simp add: store_write_def)
  then have "aa_iid (ms_records (acc_store b) (mem_slot i)) = i"
    by (simp add: mem_lookup_def split: if_splits)
  with assms(3,4) have "storage_get_record (acc_store b) (request_iid q) = Err (ExitCode 1)"
    by (simp add: storage_get_record_def)
  then show ?thesis
    by (cases q) (simp_all add: acceptor_receive_prepare_def acceptor_receive_accept_def
        acceptor_receive_repeat_def storage_tx_begin_def)
qed

theorem overwritten_instance_exits_witness:
  "\<exists>rec b. acceptor_receive_accept mem_ops \<lparr>acc_store = small_store 1\<rparr> (areq 4097 12 [7]) = Ok (rec, b) \<and>
     acceptor_handle mem_ops b (RRepeat 1) = Err (ExitCode 1)"
proof -
  obtain rec b where r: "acceptor_receive_accept mem_ops \<lparr>acc_store = small_store 1\<rparr>
      (areq 4097 12 [7]) = Ok (rec, b)"
    by (simp add: small_store_def storage_open_def areq_def aack_def mem_slot_def MAX_RECORDS_def
        acceptor_receive_accept_def storage_tx_begin_def storage_get_record_def apply_accept_def
        storage_save_accept_def memcpy_def mem_value_room_def MAX_SIZE_RECORD_def sizeof_defs
        storage_tx_commit_def Let_def)
  have "acceptor_handle mem_ops b (RRepeat 1) = Err (ExitCode 1)"
    by (rule overwritten_instance_exits [OF r, of 4097])
      (simp_all add: areq_def mem_slot_def MAX_RECORDS_def)
  with r show ?thesis by blast
qed

section \<open>Quorums\<close>

text \<open>C23. An instance of the proposer never counts a majority that is not there: if the counter is
  cleared and acknowledgements from a list of acceptors are added, the quorum is reached only if
  the list has a majority of different acceptors; and two majorities share an acceptor.\<close>

theorem quorum_reached_is_majority:
  assumes "quorum_inv n q" "quorum_clear q = Ok q0"
    and "set is \<subseteq> {0..<int n}" "quorum_adds q0 is = Ok r" "quorum_reached r"
  shows "\<exists>S \<in> majorities n. S \<subseteq> nat ` set is \<and> (\<forall>T \<in> majorities n. S \<inter> T \<noteq> {})"
proof -
  have q0: "quorum_inv n q0" using quorum_clear_inv [OF assms(1)] assms(2) by auto
  then have "quorum_inv n r" using quorum_adds_count [OF q0 assms(3)] assms(4) by auto
  from qc.reached_needs_quorum [OF assms(1,2) _ this assms(5)] assms(4)
  obtain S where S: "S \<in> majorities n" "S \<subseteq> nat ` set is" by auto
  have "\<forall>T \<in> majorities n. S \<inter> T \<noteq> {}" by (rule ballI) (rule majorities_intersect [OF S(1)])
  with S show ?thesis by (intro bexI [of _ S]) simp_all
qed

theorem quorum_reached_is_majority_witness:
  "\<exists>S \<in> majorities 3. S \<subseteq> nat ` set [0, 1, 0 :: int]"
proof -
  let ?q = "\<lparr>q_count = 0, q_quorum = 2, q_acceptors = 3, q_acceptor_ids = [0, 0, 0]\<rparr>"
  let ?r = "\<lparr>q_count = 2, q_quorum = 2, q_acceptors = 3, q_acceptor_ids = [1, 1, 0]\<rparr>"
  have inv: "quorum_inv 3 ?q" by code_simp
  have clear: "quorum_clear ?q = Ok ?q" by code_simp
  have adds: "quorum_adds ?q [0, 1, 0] = Ok ?r" by code_simp
  have "quorum_reached ?r" by code_simp
  with quorum_reached_is_majority [OF inv clear _ adds] show ?thesis by auto
qed

text \<open>The count is exact: acknowledgements from known acceptors raise it by the number of
  different acceptors among them whose flag was zero.\<close>

theorem quorum_count_exact:
  assumes "quorum_inv n q" "set is \<subseteq> {0..<int n}"
  shows "\<exists>r. quorum_adds q is = Ok r \<and> quorum_inv n r \<and>
     q_count r = q_count q + card {i \<in> set is. q_acceptor_ids q ! nat i = 0}"
  by (rule quorum_adds_count [OF assms])

theorem quorum_count_exact_witness:
  "\<exists>r. quorum_adds \<lparr>q_count = 0, q_quorum = 2, q_acceptors = 3, q_acceptor_ids = [0, 1, 0]\<rparr> [0, 1, 0] = Ok r \<and>
     q_count r = 1"
proof -
  let ?q = "\<lparr>q_count = 0, q_quorum = 2, q_acceptors = 3, q_acceptor_ids = [0, 1, 0]\<rparr>"
  have c: "{i \<in> set [0, 1, 0]. q_acceptor_ids ?q ! nat i = 0} = {0}" by auto
  have "quorum_inv 3 ?q" by code_simp
  from quorum_count_exact [OF this, of "[0, 1, 0]", unfolded c] show ?thesis by auto
qed

text \<open>C24. \<open>quorum_clear\<close> leaves the flags behind the quorum size, for any number of acceptors: an
  acknowledgement of an acceptor whose number is not below the quorum size, if it was counted before a
  clear, is not counted again after it, although the count restarts at zero; one of an acceptor below
  the quorum size is counted after every clear.\<close>

theorem quorum_clear_keeps_flag:
  assumes "quorum_inv n q" "0 \<le> a" "a < int n"
  shows "\<exists>b q1 q2. quorum_add q a = Ok (b, q1) \<and> quorum_clear q1 = Ok q2 \<and> q_count q2 = 0 \<and>
    (if int (paxos_quorum n) \<le> a then quorum_add q2 a = Ok (False, q2)
     else \<exists>q3. quorum_add q2 a = Ok (True, q3) \<and> q_count q3 = 1)"
  by (rule quorum_add_clear_add [OF assms])

theorem quorum_clear_keeps_flag_witness:
  "\<exists>q q1 q2. quorum_init zeros 5 = Ok q \<and> quorum_add q 4 = Ok (True, q1) \<and>
     quorum_clear q1 = Ok q2 \<and> q_count q2 = 0 \<and> quorum_add q2 4 = Ok (False, q2)"
proof -
  from quorum_init_inv [of 5 zeros] obtain q where q: "quorum_init zeros 5 = Ok q" "quorum_inv 5 q" by auto
  have five: "paxos_quorum 5 = 3" by code_simp
  have "rbind (quorum_init zeros 5) (\<lambda>q. rbind (quorum_add q 4) (\<lambda>(b, _). Ok b)) = Ok True" by code_simp
  with q quorum_clear_keeps_flag [OF q(2), of 4] five show ?thesis by (auto simp: res_simps)
qed

section \<open>The proposer\<close>

text \<open>C25. The memory of the proposer: whatever calls are made, with well-formed arguments (the answers to
  rejected requests included), none of them reads or writes through a pointer to a freed block or frees a block twice; the answers and the
  queues are those of the model without pointers; every allocated block is reached from the proposer
  in exactly one way, so that nothing is leaked; and \<open>proposer_free\<close> frees all that is left.\<close>

theorem proposer_memory_safe:
  assumes "0 < n" "calls_ok n cs (lists_of (proposer_new i n))"
  shows "\<exists>rs h p q h1. m_calls cs (heap_new, proposer_new_m i n) = Ok (rs, h, p) \<and>
    p_calls cs (proposer_new i n) = Ok (rs, q) \<and> lists_at h p = lists_of q \<and> mem_ok h p \<and>
    proposer_free p h = Ok h1 \<and> hp_values h1 = Map.empty \<and> hp_instances h1 = Map.empty"
proof -
  from calls_agree [OF new_mem_ok(1) proposer_new_inv [OF assms(1)] new_mem_ok(2) assms(2)] obtain rs h p q where
    "m_calls cs (heap_new, proposer_new_m i n) = Ok (rs, h, p)" "p_calls cs (proposer_new i n) = Ok (rs, q)"
    "mem_ok h p" "lists_at h p = lists_of q" by (elim exE conjE)
  with proposer_free_ok [of h p] show ?thesis by blast
qed

text \<open>A value is adopted, replaced by a newer one and proposed again; an instance is finished, a second
  one is sent back to phase 1 by a rejection and is pending when the proposer is freed.\<close>

theorem proposer_memory_safe_witness:
  "\<exists>rs h p h1. m_calls
      [CPropose [7] 1, CPrepare zeros clock0, CPrepareAck clock0 (promise 0 1 11 2 [5]),
       CPrepareAck clock0 (promise 1 1 11 3 [6, 6]), CAccept, CAcceptAck clock0 (aack 0 1 11 11 [6, 6]),
       CAcceptAck clock0 (aack 1 1 11 11 [6, 6]), CPrepare zeros clock0, CPrepareAck clock0 (promise 0 2 11 4 [8]),
       CPrepareAck clock0 (promise 1 2 11 0 []), CAccept, CAcceptAck clock0 (aack 2 2 15 0 [])]
      (heap_new, proposer_new_m 1 3) = Ok (rs, h, p) \<and>
    proposer_free p h = Ok h1 \<and> hp_values h1 = Map.empty \<and> hp_instances h1 = Map.empty"
proof -
  let ?cs = "[CPropose [7] 1, CPrepare zeros clock0, CPrepareAck clock0 (promise 0 1 11 2 [5]),
       CPrepareAck clock0 (promise 1 1 11 3 [6, 6]), CAccept, CAcceptAck clock0 (aack 0 1 11 11 [6, 6]),
       CAcceptAck clock0 (aack 1 1 11 11 [6, 6]), CPrepare zeros clock0, CPrepareAck clock0 (promise 0 2 11 4 [8]),
       CPrepareAck clock0 (promise 1 2 11 0 []), CAccept, CAcceptAck clock0 (aack 2 2 15 0 [])]"
  have "calls_ok 3 ?cs (lists_of (proposer_new 1 3))" by code_simp
  from proposer_memory_safe [OF _ this] show ?thesis by auto
qed

text \<open>C26. A promise, on every branch (unknown instance, old ballot, acknowledged before, new with or
  without an accepted value, preempted by a higher ballot): on a well-formed proposer the call
  succeeds, answers and changes the queues as the list-level specification says, and keeps the
  invariant, in particular that no instance id is in the queues twice.\<close>

theorem proposer_promise_refines:
  assumes "proposer_inv n p" "0 \<le> pa_acceptor_id ack" "pa_acceptor_id ack < int n"
    and "unat (pa_value_size ack) \<le> length (pa_value ack)"
  shows "\<exists>p1. proposer_receive_prepare_ack now p ack =
       Ok (fst (lp_receive_prepare_ack now (lists_of p) ack), p1) \<and>
     proposer_inv n p1 \<and> lists_of p1 = snd (lp_receive_prepare_ack now (lists_of p) ack)"
  by (rule proposer_receive_prepare_ack_ok [OF assms])

theorem proposer_promise_refines_witness:
  "\<exists>p1. proposer_receive_prepare_ack clock0 prepared_proposer (promise 0 1 11 0 []) =
       Ok (Some (prep 1 20), p1) \<and> proposer_inv 3 p1"
proof -
  have "fst (lp_receive_prepare_ack clock0 (lists_of prepared_proposer) (promise 0 1 11 0 [])) =
      Some (prep 1 20)"
    by code_simp
  with proposer_promise_refines [OF prepared_proposer_inv, of "promise 0 1 11 0 []" clock0]
  show ?thesis by (auto simp: promise_def)
qed

text \<open>C27. Starting phase 2: the first instance with a majority of promises leaves the queue of
  prepared instances with the value its promises reported, or else the oldest submitted value,
  and joins the instances waiting for acceptance; nothing happens without a majority or a value.
  The call always returns.\<close>

theorem proposer_accept_refines_spec:
  assumes "proposer_inv n p"
  shows "\<exists>p1. proposer_accept p = Ok (fst (lp_accept (lists_of p)), p1) \<and>
     proposer_inv n p1 \<and> lists_of p1 = snd (lp_accept (lists_of p))"
  by (rule proposer_accept_ok [OF assms])

theorem proposer_accept_refines_spec_witness:
  "\<exists>p1. proposer_accept ready_proposer = Ok (Some (areq 1 10 [7]), p1) \<and> proposer_inv 3 p1"
proof -
  have "fst (lp_accept (lists_of ready_proposer)) = Some (areq 1 10 [7])" by code_simp
  with proposer_accept_refines_spec [OF ready_proposer_inv] show ?thesis by auto
qed

text \<open>C28. An acknowledged accept request, for every record an acceptor of the configuration can send, and
  on every branch: dropped when its instance is not pending, counted, closing the instance when a
  majority accepted, or sending the instance back to phase 1 with a higher ballot when the ballot
  differs (a rejection, whatever its value ballot). The call fails, with the assertion in line 254 of \<open>proposer.c\<close>,
  exactly when the record has the ballot of the pending instance and another value ballot.\<close>

theorem proposer_accepted_refines:
  assumes "proposer_inv n p" "0 \<le> aa_acceptor_id ack" "aa_acceptor_id ack < int n"
  shows "if ack_consistent (lp_accs (lists_of p)) ack
    then \<exists>p1. proposer_receive_accept_ack now p ack =
         Ok (fst (lp_receive_accept_ack now (lists_of p) ack), p1) \<and>
       proposer_inv n p1 \<and> lists_of p1 = snd (lp_receive_accept_ack now (lists_of p) ack)
    else proposer_receive_accept_ack now p ack = Err AssertFailed"
proof (cases "ack_consistent (lp_accs (lists_of p)) ack")
  case True
  from proposer_receive_accept_ack_ok [OF assms True, of now] show ?thesis by (simp only: True if_True)
next
  case False
  with proposer_receive_accept_ack_cases [OF assms, of now] show ?thesis by (simp only: False if_False)
qed

text \<open>The rejection by a higher promise with nothing accepted, the acknowledgement of a lower ballot (a
  preemption as well), and a record with the ballot of the instance and no value.\<close>

theorem proposer_accepted_refines_witness:
  "(\<exists>p1. proposer_receive_accept_ack clock0 accepting_proposer (aack 0 1 12 0 []) =
       Ok (Some (prep 1 20), p1) \<and> proposer_inv 3 p1) \<and>
   (\<exists>p1. proposer_receive_accept_ack clock0 accepting_proposer (aack 0 1 9 9 [7]) =
       Ok (Some (prep 1 20), p1) \<and> proposer_inv 3 p1) \<and>
   proposer_receive_accept_ack clock0 accepting_proposer (aack 0 1 10 0 []) = Err AssertFailed"
proof (intro conjI)
  note refines = proposer_accepted_refines [OF accepting_proposer_inv, where now = clock0]
  have "fst (lp_receive_accept_ack clock0 (lists_of accepting_proposer) (aack 0 1 12 0 [])) = Some (prep 1 20)"
    "ack_consistent (lp_accs (lists_of accepting_proposer)) (aack 0 1 12 0 [])" by code_simp+
  with refines [of "aack 0 1 12 0 []"]
  show "\<exists>p1. proposer_receive_accept_ack clock0 accepting_proposer (aack 0 1 12 0 []) =
      Ok (Some (prep 1 20), p1) \<and> proposer_inv 3 p1" by (auto simp: aack_def)
  have "fst (lp_receive_accept_ack clock0 (lists_of accepting_proposer) (aack 0 1 9 9 [7])) = Some (prep 1 20)"
    "ack_consistent (lp_accs (lists_of accepting_proposer)) (aack 0 1 9 9 [7])" by code_simp+
  with refines [of "aack 0 1 9 9 [7]"]
  show "\<exists>p1. proposer_receive_accept_ack clock0 accepting_proposer (aack 0 1 9 9 [7]) =
      Ok (Some (prep 1 20), p1) \<and> proposer_inv 3 p1" by (auto simp: aack_def)
  have "\<not> ack_consistent (lp_accs (lists_of accepting_proposer)) (aack 0 1 10 0 [])" by code_simp
  with refines [of "aack 0 1 10 0 []"]
  show "proposer_receive_accept_ack clock0 accepting_proposer (aack 0 1 10 0 []) = Err AssertFailed"
    by (auto simp: aack_def)
qed

text \<open>A new instance: the next instance id with the first ballot of the proposer, at the end of
  the queue, with an empty count; the id is not in any queue.\<close>

theorem proposer_prepare_refines_spec:
  assumes "proposer_inv n p" "unat (p_next_prepare_iid p) + 1 < 2 ^ 32"
  shows "\<exists>p1. proposer_prepare junk now p = Ok (fst (lp_prepare junk now (lists_of p)), p1) \<and>
     proposer_inv n p1 \<and> lists_of p1 = snd (lp_prepare junk now (lists_of p))"
  by (rule proposer_prepare_ok [OF assms])

theorem proposer_prepare_refines_spec_witness:
  "\<exists>p1. proposer_prepare zeros clock0 (proposer_new 3 5) = Ok (prep 1 13, p1) \<and> proposer_inv 5 p1"
proof -
  have "fst (lp_prepare zeros clock0 (lists_of (proposer_new 3 5))) = prep 1 13" by code_simp
  with proposer_prepare_refines_spec [OF proposer_new_inv, of 5 3 zeros clock0] show ?thesis
    by (auto simp: proposer_new_def)
qed

text \<open>Submitted values queue up in the order of submission.\<close>

theorem proposer_propose_refines_spec:
  assumes "proposer_inv n p" "unat k \<le> length v"
  shows "\<exists>p1. proposer_propose p v k = Ok p1 \<and> proposer_inv n p1 \<and>
     lists_of p1 = lp_propose (lists_of p) v k"
  by (rule proposer_propose_ok [OF assms])

theorem proposer_propose_refines_spec_witness:
  "\<exists>p1. proposer_propose (proposer_new 0 3) [7, 8] 1 = Ok p1 \<and>
     map msg_data (lp_values (lists_of p1)) = [[7]]"
proof -
  have v: "map msg_data (lp_values (lp_propose (lists_of (proposer_new 0 3)) [7, 8] 1)) = [[7]]"
    by code_simp
  obtain p1 where "proposer_propose (proposer_new 0 3) [7, 8] 1 = Ok p1"
    "lists_of p1 = lp_propose (lists_of (proposer_new 0 3)) [7, 8] 1"
    using proposer_propose_refines_spec [OF proposer_new_inv, of 3 1 "[7, 8]" 0] by auto
  with v show ?thesis by (intro exI [of _ p1] conjI) (simp_all only:)
qed

text \<open>Timeouts: the iterator answers with the request of the next prepared instance that has no
  majority and is older than the timeout, restarts its clock, and changes nothing else.\<close>

theorem timeout_prepare_refines_spec:
  assumes "proposer_inv n p" "clocks_ok (ti_timeout it) (lp_preps (lists_of p))"
    and "ti_pi it \<le> length (lp_preps (lists_of p))"
    and "lp_timeout_prepare cfg (ti_timeout it) (ti_pi it) (lists_of p) = (r, j, l)"
  shows "\<exists>p1. timeout_iterator_prepare cfg it p = Ok (r, it\<lparr>ti_pi := j\<rparr>, p1) \<and>
     proposer_inv n p1 \<and> lists_of p1 = l"
  using timeout_iterator_prepare_refines [OF assms]
    lp_timeout_inv(1) [OF proposer_invD(4) [OF assms(1)], of cfg "ti_timeout it" "ti_pi it"] assms(4)
  by (auto simp: proposer_inv_iff)

theorem timeout_prepare_refines_spec_witness:
  "\<exists>j p1. timeout_iterator_prepare default_config
       (proposer_timeout_iterator \<lparr>tv_sec = 3, tv_usec = 0\<rparr>) prepared_proposer =
     Ok (Some (prep 1 10), (proposer_timeout_iterator \<lparr>tv_sec = 3, tv_usec = 0\<rparr>)\<lparr>ti_pi := j\<rparr>, p1) \<and>
     proposer_inv 3 p1"
proof -
  let ?it = "proposer_timeout_iterator \<lparr>tv_sec = 3, tv_usec = 0\<rparr>"
  have c: "clocks_ok (ti_timeout ?it) (lp_preps (lists_of prepared_proposer))" by code_simp
  have i: "ti_pi ?it \<le> length (lp_preps (lists_of prepared_proposer))" by code_simp
  obtain r j l where s: "lp_timeout_prepare default_config (ti_timeout ?it) (ti_pi ?it)
      (lists_of prepared_proposer) = (r, j, l)"
    by (metis prod_cases3)
  have "fst (lp_timeout_prepare default_config (ti_timeout ?it) (ti_pi ?it)
      (lists_of prepared_proposer)) = Some (prep 1 10)"
    by code_simp
  with timeout_prepare_refines_spec [OF prepared_proposer_inv c i s] s show ?thesis by auto
qed

text \<open>C29. Ballots: a proposer with an id below 10 starts with a ballot that ends in its id, and
  every preemption raises the ballot and keeps the last digit, until 32 bits overflow; so two
  proposers never use the same ballot.\<close>

theorem proposer_ballots:
  assumes "p_id p = int pid" "pid < 10" "ballot_ok k pid b" "k < step_limit"
  shows "ballot_ok k pid (proposer_next_ballot p 0) \<and> b < proposer_next_ballot p b \<and>
     ballot_ok (Suc k) pid (proposer_next_ballot p b)"
  using ballot_ok_first [OF assms(2)] ballot_next [OF assms(3,4), of "int pid"] assms(1)
  by (simp add: next_ballot_q)

theorem proposer_ballots_witness:
  "ballot_ok 0 3 (proposer_next_ballot (proposer_new 3 5) 0) \<and>
   13 < proposer_next_ballot (proposer_new 3 5) 13"
  using proposer_ballots [of "proposer_new 3 5" 3 0 13]
  by (simp add: proposer_new_def ballot_ok_def step_limit_def)

section \<open>The ring buffer\<close>

text \<open>C30. First in, first out, with any number of elements: values pushed at the back of a new
  buffer, which grows as needed, come out at the front in order; no call reads or writes outside
  the array, or a slot that was not written.\<close>

theorem carray_fifo:
  assumes "0 < n"
  shows "\<exists>c d. carray_push_all (carray_new n) xs = Ok c \<and> carray_inv c \<and> clist c = xs \<and>
     carray_pop_n (length xs) c = Ok (map Some xs, d) \<and> carray_inv d \<and> clist d = []"
proof -
  obtain c where c: "carray_push_all (carray_new n) xs = Ok c" "carray_inv c" "clist c = xs"
    using carray_push_all_ok [OF carray_new_inv [OF assms], of xs] by auto
  with carray_pop_n_ok [OF c(2), of "length xs"] show ?thesis by auto
qed

theorem carray_fifo_witness:
  "\<exists>c d. carray_push_all (carray_new 2) [1, 2, 3, 4, 5 :: nat] = Ok c \<and>
     carray_pop_n 5 c = Ok (map Some [1, 2, 3, 4, 5], d)"
proof -
  have "length [1, 2, 3, 4, 5 :: nat] = 5" by simp
  with carray_fifo [of 2 "[1, 2, 3, 4, 5 :: nat]"] show ?thesis by (metis zero_less_numeral)
qed

text \<open>Pushing at the front: the element comes before all others, also when the buffer is full and
  has to grow or the head wraps around to the end of the array.\<close>

theorem carray_front_push:
  assumes "carray_inv a"
  shows "\<exists>b. carray_push_front a p = Ok b \<and> carray_inv b \<and> clist b = p # clist a \<and>
     carray_front b = Ok (Some p)"
  using carray_push_front_ok [OF assms, of p] carray_front_ok by fastforce

theorem carray_front_push_witness:
  "\<exists>b. carray_push_front (carray_new 3) (7::nat) = Ok b \<and> clist b = [7]"
  using carray_front_push [of "carray_new 3" 7] by auto

text \<open>Filtering: \<open>carray_reject\<close> builds a buffer with the elements the predicate does not match,
  in order.\<close>

theorem carray_reject_filters:
  assumes "carray_inv a"
  shows "\<exists>b. carray_reject a f arg = Ok b \<and> carray_inv b \<and>
     clist b = filter (\<lambda>p. f arg p = 0) (clist a)"
  using carray_map_ok [OF assms, of f arg 0] by (auto simp: carray_reject_def)

theorem carray_reject_filters_witness:
  "\<exists>b. carray_reject (carray_new 3 :: nat carray) (\<lambda>x y. if x = y then 1 else 0) 5 = Ok b \<and> clist b = []"
  using carray_reject_filters [of "carray_new 3 :: nat carray" "\<lambda>x y. if x = y then 1 else 0" 5] by auto

section \<open>Messages on the wire\<close>

text \<open>A prepare acknowledgement survives the trip: the bytes written for a record have the
  header with the right code and payload size, and the receiver, which casts its buffer with
  arbitrary bytes \<open>post\<close> behind the message, reads the fields and the accepted value back.\<close>

theorem prepare_ack_roundtrip:
  assumes "unat (aa_value_size rec) \<le> length (aa_value rec)"
    and "- (2 ^ 31) \<le> aa_acceptor_id rec" "aa_acceptor_id rec < 2 ^ 31"
  shows "\<exists>body. sendbuf_add_prepare_ack rec =
      Ok (add_paxos_header prepare_acks (of_nat (length body)) @ body) \<and>
    cast_prepare_ack (body @ post) =
      \<lparr>pa_acceptor_id = aa_acceptor_id rec, pa_iid = aa_iid rec, pa_ballot = aa_ballot rec,
       pa_value_ballot = aa_value_ballot rec, pa_value_size = aa_value_size rec,
       pa_value = aa_payload rec @ post\<rparr>"
  using prepare_ack_trip [OF assms, of post] by (simp add: prepare_ack_of_def)

theorem prepare_ack_roundtrip_witness:
  "\<exists>body. sendbuf_add_prepare_ack (aack 1 5 12 11 [7]) =
      Ok (add_paxos_header prepare_acks (of_nat (length body)) @ body) \<and>
    pa_payload (cast_prepare_ack (body @ [9])) = [7]"
  using prepare_ack_roundtrip [of "aack 1 5 12 11 [7]" "[9]"]
  by (fastforce simp: aack_def pa_payload_def aa_payload_def)

text \<open>An accept request survives the trip.\<close>

theorem accept_req_roundtrip:
  assumes "unat (ar_value_size ar) \<le> length (ar_value ar)"
  shows "\<exists>body. sendbuf_add_accept_req ar =
      Ok (add_paxos_header accept_reqs (of_nat (length body)) @ body) \<and>
    cast_accept_req (body @ post) = ar\<lparr>ar_value := ar_payload ar @ post\<rparr>"
  by (rule accept_req_trip [OF assms])

theorem accept_req_roundtrip_witness:
  "\<exists>body. sendbuf_add_accept_req (areq 5 12 [7]) =
      Ok (add_paxos_header accept_reqs (of_nat (length body)) @ body) \<and>
    ar_payload (cast_accept_req (body @ [9])) = [7]"
  using accept_req_roundtrip [of "areq 5 12 [7]" "[9]"]
  by (fastforce simp: areq_def ar_payload_def)

text \<open>An accept acknowledgement survives the trip, whatever its padding bytes hold.\<close>

theorem accept_ack_roundtrip:
  assumes "unat (aa_value_size aa) \<le> length (aa_value aa)" "length pad = 6"
    and "- (2 ^ 31) \<le> aa_acceptor_id aa" "aa_acceptor_id aa < 2 ^ 31"
    and "- (2 ^ 15) \<le> aa_is_final aa" "aa_is_final aa < 2 ^ 15"
  shows "\<exists>body. sendbuf_add_accept_ack pad aa =
      Ok (add_paxos_header accept_acks (of_nat (length body)) @ body) \<and>
    cast_accept_ack (body @ post) = aa\<lparr>aa_value := aa_payload aa @ post\<rparr>"
  by (rule accept_ack_trip [OF assms])

theorem accept_ack_roundtrip_witness:
  "\<exists>body. sendbuf_add_accept_ack [1, 2, 3, 4, 5, 6] (aack 1 5 12 11 [7]) =
      Ok (add_paxos_header accept_acks (of_nat (length body)) @ body) \<and>
    aa_payload (cast_accept_ack (body @ [9])) = [7]"
  using accept_ack_roundtrip [of "aack 1 5 12 11 [7]" "[1, 2, 3, 4, 5, 6]" "[9]"]
  by (fastforce simp: aack_def aa_payload_def)

section \<open>The Berkeley DB storage\<close>

text \<open>C31. Agreement with the storage on Berkeley DB: the database behaves as documented, no read of a
  stored record fails (C36 shows what a failed read does), every acceptor opens its storage on a
  directory that does not exist yet, no process is started again (C32 is about restarts), and a run of
  at most \<open>step_limit\<close> calls submits no empty value and answers repeat requests only from records whose
  value ballot equals their ballot, accepted and not promised higher since. Then no two deliveries of an
  instance differ.\<close>

theorem bdb_agreement:
  assumes db: "bdb_files api contents good disk nosync" and reads: "bdb_reads api contents good"
    and open_ok: "\<forall>a < n. bdb_storage_open api cfg (libs a) (int a) = Ok (Some (stores a)) \<and> disk (libs a) = None"
    and "0 < n" "n < 2 ^ 31" "learner_new cfg n = Ok l"
    and "0 < learner_instances cfg" "learner_instances cfg \<le> 2 ^ 30" "length es \<le> step_limit"
    and "run_ok (bdb_ops api) es (sys_init n stores l)"
  shows "deliveries_agree (sys_delivered (sys_run (bdb_ops api) es (sys_init n stores l)))"
proof (rule deliveries_agreeI)
  have st: "bdb_inv contents good (stores a) \<and> bs_acceptor_id (stores a) = int a \<and>
      (\<forall>i. bdb_lookup contents (stores a) i = None)" if "a < n" for a
    using bdb_files.open_inv [OF db, of cfg "libs a" "int a" "stores a"] open_ok that assms(5) by simp
  fix j1 d1 j2 d2
  assume d: "(j1, d1) \<in> set (sys_delivered (sys_run (bdb_ops api) es (sys_init n stores l)))"
    "(j2, d2) \<in> set (sys_delivered (sys_run (bdb_ops api) es (sys_init n stores l)))"
    "aa_iid d1 = aa_iid d2"
  show "aa_payload d1 = aa_payload d2"
  proof (rule record_store.run_agreement [OF bdb_reads.contract [OF reads] assms(4) _ _ _ assms(10,9) _ d])
    show "learner_inv n (learner_instances cfg) {} l"
      using learner_new_ok [of cfg n "{}"] assms(6-8) by auto
    show "length es + learner_instances cfg + 1 < 2 ^ 31"
      using assms(8,9) by (simp add: step_limit_def)
  qed (use st bdb_reads.fresh_store_ok [OF reads] in blast)+
qed

theorem bdb_agreement_witness:
  "deliveries_agree (sys_delivered (sys_run (bdb_ops ref_api) compete_run
     (sys_init 3 (\<lambda>a. ref_store (int a)) (small_learner 3))))"
proof (rule bdb_agreement [OF ref_files.bdb_files_axioms ref.bdb_reads_axioms, where cfg = synced_config and libs = "\<lambda>a. ref_empty"])
  show "learner_new synced_config 3 = Ok (small_learner 3)" by (rule synced_learner)
  show "\<forall>a < 3. bdb_storage_open ref_api synced_config ref_empty (int a) = Ok (Some (ref_store (int a))) \<and>
      ref_disk ref_empty = None"
    using ref_open [of synced_config] by (simp add: ref_disk_def ref_empty_def)
  show "run_ok (bdb_ops ref_api) compete_run (sys_init 3 (\<lambda>a. ref_store (int a)) (small_learner 3))"
    by (rule run_ok_plain) (simp add: compete_run_def)
qed (simp_all add: small_config_def step_limit_def compete_run_def)

text \<open>C32. Agreement and validity with restarts: with the Berkeley DB storage, with \<open>bdb-sync\<close> (not the
  default) and without \<open>bdb-trash-files\<close>, an acceptor may end at any time, between two calls, inside a
  call, before or after its commit, or because a call failed, and be started again on its directory;
  learners may be started again from nothing; proposers are not started again (C34). The database
  behaves as documented and no read of a stored record fails (C36). As in C31 the run has at most
  \<open>step_limit\<close> calls and restarts, no empty value is submitted, and repeat requests are answered only
  from records whose value ballot equals their ballot. Still no two deliveries of an instance differ,
  also those of a learner before and after a restart, and every delivered value was submitted.\<close>

theorem restart_agreement:
  assumes db: "bdb_files api contents good disk nosync" "bdb_reads api contents good"
    and cfg: "bdb_trash_files cfg = 0" "bdb_sync cfg \<noteq> 0"
    and open_ok: "\<forall>a < n. bdb_storage_open api cfg (libs a) (int a) = Ok (Some (stores a)) \<and> disk (libs a) = None"
    and n: "0 < n" "n < 2 ^ 31" and l: "learner_new cfg n = Ok l" "0 < learner_instances cfg" "learner_instances cfg \<le> 2 ^ 30"
    and run: "occurrences_ok (bdb_ops api) n l (bdb_reopens api cfg disk) xs (sys_init n stores l)" "length xs \<le> step_limit"
  shows "deliveries_agree (sys_delivered (occur_all (bdb_ops api) n l xs (sys_init n stores l))) \<and>
    (\<forall>(j, d) \<in> set (sys_delivered (occur_all (bdb_ops api) n l xs (sys_init n stores l))).
       aa_payload d \<in> set (all_submitted xs))"
proof -
  have kept: "bdb_kept api contents good disk nosync cfg"
    using db cfg by (simp add: bdb_kept_def bdb_kept_axioms_def)
  have st: "record_store.store_ok (bdb_lookup contents) bdb_live bs_acceptor_id (bdb_inv contents (\<lambda>e. good e \<and> \<not> nosync e)) (stores a) \<and>
      bs_acceptor_id (stores a) = int a \<and> disk (bs_lib (stores a)) = Some (contents (bs_lib (stores a))) \<and>
      bdb_lookup contents (stores a) i = None"
    if "a < n" for a i
    using bdb_kept.opened_empty [OF kept, of "libs a" "int a" "stores a"] open_ok that n(2) by simp
  have lim: "length xs + learner_instances cfg + 1 < 2 ^ 31" using mem_start(2) [OF l] run(2) by simp
  note S = durable_store.restarts_safe [OF bdb_kept.durable_contract [OF kept] n(1) mem_start(1) [OF l] _ _ run lim]
  let ?ds = "sys_delivered (occur_all (bdb_ops api) n l xs (sys_init n stores l))"
  have valid: "aa_payload d \<in> set (all_submitted xs)" if "(j, d) \<in> set ?ds" for j d
    by (rule S(1) [OF _ _ that]) (use st in blast)+
  have "deliveries_agree ?ds"
  proof (rule deliveries_agreeI)
    fix j1 d1 j2 d2
    assume d: "(j1, d1) \<in> set ?ds" "(j2, d2) \<in> set ?ds" "aa_iid d1 = aa_iid d2"
    show "aa_payload d1 = aa_payload d2"
      by (rule S(2) [OF _ _ d]) (use st in blast)+
  qed
  with valid show ?thesis by blast
qed

text \<open>Acceptor 0 ends while it handles a prepare request, after the commit.\<close>

theorem restart_agreement_witness:
  "\<exists>u. bdb_lookup ref_contents u 1 \<noteq> None \<and>
     occurrences_ok (bdb_ops ref_api) 3 (small_learner 3) (bdb_reopens ref_api synced_config ref_disk) (durable_run u) ref_init \<and>
     deliveries_agree (sys_delivered (occur_all (bdb_ops ref_api) 3 (small_learner 3) (durable_run u) ref_init))"
proof -
  from durable_run_ok obtain u where u: "bdb_lookup ref_contents u 1 \<noteq> None"
    "occurrences_ok (bdb_ops ref_api) 3 (small_learner 3) (bdb_reopens ref_api synced_config ref_disk) (durable_run u) ref_init"
    by blast
  have o: "\<forall>a < 3. bdb_storage_open ref_api synced_config ref_empty (int a) = Ok (Some (ref_store (int a))) \<and>
      ref_disk ref_empty = None"
    using ref_open [of synced_config] by (simp add: ref_disk_def ref_empty_def)
  have len: "length (durable_run u) \<le> step_limit" by (simp add: durable_run_def compete_run_def step_limit_def)
  have cfg: "0 < learner_instances synced_config" "learner_instances synced_config \<le> 2 ^ 30"
    by (simp_all add: small_config_def)
  from restart_agreement [OF ref_files.bdb_files_axioms ref.bdb_reads_axioms _ _ o _ _ synced_learner cfg u(2) len] u
  show ?thesis by (intro exI [of _ u]) simp
qed

text \<open>C33. The in-memory storage does not survive: an acceptor that is started again has forgotten
  its vote, promises a higher ballot without reporting a value, and another value is chosen for an
  instance that was delivered.\<close>

theorem mem_restart_disagreement:
  "\<exists>d1 d2. (0, d1) \<in> set (sys_delivered (occur_all mem_ops 3 (small_learner 3) forget_run (small_init 3))) \<and>
     (1, d2) \<in> set (sys_delivered (occur_all mem_ops 3 (small_learner 3) forget_run (small_init 3))) \<and>
     aa_iid d1 = aa_iid d2 \<and> aa_payload d1 = [7] \<and> aa_payload d2 = [9]"
  by (intro exI [of _ "aack 1 1 10 10 [7]"] exI [of _ "aack 2 1 11 11 [9]"])
    (simp add: forget_run_delivers, simp add: aack_def aa_payload_def)

text \<open>C34. A proposer keeps nothing: one that is started again with its id uses its first ballot
  again, so that two accept requests with one ballot and different values can be on their way. An
  acceptor accepts both, and two learners deliver different values.\<close>

theorem proposer_restart_disagreement:
  "\<exists>d1 d2. (0, d1) \<in> set (sys_delivered (occur_all mem_ops 3 (small_learner 3) same_ballot_run (small_init 3))) \<and>
     (1, d2) \<in> set (sys_delivered (occur_all mem_ops 3 (small_learner 3) same_ballot_run (small_init 3))) \<and>
     aa_iid d1 = aa_iid d2 \<and> aa_ballot d1 = aa_ballot d2 \<and> aa_payload d1 = [9] \<and> aa_payload d2 = [7]"
  by (intro exI [of _ "aack 2 1 10 10 [9]"] exI [of _ "aack 1 1 10 10 [7]"])
    (simp add: same_ballot_run_delivers, simp add: aack_def aa_payload_def)

text \<open>C35. The two storages are interchangeable: started empty with the same acceptor id and given
  the same requests, for instances from 1 on, they make the acceptor answer the same, in every
  field and the value, as long as neither fails and no read of the database fails (C36).\<close>

theorem storages_equivalent:
  assumes "bdb_reads api contents good" "bdb_inv contents good t"
    and "\<forall>i. i \<noteq> 0 \<longrightarrow> contents (bs_lib t) (enc32 i) = None"
    and "acceptor_run mem_ops \<lparr>acc_store = storage_open junk (bs_acceptor_id t)\<rparr> qs = Ok (rs1, a1)"
    and "acceptor_run (bdb_ops api) \<lparr>acc_store = t\<rparr> qs = Ok (rs2, b1)"
    and "\<forall>q \<in> set qs. request_iid q \<noteq> 0"
  shows "map (map_option record_view) rs1 = map (map_option record_view) rs2"
  using assms by (rule bdb_reads.mem_bdb_same)

theorem storages_equivalent_witness:
  "\<exists>rs1 a1 rs2 b1.
     acceptor_run mem_ops \<lparr>acc_store = storage_open (\<lambda>_. aack 0 0 0 0 []) 0\<rparr> example_requests = Ok (rs1, a1) \<and>
     acceptor_run (bdb_ops ref_api) \<lparr>acc_store = ref_store 0\<rparr> example_requests = Ok (rs2, b1) \<and>
     map (map_option record_view) rs2 =
       [Some (aack 0 1 10 0 []), Some (aack 0 1 10 10 [7, 8]), Some (aack 0 1 21 10 [7, 8])]"
proof -
  obtain rs2 b1 where 2: "acceptor_run (bdb_ops ref_api) \<lparr>acc_store = ref_store 0\<rparr> example_requests = Ok (rs2, b1)"
    using ref_example_run by blast
  have inv: "bdb_inv ref_contents ref_good (ref_store 0)" by (rule ref_store_inv) simp_all
  have "\<exists>rs1 a1. acceptor_run mem_ops \<lparr>acc_store = storage_open (\<lambda>_. aack 0 0 0 0 []) 0\<rparr> example_requests = Ok (rs1, a1) \<and>
     map (map_option record_view) rs1 =
       [Some (aack 0 1 10 0 []), Some (aack 0 1 10 10 [7, 8]), Some (aack 0 1 21 10 [7, 8])]"
    by (simp add: example_requests_def mem_eval record_view_def aa_payload_def aack_def mem_value_room_def
        MAX_SIZE_RECORD_def sizeof_defs)
  then obtain rs1 a1 where
    1: "acceptor_run mem_ops \<lparr>acc_store = storage_open (\<lambda>_. aack 0 0 0 0 []) 0\<rparr> example_requests = Ok (rs1, a1)"
    "map (map_option record_view) rs1 =
       [Some (aack 0 1 10 0 []), Some (aack 0 1 10 10 [7, 8]), Some (aack 0 1 21 10 [7, 8])]"
    by (elim exE conjE)
  have "map (map_option record_view) rs1 = map (map_option record_view) rs2"
    by (rule storages_equivalent [OF ref.bdb_reads_axioms inv _ _ 2, of "\<lambda>_. aack 0 0 0 0 []" rs1 a1])
      (use 1 in \<open>simp_all add: ref_store_def ref_contents_def example_requests_def\<close>)
  with 1 2 show ?thesis by metis
qed

text \<open>Persistence: an acceptor whose last transaction committed with \<open>bdb-sync\<close>, whose process ends and
  which is started again on the same directory without \<open>bdb-trash-files\<close>, holds the records it held.\<close>

theorem bdb_restart:
  assumes "bdb_files api contents good disk nosync" "bdb_inv contents good s"
    and "bdb_storage_tx_commit api s = Ok t" "\<not> nosync (bs_lib s)" "disk lib = disk (bs_lib t)"
    and "bdb_storage_open api cfg lib (bs_acceptor_id s) = Ok (Some u)" "bdb_trash_files cfg = 0"
  shows "bdb_inv contents good u \<and> bs_acceptor_id u = bs_acceptor_id s \<and>
    bdb_lookup contents u = bdb_lookup contents s"
  using assms by (rule bdb_files.restart)

theorem bdb_restart_witness:
  "\<exists>t u. bdb_storage_tx_commit ref_api (ref_store 1) = Ok t \<and>
     bdb_storage_open ref_api default_config ((bs_lib t)\<lparr>rd_data := None\<rparr>) 1 = Ok (Some u) \<and>
     bdb_lookup ref_contents u = bdb_lookup ref_contents (ref_store 1)"
proof -
  have id: "bs_acceptor_id (ref_store 1) = 1" "\<not> rd_nosync (bs_lib (ref_store 1))" by (simp_all add: ref_store_def)
  obtain t where t: "bdb_storage_tx_commit ref_api (ref_store 1) = Ok t"
    and d: "rd_disk (bs_lib t) = Some []"
    using ref_commit [of "ref_store 1"] by (simp add: ref_store_def)
  have "\<exists>u. bdb_storage_open ref_api default_config ((bs_lib t)\<lparr>rd_data := None\<rparr>) 1 = Ok (Some u)"
    using d by (simp add: bdb_storage_open_def ref_api_def Let_def default_config_def
      bdb_init_tx_handle_def bdb_init_db_def bdb_storage_tx_begin_def bdb_storage_tx_commit_def)
  then obtain u where
    u: "bdb_storage_open ref_api default_config ((bs_lib t)\<lparr>rd_data := None\<rparr>) (bs_acceptor_id (ref_store 1)) = Ok (Some u)"
    by (auto simp: id)
  have "bdb_inv ref_contents ref_good (ref_store 1)" by (rule ref_store_inv) simp_all
  from bdb_restart [OF ref_files.bdb_files_axioms this t id(2) _ u] have
    "bdb_lookup ref_contents u = bdb_lookup ref_contents (ref_store 1)"
    by (simp add: ref_disk_def default_config_def)
  with t u show ?thesis by (auto simp: id)
qed

text \<open>C36. A read error is taken for a missing record: when the get inside the transaction returns any
  error, the acceptor answers any prepare request with a promise without a value and overwrites what it
  had promised or accepted in the instance.\<close>

theorem bdb_read_error:
  assumes "bdb api contents good" "bdb_inv contents good (acc_store a)"
    and "db_get api (snd (env_txn_begin api (bs_lib (acc_store a)))) (enc32 (pr_iid pr)) PAXOS_MAX_VALUE_SIZE = (r, d, e)"
    and "r \<noteq> 0" "acceptor_receive_prepare (bdb_ops api) a pr = Ok (rec, b)"
  shows "is_promise_record (bs_acceptor_id (acc_store a)) pr rec \<and>
    bdb_lookup contents (acc_store b) (pr_iid pr) = Some rec"
  using assms by (rule bdb.read_error_overwrites)

text \<open>The vote of acceptor 0 for the value 7, 8 with ballot 10 is lost, even to a lower ballot.\<close>

theorem bdb_read_error_witness:
  "\<exists>voted vote rec b. bdb_lookup ref_contents (acc_store voted) 1 = Some vote \<and>
     aa_value_ballot vote = 10 \<and> aa_payload vote = [7, 8] \<and>
     acceptor_receive_prepare (bdb_ops faulty_api) voted (prep 1 3) = Ok (rec, b) \<and>
     is_promise_record 0 (prep 1 3) rec \<and> bdb_lookup ref_contents (acc_store b) 1 = Some rec"
proof -
  from ref_vote obtain vote and a :: "ref_db bdb_storage acceptor" where a: "bdb_inv ref_contents ref_good (acc_store a)" "bs_acceptor_id (acc_store a) = 0"
    "bdb_lookup ref_contents (acc_store a) 1 = Some vote" "aa_value_ballot vote = 10" "aa_payload vote = [7, 8]"
    by - (elim exE conjE, rule that)
  from faulty_prepare_total [OF a(1)] obtain rec b where
    b: "acceptor_receive_prepare (bdb_ops faulty_api) a (prep 1 3) = Ok (rec, b)" by blast
  obtain e where "db_get faulty_api (snd (env_txn_begin faulty_api (bs_lib (acc_store a))))
      (enc32 (pr_iid (prep 1 3))) PAXOS_MAX_VALUE_SIZE = (5, [], e)" by (simp add: faulty_api_def)
  from bdb_read_error [OF faulty.bdb_axioms a(1) this _ b] a b show ?thesis
    by (intro exI [of _ a] exI [of _ vote] exI [of _ rec] exI [of _ b]) (simp add: prep_def)
qed

text \<open>C37. \<open>storage_get_max_iid\<close> always returns, and returns the instance whose key is last in the
  byte order of the database, which for little-endian keys is not the highest instance: of 255
  and 256 it is 255.\<close>

theorem max_iid_last_key:
  assumes "bdb_cursor api contents good ahead" "good (bs_lib s)" "db_cursor api (bs_lib s) = (0, e1)"
  shows "\<exists>ks. sorted_wrt ord_class.lexordp ks \<and> set ks = dom (contents (bs_lib s)) \<and>
     bdb_storage_get_max_iid api s = Some (if ks = [] then 0 else dec32 0 (last ks))"
  using assms by (rule bdb_cursor.get_max_iid_last)

theorem max_iid_last_key_witness:
  "\<exists>s. dom (ref_contents (bs_lib s)) = {enc32 255, enc32 256} \<and> bdb_storage_get_max_iid ref_api s = Some 255 \<and>
     (\<exists>ks. set ks = {enc32 255, enc32 256} \<and> dec32 0 (last ks) = 255)"
proof -
  let ?lib = "\<lparr>rd_disk = None, rd_data = Some [(enc32 256, []), (enc32 255, [])], rd_cursor = [], rd_nosync = False\<rparr>"
  let ?s = "\<lparr>bs_lib = ?lib, bs_db = True, bs_env = True, bs_txn = True, bs_acceptor_id = 0, bs_record_buf = []\<rparr>"
  have good: "ref_good (bs_lib ?s)"
    by code_simp
  have dom: "dom (ref_contents (bs_lib ?s)) = {enc32 255, enc32 256}"
    by (simp add: ref_contents_def insert_commute)
  have max: "bdb_storage_get_max_iid ref_api ?s = Some 255"
    by code_simp
  have cur: "db_cursor ref_api (bs_lib ?s) = (0, ?lib\<lparr>rd_cursor := [enc32 256, enc32 255]\<rparr>)"
    by (simp add: ref_api_def)
  from max_iid_last_key [OF ref_cursor.bdb_cursor_axioms good cur] obtain ks where
    "set ks = {enc32 255, enc32 256}" "Some 255 = Some (if ks = [] then 0 else dec32 0 (last ks))"
    unfolding dom max by blast
  then have "set ks = {enc32 255, enc32 256}" "dec32 0 (last ks) = 255" by (auto split: if_splits)
  with dom max show ?thesis by blast
qed

text \<open>When the environment of the database cannot be opened, \<open>storage_open\<close> does not return NULL:
  it goes on and dereferences the NULL pointer of the environment.\<close>

theorem bdb_open_env_error:
  assumes "os_stat api lib path = (0, e1)" "path = bdb_env_path cfg @ ''_'' @ print_int aid"
    and "bdb_trash_files cfg = 0"
    and "bdb_init_tx_handle api cfg
        \<lparr>bs_lib = e1, bs_db = False, bs_env = False, bs_txn = False, bs_acceptor_id = aid,
         bs_record_buf = replicate PAXOS_MAX_VALUE_SIZE 0\<rparr> path = (r, s1)" "r \<noteq> 0"
    and "db_create api (bs_lib s1) = (0, e2)"
  shows "bdb_storage_open api cfg lib aid = Err NullPointer"
proof -
  have "\<not> bs_env s1" using init_tx_handle_fails [OF assms(4,5)] by simp
  from open_without_env [OF this assms(6)] assms(1-4) show ?thesis
    by (simp add: bdb_storage_open_def Let_def)
qed

theorem bdb_open_env_error_witness:
  "bdb_storage_open (ref_api\<lparr>env_open := \<lambda>e p f. (13, e)\<rparr>) default_config
     \<lparr>rd_disk = Some [], rd_data = None, rd_cursor = [], rd_nosync = False\<rparr> 0 = Err NullPointer"
  by (rule bdb_open_env_error [where r = "- 1", OF _ refl])
    (simp_all add: ref_api_def default_config_def bdb_init_tx_handle_def)

section \<open>Configuration files\<close>

text \<open>C38. Reading back a configuration: a file that lists acceptors and proposers in any order, at
  most \<open>MAX_ADDR\<close> of each, one printed line each, is read as exactly these addresses in the
  order of the file, with the parameters unchanged; the parser never fails on it.\<close>

theorem config_roundtrip:
  assumes "\<forall>e \<in> set es. entry_ok e"
    and "length (addresses_of True es) \<le> MAX_ADDR" "length (addresses_of False es) \<le> MAX_ADDR"
  shows "read_config (Some (concat (map entry_line es))) pc = Ok (config_of es, pc)"
  using assms by (intro read_printed_config) (auto simp: all_bool_eq)

theorem config_roundtrip_witness:
  "read_config (Some (concat (map entry_line
      [(True, 0, ''127.0.0.1'', 8800), (False, 0, ''127.0.0.1'', 5550), (True, 1, ''host'', 8801)]))) default_config =
   Ok (\<lparr>proposers_count = 1, acceptors_count = Suc (Suc 0),
        proposers = Some (address_init ''127.0.0.1'' 5550) # replicate 9 None,
        acceptors = Some (address_init ''127.0.0.1'' 8800) # Some (address_init ''host'' 8801) # replicate 8 None\<rparr>,
       default_config)"
  using config_roundtrip [of "[(True, 0, ''127.0.0.1'', 8800), (False, 0, ''127.0.0.1'', 5550), (True, 1, ''host'', 8801)]" default_config]
  by (simp add: entry_ok_def word_ok_def isspace_def addresses_of_def MAX_ADDR_def config_of_def
      addr_array_def entry_address_def)

text \<open>One address more than \<open>MAX_ADDR\<close> of its kind is written outside the array, whatever
  follows in the file: \<open>parse_line\<close> does not compare the count with the size.\<close>

theorem config_too_many:
  assumes "\<forall>e \<in> set (es @ [e]). entry_ok e"
    and "length (addresses_of True es) \<le> MAX_ADDR" "length (addresses_of False es) \<le> MAX_ADDR"
    and "length (addresses_of (fst e) es) = MAX_ADDR"
  shows "read_config (Some (concat (map entry_line (es @ [e] @ rest)))) pc = Err OutOfBounds"
  using assms by (intro read_too_many) (auto simp: all_bool_eq)

theorem config_too_many_witness:
  "read_config (Some (concat (map entry_line
     (replicate 10 (True, 0, ''h'', 1) @ [(True, 0, ''h'', 1)] @ [])))) default_config = Err OutOfBounds"
  by (rule config_too_many)
    (simp_all add: entry_ok_def word_ok_def isspace_def addresses_of_def MAX_ADDR_def)

text \<open>A line that holds only the name of an option, or only blanks, ends the process with a
  NULL dereference instead of the error message of \<open>read_config\<close>: the result of \<open>strsep\<close> is
  passed to \<open>strtrim\<close>.\<close>

theorem option_without_value:
  assumes "\<forall>c \<in> set tok. \<not> isspace c" "\<not> strcaseeq tok ''a''" "\<not> strcaseeq tok ''p''"
  shows "parse_line (tok @ [CHR 0x0A]) st = Err NullPointer"
  using assms by (rule option_without_argument)

theorem option_without_value_witness:
  "parse_line (''verbosity'' @ [CHR 0x0A]) (empty_config, default_config) = Err NullPointer"
  using option_without_value [of "''verbosity''" "(empty_config, default_config)"]
  by (simp add: isspace_def strcaseeq_def)

section \<open>The unit tests of the repository\<close>

text \<open>The model passes every test of \<open>unit/acceptor_unittest.cc\<close>, with the in-memory
  storage and whatever the memory held that the storage allocates, and every test of
  \<open>unit/learner_unittest.cc\<close>, with a window of 128 instances.\<close>

theorem acceptor_learner_unit_tests:
  "list_all (\<lambda>t. rbind (AcceptorTest_SetUp (Some (storage_open junk acceptor_test_id))) (t mem_ops) = Ok ())
     acceptor_tests \<and> learner_tests_pass (default_config\<lparr>learner_instances := 128\<rparr>)"
proof
  show "list_all (\<lambda>t. rbind (AcceptorTest_SetUp (Some (storage_open junk acceptor_test_id))) (t mem_ops) = Ok ())
     acceptor_tests"
    using acceptor_tests_mem [of junk] by (simp add: mem_setup)
  show "learner_tests_pass (default_config\<lparr>learner_instances := 128\<rparr>)" by code_simp
qed

text \<open>The model passes every test of \<open>unit/proposer_unittest.cc\<close> but one:
  \<open>PrepareAlreadyClosed\<close> expects that an instance is closed once a majority of promises reports
  the same value, and the code that closed it is commented out. The allocated memory is zero,
  and \<open>usleep\<close> takes the 100 microseconds it is called with.\<close>

theorem proposer_unit_tests:
  "failing (proposer_tests (\<lambda>_. 0) \<lparr>tv_sec = 0, tv_usec = 0\<rparr> \<lparr>tv_sec = 0, tv_usec = 100\<rparr>
     \<lparr>tv_sec = 0, tv_usec = 101\<rparr>) = [''PrepareAlreadyClosed'']"
  by code_simp

end
